(* ===== verification/Prelude.thy ===== *)
theory Prelude
  imports Main "HOL-Library.Word" "HOL-Library.Monad_Syntax"
begin

unbundle bit_operations_syntax

text \<open>
  Shared vocabulary of the development: the machine integers of the C++ sources, the way a
  possibly faulting operation is written, the little-endian memory image of an integer, and
  the generic lemmas on lists, options and words that the component theories use.

  Conventions. A \<^verbatim>\<open>uintN_t\<close> is an \<open>N word\<close>; an \<^verbatim>\<open>intN_t\<close> is the same word read by
  \<open>sint\<close>. A \<^verbatim>\<open>size_t\<close> (64 bits) that only counts elements of an allocated object is a
  \<open>nat\<close>, and each addition or multiplication the source performs on it is \<open>sz_add\<close> or
  \<open>sz_mul\<close>, which wrap at 64 bits. An operation of type \<open>'a option\<close> returns \<open>None\<close> when
  the C++ execution has undefined behaviour (an access outside a block, a read of an
  uninitialised slot, a shift by the width or more) or fails an \<^verbatim>\<open>assert\<close>. The integer
  error codes the sources return are values: \<open>Inl code\<close> for a non-zero return, \<open>Inr v\<close> for
  a return of 0 that stored \<open>v\<close> in the out parameter.
\<close>

section \<open>Machine integers\<close>

type_synonym u8 = "8 word"
type_synonym u16 = "16 word"
type_synonym u32 = "32 word"
type_synonym u64 = "64 word"

type_synonym bytes = "8 word list"
type_synonym 'a rres = "int + 'a"

named_theorems xx_defs \<open>definitions unfolded by the component proofs\<close>
named_theorems mem_simps \<open>reads and writes of memory blocks\<close>
named_theorems refine_simps \<open>what an operation does to the abstract contents\<close>

definition SIZE_BOUND :: nat where
  "SIZE_BOUND = 2 ^ 64"

definition PTRDIFF_MAX :: nat where
  "PTRDIFF_MAX = 2 ^ 63 - 1"

definition sz_add :: "nat \<Rightarrow> nat \<Rightarrow> nat" where
  "sz_add a b = (a + b) mod SIZE_BOUND"

definition sz_mul :: "nat \<Rightarrow> nat \<Rightarrow> nat" where
  "sz_mul a b = (a * b) mod SIZE_BOUND"

definition sz_sub :: "nat \<Rightarrow> nat \<Rightarrow> nat" where
  "sz_sub a b = (a + (SIZE_BOUND - b mod SIZE_BOUND)) mod SIZE_BOUND"

lemma SIZE_BOUND_PTRDIFF: "SIZE_BOUND = 2 * PTRDIFF_MAX + 2"
  by (simp add: SIZE_BOUND_def PTRDIFF_MAX_def)

lemma sz_add_exact [simp]: "a + b < SIZE_BOUND \<Longrightarrow> sz_add a b = a + b"
  by (simp add: sz_add_def)

lemma sz_mul_exact [simp]: "a * b < SIZE_BOUND \<Longrightarrow> sz_mul a b = a * b"
  by (simp add: sz_mul_def)

lemma sz_sub_exact [simp]: "b \<le> a \<Longrightarrow> a < SIZE_BOUND \<Longrightarrow> sz_sub a b = a - b"
proof -
  assume le: "b \<le> a" and lt: "a < SIZE_BOUND"
  then have "b mod SIZE_BOUND = b" by simp
  then have "sz_sub a b = ((a - b) + SIZE_BOUND) mod SIZE_BOUND"
    using le lt by (simp add: sz_sub_def)
  also have "\<dots> = a - b" using lt by simp
  finally show ?thesis .
qed

lemma sz_add_less: "sz_add a b < SIZE_BOUND"
  by (simp add: sz_add_def SIZE_BOUND_def)

lemma unat_of_nat64: "n < SIZE_BOUND \<Longrightarrow> unat (of_nat n :: u64) = n"
  by (simp add: SIZE_BOUND_def unat_of_nat)

text \<open>Signed 32 bit arithmetic: a result outside the range is undefined behaviour.\<close>

definition i32 :: "int \<Rightarrow> int option" where
  "i32 x = (if - (2 ^ 31) \<le> x \<and> x < 2 ^ 31 then Some x else None)"

section \<open>Little-endian memory images\<close>

text \<open>
  The object representation of an unsigned integer on the little-endian targets of the
  project (x86, ARM): \<open>le_bytes n w\<close> is what \<^verbatim>\<open>memcpy\<close> of an \<open>n\<close>-byte integer copies,
  \<open>le_word\<close> what loading those bytes back gives.
\<close>

primrec le_bytes :: "nat \<Rightarrow> 'a::len word \<Rightarrow> bytes" where
  "le_bytes 0 w = []"
| "le_bytes (Suc n) w = ucast w # le_bytes n (drop_bit 8 w)"

primrec le_word :: "bytes \<Rightarrow> 'a::len word" where
  "le_word [] = 0"
| "le_word (b # bs) = ucast b OR push_bit 8 (le_word bs)"

lemma length_le_bytes [simp]: "length (le_bytes n w) = n"
  by (induction n arbitrary: w) auto

lemma le_word_le_bytes_take: "le_word (le_bytes n (w :: 'a::len word)) = take_bit (8 * n) w"
proof (induction n arbitrary: w)
  case 0
  then show ?case by simp
next
  case (Suc n)
  show ?case
    by (rule bit_eqI)
      (auto simp: Suc bit_simps not_less bit_imp_le_length dest: bit_imp_le_length)
qed

lemma le_word_le_bytes:
  assumes "LENGTH('a) \<le> 8 * n"
  shows "le_word (le_bytes n (w :: 'a::len word)) = w"
  using assms by (simp add: le_word_le_bytes_take take_bit_word_eq_self)

lemma le_bytes_le_word:
  assumes "8 * length bs \<le> LENGTH('a)"
  shows "le_bytes (length bs) (le_word bs :: 'a::len word) = bs"
  using assms
proof (induction bs)
  case Nil
  then show ?case by simp
next
  case (Cons b bs)
  let ?w = "le_word bs :: 'a word"
  have low: "(ucast (ucast b OR push_bit 8 ?w :: 'a word) :: u8) = b"
    using Cons.prems by (intro bit_eqI) (auto simp: bit_simps dest: bit_imp_le_length)
  have bnd: "\<not> bit (le_word bs :: 'a word) i" if "8 * length bs \<le> i" for i
    using that
  proof (induction bs arbitrary: i)
    case Nil
    then show ?case by simp
  next
    case (Cons c cs)
    then show ?case by (auto simp: bit_simps dest: bit_imp_le_length)
  qed
  have high: "drop_bit 8 (ucast b OR push_bit 8 ?w :: 'a word) = ?w"
  proof (rule bit_eqI)
    fix i
    assume "possible_bit TYPE('a word) i"
    then have i: "i < LENGTH('a)" by simp
    have "bit ?w i \<Longrightarrow> 8 + i < LENGTH('a)"
      using bnd [of i] Cons.prems by (cases "i < 8 * length bs") auto
    then show "bit (drop_bit 8 (ucast b OR push_bit 8 ?w :: 'a word)) i = bit ?w i"
      by (auto simp: bit_simps dest: bit_imp_le_length)
  qed
  from Cons low high show ?case by simp
qed

section \<open>Lists and options\<close>

lemma take_drop_append_exact:
  "length xs = n \<Longrightarrow> take n (xs @ ys) = xs \<and> drop n (xs @ ys) = ys"
  by simp

lemma nth_take_drop: "i < n \<Longrightarrow> k + n \<le> length xs \<Longrightarrow> take n (drop k xs) ! i = xs ! (k + i)"
  by simp

lemma take_Suc_update:
  "n < length xs \<Longrightarrow> take (Suc n) (xs[n := x]) = take n xs @ [x]"
  by (simp add: take_Suc_conv_app_nth)

lemma all_some_map_the:
  "\<forall>x\<in>set xs. x \<noteq> None \<Longrightarrow> map Some (map the xs) = xs"
  by (induction xs) auto

lemma bind_Some_iff: "(Option.bind m f = Some y) = (\<exists>x. m = Some x \<and> f x = Some y)"
  by (cases m) auto

section \<open>Folding a faulting step over a list\<close>

primrec kfold :: "('a \<Rightarrow> 's \<Rightarrow> 's option) \<Rightarrow> 'a list \<Rightarrow> 's \<Rightarrow> 's option" where
  "kfold f [] s = Some s"
| "kfold f (x # xs) s = do { s' \<leftarrow> f x s; kfold f xs s' }"

lemma kfold_append: "kfold f (xs @ ys) s = do { s' \<leftarrow> kfold f xs s; kfold f ys s' }"
  by (induction xs arbitrary: s) (auto simp: bind_assoc)

end
