(* ===== verification/Objects.thy ===== *)
theory Objects
  imports Prelude
begin

unbundle bit_operations_syntax

text \<open>
  The utilities of \<^verbatim>\<open>test_uv_3/xx_object.h\<close> that the rest of the library stands on: the
  rounding of a byte count to a power of two (\<open>Calc2n\<close>, \<open>Round2n\<close>), the 128 bit identifier
  \<open>Guid\<close> with its byte image, hash and text form, and the \<open>ScopeGuard\<close> that constructors use
  to undo work.
\<close>

section \<open>Powers of two\<close>

text \<open>\<^verbatim>\<open>__builtin_clzl\<close>: the number of zero bits above the highest one bit.\<close>

definition clz64 :: "u64 \<Rightarrow> nat" where
  "clz64 n = length (takeWhile (\<lambda>i. \<not> bit n i) (rev [0..<64]))"

definition Calc2n :: "u64 \<Rightarrow> nat option" where
  "Calc2n n = (if n = 0 then None else Some (63 - clz64 n))"

definition Round2n :: "u64 \<Rightarrow> u64 option" where
  "Round2n n = do {
     k \<leftarrow> Calc2n n;
     let rtv = push_bit k (1 :: u64);
     Some (if rtv = n then n else push_bit 1 rtv) }"

lemma top_bit_nat: "x < 2 ^ Suc m \<Longrightarrow> bit (x :: nat) m \<longleftrightarrow> 2 ^ m \<le> x"
proof -
  assume "x < 2 ^ Suc m"
  then have "x div 2 ^ m < 2" by (simp add: less_mult_imp_div_less)
  then have "odd (x div 2 ^ m) \<longleftrightarrow> x div 2 ^ m \<noteq> 0" by (auto simp: less_2_cases_iff)
  then show ?thesis by (simp add: bit_iff_odd div_eq_0_iff not_less)
qed

lemma leading_zeros_nat:
  "0 < x \<Longrightarrow> (x :: nat) < 2 ^ m \<Longrightarrow>
   (let c = length (takeWhile (\<lambda>i. \<not> bit x i) (rev [0..<m]))
    in c < m \<and> 2 ^ (m - 1 - c) \<le> x \<and> x < 2 ^ (m - c))"
proof (induction m)
  case 0
  then show ?case by simp
next
  case (Suc m)
  show ?case
  proof (cases "2 ^ m \<le> x")
    case True
    with Suc.prems show ?thesis by (simp add: top_bit_nat)
  next
    case False
    with Suc show ?thesis by (auto simp: top_bit_nat Let_def not_le)
  qed
qed

lemma Calc2n_bounds:
  assumes "Calc2n n = Some k"
  shows "k < 64 \<and> 2 ^ k \<le> unat n \<and> unat n < 2 ^ Suc k"
proof -
  from assms have nz: "0 < unat n" and k: "k = 63 - clz64 n"
    by (auto simp: Calc2n_def unat_gt_0 split: if_splits)
  have lt: "unat n < 2 ^ 64" using unsigned_less [of n, where 'a = nat] by simp
  have "clz64 n = length (takeWhile (\<lambda>i. \<not> bit (unat n) i) (rev [0..<64]))"
    by (simp add: clz64_def bit_unsigned_iff)
  with leading_zeros_nat [OF nz lt] have "clz64 n < 64 \<and> 2 ^ (63 - clz64 n) \<le> unat n \<and>
      unat n < 2 ^ (64 - clz64 n)" by (simp add: Let_def)
  moreover from this have "64 - clz64 n = Suc (63 - clz64 n)" by arith
  ultimately show ?thesis using k by simp
qed

lemma Calc2n_total: "n \<noteq> 0 \<Longrightarrow> \<exists>k. Calc2n n = Some k"
  by (simp add: Calc2n_def)

lemma unat_two_power: "k < 64 \<Longrightarrow> unat (2 ^ k :: u64) = 2 ^ k"
proof -
  assume "k < 64"
  then have "(2 :: nat) ^ k < 2 ^ 64" by (intro power_strict_increasing) auto
  then have "unat (of_nat (2 ^ k) :: u64) = 2 ^ k" by (subst unat_of_nat) simp
  then show ?thesis by simp
qed

lemma Round2n_spec:
  assumes "n \<noteq> 0" and "unat n \<le> 2 ^ 63"
  shows "\<exists>r k. Round2n n = Some r \<and> unat r = 2 ^ k \<and> unat n \<le> unat r \<and> unat r < 2 * unat n"
proof -
  from assms(1) obtain k where k: "Calc2n n = Some k" using Calc2n_total by blast
  note b = Calc2n_bounds [OF k]
  show ?thesis
  proof (cases "push_bit k 1 = n")
    case True
    with b k have "Round2n n = Some n" and "unat n = 2 ^ k"
      by (auto simp: Round2n_def unat_two_power)
    then show ?thesis by auto
  next
    case False
    with b have ne: "unat n \<noteq> 2 ^ k" by (metis unat_two_power push_bit_of_1 word_unat_eq_iff)
    with b have "(2 :: nat) ^ k < 2 ^ 63" using assms(2) by linarith
    then have k63: "k < 63" by (rule power_less_imp_less_exp [rotated]) simp
    have "Round2n n = Some (2 ^ Suc k)"
      using k False by (simp add: Round2n_def push_bit_push_bit)
    moreover have "unat (2 ^ Suc k :: u64) = 2 ^ Suc k"
      using k63 by (intro unat_two_power) simp
    ultimately show ?thesis using b ne
      by (intro exI [of _ "2 ^ Suc k"] exI [of _ "Suc k"]) simp
  qed
qed

text \<open>
  Above \<open>2 ^ 63\<close> the second shift drops the only one bit: the result is 0, a size no
  request fits in.
\<close>

lemma Round2n_overflow:
  assumes "2 ^ 63 < unat n"
  shows "Round2n n = Some 0"
proof -
  from assms have "n \<noteq> 0" by auto
  then obtain k where k: "Calc2n n = Some k" using Calc2n_total by blast
  note b = Calc2n_bounds [OF k]
  have "63 \<le> k"
  proof (rule ccontr)
    assume "\<not> 63 \<le> k"
    then have "(2 :: nat) ^ Suc k \<le> 2 ^ 63" by (intro power_increasing) auto
    with b assms show False by simp
  qed
  with b have k63: "k = 63" by simp
  have "unat (2 ^ 63 :: u64) = 2 ^ 63" by (rule unat_two_power) simp
  with assms have "push_bit 63 1 \<noteq> n" by auto
  with k k63 show ?thesis by (simp add: Round2n_def push_bit_eq_mult)
qed

text \<open>The same rounding on a byte count kept as a natural number.\<close>

definition Round2n_sz :: "nat \<Rightarrow> nat option" where
  "Round2n_sz n = map_option unat (Round2n (of_nat n))"

lemma Round2n_sz_spec:
  assumes "0 < n" and "n \<le> 2 ^ 63"
  shows "\<exists>r k. Round2n_sz n = Some r \<and> r = 2 ^ k \<and> n \<le> r \<and> r < 2 * n"
proof -
  have u: "unat (of_nat n :: u64) = n" using assms(2) by (simp add: unat_of_nat64 SIZE_BOUND_def)
  with assms(1) have "(of_nat n :: u64) \<noteq> 0" by (metis less_numeral_extra(3) unat_0)
  with Round2n_spec [of "of_nat n"] u assms(2) show ?thesis by (auto simp: Round2n_sz_def)
qed

section \<open>Guid\<close>

text \<open>
  The union of two 64 bit parts with the \<^verbatim>\<open>data1 .. data4\<close> view. \<open>guid_bytes\<close> is its
  16 byte object representation, which the codecs copy.
\<close>

record Guid =
  part1 :: u64
  part2 :: u64

definition Guid_zero :: Guid where
  "Guid_zero = \<lparr>part1 = 0, part2 = 0\<rparr>"

definition Guid_eq :: "Guid \<Rightarrow> Guid \<Rightarrow> bool" where
  "Guid_eq a b \<longleftrightarrow> part1 a = part1 b \<and> part2 a = part2 b"

definition Guid_ne :: "Guid \<Rightarrow> Guid \<Rightarrow> bool" where
  "Guid_ne a b \<longleftrightarrow> part1 a \<noteq> part1 b \<or> part2 a \<noteq> part2 b"

definition IsZero :: "Guid \<Rightarrow> bool" where
  "IsZero g \<longleftrightarrow> part1 g = 0 \<and> part2 g = 0"

definition guid_bytes :: "Guid \<Rightarrow> bytes" where
  "guid_bytes g = le_bytes 8 (part1 g) @ le_bytes 8 (part2 g)"

definition Fill :: "bytes \<Rightarrow> Guid option" where
  "Fill b = (if length b < 16 then None
     else Some \<lparr>part1 = le_word (take 8 b), part2 = le_word (take 8 (drop 8 b))\<rparr>)"

definition Guid_hash :: "Guid \<Rightarrow> u64" where
  "Guid_hash g = part1 g XOR part2 g"

definition data1 :: "Guid \<Rightarrow> u32" where
  "data1 g = ucast (part1 g)"

definition data2 :: "Guid \<Rightarrow> u16" where
  "data2 g = ucast (drop_bit 32 (part1 g))"

definition data3 :: "Guid \<Rightarrow> u16" where
  "data3 g = ucast (drop_bit 48 (part1 g))"

definition data4 :: "Guid \<Rightarrow> bytes" where
  "data4 g = le_bytes 8 (part2 g)"

lemma length_guid_bytes [simp]: "length (guid_bytes g) = 16"
  by (simp add: guid_bytes_def)

lemma Guid_eq_iff: "Guid_eq a b \<longleftrightarrow> a = b"
  by (auto simp: Guid_eq_def)

lemma Guid_ne_iff: "Guid_ne a b \<longleftrightarrow> a \<noteq> b"
  by (auto simp: Guid_ne_def)

lemma Fill_guid_bytes: "Fill (guid_bytes g @ rest) = Some g"
  by (simp add: Fill_def guid_bytes_def le_word_le_bytes)

lemma guid_bytes_Fill:
  assumes "Fill b = Some g"
  shows "guid_bytes g = take 16 b"
proof -
  from assms have len: "16 \<le> length b"
    and g: "g = \<lparr>part1 = le_word (take 8 b), part2 = le_word (take 8 (drop 8 b))\<rparr>"
    by (auto simp: Fill_def split: if_splits)
  have l1: "length (take 8 b) = 8" and l2: "length (take 8 (drop 8 b)) = 8" using len by auto
  have "le_bytes 8 (le_word (take 8 b) :: u64) = take 8 b"
    using le_bytes_le_word [of "take 8 b", where 'a = 64] l1 by simp
  moreover have "le_bytes 8 (le_word (take 8 (drop 8 b)) :: u64) = take 8 (drop 8 b)"
    using le_bytes_le_word [of "take 8 (drop 8 b)", where 'a = 64] l2 by simp
  moreover have "take 8 b @ take 8 (drop 8 b) = take 16 b"
    using take_add [of 8 8 b] by simp
  ultimately show ?thesis by (simp add: guid_bytes_def g)
qed

lemma Fill_None_iff: "Fill b = None \<longleftrightarrow> length b < 16"
  by (simp add: Fill_def)

lemma inj_guid_bytes: "guid_bytes a = guid_bytes b \<Longrightarrow> a = b"
  by (metis Fill_guid_bytes option.inject)

section \<open>Text form\<close>

text \<open>\<^verbatim>\<open>%0nX\<close>: the last \<open>n\<close> hexadecimal digits of a word, most significant first.\<close>

definition hex_digit :: "nat \<Rightarrow> char" where
  "hex_digit d = ''0123456789ABCDEF'' ! d"

primrec hexX :: "nat \<Rightarrow> 'a::len word \<Rightarrow> string" where
  "hexX 0 w = []"
| "hexX (Suc n) w = hexX n (drop_bit 4 w) @ [hex_digit (unat (w AND 15))]"

text \<open>
  \<^verbatim>\<open>SFuncs<Guid>::WriteTo\<close>: 37 characters are reserved, \<^verbatim>\<open>snprintf\<close> fills 36 and the
  terminating zero, and the last \<^verbatim>\<open>resize\<close> drops that zero.
\<close>

definition Guid_WriteTo :: "string \<Rightarrow> Guid \<Rightarrow> string" where
  "Guid_WriteTo s g = s @ hexX 8 (data1 g) @ ''-'' @ hexX 4 (data2 g) @ ''-'' @ hexX 4 (data3 g)
     @ ''-'' @ hexX 2 (data4 g ! 0) @ hexX 2 (data4 g ! 1) @ ''-''
     @ hexX 2 (data4 g ! 2) @ hexX 2 (data4 g ! 3) @ hexX 2 (data4 g ! 4) @ hexX 2 (data4 g ! 5)
     @ hexX 2 (data4 g ! 6) @ hexX 2 (data4 g ! 7)"

lemma length_hexX [simp]: "length (hexX n w) = n"
  by (induction n arbitrary: w) auto

lemma length_Guid_WriteTo: "length (Guid_WriteTo s g) = length s + 36"
  by (simp add: Guid_WriteTo_def)

lemma hex_digit_inj: "a < 16 \<Longrightarrow> b < 16 \<Longrightarrow> hex_digit a = hex_digit b \<Longrightarrow> a = b"
proof -
  have "distinct ''0123456789ABCDEF''" by simp
  moreover assume "a < 16" "b < 16" "hex_digit a = hex_digit b"
  ultimately show ?thesis by (simp add: hex_digit_def nth_eq_iff_index_eq)
qed

lemma nibble_less: "unat (w AND 15 :: 'a::len word) < 16"
proof -
  have "w AND 15 \<le> 15" by (rule word_and_le1)
  then have "unat (w AND 15) \<le> unat (15 :: 'a word)" by (simp add: word_le_nat_alt)
  also have "\<dots> \<le> 15" by (simp add: unat_numeral)
  finally show ?thesis by simp
qed

lemma hexX_inj: "hexX n v = hexX n (w :: 'a::len word) \<Longrightarrow> take_bit (4 * n) v = take_bit (4 * n) w"
proof (induction n arbitrary: v w)
  case 0
  then show ?case by simp
next
  case (Suc n)
  from Suc.prems have "hexX n (drop_bit 4 v) = hexX n (drop_bit 4 w)"
    and dig: "hex_digit (unat (v AND 15)) = hex_digit (unat (w AND 15))" by simp_all
  then have hi: "take_bit (4 * n) (drop_bit 4 v) = take_bit (4 * n) (drop_bit 4 w)"
    by (intro Suc.IH)
  have "unat (v AND 15) = unat (w AND 15)"
    by (rule hex_digit_inj [OF nibble_less nibble_less dig])
  then have "v AND mask 4 = w AND mask 4" by (simp add: mask_eq_exp_minus_1 word_unat_eq_iff)
  then have lo: "take_bit 4 v = take_bit 4 w" by (simp add: take_bit_eq_mask)
  show ?case
  proof (rule bit_eqI)
    fix i
    show "bit (take_bit (4 * Suc n) v) i = bit (take_bit (4 * Suc n) w) i"
    proof (cases "i < 4")
      case True
      with arg_cong [OF lo, of "\<lambda>x. bit x i"] show ?thesis by (simp add: bit_simps)
    next
      case False
      then have "bit (take_bit (4 * n) (drop_bit 4 v)) (i - 4) = bit (take_bit (4 * n) (drop_bit 4 w)) (i - 4)"
        using hi by simp
      with False show ?thesis by (auto simp: bit_simps)
    qed
  qed
qed

lemma hexX_full:
  "hexX n v = hexX n (w :: 'a::len word) \<Longrightarrow> LENGTH('a) \<le> 4 * n \<Longrightarrow> v = w"
  using hexX_inj [of n v w] by (simp add: take_bit_word_eq_self)

lemma part1_from_data:
  assumes "data1 a = data1 b" and "data2 a = data2 b" and "data3 a = data3 b"
  shows "part1 a = part1 b"
proof (rule bit_eqI)
  fix i
  assume "possible_bit TYPE(64 word) i"
  then have i: "i < 64" by simp
  consider "i < 32" | "32 \<le> i" "i < 48" | "48 \<le> i" by linarith
  then show "bit (part1 a) i = bit (part1 b) i"
  proof cases
    case 1
    with arg_cong [OF assms(1), of "\<lambda>x. bit x i"] show ?thesis by (simp add: data1_def bit_simps)
  next
    case 2
    with arg_cong [OF assms(2), of "\<lambda>x. bit x (i - 32)"] show ?thesis by (simp add: data2_def bit_simps less_diff_conv2)
  next
    case 3
    with i arg_cong [OF assms(3), of "\<lambda>x. bit x (i - 48)"] show ?thesis by (simp add: data3_def bit_simps less_diff_conv2)
  qed
qed

lemma Guid_WriteTo_inj:
  assumes "Guid_WriteTo s a = Guid_WriteTo s b"
  shows "a = b"
proof -
  note eqs = assms [unfolded Guid_WriteTo_def, simplified append_eq_append_conv]
  have nth: "data4 a ! i = data4 b ! i" if "hexX 2 (data4 a ! i) = hexX 2 (data4 b ! i)" for i
    by (rule hexX_full [OF that]) simp
  have "data4 a = data4 b"
  proof (rule nth_equalityI)
    show "length (data4 a) = length (data4 b)" by (simp add: data4_def)
    fix i assume "i < length (data4 a)"
    then have "i \<in> {0, 1, 2, 3, 4, 5, 6, 7}" by (auto simp: data4_def)
    then show "data4 a ! i = data4 b ! i" using eqs by (auto intro: nth)
  qed
  then have "le_word (data4 a) = (le_word (data4 b) :: u64)" by simp
  then have p2: "part2 a = part2 b" by (simp add: data4_def le_word_le_bytes)
  have "data1 a = data1 b" by (rule hexX_full [of 8]) (use eqs in simp_all)
  moreover have "data2 a = data2 b" by (rule hexX_full [of 4]) (use eqs in simp_all)
  moreover have "data3 a = data3 b" by (rule hexX_full [of 4]) (use eqs in simp_all)
  ultimately have "part1 a = part1 b" by (rule part1_from_data)
  with p2 show ?thesis by simp
qed

section \<open>ScopeGuard\<close>

text \<open>
  A guard holds a callable or nothing; the callable acts on the state \<open>'s\<close> of the program.
\<close>

record 's ScopeGuard =
  sg_func :: "('s \<Rightarrow> 's) option"

definition SG_make :: "('s \<Rightarrow> 's) \<Rightarrow> 's ScopeGuard" where
  "SG_make f = \<lparr>sg_func = Some f\<rparr>"

definition SG_Run :: "'s ScopeGuard \<Rightarrow> 's \<Rightarrow> 's" where
  "SG_Run g s = (case sg_func g of None \<Rightarrow> s | Some f \<Rightarrow> f s)"

definition SG_Cancel :: "'s ScopeGuard \<Rightarrow> 's ScopeGuard" where
  "SG_Cancel g = g\<lparr>sg_func := None\<rparr>"

definition SG_RunAndCancel :: "'s ScopeGuard \<Rightarrow> 's \<Rightarrow> 's ScopeGuard \<times> 's" where
  "SG_RunAndCancel g s = (let s' = SG_Run g s in (SG_Cancel g, s'))"

definition SG_Set :: "('s \<Rightarrow> 's) \<Rightarrow> 's ScopeGuard \<Rightarrow> 's ScopeGuard" where
  "SG_Set f g = g\<lparr>sg_func := Some f\<rparr>"

definition SG_destroy :: "'s ScopeGuard \<Rightarrow> 's \<Rightarrow> 's" where
  "SG_destroy g s = SG_Run g s"

lemma SG_cancelled_silent: "SG_destroy (SG_Cancel g) s = s"
  by (simp add: SG_destroy_def SG_Run_def SG_Cancel_def)

lemma SG_RunAndCancel_once:
  "SG_RunAndCancel (SG_make f) s = (g, s') \<Longrightarrow> SG_destroy g s' = f s"
  by (auto simp: SG_RunAndCancel_def SG_make_def SG_Run_def SG_Cancel_def SG_destroy_def Let_def)

end
