(* ===== verification/Lists.thy ===== *)
theory Lists
  imports Objects
begin

text \<open>
  The growable array \<^verbatim>\<open>List<T>\<close> of \<^verbatim>\<open>test_uv_3/xx_list.h\<close>, at the level of its memory
  block: \<open>lbuf\<close> is the block (\<open>None\<close> for the null pointer), a list of slots that hold an
  object or nothing; \<open>lcap\<close> and \<open>llen\<close> are the fields \<^verbatim>\<open>cap\<close> and \<^verbatim>\<open>len\<close>. Every access is
  checked against the block, so a \<open>None\<close> result is a fault of the C++ execution. The size
  of an element (\<open>szT\<close>) and whether \<^verbatim>\<open>IsTrivial_v<T>\<close> holds (\<open>triv\<close>) are arguments, as they
  are template parameters of the source. \<open>linv\<close> is the representation invariant and
  \<open>contents\<close> the abstract sequence; each operation is shown to keep the one and to act on
  the other as the corresponding list function.
\<close>

section \<open>Memory blocks\<close>

type_synonym 'a blk = "'a option list"

record 'a xx_list =
  lbuf :: "'a option list option"
  lcap :: nat
  llen :: nat

definition rd_blk :: "'a blk option \<Rightarrow> nat \<Rightarrow> 'a option" where
  "rd_blk b i = (case b of None \<Rightarrow> None | Some m \<Rightarrow> if i < length m then m ! i else None)"

definition wr_blk :: "'a blk option \<Rightarrow> nat \<Rightarrow> 'a \<Rightarrow> 'a blk option option" where
  "wr_blk b i x = (case b of None \<Rightarrow> None
     | Some m \<Rightarrow> if i < length m then Some (Some (m[i := Some x])) else None)"

text \<open>The destructor call \<^verbatim>\<open>buf[i].~T()\<close>: the slot must hold an object and is empty after it.\<close>

definition kill_blk :: "'a blk option \<Rightarrow> nat \<Rightarrow> 'a blk option option" where
  "kill_blk b i = do {
     x \<leftarrow> rd_blk b i;
     (case b of None \<Rightarrow> None | Some m \<Rightarrow> Some (Some (m[i := None]))) }"

text \<open>\<^verbatim>\<open>malloc\<close> of a number of bytes; no object is larger than \<^verbatim>\<open>PTRDIFF_MAX\<close>.\<close>

definition malloc_blk :: "nat \<Rightarrow> nat \<Rightarrow> 'a blk option" where
  "malloc_blk szT n = (if n \<le> PTRDIFF_MAX then Some (replicate (n div szT) None) else None)"

text \<open>
  \<^verbatim>\<open>memcpy\<close> and \<^verbatim>\<open>memmove\<close> of \<open>n\<close> slots from position \<open>s\<close> of one block to position \<open>d\<close> of
  another (or the same) block; copying no slot touches no memory.
\<close>

definition blit :: "'a blk option \<Rightarrow> nat \<Rightarrow> 'a blk option \<Rightarrow> nat \<Rightarrow> nat \<Rightarrow> 'a blk option option" where
  "blit dst d src s n =
     (if n = 0 then Some dst
      else case (dst, src) of
        (Some dm, Some sm) \<Rightarrow>
          if d + n \<le> length dm \<and> s + n \<le> length sm
          then Some (Some (take d dm @ take n (drop s sm) @ drop (d + n) dm)) else None
      | _ \<Rightarrow> None)"

section \<open>Construction, destruction, growth\<close>

definition List_new :: "'a xx_list" where
  "List_new = \<lparr>lbuf = None, lcap = 0, llen = 0\<rparr>"

definition List_with_cap :: "nat \<Rightarrow> nat \<Rightarrow> 'a xx_list option" where
  "List_with_cap szT cap =
     (if cap = 0 then Some \<lparr>lbuf = None, lcap = 0, llen = 0\<rparr>
      else do {
        bufByteLen \<leftarrow> Round2n_sz (sz_mul cap szT);
        m \<leftarrow> malloc_blk szT bufByteLen;
        Some \<lparr>lbuf = Some m, lcap = bufByteLen div szT, llen = 0\<rparr> })"

text \<open>The move constructor empties its source; move assignment exchanges the two lists.\<close>

definition List_move :: "'a xx_list \<Rightarrow> 'a xx_list \<times> 'a xx_list" where
  "List_move src = (src, src\<lparr>lbuf := None, lcap := 0, llen := 0\<rparr>)"

definition List_move_assign :: "'a xx_list \<Rightarrow> 'a xx_list \<Rightarrow> 'a xx_list \<times> 'a xx_list" where
  "List_move_assign this src =
     (this\<lparr>lbuf := lbuf src, llen := llen src, lcap := lcap src\<rparr>,
      src\<lparr>lbuf := lbuf this, llen := llen this, lcap := lcap this\<rparr>)"

text \<open>
  The loop of \<^verbatim>\<open>Reserve\<close> for a type that is not trivial: move construct, then destroy. Loops
  over an index are functions of the index and of the number of iterations left.
\<close>

fun move_loop :: "'a blk option \<Rightarrow> 'a blk option \<Rightarrow> nat \<Rightarrow> nat \<Rightarrow> 'a blk option option" where
  "move_loop newBuf old i 0 = Some newBuf"
| "move_loop newBuf old i (Suc k) = do {
     x \<leftarrow> rd_blk old i;
     newBuf' \<leftarrow> wr_blk newBuf i x;
     old' \<leftarrow> kill_blk old i;
     move_loop newBuf' old' (Suc i) k }"

definition Reserve :: "bool \<Rightarrow> nat \<Rightarrow> nat \<Rightarrow> ('a, 'z) xx_list_scheme \<Rightarrow> ('a, 'z) xx_list_scheme option" where
  "Reserve triv szT cap l =
     (if cap \<le> lcap l then Some l
      else do {
        newBufByteLen \<leftarrow> Round2n_sz (sz_mul cap szT);
        newBuf \<leftarrow> malloc_blk szT newBufByteLen;
        newBuf' \<leftarrow> (if triv then blit (Some newBuf) 0 (lbuf l) 0 (llen l)
                    else move_loop (Some newBuf) (lbuf l) 0 (llen l));
        Some (l\<lparr>lbuf := newBuf', lcap := newBufByteLen div szT\<rparr>) })"

fun kill_range :: "'a blk option \<Rightarrow> nat \<Rightarrow> nat \<Rightarrow> 'a blk option option" where
  "kill_range b i 0 = Some b"
| "kill_range b i (Suc k) = do { b' \<leftarrow> kill_blk b i; kill_range b' (Suc i) k }"

fun init_range :: "'a \<Rightarrow> 'a blk option \<Rightarrow> nat \<Rightarrow> nat \<Rightarrow> 'a blk option option" where
  "init_range d b i 0 = Some b"
| "init_range d b i (Suc k) = do { b' \<leftarrow> wr_blk b i d; init_range d b' (Suc i) k }"

text \<open>\<^verbatim>\<open>Resize\<close> returns the old length; new elements are value initialised to \<open>d\<close>.\<close>

definition Resize :: "bool \<Rightarrow> nat \<Rightarrow> 'a \<Rightarrow> nat \<Rightarrow> ('a, 'z) xx_list_scheme \<Rightarrow> (nat \<times> ('a, 'z) xx_list_scheme) option" where
  "Resize triv szT d n l =
     (if n = llen l then Some (n, l)
      else if n < llen l then do {
        b \<leftarrow> kill_range (lbuf l) n (llen l - n);
        Some (llen l, l\<lparr>lbuf := b, llen := n\<rparr>) }
      else do {
        l' \<leftarrow> Reserve triv szT n l;
        b \<leftarrow> init_range d (lbuf l') (llen l') (n - llen l');
        Some (llen l, l'\<lparr>lbuf := b, llen := n\<rparr>) })"

section \<open>Element access\<close>

definition At :: "('a, 'z) xx_list_scheme \<Rightarrow> nat \<Rightarrow> 'a option" where
  "At l idx = (if idx < llen l then rd_blk (lbuf l) idx else None)"

definition Top :: "('a, 'z) xx_list_scheme \<Rightarrow> 'a option" where
  "Top l = (if llen l > 0 then rd_blk (lbuf l) (llen l - 1) else None)"

definition Pop :: "('a, 'z) xx_list_scheme \<Rightarrow> ('a, 'z) xx_list_scheme option" where
  "Pop l = (if llen l > 0 then do {
       b \<leftarrow> kill_blk (lbuf l) (llen l - 1);
       Some (l\<lparr>lbuf := b, llen := llen l - 1\<rparr>) }
     else None)"

text \<open>\<^verbatim>\<open>TryPop\<close> returns false on an empty list and otherwise stores the last element.\<close>

definition TryPop :: "('a, 'z) xx_list_scheme \<Rightarrow> ('a option \<times> ('a, 'z) xx_list_scheme) option" where
  "TryPop l = (if llen l = 0 then Some (None, l)
     else do {
       x \<leftarrow> rd_blk (lbuf l) (llen l - 1);
       b \<leftarrow> kill_blk (lbuf l) (llen l - 1);
       Some (Some x, l\<lparr>lbuf := b, llen := llen l - 1\<rparr>) })"

fun kill_down :: "'a blk option \<Rightarrow> nat \<Rightarrow> 'a blk option option" where
  "kill_down b 0 = Some b"
| "kill_down b (Suc i) = do { b' \<leftarrow> kill_blk b i; kill_down b' i }"

definition Clear :: "bool \<Rightarrow> ('a, 'z) xx_list_scheme \<Rightarrow> ('a, 'z) xx_list_scheme option" where
  "Clear freeBuf l = (if lbuf l = None then Some l
     else do {
       l' \<leftarrow> (if llen l > 0 then do { b \<leftarrow> kill_down (lbuf l) (llen l); Some (l\<lparr>lbuf := b, llen := 0\<rparr>) }
              else Some l);
       Some (if freeBuf then l'\<lparr>lbuf := None, lcap := 0\<rparr> else l') })"

text \<open>The assignment loop \<^verbatim>\<open>buf[i] = (T&&)buf[i + 1]\<close> of \<^verbatim>\<open>RemoveAt\<close>.\<close>

fun shift_down :: "'a blk option \<Rightarrow> nat \<Rightarrow> nat \<Rightarrow> 'a blk option option" where
  "shift_down b i 0 = Some b"
| "shift_down b i (Suc k) = do {
     x \<leftarrow> rd_blk b (Suc i);
     b' \<leftarrow> wr_blk b i x;
     shift_down b' (Suc i) k }"

definition RemoveAt :: "bool \<Rightarrow> nat \<Rightarrow> ('a, 'z) xx_list_scheme \<Rightarrow> ('a, 'z) xx_list_scheme option" where
  "RemoveAt triv idx l = (if idx < llen l then
       let n = llen l - 1 in
       (if triv then do {
          b \<leftarrow> kill_blk (lbuf l) idx;
          b' \<leftarrow> blit b idx b (idx + 1) (n - idx);
          Some (l\<lparr>lbuf := b', llen := n\<rparr>) }
        else do {
          b \<leftarrow> shift_down (lbuf l) idx (n - idx);
          b' \<leftarrow> kill_blk b n;
          Some (l\<lparr>lbuf := b', llen := n\<rparr>) })
     else None)"

fun Remove_from :: "bool \<Rightarrow> 'a \<Rightarrow> nat \<Rightarrow> nat \<Rightarrow> ('a, 'z) xx_list_scheme \<Rightarrow> ('a, 'z) xx_list_scheme option" where
  "Remove_from triv v i 0 l = Some l"
| "Remove_from triv v i (Suc k) l = do {
     x \<leftarrow> rd_blk (lbuf l) i;
     (if v = x then RemoveAt triv i l else Remove_from triv v (Suc i) k l) }"

definition Remove :: "bool \<Rightarrow> 'a \<Rightarrow> ('a, 'z) xx_list_scheme \<Rightarrow> ('a, 'z) xx_list_scheme option" where
  "Remove triv v l = Remove_from triv v 0 (llen l) l"

text \<open>
  \<^verbatim>\<open>SwapRemoveAt\<close> has no assertion; on an empty list the length wraps and the destructor
  runs far outside the block, which the checked access reports as a fault.
\<close>

definition SwapRemoveAt :: "nat \<Rightarrow> ('a, 'z) xx_list_scheme \<Rightarrow> ('a, 'z) xx_list_scheme option" where
  "SwapRemoveAt idx l = do {
     b \<leftarrow> (if sz_add idx 1 < llen l then do {
             x \<leftarrow> rd_blk (lbuf l) idx;
             y \<leftarrow> rd_blk (lbuf l) (llen l - 1);
             b1 \<leftarrow> wr_blk (lbuf l) idx y;
             wr_blk b1 (llen l - 1) x }
           else Some (lbuf l));
     let n = sz_sub (llen l) 1;
     b' \<leftarrow> kill_blk b n;
     Some (l\<lparr>lbuf := b', llen := n\<rparr>) }"

section \<open>Appending and searching\<close>

definition Emplace :: "bool \<Rightarrow> nat \<Rightarrow> 'a \<Rightarrow> ('a, 'z) xx_list_scheme \<Rightarrow> ('a, 'z) xx_list_scheme option" where
  "Emplace triv szT x l = do {
     l' \<leftarrow> Reserve triv szT (sz_add (llen l) 1) l;
     b \<leftarrow> wr_blk (lbuf l') (llen l') x;
     Some (l'\<lparr>lbuf := b, llen := llen l' + 1\<rparr>) }"

text \<open>The assignment loop \<^verbatim>\<open>for (i = len - 1; i > idx; --i) buf[i] = (T&&)buf[i - 1]\<close>.\<close>

fun shift_up :: "'a blk option \<Rightarrow> nat \<Rightarrow> nat \<Rightarrow> 'a blk option option" where
  "shift_up b i 0 = Some b"
| "shift_up b i (Suc k) = do {
     x \<leftarrow> rd_blk b (i - 1);
     b' \<leftarrow> wr_blk b i x;
     shift_up b' (i - 1) k }"

definition EmplaceAt :: "bool \<Rightarrow> nat \<Rightarrow> nat \<Rightarrow> 'a \<Rightarrow> ('a, 'z) xx_list_scheme \<Rightarrow> ('a, 'z) xx_list_scheme option" where
  "EmplaceAt triv szT idx x l = do {
     l' \<leftarrow> Reserve triv szT (sz_add (llen l) 1) l;
     let n = llen l';
     (b, at) \<leftarrow> (if idx < n then
          (if triv then do { b \<leftarrow> blit (lbuf l') (idx + 1) (lbuf l') idx (n - idx); Some (b, idx) }
           else do {
             y \<leftarrow> rd_blk (lbuf l') (n - 1);
             b1 \<leftarrow> wr_blk (lbuf l') n y;
             b2 \<leftarrow> shift_up b1 (n - 1) (n - 1 - idx);
             b3 \<leftarrow> kill_blk b2 idx;
             Some (b3, idx) })
        else Some (lbuf l', n));
     b' \<leftarrow> wr_blk b at x;
     Some (l'\<lparr>lbuf := b', llen := n + 1\<rparr>) }"

fun List_Add :: "bool \<Rightarrow> nat \<Rightarrow> 'a list \<Rightarrow> ('a, 'z) xx_list_scheme \<Rightarrow> ('a, 'z) xx_list_scheme option" where
  "List_Add triv szT [] l = Some l"
| "List_Add triv szT (v # vs) l = do { l' \<leftarrow> Emplace triv szT v l; List_Add triv szT vs l' }"

fun init_items :: "'a blk option \<Rightarrow> nat \<Rightarrow> 'a list \<Rightarrow> 'a blk option option" where
  "init_items b i [] = Some b"
| "init_items b i (x # xs) = do { b' \<leftarrow> wr_blk b i x; init_items b' (Suc i) xs }"

definition AddRange :: "bool \<Rightarrow> nat \<Rightarrow> 'a list \<Rightarrow> ('a, 'z) xx_list_scheme \<Rightarrow> ('a, 'z) xx_list_scheme option" where
  "AddRange triv szT items l = do {
     l' \<leftarrow> Reserve triv szT (sz_add (llen l) (length items)) l;
     b \<leftarrow> (if triv then blit (lbuf l') (llen l') (Some (map Some items)) 0 (length items)
           else init_items (lbuf l') (llen l') items);
     Some (l'\<lparr>lbuf := b, llen := llen l' + length items\<rparr>) }"

text \<open>\<^verbatim>\<open>Find\<close>: the first index that holds an equal element, or \<^verbatim>\<open>size_t(-1)\<close> (\<open>None\<close> inside).\<close>

fun Find_from :: "'a \<Rightarrow> nat \<Rightarrow> nat \<Rightarrow> ('a, 'z) xx_list_scheme \<Rightarrow> nat option option" where
  "Find_from v i 0 l = Some None"
| "Find_from v i (Suc k) l = do {
     x \<leftarrow> rd_blk (lbuf l) i;
     (if v = x then Some (Some i) else Find_from v (Suc i) k l) }"

definition Find :: "'a \<Rightarrow> ('a, 'z) xx_list_scheme \<Rightarrow> nat option option" where
  "Find v l = Find_from v 0 (llen l) l"

section \<open>Blocks in appended form\<close>

lemma rd_blk_app [mem_simps]: "length p = i \<Longrightarrow> rd_blk (Some (p @ Some x # t)) i = Some x"
  by (auto simp: rd_blk_def nth_append)

lemma wr_blk_app [mem_simps]:
  "length p = i \<Longrightarrow> wr_blk (Some (p @ s # t)) i x = Some (Some (p @ Some x # t))"
  by (auto simp: wr_blk_def list_update_append)

lemma kill_blk_app [mem_simps]:
  "length p = i \<Longrightarrow> kill_blk (Some (p @ Some x # t)) i = Some (Some (p @ None # t))"
  by (auto simp: kill_blk_def rd_blk_app list_update_append)

lemma move_loop_app:
  "length p = i \<Longrightarrow> length q = i \<Longrightarrow> length ys \<le> length nt \<Longrightarrow>
   move_loop (Some (p @ nt)) (Some (q @ map Some ys @ t)) i (length ys)
   = Some (Some (p @ map Some ys @ drop (length ys) nt))"
proof (induction ys arbitrary: p q nt i)
  case Nil
  then show ?case by simp
next
  case (Cons y ys)
  then obtain s nt' where nt: "nt = s # nt'" by (cases nt) auto
  have "move_loop (Some ((p @ [Some y]) @ nt')) (Some ((q @ [None]) @ map Some ys @ t)) (Suc i) (length ys)
      = Some (Some ((p @ [Some y]) @ map Some ys @ drop (length ys) nt'))"
    using Cons.prems nt by (intro Cons.IH) auto
  with Cons.prems nt show ?case by (simp add: mem_simps)
qed

lemma init_items_app:
  "length p = i \<Longrightarrow> length ys \<le> length nt \<Longrightarrow>
   init_items (Some (p @ nt)) i ys = Some (Some (p @ map Some ys @ drop (length ys) nt))"
proof (induction ys arbitrary: p nt i)
  case Nil
  then show ?case by simp
next
  case (Cons y ys)
  then obtain s nt' where nt: "nt = s # nt'" by (cases nt) auto
  have "init_items (Some ((p @ [Some y]) @ nt')) (Suc i) ys
      = Some (Some ((p @ [Some y]) @ map Some ys @ drop (length ys) nt'))"
    using Cons.prems nt by (intro Cons.IH) auto
  with Cons.prems nt show ?case by (simp add: mem_simps)
qed

lemma init_range_app:
  "length p = i \<Longrightarrow> k \<le> length nt \<Longrightarrow>
   init_range d (Some (p @ nt)) i k = Some (Some (p @ replicate k (Some d) @ drop k nt))"
proof (induction k arbitrary: p nt i)
  case 0
  then show ?case by simp
next
  case (Suc k)
  then obtain s nt' where nt: "nt = s # nt'" by (cases nt) auto
  have "init_range d (Some ((p @ [Some d]) @ nt')) (Suc i) k
      = Some (Some ((p @ [Some d]) @ replicate k (Some d) @ drop k nt'))"
    using Suc.prems nt by (intro Suc.IH) auto
  with Suc.prems nt show ?case by (simp add: mem_simps)
qed

lemma kill_range_app:
  "length p = i \<Longrightarrow> kill_range (Some (p @ map Some ys @ t)) i (length ys)
   = Some (Some (p @ replicate (length ys) None @ t))"
proof (induction ys arbitrary: p i)
  case Nil
  then show ?case by simp
next
  case (Cons y ys)
  have "kill_range (Some ((p @ [None]) @ map Some ys @ t)) (Suc i) (length ys)
      = Some (Some ((p @ [None]) @ replicate (length ys) None @ t))"
    using Cons.prems by (intro Cons.IH) auto
  with Cons.prems show ?case by (simp add: mem_simps)
qed

lemma kill_down_app:
  "kill_down (Some (map Some ys @ t)) (length ys) = Some (Some (replicate (length ys) None @ t))"
proof (induction ys arbitrary: t rule: rev_induct)
  case Nil
  then show ?case by simp
next
  case (snoc y ys)
  then show ?case by (simp add: mem_simps replicate_app_Cons_same)
qed

lemma shift_down_app:
  "length p = i \<Longrightarrow> shift_down (Some (p @ s # map Some ys @ t)) i (length ys)
   = Some (Some (p @ map Some ys @ last (s # map Some ys) # t))"
proof (induction ys arbitrary: p i s)
  case Nil
  then show ?case by simp
next
  case (Cons y ys)
  have rd: "rd_blk (Some (p @ s # Some y # map Some ys @ t)) (Suc i) = Some y"
    using rd_blk_app [of "p @ [s]" "Suc i" y] Cons.prems by simp
  have "shift_down (Some ((p @ [Some y]) @ Some y # map Some ys @ t)) (Suc i) (length ys)
      = Some (Some ((p @ [Some y]) @ map Some ys @ last (Some y # map Some ys) # t))"
    using Cons.prems by (intro Cons.IH) auto
  with Cons.prems rd show ?case by (simp add: mem_simps)
qed

lemma shift_up_app:
  "length p + length ys = i \<Longrightarrow> shift_up (Some (p @ map Some ys @ s # t)) i (length ys)
   = Some (Some (p @ hd (map Some ys @ [s]) # map Some ys @ t))"
proof (induction ys arbitrary: i s t rule: rev_induct)
  case Nil
  then show ?case by simp
next
  case (snoc y ys)
  then obtain j where i: "i = Suc j" and j: "length p + length ys = j" by (cases i) auto
  have rd: "rd_blk (Some (p @ map Some ys @ Some y # s # t)) j = Some y"
    using rd_blk_app [of "p @ map Some ys" j y] j by simp
  have wr: "wr_blk (Some (p @ map Some ys @ Some y # s # t)) i y
      = Some (Some (p @ map Some ys @ Some y # Some y # t))"
    using wr_blk_app [of "p @ map Some ys @ [Some y]" i s t y] i j by simp
  have "shift_up (Some (p @ map Some ys @ Some y # Some y # t)) j (length ys)
      = Some (Some (p @ hd (map Some ys @ [Some y]) # map Some ys @ Some y # t))"
    using j by (rule snoc.IH)
  with rd wr i show ?case by (cases ys) simp_all
qed

section \<open>Representation invariant and abstraction\<close>

definition linv :: "nat \<Rightarrow> ('a, 'z) xx_list_scheme \<Rightarrow> bool" where
  "linv szT l \<longleftrightarrow> 0 < szT \<and> lcap l * szT \<le> PTRDIFF_MAX \<and> llen l \<le> lcap l \<and>
     (case lbuf l of None \<Rightarrow> lcap l = 0
      | Some m \<Rightarrow> length m = lcap l \<and> (\<forall>s \<in> set (take (llen l) m). s \<noteq> None))"

definition contents :: "('a, 'z) xx_list_scheme \<Rightarrow> 'a list" where
  "contents l = (case lbuf l of None \<Rightarrow> [] | Some m \<Rightarrow> map the (take (llen l) m))"

text \<open>
  \<open>lrep szT l xs\<close>: the list \<open>l\<close> is well formed and holds \<open>xs\<close>. The lemmas below are stated
  with it, and a result of the form \<open>lstep szT l r ys\<close> says that the operation returned, that
  the new list holds \<open>ys\<close>, and that no field of a derived class was touched.
\<close>

definition lrep :: "nat \<Rightarrow> ('a, 'z) xx_list_scheme \<Rightarrow> 'a list \<Rightarrow> bool" where
  "lrep szT l xs \<longleftrightarrow> linv szT l \<and> contents l = xs"

definition lstep :: "nat \<Rightarrow> ('a, 'z) xx_list_scheme \<Rightarrow> ('a, 'z) xx_list_scheme option \<Rightarrow> 'a list \<Rightarrow> bool" where
  "lstep szT l r ys \<longleftrightarrow> (\<exists>l'. r = Some l' \<and> lrep szT l' ys \<and> xx_list.more l' = xx_list.more l)"

text \<open>A request that the allocator can serve after rounding up to a power of two.\<close>

definition fits :: "nat \<Rightarrow> nat \<Rightarrow> bool" where
  "fits szT n \<longleftrightarrow> n * szT \<le> 2 ^ 62"

lemma fits_mono: "fits szT n \<Longrightarrow> m \<le> n \<Longrightarrow> fits szT m"
  unfolding fits_def by (meson le_trans mult_le_mono1)

lemma lrep_length: "lrep szT l xs \<Longrightarrow> llen l = length xs"
  by (auto simp: lrep_def linv_def contents_def split: option.splits)

lemma lrep_cases:
  assumes "lrep szT l xs"
  obtains (Null) "lbuf l = None" "xs = []" "llen l = 0" "lcap l = 0"
  | (Blk) t where "lbuf l = Some (map Some xs @ t)" "llen l = length xs"
      "lcap l = length xs + length t"
proof (cases "lbuf l")
  case None
  with assms Null show ?thesis by (auto simp: lrep_def linv_def contents_def)
next
  case (Some m)
  from assms Some have "map Some xs = take (llen l) m" and n: "llen l \<le> length m" "lcap l = length m"
    by (auto simp: lrep_def linv_def contents_def intro: all_some_map_the)
  then have "lbuf l = Some (map Some xs @ drop (llen l) m)"
    using Some by simp
  with n Blk [of "drop (llen l) m"] lrep_length [OF assms] show ?thesis by auto
qed

lemma lrep_Blk:
  assumes "0 < szT" and "lcap l * szT \<le> PTRDIFF_MAX" and "lbuf l = Some (map Some xs @ t)"
    and "llen l = length xs" and "lcap l = length xs + length t"
  shows "lrep szT l xs"
  using assms by (auto simp: lrep_def linv_def contents_def)

lemma lrep_pos: "lrep szT l xs \<Longrightarrow> 0 < szT \<and> lcap l * szT \<le> PTRDIFF_MAX"
  by (auto simp: lrep_def linv_def)

lemma lrep_len_bound: "lrep szT l xs \<Longrightarrow> length xs * szT \<le> PTRDIFF_MAX \<and> length xs < SIZE_BOUND"
proof -
  assume r: "lrep szT l xs"
  then have "length xs \<le> lcap l" by (cases rule: lrep_cases) auto
  with lrep_pos [OF r] have *: "length xs * szT \<le> PTRDIFF_MAX"
    by (meson le_trans mult_le_mono1)
  moreover have "length xs \<le> length xs * szT" using lrep_pos [OF r] by simp
  ultimately have "length xs \<le> PTRDIFF_MAX" by linarith
  with * show ?thesis unfolding SIZE_BOUND_PTRDIFF by linarith
qed

lemma lrep_new [simp]: "0 < szT \<Longrightarrow> lrep szT List_new []"
  by (simp add: lrep_def linv_def contents_def List_new_def)


section \<open>What each operation does\<close>

lemma lstepI:
  "r = Some l' \<Longrightarrow> lrep szT l' ys \<Longrightarrow> xx_list.more l' = xx_list.more l \<Longrightarrow> lstep szT l r ys"
  by (auto simp: lstep_def)

lemma alloc_ok:
  assumes "0 < szT" and "0 < n" and "fits szT n"
  shows "\<exists>r. Round2n_sz (sz_mul n szT) = Some r \<and> n \<le> r div szT \<and> r \<le> PTRDIFF_MAX \<and>
             r div szT * szT \<le> PTRDIFF_MAX"
proof -
  from assms have "n * szT \<le> 2 ^ 62" by (simp add: fits_def)
  then have mul: "sz_mul n szT = n * szT" and le: "n * szT \<le> 2 ^ 63"
    by (simp_all add: SIZE_BOUND_def)
  have pos: "0 < n * szT" using assms by simp
  from Round2n_sz_spec [OF pos le] obtain r where
    r: "Round2n_sz (n * szT) = Some r" "n * szT \<le> r" "r < 2 * (n * szT)" by blast
  from r(3) \<open>n * szT \<le> 2 ^ 62\<close> have "r < 2 ^ 63" by simp
  then have p: "r \<le> PTRDIFF_MAX" by (simp add: PTRDIFF_MAX_def)
  have "n \<le> r div szT" using r(2) assms(1) by (simp add: less_eq_div_iff_mult_less_eq)
  moreover have "r div szT * szT \<le> PTRDIFF_MAX"
    using p div_times_less_eq_dividend [of r szT] by linarith
  ultimately show ?thesis using r(1) p mul by auto
qed

lemma Reserve_ok:
  assumes rep: "lrep szT l xs" and fit: "fits szT n"
  shows "\<exists>l'. Reserve triv szT n l = Some l' \<and> lrep szT l' xs \<and>
              xx_list.more l' = xx_list.more l \<and> n \<le> lcap l'"
proof (cases "n \<le> lcap l")
  case True
  with rep show ?thesis by (simp add: Reserve_def)
next
  case False
  note pos = lrep_pos [OF rep]
  from False fit pos obtain r where r: "Round2n_sz (sz_mul n szT) = Some r" "n \<le> r div szT"
      "r \<le> PTRDIFF_MAX" "r div szT * szT \<le> PTRDIFF_MAX"
    using alloc_ok [of szT n] by auto
  let ?new = "replicate (r div szT) None"
  let ?t = "drop (length xs) ?new"
  have len: "length xs \<le> lcap l" using rep by (cases rule: lrep_cases) auto
  with False r(2) have xs: "length xs \<le> r div szT" by simp
  have copy: "(if triv then blit (Some ?new) 0 (lbuf l) 0 (llen l)
      else move_loop (Some ?new) (lbuf l) 0 (llen l)) = Some (Some (map Some xs @ ?t))"
    using rep
  proof (cases rule: lrep_cases)
    case Null
    then show ?thesis by (simp add: blit_def)
  next
    case (Blk t)
    have "blit (Some ?new) 0 (lbuf l) 0 (llen l) = Some (Some (map Some xs @ ?t))"
      using Blk xs by (auto simp: blit_def)
    moreover have "move_loop (Some ?new) (lbuf l) 0 (llen l) = Some (Some (map Some xs @ ?t))"
      using Blk xs move_loop_app [of "[]" 0 "[]" xs ?new t] by simp
    ultimately show ?thesis by simp
  qed
  let ?l = "l\<lparr>lbuf := Some (map Some xs @ ?t), lcap := r div szT\<rparr>"
  have "Reserve triv szT n l = Some ?l"
    using False r copy by (simp add: Reserve_def malloc_blk_def)
  moreover have "lrep szT ?l xs"
    by (rule lrep_Blk) (use pos r xs lrep_length [OF rep] in auto)
  ultimately show ?thesis using r(2) by auto
qed

text \<open>After \<^verbatim>\<open>Reserve\<close> there is a block with room behind the elements.\<close>

lemma Reserve_room:
  assumes rep: "lrep szT l xs" and fit: "fits szT n" and n: "0 < n"
  obtains l' t where "Reserve triv szT n l = Some l'" "lbuf l' = Some (map Some xs @ t)"
    "llen l' = length xs" "lcap l' = length xs + length t" "n \<le> length xs + length t"
    "xx_list.more l' = xx_list.more l" "0 < szT" "lcap l' * szT \<le> PTRDIFF_MAX"
proof -
  obtain l' where l': "Reserve triv szT n l = Some l'" "lrep szT l' xs"
      "xx_list.more l' = xx_list.more l" "n \<le> lcap l'"
    using Reserve_ok [OF rep fit] by blast
  from l'(2) show ?thesis
  proof (cases rule: lrep_cases)
    case Null
    with l'(4) n show ?thesis by simp
  next
    case (Blk t)
    with l' lrep_pos [OF l'(2)] that show ?thesis by auto
  qed
qed

lemma len_sum_exact:
  assumes "lrep szT l xs" and "fits szT (length xs + k)"
  shows "sz_add (llen l) k = length xs + k"
proof -
  have "length xs + k \<le> (length xs + k) * szT" using lrep_pos [OF assms(1)] by simp
  also have "\<dots> \<le> 2 ^ 62" using assms(2) by (simp add: fits_def)
  also have "(2 :: nat) ^ 62 < SIZE_BOUND" by (simp add: SIZE_BOUND_def)
  finally show ?thesis using lrep_length [OF assms(1)] by simp
qed

lemma Emplace_ok:
  assumes rep: "lrep szT l xs" and fit: "fits szT (length xs + 1)"
  shows "lstep szT l (Emplace triv szT x l) (xs @ [x])"
proof -
  obtain l' t where l': "Reserve triv szT (length xs + 1) l = Some l'"
    "lbuf l' = Some (map Some xs @ t)" "llen l' = length xs" "lcap l' = length xs + length t"
    "length xs + 1 \<le> length xs + length t" "xx_list.more l' = xx_list.more l"
    "0 < szT" "lcap l' * szT \<le> PTRDIFF_MAX"
    using Reserve_room [OF rep fit] by auto
  then obtain s t' where t: "t = s # t'" by (cases t) auto
  let ?l = "l'\<lparr>lbuf := Some (map Some xs @ Some x # t'), llen := length xs + 1\<rparr>"
  show ?thesis
  proof (rule lstepI [of _ ?l])
    show "Emplace triv szT x l = Some ?l"
      using l' t len_sum_exact [OF rep fit] by (simp add: Emplace_def mem_simps)
    show "lrep szT ?l (xs @ [x])"
      by (rule lrep_Blk [where t = t']) (use l' t in auto)
  qed (use l' in simp)
qed

lemma AddRange_ok:
  assumes rep: "lrep szT l xs" and fit: "fits szT (length xs + length ys)"
  shows "lstep szT l (AddRange triv szT ys l) (xs @ ys)"
proof (cases "length xs + length ys = 0")
  case True
  have "l\<lparr>llen := 0\<rparr> = l" using lrep_length [OF rep] True by (intro xx_list.equality) auto
  with rep True have "AddRange triv szT ys l = Some l"
    by (auto simp: AddRange_def Reserve_def blit_def sz_add_def lrep_length)
  with rep True show ?thesis by (auto simp: lstep_def)
next
  case False
  then obtain l' t where l': "Reserve triv szT (length xs + length ys) l = Some l'"
    "lbuf l' = Some (map Some xs @ t)" "llen l' = length xs" "lcap l' = length xs + length t"
    "length xs + length ys \<le> length xs + length t" "xx_list.more l' = xx_list.more l"
    "0 < szT" "lcap l' * szT \<le> PTRDIFF_MAX"
    using Reserve_room [OF rep fit] by auto
  let ?t = "drop (length ys) t"
  let ?l = "l'\<lparr>lbuf := Some (map Some xs @ map Some ys @ ?t), llen := length xs + length ys\<rparr>"
  show ?thesis
  proof (rule lstepI [of _ ?l])
    have "blit (lbuf l') (llen l') (Some (map Some ys)) 0 (length ys)
        = Some (Some (map Some xs @ map Some ys @ ?t))"
      using l' by (auto simp: blit_def)
    moreover have "init_items (lbuf l') (llen l') ys
        = Some (Some (map Some xs @ map Some ys @ ?t))"
      using l' init_items_app [of "map Some xs" "length xs" ys t] by simp
    ultimately show "AddRange triv szT ys l = Some ?l"
      using l' len_sum_exact [OF rep fit] by (simp add: AddRange_def)
    show "lrep szT ?l (xs @ ys)"
      by (rule lrep_Blk [where t = ?t]) (use l' in auto)
  qed (use l' in simp)
qed

lemma At_ok: "lrep szT l xs \<Longrightarrow> At l i = (if i < length xs then Some (xs ! i) else None)"
  by (cases rule: lrep_cases, assumption) (auto simp: At_def rd_blk_def nth_append)

lemma kill_last:
  assumes "lrep szT l (ys @ [y])"
  shows "rd_blk (lbuf l) (length ys) = Some y"
    and "lstep szT l (do { b \<leftarrow> kill_blk (lbuf l) (length ys);
            Some (l\<lparr>lbuf := b, llen := length ys\<rparr>) }) ys"
proof -
  from assms obtain t where t: "lbuf l = Some (map Some ys @ Some y # t)"
      "llen l = length ys + 1" "lcap l = length ys + 1 + length t"
    by (cases rule: lrep_cases) auto
  then show "rd_blk (lbuf l) (length ys) = Some y" by (simp add: mem_simps)
  let ?l = "l\<lparr>lbuf := Some (map Some ys @ None # t), llen := length ys\<rparr>"
  show "lstep szT l (do { b \<leftarrow> kill_blk (lbuf l) (length ys);
            Some (l\<lparr>lbuf := b, llen := length ys\<rparr>) }) ys"
  proof (rule lstepI [of _ ?l])
    show "lrep szT ?l ys"
      by (rule lrep_Blk [where t = "None # t"]) (use t lrep_pos [OF assms] in auto)
  qed (use t in \<open>simp_all add: mem_simps\<close>)
qed

lemma Top_ok:
  assumes "lrep szT l xs"
  shows "Top l = (if xs = [] then None else Some (last xs))"
proof (cases xs rule: rev_cases)
  case Nil
  with lrep_length [OF assms] show ?thesis by (simp add: Top_def)
next
  case (snoc ys y)
  with kill_last(1) [of szT l ys y] assms lrep_length [OF assms] show ?thesis
    by (simp add: Top_def)
qed

lemma Pop_ok:
  assumes "lrep szT l xs"
  shows "if xs = [] then Pop l = None else lstep szT l (Pop l) (butlast xs)"
proof (cases xs rule: rev_cases)
  case Nil
  with lrep_length [OF assms] show ?thesis by (simp add: Pop_def)
next
  case (snoc ys y)
  with kill_last(2) [of szT l ys y] assms lrep_length [OF assms] show ?thesis
    by (simp add: Pop_def)
qed

lemma TryPop_ok:
  assumes "lrep szT l xs"
  shows "\<exists>l'. TryPop l = Some (if xs = [] then None else Some (last xs), l') \<and>
              lrep szT l' (butlast xs) \<and> xx_list.more l' = xx_list.more l"
proof (cases xs rule: rev_cases)
  case Nil
  with assms lrep_length [OF assms] show ?thesis by (simp add: TryPop_def)
next
  case (snoc ys y)
  with kill_last [of szT l ys y] assms lrep_length [OF assms] show ?thesis
    by (auto simp: TryPop_def lstep_def bind_Some_iff)
qed



lemma Clear_ok:
  assumes rep: "lrep szT l xs"
  shows "lstep szT l (Clear freeBuf l) [] \<and>
         (\<forall>l'. Clear True l = Some l' \<longrightarrow> lbuf l' = None \<and> lcap l' = 0)"
  using rep
proof (cases rule: lrep_cases)
  case Null
  with rep show ?thesis by (auto simp: Clear_def lstep_def)
next
  case (Blk t)
  let ?b = "map Some [] @ replicate (length xs) None @ t"
  let ?l = "l\<lparr>lbuf := Some ?b, llen := 0\<rparr>"
  let ?f = "?l\<lparr>lbuf := None, lcap := 0\<rparr>"
  have "l = ?l" if "llen l = 0"
    using that Blk by (intro xx_list.equality) auto
  then have c: "Clear freeBuf l = Some (if freeBuf then ?f else ?l)" for freeBuf
    using Blk kill_down_app [of xs t] by (cases xs) (auto simp: Clear_def simp del: kill_down.simps)
  have l: "lrep szT ?l []"
    by (rule lrep_Blk) (use Blk lrep_pos [OF rep] in auto)
  have f: "lrep szT ?f []"
    using lrep_pos [OF rep] by (simp add: lrep_def linv_def contents_def)
  from c l f show ?thesis by (auto simp: lstep_def)
qed

lemma take_drop_split: "i < length xs \<Longrightarrow> xs = take i xs @ xs ! i # drop (Suc i) xs"
  by (simp add: id_take_nth_drop)

lemma blit_down:
  assumes "length p = i"
  shows "blit (Some (p @ s # q @ t)) i (Some (p @ s # q @ t)) (i + 1) (length q)
       = Some (Some (p @ q @ last (s # q) # t))"
  using assms by (cases q rule: rev_cases) (auto simp: blit_def)

lemma RemoveAt_ok:
  assumes rep: "lrep szT l xs" and i: "i < length xs"
  shows "lstep szT l (RemoveAt triv i l) (take i xs @ drop (Suc i) xs)"
proof -
  let ?p = "take i xs" and ?x = "xs ! i" and ?q = "drop (Suc i) xs"
  from rep i obtain t where t: "lbuf l = Some (map Some xs @ t)" "llen l = length xs"
      "lcap l = length xs + length t"
    by (cases rule: lrep_cases) auto
  have lp: "length (map Some ?p) = i" using i by simp
  have n: "length xs - 1 = i + length ?q" using i by simp
  have b: "lbuf l = Some (map Some ?p @ Some ?x # map Some ?q @ t)"
    using t(1) take_drop_split [OF i] by (metis append.assoc append_Cons list.simps(9) map_append)
  obtain u where u: "(if triv then do {
          b \<leftarrow> kill_blk (lbuf l) i; blit b i b (i + 1) (length ?q) }
        else do { b \<leftarrow> shift_down (lbuf l) i (length ?q); kill_blk b (i + length ?q) })
      = Some (Some (map Some (?p @ ?q) @ u))" "length u = Suc (length t)"
  proof (cases triv)
    case True
    show ?thesis using True that b lp blit_down [OF lp, of None "map Some ?q" t]
      by (simp add: mem_simps)
  next
    case False
    have e: "last (Some ?x # map Some ?q) = Some (last (?x # ?q))" by (auto simp: last_map)
    have k: "kill_blk (Some ((map Some ?p @ map Some ?q) @ Some (last (?x # ?q)) # t)) (i + length ?q)
        = Some (Some ((map Some ?p @ map Some ?q) @ None # t))"
      by (rule kill_blk_app) (use lp in simp)
    show ?thesis using False b k shift_down_app [OF lp, of "Some ?x" ?q t]
      by (intro that) (auto simp: e simp del: last.simps)
  qed
  let ?l = "l\<lparr>lbuf := Some (map Some (?p @ ?q) @ u), llen := length xs - 1\<rparr>"
  show ?thesis
  proof (rule lstepI [of _ ?l])
    have "i + (length xs - Suc i) = length xs - Suc 0" using i by simp
    then show "RemoveAt triv i l = Some ?l"
      using u(1) i t(2) by (cases triv) (auto simp: RemoveAt_def Let_def bind_Some_iff)
    show "lrep szT ?l (?p @ ?q)"
      by (rule lrep_Blk) (use t u(2) i n lrep_pos [OF rep] in auto)
  qed simp
qed

lemma RemoveAt_assert: "lrep szT l xs \<Longrightarrow> length xs \<le> i \<Longrightarrow> RemoveAt triv i l = None"
  by (simp add: RemoveAt_def lrep_length)

lemma rd_elem: "lrep szT l xs \<Longrightarrow> i < length xs \<Longrightarrow> rd_blk (lbuf l) i = Some (xs ! i)"
  by (cases rule: lrep_cases, assumption) (auto simp: rd_blk_def nth_append)

lemma Find_from_ok:
  "lrep szT l xs \<Longrightarrow> i + k = length xs \<Longrightarrow>
   Find_from v i k l = Some (if v \<in> set (drop i xs)
     then Some (i + length (takeWhile (\<lambda>x. x \<noteq> v) (drop i xs))) else None)"
proof (induction k arbitrary: i)
  case 0
  then show ?case by simp
next
  case (Suc k)
  then have i: "i < length xs" by simp
  have "Find_from v (Suc i) k l = Some (if v \<in> set (drop (Suc i) xs)
      then Some (Suc i + length (takeWhile (\<lambda>x. x \<noteq> v) (drop (Suc i) xs))) else None)"
    by (rule Suc.IH) (use Suc.prems in simp_all)
  with i Cons_nth_drop_Suc [OF i, symmetric] rd_elem [OF Suc.prems(1) i] show ?case
    by auto
qed

lemma Find_ok:
  "lrep szT l xs \<Longrightarrow> Find v l = Some (if v \<in> set xs
     then Some (length (takeWhile (\<lambda>x. x \<noteq> v) xs)) else None)"
  using Find_from_ok [of szT l xs 0 "length xs" v] by (simp add: Find_def lrep_length)

lemma remove1_split:
  "v \<in> set xs \<Longrightarrow> (let i = length (takeWhile (\<lambda>x. x \<noteq> v) xs)
     in i < length xs \<and> take i xs @ drop (Suc i) xs = remove1 v xs)"
  by (induction xs) (auto simp: Let_def)

lemma Remove_from_ok:
  "lrep szT l xs \<Longrightarrow> i + k = length xs \<Longrightarrow>
   Remove_from triv v i k l = (if v \<in> set (drop i xs)
     then RemoveAt triv (i + length (takeWhile (\<lambda>x. x \<noteq> v) (drop i xs))) l else Some l)"
proof (induction k arbitrary: i)
  case 0
  then show ?case by simp
next
  case (Suc k)
  then have i: "i < length xs" by simp
  have "Remove_from triv v (Suc i) k l = (if v \<in> set (drop (Suc i) xs)
      then RemoveAt triv (Suc i + length (takeWhile (\<lambda>x. x \<noteq> v) (drop (Suc i) xs))) l else Some l)"
    by (rule Suc.IH) (use Suc.prems in simp_all)
  with i Cons_nth_drop_Suc [OF i, symmetric] rd_elem [OF Suc.prems(1) i] show ?case
    by auto
qed

lemma Remove_ok:
  assumes rep: "lrep szT l xs"
  shows "lstep szT l (Remove triv v l) (remove1 v xs)"
proof (cases "v \<in> set xs")
  case True
  let ?i = "length (takeWhile (\<lambda>x. x \<noteq> v) xs)"
  from remove1_split [OF True] have i: "?i < length xs"
    and r: "take ?i xs @ drop (Suc ?i) xs = remove1 v xs" by (simp_all add: Let_def)
  have "Remove triv v l = RemoveAt triv ?i l"
    using Remove_from_ok [OF rep, of 0] True by (simp add: Remove_def lrep_length [OF rep])
  with RemoveAt_ok [OF rep i, of triv] r show ?thesis by simp
next
  case False
  then have "Remove triv v l = Some l"
    using Remove_from_ok [OF rep, of 0] by (simp add: Remove_def lrep_length [OF rep])
  with rep False show ?thesis by (simp add: lstep_def remove1_idem)
qed

lemma SwapRemoveAt_ok:
  assumes rep: "lrep szT l xs" and i: "i < length xs"
  shows "lstep szT l (SwapRemoveAt i l) (butlast (xs[i := last xs]))"
proof -
  from i obtain ys y where xs: "xs = ys @ [y]" by (cases xs rule: rev_cases) auto
  from rep xs obtain t where t: "lbuf l = Some (map Some ys @ Some y # t)" "llen l = length ys + 1"
      "lcap l = length ys + 1 + length t"
    by (cases rule: lrep_cases) auto
  have bnd: "length xs < SIZE_BOUND" using lrep_len_bound [OF rep] by simp
  have sub: "sz_sub (length ys + 1) 1 = length ys" using bnd xs by simp
  have add: "sz_add i 1 = i + 1" using bnd i by simp
  show ?thesis
  proof (cases "i + 1 < llen l")
    case True
    with t(2) have ii: "i < length ys" by simp
    let ?l = "l\<lparr>lbuf := Some (map Some (ys[i := y]) @ None # t), llen := length ys\<rparr>"
    have e: "wr_blk (lbuf l) i y = Some (Some (map Some (ys[i := y]) @ Some y # t))"
      using ii t(1) by (simp add: wr_blk_def list_update_append map_update)
    show ?thesis
    proof (rule lstepI [of _ ?l])
      show "SwapRemoveAt i l = Some ?l"
        using True ii e t sub add rd_elem [OF rep i] xs
        by (simp add: SwapRemoveAt_def mem_simps nth_append)
      show "lrep szT ?l (butlast (xs[i := last xs]))"
        by (rule lrep_Blk [where t = "None # t"])
          (use t ii xs lrep_pos [OF rep] in \<open>auto simp: list_update_append butlast_append\<close>)
    qed simp
  next
    case False
    with i xs t(2) have ii: "i = length ys" by simp
    let ?l = "l\<lparr>lbuf := Some (map Some ys @ None # t), llen := length ys\<rparr>"
    show ?thesis
    proof (rule lstepI [of _ ?l])
      show "SwapRemoveAt i l = Some ?l"
        using False t sub add by (simp add: SwapRemoveAt_def mem_simps)
      show "lrep szT ?l (butlast (xs[i := last xs]))"
        by (rule lrep_Blk [where t = "None # t"])
          (use t ii xs lrep_pos [OF rep] in \<open>auto simp: list_update_append\<close>)
    qed simp
  qed
qed

text \<open>On an empty list the decrement wraps and the destructor call leaves the block.\<close>

lemma SwapRemoveAt_empty: "lrep szT l [] \<Longrightarrow> SwapRemoveAt i l = None"
proof -
  assume rep: "lrep szT l []"
  have "sz_sub 0 1 = SIZE_BOUND - 1" by (simp add: sz_sub_def SIZE_BOUND_def)
  moreover have "lcap l < SIZE_BOUND - 1"
  proof -
    have "lcap l \<le> lcap l * szT" using lrep_pos [OF rep] by simp
    with lrep_pos [OF rep] have "lcap l \<le> PTRDIFF_MAX" by linarith
    then show ?thesis by (simp add: SIZE_BOUND_def PTRDIFF_MAX_def)
  qed
  ultimately have "rd_blk (lbuf l) (sz_sub 0 1) = None"
    using rep by (auto simp: rd_blk_def lrep_def linv_def split: option.splits)
  then show ?thesis using lrep_length [OF rep]
    by (simp add: SwapRemoveAt_def kill_blk_def)
qed



lemma blit_up:
  assumes "length p = i" and "0 < length q"
  shows "blit (Some (p @ q @ s # t)) (i + 1) (Some (p @ q @ s # t)) i (length q)
       = Some (Some (p @ hd q # q @ t))"
  using assms by (cases q) (auto simp: blit_def)

text \<open>Opening a slot for an element type that is moved one by one: the last element first, then the rest.\<close>

lemma open_slot_move:
  assumes "qs \<noteq> []" and "n = length ps + length qs"
  shows "do {
      y \<leftarrow> rd_blk (Some (map Some ps @ map Some qs @ s # t)) (n - 1);
      b1 \<leftarrow> wr_blk (Some (map Some ps @ map Some qs @ s # t)) n y;
      b2 \<leftarrow> shift_up b1 (n - 1) (n - 1 - length ps);
      kill_blk b2 (length ps) } = Some (Some (map Some ps @ None # map Some qs @ t))"
proof -
  obtain q y where q: "qs = q @ [y]" using assms(1) by (cases qs rule: rev_cases) auto
  have n: "n - 1 - length ps = length q" "length ps + length q = n - 1" "n = length (map Some (ps @ q @ [y]))"
    using assms(2) q by simp_all
  have rd: "rd_blk (Some (map Some ps @ map Some qs @ s # t)) (n - 1) = Some y"
    using rd_blk_app [of "map Some (ps @ q)" "n - 1" y "s # t"] q n(2) by simp
  have wr: "wr_blk (Some (map Some ps @ map Some qs @ s # t)) n y = Some (Some (map Some ps @ map Some q @ Some y # Some y # t))"
    using wr_blk_app [of "map Some (ps @ q @ [y])" n s t y] q n(3) by simp
  have su: "shift_up (Some (map Some ps @ map Some q @ Some y # Some y # t)) (n - 1) (length q)
      = Some (Some (map Some ps @ hd (map Some q @ [Some y]) # map Some q @ Some y # t))"
    by (rule shift_up_app) (use n(2) in simp)
  obtain z where z: "hd (map Some q @ [Some y]) = Some z" by (cases q) auto
  have "kill_blk (Some (map Some ps @ Some z # map Some q @ Some y # t)) (length ps)
      = Some (Some (map Some ps @ None # map Some q @ Some y # t))"
    by (rule kill_blk_app) simp
  with rd wr su z n(1) q show ?thesis by simp
qed

lemma EmplaceAt_ok:
  assumes rep: "lrep szT l xs" and fit: "fits szT (length xs + 1)"
  shows "lstep szT l (EmplaceAt triv szT idx x l) (take idx xs @ x # drop idx xs)"
proof -
  obtain l' t where l': "Reserve triv szT (length xs + 1) l = Some l'"
    "lbuf l' = Some (map Some xs @ t)" "llen l' = length xs" "lcap l' = length xs + length t"
    "length xs + 1 \<le> length xs + length t" "xx_list.more l' = xx_list.more l"
    "0 < szT" "lcap l' * szT \<le> PTRDIFF_MAX"
    using Reserve_room [OF rep fit] by auto
  then obtain s t' where t: "t = s # t'" by (cases t) auto
  note res = l'(1) len_sum_exact [OF rep fit]
  have ok: "EmplaceAt triv szT idx x l = Some (l'\<lparr>lbuf := Some (map Some ys @ t'), llen := length xs + 1\<rparr>) \<Longrightarrow>
      length ys = length xs + 1 \<Longrightarrow> lstep szT l (EmplaceAt triv szT idx x l) ys" for ys
    by (rule lstepI, assumption, rule lrep_Blk [where t = t']) (use l' t in auto)
  show ?thesis
  proof (cases "idx < length xs")
    case False
    then show ?thesis
      using res l'(2,3) t by (intro ok) (simp_all add: EmplaceAt_def mem_simps Let_def)
  next
    case True
    let ?p = "take idx xs" and ?q = "drop idx xs"
    have lp: "length ?p = idx" and q0: "?q \<noteq> []" and lq: "length (map Some ?q) = length xs - idx" "length xs = length ?p + length ?q"
      using True by auto
    have b: "lbuf l' = Some (map Some ?p @ map Some ?q @ s # t')"
      using l'(2) t by (simp flip: map_append append_assoc)
    have w: "wr_blk (Some (map Some ?p @ y # map Some ?q @ t')) idx x = Some (Some (map Some (?p @ x # ?q) @ t'))" for y
      using wr_blk_app [of "map Some ?p" idx y "map Some ?q @ t'" x] lp by simp
    have "EmplaceAt triv szT idx x l
        = Some (l'\<lparr>lbuf := Some (map Some (?p @ x # ?q) @ t'), llen := length xs + 1\<rparr>)"
    proof (cases triv)
      case tr: True
      obtain y where "blit (lbuf l') (idx + 1) (lbuf l') idx (length xs - idx) = Some (Some (map Some ?p @ y # map Some ?q @ t'))"
        using b blit_up [of "map Some ?p" idx "map Some ?q" s t'] lq(1) lp q0 by auto
      with tr res l'(3) True w show ?thesis by (simp add: EmplaceAt_def Let_def)
    next
      case f: False
      obtain z b1 b2 where "rd_blk (lbuf l') (length xs - 1) = Some z" "wr_blk (lbuf l') (length xs) z = Some b1"
          "shift_up b1 (length xs - 1) (length xs - 1 - idx) = Some b2" "kill_blk b2 idx = Some (Some (map Some ?p @ None # map Some ?q @ t'))"
        using open_slot_move [OF q0 lq(2), of s t'] unfolding lp b by (auto simp only: bind_Some_iff)
      with f res l'(3) True w show ?thesis by (simp add: EmplaceAt_def Let_def)
    qed
    then show ?thesis by (rule ok) (use True in simp)
  qed
qed

lemma Resize_ok:
  assumes rep: "lrep szT l xs" and fit: "fits szT n"
  shows "\<exists>l'. Resize triv szT d n l = Some (length xs, l') \<and>
              lrep szT l' (take n xs @ replicate (n - length xs) d) \<and> xx_list.more l' = xx_list.more l"
proof -
  note pos = lrep_pos [OF rep] and len = lrep_length [OF rep]
  consider "n = length xs" | "n < length xs" | "length xs < n" by linarith
  then show ?thesis
  proof cases
    case 1
    with rep len show ?thesis by (simp add: Resize_def)
  next
    case 2
    with rep obtain t where t: "lbuf l = Some (map Some xs @ t)" "lcap l = length xs + length t"
      by (cases rule: lrep_cases) auto
    let ?t = "replicate (length xs - n) None @ t"
    let ?l = "l\<lparr>lbuf := Some (map Some (take n xs) @ ?t), llen := n\<rparr>"
    have "lbuf l = Some (map Some (take n xs) @ map Some (drop n xs) @ t)"
      using t(1) by (simp flip: map_append append_assoc)
    with kill_range_app [of "map Some (take n xs)" n "drop n xs" t] 2 len
    have "Resize triv szT d n l = Some (length xs, ?l)" by (simp add: Resize_def)
    moreover have "lrep szT ?l (take n xs)"
      by (rule lrep_Blk [where t = ?t]) (use 2 t pos in auto)
    ultimately show ?thesis using 2 by simp
  next
    case 3
    then have n: "0 < n" by simp
    obtain l' t where l': "Reserve triv szT n l = Some l'"
      "lbuf l' = Some (map Some xs @ t)" "llen l' = length xs" "lcap l' = length xs + length t"
      "n \<le> length xs + length t" "xx_list.more l' = xx_list.more l"
      "0 < szT" "lcap l' * szT \<le> PTRDIFF_MAX"
      using Reserve_room [OF rep fit n] by auto
    let ?k = "n - length xs"
    let ?ys = "xs @ replicate ?k d"
    let ?l = "l'\<lparr>lbuf := Some (map Some ?ys @ drop ?k t), llen := n\<rparr>"
    have "init_range d (lbuf l') (llen l') ?k = Some (Some (map Some ?ys @ drop ?k t))"
      using l' 3 init_range_app [of "map Some xs" "length xs" ?k t d] by (simp add: map_replicate)
    with l' 3 len have "Resize triv szT d n l = Some (length xs, ?l)" by (simp add: Resize_def)
    moreover have "lrep szT ?l ?ys"
      by (rule lrep_Blk [where t = "drop ?k t"]) (use 3 l' in auto)
    ultimately show ?thesis using 3 l' by simp
  qed
qed

lemma List_with_cap_ok:
  assumes "0 < szT" and "fits szT n"
  shows "\<exists>l. List_with_cap szT n = Some l \<and> lrep szT l [] \<and> n \<le> lcap l"
proof (cases "n = 0")
  case True
  with assms show ?thesis by (simp add: List_with_cap_def lrep_def linv_def contents_def)
next
  case False
  with alloc_ok [of szT n] assms obtain r where r: "Round2n_sz (sz_mul n szT) = Some r"
      "n \<le> r div szT" "r \<le> PTRDIFF_MAX" "r div szT * szT \<le> PTRDIFF_MAX" by auto
  let ?l = "\<lparr>lbuf = Some (replicate (r div szT) None), lcap = r div szT, llen = 0\<rparr>"
  have "lrep szT ?l []" using r assms by (intro lrep_Blk) auto
  moreover have "List_with_cap szT n = Some ?l"
    using False r by (simp add: List_with_cap_def malloc_blk_def)
  ultimately show ?thesis using r(2) by auto
qed

lemma List_move_ok:
  "lrep szT src xs \<Longrightarrow> List_move src = (l, src') \<Longrightarrow> lrep szT l xs \<and> lrep szT src' []"
  by (auto simp: List_move_def lrep_def linv_def contents_def)

lemma lrep_cong:
  "lbuf l' = lbuf l \<Longrightarrow> lcap l' = lcap l \<Longrightarrow> llen l' = llen l \<Longrightarrow> lrep szT l' xs = lrep szT l xs"
  by (simp only: lrep_def linv_def contents_def)

lemma List_move_assign_ok:
  assumes "lrep szT a xs" and "lrep szT b ys" and "List_move_assign a b = (a', b')"
  shows "lrep szT a' ys \<and> lrep szT b' xs"
proof -
  have "lrep szT a' ys = lrep szT b ys"
    by (rule lrep_cong) (use assms(3) in \<open>auto simp: List_move_assign_def\<close>)
  moreover have "lrep szT b' xs = lrep szT a xs"
    by (rule lrep_cong) (use assms(3) in \<open>auto simp: List_move_assign_def\<close>)
  ultimately show ?thesis using assms by simp
qed

section \<open>The interface of a growable sequence\<close>

text \<open>
  What the byte buffers and the peers rely on: appending one element, appending a range,
  taking the last element back. \<open>room n\<close> says that \<open>n\<close> elements can be held.
\<close>

locale growable =
  fixes rep :: "'l \<Rightarrow> 'a list \<Rightarrow> bool"
    and room :: "nat \<Rightarrow> bool"
    and push :: "'a \<Rightarrow> 'l \<Rightarrow> 'l option"
    and append :: "'a list \<Rightarrow> 'l \<Rightarrow> 'l option"
    and pop :: "'l \<Rightarrow> ('a option \<times> 'l) option"
  assumes room_mono: "room n \<Longrightarrow> m \<le> n \<Longrightarrow> room m"
    and rep_push: "rep l xs \<Longrightarrow> room (length xs + 1) \<Longrightarrow> \<exists>l'. push x l = Some l' \<and> rep l' (xs @ [x])"
    and rep_append: "rep l xs \<Longrightarrow> room (length xs + length ys) \<Longrightarrow>
          \<exists>l'. append ys l = Some l' \<and> rep l' (xs @ ys)"
    and rep_pop: "rep l xs \<Longrightarrow>
          \<exists>l'. pop l = Some (if xs = [] then None else Some (last xs), l') \<and> rep l' (butlast xs)"
begin

lemma push_pop:
  assumes "rep l xs" and "room (length xs + 1)"
  shows "\<exists>l' l''. push x l = Some l' \<and> pop l' = Some (Some x, l'') \<and> rep l'' xs"
  using rep_push [OF assms, of x] rep_pop [of _ "xs @ [x]"] by fastforce

lemma push_all:
  "rep l xs \<Longrightarrow> room (length xs + length ys) \<Longrightarrow> \<exists>l'. kfold push ys l = Some l' \<and> rep l' (xs @ ys)"
proof (induction ys arbitrary: l xs)
  case Nil
  then show ?case by simp
next
  case (Cons y ys)
  then have "room (length xs + 1)" using room_mono by fastforce
  with Cons.prems obtain l1 where l1: "push y l = Some l1" "rep l1 (xs @ [y])"
    using rep_push by blast
  with Cons obtain l2 where "kfold push ys l1 = Some l2" "rep l2 ((xs @ [y]) @ ys)"
    using Cons.IH [of l1 "xs @ [y]"] by auto
  with l1 show ?case by auto
qed

end

interpretation xl: growable "lrep szT" "fits szT" "Emplace triv szT" "AddRange triv szT" TryPop
  for szT triv
proof
  show "fits szT n \<Longrightarrow> m \<le> n \<Longrightarrow> fits szT m" for n m by (rule fits_mono)
  show "lrep szT l xs \<Longrightarrow> fits szT (length xs + 1) \<Longrightarrow>
      \<exists>l'. Emplace triv szT x l = Some l' \<and> lrep szT l' (xs @ [x])" for l :: "('a, 'b) xx_list_scheme" and xs x
    using Emplace_ok by (fastforce simp: lstep_def)
  show "lrep szT l xs \<Longrightarrow> fits szT (length xs + length ys) \<Longrightarrow>
      \<exists>l'. AddRange triv szT ys l = Some l' \<and> lrep szT l' (xs @ ys)" for l :: "('a, 'b) xx_list_scheme" and xs ys
    using AddRange_ok by (fastforce simp: lstep_def)
  show "lrep szT l xs \<Longrightarrow>
      \<exists>l'. TryPop l = Some (if xs = [] then None else Some (last xs), l') \<and> lrep szT l' (butlast xs)"
      for l :: "('a, 'b) xx_list_scheme" and xs
    using TryPop_ok by blast
qed

lemma List_Add_kfold: "List_Add triv szT vs l = kfold (Emplace triv szT) vs l"
proof (induction vs arbitrary: l)
  case Nil
  then show ?case by simp
next
  case (Cons v vs)
  then show ?case by (cases "Emplace triv szT v l") simp_all
qed

end
