(* ===== verification/Buffers.thy ===== *)
theory Buffers
  imports Lists
begin

unbundle bit_operations_syntax

text \<open>
  The byte buffers of \<^verbatim>\<open>test_uv_3/xx_bbuffer.h\<close>: \<^verbatim>\<open>Buffer\<close> (a \<^verbatim>\<open>List<uint8_t>\<close> with
  \<^verbatim>\<open>RemoveFront\<close>) and \<^verbatim>\<open>BBuffer\<close>, the serialisation buffer with its read offset, and the
  \<^verbatim>\<open>BFuncs\<close> codecs for plain values: fixed-size values, variable-length integers with zig-zag
  for signed types, strings, identifiers, nested buffers and lists. Every write goes through
  \<open>Reserve\<close> and checked stores, every read through checked loads.
\<close>

section \<open>Buffer\<close>

definition Buffer_copy :: "bytes \<Rightarrow> nat \<Rightarrow> u8 xx_list option" where
  "Buffer_copy src prefix = (if src = [] then None
     else do {
       m \<leftarrow> malloc_blk 1 (sz_add (length src) prefix);
       b \<leftarrow> blit (Some m) prefix (Some (map Some src)) 0 (length src);
       let cap = (0 :: nat);
       Some \<lparr>lbuf = b, lcap = cap + prefix, llen = length src + prefix\<rparr> })"

definition RemoveFront :: "nat \<Rightarrow> ('a, 'z) xx_list_scheme \<Rightarrow> ('a, 'z) xx_list_scheme option" where
  "RemoveFront n l = (if n \<le> llen l then
       (if n = 0 then Some l
        else let k = llen l - n in
          do {
            b \<leftarrow> (if k \<noteq> 0 then blit (lbuf l) 0 (lbuf l) n k else Some (lbuf l));
            Some (l\<lparr>lbuf := b, llen := k\<rparr>) })
     else None)"

section \<open>BBuffer\<close>

text \<open>
  \<open>ptrs\<close> maps the address of a written object to its offset, \<open>objIdxs\<close> and \<open>strIdxs\<close> map an
  offset of the input to the address of the object or string read there.
\<close>

type_synonym addr = nat

record bbuffer = "8 word xx_list" +
  offset :: nat
  offsetRoot :: nat
  readLengthLimit :: nat
  ptrs :: "nat \<rightharpoonup> nat"
  objIdxs :: "nat \<rightharpoonup> nat"
  strIdxs :: "nat \<rightharpoonup> nat"

definition BBuffer_new :: bbuffer where
  "BBuffer_new = \<lparr>lbuf = None, lcap = 0, llen = 0, offset = 0, offsetRoot = 0,
     readLengthLimit = 0, ptrs = Map.empty, objIdxs = Map.empty, strIdxs = Map.empty\<rparr>"

definition BBuffer_move :: "bbuffer \<Rightarrow> bbuffer \<times> bbuffer" where
  "BBuffer_move src =
     (BBuffer_new\<lparr>lbuf := lbuf src, lcap := lcap src, llen := llen src, offset := offset src\<rparr>,
      src\<lparr>lbuf := None, lcap := 0, llen := 0, offset := 0\<rparr>)"

definition BBuffer_move_assign :: "bbuffer \<Rightarrow> bbuffer \<Rightarrow> bbuffer \<times> bbuffer" where
  "BBuffer_move_assign this src =
     (this\<lparr>lbuf := lbuf src, llen := llen src, lcap := lcap src, offset := offset src\<rparr>,
      src\<lparr>lbuf := lbuf this, llen := llen this, lcap := lcap this, offset := offset this\<rparr>)"

definition BBuffer_Reset :: "u8 blk option \<Rightarrow> nat \<Rightarrow> nat \<Rightarrow> nat \<Rightarrow> bbuffer \<Rightarrow> bbuffer" where
  "BBuffer_Reset b len cap offs bb = bb\<lparr>lbuf := b, llen := len, lcap := cap, offset := offs\<rparr>"

fun get_range :: "'a blk option \<Rightarrow> nat \<Rightarrow> nat \<Rightarrow> 'a list option" where
  "get_range b i 0 = Some []"
| "get_range b i (Suc n) = do { x \<leftarrow> rd_blk b i; xs \<leftarrow> get_range b (Suc i) n; Some (x # xs) }"

text \<open>Reserve, copy in, advance \<^verbatim>\<open>len\<close>: the shape of every fixed-size write.\<close>

definition put_raw :: "bytes \<Rightarrow> bbuffer \<Rightarrow> bbuffer option" where
  "put_raw bs bb = do {
     bb' \<leftarrow> Reserve True 1 (sz_add (llen bb) (length bs)) bb;
     b \<leftarrow> blit (lbuf bb') (llen bb') (Some (map Some bs)) 0 (length bs);
     Some (bb'\<lparr>lbuf := b, llen := llen bb' + length bs\<rparr>) }"

text \<open>Check against \<^verbatim>\<open>len\<close>, copy out, advance \<^verbatim>\<open>offset\<close>: the shape of every fixed-size read.\<close>

definition get_raw :: "int \<Rightarrow> nat \<Rightarrow> bbuffer \<Rightarrow> (bytes rres \<times> bbuffer) option" where
  "get_raw code n bb = (if llen bb < sz_add (offset bb) n then Some (Inl code, bb)
     else do {
       bs \<leftarrow> get_range (lbuf bb) (offset bb) n;
       Some (Inr bs, bb\<lparr>offset := offset bb + n\<rparr>) })"

definition WriteFixed :: "'w::len word \<Rightarrow> bbuffer \<Rightarrow> bbuffer option" where
  "WriteFixed v bb = put_raw (le_bytes (LENGTH('w) div 8) v) bb"

definition ReadFixed :: "bbuffer \<Rightarrow> ('w::len word rres \<times> bbuffer) option" where
  "ReadFixed bb = do {
     (r, bb') \<leftarrow> get_raw (- 1) (LENGTH('w) div 8) bb;
     Some (map_sum id le_word r, bb') }"

section \<open>Variable-length integers\<close>

text \<open>
  The signed type of the same width is the same word; the shifts are those of the promoted
  operand, and \<^verbatim>\<open>in >> (sizeof(SIn) * 8 - 1)\<close> is arithmetic.
\<close>

definition ZigZagEncode :: "'w::len word \<Rightarrow> 'w word" where
  "ZigZagEncode v = push_bit 1 v XOR signed_drop_bit (LENGTH('w) - 1) v"

definition ZigZagDecode :: "'w::len word \<Rightarrow> 'w word" where
  "ZigZagDecode u = drop_bit 1 u XOR (- (u AND 1))"

lemma unat_drop7: "unat (drop_bit 7 (u :: 'w::len word)) = unat u div 128"
  by (subst unat_drop_bit_eq) (simp add: drop_bit_eq_div)

function var_put :: "'w::len word \<Rightarrow> bbuffer \<Rightarrow> bbuffer option" where
  "var_put u bb = (if 128 \<le> unat u
     then do {
       b \<leftarrow> wr_blk (lbuf bb) (llen bb) (ucast (u AND 0x7F OR 0x80));
       var_put (drop_bit 7 u) (bb\<lparr>lbuf := b, llen := llen bb + 1\<rparr>) }
     else do {
       b \<leftarrow> wr_blk (lbuf bb) (llen bb) (ucast u);
       Some (bb\<lparr>lbuf := b, llen := llen bb + 1\<rparr>) })"
  by pat_completeness auto
termination
  by (relation "measure (\<lambda>(u, bb). unat u)") (auto simp: unat_drop7)

declare var_put.simps [simp del]

text \<open>\<^verbatim>\<open>WriteVarIntger<T>\<close> for an unsigned and for a signed \<^verbatim>\<open>T\<close>.\<close>

definition WriteVarU :: "'w::len word \<Rightarrow> bbuffer \<Rightarrow> bbuffer option" where
  "WriteVarU v bb = do {
     bb' \<leftarrow> Reserve True 1 (sz_add (sz_add (llen bb) (LENGTH('w) div 8)) 1) bb;
     var_put v bb' }"

definition WriteVarS :: "'w::len word \<Rightarrow> bbuffer \<Rightarrow> bbuffer option" where
  "WriteVarS v bb = do {
     let u = ZigZagEncode v;
     bb' \<leftarrow> Reserve True 1 (sz_add (sz_add (llen bb) (LENGTH('w) div 8)) 1) bb;
     var_put u bb' }"

text \<open>
  \<^verbatim>\<open>ReadVarInteger<T>\<close>. The operand \<^verbatim>\<open>(b & 0x7Fu)\<close> is a 32 bit \<^verbatim>\<open>unsigned int\<close> whatever \<^verbatim>\<open>T\<close>
  is, so the shift is done at 32 bits, and a shift by 32 or more is undefined behaviour.
\<close>

function var_get :: "nat \<Rightarrow> 'w::len word \<Rightarrow> bbuffer \<Rightarrow> ('w word rres \<times> bbuffer) option" where
  "var_get shift u bb = (if shift < LENGTH('w)
     then (if offset bb = llen bb then Some (Inl (- 9), bb)
       else do {
         b \<leftarrow> rd_blk (lbuf bb) (offset bb);
         let bb' = bb\<lparr>offset := offset bb + 1\<rparr>;
         (if 32 \<le> shift then None
          else let u' = u OR ucast (push_bit shift (ucast (b AND 0x7F) :: u32)) in
            (if b AND 0x80 = 0 then Some (Inr u', bb') else var_get (shift + 7) u' bb')) })
     else Some (Inl (- 10), bb))"
  by pat_completeness auto
termination
  by (relation "measure (\<lambda>(shift, u, bb). size u - shift)") (auto simp: word_size)

declare var_get.simps [simp del]

definition ReadVarU :: "bbuffer \<Rightarrow> ('w::len word rres \<times> bbuffer) option" where
  "ReadVarU bb = var_get 0 0 bb"

definition ReadVarS :: "bbuffer \<Rightarrow> ('w::len word rres \<times> bbuffer) option" where
  "ReadVarS bb = do {
     (r, bb') \<leftarrow> var_get 0 0 bb;
     Some (map_sum id ZigZagDecode r, bb') }"

section \<open>Codecs of plain values\<close>

text \<open>One-byte numbers and \<^verbatim>\<open>float\<close>: the memory image.\<close>

definition Plain_WriteTo :: "'w::len word \<Rightarrow> bbuffer \<Rightarrow> bbuffer option" where
  "Plain_WriteTo v bb = put_raw (le_bytes (LENGTH('w) div 8) v) bb"

definition Plain_ReadFrom :: "bbuffer \<Rightarrow> ('w::len word rres \<times> bbuffer) option" where
  "Plain_ReadFrom bb = do {
     (r, bb') \<leftarrow> get_raw (- 12) (LENGTH('w) div 8) bb;
     Some (map_sum id le_word r, bb') }"

definition Guid_WriteBB :: "Guid \<Rightarrow> bbuffer \<Rightarrow> bbuffer option" where
  "Guid_WriteBB g bb = AddRange True 1 (guid_bytes g) bb"

definition Guid_ReadBB :: "bbuffer \<Rightarrow> (Guid rres \<times> bbuffer) option" where
  "Guid_ReadBB bb = do {
     (r, bb') \<leftarrow> get_raw (- 1) 16 bb;
     (case r of Inl e \<Rightarrow> Some (Inl e, bb')
      | Inr bs \<Rightarrow> do { g \<leftarrow> Fill bs; Some (Inr g, bb') }) }"

definition String_WriteBB :: "bytes \<Rightarrow> bbuffer \<Rightarrow> bbuffer option" where
  "String_WriteBB s bb = do {
     bb' \<leftarrow> WriteVarU (of_nat (length s) :: u64) bb;
     AddRange True 1 s bb' }"

definition String_ReadBB :: "bbuffer \<Rightarrow> (bytes rres \<times> bbuffer) option" where
  "String_ReadBB bb = do {
     (r, bb1) \<leftarrow> ReadVarU bb;
     (case r of Inl e \<Rightarrow> Some (Inl e, bb1)
      | Inr (w :: u64) \<Rightarrow>
        let len = unat w in
        if readLengthLimit bb1 \<noteq> 0 \<and> readLengthLimit bb1 < len then Some (Inl (- 16), bb1)
        else if llen bb1 < sz_add (offset bb1) len then Some (Inl (- 17), bb1)
        else do {
          s \<leftarrow> get_range (lbuf bb1) (offset bb1) len;
          Some (Inr s, bb1\<lparr>offset := offset bb1 + len\<rparr>) }) }"

text \<open>A buffer inside a buffer: \<^verbatim>\<open>BBuffer::ToBBuffer\<close> and \<^verbatim>\<open>BBuffer::FromBBuffer\<close>.\<close>

definition BBuffer_ToBBuffer :: "bbuffer \<Rightarrow> bbuffer \<Rightarrow> bbuffer option" where
  "BBuffer_ToBBuffer this bb = do {
     bb' \<leftarrow> WriteVarU (of_nat (llen this) :: u64) bb;
     src \<leftarrow> get_range (lbuf this) 0 (llen this);
     AddRange True 1 src bb' }"

definition BBuffer_FromBBuffer :: "bbuffer \<Rightarrow> bbuffer \<Rightarrow> (bbuffer rres \<times> bbuffer) option" where
  "BBuffer_FromBBuffer this bb = do {
     (r, bb1) \<leftarrow> ReadVarU bb;
     (case r of Inl e \<Rightarrow> Some (Inl e, bb1)
      | Inr (w :: u64) \<Rightarrow>
        let len = unat w in
        if llen bb1 < sz_add (offset bb1) len then Some (Inl (- 11), bb1)
        else do {
          this1 \<leftarrow> Clear False this;
          src \<leftarrow> get_range (lbuf bb1) (offset bb1) len;
          this2 \<leftarrow> AddRange True 1 src this1;
          Some (Inr this2, bb1\<lparr>offset := offset bb1 + len\<rparr>) }) }"

section \<open>Lists of values\<close>

text \<open>
  \<^verbatim>\<open>List<T>::ToBBuffer\<close> and \<^verbatim>\<open>FromBBuffer\<close>. \<open>_raw\<close> is the branch that copies the elements'
  memory (\<^verbatim>\<open>sizeof(T) == 1\<close> or \<^verbatim>\<open>T\<close> = \<^verbatim>\<open>float\<close>; an element is then a word of \<open>8 * sizeof(T)\<close>
  bits), \<open>_elems\<close> the branch that writes or reads one element at a time.
\<close>

definition List_ToBBuffer_raw :: "'w::len word xx_list \<Rightarrow> bbuffer \<Rightarrow> bbuffer option" where
  "List_ToBBuffer_raw l bb = do {
     let sz = LENGTH('w) div 8;
     bb1 \<leftarrow> Reserve True 1 (sz_add (sz_add (llen bb) 5) (sz_mul (llen l) sz)) bb;
     bb2 \<leftarrow> WriteVarU (of_nat (llen l) :: u64) bb1;
     (if llen l = 0 then Some bb2
      else do {
        xs \<leftarrow> get_range (lbuf l) 0 (llen l);
        b \<leftarrow> blit (lbuf bb2) (llen bb2) (Some (map Some (concat (map (le_bytes sz) xs)))) 0 (llen l * sz);
        Some (bb2\<lparr>lbuf := b, llen := llen bb2 + llen l * sz\<rparr>) }) }"

definition List_ToBBuffer_elems ::
    "nat \<Rightarrow> ('a \<Rightarrow> bbuffer \<Rightarrow> bbuffer option) \<Rightarrow> 'a xx_list \<Rightarrow> bbuffer \<Rightarrow> bbuffer option" where
  "List_ToBBuffer_elems szT wr l bb = do {
     bb1 \<leftarrow> Reserve True 1 (sz_add (sz_add (llen bb) 5) (sz_mul (llen l) szT)) bb;
     bb2 \<leftarrow> WriteVarU (of_nat (llen l) :: u64) bb1;
     (if llen l = 0 then Some bb2
      else do { xs \<leftarrow> get_range (lbuf l) 0 (llen l); kfold wr xs bb2 }) }"

text \<open>
  The common head of \<^verbatim>\<open>FromBBuffer\<close>: read the count, apply the limit, compare with what is
  left. The comparison counts elements, one byte each, whatever their size.
\<close>

definition read_count :: "bbuffer \<Rightarrow> (nat rres \<times> bbuffer) option" where
  "read_count bb = do {
     (r, bb1) \<leftarrow> ReadVarU bb;
     (case r of Inl e \<Rightarrow> Some (Inl e, bb1)
      | Inr (w :: u64) \<Rightarrow>
        let len = unat w in
        if readLengthLimit bb1 \<noteq> 0 \<and> readLengthLimit bb1 < len then Some (Inl (- 1), bb1)
        else if llen bb1 < sz_add (offset bb1) len then Some (Inl (- 2), bb1)
        else Some (Inr len, bb1)) }"

fun chunks :: "nat \<Rightarrow> nat \<Rightarrow> bytes \<Rightarrow> bytes list" where
  "chunks sz 0 bs = []"
| "chunks sz (Suc n) bs = take sz bs # chunks sz n (drop sz bs)"

definition List_FromBBuffer_raw ::
    "'w::len word xx_list \<Rightarrow> bbuffer \<Rightarrow> (int \<times> 'w word xx_list \<times> bbuffer) option" where
  "List_FromBBuffer_raw this bb = do {
     let sz = LENGTH('w) div 8;
     (r, bb1) \<leftarrow> read_count bb;
     (case r of Inl e \<Rightarrow> Some (e, this, bb1)
      | Inr len \<Rightarrow> do {
          (_, this1) \<leftarrow> Resize True sz 0 len this;
          (if len = 0 then Some (0, this1, bb1)
           else do {
             bs \<leftarrow> get_range (lbuf bb1) (offset bb1) (len * sz);
             b \<leftarrow> blit (lbuf this1) 0 (Some (map (Some \<circ> le_word) (chunks sz len bs))) 0 len;
             Some (0, this1\<lparr>lbuf := b, llen := len\<rparr>, bb1\<lparr>offset := offset bb1 + len * sz\<rparr>) }) }) }"

fun read_elems :: "(bbuffer \<Rightarrow> ('a rres \<times> bbuffer) option) \<Rightarrow> nat \<Rightarrow> nat \<Rightarrow> 'a xx_list \<Rightarrow> bbuffer
    \<Rightarrow> (int \<times> 'a xx_list \<times> bbuffer) option" where
  "read_elems rd i 0 this bb = Some (0, this, bb)"
| "read_elems rd i (Suc k) this bb = do {
     (r, bb') \<leftarrow> rd bb;
     (case r of Inl e \<Rightarrow> Some (e, this, bb')
      | Inr x \<Rightarrow> do {
          b \<leftarrow> wr_blk (lbuf this) i x;
          read_elems rd (Suc i) k (this\<lparr>lbuf := b\<rparr>) bb' }) }"

definition List_FromBBuffer_elems ::
    "bool \<Rightarrow> nat \<Rightarrow> 'a \<Rightarrow> (bbuffer \<Rightarrow> ('a rres \<times> bbuffer) option) \<Rightarrow> 'a xx_list \<Rightarrow> bbuffer
      \<Rightarrow> (int \<times> 'a xx_list \<times> bbuffer) option" where
  "List_FromBBuffer_elems triv szT d rd this bb = do {
     (r, bb1) \<leftarrow> read_count bb;
     (case r of Inl e \<Rightarrow> Some (e, this, bb1)
      | Inr len \<Rightarrow> do {
          (_, this1) \<leftarrow> Resize triv szT d len this;
          (if len = 0 then Some (0, this1, bb1)
           else read_elems rd 0 len this1 bb1) }) }"

section \<open>Several values in one call\<close>

text \<open>
  \<^verbatim>\<open>Write(a, b, ...)\<close> writes its arguments from left to right; \<^verbatim>\<open>Read(a, b, ...)\<close> reads them in
  that order and returns the first error. The two-argument form is the step of the recursion
  \<^verbatim>\<open>ReadCore\<close>.
\<close>

definition Write2 :: "('a \<Rightarrow> bbuffer \<Rightarrow> bbuffer option) \<Rightarrow> ('b \<Rightarrow> bbuffer \<Rightarrow> bbuffer option)
    \<Rightarrow> 'a \<times> 'b \<Rightarrow> bbuffer \<Rightarrow> bbuffer option" where
  "Write2 wa wb ab bb = do { bb' \<leftarrow> wa (fst ab) bb; wb (snd ab) bb' }"

definition ReadCore :: "(bbuffer \<Rightarrow> ('a rres \<times> bbuffer) option) \<Rightarrow> (bbuffer \<Rightarrow> ('b rres \<times> bbuffer) option)
    \<Rightarrow> bbuffer \<Rightarrow> (('a \<times> 'b) rres \<times> bbuffer) option" where
  "ReadCore ra rb bb = do {
     (r, bb1) \<leftarrow> ra bb;
     (case r of Inl e \<Rightarrow> Some (Inl e, bb1)
      | Inr a \<Rightarrow> do {
          (r', bb2) \<leftarrow> rb bb1;
          (case r' of Inl e \<Rightarrow> Some (Inl e, bb2) | Inr b \<Rightarrow> Some (Inr (a, b), bb2)) }) }"

end
