(* ===== verification/Codecs.thy ===== *)
theory Codecs
  imports Buffers
begin

unbundle bit_operations_syntax

text \<open>
  What the codecs of \<^verbatim>\<open>xx_bbuffer.h\<close> promise: a write appends the encoding of its value to the
  contents of the buffer, and a read at the start of that encoding returns the value and moves
  the offset behind it. The promise is the locale \<open>codec\<close>; each codec of the source is an
  interpretation of it, and the laws of sequences of values are proved once in the locale.
  The theory also states where the promise ends: 64 bit values of \<open>2 ^ 32\<close> and more, the
  missing tenth byte of \<^verbatim>\<open>Reserve\<close>, and the unchecked size of a list of \<^verbatim>\<open>float\<close>.
\<close>

section \<open>Zig-zag\<close>

lemma bit_ZigZagEncode:
  "i < LENGTH('w) \<Longrightarrow> bit (ZigZagEncode (v :: 'w::len word)) i \<longleftrightarrow>
     ((0 < i \<and> bit v (i - 1)) \<noteq> bit v (LENGTH('w) - 1))"
  unfolding ZigZagEncode_def bit_xor_iff bit_push_bit_iff bit_signed_drop_bit_iff
  by (cases i) auto

lemma minus_and_1: "- (u AND 1 :: 'w::len word) = (if bit u 0 then NOT 0 else 0)"
  by (simp add: and_one_eq bit_0 odd_iff_mod_2_eq_one)

lemma bit_ZigZagDecode:
  "i < LENGTH('w) \<Longrightarrow> bit (ZigZagDecode (u :: 'w::len word)) i \<longleftrightarrow> (bit u (Suc i) \<noteq> bit u 0)"
  unfolding ZigZagDecode_def minus_and_1 by (auto simp: bit_simps)

lemma ZigZag_roundtrip: "ZigZagDecode (ZigZagEncode v) = (v :: 'w::len word)"
proof (rule bit_eqI)
  fix i
  assume "possible_bit TYPE('w word) i"
  then have i: "i < LENGTH('w)" by simp
  show "bit (ZigZagDecode (ZigZagEncode v)) i = bit v i"
  proof (cases "Suc i < LENGTH('w)")
    case True
    then show ?thesis by (auto simp: bit_ZigZagDecode bit_ZigZagEncode)
  next
    case False
    with i have e: "i = LENGTH('w) - 1" by simp
    have "\<not> bit (ZigZagEncode v) (Suc i)" using False bit_imp_le_length by blast
    then show ?thesis using i e by (auto simp: bit_ZigZagDecode bit_ZigZagEncode)
  qed
qed

lemma ZigZag_roundtrip': "ZigZagEncode (ZigZagDecode u) = (u :: 'w::len word)"
proof (rule bit_eqI)
  fix i
  assume "possible_bit TYPE('w word) i"
  then have i: "i < LENGTH('w)" by simp
  have top: "bit (ZigZagDecode u) (LENGTH('w) - 1) \<longleftrightarrow> bit u 0"
    using bit_imp_le_length [of u "LENGTH('w)"] by (auto simp: bit_ZigZagDecode)
  show "bit (ZigZagEncode (ZigZagDecode u)) i = bit u i"
    using i by (cases i) (auto simp: bit_ZigZagEncode bit_ZigZagDecode top)
qed


section \<open>Variable-length integers: writing\<close>

text \<open>The abstract encoding: seven bits per byte, least significant first.\<close>

fun venc :: "nat \<Rightarrow> bytes" where
  "venc n = (if n < 128 then [of_nat n] else of_nat (n mod 128 + 128) # venc (n div 128))"

declare venc.simps [simp del]

lemma length_venc_le: "n < 2 ^ (7 * k) \<Longrightarrow> 0 < k \<Longrightarrow> length (venc n) \<le> k"
proof (induction n arbitrary: k rule: venc.induct)
  case (1 n)
  show ?case
  proof (cases "n < 128")
    case True
    with "1.prems" show ?thesis by (simp add: venc.simps [of n])
  next
    case False
    from "1.prems"(2) obtain j where k: "k = Suc j" by (cases k) auto
    have j: "0 < j" using "1.prems"(1) False k by (cases j) auto
    have "n < 2 ^ (7 * j) * 128" using "1.prems"(1) k by (simp add: power_add)
    then have "n div 128 < 2 ^ (7 * j)" by (rule less_mult_imp_div_less)
    with False "1.IH" j k show ?thesis by (simp add: venc.simps [of n])
  qed
qed

lemma low7: "LENGTH('w) \<ge> 8 \<Longrightarrow> (ucast ((u :: 'w::len word) AND 0x7F OR 0x80) :: u8) = of_nat (unat u mod 128 + 128)"
proof -
  assume "LENGTH('w) \<ge> 8"
  have "(of_nat (unat u mod 128 + 128) :: u8) = of_nat (unat u mod 128) + 128" by simp
  also have "of_nat (unat u mod 128) = (ucast u AND 0x7F :: u8)"
  proof -
    have "unat u mod 128 = take_bit 7 (unat u)" by (simp add: take_bit_eq_mod)
    then have "(of_nat (unat u mod 128) :: u8) = take_bit 7 (of_nat (unat u))"
      by (intro bit_eqI) (auto simp: bit_simps)
    also have "\<dots> = ucast u AND mask 7" by (simp add: take_bit_eq_mask)
    finally show ?thesis by (simp add: mask_eq_exp_minus_1)
  qed
  also have "(ucast u AND 0x7F :: u8) + 128 = (ucast u AND 0x7F) OR 128"
    by (rule disjunctive_add_eq_or) (simp add: and.assoc)
  also have "\<dots> = ucast (u AND 0x7F OR 0x80)"
    by (rule bit_eqI) (use \<open>LENGTH('w) \<ge> 8\<close> in \<open>auto simp: bit_simps\<close>)
  finally show ?thesis ..
qed

lemma var_put_ok:
  fixes u :: "'w::len word"
  assumes "8 \<le> LENGTH('w)" and "lbuf bb = Some (map Some xs @ t)" and "llen bb = length xs"
    and "length (venc (unat u)) \<le> length t"
  shows "var_put u bb = Some (bb\<lparr>lbuf := Some (map Some (xs @ venc (unat u)) @ drop (length (venc (unat u))) t),
           llen := length xs + length (venc (unat u))\<rparr>)"
  using assms
proof (induction u bb arbitrary: xs t rule: var_put.induct)
  case (1 u bb)
  from "1.prems"(4) obtain s t' where t: "t = s # t'"
    by (cases t) (auto simp: venc.simps [of "unat u"] split: if_splits)
  show ?case
  proof (cases "128 \<le> unat u")
    case True
    define b where "b = (of_nat (unat u mod 128 + 128) :: u8)"
    define ys where "ys = venc (unat u div 128)"
    let ?bb = "bb\<lparr>lbuf := Some (map Some (xs @ [b]) @ t'), llen := llen bb + 1\<rparr>"
    have w: "wr_blk (lbuf bb) (llen bb) (ucast (u AND 0x7F OR 0x80)) = Some (Some (map Some (xs @ [b]) @ t'))"
      using "1.prems"(2,3) t low7 [OF "1.prems"(1), of u] by (simp add: mem_simps b_def)
    have e: "venc (unat u) = b # ys"
      using True by (simp add: venc.simps [of "unat u"] b_def ys_def)
    have "var_put (drop_bit 7 u) ?bb = Some (?bb\<lparr>lbuf := Some (map Some ((xs @ [b]) @ venc (unat (drop_bit 7 u)))
          @ drop (length (venc (unat (drop_bit 7 u)))) t'),
        llen := length (xs @ [b]) + length (venc (unat (drop_bit 7 u)))\<rparr>)"
      by (rule "1.IH" [OF True w]) (use "1.prems" t e in \<open>auto simp: unat_drop7 ys_def\<close>)
    then have "var_put (drop_bit 7 u) ?bb = Some (?bb\<lparr>lbuf := Some (map Some ((xs @ [b]) @ ys)
          @ drop (length ys) t'), llen := length (xs @ [b]) + length ys\<rparr>)"
      unfolding unat_drop7 ys_def .
    with True w t show ?thesis by (simp add: var_put.simps [of u bb] e)
  next
    case False
    then have "venc (unat u) = [ucast u]" by (simp add: venc.simps [of "unat u"])
    then show ?thesis using False "1.prems" t by (simp add: var_put.simps [of u] mem_simps)
  qed
qed


section \<open>Reading from a buffer\<close>

text \<open>\<open>holds bb xs\<close>: the readable bytes are \<open>xs\<close>, whatever the capacity field says.\<close>

definition holds :: "('a, 'z) xx_list_scheme \<Rightarrow> 'a list \<Rightarrow> bool" where
  "holds l xs \<longleftrightarrow> llen l = length xs \<and> (xs = [] \<or> (\<exists>t. lbuf l = Some (map Some xs @ t)))"

lemma lrep_holds: "lrep szT l xs \<Longrightarrow> holds l xs"
  by (cases rule: lrep_cases, assumption) (auto simp: holds_def)

lemma holds_offset [simp]: "holds (bb\<lparr>offset := k\<rparr>) xs = holds bb xs"
  by (simp add: holds_def)

lemma rd_holds: "holds l xs \<Longrightarrow> i < length xs \<Longrightarrow> rd_blk (lbuf l) i = Some (xs ! i)"
  by (auto simp: holds_def rd_blk_def nth_append)

lemma get_range_holds:
  "holds l xs \<Longrightarrow> i + n \<le> length xs \<Longrightarrow> get_range (lbuf l) i n = Some (take n (drop i xs))"
proof (induction n arbitrary: i)
  case 0
  then show ?case by simp
next
  case (Suc n)
  then have i: "i < length xs" by simp
  have "get_range (lbuf l) (Suc i) n = Some (take n (drop (Suc i) xs))"
    by (rule Suc.IH) (use Suc.prems in simp_all)
  with rd_holds [OF Suc.prems(1) i] Cons_nth_drop_Suc [OF i, symmetric] show ?case by simp
qed

lemma get_range_lrep: "lrep szT l xs \<Longrightarrow> get_range (lbuf l) 0 (llen l) = Some xs"
  using get_range_holds [OF lrep_holds, of szT l xs 0 "length xs"] by (simp add: lrep_length)

section \<open>Variable-length integers: reading\<close>

lemma byte_low7: "(of_nat n :: u8) AND 0x7F = of_nat (n mod 128)"
proof -
  have "(of_nat n :: u8) AND mask 7 = of_nat (take_bit 7 n)"
    by (intro bit_eqI) (auto simp: bit_simps)
  then show ?thesis by (simp add: mask_eq_exp_minus_1 take_bit_eq_mod)
qed

lemma byte_high: "n < 256 \<Longrightarrow> (of_nat n :: u8) AND 0x80 = 0 \<longleftrightarrow> n < 128"
proof -
  assume n: "n < 256"
  have "(of_nat n :: u8) AND 0x80 = 0 \<longleftrightarrow> \<not> bit (of_nat n :: u8) 7"
    using and_exp_eq_0_iff_not_bit [of "of_nat n :: u8" 7] by simp
  also have "bit (of_nat n :: u8) 7 \<longleftrightarrow> bit n 7" by (simp add: bit_simps)
  also have "\<dots> \<longleftrightarrow> 128 \<le> n" using top_bit_nat [of n 7] n by simp
  finally show ?thesis by (simp add: not_le)
qed

lemma or_shifted:
  fixes acc :: "'w::len word"
  assumes acc: "unat acc < 2 ^ k" and k: "k < 32"
    and lt32: "d * 2 ^ k < 2 ^ 32"
  shows "acc OR ucast (push_bit k (of_nat d :: u32)) = of_nat (unat acc + d * 2 ^ k)"
proof -
  have "push_bit k (of_nat d :: u32) = of_nat (d * 2 ^ k)" by (simp add: push_bit_eq_mult)
  moreover have "unat (of_nat (d * 2 ^ k) :: u32) = d * 2 ^ k" using lt32 by (subst unat_of_nat) simp
  ultimately have s: "(ucast (push_bit k (of_nat d :: u32)) :: 'w word) = of_nat (d * 2 ^ k)"
    by (metis of_nat_unat)
  have lo: "\<not> bit acc i" if "k \<le> i" for i
  proof -
    have "bit (unat acc) i = False"
      using acc that by (metis bit_take_bit_iff not_le take_bit_nat_eq_self)
    then show ?thesis using that by (auto simp: bit_unsigned_iff dest: bit_imp_le_length)
  qed
  have hi: "\<not> bit (of_nat (d * 2 ^ k) :: 'w word) i" if "i < k" for i
    using that by (simp add: bit_simps flip: push_bit_eq_mult)
  have "acc AND of_nat (d * 2 ^ k) = 0"
  proof (rule bit_eqI)
    fix i
    show "bit (acc AND of_nat (d * 2 ^ k)) i = bit (0 :: 'w word) i"
      using lo [of i] hi [of i] by (cases "i < k") (simp_all add: bit_and_iff)
  qed
  then have "acc OR of_nat (d * 2 ^ k) = acc + of_nat (d * 2 ^ k)"
    by (simp add: disjunctive_add_eq_or)
  with s show ?thesis by simp
qed

lemma var_shift_bound:
  fixes m :: nat
  assumes "0 < m \<or> i = 0" "m * 2 ^ (7 * i) < 2 ^ n" "0 < n"
  shows "7 * i < n"
proof -
  have "(2 :: nat) ^ (7 * i) < 2 ^ n"
  proof (cases "0 < m")
    case True
    then have "(2 :: nat) ^ (7 * i) \<le> m * 2 ^ (7 * i)" by simp
    with assms(2) show ?thesis by linarith
  next
    case False
    with assms(1,3) show ?thesis using one_less_power [of "2 :: nat" n] by simp
  qed
  then show ?thesis by (metis nat_power_less_imp_less zero_less_numeral)
qed

lemma var_split: "(m :: nat) * 2 ^ (7 * i) = m mod 128 * 2 ^ (7 * i) + m div 128 * 2 ^ (7 * Suc i)"
proof -
  define d q where "d = m mod 128" and "q = m div 128"
  then have "m = d + q * 128" by simp
  then have "m * 2 ^ (7 * i) = d * 2 ^ (7 * i) + q * 2 ^ (7 * Suc i)" by (simp add: algebra_simps power_add)
  then show ?thesis by (simp only: d_def q_def)
qed

lemma var_acc_bound:
  assumes "a < 2 ^ (7 * i)" "(d :: nat) < 128"
  shows "a + d * 2 ^ (7 * i) < 2 ^ (7 * Suc i)"
proof -
  have "Suc d * 2 ^ (7 * i) \<le> 128 * 2 ^ (7 * i)" using assms(2) by (intro mult_le_mono1) simp
  then have "2 ^ (7 * i) + d * 2 ^ (7 * i) \<le> 128 * 2 ^ (7 * i)" by simp
  also have "(128 :: nat) * 2 ^ (7 * i) = 2 ^ (7 * Suc i)" by (simp add: power_add)
  finally show ?thesis using assms(1) by linarith
qed

text \<open>The first byte of an encoding: its low seven bits, its continuation bit, and what follows.\<close>

lemma venc_head:
  "\<exists>b bs. venc m = b # bs \<and> (ucast (b AND 0x7F) :: u32) = of_nat (m mod 128)
     \<and> (b AND 0x80 = 0 \<longleftrightarrow> m < 128) \<and> bs = (if m < 128 then [] else venc (m div 128))"
proof -
  obtain b bs where v: "venc m = b # bs"
    by (cases "venc m") (auto simp: venc.simps [of m] split: if_splits)
  have "b AND 0x7F = of_nat (m mod 128)"
    using v byte_low7 [of m] byte_low7 [of "m mod 128 + 128"]
    by (cases "m < 128") (auto simp: venc.simps [of m])
  moreover have "unat (of_nat (m mod 128) :: u8) = m mod 128" by (simp add: unat_of_nat)
  ultimately have "(ucast (b AND 0x7F) :: u32) = of_nat (m mod 128)" by (metis of_nat_unat)
  moreover have "b AND 0x80 = 0 \<longleftrightarrow> m < 128" "bs = (if m < 128 then [] else venc (m div 128))"
    using v byte_high [of m] byte_high [of "m mod 128 + 128"] by (auto simp: venc.simps [of m] split: if_splits)
  ultimately show ?thesis using v by blast
qed

text \<open>One round of the read loop.\<close>

lemma var_get_round:
  fixes acc :: "'w::len word"
  assumes h: "holds bb (pre @ venc m @ rest)" "offset bb = length pre"
    and acc: "unat acc < 2 ^ (7 * i)" and m: "m * 2 ^ (7 * i) < 2 ^ 32" "m * 2 ^ (7 * i) < 2 ^ LENGTH('w)" "0 < m \<or> i = 0"
  defines "acc' \<equiv> of_nat (unat acc + m mod 128 * 2 ^ (7 * i)) :: 'w word" and "bb' \<equiv> bb\<lparr>offset := length pre + 1\<rparr>"
  shows "var_get (7 * i) acc bb = (if m < 128 then Some (Inr acc', bb') else var_get (7 * Suc i) acc' bb')"
proof -
  define d where "d = m mod 128"
  obtain b bs where b: "venc m = b # bs" "(ucast (b AND 0x7F) :: u32) = of_nat d" "b AND 0x80 = 0 \<longleftrightarrow> m < 128"
    using venc_head [of m] unfolding d_def by blast
  have k: "7 * i < 32" "7 * i < LENGTH('w)" using var_shift_bound [OF m(3,1)] var_shift_bound [OF m(3,2)] by simp_all
  have "llen bb = length (pre @ venc m @ rest)" using h(1) by (simp add: holds_def)
  then have ne: "offset bb \<noteq> llen bb" using h(2) b(1) by simp
  have rd: "rd_blk (lbuf bb) (offset bb) = Some b"
    using rd_holds [OF h(1), of "length pre"] b(1) h(2) by simp
  have "d * 2 ^ (7 * i) < 2 ^ 32"
    using m(1) mod_less_eq_dividend [of m 128] by (metis d_def le_less_trans mult_le_mono1)
  then have "acc OR ucast (push_bit (7 * i) (of_nat d :: u32)) = acc'"
    using or_shifted [OF acc k(1)] by (simp add: acc'_def flip: d_def)
  then show ?thesis
    using k ne rd b h(2) by (simp add: var_get.simps [of "7 * i" acc bb] Let_def bb'_def add.commute)
qed

lemma var_get_ok:
  fixes acc :: "'w::len word"
  assumes "holds bb (pre @ venc m @ rest)" and "offset bb = length pre"
    and "unat acc < 2 ^ (7 * i)" and "m * 2 ^ (7 * i) < 2 ^ 32" and "m * 2 ^ (7 * i) < 2 ^ LENGTH('w)"
    and "0 < m \<or> i = 0"
  shows "var_get (7 * i) acc bb =
    Some (Inr (of_nat (unat acc + m * 2 ^ (7 * i))), bb\<lparr>offset := length pre + length (venc m)\<rparr>)"
  using assms
proof (induction m arbitrary: pre acc i bb rule: venc.induct)
  case (1 m)
  define d where "d = m mod 128"
  let ?acc = "of_nat (unat acc + d * 2 ^ (7 * i)) :: 'w word" and ?bb = "bb\<lparr>offset := length pre + 1\<rparr>"
  note round = var_get_round [OF "1.prems", folded d_def]
  obtain b bs where b: "venc m = b # bs" "bs = (if m < 128 then [] else venc (m div 128))" using venc_head [of m] by blast
  show ?case
  proof (cases "m < 128")
    case True
    then show ?thesis using round b by (simp add: d_def)
  next
    case False
    note m = var_split [of m i, folded d_def]
    have accb: "unat acc + d * 2 ^ (7 * i) < 2 ^ (7 * Suc i)" by (rule var_acc_bound [OF "1.prems"(3)]) (simp add: d_def)
    have "7 * Suc i < LENGTH('w)"
      by (rule var_shift_bound [of "m div 128"]) (use False m "1.prems"(5) in auto)
    then have "(2 :: nat) ^ (7 * Suc i) < 2 ^ LENGTH('w)" by (rule power_strict_increasing) simp
    with accb have "unat acc + d * 2 ^ (7 * i) < 2 ^ LENGTH('w)" by linarith
    then have ua: "unat ?acc = unat acc + d * 2 ^ (7 * i)" by (simp only: unat_of_nat mod_less)
    have "var_get (7 * Suc i) ?acc ?bb = Some (Inr (of_nat (unat ?acc + m div 128 * 2 ^ (7 * Suc i))),
        ?bb\<lparr>offset := length (pre @ [b]) + length (venc (m div 128))\<rparr>)"
    proof (rule "1.IH")
      show "holds ?bb ((pre @ [b]) @ venc (m div 128) @ rest)" using "1.prems"(1) b False by simp
      show "unat ?acc < 2 ^ (7 * Suc i)" using ua accb by simp
      show "m div 128 * 2 ^ (7 * Suc i) < 2 ^ 32" "m div 128 * 2 ^ (7 * Suc i) < 2 ^ LENGTH('w)"
        using m "1.prems"(4,5) by linarith+
    qed (use False in auto)
    with round ua m b False show ?thesis by (simp add: add.assoc)
  qed
qed

section \<open>Writing\<close>

lemma more_fields:
  assumes "xx_list.more bb' = xx_list.more (bb :: bbuffer)"
  shows "offset bb' = offset bb \<and> offsetRoot bb' = offsetRoot bb \<and>
         readLengthLimit bb' = readLengthLimit bb \<and> ptrs bb' = ptrs bb \<and>
         objIdxs bb' = objIdxs bb \<and> strIdxs bb' = strIdxs bb"
  using assms by (cases bb; cases bb') simp

lemma put_raw_AddRange: "put_raw bs bb = AddRange True 1 bs bb"
  by (simp add: put_raw_def AddRange_def)

lemma WriteVarU_ok:
  fixes v :: "'w::len word"
  assumes rep: "lrep 1 bb xs" and fit: "fits 1 (length xs + LENGTH('w) div 8 + 1)"
    and w: "8 \<le> LENGTH('w)" and len: "length (venc (unat v)) \<le> LENGTH('w) div 8 + 1"
  shows "lstep 1 bb (WriteVarU v bb) (xs @ venc (unat v))"
proof -
  let ?n = "length xs + LENGTH('w) div 8 + 1"
  obtain bb' t where bb': "Reserve True 1 ?n bb = Some bb'" "lbuf bb' = Some (map Some xs @ t)"
    "llen bb' = length xs" "lcap bb' = length xs + length t" "?n \<le> length xs + length t"
    "xx_list.more bb' = xx_list.more bb" "lcap bb' * 1 \<le> PTRDIFF_MAX"
    using Reserve_room [OF rep fit] by auto
  have "?n < SIZE_BOUND" using fit by (simp add: fits_def SIZE_BOUND_def)
  then have a: "sz_add (sz_add (llen bb) (LENGTH('w) div 8)) 1 = ?n"
    by (simp add: lrep_length [OF rep])
  let ?e = "venc (unat v)"
  let ?l = "bb'\<lparr>lbuf := Some (map Some (xs @ ?e) @ drop (length ?e) t), llen := length xs + length ?e\<rparr>"
  show ?thesis
  proof (rule lstepI [of _ ?l])
    have "var_put v bb' = Some ?l" by (rule var_put_ok [OF w]) (use bb' len in auto)
    then show "WriteVarU v bb = Some ?l" using bb' a by (simp add: WriteVarU_def)
    show "lrep 1 ?l (xs @ ?e)"
      by (rule lrep_Blk [where t = "drop (length ?e) t"]) (use bb' len in auto)
  qed (use bb' in simp)
qed

lemma WriteVarS_U: "WriteVarS v bb = WriteVarU (ZigZagEncode v) bb"
  by (simp add: WriteVarS_def WriteVarU_def Let_def)

lemma venc_len_width:
  "unat (v :: 'w::len word) < 2 ^ (7 * (LENGTH('w) div 8 + 1)) \<Longrightarrow>
   length (venc (unat v)) \<le> LENGTH('w) div 8 + 1"
  by (rule length_venc_le) auto

section \<open>The codec interface\<close>

text \<open>
  \<open>enc v\<close> is the encoding of \<open>v\<close> and \<open>ok v\<close> says which values are supported. The write
  asks for up to 16 spare bytes behind the encoding; the read is stated with the length
  limit switched off.
\<close>

locale codec =
  fixes wr :: "'v \<Rightarrow> bbuffer \<Rightarrow> bbuffer option"
    and rd :: "bbuffer \<Rightarrow> ('v rres \<times> bbuffer) option"
    and enc :: "'v \<Rightarrow> bytes"
    and ok :: "'v \<Rightarrow> bool"
  assumes wr_ok: "ok v \<Longrightarrow> lrep 1 bb xs \<Longrightarrow> fits 1 (length xs + length (enc v) + 16) \<Longrightarrow>
        lstep 1 bb (wr v bb) (xs @ enc v)"
    and rd_ok: "ok v \<Longrightarrow> holds bb (pre @ enc v @ rest) \<Longrightarrow> offset bb = length pre \<Longrightarrow>
        length (pre @ enc v @ rest) < SIZE_BOUND \<Longrightarrow> readLengthLimit bb = 0 \<Longrightarrow>
        rd bb = Some (Inr v, bb\<lparr>offset := length pre + length (enc v)\<rparr>)"
begin

lemma roundtrip:
  assumes ok: "ok v" and rep: "lrep 1 bb xs" and fit: "fits 1 (length xs + length (enc v) + 16)"
    and off: "offset bb = length xs" and lim: "readLengthLimit bb = 0"
  shows "\<exists>bb'. wr v bb = Some bb' \<and> contents bb' = xs @ enc v \<and>
     rd bb' = Some (Inr v, bb'\<lparr>offset := llen bb'\<rparr>)"
proof -
  from wr_ok [OF ok rep fit] obtain bb' where bb': "wr v bb = Some bb'" "lrep 1 bb' (xs @ enc v)"
      "xx_list.more bb' = xx_list.more bb" by (auto simp: lstep_def)
  have h: "holds bb' (xs @ enc v @ [])" using lrep_holds [OF bb'(2)] by simp
  have "rd bb' = Some (Inr v, bb'\<lparr>offset := length xs + length (enc v)\<rparr>)"
    by (rule rd_ok [OF ok h])
      (use more_fields [OF bb'(3)] off lim lrep_len_bound [OF bb'(2)] in auto)
  with bb' lrep_length [OF bb'(2)] show ?thesis by (auto simp: lrep_def)
qed

lemma wr_all:
  "\<forall>v \<in> set vs. ok v \<Longrightarrow> lrep 1 bb xs \<Longrightarrow> fits 1 (length xs + length (concat (map enc vs)) + 16) \<Longrightarrow>
   lstep 1 bb (kfold wr vs bb) (xs @ concat (map enc vs))"
proof (induction vs arbitrary: bb xs)
  case Nil
  then show ?case by (simp add: lstep_def)
next
  case (Cons v vs)
  have "fits 1 (length xs + length (enc v) + 16)"
    by (rule fits_mono [OF Cons.prems(3)]) simp
  with wr_ok [of v bb xs] Cons.prems obtain bb1 where bb1: "wr v bb = Some bb1"
      "lrep 1 bb1 (xs @ enc v)" "xx_list.more bb1 = xx_list.more bb" by (auto simp: lstep_def)
  have "lstep 1 bb1 (kfold wr vs bb1) ((xs @ enc v) @ concat (map enc vs))"
    by (rule Cons.IH) (use Cons.prems bb1 in \<open>auto simp: add.assoc\<close>)
  with bb1 show ?case by (auto simp: lstep_def)
qed

end

section \<open>Codecs of the source\<close>

lemma get_raw_ok:
  assumes "holds bb (pre @ ys @ rest)" and "offset bb = length pre" and "length ys = n"
    and "length (pre @ ys @ rest) < SIZE_BOUND"
  shows "get_raw code n bb = Some (Inr ys, bb\<lparr>offset := length pre + n\<rparr>)"
proof -
  have "sz_add (length pre) n = length pre + n" using assms(3,4) by simp
  moreover have "get_range (lbuf bb) (length pre) n = Some ys"
    using get_range_holds [OF assms(1), of "length pre" n] assms(3) by simp
  moreover have "llen bb = length (pre @ ys @ rest)" using assms(1) by (simp add: holds_def)
  ultimately show ?thesis using assms(2,3) by (simp add: get_raw_def)
qed

lemma AddRange_fit: "lrep 1 bb xs \<Longrightarrow> fits 1 (length xs + length ys + 16) \<Longrightarrow>
    lstep 1 bb (AddRange True 1 ys bb) (xs @ ys)"
  by (rule AddRange_ok) (auto elim: fits_mono)

lemma plain_codec:
  assumes "LENGTH('w::len) = 8 * k"
  shows "codec (Plain_WriteTo :: 'w word \<Rightarrow> _) Plain_ReadFrom (le_bytes k) (\<lambda>_. True)"
proof
  have k: "LENGTH('w) div 8 = k" using assms by simp
  show "lstep 1 bb (Plain_WriteTo v bb) (xs @ le_bytes k v)"
    if "lrep 1 bb xs" "fits 1 (length xs + length (le_bytes k v) + 16)" for v :: "'w word" and bb xs
    using AddRange_fit [OF that(1), of "le_bytes k v"] that(2) k
    by (simp add: Plain_WriteTo_def put_raw_AddRange)
  show "Plain_ReadFrom bb = Some (Inr v, bb\<lparr>offset := length pre + length (le_bytes k v)\<rparr>)"
    if "holds bb (pre @ le_bytes k v @ rest)" "offset bb = length pre"
      "length (pre @ le_bytes k v @ rest) < SIZE_BOUND" for v :: "'w word" and bb pre rest
    using get_raw_ok [OF that(1,2) _ that(3), of k "- 12"] k assms
    by (simp add: Plain_ReadFrom_def le_word_le_bytes)
qed

interpretation byte_codec: codec "Plain_WriteTo :: u8 \<Rightarrow> _" Plain_ReadFrom "le_bytes 1" "\<lambda>_. True"
  by (rule plain_codec) simp

interpretation float_codec: codec "Plain_WriteTo :: u32 \<Rightarrow> _" Plain_ReadFrom "le_bytes 4" "\<lambda>_. True"
  by (rule plain_codec) simp

interpretation guid_codec: codec Guid_WriteBB Guid_ReadBB guid_bytes "\<lambda>_. True"
proof
  show "lstep 1 bb (Guid_WriteBB g bb) (xs @ guid_bytes g)"
    if "lrep 1 bb xs" "fits 1 (length xs + length (guid_bytes g) + 16)" for g bb xs
    using AddRange_fit [OF that] by (simp add: Guid_WriteBB_def)
  show "Guid_ReadBB bb = Some (Inr g, bb\<lparr>offset := length pre + length (guid_bytes g)\<rparr>)"
    if "holds bb (pre @ guid_bytes g @ rest)" "offset bb = length pre"
      "length (pre @ guid_bytes g @ rest) < SIZE_BOUND" for g bb pre rest
    using get_raw_ok [OF that(1,2) _ that(3), of 16 "- 1"] Fill_guid_bytes [of g "[]"]
    by (simp add: Guid_ReadBB_def)
qed

text \<open>
  Variable-length integers: a value below \<open>2 ^ 32\<close>, of a type of 16, 32 or 64 bits.
\<close>

lemma ReadVarU_ok:
  fixes v :: "'w::len word"
  assumes "unat v < 2 ^ 32" and "holds bb (pre @ venc (unat v) @ rest)" and "offset bb = length pre"
  shows "ReadVarU bb = Some (Inr v, bb\<lparr>offset := length pre + length (venc (unat v))\<rparr>)"
  using var_get_ok [OF assms(2,3), of "0 :: 'w word" 0] assms(1) by (simp add: ReadVarU_def)

lemma varU_codec:
  assumes "8 \<le> LENGTH('w::len)" and "32 \<le> 7 * (LENGTH('w) div 8 + 1) \<or> LENGTH('w) \<le> 7 * (LENGTH('w) div 8 + 1)"
    and "LENGTH('w) div 8 \<le> 8"
  shows "codec (WriteVarU :: 'w word \<Rightarrow> _) ReadVarU (\<lambda>v. venc (unat v)) (\<lambda>v. unat v < 2 ^ 32)"
proof
  fix v :: "'w word"
  assume v: "unat v < 2 ^ 32"
  have "unat v < 2 ^ (7 * (LENGTH('w) div 8 + 1))"
    using assms(2)
  proof
    assume "32 \<le> 7 * (LENGTH('w) div 8 + 1)"
    then have "(2 :: nat) ^ 32 \<le> 2 ^ (7 * (LENGTH('w) div 8 + 1))" by (rule power_increasing) simp
    with v show ?thesis by linarith
  next
    assume "LENGTH('w) \<le> 7 * (LENGTH('w) div 8 + 1)"
    then have "(2 :: nat) ^ LENGTH('w) \<le> 2 ^ (7 * (LENGTH('w) div 8 + 1))" by (rule power_increasing) simp
    with unsigned_less [of v, where 'a = nat] show ?thesis by linarith
  qed
  then have len: "length (venc (unat v)) \<le> LENGTH('w) div 8 + 1" by (rule venc_len_width)
  show "lstep 1 bb (WriteVarU v bb) (xs @ venc (unat v))"
    if "lrep 1 bb xs" "fits 1 (length xs + length (venc (unat v)) + 16)" for bb xs
  proof (rule WriteVarU_ok [OF that(1) _ assms(1) len])
    show "fits 1 (length xs + LENGTH('w) div 8 + 1)"
      by (rule fits_mono [OF that(2)]) (use assms(3) in simp)
  qed
  show "ReadVarU bb = Some (Inr v, bb\<lparr>offset := length pre + length (venc (unat v))\<rparr>)"
    if "holds bb (pre @ venc (unat v) @ rest)" "offset bb = length pre" for bb pre rest
    using v that by (rule ReadVarU_ok)
qed

lemma varS_codec:
  assumes "codec (WriteVarU :: 'w::len word \<Rightarrow> _) ReadVarU (\<lambda>v. venc (unat v)) (\<lambda>v. unat v < 2 ^ 32)"
  shows "codec (WriteVarS :: 'w word \<Rightarrow> _) ReadVarS
     (\<lambda>v. venc (unat (ZigZagEncode v))) (\<lambda>v. unat (ZigZagEncode v) < 2 ^ 32)"
proof
  show "lstep 1 bb (WriteVarS v bb) (xs @ venc (unat (ZigZagEncode v)))"
    if "unat (ZigZagEncode v) < 2 ^ 32" "lrep 1 bb xs"
      "fits 1 (length xs + length (venc (unat (ZigZagEncode v))) + 16)" for v :: "'w word" and bb xs
    using codec.wr_ok [OF assms that] by (simp add: WriteVarS_U)
  show "ReadVarS bb = Some (Inr v, bb\<lparr>offset := length pre + length (venc (unat (ZigZagEncode v)))\<rparr>)"
    if "unat (ZigZagEncode v) < 2 ^ 32" "holds bb (pre @ venc (unat (ZigZagEncode v)) @ rest)"
      "offset bb = length pre" for v :: "'w word" and bb pre rest
    using ReadVarU_ok [OF that] by (simp add: ReadVarS_def ReadVarU_def ZigZag_roundtrip)
qed

interpretation u16_codec: codec "WriteVarU :: u16 \<Rightarrow> _" ReadVarU "\<lambda>v. venc (unat v)" "\<lambda>v. unat v < 2 ^ 32"
  by (rule varU_codec) simp_all

interpretation u32_codec: codec "WriteVarU :: u32 \<Rightarrow> _" ReadVarU "\<lambda>v. venc (unat v)" "\<lambda>v. unat v < 2 ^ 32"
  by (rule varU_codec) simp_all

interpretation u64_codec: codec "WriteVarU :: u64 \<Rightarrow> _" ReadVarU "\<lambda>v. venc (unat v)" "\<lambda>v. unat v < 2 ^ 32"
  by (rule varU_codec) simp_all

interpretation s16_codec: codec "WriteVarS :: u16 \<Rightarrow> _" ReadVarS
    "\<lambda>v. venc (unat (ZigZagEncode v))" "\<lambda>v. unat (ZigZagEncode v) < 2 ^ 32"
  by (rule varS_codec) (rule u16_codec.codec_axioms)

interpretation s32_codec: codec "WriteVarS :: u32 \<Rightarrow> _" ReadVarS
    "\<lambda>v. venc (unat (ZigZagEncode v))" "\<lambda>v. unat (ZigZagEncode v) < 2 ^ 32"
  by (rule varS_codec) (rule u32_codec.codec_axioms)

interpretation s64_codec: codec "WriteVarS :: u64 \<Rightarrow> _" ReadVarS
    "\<lambda>v. venc (unat (ZigZagEncode v))" "\<lambda>v. unat (ZigZagEncode v) < 2 ^ 32"
  by (rule varS_codec) (rule u64_codec.codec_axioms)

interpretation string_codec: codec String_WriteBB String_ReadBB
    "\<lambda>s. venc (length s) @ s" "\<lambda>s. length s < 2 ^ 32"
proof
  fix s :: bytes
  assume s: "length s < 2 ^ 32"
  let ?n = "of_nat (length s) :: u64"
  have n: "unat ?n = length s" using s by (simp add: unat_of_nat)
  have n32: "unat ?n < 2 ^ 32" using n s by simp
  show "lstep 1 bb (String_WriteBB s bb) (xs @ venc (length s) @ s)"
    if rep: "lrep 1 bb xs" and fit: "fits 1 (length xs + length (venc (length s) @ s) + 16)" for bb xs
  proof -
    have "fits 1 (length xs + length (venc (unat ?n)) + 16)" by (rule fits_mono [OF fit]) (simp add: n)
    from u64_codec.wr_ok [OF n32 rep this] obtain bb1 where bb1: "WriteVarU ?n bb = Some bb1"
        "lrep 1 bb1 (xs @ venc (length s))" "xx_list.more bb1 = xx_list.more bb"
      by (auto simp: lstep_def n)
    have "lstep 1 bb1 (AddRange True 1 s bb1) ((xs @ venc (length s)) @ s)"
      by (rule AddRange_fit [OF bb1(2)]) (use fit in \<open>simp add: add.assoc\<close>)
    with bb1 show ?thesis by (auto simp: String_WriteBB_def lstep_def)
  qed
  show "String_ReadBB bb = Some (Inr s, bb\<lparr>offset := length pre + length (venc (length s) @ s)\<rparr>)"
    if h: "holds bb (pre @ (venc (length s) @ s) @ rest)" and off: "offset bb = length pre"
      and bnd: "length (pre @ (venc (length s) @ s) @ rest) < SIZE_BOUND"
      and lim: "readLengthLimit bb = 0" for bb pre rest
  proof -
    let ?o = "length pre + length (venc (length s))"
    have r: "ReadVarU bb = Some (Inr ?n, bb\<lparr>offset := ?o\<rparr>)"
      using ReadVarU_ok [OF n32, of bb pre "s @ rest"] h off by (simp add: n)
    have g: "get_range (lbuf bb) ?o (length s) = Some s"
      using get_range_holds [OF h, of ?o "length s"] by simp
    have "llen bb = length (pre @ (venc (length s) @ s) @ rest)" using h by (simp add: holds_def)
    with r g n bnd lim show ?thesis by (simp add: String_ReadBB_def Let_def)
  qed
qed

section \<open>Several values\<close>

lemma pair_codec:
  assumes A: "codec wa ra ea oka" and B: "codec wb rb eb okb"
  shows "codec (Write2 wa wb) (ReadCore ra rb) (\<lambda>ab. ea (fst ab) @ eb (snd ab))
           (\<lambda>ab. oka (fst ab) \<and> okb (snd ab))"
proof
  fix ab :: "'a \<times> 'b"
  assume ok: "oka (fst ab) \<and> okb (snd ab)"
  obtain a b where ab: "ab = (a, b)" by (cases ab)
  show "lstep 1 bb (Write2 wa wb ab bb) (xs @ ea (fst ab) @ eb (snd ab))"
    if rep: "lrep 1 bb xs" and fit: "fits 1 (length xs + length (ea (fst ab) @ eb (snd ab)) + 16)" for bb xs
  proof -
    have "fits 1 (length xs + length (ea a) + 16)" by (rule fits_mono [OF fit]) (simp add: ab)
    from codec.wr_ok [OF A _ rep this] ok ab obtain bb1 where bb1: "wa a bb = Some bb1"
        "lrep 1 bb1 (xs @ ea a)" "xx_list.more bb1 = xx_list.more bb" by (auto simp: lstep_def)
    have "lstep 1 bb1 (wb b bb1) ((xs @ ea a) @ eb b)"
      by (rule codec.wr_ok [OF B _ bb1(2)]) (use ok ab fit in \<open>auto simp: add.assoc\<close>)
    with bb1 ab show ?thesis by (auto simp: Write2_def lstep_def)
  qed
  show "ReadCore ra rb bb = Some (Inr ab, bb\<lparr>offset := length pre + length (ea (fst ab) @ eb (snd ab))\<rparr>)"
    if h: "holds bb (pre @ (ea (fst ab) @ eb (snd ab)) @ rest)" and off: "offset bb = length pre"
      and bnd: "length (pre @ (ea (fst ab) @ eb (snd ab)) @ rest) < SIZE_BOUND"
      and lim: "readLengthLimit bb = 0" for bb pre rest
  proof -
    have ra: "ra bb = Some (Inr a, bb\<lparr>offset := length pre + length (ea a)\<rparr>)"
      by (rule codec.rd_ok [OF A, where rest = "eb b @ rest"]) (use ok ab h off bnd lim in auto)
    have "rb (bb\<lparr>offset := length pre + length (ea a)\<rparr>)
        = Some (Inr b, bb\<lparr>offset := length pre + length (ea a)\<rparr>\<lparr>offset := length (pre @ ea a) + length (eb b)\<rparr>)"
      by (rule codec.rd_ok [OF B, where rest = rest]) (use ok ab h off bnd lim in auto)
    with ra ab show ?thesis by (simp add: ReadCore_def add.assoc)
  qed
qed

text \<open>The head of every package: the serial number, then the payload string.\<close>

interpretation serial_string_codec: codec "Write2 (WriteVarS :: u32 \<Rightarrow> _) String_WriteBB" "ReadCore ReadVarS String_ReadBB"
    "\<lambda>ab. venc (unat (ZigZagEncode (fst ab))) @ venc (length (snd ab)) @ snd ab"
    "\<lambda>ab. unat (ZigZagEncode (fst ab)) < 2 ^ 32 \<and> length (snd ab) < 2 ^ 32"
  by (rule pair_codec [OF s32_codec.codec_axioms string_codec.codec_axioms])

section \<open>Lists\<close>

lemma read_count_ok:
  assumes n: "n < 2 ^ 32" and h: "holds bb (pre @ venc n @ ys)" and off: "offset bb = length pre"
    and bnd: "length (pre @ venc n @ ys) < SIZE_BOUND" and lim: "readLengthLimit bb = 0"
    and le: "n \<le> length ys"
  shows "read_count bb = Some (Inr n, bb\<lparr>offset := length pre + length (venc n)\<rparr>)"
proof -
  let ?n = "of_nat n :: u64"
  have u: "unat ?n = n" using n by (simp add: unat_of_nat)
  have "ReadVarU bb = Some (Inr ?n, bb\<lparr>offset := length pre + length (venc n)\<rparr>)"
    using ReadVarU_ok [of ?n bb pre ys] n h off by (simp add: u)
  moreover have "llen bb = length (pre @ venc n @ ys)" using h by (simp add: holds_def)
  ultimately show ?thesis using u lim bnd le by (simp add: read_count_def Let_def)
qed

context codec
begin

lemma read_elems_ok:
  "\<forall>v \<in> set vs. ok v \<Longrightarrow> holds bb (pre @ concat (map enc vs) @ rest) \<Longrightarrow> offset bb = length pre \<Longrightarrow>
   length (pre @ concat (map enc vs) @ rest) < SIZE_BOUND \<Longrightarrow> readLengthLimit bb = 0 \<Longrightarrow>
   lbuf this = Some (map Some p @ map Some old @ t) \<Longrightarrow> length old = length vs \<Longrightarrow>
   read_elems rd (length p) (length vs) this bb =
     Some (0, this\<lparr>lbuf := Some (map Some (p @ vs) @ t)\<rparr>,
       bb\<lparr>offset := length pre + length (concat (map enc vs))\<rparr>)"
proof (induction vs arbitrary: bb pre this p old)
  case Nil
  then have "this\<lparr>lbuf := Some (map Some p @ t)\<rparr> = this" "bb\<lparr>offset := length pre\<rparr> = bb"
    by (auto intro!: xx_list.equality bbuffer.equality)
  then show ?case by simp
next
  case (Cons v vs)
  obtain o1 old' where old: "old = o1 # old'" using Cons.prems(7) by (cases old) auto
  let ?bb = "bb\<lparr>offset := length pre + length (enc v)\<rparr>"
  let ?th = "this\<lparr>lbuf := Some (map Some (p @ [v]) @ map Some old' @ t)\<rparr>"
  have rd: "rd bb = Some (Inr v, ?bb)"
    by (rule rd_ok [where rest = "concat (map enc vs) @ rest"]) (use Cons.prems in auto)
  have wr: "wr_blk (lbuf this) (length p) v = Some (lbuf ?th)"
    using Cons.prems(6) old wr_blk_app [of "map Some p" "length p" "Some o1" "map Some old' @ t" v] by simp
  have "read_elems rd (length (p @ [v])) (length vs) ?th ?bb =
      Some (0, ?th\<lparr>lbuf := Some (map Some ((p @ [v]) @ vs) @ t)\<rparr>,
        ?bb\<lparr>offset := length (pre @ enc v) + length (concat (map enc vs))\<rparr>)"
    by (rule Cons.IH [where old = old']) (use Cons.prems old in auto)
  with rd wr show ?case by (simp add: add.assoc)
qed

lemma list_write_ok:
  assumes l: "lrep szT l vs" and ok: "\<forall>v \<in> set vs. ok v" and n: "length vs < 2 ^ 32"
    and rep: "lrep 1 bb xs"
    and fit: "fits 1 (length xs + length (venc (length vs)) + length (concat (map enc vs)) + length vs * szT + 16)"
  shows "lstep 1 bb (List_ToBBuffer_elems szT wr l bb) (xs @ venc (length vs) @ concat (map enc vs))"
proof -
  let ?r = "length xs + 5 + length vs * szT"
  have fr: "fits 1 ?r" by (rule fits_mono [OF fit]) simp
  then have "?r < SIZE_BOUND" by (simp add: fits_def SIZE_BOUND_def)
  then have add: "sz_add (sz_add (llen bb) 5) (sz_mul (llen l) szT) = ?r"
    by (simp add: lrep_length [OF rep] lrep_length [OF l])
  obtain bb1 where bb1: "Reserve True 1 ?r bb = Some bb1" "lrep 1 bb1 xs" "xx_list.more bb1 = xx_list.more bb"
    using Reserve_ok [OF rep fr] by blast
  let ?n = "of_nat (length vs) :: u64"
  have u: "unat ?n = length vs" using n by (simp add: unat_of_nat)
  have "fits 1 (length xs + length (venc (unat ?n)) + 16)" by (rule fits_mono [OF fit]) (simp add: u)
  from u64_codec.wr_ok [OF _ bb1(2) this] n u obtain bb2 where bb2: "WriteVarU ?n bb1 = Some bb2"
      "lrep 1 bb2 (xs @ venc (length vs))" "xx_list.more bb2 = xx_list.more bb1"
    by (auto simp: lstep_def)
  have k: "lstep 1 bb2 (kfold wr vs bb2) ((xs @ venc (length vs)) @ concat (map enc vs))"
  proof (rule wr_all [OF ok bb2(2)])
    show "fits 1 (length (xs @ venc (length vs)) + length (concat (map enc vs)) + 16)"
      by (rule fits_mono [OF fit]) simp
  qed
  have g: "get_range (lbuf l) 0 (length vs) = Some vs"
    using get_range_lrep [OF l] by (simp add: lrep_length [OF l])
  show ?thesis
  proof (cases "vs = []")
    case True
    with bb1 bb2 add show ?thesis
      by (auto simp: List_ToBBuffer_elems_def lstep_def lrep_length [OF l])
  next
    case False
    with k bb1 bb2 add g show ?thesis
      by (auto simp: List_ToBBuffer_elems_def lstep_def lrep_length [OF l])
  qed
qed

lemma list_read_ok:
  assumes ok: "\<forall>v \<in> set vs. ok v" and ne: "\<And>v. ok v \<Longrightarrow> enc v \<noteq> []" and n: "length vs < 2 ^ 32"
    and h: "holds bb (pre @ (venc (length vs) @ concat (map enc vs)) @ rest)" and off: "offset bb = length pre"
    and bnd: "length (pre @ (venc (length vs) @ concat (map enc vs)) @ rest) < SIZE_BOUND"
    and lim: "readLengthLimit bb = 0" and th: "lrep szT this ys" and fit: "fits szT (length vs)"
  shows "\<exists>this'. List_FromBBuffer_elems triv szT d rd this bb = Some (0, this',
           bb\<lparr>offset := length pre + length (venc (length vs) @ concat (map enc vs))\<rparr>) \<and> lrep szT this' vs"
proof -
  let ?o = "length pre + length (venc (length vs))"
  let ?bb = "bb\<lparr>offset := ?o\<rparr>"
  have cnt: "length vs \<le> length (concat (map enc vs))"
    using ok
  proof (induction vs)
    case Nil
    then show ?case by simp
  next
    case (Cons v vs)
    then have "1 \<le> length (enc v)" using ne by (simp add: Suc_le_eq)
    with Cons show ?case by simp
  qed
  have rc: "read_count bb = Some (Inr (length vs), ?bb)"
    by (rule read_count_ok [where ys = "concat (map enc vs) @ rest"]) (use n h off bnd lim cnt in auto)
  obtain this1 where t1: "Resize triv szT d (length vs) this = Some (length ys, this1)"
      "lrep szT this1 (take (length vs) ys @ replicate (length vs - length ys) d)"
    using Resize_ok [OF th fit] by blast
  let ?old = "take (length vs) ys @ replicate (length vs - length ys) d"
  have lo: "length ?old = length vs" by simp
  show ?thesis
  proof (cases "vs = []")
    case True
    with rc t1 show ?thesis by (simp add: List_FromBBuffer_elems_def)
  next
    case False
    from t1(2) obtain t where t: "lbuf this1 = Some (map Some ?old @ t)" "llen this1 = length ?old"
        "lcap this1 = length ?old + length t"
      by (cases rule: lrep_cases) (use False in auto)
    have re: "read_elems rd 0 (length vs) this1 ?bb = Some (0, this1\<lparr>lbuf := Some (map Some vs @ t)\<rparr>,
        ?bb\<lparr>offset := length (pre @ venc (length vs)) + length (concat (map enc vs))\<rparr>)"
      using read_elems_ok [OF ok, of ?bb "pre @ venc (length vs)" rest this1 "[]" ?old t] h bnd lim t lo
      by simp
    have "lrep szT (this1\<lparr>lbuf := Some (map Some vs @ t)\<rparr>) vs"
      by (rule lrep_Blk [where t = t]) (use t lo lrep_pos [OF t1(2)] in auto)
    with rc t1 re False show ?thesis by (simp add: List_FromBBuffer_elems_def add.assoc)
  qed
qed

end

section \<open>Where 64 bit integers leave the promise\<close>

lemma length_venc_ge: "2 ^ (7 * k) \<le> n \<Longrightarrow> k < length (venc n)"
proof (induction n arbitrary: k rule: venc.induct)
  case (1 n)
  show ?case
  proof (cases k)
    case 0
    then show ?thesis by (simp add: venc.simps [of n])
  next
    case (Suc j)
    with "1.prems" have le: "2 ^ (7 * j) * 128 \<le> n" by (simp add: power_add mult.commute)
    have "(1 :: nat) \<le> 2 ^ (7 * j)" by simp
    with le have big: "\<not> n < 128" by linarith
    have "2 ^ (7 * j) \<le> n div 128" using le by (simp add: less_eq_div_iff_mult_less_eq)
    with "1.IH" [OF big] Suc big show ?thesis by (simp add: venc.simps [of n])
  qed
qed

lemma var_put_fault:
  fixes u :: "'w::len word"
  assumes "8 \<le> LENGTH('w)" and "lbuf bb = Some (map Some xs @ t)" and "llen bb = length xs"
    and "length t < length (venc (unat u))"
  shows "var_put u bb = None"
  using assms
proof (induction u bb arbitrary: xs t rule: var_put.induct)
  case (1 u bb)
  show ?case
  proof (cases t)
    case Nil
    with "1.prems"(2,3) have "wr_blk (lbuf bb) (llen bb) x = None" for x by (simp add: wr_blk_def)
    then show ?thesis by (simp add: var_put.simps [of u bb])
  next
    case (Cons s t')
    define b where "b = (ucast (u AND 0x7F OR 0x80) :: u8)"
    have big: "128 \<le> unat u"
      using "1.prems"(4) Cons by (auto simp: venc.simps [of "unat u"] split: if_splits)
    let ?bb = "bb\<lparr>lbuf := Some (map Some (xs @ [b]) @ t'), llen := llen bb + 1\<rparr>"
    have w: "wr_blk (lbuf bb) (llen bb) (ucast (u AND 0x7F OR 0x80)) = Some (Some (map Some (xs @ [b]) @ t'))"
      using "1.prems"(2,3) Cons by (simp add: mem_simps b_def)
    have "var_put (drop_bit 7 u) ?bb = None"
      by (rule "1.IH" [OF big w, of "xs @ [b]" t'])
        (use "1.prems" Cons big in \<open>auto simp: unat_drop7 venc.simps [of "unat u"]\<close>)
    with big w show ?thesis by (simp add: var_put.simps [of u bb])
  qed
qed

lemma WriteVarU64_overflow:
  assumes rep: "lrep 1 bb xs" and v: "2 ^ 63 \<le> unat (v :: u64)" and cap: "lcap bb = llen bb + 9"
  shows "WriteVarU v bb = None"
proof -
  from rep cap obtain t where t: "lbuf bb = Some (map Some xs @ t)" "llen bb = length xs" "length t = 9"
    by (cases rule: lrep_cases) auto
  have "length xs + 9 \<le> PTRDIFF_MAX" using lrep_pos [OF rep] cap t(2) by simp
  then have lt: "length xs + 9 < SIZE_BOUND" unfolding SIZE_BOUND_PTRDIFF by linarith
  then have "sz_add (sz_add (llen bb) 8) 1 = length xs + 9" using t(2) by simp
  then have "Reserve True 1 (sz_add (sz_add (llen bb) 8) 1) bb = Some bb"
    using cap t(2) by (simp add: Reserve_def)
  moreover have "9 < length (venc (unat v))" by (rule length_venc_ge) (use v in simp)
  then have "var_put v bb = None" by (intro var_put_fault [OF _ t(1,2)]) (use t(3) in auto)
  ultimately show ?thesis by (simp add: WriteVarU_def)
qed

lemma venc_cont:
  "128 \<le> m \<Longrightarrow> venc m = of_nat (m mod 128 + 128) # venc (m div 128) \<and>
     (of_nat (m mod 128 + 128) :: u8) AND 0x80 \<noteq> 0"
  using byte_high [of "m mod 128 + 128"] by (simp add: venc.simps [of m])

lemma var_get_undefined:
  fixes acc :: u64
  shows "i + k = 5 \<Longrightarrow> 2 ^ (7 * k) \<le> m \<Longrightarrow> holds bb (pre @ venc m @ rest) \<Longrightarrow> offset bb = length pre \<Longrightarrow>
    var_get (7 * i) acc bb = None"
proof (induction k arbitrary: i m pre acc bb)
  case 0
  then have i: "i = 5" by simp
  obtain b bs where v: "venc m = b # bs"
    by (cases "venc m") (auto simp: venc.simps [of m] split: if_splits)
  have "rd_blk (lbuf bb) (offset bb) = Some b"
    using rd_holds [OF "0.prems"(3), of "length pre"] v "0.prems"(4) by simp
  moreover have "llen bb = length (pre @ venc m @ rest)" using "0.prems"(3) by (simp add: holds_def)
  ultimately show ?case using i v "0.prems"(4) by (simp add: var_get.simps [of 35 acc bb])
next
  case (Suc k)
  have le: "2 ^ (7 * k) * 128 \<le> m" using Suc.prems(2) by (simp add: power_add mult.commute)
  have "(1 :: nat) \<le> 2 ^ (7 * k)" by simp
  with le have big: "128 \<le> m" by linarith
  define b where "b = (of_nat (m mod 128 + 128) :: u8)"
  from venc_cont [OF big] have v: "venc m = b # venc (m div 128)" and hb: "b AND 0x80 \<noteq> 0"
    by (simp_all add: b_def)
  have rd: "rd_blk (lbuf bb) (offset bb) = Some b"
    using rd_holds [OF Suc.prems(3), of "length pre"] v Suc.prems(4) by simp
  have ln: "llen bb = length (pre @ venc m @ rest)" using Suc.prems(3) by (simp add: holds_def)
  have ih: "var_get (7 * Suc i) acc' (bb\<lparr>offset := length pre + 1\<rparr>) = None" for acc' :: u64
    by (rule Suc.IH [where m = "m div 128" and pre = "pre @ [b]"])
      (use Suc.prems v le in \<open>auto simp: less_eq_div_iff_mult_less_eq\<close>)
  have "7 * i < 32" using Suc.prems(1) by simp
  with rd ln v hb Suc.prems(4) ih show ?case
    by (simp add: var_get.simps [of "7 * i" acc bb] Let_def add.commute)
qed

lemma ReadVarU64_undefined:
  assumes "2 ^ 35 \<le> unat (v :: u64)" and "holds bb (pre @ venc (unat v) @ rest)" and "offset bb = length pre"
  shows "(ReadVarU bb :: (u64 rres \<times> bbuffer) option) = None"
  using var_get_undefined [of 0 5 "unat v" bb pre rest 0] assms by (simp add: ReadVarU_def)

section \<open>Reads of hostile input\<close>

text \<open>
  A reader is safe when it returns on every input, moving the offset forward and never behind
  the end of the data.
\<close>

definition read_safe :: "(bbuffer \<Rightarrow> ('v rres \<times> bbuffer) option) \<Rightarrow> bool" where
  "read_safe rd \<longleftrightarrow> (\<forall>bb xs. holds bb xs \<longrightarrow> offset bb \<le> length xs \<longrightarrow> length xs \<le> PTRDIFF_MAX \<longrightarrow>
     (\<exists>r k. rd bb = Some (r, bb\<lparr>offset := k\<rparr>) \<and> offset bb \<le> k \<and> k \<le> length xs))"

lemma var_get_safe:
  fixes u :: "'w::len word"
  assumes "LENGTH('w) \<le> 32" and "holds bb xs" and "offset bb \<le> length xs"
  shows "\<exists>r k. var_get shift u bb = Some (r, bb\<lparr>offset := k\<rparr>) \<and> offset bb \<le> k \<and> k \<le> length xs"
  using assms
proof (induction shift u bb rule: var_get.induct)
  case (1 shift u bb)
  have self: "bb\<lparr>offset := offset bb\<rparr> = bb" by (auto intro!: bbuffer.equality)
  have ln: "llen bb = length xs" using "1.prems"(2) by (simp add: holds_def)
  show ?case
  proof (cases "shift < LENGTH('w) \<and> offset bb \<noteq> llen bb")
    case False
    then show ?thesis using self "1.prems"(3) by (auto simp: var_get.simps [of shift u bb] intro!: exI [of _ "offset bb"])
  next
    case True
    then have lt: "offset bb < length xs" using "1.prems"(3) ln by simp
    define b where "b = xs ! offset bb"
    have rd: "rd_blk (lbuf bb) (offset bb) = Some b" using rd_holds [OF "1.prems"(2) lt] by (simp add: b_def)
    let ?bb = "bb\<lparr>offset := offset bb + 1\<rparr>"
    let ?u = "u OR ucast (push_bit shift (ucast (b AND 0x7F) :: u32))"
    have s32: "\<not> 32 \<le> shift" using True "1.prems"(1) by simp
    show ?thesis
    proof (cases "b AND 0x80 = 0")
      case c: True
      then show ?thesis using True s32 rd lt
        by (auto simp: var_get.simps [of shift u bb] Let_def intro!: exI [of _ "offset bb + 1"])
    next
      case c: False
      have "\<exists>r k. var_get (shift + 7) ?u ?bb = Some (r, ?bb\<lparr>offset := k\<rparr>) \<and> offset ?bb \<le> k \<and> k \<le> length xs"
        by (rule "1.IH" [OF _ _ rd refl s32 refl c]) (use True "1.prems" lt in auto)
      then obtain r k where rk: "var_get (shift + 7) ?u ?bb = Some (r, bb\<lparr>offset := k\<rparr>)"
          "offset bb + 1 \<le> k" "k \<le> length xs" by auto
      then have "var_get shift u bb = Some (r, bb\<lparr>offset := k\<rparr>)"
        using True s32 rd c by (simp add: var_get.simps [of shift u bb] Let_def)
      with rk show ?thesis by (intro exI [of _ r] exI [of _ k]) simp
    qed
  qed
qed

lemma ReadVarU_safe: "LENGTH('w::len) \<le> 32 \<Longrightarrow> read_safe (ReadVarU :: _ \<Rightarrow> ('w word rres \<times> _) option)"
  unfolding read_safe_def ReadVarU_def using var_get_safe by blast

lemma ReadVarS_safe: "LENGTH('w::len) \<le> 32 \<Longrightarrow> read_safe (ReadVarS :: _ \<Rightarrow> ('w word rres \<times> _) option)"
  unfolding read_safe_def ReadVarS_def using var_get_safe [where 'w = 'w] by (fastforce simp: bind_Some_iff)

lemma get_raw_safe:
  assumes "holds bb xs" and "offset bb \<le> length xs" and "length xs \<le> PTRDIFF_MAX" and "n \<le> PTRDIFF_MAX"
  shows "\<exists>r k. get_raw code n bb = Some (r, bb\<lparr>offset := k\<rparr>) \<and> offset bb \<le> k \<and> k \<le> length xs
    \<and> (\<forall>bs. r = Inr bs \<longrightarrow> length bs = n)"
proof -
  have self: "bb\<lparr>offset := offset bb\<rparr> = bb" by (auto intro!: bbuffer.equality)
  have a: "sz_add (offset bb) n = offset bb + n"
    by (rule sz_add_exact) (use assms in \<open>simp add: SIZE_BOUND_PTRDIFF\<close>)
  have ln: "llen bb = length xs" using assms(1) by (simp add: holds_def)
  show ?thesis
  proof (cases "length xs < offset bb + n")
    case True
    then show ?thesis using self a ln assms(2) by (auto simp: get_raw_def intro!: exI [of _ "offset bb"])
  next
    case False
    then show ?thesis using a ln get_range_holds [OF assms(1), of "offset bb" n]
      by (auto simp: get_raw_def)
  qed
qed

lemma Guid_ReadBB_safe: "read_safe Guid_ReadBB"
  unfolding read_safe_def
proof (intro allI impI)
  fix bb :: bbuffer and xs
  assume h: "holds bb xs" "offset bb \<le> length xs" "length xs \<le> PTRDIFF_MAX"
  have "16 \<le> PTRDIFF_MAX" by (simp add: PTRDIFF_MAX_def)
  from get_raw_safe [OF h this, of "- 1"] obtain r k where rk: "get_raw (- 1) 16 bb = Some (r, bb\<lparr>offset := k\<rparr>)"
      "offset bb \<le> k" "k \<le> length xs" "\<forall>bs. r = Inr bs \<longrightarrow> length bs = 16" by blast
  show "\<exists>r k. Guid_ReadBB bb = Some (r, bb\<lparr>offset := k\<rparr>) \<and> offset bb \<le> k \<and> k \<le> length xs"
  proof (cases r)
    case (Inl e)
    with rk show ?thesis by (intro exI [of _ "Inl e"] exI [of _ k]) (simp add: Guid_ReadBB_def)
  next
    case (Inr bs)
    then obtain g where "Fill bs = Some g" using rk(4) by (cases "Fill bs") (auto simp: Fill_None_iff)
    with rk Inr show ?thesis by (intro exI [of _ "Inr g"] exI [of _ k]) (simp add: Guid_ReadBB_def)
  qed
qed

text \<open>
  A list of \<^verbatim>\<open>float\<close> whose count fits the remaining bytes but whose elements do not: the check
  passes and the copy reads behind the block.
\<close>

lemma get_range_beyond:
  "length m < i + n \<Longrightarrow> 0 < n \<Longrightarrow> get_range (Some m) i n = None"
proof (induction n arbitrary: i)
  case 0
  then show ?case by simp
next
  case (Suc n)
  show ?case
  proof (cases "rd_blk (Some m) i")
    case None
    then show ?thesis by simp
  next
    case (Some x)
    then have "i < length m" by (auto simp: rd_blk_def split: if_splits)
    then have "0 < n" using Suc.prems(1) by (cases n) auto
    moreover have "length m < Suc i + n" using Suc.prems(1) by simp
    ultimately have "get_range (Some m) (Suc i) n = None" by (intro Suc.IH)
    with Some show ?thesis by simp
  qed
qed

lemma float_list_overread:
  fixes this :: "u32 xx_list"
  assumes n: "0 < n" "n < 2 ^ 32" and ys: "n \<le> length ys" "length ys < 4 * n"
    and b: "lbuf bb = Some (map Some (pre @ venc n @ ys))" "llen bb = length (pre @ venc n @ ys)"
    and off: "offset bb = length pre" and lim: "readLengthLimit bb = 0"
    and bnd: "length (pre @ venc n @ ys) < SIZE_BOUND"
    and rep: "lrep 4 this zs" and fit: "fits 4 n"
  shows "List_FromBBuffer_raw this bb = None"
proof -
  have h: "holds bb (pre @ venc n @ ys)" using b by (simp add: holds_def)
  have rc: "read_count bb = Some (Inr n, bb\<lparr>offset := length pre + length (venc n)\<rparr>)"
    by (rule read_count_ok [OF n(2) h off bnd lim ys(1)])
  obtain this1 where "Resize True 4 0 n this = Some (length zs, this1)"
    using Resize_ok [OF rep fit] by blast
  moreover have "get_range (lbuf bb) (length pre + length (venc n)) (n * 4) = None"
    unfolding b by (rule get_range_beyond) (use n ys in auto)
  ultimately show ?thesis using rc n(1) by (simp add: List_FromBBuffer_raw_def Let_def)
qed

section \<open>Buffers as values\<close>

lemma RemoveFront_ok:
  assumes rep: "lrep szT l xs" and n: "n \<le> length xs"
  shows "lstep szT l (RemoveFront n l) (drop n xs)"
proof (cases "n = 0")
  case True
  with rep show ?thesis by (simp add: RemoveFront_def lstep_def)
next
  case False
  with rep n obtain t where t: "lbuf l = Some (map Some xs @ t)" "llen l = length xs"
      "lcap l = length xs + length t"
    by (cases rule: lrep_cases) auto
  define u where "u = (if n = length xs then map Some xs @ t
      else drop (length xs - n) (map Some xs @ t))"
  let ?l = "l\<lparr>lbuf := Some (map Some (drop n xs) @ u), llen := length xs - n\<rparr>"
  have "RemoveFront n l = Some ?l"
    using False n t by (auto simp: RemoveFront_def Let_def blit_def u_def drop_map take_map)
  moreover have "lrep szT ?l (drop n xs)"
    by (rule lrep_Blk [where t = u]) (use t n lrep_pos [OF rep] in \<open>auto simp: u_def\<close>)
  ultimately show ?thesis by (auto simp: lstep_def)
qed

text \<open>
  The copying constructor sets \<^verbatim>\<open>cap\<close> from the member it is about to set, which is still 0: the
  buffer is longer than its capacity says.
\<close>

lemma Buffer_copy_cap:
  assumes "src \<noteq> []" and "length src + prefix \<le> PTRDIFF_MAX"
  shows "\<exists>l. Buffer_copy src prefix = Some l \<and> lcap l < llen l \<and> \<not> linv 1 l"
proof -
  have "length src + prefix < SIZE_BOUND" using assms(2) unfolding SIZE_BOUND_PTRDIFF by linarith
  then have a: "sz_add (length src) prefix = length src + prefix" by simp
  let ?b = "replicate prefix None @ map Some src"
  have "blit (Some (replicate (length src + prefix) None)) prefix (Some (map Some src)) 0 (length src)
      = Some (Some ?b)"
    using assms(1) by (auto simp: blit_def)
  then have "Buffer_copy src prefix = Some \<lparr>lbuf = Some ?b, lcap = prefix, llen = length src + prefix\<rparr>"
    using assms a by (simp add: Buffer_copy_def malloc_blk_def)
  then show ?thesis using assms(1) by (simp add: linv_def)
qed

lemma BBuffer_ToBBuffer_ok:
  assumes src: "lrep 1 (src :: bbuffer) ys" and n: "length ys < 2 ^ 32" and rep: "lrep 1 bb xs"
    and fit: "fits 1 (length xs + length (venc (length ys)) + length ys + 16)"
  shows "lstep 1 bb (BBuffer_ToBBuffer src bb) (xs @ venc (length ys) @ ys)"
proof -
  have "BBuffer_ToBBuffer src bb = String_WriteBB ys bb"
    using get_range_lrep [OF src] by (simp add: BBuffer_ToBBuffer_def String_WriteBB_def lrep_length [OF src])
  with string_codec.wr_ok [OF n rep] fit show ?thesis by (simp add: add.assoc)
qed

lemma BBuffer_FromBBuffer_ok:
  assumes n: "length ys < 2 ^ 32" and h: "holds bb (pre @ venc (length ys) @ ys @ rest)"
    and off: "offset bb = length pre" and bnd: "length (pre @ venc (length ys) @ ys @ rest) < SIZE_BOUND"
    and dst: "lrep 1 (dst :: bbuffer) zs" and fit: "fits 1 (length ys)"
  shows "\<exists>dst'. BBuffer_FromBBuffer dst bb =
           Some (Inr dst', bb\<lparr>offset := length pre + length (venc (length ys)) + length ys\<rparr>) \<and> lrep 1 dst' ys"
proof -
  let ?n = "of_nat (length ys) :: u64"
  let ?o = "length pre + length (venc (length ys))"
  have u: "unat ?n = length ys" using n by (simp add: unat_of_nat)
  have r: "ReadVarU bb = Some (Inr ?n, bb\<lparr>offset := ?o\<rparr>)"
    using ReadVarU_ok [of ?n bb pre "ys @ rest"] n h off by (simp add: u)
  have g: "get_range (lbuf bb) ?o (length ys) = Some ys"
    using get_range_holds [OF h, of ?o "length ys"] by simp
  from Clear_ok [OF dst, of False] obtain d1 where d1: "Clear False dst = Some d1" "lrep 1 d1 []"
    by (auto simp: lstep_def)
  from AddRange_ok [OF d1(2), of ys True] fit obtain d2 where d2: "AddRange True 1 ys d1 = Some d2" "lrep 1 d2 ys"
    by (auto simp: lstep_def)
  have "llen bb = length (pre @ venc (length ys) @ ys @ rest)" using h by (simp add: holds_def)
  with r g u bnd d1 d2 show ?thesis by (simp add: BBuffer_FromBBuffer_def Let_def)
qed

section \<open>Properties\<close>

lemma lrep_BBuffer_new: "lrep 1 BBuffer_new []"
  by (simp add: lrep_def linv_def contents_def BBuffer_new_def)

lemma BBuffer_new_fields [simp]: "offset BBuffer_new = 0" "readLengthLimit BBuffer_new = 0"
  by (simp_all add: BBuffer_new_def)

lemma u32_less: "unat (w :: u32) < 2 ^ 32"
  using unsigned_less [of w, where 'a = nat] by simp

text \<open>
  Every \<^verbatim>\<open>int32_t\<close> survives serialisation. Writing \<open>v\<close> to a well-formed buffer returns, appends
  the variable-length encoding of its zig-zag image to the contents, and reading at the old end
  returns 0 with the same value and leaves the read offset at the end of the buffer.
\<close>

theorem int32_roundtrip:
  fixes v :: u32
  assumes "lrep 1 bb xs" and "fits 1 (length xs + length (venc (unat (ZigZagEncode v))) + 16)"
    and "offset bb = length xs" and "readLengthLimit bb = 0"
  shows "\<exists>bb'. WriteVarS v bb = Some bb' \<and> contents bb' = xs @ venc (unat (ZigZagEncode v)) \<and>
     ReadVarS bb' = Some (Inr v, bb'\<lparr>offset := llen bb'\<rparr>)"
  by (rule s32_codec.roundtrip [OF u32_less assms])

theorem int32_roundtrip_witness:
  "\<exists>bb'. WriteVarS (- 70000 :: u32) BBuffer_new = Some bb' \<and>
     contents bb' = venc (unat (ZigZagEncode (- 70000 :: u32))) \<and>
     ReadVarS bb' = Some (Inr (- 70000 :: u32), bb'\<lparr>offset := llen bb'\<rparr>)"
proof -
  have "length (venc (unat (ZigZagEncode (- 70000 :: u32)))) \<le> 5"
    by (rule length_venc_le) (use u32_less [of "ZigZagEncode (- 70000)"] in simp_all)
  then have "fits 1 (length ([] :: bytes) + length (venc (unat (ZigZagEncode (- 70000 :: u32)))) + 16)"
    by (simp add: fits_def)
  from int32_roundtrip [OF lrep_BBuffer_new this] show ?thesis by simp
qed

text \<open>
  A \<^verbatim>\<open>List<int32_t>\<close> survives serialisation: \<^verbatim>\<open>ToBBuffer\<close> into a well-formed buffer followed by
  \<^verbatim>\<open>FromBBuffer\<close> into any well-formed list returns 0 and leaves the same elements in that list,
  whatever it held before, with the read offset at the end of the buffer.
\<close>

lemma int32_enc_len: "length (venc (unat (v :: u32))) \<le> 5"
  by (rule length_venc_le) (use u32_less [of v] in simp_all)

lemma concat_len: "\<forall>v \<in> set vs. length (f v) \<le> k \<Longrightarrow> length (concat (map f vs)) \<le> length vs * k"
  by (induction vs) auto

theorem int32_list_roundtrip:
  fixes l :: "u32 xx_list"
  assumes l: "lrep 4 l vs" and n: "length vs < 2 ^ 32" and rep: "lrep 1 bb xs"
    and fit: "fits 1 (length xs + 9 * length vs + 21)" and fitv: "fits 4 (length vs)"
    and off: "offset bb = length xs" and lim: "readLengthLimit bb = 0" and dst: "lrep 4 dst ys"
  shows "\<exists>bb' dst'. List_ToBBuffer_elems 4 WriteVarS l bb = Some bb' \<and>
     List_FromBBuffer_elems triv 4 0 ReadVarS dst bb' = Some (0, dst', bb'\<lparr>offset := llen bb'\<rparr>) \<and>
     contents dst' = vs"
proof -
  let ?enc = "\<lambda>v :: u32. venc (unat (ZigZagEncode v))"
  have ok: "\<forall>v \<in> set vs. unat (ZigZagEncode v) < 2 ^ 32" using u32_less by blast
  have c: "length (concat (map ?enc vs)) \<le> length vs * 5" by (rule concat_len) (simp add: int32_enc_len)
  have v5: "length (venc (length vs)) \<le> 5" by (rule length_venc_le) (use n in simp_all)
  have fit': "fits 1 (length xs + length (venc (length vs)) + length (concat (map ?enc vs)) + length vs * 4 + 16)"
    by (rule fits_mono [OF fit]) (use c v5 in simp)
  from s32_codec.list_write_ok [OF l ok n rep fit'] obtain bb' where bb': "List_ToBBuffer_elems 4 WriteVarS l bb = Some bb'"
      "lrep 1 bb' (xs @ venc (length vs) @ concat (map ?enc vs))" "xx_list.more bb' = xx_list.more bb"
    by (auto simp: lstep_def)
  have h: "holds bb' (xs @ (venc (length vs) @ concat (map ?enc vs)) @ [])" using lrep_holds [OF bb'(2)] by simp
  have "\<exists>dst'. List_FromBBuffer_elems triv 4 0 ReadVarS dst bb' = Some (0, dst',
           bb'\<lparr>offset := length xs + length (venc (length vs) @ concat (map ?enc vs))\<rparr>) \<and> lrep 4 dst' vs"
    by (rule s32_codec.list_read_ok [OF ok _ n h])
      (use more_fields [OF bb'(3)] off lim lrep_len_bound [OF bb'(2)] dst fitv in
        \<open>auto simp: venc.simps [of "unat _"]\<close>)
  with bb' lrep_length [OF bb'(2)] show ?thesis by (auto simp: lrep_def)
qed

theorem int32_list_roundtrip_witness:
  "\<exists>l bb' dst'. contents l = [1, - 5, 70000 :: u32] \<and>
     List_ToBBuffer_elems 4 WriteVarS l BBuffer_new = Some bb' \<and>
     List_FromBBuffer_elems True 4 0 ReadVarS List_new bb' = Some (0, dst', bb'\<lparr>offset := llen bb'\<rparr>) \<and>
     contents dst' = [1, - 5, 70000 :: u32]"
proof -
  from AddRange_ok [of 4 "List_new :: u32 xx_list" "[]" "[1, - 5, 70000]" True]
  obtain l :: "u32 xx_list" where l: "lrep 4 l [1, - 5, 70000]" by (auto simp: lstep_def fits_def)
  have "\<exists>bb' dst'. List_ToBBuffer_elems 4 WriteVarS l BBuffer_new = Some bb' \<and>
     List_FromBBuffer_elems True 4 0 ReadVarS List_new bb' = Some (0, dst', bb'\<lparr>offset := llen bb'\<rparr>) \<and>
     contents dst' = [1, - 5, 70000 :: u32]"
    by (rule int32_list_roundtrip [OF l _ lrep_BBuffer_new, where ys = "[]"]) (simp_all add: fits_def)
  with l show ?thesis by (auto simp: lrep_def)
qed

text \<open>
  A serial number and a payload string written with one \<^verbatim>\<open>Write\<close> call are read back by one
  \<^verbatim>\<open>Read\<close> call, both with their values.
\<close>

theorem serial_and_string_roundtrip:
  fixes n :: u32
  assumes "length s < 2 ^ 32" and "lrep 1 bb xs"
    and "fits 1 (length xs + length (venc (unat (ZigZagEncode n)) @ venc (length s) @ s) + 16)"
    and "offset bb = length xs" and "readLengthLimit bb = 0"
  shows "\<exists>bb'. Write2 WriteVarS String_WriteBB (n, s) bb = Some bb' \<and>
     contents bb' = xs @ venc (unat (ZigZagEncode n)) @ venc (length s) @ s \<and>
     ReadCore ReadVarS String_ReadBB bb' = Some (Inr (n, s), bb'\<lparr>offset := llen bb'\<rparr>)"
  using serial_string_codec.roundtrip [of "(n, s)" bb xs] assms u32_less [of "ZigZagEncode n"] by auto

theorem serial_and_string_roundtrip_witness:
  "\<exists>bb'. Write2 WriteVarS String_WriteBB (- 3 :: u32, [1, 2, 3]) BBuffer_new = Some bb' \<and>
     ReadCore ReadVarS String_ReadBB bb' = Some (Inr (- 3 :: u32, [1, 2, 3]), bb'\<lparr>offset := llen bb'\<rparr>)"
proof -
  let ?e = "venc (unat (ZigZagEncode (- 3 :: u32))) @ venc (length [1, 2, 3 :: u8]) @ [1, 2, 3]"
  have "length (venc (length [1, 2, 3 :: u8])) \<le> 5" by (rule length_venc_le) simp_all
  with int32_enc_len [of "ZigZagEncode (- 3)"] have "fits 1 (length ([] :: bytes) + length ?e + 16)"
    by (simp add: fits_def)
  from serial_and_string_roundtrip [OF _ lrep_BBuffer_new this] show ?thesis by auto
qed



text \<open>
  \<^verbatim>\<open>FromBBuffer\<close> of a \<^verbatim>\<open>List<float>\<close> compares the element count, not the byte count, with what is
  left: with \<open>n\<close> announced elements and at least \<open>n\<close> but fewer than \<open>4 * n\<close> bytes behind the count,
  the check passes and the copy reads outside the received block.
\<close>

theorem float_list_read_outside_block:
  fixes dst :: "u32 xx_list"
  assumes "0 < n" and "n < 2 ^ 32" and "n \<le> length ys" and "length ys < 4 * n"
    and "lbuf bb = Some (map Some (pre @ venc n @ ys))" and "llen bb = length (pre @ venc n @ ys)"
    and "offset bb = length pre" and "readLengthLimit bb = 0"
    and "length (pre @ venc n @ ys) < SIZE_BOUND" and "lrep 4 dst zs" and "fits 4 n"
  shows "List_FromBBuffer_raw dst bb = None"
  using float_list_overread [OF assms] .

theorem float_list_read_outside_block_witness:
  "List_FromBBuffer_raw (List_new :: u32 xx_list)
     (BBuffer_new\<lparr>lbuf := Some (map Some (venc 2 @ [7, 7])), llen := 3\<rparr>) = None"
proof -
  have "venc 2 = [2]" by (simp add: venc.simps)
  then show ?thesis
    using float_list_read_outside_block [of 2 "[7, 7]" "BBuffer_new\<lparr>lbuf := Some (map Some (venc 2 @ [7, 7])), llen := 3\<rparr>"
        "[]" List_new "[]"]
    by (simp add: SIZE_BOUND_def fits_def)
qed

text \<open>
  \<^verbatim>\<open>WriteVarIntger\<close> reserves \<^verbatim>\<open>sizeof(T) + 1\<close> bytes, nine for a 64 bit type, while a value of
  \<open>2 ^ 63\<close> and more needs ten: when the buffer has exactly nine spare bytes the last byte is stored
  outside the block.
\<close>

theorem uint64_write_outside_block:
  assumes "lrep 1 bb xs" and "2 ^ 63 \<le> unat (v :: u64)" and "lcap bb = llen bb + 9"
  shows "WriteVarU v bb = None"
  using WriteVarU64_overflow [OF assms] .

theorem uint64_write_outside_block_witness:
  "WriteVarU (2 ^ 63 :: u64) (BBuffer_new\<lparr>lbuf := Some (replicate 7 (Some 0) @ replicate 9 None), lcap := 16, llen := 7\<rparr>) = None"
proof -
  let ?bb = "BBuffer_new\<lparr>lbuf := Some (replicate 7 (Some 0) @ replicate 9 None), lcap := 16, llen := 7\<rparr>"
  have "lrep 1 ?bb (replicate 7 0)"
    by (rule lrep_Blk [where t = "replicate 9 None"]) (simp_all add: PTRDIFF_MAX_def)
  from uint64_write_outside_block [OF this] show ?thesis by simp
qed

text \<open>
  \<^verbatim>\<open>ReadVarInteger\<close> shifts a 32 bit operand whatever its target type is: reading back the
  encoding of a 64 bit value of \<open>2 ^ 35\<close> and more shifts by 35, which is undefined behaviour.
\<close>

theorem uint64_read_undefined:
  assumes "2 ^ 35 \<le> unat (v :: u64)" and "holds bb (pre @ venc (unat v) @ rest)" and "offset bb = length pre"
  shows "(ReadVarU bb :: (u64 rres \<times> bbuffer) option) = None"
  using ReadVarU64_undefined [OF assms] .

theorem uint64_read_undefined_witness:
  "(ReadVarU (BBuffer_new\<lparr>lbuf := Some (map Some (venc (2 ^ 35))), llen := length (venc (2 ^ 35))\<rparr>)
     :: (u64 rres \<times> bbuffer) option) = None"
  using uint64_read_undefined [of "2 ^ 35" "BBuffer_new\<lparr>lbuf := Some (map Some (venc (2 ^ 35))), llen := length (venc (2 ^ 35))\<rparr>" "[]" "[]"]
  by (auto simp: holds_def)

section \<open>Messages of their own\<close>

text \<open>A value is written into a new buffer whose bytes are sent; the bytes received are read from a buffer of their own.\<close>

definition pack :: "('v \<Rightarrow> bbuffer \<Rightarrow> bbuffer option) \<Rightarrow> 'v \<Rightarrow> bytes option" where
  "pack put v = do { bb \<leftarrow> put v BBuffer_new; Some (contents bb) }"

definition unpack :: "(bbuffer \<Rightarrow> ('v rres \<times> bbuffer) option) \<Rightarrow> bytes \<Rightarrow> 'v option" where
  "unpack get bs = do {
     bb \<leftarrow> put_raw bs BBuffer_new;
     (r, _) \<leftarrow> get bb;
     (case r of Inl _ \<Rightarrow> None | Inr v \<Rightarrow> Some v) }"

context codec
begin

lemma unpack_pack:
  assumes ok: "ok v" and fit: "fits 1 (length (enc v) + 16)"
  shows "pack wr v = Some (enc v)" "unpack rd (enc v) = Some v"
proof -
  have "lstep 1 BBuffer_new (wr v BBuffer_new) ([] @ enc v)" by (rule wr_ok [OF ok lrep_BBuffer_new]) (use fit in simp)
  then show "pack wr v = Some (enc v)" by (auto simp: pack_def lstep_def lrep_def)
  have "lstep 1 BBuffer_new (put_raw (enc v) BBuffer_new) ([] @ enc v)"
    unfolding put_raw_AddRange by (rule AddRange_fit [OF lrep_BBuffer_new]) (use fit in simp)
  then obtain bb where bb: "put_raw (enc v) BBuffer_new = Some bb" "lrep 1 bb (enc v)" "xx_list.more bb = xx_list.more BBuffer_new"
    by (auto simp: lstep_def)
  have "rd bb = Some (Inr v, bb\<lparr>offset := length ([] :: bytes) + length (enc v)\<rparr>)"
    by (rule rd_ok [OF ok, of bb "[]" "[]"])
      (use lrep_holds [OF bb(2)] more_fields [OF bb(3)] lrep_len_bound [OF bb(2)] in auto)
  then show "unpack rd (enc v) = Some v" using bb(1) by (simp add: unpack_def)
qed

lemma unpack_all:
  assumes "\<forall>v\<in>set vs. ok v \<and> fits 1 (length (enc v) + 16)" "map Some bss = map (pack wr) vs"
  shows "map (unpack rd) (take n bss) = map Some (take n vs)"
proof -
  have "map Some bss = map Some (map enc vs)" using assms unpack_pack(1) by simp
  then have "bss = map enc vs" by (simp only: inj_map_eq_map [OF inj_Some])
  then show ?thesis using assms(1) unpack_pack(2) by (auto simp: take_map dest!: in_set_takeD)
qed

end

end
