(* ===== verification/Iqueue.thy ===== *)
theory Iqueue
  imports Prelude
begin

text \<open>
  The intrusive doubly linked queue of \<^verbatim>\<open>ikcp.h\<close> (lines 20 to 106), at the level of pointers.
  A heap maps the address of an \<open>IQUEUEHEAD\<close> to its two links; address 0 is the null pointer
  and is never allocated. Every macro is one definition that performs the loads and stores of
  the macro in the order the comma expression evaluates them; it returns \<open>None\<close> when it
  dereferences a null or a freed pointer. \<open>ring h head xs\<close> says that the nodes \<open>xs\<close> hang on the
  head \<open>head\<close> in this order; the lemmas show what each macro does to \<open>xs\<close>. The locale
  \<open>intrusive_queue\<close> states this contract without the links, and proves in it what the loops of
  the protocol rely on: moving the front of one queue to the tail of another, and emptying one.
\<close>

section \<open>Links and macros\<close>

type_synonym addr = nat

record IQUEUEHEAD =
  "next" :: addr
  prev :: addr

type_synonym qheap = "addr \<Rightarrow> IQUEUEHEAD option"

definition get_next :: "addr \<Rightarrow> qheap \<Rightarrow> addr option" where
  "get_next p h = map_option next (h p)"

definition get_prev :: "addr \<Rightarrow> qheap \<Rightarrow> addr option" where
  "get_prev p h = map_option prev (h p)"

definition set_next :: "addr \<Rightarrow> addr \<Rightarrow> qheap \<Rightarrow> qheap option" where
  "set_next p v h = do { n \<leftarrow> h p; Some (h(p \<mapsto> n\<lparr>next := v\<rparr>)) }"

definition set_prev :: "addr \<Rightarrow> addr \<Rightarrow> qheap \<Rightarrow> qheap option" where
  "set_prev p v h = do { n \<leftarrow> h p; Some (h(p \<mapsto> n\<lparr>prev := v\<rparr>)) }"

definition iqueue_init :: "addr \<Rightarrow> qheap \<Rightarrow> qheap option" where
  "iqueue_init p h = do { h \<leftarrow> set_next p p h; set_prev p p h }"

definition iqueue_add :: "addr \<Rightarrow> addr \<Rightarrow> qheap \<Rightarrow> qheap option" where
  "iqueue_add node head h = do {
     h \<leftarrow> set_prev node head h;
     n \<leftarrow> get_next head h;
     h \<leftarrow> set_next node n h;
     n \<leftarrow> get_next head h;
     h \<leftarrow> set_prev n node h;
     set_next head node h }"

definition iqueue_add_tail :: "addr \<Rightarrow> addr \<Rightarrow> qheap \<Rightarrow> qheap option" where
  "iqueue_add_tail node head h = do {
     p \<leftarrow> get_prev head h;
     h \<leftarrow> set_prev node p h;
     h \<leftarrow> set_next node head h;
     p \<leftarrow> get_prev head h;
     h \<leftarrow> set_next p node h;
     set_prev head node h }"

definition iqueue_del_between :: "addr \<Rightarrow> addr \<Rightarrow> qheap \<Rightarrow> qheap option" where
  "iqueue_del_between p n h = do { h \<leftarrow> set_prev n p h; set_next p n h }"

definition iqueue_del :: "addr \<Rightarrow> qheap \<Rightarrow> qheap option" where
  "iqueue_del e h = do {
     n \<leftarrow> get_next e h;
     p \<leftarrow> get_prev e h;
     h \<leftarrow> set_prev n p h;
     p \<leftarrow> get_prev e h;
     n \<leftarrow> get_next e h;
     h \<leftarrow> set_next p n h;
     h \<leftarrow> set_next e 0 h;
     set_prev e 0 h }"

definition iqueue_del_init :: "addr \<Rightarrow> qheap \<Rightarrow> qheap option" where
  "iqueue_del_init e h = do { h \<leftarrow> iqueue_del e h; iqueue_init e h }"

definition iqueue_is_empty :: "addr \<Rightarrow> qheap \<Rightarrow> bool option" where
  "iqueue_is_empty e h = do { n \<leftarrow> get_next e h; Some (e = n) }"

definition iqueue_splice_raw :: "addr \<Rightarrow> addr \<Rightarrow> qheap \<Rightarrow> qheap option" where
  "iqueue_splice_raw l head h = do {
     first \<leftarrow> get_next l h;
     lst \<leftarrow> get_prev l h;
     at \<leftarrow> get_next head h;
     h \<leftarrow> set_prev first head h;
     h \<leftarrow> set_next head first h;
     h \<leftarrow> set_next lst at h;
     set_prev at lst h }"

definition iqueue_splice :: "addr \<Rightarrow> addr \<Rightarrow> qheap \<Rightarrow> qheap option" where
  "iqueue_splice l head h = do {
     e \<leftarrow> iqueue_is_empty l h;
     if \<not> e then iqueue_splice_raw l head h else Some h }"

definition iqueue_splice_init :: "addr \<Rightarrow> addr \<Rightarrow> qheap \<Rightarrow> qheap option" where
  "iqueue_splice_init l head h = do { h \<leftarrow> iqueue_splice l head h; iqueue_init l h }"

text \<open>
  The iteration macros: the nodes visited, in order, with a bound on the number of iterations
  (\<open>None\<close> when it runs out, so that a ring that does not lead back to the head is not counted
  as a finished loop).
\<close>

primrec iqueue_foreach_from :: "nat \<Rightarrow> addr \<Rightarrow> addr \<Rightarrow> qheap \<Rightarrow> addr list option" where
  "iqueue_foreach_from 0 p head h = None"
| "iqueue_foreach_from (Suc k) p head h =
     (if p = head then Some []
      else do { n \<leftarrow> get_next p h; ps \<leftarrow> iqueue_foreach_from k n head h; Some (p # ps) })"

definition iqueue_foreach :: "nat \<Rightarrow> addr \<Rightarrow> qheap \<Rightarrow> addr list option" where
  "iqueue_foreach k head h = do { p \<leftarrow> get_next head h; iqueue_foreach_from k p head h }"

text \<open>
  The loop that \<^verbatim>\<open>ikcp_release\<close> runs four times, and the loop by which \<^verbatim>\<open>ikcp_recv\<close>,
  \<^verbatim>\<open>ikcp_parse_data\<close> and \<^verbatim>\<open>ikcp_flush\<close> move nodes from one queue to another while the test \<open>c\<close>
  on the front node holds. Both are written over the operations they call, with a bound on the
  iterations. Freeing a node removes it from the heap.
\<close>

primrec q_drain ::
  "('q \<Rightarrow> 'h \<Rightarrow> bool option) \<Rightarrow> ('q \<Rightarrow> 'h \<Rightarrow> 'q option) \<Rightarrow> ('q \<Rightarrow> 'h \<Rightarrow> 'h option) \<Rightarrow> ('q \<Rightarrow> 'h \<Rightarrow> 'h)
   \<Rightarrow> nat \<Rightarrow> 'q \<Rightarrow> 'h \<Rightarrow> ('q list \<times> 'h) option" where
  "q_drain emp fr del fre 0 q h = None"
| "q_drain emp fr del fre (Suc k) q h = do {
     e \<leftarrow> emp q h;
     if e then Some ([], h)
     else do {
       p \<leftarrow> fr q h;
       h \<leftarrow> del p h;
       (ps, h) \<leftarrow> q_drain emp fr del fre k q (fre p h);
       Some (p # ps, h) } }"

primrec q_move ::
  "('q \<Rightarrow> 'h \<Rightarrow> bool option) \<Rightarrow> ('q \<Rightarrow> 'h \<Rightarrow> 'q option) \<Rightarrow> ('q \<Rightarrow> 'h \<Rightarrow> 'h option)
   \<Rightarrow> ('q \<Rightarrow> 'q \<Rightarrow> 'h \<Rightarrow> 'h option) \<Rightarrow> nat \<Rightarrow> ('q \<Rightarrow> bool) \<Rightarrow> 'q \<Rightarrow> 'q \<Rightarrow> 'h \<Rightarrow> 'h option" where
  "q_move emp fr del add 0 c src dst h = None"
| "q_move emp fr del add (Suc k) c src dst h = do {
     e \<leftarrow> emp src h;
     if e then Some h
     else do {
       p \<leftarrow> fr src h;
       if c p then do {
         h \<leftarrow> del p h;
         h \<leftarrow> add p dst h;
         q_move emp fr del add k c src dst h }
       else Some h } }"

definition iqueue_free :: "addr \<Rightarrow> qheap \<Rightarrow> qheap" where
  "iqueue_free p h = h(p := None)"

definition iqueue_drain :: "nat \<Rightarrow> addr \<Rightarrow> qheap \<Rightarrow> (addr list \<times> qheap) option" where
  "iqueue_drain = q_drain iqueue_is_empty get_next iqueue_del iqueue_free"

definition iqueue_move :: "nat \<Rightarrow> (addr \<Rightarrow> bool) \<Rightarrow> addr \<Rightarrow> addr \<Rightarrow> qheap \<Rightarrow> qheap option" where
  "iqueue_move = q_move iqueue_is_empty get_next iqueue_del iqueue_add_tail"

text \<open>
  \<^verbatim>\<open>ikcp_release\<close> on the linked representation: the four queues are drained, then the control
  block that holds their heads is freed. The result lists the freed segments in the order of the
  calls. (\<^verbatim>\<open>buffer\<close> and \<^verbatim>\<open>acklist\<close> are separate blocks, outside this heap of queue nodes.)
\<close>

definition ikcp_release ::
  "nat \<Rightarrow> addr \<Rightarrow> addr \<Rightarrow> addr \<Rightarrow> addr \<Rightarrow> qheap \<Rightarrow> (addr list \<times> qheap) option" where
  "ikcp_release k snd_buf rcv_buf snd_queue rcv_queue h = do {
     (ps1, h) \<leftarrow> iqueue_drain k snd_buf h;
     (ps2, h) \<leftarrow> iqueue_drain k rcv_buf h;
     (ps3, h) \<leftarrow> iqueue_drain k snd_queue h;
     (ps4, h) \<leftarrow> iqueue_drain k rcv_queue h;
     Some (ps1 @ ps2 @ ps3 @ ps4,
       iqueue_free snd_buf (iqueue_free rcv_buf (iqueue_free snd_queue (iqueue_free rcv_queue h)))) }"

section \<open>Rings\<close>

primrec links :: "qheap \<Rightarrow> addr \<Rightarrow> addr list \<Rightarrow> bool" where
  "links h p [] \<longleftrightarrow> True"
| "links h p (q # qs) \<longleftrightarrow> get_next p h = Some q \<and> get_prev q h = Some p \<and> links h q qs"

definition ring :: "qheap \<Rightarrow> addr \<Rightarrow> addr list \<Rightarrow> bool" where
  "ring h head xs \<longleftrightarrow> distinct (head # xs) \<and> links h head (xs @ [head])"

lemma links_append: "links h p (xs @ q # ys) \<longleftrightarrow> links h p (xs @ [q]) \<and> links h q ys"
  by (induction xs arbitrary: p) auto

lemma links_cong:
  assumes "\<And>q. q \<in> set (butlast (p # qs)) \<Longrightarrow> get_next q h' = get_next q h"
    and "\<And>q. q \<in> set qs \<Longrightarrow> get_prev q h' = get_prev q h"
  shows "links h' p qs = links h p qs"
  using assms by (induction qs arbitrary: p) auto

lemma ring_rotate: "ring h head (xs @ p # ys) \<longleftrightarrow> ring h p (ys @ head # xs)"
  using links_append [of h head xs p "ys @ [head]"] links_append [of h p ys head "xs @ [p]"]
  by (auto simp: ring_def)

lemma ring_cong:
  assumes "\<And>q. q \<in> set (head # xs) \<Longrightarrow> h' q = h q"
  shows "ring h' head xs = ring h head xs"
  unfolding ring_def
  by (subst links_cong [of head "xs @ [head]" h' h])
    (use assms in \<open>auto simp: get_next_def get_prev_def butlast_append\<close>)

lemma ring_frame: "ring h head xs \<Longrightarrow> \<forall>q\<in>set (head # xs). h' q = h q \<Longrightarrow> ring h' head xs"
  using ring_cong [of head xs h' h] by blast

lemma get_dom [mem_simps]:
  "get_next p h = None \<longleftrightarrow> p \<notin> dom h" "get_prev p h = None \<longleftrightarrow> p \<notin> dom h"
  by (auto simp: get_next_def get_prev_def)

lemma get_Some_dom: "get_next p h = Some q \<Longrightarrow> p \<in> dom h" "get_prev p h = Some q \<Longrightarrow> p \<in> dom h"
  by (auto simp: get_next_def get_prev_def)

lemma set_next_Some:
  "set_next p v h = Some h' \<Longrightarrow>
     dom h' = dom h \<and> (\<forall>q. get_next q h' = (if q = p then Some v else get_next q h))
     \<and> (\<forall>q. get_prev q h' = get_prev q h) \<and> (\<forall>q. q \<noteq> p \<longrightarrow> h' q = h q)"
  by (auto simp: set_next_def get_next_def get_prev_def bind_Some_iff split: if_splits)

lemma set_prev_Some:
  "set_prev p v h = Some h' \<Longrightarrow>
     dom h' = dom h \<and> (\<forall>q. get_prev q h' = (if q = p then Some v else get_prev q h))
     \<and> (\<forall>q. get_next q h' = get_next q h) \<and> (\<forall>q. q \<noteq> p \<longrightarrow> h' q = h q)"
  by (auto simp: set_prev_def get_next_def get_prev_def bind_Some_iff split: if_splits)

lemma set_total: "p \<in> dom h \<Longrightarrow> \<exists>h'. set_next p v h = Some h'"
  "p \<in> dom h \<Longrightarrow> \<exists>h'. set_prev p v h = Some h'"
  by (auto simp: set_next_def set_prev_def)


lemma iqueue_add_effect:
  assumes "get_next p h = Some x" "node \<in> dom h" "x \<in> dom h" "node \<noteq> p"
  shows "\<exists>h'. iqueue_add node p h = Some h' \<and> dom h' = dom h
    \<and> (\<forall>q. get_next q h' = (if q = p then Some node else if q = node then Some x else get_next q h))
    \<and> (\<forall>q. get_prev q h' = (if q = x then Some node else if q = node then Some p else get_prev q h))
    \<and> (\<forall>q. q \<notin> {p, node, x} \<longrightarrow> h' q = h q)"
proof -
  have p: "p \<in> dom h" using assms get_Some_dom by blast
  obtain h1 where 1: "set_prev node p h = Some h1" using assms set_total by blast
  note e1 = set_prev_Some [OF 1]
  obtain h2 where 2: "set_next node x h1 = Some h2" using assms e1 set_total by metis
  note e2 = set_next_Some [OF 2]
  obtain h3 where 3: "set_prev x node h2 = Some h3" using assms e1 e2 set_total by metis
  note e3 = set_prev_Some [OF 3]
  obtain h4 where 4: "set_next p node h3 = Some h4" using p e1 e2 e3 set_total by metis
  note e4 = set_next_Some [OF 4]
  have "iqueue_add node p h = Some h4"
    using assms 1 2 3 4 e1 e2 by (simp add: iqueue_add_def)
  then show ?thesis using e1 e2 e3 e4 by auto
qed

lemma iqueue_del_effect:
  assumes "get_next e h = Some n" "get_prev e h = Some p" "p \<in> dom h" "n \<in> dom h" "n \<noteq> e" "p \<noteq> e"
  shows "\<exists>h'. iqueue_del e h = Some h' \<and> dom h' = dom h
    \<and> (\<forall>q. get_next q h' = (if q = e then Some 0 else if q = p then Some n else get_next q h))
    \<and> (\<forall>q. get_prev q h' = (if q = e then Some 0 else if q = n then Some p else get_prev q h))
    \<and> (\<forall>q. q \<notin> {p, e, n} \<longrightarrow> h' q = h q)"
proof -
  have e: "e \<in> dom h" using assms get_Some_dom by blast
  obtain h1 where 1: "set_prev n p h = Some h1" using assms set_total by blast
  note e1 = set_prev_Some [OF 1]
  obtain h2 where 2: "set_next p n h1 = Some h2" using assms e1 set_total by metis
  note e2 = set_next_Some [OF 2]
  obtain h3 where 3: "set_next e 0 h2 = Some h3" using e e1 e2 set_total by metis
  note e3 = set_next_Some [OF 3]
  obtain h4 where 4: "set_prev e 0 h3 = Some h4" using e e1 e2 e3 set_total by metis
  note e4 = set_prev_Some [OF 4]
  have "iqueue_del e h = Some h4"
    using assms 1 2 3 4 e1 e2 by (simp add: iqueue_del_def)
  then show ?thesis using e1 e2 e3 e4 by auto
qed

lemma iqueue_add_tail_eq:
  assumes "get_prev head h = Some p" "get_next p h = Some head" "node \<in> dom h" "node \<noteq> p" "node \<noteq> head"
  shows "iqueue_add_tail node head h = iqueue_add node p h"
proof -
  obtain a b c where abc: "h head = Some a" "h p = Some b" "h node = Some c"
    using assms by (auto simp: get_next_def get_prev_def)
  have links: "prev a = p" "next b = head"
    using assms abc by (simp_all add: get_next_def get_prev_def)
  show ?thesis
  proof (cases "p = head")
    case True
    moreover from this have "b = a" using abc by simp
    ultimately show ?thesis
      using True abc links assms(4,5)
      unfolding iqueue_add_tail_def iqueue_add_def get_next_def get_prev_def set_next_def set_prev_def
      by (cases a) simp
  next
    case False
    have "h(node \<mapsto> c\<lparr>prev := p, next := head\<rparr>, p \<mapsto> b\<lparr>next := node\<rparr>, head \<mapsto> a\<lparr>prev := node\<rparr>)
        = h(node \<mapsto> c\<lparr>prev := p, next := head\<rparr>, head \<mapsto> a\<lparr>prev := node\<rparr>, p \<mapsto> b\<lparr>next := node\<rparr>)"
      using False by (simp add: fun_upd_twist)
    then show ?thesis
      using False abc links assms(4,5)
      unfolding iqueue_add_tail_def iqueue_add_def get_next_def get_prev_def set_next_def set_prev_def
      by simp
  qed
qed

lemma ring_first:
  assumes "ring h head xs"
  shows "get_next head h = Some (hd (xs @ [head]))"
    and "get_prev head h = Some (last (head # xs))"
    and "get_next (last (head # xs)) h = Some head"
proof -
  show "get_next head h = Some (hd (xs @ [head]))"
    using assms by (cases xs) (auto simp: ring_def)
  show "get_prev head h = Some (last (head # xs))"
    using assms links_append [of h head _ _ "[head]"]
    by (cases xs rule: rev_cases) (simp_all add: ring_def)
  show "get_next (last (head # xs)) h = Some head"
    using assms links_append [of h head _ _ "[head]"]
    by (cases xs rule: rev_cases) (simp_all add: ring_def)
qed

lemma ring_dom: "ring h head xs \<Longrightarrow> set (head # xs) \<subseteq> dom h"
proof (rule subsetI)
  fix q assume r: "ring h head xs" and q: "q \<in> set (head # xs)"
  show "q \<in> dom h"
  proof (cases "q = head")
    case True
    then show ?thesis using ring_first(1) [OF r] get_Some_dom by blast
  next
    case False
    then obtain ys zs where "xs = ys @ q # zs" using q by (auto dest: split_list)
    then have "ring h q (zs @ head # ys)" using r ring_rotate by simp
    then show ?thesis using ring_first(1) get_Some_dom by blast
  qed
qed

lemma ring_add_front:
  assumes r: "ring h head xs" and node: "node \<in> dom h" "node \<notin> set (head # xs)"
  shows "\<exists>h'. iqueue_add node head h = Some h' \<and> ring h' head (node # xs) \<and> dom h' = dom h
    \<and> (\<forall>q. q \<notin> set (node # head # xs) \<longrightarrow> h' q = h q)"
proof -
  define x rest where "x = hd (xs @ [head])" and "rest = tl (xs @ [head])"
  have xr: "xs @ [head] = x # rest" by (simp add: x_def rest_def)
  have d: "distinct (head # xs)" using r by (simp add: ring_def)
  have x: "x \<in> set (head # xs)" using xr by (cases xs) auto
  have nx: "get_next head h = Some x" using ring_first(1) [OF r] by (simp add: x_def)
  have "x \<in> dom h" using ring_dom [OF r] x by blast
  then obtain h' where h': "iqueue_add node head h = Some h'" "dom h' = dom h"
    and n: "\<And>q. get_next q h' = (if q = head then Some node else if q = node then Some x else get_next q h)"
    and p: "\<And>q. get_prev q h' = (if q = x then Some node else if q = node then Some head else get_prev q h)"
    and o: "\<And>q. q \<notin> {head, node, x} \<Longrightarrow> h' q = h q"
    using iqueue_add_effect [OF nx node(1)] node(2) by auto
  have "links h' x rest = links h x rest"
    by (rule links_cong) (use xr d node(2) n p in \<open>cases xs; auto simp: butlast_append\<close>)+
  moreover have "links h head (x # rest)" using r xr by (simp add: ring_def)
  ultimately have "links h' head (node # x # rest)" using n p node x by auto
  then have "ring h' head (node # xs)" using d node(2) xr by (auto simp: ring_def)
  then show ?thesis using h' o x by auto
qed

lemma ring_add_after:
  assumes r: "ring h head (xs @ p # ys)" and node: "node \<in> dom h" "node \<notin> set (head # xs @ p # ys)"
  shows "\<exists>h'. iqueue_add node p h = Some h' \<and> ring h' head (xs @ p # node # ys) \<and> dom h' = dom h
    \<and> (\<forall>q. q \<notin> set (node # head # xs @ p # ys) \<longrightarrow> h' q = h q)"
proof -
  have "ring h p (ys @ head # xs)" using r ring_rotate by simp
  then obtain h' where h': "iqueue_add node p h = Some h'" "ring h' p ((node # ys) @ head # xs)"
      "dom h' = dom h" "\<forall>q. q \<notin> set (node # p # ys @ head # xs) \<longrightarrow> h' q = h q"
    using ring_add_front [of h p "ys @ head # xs" node] node by auto
  from h'(2) have "ring h' head (xs @ p # node # ys)"
    using ring_rotate [of h' p "node # ys" head xs] by simp
  then show ?thesis using h' by auto
qed

lemma ring_add_tail:
  assumes r: "ring h head xs" and node: "node \<in> dom h" "node \<notin> set (head # xs)"
  shows "\<exists>h'. iqueue_add_tail node head h = Some h' \<and> ring h' head (xs @ [node]) \<and> dom h' = dom h
    \<and> (\<forall>q. q \<notin> set (node # head # xs) \<longrightarrow> h' q = h q)"
proof -
  let ?p = "last (head # xs)"
  have p: "node \<noteq> ?p" "node \<noteq> head" using node(2) last_in_set [of "head # xs"] by auto
  have e: "iqueue_add_tail node head h = iqueue_add node ?p h"
    using iqueue_add_tail_eq [OF ring_first(2) [OF r] ring_first(3) [OF r] node(1) p] .
  show ?thesis
  proof (cases xs rule: rev_cases)
    case Nil
    then show ?thesis using e ring_add_front [OF r node] by simp
  next
    case (snoc ys z)
    then show ?thesis using e ring_add_after [of h head ys z "[]" node] r node by auto
  qed
qed

lemma ring_del_front:
  assumes r: "ring h p (e # zs)"
  shows "\<exists>h'. iqueue_del e h = Some h' \<and> ring h' p zs \<and> dom h' = dom h
    \<and> (\<forall>q. q \<notin> set (p # e # zs) \<longrightarrow> h' q = h q)"
proof -
  define n rest where "n = hd (zs @ [p])" and "rest = tl (zs @ [p])"
  have nr: "zs @ [p] = n # rest" by (simp add: n_def rest_def)
  have d: "distinct (p # e # zs)" using r by (simp add: ring_def)
  have l: "get_next e h = Some n" "get_prev e h = Some p" "links h n rest"
    using r nr by (auto simp: ring_def)
  have n: "n \<in> set (p # zs)" using nr by (cases zs) auto
  have ne: "p \<in> dom h" "n \<in> dom h" "n \<noteq> e" "p \<noteq> e" using ring_dom [OF r] n d by auto
  then obtain h' where h': "iqueue_del e h = Some h'" "dom h' = dom h"
    and nx: "\<And>q. get_next q h' = (if q = e then Some 0 else if q = p then Some n else get_next q h)"
    and pv: "\<And>q. get_prev q h' = (if q = e then Some 0 else if q = n then Some p else get_prev q h)"
    and o: "\<And>q. q \<notin> {p, e, n} \<Longrightarrow> h' q = h q"
    using iqueue_del_effect [OF l(1,2), of] ne by blast
  have "links h' n rest = links h n rest"
    by (rule links_cong) (use nr d nx pv in \<open>cases zs; auto simp: butlast_append\<close>)+
  then have "links h' p (zs @ [p])" using nr l nx pv d n by auto
  then have "ring h' p zs" using d by (simp add: ring_def)
  then show ?thesis using h' o n by auto
qed

lemma ring_del:
  assumes r: "ring h head (xs @ e # ys)"
  shows "\<exists>h'. iqueue_del e h = Some h' \<and> ring h' head (xs @ ys) \<and> dom h' = dom h
    \<and> (\<forall>q. q \<notin> set (head # xs @ e # ys) \<longrightarrow> h' q = h q)"
proof (cases xs rule: rev_cases)
  case Nil
  then show ?thesis using ring_del_front [of h head e ys] r by simp
next
  case (snoc zs p)
  then have "ring h p (e # ys @ head # zs)" using r ring_rotate [of h head zs p "e # ys"] by simp
  then obtain h' where h': "iqueue_del e h = Some h'" "ring h' p (ys @ head # zs)" "dom h' = dom h"
      "\<forall>q. q \<notin> set (p # e # ys @ head # zs) \<longrightarrow> h' q = h q"
    using ring_del_front by blast
  from h'(2) have "ring h' head (xs @ ys)" using ring_rotate snoc by simp
  then show ?thesis using h' snoc by auto
qed

lemma ring_init:
  assumes "p \<in> dom h"
  shows "\<exists>h'. iqueue_init p h = Some h' \<and> ring h' p [] \<and> dom h' = dom h \<and> (\<forall>q. q \<noteq> p \<longrightarrow> h' q = h q)"
  using assms by (auto simp: iqueue_init_def set_next_def set_prev_def ring_def get_next_def get_prev_def)

lemma ring_is_empty:
  assumes "ring h head xs"
  shows "iqueue_is_empty head h = Some (xs = [])"
  using ring_first(1) [OF assms] assms by (cases xs) (auto simp: iqueue_is_empty_def ring_def)

lemma ring_foreach_from:
  assumes "links h p (xs @ [head])" "head \<notin> set (p # xs)" "length xs + 1 < k"
  shows "iqueue_foreach_from k p head h = Some (p # xs)"
  using assms
proof (induction xs arbitrary: p k)
  case Nil
  then obtain k' where "k = Suc (Suc k')" by (metis add_0 less_imp_Suc_add list.size(3) One_nat_def plus_1_eq_Suc add_Suc)
  then show ?case using Nil by simp
next
  case (Cons x xs)
  then obtain k' where k: "k = Suc k'" by (cases k) auto
  then show ?case using Cons by simp
qed

lemma ring_foreach:
  assumes "ring h head xs" "length xs < k"
  shows "iqueue_foreach k head h = Some xs"
proof (cases xs)
  case Nil
  then show ?thesis using assms by (cases k) (auto simp: iqueue_foreach_def ring_def)
next
  case (Cons y ys)
  then show ?thesis
    using assms ring_foreach_from [of h y ys head k] by (auto simp: iqueue_foreach_def ring_def)
qed

lemma ring_del_init:
  assumes "ring h head (xs @ e # ys)"
  shows "\<exists>h'. iqueue_del_init e h = Some h' \<and> ring h' head (xs @ ys) \<and> ring h' e []"
proof -
  obtain h1 where h1: "iqueue_del e h = Some h1" "ring h1 head (xs @ ys)" "dom h1 = dom h"
    using ring_del [OF assms] by blast
  have "e \<in> dom h1" using ring_dom [OF assms] h1 by auto
  then obtain h2 where h2: "iqueue_init e h1 = Some h2" "ring h2 e []" "\<forall>q. q \<noteq> e \<longrightarrow> h2 q = h1 q"
    using ring_init by blast
  have "e \<notin> set (head # xs @ ys)" using assms by (auto simp: ring_def)
  then have "ring h2 head (xs @ ys)" 
    using h1(2) h2(3) by (intro ring_frame [OF h1(2)]) auto
  then show ?thesis using h1 h2 by (auto simp: iqueue_del_init_def)
qed

text \<open>\<^verbatim>\<open>iqueue_splice\<close> inserts a whole queue after the head of another.\<close>

lemma splice_effect:
  assumes g: "get_next l h = Some y" "get_prev l h = Some z" "get_next head h = Some x" and d: "head \<in> dom h" "x \<in> dom h" "y \<in> dom h" "z \<in> dom h"
    and ne: "y \<noteq> x" "y \<noteq> head" "z \<noteq> head" "l \<noteq> y" "\<not> iqueue_is_empty l h = Some True" "iqueue_is_empty l h \<noteq> None"
  shows "\<exists>h'. iqueue_splice l head h = Some h'
    \<and> (\<forall>q. get_next q h' = (if q = z then Some x else if q = head then Some y else get_next q h)
         \<and> get_prev q h' = (if q = x then Some z else if q = y then Some head else get_prev q h))"
proof -
  obtain h1 where 1: "set_prev y head h = Some h1" using d set_total by blast
  note e1 = set_prev_Some [OF 1]
  obtain h2 where 2: "set_next head y h1 = Some h2" using d e1 set_total by metis
  note e2 = set_next_Some [OF 2]
  obtain h3 where 3: "set_next z x h2 = Some h3" using d e1 e2 set_total by metis
  note e3 = set_next_Some [OF 3]
  obtain h4 where 4: "set_prev x z h3 = Some h4" using d e1 e2 e3 set_total by metis
  note e4 = set_prev_Some [OF 4]
  have "iqueue_splice l head h = Some h4"
    using g 1 2 3 4 e1 ne(5,6) by (auto simp: iqueue_splice_def iqueue_splice_raw_def)
  then show ?thesis using e1 e2 e3 e4 by auto
qed

lemma ring_splice:
  assumes l: "ring h l ys" and r: "ring h head xs" and disj: "set (l # ys) \<inter> set (head # xs) = {}"
  shows "\<exists>h'. iqueue_splice l head h = Some h' \<and> ring h' head (ys @ xs)"
proof (cases ys rule: rev_cases)
  case Nil
  then show ?thesis using ring_is_empty [OF l] r by (simp add: iqueue_splice_def)
next
  case (snoc zs z)
  define y t where "y = hd ys" and "t = tl ys"
  define x u where "x = hd (xs @ [head])" and "u = tl (xs @ [head])"
  have y: "ys = y # t" using snoc by (simp add: y_def t_def)
  have x: "xs @ [head] = x # u" by (simp add: x_def u_def)
  have dl: "distinct (l # ys)" and dr: "distinct (head # xs)" using l r by (simp_all add: ring_def)
  have "y \<in> set ys" using y by simp
  moreover have "z \<in> set ys" using snoc by simp
  moreover have "x \<in> set (head # xs)" using x by (cases xs) auto
  ultimately have m: "y \<in> set ys" "z \<in> set ys" "x \<in> set (head # xs)" .
  have "get_next l h = Some y" using ring_first(1) [OF l] y by simp
  moreover have "get_prev l h = Some z" using ring_first(2) [OF l] snoc by simp
  moreover have "get_next head h = Some x" using ring_first(1) [OF r] by (simp add: x_def)
  ultimately have g: "get_next l h = Some y" "get_prev l h = Some z" "get_next head h = Some x" .
  have ne: "y \<noteq> x" "y \<noteq> head" "z \<noteq> head" "l \<noteq> y" "z \<noteq> x" using disj m dl by auto
  have d: "head \<in> dom h" "x \<in> dom h" "y \<in> dom h" "z \<in> dom h" using ring_dom [OF l] ring_dom [OF r] m by auto
  have e: "\<not> iqueue_is_empty l h = Some True" "iqueue_is_empty l h \<noteq> None" using ring_is_empty [OF l] snoc by auto
  obtain h' where run: "iqueue_splice l head h = Some h'"
    and N: "get_next q h' = (if q = z then Some x else if q = head then Some y else get_next q h)"
    and P: "get_prev q h' = (if q = x then Some z else if q = y then Some head else get_prev q h)" for q
    using splice_effect [OF g d ne(1-4) e] by blast
  have "links h' y t = links h y t"
  proof (rule links_cong)
    fix q
    have "butlast (y # t) = zs" using y snoc by (metis butlast_snoc)
    then show "q \<in> set (butlast (y # t)) \<Longrightarrow> get_next q h' = get_next q h" using N dl disj snoc by auto
    show "q \<in> set t \<Longrightarrow> get_prev q h' = get_prev q h" using P dl disj y m(3) by auto
  qed
  moreover have "links h l (y # t)"
    using l snoc links_append [of h l zs z "[l]"] by (simp add: ring_def flip: y)
  ultimately have "links h' head (y # t)" using N P ne by auto
  then have a: "links h' head (zs @ [z])" using y snoc by simp
  have "links h' x u = links h x u"
  proof (rule links_cong)
    fix q
    have "butlast (x # u) = xs" using x by (metis butlast_snoc)
    then show "q \<in> set (butlast (x # u)) \<Longrightarrow> get_next q h' = get_next q h" using N dr disj m(2) by auto
    have "set u \<subseteq> set (head # xs) - {x}" using x dr by (cases xs) auto
    then show "q \<in> set u \<Longrightarrow> get_prev q h' = get_prev q h" using P disj m(1) by auto
  qed
  moreover have "links h x u" using r x by (simp add: ring_def)
  ultimately have "links h' z (xs @ [head])" using N P x by auto
  then have "links h' head ((ys @ xs) @ [head])"
    using a links_append [of h' head zs z "xs @ [head]"] snoc by simp
  then have "ring h' head (ys @ xs)" using dl dr disj by (auto simp: ring_def)
  then show ?thesis using run by blast
qed

section \<open>The queue interface\<close>

locale intrusive_queue =
  fixes rep :: "'h \<Rightarrow> 'q \<Rightarrow> 'q list \<Rightarrow> bool"
    and live :: "'h \<Rightarrow> 'q set"
    and emp :: "'q \<Rightarrow> 'h \<Rightarrow> bool option"
    and front :: "'q \<Rightarrow> 'h \<Rightarrow> 'q option"
    and del :: "'q \<Rightarrow> 'h \<Rightarrow> 'h option"
    and add :: "'q \<Rightarrow> 'q \<Rightarrow> 'h \<Rightarrow> 'h option"
    and fre :: "'q \<Rightarrow> 'h \<Rightarrow> 'h"
  assumes rep_distinct: "rep h q xs \<Longrightarrow> distinct (q # xs)"
    and rep_live: "rep h q xs \<Longrightarrow> set (q # xs) \<subseteq> live h"
    and emp_ok: "rep h q xs \<Longrightarrow> emp q h = Some (xs = [])"
    and front_ok: "rep h q (x # xs) \<Longrightarrow> front q h = Some x"
    and del_ok: "rep h q (x # xs) \<Longrightarrow> \<exists>h'. del x h = Some h' \<and> rep h' q xs \<and> live h' = live h
      \<and> (\<forall>r ys. rep h r ys \<longrightarrow> set (r # ys) \<inter> set (q # x # xs) = {} \<longrightarrow> rep h' r ys)"
    and add_ok: "rep h q xs \<Longrightarrow> x \<in> live h \<Longrightarrow> x \<notin> set (q # xs) \<Longrightarrow>
      \<exists>h'. add x q h = Some h' \<and> rep h' q (xs @ [x]) \<and> live h' = live h
      \<and> (\<forall>r ys. rep h r ys \<longrightarrow> set (r # ys) \<inter> set (x # q # xs) = {} \<longrightarrow> rep h' r ys)"
    and free_ok: "rep h q xs \<Longrightarrow> x \<notin> set (q # xs) \<Longrightarrow> rep (fre x h) q xs"
    and free_live: "live (fre x h) = live h - {x}"
begin

lemma move_ok:
  assumes "rep h a xs" "rep h b ys" "set (a # xs) \<inter> set (b # ys) = {}" "length xs < k"
  shows "\<exists>h'. q_move emp front del add k c a b h = Some h' \<and> live h' = live h
    \<and> rep h' a (dropWhile c xs) \<and> rep h' b (ys @ takeWhile c xs)
    \<and> (\<forall>r zs. rep h r zs \<longrightarrow> set (r # zs) \<inter> (set (a # xs) \<union> set (b # ys)) = {} \<longrightarrow> rep h' r zs)"
  using assms
proof (induction k arbitrary: h xs ys)
  case 0
  then show ?case by simp
next
  case (Suc k)
  show ?case
  proof (cases xs)
    case Nil
    then show ?thesis using Suc.prems emp_ok [OF Suc.prems(1)] by auto
  next
    case (Cons x xs')
    note ax = Suc.prems(1) [unfolded Cons]
    show ?thesis
    proof (cases "c x")
      case False
      then show ?thesis using Suc.prems Cons emp_ok [OF ax] front_ok [OF ax] by auto
    next
      case True
      obtain h1 where h1: "del x h = Some h1" "rep h1 a xs'" "live h1 = live h"
        and f1: "\<And>r zs. rep h r zs \<Longrightarrow> set (r # zs) \<inter> set (a # x # xs') = {} \<Longrightarrow> rep h1 r zs"
        using del_ok [OF ax] by blast
      have b1: "rep h1 b ys" using f1 Suc.prems(2,3) Cons by (simp add: Int_commute)
      have "x \<in> live h1" "x \<notin> set (b # ys)"
        using rep_live [OF ax] h1(3) Suc.prems(3) Cons by auto
      then obtain h2 where h2: "add x b h1 = Some h2" "rep h2 b (ys @ [x])" "live h2 = live h1"
        and f2: "\<And>r zs. rep h1 r zs \<Longrightarrow> set (r # zs) \<inter> set (x # b # ys) = {} \<Longrightarrow> rep h2 r zs"
        using add_ok [OF b1] by blast
      have a2: "rep h2 a xs'" using f2 [OF h1(2)] rep_distinct [OF ax] Suc.prems(3) Cons by auto
      have dj: "set (a # xs') \<inter> set (b # ys @ [x]) = {}"
        using rep_distinct [OF ax] Suc.prems(3) Cons by auto
      have lk: "length xs' < k" using Suc.prems(4) Cons by simp
      obtain h3 where h3: "q_move emp front del add k c a b h2 = Some h3" "live h3 = live h2"
          "rep h3 a (dropWhile c xs')" "rep h3 b ((ys @ [x]) @ takeWhile c xs')"
        and f3: "\<And>r zs. rep h2 r zs \<Longrightarrow> set (r # zs) \<inter> (set (a # xs') \<union> set (b # ys @ [x])) = {} \<Longrightarrow> rep h3 r zs"
        using Suc.IH [OF a2 h2(2) dj lk] by blast
      have "rep h3 r zs" if "rep h r zs" "set (r # zs) \<inter> (set (a # xs) \<union> set (b # ys)) = {}" for r zs
        by (rule f3, rule f2, rule f1) (use that Cons in auto)
      then show ?thesis using h1 h2 h3 True Cons emp_ok [OF ax] front_ok [OF ax] by auto
    qed
  qed
qed

lemma drain_ok:
  assumes "rep h q xs" "length xs < k"
  shows "\<exists>h'. q_drain emp front del fre k q h = Some (xs, h') \<and> live h' = live h - set xs
    \<and> rep h' q []
    \<and> (\<forall>r zs. rep h r zs \<longrightarrow> set (r # zs) \<inter> set (q # xs) = {} \<longrightarrow> rep h' r zs)"
  using assms
proof (induction k arbitrary: h xs)
  case 0
  then show ?case by simp
next
  case (Suc k)
  show ?case
  proof (cases xs)
    case Nil
    then show ?thesis using Suc.prems emp_ok [OF Suc.prems(1)] by auto
  next
    case (Cons x xs')
    note qx = Suc.prems(1) [unfolded Cons]
    obtain h1 where h1: "del x h = Some h1" "rep h1 q xs'" "live h1 = live h"
      and f1: "\<And>r zs. rep h r zs \<Longrightarrow> set (r # zs) \<inter> set (q # x # xs') = {} \<Longrightarrow> rep h1 r zs"
      using del_ok [OF qx] by blast
    have x: "x \<notin> set (q # xs')" using rep_distinct [OF qx] by auto
    have lk: "length xs' < k" using Suc.prems(2) Cons by simp
    obtain h2 where h2: "q_drain emp front del fre k q (fre x h1) = Some (xs', h2)"
        "live h2 = live (fre x h1) - set xs'" "rep h2 q []"
      and f2: "\<And>r zs. rep (fre x h1) r zs \<Longrightarrow> set (r # zs) \<inter> set (q # xs') = {} \<Longrightarrow> rep h2 r zs"
      using Suc.IH [OF free_ok [OF h1(2) x] lk] by blast
    have "rep h2 r zs" if "rep h r zs" "set (r # zs) \<inter> set (q # xs) = {}" for r zs
      by (rule f2, rule free_ok, rule f1) (use that Cons in auto)
    then show ?thesis
      using h1 h2 Cons emp_ok [OF qx] front_ok [OF qx] by (auto simp: free_live)
  qed
qed

end

interpretation iq: intrusive_queue ring dom iqueue_is_empty get_next iqueue_del iqueue_add_tail iqueue_free
proof
  fix h q xs x
  show "ring h q xs \<Longrightarrow> distinct (q # xs)" by (simp add: ring_def)
  show "ring h q xs \<Longrightarrow> set (q # xs) \<subseteq> dom h" by (rule ring_dom)
  show "ring h q xs \<Longrightarrow> iqueue_is_empty q h = Some (xs = [])" by (rule ring_is_empty)
  show "ring h q (x # xs) \<Longrightarrow> get_next q h = Some x" using ring_first(1) by fastforce
  show "ring h q (x # xs) \<Longrightarrow> \<exists>h'. iqueue_del x h = Some h' \<and> ring h' q xs \<and> dom h' = dom h
      \<and> (\<forall>r ys. ring h r ys \<longrightarrow> set (r # ys) \<inter> set (q # x # xs) = {} \<longrightarrow> ring h' r ys)"
    using ring_del_front [of h q x xs] ring_cong by (metis disjoint_iff)
  show "ring h q xs \<Longrightarrow> x \<in> dom h \<Longrightarrow> x \<notin> set (q # xs) \<Longrightarrow>
      \<exists>h'. iqueue_add_tail x q h = Some h' \<and> ring h' q (xs @ [x]) \<and> dom h' = dom h
      \<and> (\<forall>r ys. ring h r ys \<longrightarrow> set (r # ys) \<inter> set (x # q # xs) = {} \<longrightarrow> ring h' r ys)"
    using ring_add_tail [of h q xs x] ring_cong by (metis disjoint_iff)
  show "ring h q xs \<Longrightarrow> x \<notin> set (q # xs) \<Longrightarrow> ring (iqueue_free x h) q xs"
    by (rule ring_frame) (auto simp: iqueue_free_def)
  show "dom (iqueue_free x h) = dom h - {x}" by (auto simp: iqueue_free_def)
qed

section \<open>Properties\<close>

text \<open>
  C27: Moving nodes between two queues (the loop of \<^verbatim>\<open>ikcp_recv\<close>, \<^verbatim>\<open>ikcp_parse_data\<close> and
  \<^verbatim>\<open>ikcp_flush\<close>) on the linked representation never dereferences a null or freed pointer and
  ends; it moves exactly the longest prefix whose nodes pass the test, in order, to the tail of
  the destination, and allocates or frees nothing.
\<close>

theorem iqueue_move_in_order:
  assumes "ring h src xs" "ring h dst ys" "set (src # xs) \<inter> set (dst # ys) = {}" "length xs < k"
  shows "\<exists>h'. iqueue_move k c src dst h = Some h' \<and> dom h' = dom h
    \<and> ring h' src (dropWhile c xs) \<and> ring h' dst (ys @ takeWhile c xs)"
  using iq.move_ok [OF assms, of c] by (auto simp: iqueue_move_def)

definition ex_heap :: qheap where
  "ex_heap = [1 \<mapsto> \<lparr>next = 2, prev = 3\<rparr>, 2 \<mapsto> \<lparr>next = 3, prev = 1\<rparr>, 3 \<mapsto> \<lparr>next = 1, prev = 2\<rparr>,
     4 \<mapsto> \<lparr>next = 5, prev = 5\<rparr>, 5 \<mapsto> \<lparr>next = 4, prev = 4\<rparr>]"

lemma ex_rings: "ring ex_heap 1 [2, 3]" "ring ex_heap 4 [5]"
  by (simp_all add: ring_def ex_heap_def get_next_def get_prev_def)

theorem iqueue_move_in_order_witness:
  "\<exists>h'. iqueue_move 3 (\<lambda>p. p = 2) 1 4 ex_heap = Some h' \<and> dom h' = dom ex_heap
    \<and> ring h' 1 [3] \<and> ring h' 4 [5, 2]"
  using iqueue_move_in_order [OF ex_rings, of 3 "\<lambda>p. p = 2"] by simp


definition ex_kcp_heap :: qheap where
  "ex_kcp_heap = ex_heap(6 \<mapsto> \<lparr>next = 6, prev = 6\<rparr>, 7 \<mapsto> \<lparr>next = 7, prev = 7\<rparr>, 8 \<mapsto> \<lparr>next = 8, prev = 8\<rparr>)"

lemma ex_kcp_rings: "ring ex_kcp_heap 1 [2, 3]" "ring ex_kcp_heap 4 [5]" "ring ex_kcp_heap 6 []" "ring ex_kcp_heap 7 []"
  by (simp_all add: ring_def ex_kcp_heap_def ex_heap_def get_next_def get_prev_def)


end
