(* ===== verification/Kcp.thy ===== *)
theory Kcp
  imports Objects Iqueue
begin

text \<open>
  The KCP automatic-repeat-request protocol of \<^verbatim>\<open>ikcp.h\<close>: data, helpers and every operation.

  \<open>IKCPCB\<close> has the fields of the C structure. A queue of segments is the list of its nodes
  (theory \<open>Iqueue\<close> shows that the linked queues behave as these lists); a segment carries its
  allocated \<open>seg_data\<close> beside its \<open>seg_len\<close>, so that copying \<open>seg_len\<close> bytes out of a
  smaller allocation is a fault. \<open>acklist\<close> is the allocated array of 32-bit slots, \<open>None\<close> for
  a slot that was never written, \<open>[]\<close> for the null pointer; \<open>kbuffer\<close> is the number of bytes
  allocated for \<^verbatim>\<open>buffer\<close>. \<^verbatim>\<open>uint32_t\<close> is \<open>u32\<close> with its wrap-around; an \<^verbatim>\<open>int\<close> is an
  \<open>int\<close> and \<open>i32\<close> marks each signed operation that can overflow. \<open>None\<close> is undefined
  behaviour or a failed \<^verbatim>\<open>assert\<close>. The datagrams given to the \<^verbatim>\<open>output\<close> callback are
  collected in a list in the order of the calls; the callback is assumed not to re-enter the
  control block. Allocation succeeds; log calls have no effect on the state and are left out.
\<close>

section \<open>Constants\<close>

definition IKCP_RTO_NDL :: u32 where "IKCP_RTO_NDL = 30"
definition IKCP_RTO_MIN :: u32 where "IKCP_RTO_MIN = 100"
definition IKCP_RTO_DEF :: u32 where "IKCP_RTO_DEF = 200"
definition IKCP_RTO_MAX :: u32 where "IKCP_RTO_MAX = 60000"
definition IKCP_CMD_PUSH :: u32 where "IKCP_CMD_PUSH = 81"
definition IKCP_CMD_ACK :: u32 where "IKCP_CMD_ACK = 82"
definition IKCP_CMD_WASK :: u32 where "IKCP_CMD_WASK = 83"
definition IKCP_CMD_WINS :: u32 where "IKCP_CMD_WINS = 84"
definition IKCP_ASK_SEND :: u32 where "IKCP_ASK_SEND = 1"
definition IKCP_ASK_TELL :: u32 where "IKCP_ASK_TELL = 2"
definition IKCP_WND_SND :: u32 where "IKCP_WND_SND = 32"
definition IKCP_WND_RCV :: u32 where "IKCP_WND_RCV = 128"
definition IKCP_MTU_DEF :: u32 where "IKCP_MTU_DEF = 1400"
definition IKCP_INTERVAL :: u32 where "IKCP_INTERVAL = 17"
definition IKCP_OVERHEAD :: u32 where "IKCP_OVERHEAD = 36"
definition IKCP_DEADLINK :: u32 where "IKCP_DEADLINK = 20"
definition IKCP_THRESH_INIT :: u32 where "IKCP_THRESH_INIT = 2"
definition IKCP_THRESH_MIN :: u32 where "IKCP_THRESH_MIN = 2"
definition IKCP_PROBE_INIT :: u32 where "IKCP_PROBE_INIT = 7000"
definition IKCP_PROBE_LIMIT :: u32 where "IKCP_PROBE_LIMIT = 120000"

lemmas cmd_consts = IKCP_CMD_PUSH_def IKCP_CMD_ACK_def IKCP_CMD_WASK_def IKCP_CMD_WINS_def

section \<open>Segments and the control block\<close>

record IKCPSEG =
  seg_conv :: Guid
  seg_cmd :: u32
  seg_frg :: u32
  seg_wnd :: u32
  seg_ts :: u32
  seg_sn :: u32
  seg_una :: u32
  seg_len :: u32
  seg_resendts :: u32
  seg_rto :: u32
  seg_fastack :: u32
  seg_xmit :: u32
  seg_data :: bytes

record IKCPCB =
  kconv :: Guid
  mtu :: u32
  mss :: u32
  kstate :: u32
  snd_una :: u32
  snd_nxt :: u32
  rcv_nxt :: u32
  ts_recent :: u32
  ts_lastack :: u32
  ssthresh :: u32
  rx_rttval :: int
  rx_srtt :: int
  rx_rto :: int
  rx_minrto :: int
  snd_wnd :: u32
  rcv_wnd :: u32
  rmt_wnd :: u32
  cwnd :: u32
  probe :: u32
  kcurrent :: u32
  interval :: u32
  ts_flush :: u32
  kxmit :: u32
  nrcv_buf :: u32
  nsnd_buf :: u32
  nrcv_que :: u32
  nsnd_que :: u32
  nodelay :: u32
  updated :: u32
  ts_probe :: u32
  probe_wait :: u32
  dead_link :: u32
  incr :: u32
  snd_queue :: "IKCPSEG list"
  rcv_queue :: "IKCPSEG list"
  snd_buf :: "IKCPSEG list"
  rcv_buf :: "IKCPSEG list"
  acklist :: "u32 option list"
  ackcount :: u32
  ackblock :: u32
  kbuffer :: nat
  fastresend :: int
  nocwnd :: int
  stream :: int
  logmask :: int
  koutput :: bool
  writelog :: bool

section \<open>Helpers\<close>

text \<open>Signed division truncates towards zero.\<close>

definition cdiv :: "int \<Rightarrow> int \<Rightarrow> int" where
  "cdiv a b = sgn a * sgn b * (\<bar>a\<bar> div \<bar>b\<bar>)"

definition ikcp_encode8u :: "u8 \<Rightarrow> bytes" where
  "ikcp_encode8u c = [c]"

definition ikcp_decode8u :: "bytes \<Rightarrow> (u8 \<times> bytes) option" where
  "ikcp_decode8u p = (case p of [] \<Rightarrow> None | c # p \<Rightarrow> Some (c, p))"

definition ikcp_encode16u :: "u16 \<Rightarrow> bytes" where
  "ikcp_encode16u w = le_bytes 2 w"

definition ikcp_decode16u :: "bytes \<Rightarrow> (u16 \<times> bytes) option" where
  "ikcp_decode16u p = (if length p < 2 then None else Some (le_word (take 2 p), drop 2 p))"

definition ikcp_encode32u :: "u32 \<Rightarrow> bytes" where
  "ikcp_encode32u l = le_bytes 4 l"

definition ikcp_decode32u :: "bytes \<Rightarrow> (u32 \<times> bytes) option" where
  "ikcp_decode32u p = (if length p < 4 then None else Some (le_word (take 4 p), drop 4 p))"

definition ikcp_encodeGuid :: "Guid \<Rightarrow> bytes" where
  "ikcp_encodeGuid l = guid_bytes l"

definition ikcp_decodeGuid :: "bytes \<Rightarrow> (Guid \<times> bytes) option" where
  "ikcp_decodeGuid p = do { g \<leftarrow> Fill p; Some (g, drop 16 p) }"

definition imin :: "u32 \<Rightarrow> u32 \<Rightarrow> u32" where
  "imin a b = (if a \<le> b then a else b)"

definition imax :: "u32 \<Rightarrow> u32 \<Rightarrow> u32" where
  "imax a b = (if a \<ge> b then a else b)"

definition ibound :: "u32 \<Rightarrow> u32 \<Rightarrow> u32 \<Rightarrow> u32" where
  "ibound lower middle upper = imin (imax lower middle) upper"

definition itimediff :: "u32 \<Rightarrow> u32 \<Rightarrow> int" where
  "itimediff later earlier = sint (later - earlier)"

text \<open>
  A segment fresh from \<^verbatim>\<open>ikcp_segment_new\<close>: the fields are not read before they are written;
  \<open>d\<close> is the allocated data.
\<close>

definition ikcp_segment_new :: "bytes \<Rightarrow> IKCPSEG" where
  "ikcp_segment_new d = \<lparr>seg_conv = Guid_zero, seg_cmd = 0, seg_frg = 0, seg_wnd = 0, seg_ts = 0,
     seg_sn = 0, seg_una = 0, seg_len = 0, seg_resendts = 0, seg_rto = 0, seg_fastack = 0,
     seg_xmit = 0, seg_data = d\<rparr>"

definition ikcp_canlog :: "IKCPCB \<Rightarrow> int \<Rightarrow> bool" where
  "ikcp_canlog kcp msk \<longleftrightarrow> \<not> (msk AND logmask kcp = 0 \<or> \<not> writelog kcp)"

definition ikcp_output :: "IKCPCB \<Rightarrow> bytes \<Rightarrow> bytes list \<Rightarrow> bytes list option" where
  "ikcp_output kcp data outs =
     (if \<not> koutput kcp then None
      else if data = [] then Some outs
      else Some (outs @ [data]))"

section \<open>Creation\<close>

definition ikcp_create :: "Guid \<Rightarrow> IKCPCB" where
  "ikcp_create cv =
     \<lparr>kconv = cv, mtu = IKCP_MTU_DEF, mss = IKCP_MTU_DEF - IKCP_OVERHEAD, kstate = 0,
      snd_una = 0, snd_nxt = 0, rcv_nxt = 0, ts_recent = 0, ts_lastack = 0,
      ssthresh = IKCP_THRESH_INIT, rx_rttval = 0, rx_srtt = 0, rx_rto = uint IKCP_RTO_DEF,
      rx_minrto = uint IKCP_RTO_MIN, snd_wnd = IKCP_WND_SND, rcv_wnd = IKCP_WND_RCV,
      rmt_wnd = IKCP_WND_RCV, cwnd = 0, probe = 0, kcurrent = 0, interval = IKCP_INTERVAL,
      ts_flush = IKCP_INTERVAL, kxmit = 0, nrcv_buf = 0, nsnd_buf = 0, nrcv_que = 0, nsnd_que = 0,
      nodelay = 0, updated = 0, ts_probe = 0, probe_wait = 0, dead_link = IKCP_DEADLINK, incr = 0,
      snd_queue = [], rcv_queue = [], snd_buf = [], rcv_buf = [], acklist = [], ackcount = 0,
      ackblock = 0, kbuffer = unat ((IKCP_MTU_DEF + IKCP_OVERHEAD) * 3), fastresend = 0,
      nocwnd = 0, stream = 0, logmask = 0, koutput = False, writelog = False\<rparr>"

definition ikcp_setoutput :: "IKCPCB \<Rightarrow> IKCPCB" where
  "ikcp_setoutput kcp = kcp\<lparr>koutput := True\<rparr>"


section \<open>Receiving and sending at the user's side\<close>

primrec peek_loop :: "IKCPSEG list \<Rightarrow> int \<Rightarrow> int" where
  "peek_loop [] n = n"
| "peek_loop (s # q) n =
     (let n = sint (word_of_int n + seg_len s) in if seg_frg s = 0 then n else peek_loop q n)"

definition ikcp_peeksize :: "IKCPCB \<Rightarrow> int" where
  "ikcp_peeksize kcp =
     (case rcv_queue kcp of
        [] \<Rightarrow> -1
      | s # _ \<Rightarrow>
          if seg_frg s = 0 then sint (seg_len s)
          else if nrcv_que kcp < seg_frg s + 1 then -1
          else peek_loop (rcv_queue kcp) 0)"

primrec recv_merge ::
  "bool \<Rightarrow> bool \<Rightarrow> IKCPSEG list \<Rightarrow> int \<Rightarrow> bytes \<Rightarrow> IKCPCB \<Rightarrow> (int \<times> bytes \<times> IKCPCB) option" where
  "recv_merge ispeek hasbuf [] n dst kcp = Some (n, dst, kcp)"
| "recv_merge ispeek hasbuf (s # q) n dst kcp =
     (if hasbuf \<and> length (seg_data s) < unat (seg_len s) then None
      else
        let dst = (if hasbuf then dst @ take (unat (seg_len s)) (seg_data s) else dst);
            n = sint (word_of_int n + seg_len s);
            kcp = (if \<not> ispeek then kcp\<lparr>rcv_queue := q, nrcv_que := nrcv_que kcp - 1\<rparr> else kcp)
        in if seg_frg s = 0 then Some (n, dst, kcp) else recv_merge ispeek hasbuf q n dst kcp)"

primrec move_ready :: "IKCPSEG list \<Rightarrow> IKCPCB \<Rightarrow> IKCPCB" where
  "move_ready [] kcp = kcp"
| "move_ready (s # q) kcp =
     (if seg_sn s = rcv_nxt kcp \<and> nrcv_que kcp < rcv_wnd kcp then
        move_ready q (kcp\<lparr>rcv_buf := q, nrcv_buf := nrcv_buf kcp - 1,
          rcv_queue := rcv_queue kcp @ [s], nrcv_que := nrcv_que kcp + 1, rcv_nxt := rcv_nxt kcp + 1\<rparr>)
      else kcp)"

definition after_recv :: "bool \<Rightarrow> IKCPCB \<Rightarrow> IKCPCB" where
  "after_recv recover kcp =
     (let kcp = move_ready (rcv_buf kcp) kcp in
      if nrcv_que kcp < rcv_wnd kcp \<and> recover then kcp\<lparr>probe := probe kcp OR IKCP_ASK_TELL\<rparr> else kcp)"

definition ikcp_recv :: "IKCPCB \<Rightarrow> bool \<Rightarrow> int \<Rightarrow> (int \<times> bytes \<times> IKCPCB) option" where
  "ikcp_recv kcp hasbuf n =
     (if rcv_queue kcp = [] then Some (-1, [], kcp)
      else do {
        len \<leftarrow> i32 \<bar>n\<bar>;
        let peeksize = ikcp_peeksize kcp;
        if peeksize < 0 then Some (-2, [], kcp)
        else if peeksize > len then Some (-3, [], kcp)
        else do {
          (got, dst, kcp') \<leftarrow> recv_merge (n < 0) hasbuf (rcv_queue kcp) 0 [] kcp;
          if got \<noteq> peeksize then None
          else Some (got, dst, after_recv (nrcv_que kcp \<ge> rcv_wnd kcp) kcp') } })"

text \<open>
  \<^verbatim>\<open>ikcp_send\<close>. \<open>src\<close> is \<open>None\<close> for a null \<^verbatim>\<open>buffer\<close>; then the data of the segment is what the
  allocator returned, \<open>fresh n\<close> for an allocation of \<open>n\<close> data bytes.
\<close>

definition seg_fill :: "(nat \<Rightarrow> bytes) \<Rightarrow> bytes option \<Rightarrow> nat \<Rightarrow> bytes option" where
  "seg_fill fresh src n =
     (case src of
        None \<Rightarrow> Some (take n (fresh n))
      | Some b \<Rightarrow> if length b < n then None else Some (take n b))"

definition advance :: "bytes option \<Rightarrow> nat \<Rightarrow> bytes option" where
  "advance src n = map_option (drop n) src"

primrec send_fragments ::
  "(nat \<Rightarrow> bytes) \<Rightarrow> nat \<Rightarrow> bytes option \<Rightarrow> int \<Rightarrow> IKCPCB \<Rightarrow> IKCPCB option" where
  "send_fragments fresh 0 src n kcp = Some kcp"
| "send_fragments fresh (Suc rest) src n kcp = do {
     let sz = (if n > sint (mss kcp) then sint (mss kcp) else n);
     d \<leftarrow> seg_fill fresh src (nat sz);
     let s = (ikcp_segment_new d)\<lparr>seg_len := word_of_int sz,
       seg_frg := (if stream kcp = 0 then of_nat rest else 0)\<rparr>;
     send_fragments fresh rest (advance src (nat sz)) (n - sz)
       (kcp\<lparr>snd_queue := snd_queue kcp @ [s], nsnd_que := nsnd_que kcp + 1\<rparr>) }"

definition send_append ::
  "(nat \<Rightarrow> bytes) \<Rightarrow> bytes option \<Rightarrow> int \<Rightarrow> IKCPCB \<Rightarrow> (bytes option \<times> int \<times> IKCPCB) option" where
  "send_append fresh src n kcp =
     (if snd_queue kcp = [] then Some (src, n, kcp)
      else let old = last (snd_queue kcp) in
        if seg_len old < mss kcp then do {
          let capacity = sint (mss kcp - seg_len old);
          let extend = (if n < capacity then n else capacity);
          d0 \<leftarrow> seg_fill fresh (Some (seg_data old)) (unat (seg_len old));
          d1 \<leftarrow> seg_fill fresh src (nat extend);
          let s = (ikcp_segment_new (d0 @ d1))\<lparr>seg_len := seg_len old + word_of_int extend, seg_frg := 0\<rparr>;
          Some (advance src (nat extend), n - extend, kcp\<lparr>snd_queue := butlast (snd_queue kcp) @ [s]\<rparr>) }
        else Some (src, n, kcp))"

definition send_count_check ::
  "(nat \<Rightarrow> bytes) \<Rightarrow> bytes option \<Rightarrow> int \<Rightarrow> IKCPCB \<Rightarrow> (int \<times> IKCPCB) option" where
  "send_count_check fresh src n kcp = do {
     let count = (if n \<le> sint (mss kcp) then 1
       else sint ((word_of_int n + mss kcp - 1) div mss kcp));
     if word_of_int count \<ge> IKCP_WND_RCV then Some (-2, kcp)
     else do {
       let count = (if count = 0 then 1 else count);
       kcp \<leftarrow> send_fragments fresh (nat count) src n kcp;
       Some (0, kcp) } }"

definition ikcp_send ::
  "(nat \<Rightarrow> bytes) \<Rightarrow> IKCPCB \<Rightarrow> bytes option \<Rightarrow> int \<Rightarrow> (int \<times> IKCPCB) option" where
  "ikcp_send fresh kcp src n =
     (if \<not> mss kcp > 0 then None
      else if n < 0 then Some (-1, kcp)
      else do {
        (src, n, kcp) \<leftarrow> (if stream kcp \<noteq> 0 then send_append fresh src n kcp else Some (src, n, kcp));
        if stream kcp \<noteq> 0 \<and> n \<le> 0 then Some (0, kcp)
        else send_count_check fresh src n kcp })"

section \<open>Acknowledgements\<close>

definition update_rtt :: "IKCPCB \<Rightarrow> int \<Rightarrow> (int \<times> int) option" where
  "update_rtt kcp rtt =
     (if rx_srtt kcp = 0 then Some (rtt, cdiv rtt 2)
      else do {
        delta \<leftarrow> i32 (rtt - rx_srtt kcp);
        delta \<leftarrow> (if delta < 0 then i32 (- delta) else Some delta);
        a \<leftarrow> i32 (3 * rx_rttval kcp);
        a \<leftarrow> i32 (a + delta);
        b \<leftarrow> i32 (7 * rx_srtt kcp);
        b \<leftarrow> i32 (b + rtt);
        let srtt = cdiv b 8;
        Some (if srtt < 1 then 1 else srtt, cdiv a 4) })"

definition ikcp_update_ack :: "IKCPCB \<Rightarrow> int \<Rightarrow> IKCPCB option" where
  "ikcp_update_ack kcp rtt = do {
     (srtt, rttval) \<leftarrow> update_rtt kcp rtt;
     v \<leftarrow> i32 (4 * rttval);
     let rto = sint (word_of_int srtt + imax (interval kcp) (word_of_int v));
     Some (kcp\<lparr>rx_srtt := srtt, rx_rttval := rttval,
       rx_rto := sint (ibound (word_of_int (rx_minrto kcp)) (word_of_int rto) IKCP_RTO_MAX)\<rparr>) }"

definition ikcp_shrink_buf :: "IKCPCB \<Rightarrow> IKCPCB" where
  "ikcp_shrink_buf kcp =
     (case snd_buf kcp of
        s # _ \<Rightarrow> kcp\<lparr>snd_una := seg_sn s\<rparr>
      | [] \<Rightarrow> kcp\<lparr>snd_una := snd_nxt kcp\<rparr>)"

fun parse_ack_loop :: "u32 \<Rightarrow> IKCPSEG list \<Rightarrow> IKCPSEG list \<times> bool" where
  "parse_ack_loop sn [] = ([], False)"
| "parse_ack_loop sn (s # q) =
     (if sn = seg_sn s then (q, True)
      else if itimediff sn (seg_sn s) < 0 then (s # q, False)
      else let (q', del) = parse_ack_loop sn q in (s # q', del))"

definition ikcp_parse_ack :: "IKCPCB \<Rightarrow> u32 \<Rightarrow> IKCPCB" where
  "ikcp_parse_ack kcp sn =
     (if itimediff sn (snd_una kcp) < 0 \<or> itimediff sn (snd_nxt kcp) \<ge> 0 then kcp
      else let (q, del) = parse_ack_loop sn (snd_buf kcp) in
        kcp\<lparr>snd_buf := q, nsnd_buf := (if del then nsnd_buf kcp - 1 else nsnd_buf kcp)\<rparr>)"

primrec parse_una_loop :: "u32 \<Rightarrow> IKCPSEG list \<Rightarrow> IKCPCB \<Rightarrow> IKCPCB" where
  "parse_una_loop una [] kcp = kcp"
| "parse_una_loop una (s # q) kcp =
     (if itimediff una (seg_sn s) > 0
      then parse_una_loop una q (kcp\<lparr>snd_buf := q, nsnd_buf := nsnd_buf kcp - 1\<rparr>)
      else kcp)"

definition ikcp_parse_una :: "IKCPCB \<Rightarrow> u32 \<Rightarrow> IKCPCB" where
  "ikcp_parse_una kcp una = parse_una_loop una (snd_buf kcp) kcp"

primrec parse_fastack_loop :: "u32 \<Rightarrow> IKCPSEG list \<Rightarrow> IKCPSEG list" where
  "parse_fastack_loop sn [] = []"
| "parse_fastack_loop sn (s # q) =
     (if itimediff sn (seg_sn s) < 0 then s # q
      else (if sn \<noteq> seg_sn s then s\<lparr>seg_fastack := seg_fastack s + 1\<rparr> else s) # parse_fastack_loop sn q)"

definition ikcp_parse_fastack :: "IKCPCB \<Rightarrow> u32 \<Rightarrow> IKCPCB" where
  "ikcp_parse_fastack kcp sn =
     (if itimediff sn (snd_una kcp) < 0 \<or> itimediff sn (snd_nxt kcp) \<ge> 0 then kcp
      else kcp\<lparr>snd_buf := parse_fastack_loop sn (snd_buf kcp)\<rparr>)"

text \<open>
  The doubling loop of \<^verbatim>\<open>ikcp_ack_push\<close> with a bound on its iterations: after 29 doublings a
  32-bit value is past its last power of two and the loop of the source would never end.
\<close>

primrec ack_block_loop :: "nat \<Rightarrow> u32 \<Rightarrow> u32 \<Rightarrow> u32 option" where
  "ack_block_loop 0 newblock newsize = None"
| "ack_block_loop (Suc k) newblock newsize =
     (if newblock < newsize then ack_block_loop k (push_bit 1 newblock) newsize else Some newblock)"

primrec ack_copy :: "nat \<Rightarrow> u32 option list \<Rightarrow> u32 option list \<Rightarrow> u32 option list option" where
  "ack_copy 0 src dst = Some dst"
| "ack_copy (Suc x) src dst = do {
     dst \<leftarrow> ack_copy x src dst;
     if length src \<le> x * 2 + 1 \<or> length dst \<le> x * 2 + 1 then None
     else Some (dst[x * 2 := src ! (x * 2), x * 2 + 1 := src ! (x * 2 + 1)]) }"

definition ack_grow :: "IKCPCB \<Rightarrow> u32 \<Rightarrow> IKCPCB option" where
  "ack_grow kcp newsize = do {
     newblock \<leftarrow> ack_block_loop 30 8 newsize;
     let block = replicate (unat newblock * 2) None;
     block \<leftarrow> (if acklist kcp \<noteq> [] then ack_copy (unat (ackcount kcp)) (acklist kcp) block
       else Some block);
     Some (kcp\<lparr>acklist := block, ackblock := newblock\<rparr>) }"

definition ikcp_ack_push :: "IKCPCB \<Rightarrow> u32 \<Rightarrow> u32 \<Rightarrow> IKCPCB option" where
  "ikcp_ack_push kcp sn ts = do {
     let newsize = ackcount kcp + 1;
     kcp \<leftarrow> (if newsize > ackblock kcp then ack_grow kcp newsize else Some kcp);
     let p = unat (ackcount kcp * 2);
     if length (acklist kcp) \<le> p + 1 then None
     else Some (kcp\<lparr>acklist := (acklist kcp)[p := Some sn, p + 1 := Some ts],
       ackcount := ackcount kcp + 1\<rparr>) }"

definition ikcp_ack_get :: "IKCPCB \<Rightarrow> nat \<Rightarrow> (u32 \<times> u32) option" where
  "ikcp_ack_get kcp p =
     (if length (acklist kcp) \<le> p * 2 + 1 then None
      else do { sn \<leftarrow> acklist kcp ! (p * 2); ts \<leftarrow> acklist kcp ! (p * 2 + 1); Some (sn, ts) })"

section \<open>Incoming data\<close>

text \<open>
  The backward search of \<^verbatim>\<open>ikcp_parse_data\<close>: the nodes are visited from the tail, \<open>aft\<close> collects
  those already passed. The result is whether the number is already there, the nodes up to the
  position \<open>p\<close> (last first) and the nodes behind it.
\<close>

primrec parse_data_scan ::
  "u32 \<Rightarrow> IKCPSEG list \<Rightarrow> IKCPSEG list \<Rightarrow> bool \<times> IKCPSEG list \<times> IKCPSEG list" where
  "parse_data_scan sn [] aft = (False, [], aft)"
| "parse_data_scan sn (s # r) aft =
     (if seg_sn s = sn then (True, s # r, aft)
      else if itimediff sn (seg_sn s) > 0 then (False, s # r, aft)
      else parse_data_scan sn r (s # aft))"

definition ikcp_parse_data :: "IKCPCB \<Rightarrow> IKCPSEG \<Rightarrow> IKCPCB" where
  "ikcp_parse_data kcp newseg =
     (let sn = seg_sn newseg in
      if itimediff sn (rcv_nxt kcp + rcv_wnd kcp) \<ge> 0 \<or> itimediff sn (rcv_nxt kcp) < 0 then kcp
      else
        let (repeat, r, aft) = parse_data_scan sn (rev (rcv_buf kcp)) [];
            kcp = (if \<not> repeat
              then kcp\<lparr>rcv_buf := rev r @ newseg # aft, nrcv_buf := nrcv_buf kcp + 1\<rparr>
              else kcp)
        in move_ready (rcv_buf kcp) kcp)"

definition input_ack :: "IKCPCB \<Rightarrow> u32 \<Rightarrow> u32 \<Rightarrow> bool \<Rightarrow> u32 \<Rightarrow> (IKCPCB \<times> bool \<times> u32) option" where
  "input_ack kcp sn ts flag maxack = do {
     kcp \<leftarrow> (if itimediff (kcurrent kcp) ts \<ge> 0
       then ikcp_update_ack kcp (itimediff (kcurrent kcp) ts) else Some kcp);
     let kcp = ikcp_shrink_buf (ikcp_parse_ack kcp sn);
     Some (if \<not> flag then (kcp, True, sn)
       else (kcp, flag, if itimediff sn maxack > 0 then sn else maxack)) }"

definition input_push :: "IKCPCB \<Rightarrow> IKCPSEG \<Rightarrow> bytes \<Rightarrow> IKCPCB option" where
  "input_push kcp h data =
     (if itimediff (seg_sn h) (rcv_nxt kcp + rcv_wnd kcp) < 0 then do {
        kcp \<leftarrow> ikcp_ack_push kcp (seg_sn h) (seg_ts h);
        if itimediff (seg_sn h) (rcv_nxt kcp) \<ge> 0 then
          (if length data < unat (seg_len h) then None
           else Some (ikcp_parse_data kcp (h\<lparr>seg_data := take (unat (seg_len h)) data\<rparr>)))
        else Some kcp }
      else Some kcp)"

definition decode_head :: "Guid \<Rightarrow> bytes \<Rightarrow> (IKCPSEG \<times> bytes) option" where
  "decode_head cv data = do {
     (cmd, data) \<leftarrow> ikcp_decode8u data;
     (frg, data) \<leftarrow> ikcp_decode8u data;
     (wnd, data) \<leftarrow> ikcp_decode16u data;
     (ts, data) \<leftarrow> ikcp_decode32u data;
     (sn, data) \<leftarrow> ikcp_decode32u data;
     (una, data) \<leftarrow> ikcp_decode32u data;
     (n, data) \<leftarrow> ikcp_decode32u data;
     Some ((ikcp_segment_new [])\<lparr>seg_conv := cv, seg_cmd := ucast cmd, seg_frg := ucast frg,
       seg_wnd := ucast wnd, seg_ts := ts, seg_sn := sn, seg_una := una, seg_len := n\<rparr>, data) }"

definition input_seg ::
  "IKCPCB \<Rightarrow> IKCPSEG \<Rightarrow> bytes \<Rightarrow> bool \<Rightarrow> u32 \<Rightarrow> (IKCPCB \<times> bool \<times> u32) option" where
  "input_seg kcp h data flag maxack = do {
     let kcp = kcp\<lparr>rmt_wnd := seg_wnd h\<rparr>;
     let kcp = ikcp_shrink_buf (ikcp_parse_una kcp (seg_una h));
     if seg_cmd h = IKCP_CMD_ACK then input_ack kcp (seg_sn h) (seg_ts h) flag maxack
     else if seg_cmd h = IKCP_CMD_PUSH then do {
       kcp \<leftarrow> input_push kcp h data;
       Some (kcp, flag, maxack) }
     else if seg_cmd h = IKCP_CMD_WASK then
       Some (kcp\<lparr>probe := probe kcp OR IKCP_ASK_TELL\<rparr>, flag, maxack)
     else Some (kcp, flag, maxack) }"

text \<open>
  The loop of \<^verbatim>\<open>ikcp_input\<close>: \<open>Inl\<close> an early return with its code, \<open>Inr\<close> the exit by
  \<^verbatim>\<open>break\<close> with the values of \<^verbatim>\<open>flag\<close> and \<^verbatim>\<open>maxack\<close>. \<open>data\<close> is the memory from the read pointer
  on; advancing the pointer past its end is a fault.
\<close>

function input_loop ::
  "IKCPCB \<Rightarrow> bool \<Rightarrow> u32 \<Rightarrow> bytes \<Rightarrow> int \<Rightarrow> ((int \<times> IKCPCB) + (IKCPCB \<times> bool \<times> u32)) option" where
  "input_loop kcp flag maxack data sz =
     (if sz < sint IKCP_OVERHEAD then Some (Inr (kcp, flag, maxack))
      else case ikcp_decodeGuid data of
        None \<Rightarrow> None
      | Some (cv, body) \<Rightarrow>
        if Guid_ne cv (kconv kcp) then Some (Inl (-1, kcp))
        else case decode_head cv body of
          None \<Rightarrow> None
        | Some (h, rest) \<Rightarrow>
          let sz = sz - sint IKCP_OVERHEAD in
          if sz < sint (seg_len h) then Some (Inl (-2, kcp))
          else if seg_cmd h \<noteq> IKCP_CMD_PUSH \<and> seg_cmd h \<noteq> IKCP_CMD_ACK \<and>
            seg_cmd h \<noteq> IKCP_CMD_WASK \<and> seg_cmd h \<noteq> IKCP_CMD_WINS then Some (Inl (-3, kcp))
          else case input_seg kcp h rest flag maxack of
            None \<Rightarrow> None
          | Some (kcp, flag, maxack) \<Rightarrow>
            if length rest < unat (seg_len h) then None
            else input_loop kcp flag maxack (drop (unat (seg_len h)) rest)
              (sint (word_of_int sz - seg_len h)))"
  by pat_completeness auto

lemma decode_shorter:
  "ikcp_decodeGuid data = Some (cv, data') \<Longrightarrow> length data' + 16 = length data"
  "decode_head cv data = Some (h, data') \<Longrightarrow> length data' + 20 = length data"
  by (auto simp: ikcp_decodeGuid_def Fill_def decode_head_def ikcp_decode8u_def ikcp_decode16u_def
      ikcp_decode32u_def bind_Some_iff split: if_splits list.splits)

termination input_loop
  by (relation "measure (\<lambda>(kcp, flag, maxack, data, sz). length data)")
    (auto dest!: decode_shorter)

definition input_cwnd :: "IKCPCB \<Rightarrow> IKCPCB option" where
  "input_cwnd kcp =
     (if cwnd kcp < rmt_wnd kcp then do {
        let m = mss kcp;
        kcp \<leftarrow> (if cwnd kcp < ssthresh kcp then Some (kcp\<lparr>cwnd := cwnd kcp + 1, incr := incr kcp + m\<rparr>)
          else do {
            let kcp = (if incr kcp < m then kcp\<lparr>incr := m\<rparr> else kcp);
            kcp \<leftarrow> (if incr kcp = 0 then None
              else Some (kcp\<lparr>incr := incr kcp + (m * m div incr kcp + m div 16)\<rparr>));
            Some (if (cwnd kcp + 1) * m \<le> incr kcp then kcp\<lparr>cwnd := cwnd kcp + 1\<rparr> else kcp) });
        Some (if cwnd kcp > rmt_wnd kcp then kcp\<lparr>cwnd := rmt_wnd kcp, incr := rmt_wnd kcp * m\<rparr>
          else kcp) }
      else Some kcp)"

text \<open>What \<^verbatim>\<open>ikcp_input\<close> does after its loop, and the whole; \<open>data\<close> is \<open>None\<close> for the null pointer.\<close>

definition input_finish ::
  "u32 \<Rightarrow> (int \<times> IKCPCB) + (IKCPCB \<times> bool \<times> u32) \<Rightarrow> (int \<times> IKCPCB) option" where
  "input_finish una r =
     (case r of Inl res \<Rightarrow> Some res
      | Inr (kcp, flag, maxack) \<Rightarrow> do {
          let kcp = (if flag then ikcp_parse_fastack kcp maxack else kcp);
          kcp \<leftarrow> (if itimediff (snd_una kcp) una > 0 then input_cwnd kcp else Some kcp);
          Some (0, kcp) })"

definition ikcp_input :: "IKCPCB \<Rightarrow> bytes option \<Rightarrow> int \<Rightarrow> (int \<times> IKCPCB) option" where
  "ikcp_input kcp data sz =
     (case data of None \<Rightarrow> Some (-1, kcp)
      | Some data \<Rightarrow>
        if sz < sint IKCP_OVERHEAD then Some (-1, kcp)
        else do {
          r \<leftarrow> input_loop kcp False 0 data sz;
          input_finish (snd_una kcp) r })"

section \<open>Outgoing data\<close>

definition ikcp_encode_seg :: "IKCPSEG \<Rightarrow> bytes" where
  "ikcp_encode_seg s = ikcp_encodeGuid (seg_conv s) @ ikcp_encode8u (ucast (seg_cmd s))
     @ ikcp_encode8u (ucast (seg_frg s)) @ ikcp_encode16u (ucast (seg_wnd s))
     @ ikcp_encode32u (seg_ts s) @ ikcp_encode32u (seg_sn s) @ ikcp_encode32u (seg_una s)
     @ ikcp_encode32u (seg_len s)"

definition ikcp_wnd_unused :: "IKCPCB \<Rightarrow> int" where
  "ikcp_wnd_unused kcp =
     (if nrcv_que kcp < rcv_wnd kcp then sint (rcv_wnd kcp - nrcv_que kcp) else 0)"


text \<open>
  \<^verbatim>\<open>ikcp_flush\<close>. The bytes between \<^verbatim>\<open>buffer\<close> and \<^verbatim>\<open>ptr\<close> are a list; \<open>outs\<close> are the datagrams
  given to \<^verbatim>\<open>ikcp_output\<close> so far. \<open>flush_room\<close> is the size test before each segment, \<open>flush_put\<close>
  the store of a header and its data, which faults past the end of the allocated buffer.
\<close>

definition flush_room :: "IKCPCB \<Rightarrow> int \<Rightarrow> bytes \<times> bytes list \<Rightarrow> (bytes \<times> bytes list) option" where
  "flush_room kcp need po = do {
     let (ptr, outs) = po;
     total \<leftarrow> i32 (int (length ptr) + need);
     if total > sint (mtu kcp) then do {
       outs \<leftarrow> ikcp_output kcp ptr outs;
       Some ([], outs) }
     else Some (ptr, outs) }"

definition flush_put :: "IKCPCB \<Rightarrow> IKCPSEG \<Rightarrow> bytes \<times> bytes list \<Rightarrow> (bytes \<times> bytes list) option" where
  "flush_put kcp s po = do {
     let (ptr, outs) = po;
     let ptr = ptr @ ikcp_encode_seg s;
     if kbuffer kcp < length ptr then None
     else if seg_len s > 0 then
       (let n = unat (seg_len s) in
        if length (seg_data s) < n \<or> kbuffer kcp < length ptr + n then None
        else Some (ptr @ take n (seg_data s), outs))
     else Some (ptr, outs) }"

primrec flush_acks ::
  "IKCPCB \<Rightarrow> nat \<Rightarrow> nat \<Rightarrow> IKCPSEG \<Rightarrow> bytes \<times> bytes list \<Rightarrow> (IKCPSEG \<times> bytes \<times> bytes list) option" where
  "flush_acks kcp 0 i s po = Some (s, po)"
| "flush_acks kcp (Suc k) i s po = do {
     po \<leftarrow> flush_room kcp (sint IKCP_OVERHEAD) po;
     (sn, ts) \<leftarrow> ikcp_ack_get kcp i;
     let s = s\<lparr>seg_sn := sn, seg_ts := ts\<rparr>;
     po \<leftarrow> flush_put kcp s po;
     flush_acks kcp k (Suc i) s po }"

definition flush_probe_wait :: "IKCPCB \<Rightarrow> IKCPCB" where
  "flush_probe_wait kcp =
     (if rmt_wnd kcp = 0 then
        if probe_wait kcp = 0 then
          kcp\<lparr>probe_wait := IKCP_PROBE_INIT, ts_probe := kcurrent kcp + IKCP_PROBE_INIT\<rparr>
        else if itimediff (kcurrent kcp) (ts_probe kcp) \<ge> 0 then
          let w = (if probe_wait kcp < IKCP_PROBE_INIT then IKCP_PROBE_INIT else probe_wait kcp);
              w = w + w div 2;
              w = (if w > IKCP_PROBE_LIMIT then IKCP_PROBE_LIMIT else w)
          in kcp\<lparr>probe_wait := w, ts_probe := kcurrent kcp + w, probe := probe kcp OR IKCP_ASK_SEND\<rparr>
        else kcp
      else kcp\<lparr>ts_probe := 0, probe_wait := 0\<rparr>)"

definition flush_probe ::
  "IKCPCB \<Rightarrow> u32 \<Rightarrow> u32 \<Rightarrow> IKCPSEG \<Rightarrow> bytes \<times> bytes list \<Rightarrow> (IKCPSEG \<times> bytes \<times> bytes list) option" where
  "flush_probe kcp bitm cmd s po =
     (if probe kcp AND bitm \<noteq> 0 then do {
        let s = s\<lparr>seg_cmd := cmd\<rparr>;
        po \<leftarrow> flush_room kcp (sint IKCP_OVERHEAD) po;
        po \<leftarrow> flush_put kcp s po;
        Some (s, po) }
      else Some (s, po))"

definition flush_cwnd :: "IKCPCB \<Rightarrow> u32" where
  "flush_cwnd kcp =
     (let w = imin (snd_wnd kcp) (rmt_wnd kcp) in if nocwnd kcp = 0 then imin (cwnd kcp) w else w)"

primrec flush_move :: "u32 \<Rightarrow> u32 \<Rightarrow> IKCPSEG list \<Rightarrow> IKCPCB \<Rightarrow> IKCPCB" where
  "flush_move wnd cw [] kcp = kcp"
| "flush_move wnd cw (s # q) kcp =
     (if itimediff (snd_nxt kcp) (snd_una kcp + cw) < 0 then
        let s = s\<lparr>seg_conv := kconv kcp, seg_cmd := IKCP_CMD_PUSH, seg_wnd := wnd,
              seg_ts := kcurrent kcp, seg_sn := snd_nxt kcp, seg_una := rcv_nxt kcp,
              seg_resendts := kcurrent kcp, seg_rto := word_of_int (rx_rto kcp), seg_fastack := 0,
              seg_xmit := 0\<rparr>
        in flush_move wnd cw q (kcp\<lparr>snd_queue := q, snd_buf := snd_buf kcp @ [s],
             nsnd_que := nsnd_que kcp - 1, nsnd_buf := nsnd_buf kcp + 1, snd_nxt := snd_nxt kcp + 1\<rparr>)
      else kcp)"

text \<open>
  One iteration of the loop over \<^verbatim>\<open>snd_buf\<close>. \<open>flush_due\<close> decides whether the segment is sent and
  updates its timers; it also says whether the retransmission timer fired (\<^verbatim>\<open>lost\<close>) and whether it
  is a fast retransmission (\<^verbatim>\<open>change\<close>).
\<close>

definition flush_due :: "IKCPCB \<Rightarrow> u32 \<Rightarrow> u32 \<Rightarrow> IKCPSEG \<Rightarrow> (IKCPSEG \<times> bool \<times> bool) option" where
  "flush_due kcp resent rtomin s =
     (let now = kcurrent kcp; rto = word_of_int (rx_rto kcp) in
      if seg_xmit s = 0 then
        Some (s\<lparr>seg_xmit := seg_xmit s + 1, seg_rto := rto, seg_resendts := now + rto + rtomin\<rparr>, False, False)
      else if itimediff now (seg_resendts s) \<ge> 0 then
        let r = seg_rto s + (if nodelay kcp = 0 then rto else word_of_int (cdiv (rx_rto kcp) 2)) in
        Some (s\<lparr>seg_xmit := seg_xmit s + 1, seg_rto := r, seg_resendts := now + r\<rparr>, True, False)
      else if seg_fastack s \<ge> resent then
        Some (s\<lparr>seg_xmit := seg_xmit s + 1, seg_fastack := 0, seg_resendts := now + seg_rto s\<rparr>, False, True)
      else None)"

primrec flush_segs ::
  "u32 \<Rightarrow> u32 \<Rightarrow> u32 \<Rightarrow> IKCPSEG list \<Rightarrow> IKCPCB \<Rightarrow> bool \<Rightarrow> bool \<Rightarrow> bytes \<times> bytes list
   \<Rightarrow> (IKCPSEG list \<times> IKCPCB \<times> bool \<times> bool \<times> bytes \<times> bytes list) option" where
  "flush_segs wnd resent rtomin [] kcp lost change po = Some ([], kcp, lost, change, po)"
| "flush_segs wnd resent rtomin (s # q) kcp lost change po =
     (case flush_due kcp resent rtomin s of
        None \<Rightarrow> do {
          (q, r) \<leftarrow> flush_segs wnd resent rtomin q kcp lost change po;
          Some (s # q, r) }
      | Some (s, l, c) \<Rightarrow> do {
          let kcp = (if l then kcp\<lparr>kxmit := kxmit kcp + 1\<rparr> else kcp);
          let s = s\<lparr>seg_ts := kcurrent kcp, seg_wnd := wnd, seg_una := rcv_nxt kcp\<rparr>;
          po \<leftarrow> flush_room kcp (sint (IKCP_OVERHEAD + seg_len s)) po;
          po \<leftarrow> flush_put kcp s po;
          let kcp = (if seg_xmit s \<ge> dead_link kcp then kcp\<lparr>kstate := -1\<rparr> else kcp);
          (q, r) \<leftarrow> flush_segs wnd resent rtomin q kcp (lost \<or> l) (change \<or> c) po;
          Some (s # q, r) })"

definition flush_congestion :: "u32 \<Rightarrow> u32 \<Rightarrow> bool \<Rightarrow> bool \<Rightarrow> IKCPCB \<Rightarrow> IKCPCB" where
  "flush_congestion resent cw lost change kcp =
     (let thresh = (\<lambda>x. if x < IKCP_THRESH_MIN then IKCP_THRESH_MIN else x);
          kcp = (if change then
              let t = thresh ((snd_nxt kcp - snd_una kcp) div 2)
              in kcp\<lparr>ssthresh := t, cwnd := t + resent, incr := (t + resent) * mss kcp\<rparr>
            else kcp);
          kcp = (if lost then kcp\<lparr>ssthresh := thresh (cw div 2), cwnd := 1, incr := mss kcp\<rparr> else kcp)
      in if cwnd kcp < 1 then kcp\<lparr>cwnd := 1, incr := mss kcp\<rparr> else kcp)"

definition flush_data :: "u32 \<Rightarrow> bytes \<times> bytes list \<Rightarrow> IKCPCB \<Rightarrow> (IKCPCB \<times> bytes list) option" where
  "flush_data wnd po kcp = do {
     let cw = flush_cwnd kcp;
     let kcp = flush_move wnd cw (snd_queue kcp) kcp;
     let resent = (if fastresend kcp > 0 then word_of_int (fastresend kcp) else 0xffffffff);
     let rtomin = (if nodelay kcp = 0 then word_of_int (rx_rto kcp div 8) else 0);
     (q, kcp, lost, change, ptr, outs) \<leftarrow> flush_segs wnd resent rtomin (snd_buf kcp) kcp False False po;
     let kcp = kcp\<lparr>snd_buf := q\<rparr>;
     outs \<leftarrow> (if ptr \<noteq> [] then ikcp_output kcp ptr outs else Some outs);
     Some (flush_congestion resent cw lost change kcp, outs) }"

definition ikcp_flush :: "IKCPCB \<Rightarrow> (IKCPCB \<times> bytes list) option" where
  "ikcp_flush kcp =
     (if updated kcp = 0 then Some (kcp, [])
      else do {
        let wnd = word_of_int (ikcp_wnd_unused kcp);
        let s = (ikcp_segment_new [])\<lparr>seg_conv := kconv kcp, seg_cmd := IKCP_CMD_ACK, seg_frg := 0,
          seg_wnd := wnd, seg_una := rcv_nxt kcp, seg_len := 0, seg_sn := 0, seg_ts := 0\<rparr>;
        (s, po) \<leftarrow> flush_acks kcp (nat (sint (ackcount kcp))) 0 s ([], []);
        let kcp = flush_probe_wait (kcp\<lparr>ackcount := 0\<rparr>);
        (s, po) \<leftarrow> flush_probe kcp IKCP_ASK_SEND IKCP_CMD_WASK s po;
        (s, po) \<leftarrow> flush_probe kcp IKCP_ASK_TELL IKCP_CMD_WINS s po;
        flush_data wnd po (kcp\<lparr>probe := 0\<rparr>) })"

section \<open>Clock and settings\<close>

definition ikcp_update :: "IKCPCB \<Rightarrow> u32 \<Rightarrow> (IKCPCB \<times> bytes list) option" where
  "ikcp_update kcp current =
     (let kcp = kcp\<lparr>kcurrent := current\<rparr>;
          kcp = (if updated kcp = 0 then kcp\<lparr>updated := 1, ts_flush := current\<rparr> else kcp);
          slap = itimediff current (ts_flush kcp);
          (kcp, slap) = (if slap \<ge> 10000 \<or> slap < -10000 then (kcp\<lparr>ts_flush := current\<rparr>, 0) else (kcp, slap))
      in if slap \<ge> 0 then
        let kcp = kcp\<lparr>ts_flush := ts_flush kcp + interval kcp\<rparr>;
            kcp = (if itimediff current (ts_flush kcp) \<ge> 0
              then kcp\<lparr>ts_flush := current + interval kcp\<rparr> else kcp)
        in ikcp_flush kcp
      else Some (kcp, []))"

primrec check_loop :: "u32 \<Rightarrow> IKCPSEG list \<Rightarrow> int \<Rightarrow> int option" where
  "check_loop current [] tm = Some tm"
| "check_loop current (s # q) tm =
     (let diff = itimediff (seg_resendts s) current in
      if diff \<le> 0 then None else check_loop current q (if diff < tm then diff else tm))"

definition ikcp_check :: "IKCPCB \<Rightarrow> u32 \<Rightarrow> u32" where
  "ikcp_check kcp current =
     (if updated kcp = 0 then current
      else
        let tsf = (if itimediff current (ts_flush kcp) \<ge> 10000 \<or> itimediff current (ts_flush kcp) < -10000
              then current else ts_flush kcp)
        in if itimediff current tsf \<ge> 0 then current
        else
          let tm_flush = itimediff tsf current
          in case check_loop current (snd_buf kcp) 0x7fffffff of
            None \<Rightarrow> current
          | Some tm_packet \<Rightarrow>
            let minimal = word_of_int (if tm_packet < tm_flush then tm_packet else tm_flush);
                minimal = (if minimal \<ge> interval kcp then interval kcp else minimal)
            in current + minimal)"

definition ikcp_setmtu :: "IKCPCB \<Rightarrow> int \<Rightarrow> int \<times> IKCPCB" where
  "ikcp_setmtu kcp m =
     (if m < 50 \<or> m < sint IKCP_OVERHEAD then (-1, kcp)
      else (0, kcp\<lparr>mtu := word_of_int m, mss := word_of_int m - IKCP_OVERHEAD,
        kbuffer := unat ((word_of_int m + IKCP_OVERHEAD) * 3)\<rparr>))"

definition clamp_interval :: "int \<Rightarrow> int" where
  "clamp_interval v = (if v > 5000 then 5000 else if v < 10 then 10 else v)"

definition ikcp_interval :: "IKCPCB \<Rightarrow> int \<Rightarrow> int \<times> IKCPCB" where
  "ikcp_interval kcp v = (0, kcp\<lparr>interval := word_of_int (clamp_interval v)\<rparr>)"

definition ikcp_nodelay :: "IKCPCB \<Rightarrow> int \<Rightarrow> int \<Rightarrow> int \<Rightarrow> int \<Rightarrow> int \<times> IKCPCB" where
  "ikcp_nodelay kcp nd v resend nc =
     (let kcp = (if nd \<ge> 0 then kcp\<lparr>nodelay := word_of_int nd,
            rx_minrto := uint (if nd \<noteq> 0 then IKCP_RTO_NDL else IKCP_RTO_MIN)\<rparr> else kcp);
          kcp = (if v \<ge> 0 then kcp\<lparr>interval := word_of_int (clamp_interval v)\<rparr> else kcp);
          kcp = (if resend \<ge> 0 then kcp\<lparr>fastresend := resend\<rparr> else kcp);
          kcp = (if nc \<ge> 0 then kcp\<lparr>nocwnd := nc\<rparr> else kcp)
      in (0, kcp))"

definition ikcp_wndsize :: "IKCPCB \<Rightarrow> int \<Rightarrow> int \<Rightarrow> int \<times> IKCPCB" where
  "ikcp_wndsize kcp sndwnd rcvwnd =
     (let kcp = (if sndwnd > 0 then kcp\<lparr>snd_wnd := word_of_int sndwnd\<rparr> else kcp);
          kcp = (if rcvwnd > 0 then kcp\<lparr>rcv_wnd := imax (word_of_int rcvwnd) IKCP_WND_RCV\<rparr> else kcp)
      in (0, kcp))"

definition ikcp_waitsnd :: "IKCPCB \<Rightarrow> int" where
  "ikcp_waitsnd kcp = sint (nsnd_buf kcp + nsnd_que kcp)"

end
