(* ===== verification/KcpInv.thy ===== *)
theory KcpInv
  imports Kcp
begin

text \<open>
  The invariant of the control block of \<^verbatim>\<open>ikcp.h\<close> and its preservation by every operation.
  Sequence numbers are compared modulo \<open>2^32\<close>: \<open>off b x\<close> is the distance of \<open>x\<close> from a base
  \<open>b\<close>, and \<^verbatim>\<open>_itimediff\<close> orders numbers correctly as long as distances stay below \<open>2^31\<close>.
\<close>

section \<open>Circular sequence numbers\<close>

definition off :: "u32 \<Rightarrow> u32 \<Rightarrow> nat" where
  "off b x = unat (x - b)"

abbreviation HALF :: nat where
  "HALF \<equiv> 2 ^ 31"

lemma off_self [simp]: "off b b = 0"
  by (simp add: off_def)

lemma off_eq_iff: "off b x = off b y \<longleftrightarrow> x = y"
  by (auto simp: off_def word_unat_eq_iff [symmetric])

lemma off_less [simp]: "off b x < 2 ^ 32"
  unfolding off_def using unsigned_less [of "x - b", where 'a = nat] by simp

lemma sint_of_int_id:
  assumes "- (2 ^ 31) \<le> k" "k < 2 ^ 31"
  shows "sint (word_of_int k :: u32) = k"
  using assms by (simp add: signed_of_int signed_take_bit_int_eq_self)

lemma unat_lt_iff: "unat (u :: u32) < n \<longleftrightarrow> uint u < int n"
  by (metis of_nat_less_iff uint_nat)

lemma sint_diff_small:
  fixes u v :: u32
  assumes "unat u < HALF" "unat v < HALF"
  shows "sint (u - v) = int (unat u) - int (unat v)"
proof -
  have "uint u < 2 ^ 31" "uint v < 2 ^ 31" "0 \<le> uint u" "0 \<le> uint v"
    using assms by (simp_all add: unat_lt_iff)
  then have "sint (word_of_int (uint u - uint v) :: u32) = uint u - uint v"
    by (intro sint_of_int_id) linarith+
  then show ?thesis by simp
qed

lemma sint_small: "unat (u :: u32) < HALF \<Longrightarrow> sint u = int (unat u)"
  using sint_diff_small [of u 0] by simp

lemma sint_big:
  assumes "\<not> unat (u :: u32) < HALF"
  shows "sint u < 0"
proof -
  have b: "uint u < 2 ^ 32" using uint_lt2p [of u] by simp
  have "uint u \<ge> 2 ^ 31" using assms by (simp add: unat_lt_iff)
  then have "sint (word_of_int (uint u - 2 ^ 32) :: u32) = uint u - 2 ^ 32"
    using b by (intro sint_of_int_id) simp_all
  moreover have "(word_of_int (uint u - 2 ^ 32) :: u32) = u" by simp
  ultimately have "sint u = uint u - 2 ^ 32" by metis
  then show ?thesis using b by simp
qed

lemma sint_nonneg_iff: "0 \<le> sint (u :: u32) \<longleftrightarrow> unat u < HALF"
  using sint_small [of u] sint_big [of u] by force

lemma itimediff_off:
  assumes "off b x < HALF" "off b y < HALF"
  shows "itimediff x y = int (off b x) - int (off b y)"
  using sint_diff_small [of "x - b" "y - b"] assms by (simp add: itimediff_def off_def)

lemma off_add:
  assumes "off b x + unat c < 2 ^ 32"
  shows "off b (x + c) = off b x + unat c"
proof -
  have "unat ((x - b) + c) = unat (x - b) + unat c"
    using assms unat_add_lem [of "x - b" c] by (simp add: off_def)
  then show ?thesis by (simp add: off_def algebra_simps)
qed

lemma off_base: "off b (b + c) = unat c"
  by (simp add: off_def)

lemma off_window:
  assumes "itimediff x (b + w) < 0" "itimediff x b \<ge> 0" "unat w < HALF"
  shows "off b x < unat w"
proof -
  have x: "off b x < HALF"
    using assms(2) by (simp add: itimediff_def off_def sint_nonneg_iff)
  have "off b (b + w) < HALF" using assms(3) by (simp add: off_base)
  from itimediff_off [OF x this] assms(1) have "int (off b x) < int (unat w)" by (simp add: off_base)
  then show ?thesis by linarith
qed


lemma off_Suc: "0 < off b x \<Longrightarrow> off (b + 1) x = off b x - 1"
proof -
  assume "0 < off b x"
  then have "unat (x - b - 1) = unat (x - b) - 1"
    unfolding off_def by (metis unat_gt_0 unat_minus_one)
  then show ?thesis by (simp add: off_def diff_diff_eq)
qed

section \<open>The invariant\<close>

definition wf_seg :: "IKCPSEG \<Rightarrow> bool" where
  "wf_seg s \<longleftrightarrow> unat (seg_len s) = length (seg_data s)"

definition ordered :: "u32 \<Rightarrow> IKCPSEG list \<Rightarrow> bool" where
  "ordered b xs \<longleftrightarrow> sorted_wrt (<) (map (\<lambda>s. off b (seg_sn s)) xs)
     \<and> (\<forall>s\<in>set xs. off b (seg_sn s) < HALF)"

definition snd_inv :: "IKCPCB \<Rightarrow> bool" where
  "snd_inv k \<longleftrightarrow> nsnd_que k = of_nat (length (snd_queue k)) \<and> nsnd_buf k = of_nat (length (snd_buf k))
     \<and> (\<forall>s\<in>set (snd_queue k) \<union> set (snd_buf k). wf_seg s)
     \<and> unat (rmt_wnd k) < 65536 \<and> off (snd_una k) (snd_nxt k) \<le> 65536
     \<and> ordered (snd_una k) (snd_buf k)
     \<and> (\<forall>s\<in>set (snd_buf k). off (snd_una k) (seg_sn s) < off (snd_una k) (snd_nxt k))"

definition una_inv :: "IKCPCB \<Rightarrow> bool" where
  "una_inv k \<longleftrightarrow> snd_una k = hd (map seg_sn (snd_buf k) @ [snd_nxt k])"

definition rcv_inv :: "IKCPCB \<Rightarrow> bool" where
  "rcv_inv k \<longleftrightarrow> nrcv_que k = of_nat (length (rcv_queue k)) \<and> nrcv_buf k = of_nat (length (rcv_buf k))
     \<and> (\<forall>s\<in>set (rcv_queue k) \<union> set (rcv_buf k). wf_seg s)
     \<and> length (rcv_queue k) \<le> HALF \<and> 128 \<le> unat (rcv_wnd k) \<and> unat (rcv_wnd k) < HALF
     \<and> ordered (rcv_nxt k) (rcv_buf k)"

definition ack_inv :: "IKCPCB \<Rightarrow> bool" where
  "ack_inv k \<longleftrightarrow> length (acklist k) = 2 * unat (ackblock k) \<and> unat (ackcount k) \<le> unat (ackblock k)
     \<and> (\<forall>i < 2 * unat (ackcount k). acklist k ! i \<noteq> None)"

definition cfg_inv :: "IKCPCB \<Rightarrow> bool" where
  "cfg_inv k \<longleftrightarrow> mss k = mtu k - IKCP_OVERHEAD \<and> 50 \<le> unat (mtu k) \<and> unat (mtu k) < 2 ^ 30
     \<and> kbuffer k = 3 * (unat (mtu k) + 36)
     \<and> 1 \<le> rx_minrto k \<and> rx_minrto k \<le> 60000 \<and> 1 \<le> rx_rto k \<and> rx_rto k \<le> 60000
     \<and> 10 \<le> unat (interval k) \<and> unat (interval k) \<le> 5000"

definition kcp_inv :: "IKCPCB \<Rightarrow> bool" where
  "kcp_inv k \<longleftrightarrow> snd_inv k \<and> una_inv k \<and> rcv_inv k \<and> ack_inv k \<and> cfg_inv k"

lemmas kcp_parts = snd_inv_def una_inv_def rcv_inv_def ack_inv_def cfg_inv_def

lemma ordered_Nil [simp]: "ordered b []"
  by (simp add: ordered_def)

lemma ordered_Cons: "ordered b (s # xs) \<longleftrightarrow> off b (seg_sn s) < HALF \<and> ordered b xs
    \<and> (\<forall>x\<in>set xs. off b (seg_sn s) < off b (seg_sn x))"
  by (auto simp: ordered_def)

lemma ordered_append: "ordered b (xs @ ys) \<longleftrightarrow> ordered b xs \<and> ordered b ys
    \<and> (\<forall>x\<in>set xs. \<forall>y\<in>set ys. off b (seg_sn x) < off b (seg_sn y))"
  by (auto simp: ordered_def sorted_wrt_append)

lemma ordered_cong: "map seg_sn xs = map seg_sn ys \<Longrightarrow> ordered b xs = ordered b ys"
proof -
  assume a: "map seg_sn xs = map seg_sn ys"
  have "map (\<lambda>s. off b (seg_sn s)) xs = map (off b) (map seg_sn xs)" for xs by simp
  moreover have "(\<forall>s\<in>set xs. off b (seg_sn s) < HALF) \<longleftrightarrow> (\<forall>n\<in>set (map seg_sn xs). off b n < HALF)" for xs
    by simp
  ultimately show ?thesis unfolding ordered_def using a by metis
qed

lemma ordered_step:
  assumes "ordered b xs" "\<And>x. x \<in> set xs \<Longrightarrow> 0 < off b (seg_sn x)"
  shows "ordered (b + 1) xs"
  using assms
proof (induction xs)
  case Nil
  then show ?case by simp
next
  case (Cons a xs)
  have "off b (seg_sn a) - 1 < off b (seg_sn x) - 1" if "x \<in> set xs" for x
    using Cons.prems(1) Cons.prems(2) [of a] that by (auto simp: ordered_Cons intro!: diff_less_mono)
  then show ?case using Cons by (auto simp: ordered_Cons off_Suc)
qed

text \<open>A freshly created control block satisfies it.\<close>

lemma create_inv: "kcp_inv (ikcp_create cv)"
  by (simp add: kcp_inv_def kcp_parts ikcp_create_def IKCP_MTU_DEF_def IKCP_OVERHEAD_def IKCP_WND_RCV_def
      IKCP_RTO_MIN_def IKCP_RTO_DEF_def IKCP_INTERVAL_def off_def)

section \<open>The receive buffer\<close>

definition move_one :: "IKCPSEG \<Rightarrow> IKCPSEG list \<Rightarrow> IKCPCB \<Rightarrow> IKCPCB" where
  "move_one s q k = k\<lparr>rcv_buf := q, nrcv_buf := nrcv_buf k - 1,
     rcv_queue := rcv_queue k @ [s], nrcv_que := nrcv_que k + 1, rcv_nxt := rcv_nxt k + 1\<rparr>"

lemma move_ready_induct:
  assumes "P k"
    and "\<And>k s q. P k \<Longrightarrow> rcv_buf k = s # q \<Longrightarrow> seg_sn s = rcv_nxt k \<Longrightarrow> nrcv_que k < rcv_wnd k
      \<Longrightarrow> P (move_one s q k)"
  shows "P (move_ready (rcv_buf k) k)"
proof -
  have "rcv_buf k = q \<Longrightarrow> P k \<Longrightarrow> P (move_ready q k)" for q
  proof (induction q arbitrary: k)
    case Nil
    then show ?case by simp
  next
    case (Cons s q)
    show ?case
    proof (cases "seg_sn s = rcv_nxt k \<and> nrcv_que k < rcv_wnd k")
      case True
      then have "P (move_one s q k)" using assms(2) Cons.prems by blast
      moreover have "rcv_buf (move_one s q k) = q" by (simp add: move_one_def)
      ultimately have "P (move_ready q (move_one s q k))" by (rule Cons.IH [rotated])
      then show ?thesis using True by (simp add: move_one_def)
    next
      case False
      then show ?thesis using Cons.prems by auto
    qed
  qed
  then show ?thesis using assms(1) by blast
qed

lemma move_one_inv:
  assumes "rcv_inv k" "rcv_buf k = s # q" "seg_sn s = rcv_nxt k" "nrcv_que k < rcv_wnd k"
  shows "rcv_inv (move_one s q k)"
proof -
  have "length (rcv_queue k) < 2 ^ 32" using assms(1) by (simp add: rcv_inv_def)
  then have "unat (nrcv_que k) = length (rcv_queue k)"
    using assms(1) by (simp add: rcv_inv_def unat_of_nat)
  then have "length (rcv_queue k) < HALF"
    using assms(1,4) by (simp add: rcv_inv_def word_less_nat_alt)
  moreover have "ordered (rcv_nxt k + 1) q"
    by (rule ordered_step) (use assms(1-3) in \<open>auto simp: rcv_inv_def ordered_Cons\<close>)
  ultimately show ?thesis
    using assms(1,2) by (auto simp: rcv_inv_def move_one_def)
qed

lemma move_ready_inv: "rcv_inv k \<Longrightarrow> rcv_inv (move_ready (rcv_buf k) k)"
  by (rule move_ready_induct [where P = rcv_inv]) (auto intro: move_one_inv)

lemma move_ready_same [simp]:
  "kconv (move_ready q k) = kconv k" "mtu (move_ready q k) = mtu k" "mss (move_ready q k) = mss k"
  "kstate (move_ready q k) = kstate k" "snd_una (move_ready q k) = snd_una k"
  "snd_nxt (move_ready q k) = snd_nxt k" "ts_recent (move_ready q k) = ts_recent k"
  "ts_lastack (move_ready q k) = ts_lastack k" "ssthresh (move_ready q k) = ssthresh k"
  "rx_rttval (move_ready q k) = rx_rttval k" "rx_srtt (move_ready q k) = rx_srtt k"
  "rx_rto (move_ready q k) = rx_rto k" "rx_minrto (move_ready q k) = rx_minrto k"
  "snd_wnd (move_ready q k) = snd_wnd k" "rcv_wnd (move_ready q k) = rcv_wnd k"
  "rmt_wnd (move_ready q k) = rmt_wnd k" "cwnd (move_ready q k) = cwnd k"
  "probe (move_ready q k) = probe k" "kcurrent (move_ready q k) = kcurrent k"
  "interval (move_ready q k) = interval k" "ts_flush (move_ready q k) = ts_flush k"
  "kxmit (move_ready q k) = kxmit k" "nsnd_buf (move_ready q k) = nsnd_buf k"
  "nsnd_que (move_ready q k) = nsnd_que k" "nodelay (move_ready q k) = nodelay k"
  "updated (move_ready q k) = updated k" "ts_probe (move_ready q k) = ts_probe k"
  "probe_wait (move_ready q k) = probe_wait k" "dead_link (move_ready q k) = dead_link k"
  "incr (move_ready q k) = incr k" "snd_queue (move_ready q k) = snd_queue k"
  "snd_buf (move_ready q k) = snd_buf k" "acklist (move_ready q k) = acklist k"
  "ackcount (move_ready q k) = ackcount k" "ackblock (move_ready q k) = ackblock k"
  "kbuffer (move_ready q k) = kbuffer k" "fastresend (move_ready q k) = fastresend k"
  "nocwnd (move_ready q k) = nocwnd k" "stream (move_ready q k) = stream k"
  "logmask (move_ready q k) = logmask k" "koutput (move_ready q k) = koutput k"
  "writelog (move_ready q k) = writelog k"
  by (induction q arbitrary: k; simp)+

lemma move_ready_frame:
  "snd_inv (move_ready q k) = snd_inv k" "una_inv (move_ready q k) = una_inv k"
  "ack_inv (move_ready q k) = ack_inv k" "cfg_inv (move_ready q k) = cfg_inv k"
  by (simp_all add: snd_inv_def una_inv_def ack_inv_def cfg_inv_def)


text \<open>
  The backward search stops at the right place of an ordered buffer: before it everything is
  older, behind it everything is newer, and \<^verbatim>\<open>repeat\<close> is set exactly when the number is present.
\<close>

lemma parse_data_scan_ok:
  assumes "ordered b (rev rs @ aft)" "off b sn < HALF"
    and "\<forall>x\<in>set aft. off b sn < off b (seg_sn x)"
    and "parse_data_scan sn rs aft = (rpt, r, aft')"
  shows "rev r @ aft' = rev rs @ aft \<and> (\<forall>x\<in>set aft'. off b sn < off b (seg_sn x))
    \<and> rpt = (sn \<in> seg_sn ` set (rs @ aft)) \<and> (\<not> rpt \<longrightarrow> (\<forall>x\<in>set r. off b (seg_sn x) < off b sn))"
  using assms
proof (induction rs arbitrary: aft)
  case Nil
  then show ?case by auto
next
  case (Cons s rs)
  have s: "off b (seg_sn s) < HALF"
    and older: "\<forall>x\<in>set rs. off b (seg_sn x) < off b (seg_sn s)"
    using Cons.prems(1) by (auto simp: ordered_append ordered_Cons)
  note d = itimediff_off [OF Cons.prems(2) s]
  consider "seg_sn s = sn" | "seg_sn s \<noteq> sn" "off b sn > off b (seg_sn s)"
    | "seg_sn s \<noteq> sn" "off b sn < off b (seg_sn s)"
    using off_eq_iff by (metis linorder_less_linear)
  then show ?case
  proof cases
    case 1
    then show ?thesis using Cons.prems by auto
  next
    case 2
    then have "sn \<notin> seg_sn ` set (rs @ aft)" using older Cons.prems(3) by force
    moreover have "\<forall>x\<in>set (s # rs). off b (seg_sn x) < off b sn"
      using 2 older by (auto intro: less_trans)
    ultimately show ?thesis using 2 d Cons.prems by auto
  next
    case 3
    then have "parse_data_scan sn rs (s # aft) = (rpt, r, aft')" using Cons.prems(4) d by simp
    moreover have "ordered b (rev rs @ s # aft)" using Cons.prems(1) by simp
    ultimately show ?thesis using Cons.IH [of "s # aft"] Cons.prems(2,3) 3 by auto
  qed
qed

text \<open>The specification of the insertion: the new segment goes to its place in the order, once.\<close>

definition insert_seg :: "u32 \<Rightarrow> IKCPSEG \<Rightarrow> IKCPSEG list \<Rightarrow> IKCPSEG list" where
  "insert_seg b s xs =
     (if seg_sn s \<in> seg_sn ` set xs then xs
      else filter (\<lambda>x. off b (seg_sn x) < off b (seg_sn s)) xs @ s # filter (\<lambda>x. off b (seg_sn x) > off b (seg_sn s)) xs)"

lemma insert_seg_set: "set (insert_seg b s xs) \<subseteq> insert s (set xs)" "set xs \<subseteq> set (insert_seg b s xs)"
  by (auto simp: insert_seg_def off_eq_iff)

lemma insert_seg_ordered:
  assumes "ordered b xs" "off b (seg_sn s) < HALF"
  shows "ordered b (insert_seg b s xs)"
proof -
  have f: "ordered b (filter P xs)" for P
    using assms(1) by (induction xs) (auto simp: ordered_Cons)
  then show ?thesis using assms by (auto simp: insert_seg_def ordered_append ordered_Cons)
qed

lemma parse_data_insert:
  assumes "ordered b xs" "off b (seg_sn s) < HALF"
    and "parse_data_scan (seg_sn s) (rev xs) [] = (rpt, r, aft)"
  shows "(if rpt then xs else rev r @ s # aft) = insert_seg b s xs \<and> rpt = (seg_sn s \<in> seg_sn ` set xs)"
proof -
  have *: "rev r @ aft = xs" "\<forall>x\<in>set aft. off b (seg_sn s) < off b (seg_sn x)"
      "rpt = (seg_sn s \<in> seg_sn ` set xs)" "\<not> rpt \<longrightarrow> (\<forall>x\<in>set r. off b (seg_sn x) < off b (seg_sn s))"
    using parse_data_scan_ok [OF _ assms(2) _ assms(3)] assms(1) by auto
  have "rev r @ s # aft = insert_seg b s xs" if "\<not> rpt"
  proof -
    have "filter (\<lambda>x. off b (seg_sn x) < off b (seg_sn s)) xs = rev r"
      "filter (\<lambda>x. off b (seg_sn x) > off b (seg_sn s)) xs = aft"
      using * that by (auto simp flip: *(1) simp: filter_empty_conv intro!: filter_True)
    then show ?thesis using * that by (simp add: insert_seg_def)
  qed
  then show ?thesis using *(3) by (auto simp: insert_seg_def)
qed


lemma length_insert_seg:
  assumes "ordered b xs"
  shows "length (insert_seg b s xs) = (if seg_sn s \<in> seg_sn ` set xs then length xs else Suc (length xs))"
proof -
  have "filter (\<lambda>x. off b (seg_sn x) > off b (seg_sn s)) xs = filter (\<lambda>x. \<not> off b (seg_sn x) < off b (seg_sn s)) xs"
    if "seg_sn s \<notin> seg_sn ` set xs"
  proof (rule filter_cong)
    fix x assume "x \<in> set xs"
    then have "off b (seg_sn x) \<noteq> off b (seg_sn s)" using that by (metis image_eqI off_eq_iff)
    then show "(off b (seg_sn s) < off b (seg_sn x)) = (\<not> off b (seg_sn x) < off b (seg_sn s))" by auto
  qed simp
  then show ?thesis
    using sum_length_filter_compl [of "\<lambda>x. off b (seg_sn x) < off b (seg_sn s)" xs]
    by (auto simp: insert_seg_def)
qed

definition in_window :: "IKCPCB \<Rightarrow> u32 \<Rightarrow> bool" where
  "in_window k sn \<longleftrightarrow> off (rcv_nxt k) sn < unat (rcv_wnd k)"

lemma in_window_iff:
  assumes "rcv_inv k"
  shows "\<not> (itimediff sn (rcv_nxt k + rcv_wnd k) \<ge> 0 \<or> itimediff sn (rcv_nxt k) < 0) \<longleftrightarrow> in_window k sn"
proof
  show "in_window k sn" if "\<not> (itimediff sn (rcv_nxt k + rcv_wnd k) \<ge> 0 \<or> itimediff sn (rcv_nxt k) < 0)"
    using that assms off_window [of sn "rcv_nxt k" "rcv_wnd k"] by (simp add: in_window_def rcv_inv_def)
next
  assume w: "in_window k sn"
  have h: "off (rcv_nxt k) sn < HALF" "off (rcv_nxt k) (rcv_nxt k + rcv_wnd k) < HALF"
    using w assms by (auto simp: in_window_def rcv_inv_def off_base)
  have "itimediff sn (rcv_nxt k + rcv_wnd k) < 0"
    using itimediff_off [OF h] w by (simp add: in_window_def off_base unat_lt_iff)
      (metis of_nat_less_iff uint_nat)
  moreover have "itimediff sn (rcv_nxt k) \<ge> 0"
    using itimediff_off [OF h(1), of "rcv_nxt k"] by simp
  ultimately show "\<not> (itimediff sn (rcv_nxt k + rcv_wnd k) \<ge> 0 \<or> itimediff sn (rcv_nxt k) < 0)" by simp
qed

text \<open>\<^verbatim>\<open>ikcp_parse_data\<close> is the insertion followed by moving what has become consecutive.\<close>

definition put_seg :: "IKCPSEG \<Rightarrow> IKCPCB \<Rightarrow> IKCPCB" where
  "put_seg s k = (let xs = insert_seg (rcv_nxt k) s (rcv_buf k)
     in k\<lparr>rcv_buf := xs, nrcv_buf := of_nat (length xs)\<rparr>)"

lemma parse_data_eq:
  assumes "rcv_inv k"
  shows "ikcp_parse_data k s =
    (if in_window k (seg_sn s) then move_ready (rcv_buf (put_seg s k)) (put_seg s k) else k)"
proof (cases "in_window k (seg_sn s)")
  case False
  then show ?thesis using in_window_iff [OF assms, of "seg_sn s"] by (simp add: ikcp_parse_data_def Let_def)
next
  case True
  obtain rpt r aft where scan: "parse_data_scan (seg_sn s) (rev (rcv_buf k)) [] = (rpt, r, aft)"
    by (metis prod_cases3)
  have o: "ordered (rcv_nxt k) (rcv_buf k)" "off (rcv_nxt k) (seg_sn s) < HALF"
    and n: "nrcv_buf k = of_nat (length (rcv_buf k))"
    using assms True by (auto simp: rcv_inv_def in_window_def)
  note ins = parse_data_insert [OF o scan] and len = length_insert_seg [OF o(1), of s]
  have "(if \<not> rpt then k\<lparr>rcv_buf := rev r @ s # aft, nrcv_buf := nrcv_buf k + 1\<rparr> else k) = put_seg s k"
  proof (cases rpt)
    case True
    then have "insert_seg (rcv_nxt k) s (rcv_buf k) = rcv_buf k" using ins by metis
    then show ?thesis using True n by (simp add: put_seg_def)
  next
    case False
    then show ?thesis using ins n len by (auto simp: put_seg_def Let_def)
  qed
  then show ?thesis
    using True in_window_iff [OF assms, of "seg_sn s"] scan by (simp add: ikcp_parse_data_def Let_def)
qed

lemma put_seg_inv:
  assumes "rcv_inv k" "wf_seg s" "in_window k (seg_sn s)"
  shows "rcv_inv (put_seg s k)"
proof -
  have h: "off (rcv_nxt k) (seg_sn s) < HALF" using assms by (auto simp: rcv_inv_def in_window_def)
  have "ordered (rcv_nxt k) (insert_seg (rcv_nxt k) s (rcv_buf k))"
    using assms h by (intro insert_seg_ordered) (auto simp: rcv_inv_def)
  then show ?thesis
    using assms insert_seg_set(1) [of "rcv_nxt k" s "rcv_buf k"]
    by (auto simp: rcv_inv_def put_seg_def Let_def)
qed

lemma parse_data_inv: "rcv_inv k \<Longrightarrow> wf_seg s \<Longrightarrow> rcv_inv (ikcp_parse_data k s)"
  by (simp add: parse_data_eq move_ready_inv put_seg_inv)

section \<open>In-order delivery\<close>

text \<open>
  \<open>S i p\<close> says that \<open>p\<close>, a fragment count and data, is the \<open>i\<close>-th segment of the peer's stream.
  \<open>rcv_rel S m k\<close>: the user has taken \<open>m\<close> segments; the receive queue holds the next ones of the stream without a
  gap, \<^verbatim>\<open>rcv_nxt\<close> is the number of the first one missing, and every segment parked in the receive
  buffer is the one its sequence number says.
\<close>

definition payload :: "IKCPSEG \<Rightarrow> u32 \<times> bytes" where
  "payload s = (seg_frg s, seg_data s)"

definition rcv_rel :: "(nat \<Rightarrow> u32 \<times> bytes \<Rightarrow> bool) \<Rightarrow> nat \<Rightarrow> IKCPCB \<Rightarrow> bool" where
  "rcv_rel S m k \<longleftrightarrow> (let n = m + length (rcv_queue k) in
     rcv_nxt k = of_nat n \<and> (\<forall>j < length (rcv_queue k). S (m + j) (payload (rcv_queue k ! j)))
     \<and> (\<forall>s\<in>set (rcv_buf k). S (n + off (rcv_nxt k) (seg_sn s)) (payload s)))"

lemma move_one_rel:
  assumes "rcv_inv k" "rcv_rel S m k" "rcv_buf k = s # q" "seg_sn s = rcv_nxt k"
  shows "rcv_rel S m (move_one s q k)"
proof -
  let ?n = "m + length (rcv_queue k)"
  have pos: "0 < off (rcv_nxt k) (seg_sn x)" if "x \<in> set q" for x
    using that assms(1,3,4) by (auto simp: rcv_inv_def ordered_Cons)
  have "S (Suc ?n + off (rcv_nxt k + 1) (seg_sn x)) (payload x)" if "x \<in> set q" for x
    using assms(2,3) that pos [OF that] off_Suc [OF pos [OF that]] by (auto simp: rcv_rel_def Let_def)
  moreover have "S ?n (payload s)" using assms(2,3,4) by (auto simp: rcv_rel_def Let_def)
  ultimately show ?thesis
    using assms(2) by (auto simp: rcv_rel_def move_one_def Let_def nth_append less_Suc_eq)
qed

lemma move_ready_rel:
  assumes "rcv_inv k" "rcv_rel S m k"
  shows "rcv_rel S m (move_ready (rcv_buf k) k)"
proof -
  have "rcv_inv (move_ready (rcv_buf k) k) \<and> rcv_rel S m (move_ready (rcv_buf k) k)"
    by (rule move_ready_induct [where P = "\<lambda>k. rcv_inv k \<and> rcv_rel S m k"])
      (use assms in \<open>auto intro: move_one_inv move_one_rel\<close>)
  then show ?thesis ..
qed

lemma parse_data_rel:
  assumes "rcv_inv k" "rcv_rel S m k" "wf_seg s"
    and "in_window k (seg_sn s) \<Longrightarrow> S (m + length (rcv_queue k) + off (rcv_nxt k) (seg_sn s)) (payload s)"
  shows "rcv_rel S m (ikcp_parse_data k s)"
proof (cases "in_window k (seg_sn s)")
  case True
  then have "rcv_rel S m (put_seg s k)"
    using assms(2,4) insert_seg_set(1) [of "rcv_nxt k" s "rcv_buf k"]
    by (auto simp: rcv_rel_def put_seg_def Let_def)
  then show ?thesis
    using True assms by (simp add: parse_data_eq put_seg_inv move_ready_rel)
next
  case False
  then show ?thesis using assms by (simp add: parse_data_eq)
qed


section \<open>The send buffer\<close>

definition snd_rest :: "IKCPCB \<Rightarrow> IKCPSEG list \<Rightarrow> IKCPCB" where
  "snd_rest k xs = k\<lparr>snd_buf := xs, nsnd_buf := of_nat (length xs)\<rparr>"

text \<open>
  \<^verbatim>\<open>ikcp_parse_una\<close> drops exactly the segments older than \<^verbatim>\<open>una\<close>, \<^verbatim>\<open>ikcp_parse_ack\<close> exactly the one
  acknowledged; \<^verbatim>\<open>ikcp_shrink_buf\<close> then sets \<^verbatim>\<open>snd_una\<close> to the oldest one left.
\<close>

lemma parse_una_loop_eq:
  assumes "snd_buf k = q" "nsnd_buf k = of_nat (length q)"
  shows "parse_una_loop una q k = snd_rest k (dropWhile (\<lambda>s. itimediff una (seg_sn s) > 0) q)"
  using assms
proof (induction q arbitrary: k)
  case Nil
  then show ?case by (simp add: snd_rest_def)
next
  case (Cons s q)
  show ?case
  proof (cases "itimediff una (seg_sn s) > 0")
    case True
    then show ?thesis using Cons by (simp add: snd_rest_def)
  next
    case False
    then show ?thesis using Cons.prems by (simp add: snd_rest_def)
  qed
qed

lemma parse_una_eq:
  "snd_inv k \<Longrightarrow> ikcp_parse_una k una = snd_rest k (dropWhile (\<lambda>s. itimediff una (seg_sn s) > 0) (snd_buf k))"
  by (simp add: ikcp_parse_una_def parse_una_loop_eq snd_inv_def)

lemma parse_ack_loop_eq:
  assumes "ordered b xs" "off b sn < HALF" "parse_ack_loop sn xs = (q, del)"
  shows "q = filter (\<lambda>s. seg_sn s \<noteq> sn) xs \<and> length q + (if del then 1 else 0) = length xs"
  using assms
proof (induction xs arbitrary: q del)
  case Nil
  then show ?case by simp
next
  case (Cons s xs)
  have h: "off b (seg_sn s) < HALF" using Cons.prems(1) by (simp add: ordered_Cons)
  have later: "\<forall>x\<in>set xs. off b (seg_sn s) < off b (seg_sn x)" using Cons.prems(1) by (simp add: ordered_Cons)
  note d = itimediff_off [OF Cons.prems(2) h]
  have all: "filter (\<lambda>s. seg_sn s \<noteq> sn) xs = xs" if "off b sn \<le> off b (seg_sn s)"
    using later that by (intro filter_True) force
  consider "sn = seg_sn s" | "sn \<noteq> seg_sn s" "off b sn < off b (seg_sn s)"
    | "sn \<noteq> seg_sn s" "off b sn > off b (seg_sn s)"
    using off_eq_iff by (metis linorder_less_linear)
  then show ?case
  proof cases
    case 1
    then show ?thesis using Cons.prems(3) all by auto
  next
    case 2
    then show ?thesis using Cons.prems(3) all d by auto
  next
    case 3
    obtain q' del' where r: "parse_ack_loop sn xs = (q', del')" by fastforce
    then have "q' = filter (\<lambda>s. seg_sn s \<noteq> sn) xs \<and> length q' + (if del' then 1 else 0) = length xs"
      using Cons.IH Cons.prems(1,2) by (auto simp: ordered_Cons)
    then show ?thesis using 3 d r Cons.prems(3) by auto
  qed
qed

definition in_flight :: "IKCPCB \<Rightarrow> u32 \<Rightarrow> bool" where
  "in_flight k sn \<longleftrightarrow> off (snd_una k) sn < off (snd_una k) (snd_nxt k)"

lemma in_flight_iff:
  assumes "snd_inv k"
  shows "\<not> (itimediff sn (snd_una k) < 0 \<or> itimediff sn (snd_nxt k) \<ge> 0) \<longleftrightarrow> in_flight k sn"
proof -
  have n: "off (snd_una k) (snd_nxt k) < HALF" using assms by (simp add: snd_inv_def)
  have "itimediff sn (snd_una k) \<ge> 0 \<longleftrightarrow> off (snd_una k) sn < HALF"
    by (simp add: itimediff_def off_def sint_nonneg_iff)
  moreover have "itimediff sn (snd_nxt k) < 0 \<longleftrightarrow> off (snd_una k) sn < off (snd_una k) (snd_nxt k)"
    if "off (snd_una k) sn < HALF"
    using itimediff_off [OF that n] by simp
  ultimately show ?thesis using n by (auto simp: in_flight_def)
qed

lemma parse_ack_eq:
  assumes "snd_inv k"
  shows "ikcp_parse_ack k sn = (if in_flight k sn then snd_rest k (filter (\<lambda>s. seg_sn s \<noteq> sn) (snd_buf k)) else k)"
proof (cases "in_flight k sn")
  case False
  then show ?thesis using in_flight_iff [OF assms, of sn] by (auto simp: ikcp_parse_ack_def)
next
  case True
  obtain q del where r: "parse_ack_loop sn (snd_buf k) = (q, del)" by fastforce
  have "ordered (snd_una k) (snd_buf k)" "off (snd_una k) sn < HALF"
    using assms True by (auto simp: snd_inv_def in_flight_def)
  from parse_ack_loop_eq [OF this r]
  have q: "q = filter (\<lambda>s. seg_sn s \<noteq> sn) (snd_buf k)"
    and l: "length (snd_buf k) = length q + (if del then 1 else 0)" by auto
  have "nsnd_buf k = of_nat (length (snd_buf k))" using assms by (simp add: snd_inv_def)
  then have "(if del then nsnd_buf k - 1 else nsnd_buf k) = of_nat (length q)"
    unfolding l by (cases del) simp_all
  then show ?thesis
    using True q r in_flight_iff [OF assms, of sn] by (simp add: ikcp_parse_ack_def snd_rest_def)
qed

lemma parse_fastack_sn: "map seg_sn (parse_fastack_loop sn xs) = map seg_sn xs"
  "length (parse_fastack_loop sn xs) = length xs"
  "list_all2 (\<lambda>a b. seg_len a = seg_len b \<and> seg_data a = seg_data b \<and> seg_sn a = seg_sn b
     \<and> seg_frg a = seg_frg b \<and> seg_cmd a = seg_cmd b \<and> seg_conv a = seg_conv b)
     (parse_fastack_loop sn xs) xs"
  by (induction xs) (auto simp: list_all2_same)


lemma parse_fastack_wf: "(\<forall>s\<in>set (parse_fastack_loop sn xs). wf_seg s) = (\<forall>s\<in>set xs. wf_seg s)"
  by (induction xs) (auto simp: wf_seg_def)

lemma off_rebase:
  assumes "off b c \<le> off b x"
  shows "off c x = off b x - off b c"
proof -
  have "x - c = (x - b) - (c - b)" by simp
  moreover have "unat ((x - b) - (c - b)) = unat (x - b) - unat (c - b)"
    using assms by (intro unat_sub) (simp add: off_def word_le_nat_alt)
  ultimately show ?thesis by (simp add: off_def)
qed

lemma ordered_rebase:
  assumes "ordered b xs" "\<forall>x\<in>set xs. off b c \<le> off b (seg_sn x)"
  shows "ordered c xs"
  using assms
proof (induction xs)
  case Nil
  then show ?case by simp
next
  case (Cons s xs)
  have "off c (seg_sn s) < off c (seg_sn x)" if "x \<in> set xs" for x
  proof -
    have "off b c \<le> off b (seg_sn s)" "off b c \<le> off b (seg_sn x)" "off b (seg_sn s) < off b (seg_sn x)"
      using Cons.prems that by (auto simp: ordered_Cons)
    then show ?thesis by (simp add: off_rebase [of b c])
  qed
  moreover have "off c (seg_sn s) < HALF"
    using Cons.prems by (auto simp: ordered_Cons off_rebase [of b c] intro: le_less_trans [OF diff_le_self])
  ultimately show ?case using Cons by (simp add: ordered_Cons)
qed

lemma snd_rest_inv:
  assumes "snd_inv k" "ordered (snd_una k) ys" "set ys \<subseteq> set (snd_buf k)"
  shows "snd_inv (snd_rest k ys)"
  using assms by (auto simp: snd_inv_def snd_rest_def)

lemma ordered_filter: "ordered b xs \<Longrightarrow> ordered b (filter P xs)"
  by (induction xs) (auto simp: ordered_Cons)

lemma ordered_dropWhile: "ordered b xs \<Longrightarrow> ordered b (dropWhile P xs)"
  by (induction xs) (auto simp: ordered_Cons)

lemma parse_una_inv: "snd_inv k \<Longrightarrow> snd_inv (ikcp_parse_una k una)"
  unfolding parse_una_eq
  by (rule snd_rest_inv) (auto simp: snd_inv_def ordered_dropWhile dest: set_dropWhileD)

lemma parse_ack_inv: "snd_inv k \<Longrightarrow> snd_inv (ikcp_parse_ack k sn)"
  using snd_rest_inv [of k "filter (\<lambda>s. seg_sn s \<noteq> sn) (snd_buf k)"] ordered_filter [of "snd_una k" "snd_buf k"]
  by (auto simp: parse_ack_eq) (auto simp: snd_inv_def)

lemma shrink_inv:
  assumes "snd_inv k"
  shows "snd_inv (ikcp_shrink_buf k)" "una_inv (ikcp_shrink_buf k)"
proof -
  show "una_inv (ikcp_shrink_buf k)"
    by (auto simp: ikcp_shrink_buf_def una_inv_def split: list.split)
  show "snd_inv (ikcp_shrink_buf k)"
  proof (cases "snd_buf k")
    case Nil
    then show ?thesis using assms by (simp add: ikcp_shrink_buf_def snd_inv_def)
  next
    case (Cons s q)
    let ?b = "snd_una k" and ?c = "seg_sn s"
    have le: "off ?b ?c \<le> off ?b (seg_sn x)" if "x \<in> set (s # q)" for x
      using assms that Cons by (auto simp: snd_inv_def ordered_Cons)
    have nx: "off ?b ?c \<le> off ?b (snd_nxt k)" using assms Cons by (auto simp: snd_inv_def)
    have "off ?c (seg_sn x) < off ?c (snd_nxt k)" if "x \<in> set (s # q)" for x
    proof -
      have "off ?b (seg_sn x) < off ?b (snd_nxt k)" using assms Cons that by (auto simp: snd_inv_def)
      then show ?thesis using le [OF that] nx by (simp add: off_rebase [of ?b ?c])
    qed
    moreover have "off ?c (snd_nxt k) \<le> 65536" 
      using assms nx by (auto simp: off_rebase [of ?b ?c] snd_inv_def intro: le_trans [OF diff_le_self])
    moreover have "ordered ?b (s # q)" using assms Cons by (simp add: snd_inv_def)
    then have "ordered ?c (s # q)" using le by (blast intro: ordered_rebase)
    ultimately show ?thesis using assms Cons by (simp add: ikcp_shrink_buf_def snd_inv_def)
  qed
qed

lemma parse_fastack_inv:
  assumes "snd_inv k" "una_inv k"
  shows "snd_inv (ikcp_parse_fastack k sn)" "una_inv (ikcp_parse_fastack k sn)"
proof -
  let ?xs = "parse_fastack_loop sn (snd_buf k)"
  note sn = parse_fastack_sn [of sn "snd_buf k"]
  have wf: "\<forall>s\<in>set ?xs. wf_seg s" if "\<forall>s\<in>set (snd_buf k). wf_seg s"
    using that by (simp add: parse_fastack_wf)
  have "seg_sn ` set ?xs = seg_sn ` set (snd_buf k)" using sn(1) by (metis list.set_map)
  then have lt: "\<forall>s\<in>set ?xs. P (seg_sn s)" if "\<forall>s\<in>set (snd_buf k). P (seg_sn s)" for P
    using that by (metis (no_types, lifting) image_iff)
  have "ordered b ?xs = ordered b (snd_buf k)" for b using ordered_cong sn(1) by blast
  then have "snd_inv (k\<lparr>snd_buf := ?xs\<rparr>)"
    using assms(1) wf lt [of "\<lambda>n. off (snd_una k) n < off (snd_una k) (snd_nxt k)"]
    by (auto simp: snd_inv_def sn)
  then show "snd_inv (ikcp_parse_fastack k sn)" using assms(1) by (simp add: ikcp_parse_fastack_def)
  show "una_inv (ikcp_parse_fastack k sn)" using assms(2) by (simp add: ikcp_parse_fastack_def una_inv_def sn)
qed

section \<open>Acknowledgement list and round-trip estimate\<close>

lemma ack_block_loop_ok:
  assumes "unat ns \<le> unat nb * 2 ^ j" "unat nb * 2 ^ j < 2 ^ 32" "j < k"
  shows "\<exists>r. ack_block_loop k nb ns = Some r \<and> ns \<le> r"
  using assms
proof (induction k arbitrary: nb j)
  case 0
  then show ?case by simp
next
  case (Suc k)
  show ?case
  proof (cases "nb < ns")
    case False
    then show ?thesis by simp
  next
    case True
    then obtain i where j: "j = Suc i" using Suc.prems(1) by (cases j) (auto simp: word_less_nat_alt)
    have "unat nb * 2 \<le> unat nb * 2 ^ j" using j by simp
    then have "unat nb * 2 < 2 ^ 32" using Suc.prems(2) by linarith
    then have d: "unat (push_bit 1 nb) = unat nb * 2"
      using unat_mult_lem [of nb 2] by (simp add: push_bit_eq_mult)
    have "\<exists>r. ack_block_loop k (push_bit 1 nb) ns = Some r \<and> ns \<le> r"
      by (rule Suc.IH [of _ i]) (use Suc.prems j d in \<open>simp_all add: mult.assoc\<close>)
    then show ?thesis using True by simp
  qed
qed

lemma ack_copy_ok:
  assumes "2 * n \<le> length src" "2 * n \<le> length dst"
  shows "ack_copy n src dst = Some (take (2 * n) src @ drop (2 * n) dst)"
  using assms
proof (induction n)
  case 0
  then show ?case by simp
next
  case (Suc n)
  let ?d = "take (2 * n) src @ drop (2 * n) dst"
  have l: "length ?d = length dst" using Suc.prems by simp
  have "?d[n * 2 := src ! (n * 2), n * 2 + 1 := src ! (n * 2 + 1)] = take (2 * Suc n) src @ drop (2 * Suc n) dst"
  proof (rule nth_equalityI)
    show "length (?d[n * 2 := src ! (n * 2), n * 2 + 1 := src ! (n * 2 + 1)])
        = length (take (2 * Suc n) src @ drop (2 * Suc n) dst)"
      using Suc.prems by simp
    fix i assume "i < length (?d[n * 2 := src ! (n * 2), n * 2 + 1 := src ! (n * 2 + 1)])"
    then have i: "i < length dst" using Suc.prems by simp
    show "?d[n * 2 := src ! (n * 2), n * 2 + 1 := src ! (n * 2 + 1)] ! i
        = (take (2 * Suc n) src @ drop (2 * Suc n) dst) ! i"
    proof (cases "i < 2 * Suc n")
      case True
      then show ?thesis using Suc.prems i by (auto simp: nth_list_update nth_append min_def)
    next
      case False
      then obtain j where "i = 2 * Suc n + j" by (metis le_add_diff_inverse not_less)
      then show ?thesis using Suc.prems i by (simp add: nth_append)
    qed
  qed
  then show ?case using Suc l by simp
qed


lemma ack_push_ok:
  assumes inv: "ack_inv k" and small: "unat (ackcount k) < 2 ^ 30"
  shows "\<exists>al ab. ikcp_ack_push k sn ts = Some (k\<lparr>acklist := al, ackblock := ab, ackcount := ackcount k + 1\<rparr>)
    \<and> ack_inv (k\<lparr>acklist := al, ackblock := ab, ackcount := ackcount k + 1\<rparr>)
    \<and> take (2 * unat (ackcount k)) al = take (2 * unat (ackcount k)) (acklist k)
    \<and> al ! (2 * unat (ackcount k)) = Some sn \<and> al ! (2 * unat (ackcount k) + 1) = Some ts"
proof -
  let ?c = "unat (ackcount k)"
  have c1: "unat (ackcount k + 1) = ?c + 1" using small unat_add_lem [of "ackcount k" 1] by simp
  have c2: "unat (ackcount k * 2) = 2 * ?c" using small unat_mult_lem [of "ackcount k" 2] by simp
  obtain al ab where g: "(if ackcount k + 1 > ackblock k then ack_grow k (ackcount k + 1) else Some k)
        = Some (k\<lparr>acklist := al, ackblock := ab\<rparr>)"
      and al: "length al = 2 * unat ab" "?c + 1 \<le> unat ab" "take (2 * ?c) al = take (2 * ?c) (acklist k)"
  proof (cases "ackcount k + 1 > ackblock k")
    case False
    then have "?c + 1 \<le> unat (ackblock k)" using c1 by (simp add: word_le_nat_alt not_less)
    then show ?thesis using that [of "ackblock k" "acklist k"] False inv by (simp add: ack_inv_def)
  next
    case True
    obtain nb where nb: "ack_block_loop 30 8 (ackcount k + 1) = Some nb" "ackcount k + 1 \<le> nb"
      using ack_block_loop_ok [of "ackcount k + 1" 8 28 30] c1 small by auto
    let ?blk = "replicate (unat nb * 2) None"
    have le: "?c + 1 \<le> unat nb" using nb(2) c1 by (simp add: word_le_nat_alt)
    have cp: "ack_copy ?c (acklist k) ?blk = Some (take (2 * ?c) (acklist k) @ drop (2 * ?c) ?blk)"
      using inv le by (intro ack_copy_ok) (auto simp: ack_inv_def)
    define al where "al = (if acklist k \<noteq> [] then take (2 * ?c) (acklist k) @ drop (2 * ?c) ?blk else ?blk)"
    have "ack_grow k (ackcount k + 1) = Some (k\<lparr>acklist := al, ackblock := nb\<rparr>)"
      using nb(1) cp by (simp add: ack_grow_def al_def)
    moreover have "length al = 2 * unat nb" using inv le by (auto simp: al_def ack_inv_def)
    moreover have "take (2 * ?c) al = take (2 * ?c) (acklist k)"
      using inv by (auto simp: al_def ack_inv_def)
    ultimately show ?thesis using that [of nb al] True le by simp
  qed
  define al' where "al' = al[2 * ?c := Some sn, 2 * ?c + 1 := Some ts]"
  have t: "take (2 * ?c) al' = take (2 * ?c) al" by (simp add: al'_def)
  have old: "al' ! i \<noteq> None" if "i < 2 * ?c" for i
  proof -
    have "al' ! i = acklist k ! i" using that t al(3) by (metis nth_take)
    then show ?thesis using inv that by (simp add: ack_inv_def)
  qed
  have new: "al' ! (2 * ?c) = Some sn" "al' ! (2 * ?c + 1) = Some ts" "length al' = 2 * unat ab"
    using al(1,2) by (simp_all add: al'_def)
  have "al' ! i \<noteq> None" if i: "i < 2 * (?c + 1)" for i
  proof -
    have "i < 2 * ?c \<or> i = 2 * ?c \<or> i = 2 * ?c + 1" using i by arith
    then show ?thesis using old new by auto
  qed
  then have "ack_inv (k\<lparr>acklist := al', ackblock := ab, ackcount := ackcount k + 1\<rparr>)"
    using new al by (simp add: ack_inv_def c1)
  moreover have "ikcp_ack_push k sn ts = Some (k\<lparr>acklist := al', ackblock := ab, ackcount := ackcount k + 1\<rparr>)"
    using g al(1,2) by (simp add: ikcp_ack_push_def c2 al'_def Let_def)
  ultimately show ?thesis using new t al(3) by metis
qed

definition rtt_inv :: "IKCPCB \<Rightarrow> bool" where
  "rtt_inv k \<longleftrightarrow> 0 \<le> rx_srtt k \<and> rx_srtt k \<le> 2 ^ 27 \<and> 0 \<le> rx_rttval k \<and> rx_rttval k \<le> 2 ^ 27"

lemma cdiv_nonneg: "0 \<le> a \<Longrightarrow> 0 < b \<Longrightarrow> cdiv a b = a div b"
  by (cases "a = 0") (simp_all add: cdiv_def)

lemma unat_word_of_int_small:
  assumes "0 \<le> x" "x < 2 ^ 32"
  shows "unat (word_of_int x :: u32) = nat x"
proof -
  obtain n where "x = int n" using assms(1) nonneg_int_cases by blast
  then show ?thesis using assms(2) by (simp add: unat_of_nat)
qed

lemma ibound_range:
  assumes "unat lo \<le> 60000"
  shows "int (unat lo) \<le> sint (ibound lo x IKCP_RTO_MAX) \<and> sint (ibound lo x IKCP_RTO_MAX) \<le> 60000"
proof -
  have u: "unat lo \<le> unat (ibound lo x IKCP_RTO_MAX)" "unat (ibound lo x IKCP_RTO_MAX) \<le> 60000"
    using assms by (auto simp: ibound_def imin_def imax_def IKCP_RTO_MAX_def word_le_nat_alt)
  then have "sint (ibound lo x IKCP_RTO_MAX) = int (unat (ibound lo x IKCP_RTO_MAX))"
    by (intro sint_small) simp
  then show ?thesis using u by linarith
qed

lemma update_ack_bounds:
  assumes "ikcp_update_ack k rtt = Some k'" "1 \<le> rx_minrto k" "rx_minrto k \<le> 60000"
  shows "rx_minrto k \<le> rx_rto k' \<and> rx_rto k' \<le> 60000 \<and> (\<exists>a b c. k' = k\<lparr>rx_srtt := a, rx_rttval := b, rx_rto := c\<rparr>)"
proof -
  have u: "unat (word_of_int (rx_minrto k) :: u32) = nat (rx_minrto k)"
    using assms(2,3) by (intro unat_word_of_int_small) auto
  then have "unat (word_of_int (rx_minrto k) :: u32) \<le> 60000" using assms(3) by simp
  note b = ibound_range [OF this, unfolded u]
  then show ?thesis using assms(1,2) by (auto simp: ikcp_update_ack_def bind_Some_iff Let_def)
qed

lemma i32_ok: "- (2 ^ 31) \<le> x \<Longrightarrow> x < 2 ^ 31 \<Longrightarrow> i32 x = Some x"
  by (simp add: i32_def)

lemma update_rtt_ok:
  assumes "rtt_inv k" "0 \<le> rtt" "rtt \<le> 2 ^ 27"
  shows "\<exists>a b. update_rtt k rtt = Some (a, b) \<and> 0 \<le> a \<and> a \<le> 2 ^ 27 \<and> 0 \<le> b \<and> b \<le> 2 ^ 27"
proof (cases "rx_srtt k = 0")
  case True
  then show ?thesis using assms by (auto simp: update_rtt_def cdiv_nonneg)
next
  case False
  define d where "d = \<bar>rtt - rx_srtt k\<bar>"
  have d: "0 \<le> d" "d \<le> 2 ^ 27" "- (2 ^ 31) \<le> rtt - rx_srtt k" "rtt - rx_srtt k < 2 ^ 31"
    using assms by (auto simp: rtt_inv_def d_def)
  have e: "i32 (rtt - rx_srtt k) = Some (rtt - rx_srtt k)"
    "(if rtt - rx_srtt k < 0 then i32 (- (rtt - rx_srtt k)) else Some (rtt - rx_srtt k)) = Some d"
    "i32 (3 * rx_rttval k) = Some (3 * rx_rttval k)" "i32 (3 * rx_rttval k + d) = Some (3 * rx_rttval k + d)"
    "i32 (7 * rx_srtt k) = Some (7 * rx_srtt k)" "i32 (7 * rx_srtt k + rtt) = Some (7 * rx_srtt k + rtt)"
    using assms d unfolding rtt_inv_def i32_def d_def by auto
  have "(3 * rx_rttval k + d) div 4 \<le> 2 ^ 27" "(7 * rx_srtt k + rtt) div 8 \<le> 2 ^ 27"
    using assms d unfolding rtt_inv_def by auto
  then show ?thesis
    using assms(1,2) d(1) False e by (auto simp: update_rtt_def Let_def cdiv_nonneg rtt_inv_def)
qed

lemma update_ack_ok:
  assumes "rtt_inv k" "0 \<le> rtt" "rtt \<le> 2 ^ 27"
  shows "\<exists>k'. ikcp_update_ack k rtt = Some k' \<and> rtt_inv k'"
proof -
  obtain a b where ab: "update_rtt k rtt = Some (a, b)" "0 \<le> a" "a \<le> 2 ^ 27" "0 \<le> b" "b \<le> 2 ^ 27"
    using update_rtt_ok [OF assms] by blast
  moreover have "i32 (4 * b) = Some (4 * b)" using ab by (intro i32_ok) auto
  ultimately show ?thesis by (simp add: ikcp_update_ack_def Let_def rtt_inv_def)
qed


section \<open>Incoming datagrams\<close>

text \<open>
  The reference decoder: the segments of a datagram in order, with the bytes that follow each
  header as its data (cut short when the datagram ends too early, and then the last one).
\<close>

definition decode_seg :: "bytes \<Rightarrow> (IKCPSEG \<times> bytes) option" where
  "decode_seg data = do { (cv, body) \<leftarrow> ikcp_decodeGuid data; decode_head cv body }"

lemma decode_seg_shorter: "decode_seg data = Some (h, rest) \<Longrightarrow> length rest + 36 = length data"
  using decode_shorter by (fastforce simp: decode_seg_def bind_Some_iff)

function dgram :: "bytes \<Rightarrow> IKCPSEG list" where
  "dgram data = (case decode_seg data of None \<Rightarrow> []
     | Some (h, rest) \<Rightarrow> h\<lparr>seg_data := take (unat (seg_len h)) rest\<rparr> #
         (if length rest < unat (seg_len h) then [] else dgram (drop (unat (seg_len h)) rest)))"
  by pat_completeness auto
termination
  by (relation "measure length") (auto dest: decode_seg_shorter)

declare dgram.simps [simp del] input_loop.simps [simp del]

lemma decode_seg_total:
  assumes "36 \<le> length data"
  shows "\<exists>h rest. decode_seg data = Some (h, rest)"
proof -
  obtain c f d where d: "drop 16 data = c # f # d"
    using assms by (cases "drop 16 data"; cases "tl (drop 16 data)") (auto dest: arg_cong [of _ _ length])
  have "length (drop 16 data) = Suc (Suc (length d))" unfolding d by simp
  then have "18 \<le> length d" using assms by simp
  then show ?thesis
    using assms d by (simp add: decode_seg_def ikcp_decodeGuid_def Fill_def decode_head_def
        ikcp_decode8u_def ikcp_decode16u_def ikcp_decode32u_def) arith
qed

lemma decode_seg_conv: "ikcp_decodeGuid data = Some (cv, body) \<Longrightarrow> decode_head cv body = Some (h, rest)
    \<Longrightarrow> decode_seg data = Some (h, rest)"
  by (simp add: decode_seg_def)

definition loop_state :: "(int \<times> IKCPCB) + (IKCPCB \<times> bool \<times> u32) \<Rightarrow> IKCPCB" where
  "loop_state r = (case r of Inl (c, k) \<Rightarrow> k | Inr (k, f, m) \<Rightarrow> k)"

definition known_cmd :: "u32 \<Rightarrow> bool" where
  "known_cmd c \<longleftrightarrow> c \<in> {IKCP_CMD_PUSH, IKCP_CMD_ACK, IKCP_CMD_WASK, IKCP_CMD_WINS}"

text \<open>What each segment keeps, the loop keeps; \<open>n\<close> counts the segments still to come.\<close>

lemma input_loop_keeps:
  assumes "input_loop k f m data sz = Some r" "P n k" "length (dgram data) \<le> n" "\<forall>s\<in>set (dgram data). Q s"
    and step: "\<And>n k h rest f m k' f' m'. P (Suc n) k \<Longrightarrow> Q (h\<lparr>seg_data := take (unat (seg_len h)) rest\<rparr>)
      \<Longrightarrow> seg_conv h = kconv k \<Longrightarrow> known_cmd (seg_cmd h)
      \<Longrightarrow> input_seg k h rest f m = Some (k', f', m') \<Longrightarrow> unat (seg_len h) \<le> length rest \<Longrightarrow> P n k'"
  shows "\<exists>n'. P n' (loop_state r)"
  using assms(1-4)
proof (induction k f m data sz arbitrary: n rule: input_loop.induct)
  case (1 k f m data sz)
  show ?case
  proof (cases "sz < sint IKCP_OVERHEAD")
    case True
    then have "r = Inr (k, f, m)" using "1.prems"(1) by (simp add: input_loop.simps)
    then show ?thesis using "1.prems"(2) by (auto simp: loop_state_def)
  next
    case sz: False
    then obtain cv body where g: "ikcp_decodeGuid data = Some (cv, body)"
      using "1.prems"(1) by (subst (asm) input_loop.simps) (auto split: option.splits)
    show ?thesis
    proof (cases "Guid_ne cv (kconv k)")
      case True
      then have "r = Inl (-1, k)" using "1.prems"(1) sz g by (simp add: input_loop.simps)
      then show ?thesis using "1.prems"(2) by (auto simp: loop_state_def)
    next
      case cv: False
      then obtain h rest where h: "decode_head cv body = Some (h, rest)"
        using "1.prems"(1) sz g by (subst (asm) input_loop.simps) (auto split: option.splits)
      have hc: "seg_conv h = kconv k"
        using h cv by (auto simp: decode_head_def bind_Some_iff Guid_ne_iff)
      note dec = decode_seg_conv [OF g h]
      let ?n = "unat (seg_len h)" and ?sz = "sz - sint IKCP_OVERHEAD"
      show ?thesis
      proof (cases "?sz < sint (seg_len h) \<or> \<not> known_cmd (seg_cmd h)")
        case True
        then have "\<exists>c. r = Inl (c, k)"
          using "1.prems"(1) sz g cv h by (auto simp: input_loop.simps Let_def known_cmd_def split: if_splits)
        then show ?thesis using "1.prems"(2) by (auto simp: loop_state_def)
      next
        case ok: False
        then obtain k' f' m' where s: "input_seg k h rest f m = Some (k', f', m')"
          and l: "\<not> length rest < ?n"
          and r: "input_loop k' f' m' (drop ?n rest) (sint (word_of_int ?sz - seg_len h)) = Some r"
          using "1.prems"(1) sz g cv h
          by (subst (asm) input_loop.simps)
            (auto simp: Let_def known_cmd_def split: option.splits if_splits)
        have d: "dgram data = h\<lparr>seg_data := take ?n rest\<rparr> # dgram (drop ?n rest)"
          using dec l by (simp add: dgram.simps [of data])
        then obtain n0 where n: "n = Suc n0" using "1.prems"(3) by (cases n) auto
        have "P n0 k'"
          by (rule step) (use "1.prems"(2,4) n d hc ok s l in auto)
        then show ?thesis
          using "1.IH" [of "(cv, body)" cv body "(h, rest)" h rest ?sz "(k', f', m')" k' "(f', m')" f' m' n0]
            sz g cv h ok s l r d n "1.prems"(3,4) by (auto simp: known_cmd_def)
      qed
    qed
  qed
qed


lemma input_loop_total:
  assumes "sz = int (length data)" "sz < 2 ^ 31" "P n k" "length (dgram data) \<le> n"
    and "\<forall>s\<in>set (dgram data). Q s \<and> unat (seg_len s) < HALF"
    and step: "\<And>n k h rest f m. P (Suc n) k \<Longrightarrow> Q (h\<lparr>seg_data := take (unat (seg_len h)) rest\<rparr>)
      \<Longrightarrow> unat (seg_len h) \<le> length rest \<Longrightarrow> \<exists>k' f' m'. input_seg k h rest f m = Some (k', f', m') \<and> P n k'"
  shows "\<exists>r. input_loop k f m data sz = Some r"
  using assms(1-5)
proof (induction k f m data sz arbitrary: n rule: input_loop.induct)
  case (1 k f m data sz)
  show ?case
  proof (cases "sz < sint IKCP_OVERHEAD")
    case True
    then show ?thesis by (simp add: input_loop.simps)
  next
    case sz: False
    then have "36 \<le> length data" using "1.prems"(1) by (simp add: IKCP_OVERHEAD_def)
    then obtain h rest where dec: "decode_seg data = Some (h, rest)" using decode_seg_total by blast
    then obtain cv body where g: "ikcp_decodeGuid data = Some (cv, body)" and h: "decode_head cv body = Some (h, rest)"
      by (auto simp: decode_seg_def bind_Some_iff)
    let ?n = "unat (seg_len h)" and ?sz = "sz - sint IKCP_OVERHEAD"
    have lr: "?sz = int (length rest)"
      using decode_seg_shorter [OF dec] "1.prems"(1) by (simp add: IKCP_OVERHEAD_def)
    have hd: "h\<lparr>seg_data := take ?n rest\<rparr> \<in> set (dgram data)"
      using dec by (simp add: dgram.simps [of data])
    then have nh: "?n < HALF" using "1.prems"(5) by fastforce
    show ?thesis
    proof (cases "Guid_ne cv (kconv k) \<or> ?sz < sint (seg_len h) \<or> \<not> known_cmd (seg_cmd h)")
      case True
      then show ?thesis using sz g h by (auto simp: input_loop.simps Let_def known_cmd_def)
    next
      case ok: False
      have l: "?n \<le> length rest" using ok lr sint_small [OF nh] by linarith
      have d: "dgram data = h\<lparr>seg_data := take ?n rest\<rparr> # dgram (drop ?n rest)"
        using dec l by (simp add: dgram.simps [of data])
      then obtain n0 where n: "n = Suc n0" using "1.prems"(4) by (cases n) auto
      obtain k' f' m' where s: "input_seg k h rest f m = Some (k', f', m')" "P n0 k'"
        using step [of n0 k h rest f m] "1.prems"(3,5) n l hd by blast
      have "sint (word_of_int ?sz - seg_len h) = int (length rest) - int ?n"
      proof -
        have "unat (of_nat (length rest) :: u32) = length rest"
          using decode_seg_shorter [OF dec] "1.prems"(1,2) by (simp add: unat_of_nat)
        moreover have "length rest < HALF" using decode_seg_shorter [OF dec] "1.prems"(1,2) by simp
        ultimately have "sint (of_nat (length rest) - seg_len h) = int (length rest) - int ?n"
          using sint_diff_small [of "of_nat (length rest)" "seg_len h"] nh by metis
        then show ?thesis using lr by simp
      qed
      then have e: "sint (word_of_int ?sz - seg_len h) = int (length (drop ?n rest))"
        using l by (simp add: of_nat_diff)
      have lt: "int (length (drop ?n rest)) < 2 ^ 31"
        using decode_seg_shorter [OF dec] "1.prems"(1,2) by simp
      have "\<exists>r. input_loop k' f' m' (drop ?n rest) (sint (word_of_int ?sz - seg_len h)) = Some r"
      proof (rule "1.IH" [of "(cv, body)" cv body "(h, rest)" h rest ?sz "(k', f', m')" k' "(f', m')" f' m' n0])
        show "sint (word_of_int ?sz - seg_len h) = int (length (drop ?n rest))" by (rule e)
        show "sint (word_of_int ?sz - seg_len h) < 2 ^ 31" unfolding e by (rule lt)
        show "\<forall>s\<in>set (dgram (drop ?n rest)). Q s \<and> unat (seg_len s) < HALF" using "1.prems"(5) d by simp
        show "length (dgram (drop ?n rest)) \<le> n0" using "1.prems"(4) d n by simp
      qed (use sz g h ok s l in \<open>auto simp: known_cmd_def\<close>)
      then show ?thesis
        using sz g h ok s l by (auto simp: input_loop.simps [of k f m data sz] Let_def known_cmd_def)
    qed
  qed
qed


lemma head_wnd: "decode_head cv body = Some (h, rest) \<Longrightarrow> unat (seg_wnd h) < 65536"
proof -
  assume "decode_head cv body = Some (h, rest)"
  then obtain w :: u16 where "seg_wnd h = ucast w" by (auto simp: decode_head_def bind_Some_iff)
  then show ?thesis using unsigned_less [of w, where 'a = nat] by (simp add: unsigned_ucast_eq take_bit_eq_mod)
qed

lemma dgram_wnd: "s \<in> set (dgram data) \<Longrightarrow> unat (seg_wnd s) < 65536"
proof (induction data rule: dgram.induct)
  case (1 data)
  show ?case
  proof (cases "decode_seg data")
    case None
    then show ?thesis using "1.prems" by (simp add: dgram.simps [of data])
  next
    case (Some hr)
    obtain h rest where hr: "hr = (h, rest)" by fastforce
    have "unat (seg_wnd h) < 65536" using Some hr head_wnd by (auto simp: decode_seg_def bind_Some_iff)
    then show ?thesis
      using "1.prems" "1.IH" [OF Some hr [symmetric]] Some hr
      by (auto simp: dgram.simps [of data] split: if_splits)
  qed
qed

lemma shrink_same [simp]:
  "kconv (ikcp_shrink_buf k) = kconv k" "mtu (ikcp_shrink_buf k) = mtu k" "mss (ikcp_shrink_buf k) = mss k"
  "kstate (ikcp_shrink_buf k) = kstate k" "snd_nxt (ikcp_shrink_buf k) = snd_nxt k"
  "rcv_nxt (ikcp_shrink_buf k) = rcv_nxt k" "ts_recent (ikcp_shrink_buf k) = ts_recent k"
  "ts_lastack (ikcp_shrink_buf k) = ts_lastack k" "ssthresh (ikcp_shrink_buf k) = ssthresh k"
  "rx_rttval (ikcp_shrink_buf k) = rx_rttval k" "rx_srtt (ikcp_shrink_buf k) = rx_srtt k"
  "rx_rto (ikcp_shrink_buf k) = rx_rto k" "rx_minrto (ikcp_shrink_buf k) = rx_minrto k"
  "snd_wnd (ikcp_shrink_buf k) = snd_wnd k" "rcv_wnd (ikcp_shrink_buf k) = rcv_wnd k"
  "rmt_wnd (ikcp_shrink_buf k) = rmt_wnd k" "cwnd (ikcp_shrink_buf k) = cwnd k"
  "probe (ikcp_shrink_buf k) = probe k" "kcurrent (ikcp_shrink_buf k) = kcurrent k"
  "interval (ikcp_shrink_buf k) = interval k" "ts_flush (ikcp_shrink_buf k) = ts_flush k"
  "kxmit (ikcp_shrink_buf k) = kxmit k" "nrcv_buf (ikcp_shrink_buf k) = nrcv_buf k"
  "nsnd_buf (ikcp_shrink_buf k) = nsnd_buf k" "nrcv_que (ikcp_shrink_buf k) = nrcv_que k"
  "nsnd_que (ikcp_shrink_buf k) = nsnd_que k" "nodelay (ikcp_shrink_buf k) = nodelay k"
  "updated (ikcp_shrink_buf k) = updated k" "ts_probe (ikcp_shrink_buf k) = ts_probe k"
  "probe_wait (ikcp_shrink_buf k) = probe_wait k" "dead_link (ikcp_shrink_buf k) = dead_link k"
  "incr (ikcp_shrink_buf k) = incr k" "snd_queue (ikcp_shrink_buf k) = snd_queue k"
  "rcv_queue (ikcp_shrink_buf k) = rcv_queue k" "snd_buf (ikcp_shrink_buf k) = snd_buf k"
  "rcv_buf (ikcp_shrink_buf k) = rcv_buf k" "acklist (ikcp_shrink_buf k) = acklist k"
  "ackcount (ikcp_shrink_buf k) = ackcount k" "ackblock (ikcp_shrink_buf k) = ackblock k"
  "kbuffer (ikcp_shrink_buf k) = kbuffer k" "fastresend (ikcp_shrink_buf k) = fastresend k"
  "nocwnd (ikcp_shrink_buf k) = nocwnd k" "stream (ikcp_shrink_buf k) = stream k"
  "logmask (ikcp_shrink_buf k) = logmask k" "koutput (ikcp_shrink_buf k) = koutput k"
  "writelog (ikcp_shrink_buf k) = writelog k"
  by (cases "snd_buf k"; simp add: ikcp_shrink_buf_def)+

lemma parse_una_loop_same [simp]:
  "kconv (parse_una_loop una q k) = kconv k" "mtu (parse_una_loop una q k) = mtu k"
  "mss (parse_una_loop una q k) = mss k" "kstate (parse_una_loop una q k) = kstate k"
  "snd_una (parse_una_loop una q k) = snd_una k" "snd_nxt (parse_una_loop una q k) = snd_nxt k"
  "rcv_nxt (parse_una_loop una q k) = rcv_nxt k" "ts_recent (parse_una_loop una q k) = ts_recent k"
  "ts_lastack (parse_una_loop una q k) = ts_lastack k" "ssthresh (parse_una_loop una q k) = ssthresh k"
  "rx_rttval (parse_una_loop una q k) = rx_rttval k" "rx_srtt (parse_una_loop una q k) = rx_srtt k"
  "rx_rto (parse_una_loop una q k) = rx_rto k" "rx_minrto (parse_una_loop una q k) = rx_minrto k"
  "snd_wnd (parse_una_loop una q k) = snd_wnd k" "rcv_wnd (parse_una_loop una q k) = rcv_wnd k"
  "rmt_wnd (parse_una_loop una q k) = rmt_wnd k" "cwnd (parse_una_loop una q k) = cwnd k"
  "probe (parse_una_loop una q k) = probe k" "kcurrent (parse_una_loop una q k) = kcurrent k"
  "interval (parse_una_loop una q k) = interval k" "ts_flush (parse_una_loop una q k) = ts_flush k"
  "kxmit (parse_una_loop una q k) = kxmit k" "nrcv_buf (parse_una_loop una q k) = nrcv_buf k"
  "nrcv_que (parse_una_loop una q k) = nrcv_que k" "nsnd_que (parse_una_loop una q k) = nsnd_que k"
  "nodelay (parse_una_loop una q k) = nodelay k" "updated (parse_una_loop una q k) = updated k"
  "ts_probe (parse_una_loop una q k) = ts_probe k" "probe_wait (parse_una_loop una q k) = probe_wait k"
  "dead_link (parse_una_loop una q k) = dead_link k" "incr (parse_una_loop una q k) = incr k"
  "snd_queue (parse_una_loop una q k) = snd_queue k" "rcv_queue (parse_una_loop una q k) = rcv_queue k"
  "rcv_buf (parse_una_loop una q k) = rcv_buf k" "acklist (parse_una_loop una q k) = acklist k"
  "ackcount (parse_una_loop una q k) = ackcount k" "ackblock (parse_una_loop una q k) = ackblock k"
  "kbuffer (parse_una_loop una q k) = kbuffer k" "fastresend (parse_una_loop una q k) = fastresend k"
  "nocwnd (parse_una_loop una q k) = nocwnd k" "stream (parse_una_loop una q k) = stream k"
  "logmask (parse_una_loop una q k) = logmask k" "koutput (parse_una_loop una q k) = koutput k"
  "writelog (parse_una_loop una q k) = writelog k"
  by (induction q arbitrary: k; simp)+

lemma parse_ack_same [simp]:
  "kconv (ikcp_parse_ack k sn) = kconv k" "mtu (ikcp_parse_ack k sn) = mtu k"
  "mss (ikcp_parse_ack k sn) = mss k" "kstate (ikcp_parse_ack k sn) = kstate k"
  "snd_una (ikcp_parse_ack k sn) = snd_una k" "snd_nxt (ikcp_parse_ack k sn) = snd_nxt k"
  "rcv_nxt (ikcp_parse_ack k sn) = rcv_nxt k" "ts_recent (ikcp_parse_ack k sn) = ts_recent k"
  "ts_lastack (ikcp_parse_ack k sn) = ts_lastack k" "ssthresh (ikcp_parse_ack k sn) = ssthresh k"
  "rx_rttval (ikcp_parse_ack k sn) = rx_rttval k" "rx_srtt (ikcp_parse_ack k sn) = rx_srtt k"
  "rx_rto (ikcp_parse_ack k sn) = rx_rto k" "rx_minrto (ikcp_parse_ack k sn) = rx_minrto k"
  "snd_wnd (ikcp_parse_ack k sn) = snd_wnd k" "rcv_wnd (ikcp_parse_ack k sn) = rcv_wnd k"
  "rmt_wnd (ikcp_parse_ack k sn) = rmt_wnd k" "cwnd (ikcp_parse_ack k sn) = cwnd k"
  "probe (ikcp_parse_ack k sn) = probe k" "kcurrent (ikcp_parse_ack k sn) = kcurrent k"
  "interval (ikcp_parse_ack k sn) = interval k" "ts_flush (ikcp_parse_ack k sn) = ts_flush k"
  "kxmit (ikcp_parse_ack k sn) = kxmit k" "nrcv_buf (ikcp_parse_ack k sn) = nrcv_buf k"
  "nrcv_que (ikcp_parse_ack k sn) = nrcv_que k" "nsnd_que (ikcp_parse_ack k sn) = nsnd_que k"
  "nodelay (ikcp_parse_ack k sn) = nodelay k" "updated (ikcp_parse_ack k sn) = updated k"
  "ts_probe (ikcp_parse_ack k sn) = ts_probe k" "probe_wait (ikcp_parse_ack k sn) = probe_wait k"
  "dead_link (ikcp_parse_ack k sn) = dead_link k" "incr (ikcp_parse_ack k sn) = incr k"
  "snd_queue (ikcp_parse_ack k sn) = snd_queue k" "rcv_queue (ikcp_parse_ack k sn) = rcv_queue k"
  "rcv_buf (ikcp_parse_ack k sn) = rcv_buf k" "acklist (ikcp_parse_ack k sn) = acklist k"
  "ackcount (ikcp_parse_ack k sn) = ackcount k" "ackblock (ikcp_parse_ack k sn) = ackblock k"
  "kbuffer (ikcp_parse_ack k sn) = kbuffer k" "fastresend (ikcp_parse_ack k sn) = fastresend k"
  "nocwnd (ikcp_parse_ack k sn) = nocwnd k" "stream (ikcp_parse_ack k sn) = stream k"
  "logmask (ikcp_parse_ack k sn) = logmask k" "koutput (ikcp_parse_ack k sn) = koutput k"
  "writelog (ikcp_parse_ack k sn) = writelog k"
  by (simp_all add: ikcp_parse_ack_def split: prod.split)

text \<open>What a segment's header does first: take the window, drop what \<^verbatim>\<open>una\<close> confirms.\<close>

definition take_una :: "IKCPSEG \<Rightarrow> IKCPCB \<Rightarrow> IKCPCB" where
  "take_una h k = ikcp_shrink_buf (ikcp_parse_una (k\<lparr>rmt_wnd := seg_wnd h\<rparr>) (seg_una h))"

lemma take_una_inv:
  assumes "snd_inv k" "unat (seg_wnd h) < 65536"
  shows "snd_inv (take_una h k) \<and> una_inv (take_una h k)"
proof -
  have "snd_inv (k\<lparr>rmt_wnd := seg_wnd h\<rparr>)" using assms by (simp add: snd_inv_def)
  then show ?thesis using shrink_inv parse_una_inv by (simp add: take_una_def)
qed

lemma take_una_same [simp]:
  "kconv (take_una h k) = kconv k" "mtu (take_una h k) = mtu k" "mss (take_una h k) = mss k"
  "kstate (take_una h k) = kstate k" "snd_nxt (take_una h k) = snd_nxt k" "rcv_nxt (take_una h k) = rcv_nxt k"
  "ts_recent (take_una h k) = ts_recent k" "ts_lastack (take_una h k) = ts_lastack k"
  "ssthresh (take_una h k) = ssthresh k" "rx_rttval (take_una h k) = rx_rttval k"
  "rx_srtt (take_una h k) = rx_srtt k" "rx_rto (take_una h k) = rx_rto k"
  "rx_minrto (take_una h k) = rx_minrto k" "snd_wnd (take_una h k) = snd_wnd k"
  "rcv_wnd (take_una h k) = rcv_wnd k" "cwnd (take_una h k) = cwnd k" "probe (take_una h k) = probe k"
  "kcurrent (take_una h k) = kcurrent k" "interval (take_una h k) = interval k"
  "ts_flush (take_una h k) = ts_flush k" "kxmit (take_una h k) = kxmit k"
  "nrcv_buf (take_una h k) = nrcv_buf k" "nrcv_que (take_una h k) = nrcv_que k"
  "nsnd_que (take_una h k) = nsnd_que k" "nodelay (take_una h k) = nodelay k"
  "updated (take_una h k) = updated k" "ts_probe (take_una h k) = ts_probe k"
  "probe_wait (take_una h k) = probe_wait k" "dead_link (take_una h k) = dead_link k"
  "incr (take_una h k) = incr k" "snd_queue (take_una h k) = snd_queue k"
  "rcv_queue (take_una h k) = rcv_queue k" "rcv_buf (take_una h k) = rcv_buf k"
  "acklist (take_una h k) = acklist k" "ackcount (take_una h k) = ackcount k"
  "ackblock (take_una h k) = ackblock k" "kbuffer (take_una h k) = kbuffer k"
  "fastresend (take_una h k) = fastresend k" "nocwnd (take_una h k) = nocwnd k"
  "stream (take_una h k) = stream k" "logmask (take_una h k) = logmask k" "koutput (take_una h k) = koutput k"
  "writelog (take_una h k) = writelog k"
  by (simp_all add: take_una_def ikcp_parse_una_def)

lemma take_una_frame [simp]:
  "rcv_inv (take_una h k) = rcv_inv k" "ack_inv (take_una h k) = ack_inv k"
  "cfg_inv (take_una h k) = cfg_inv k" "rtt_inv (take_una h k) = rtt_inv k"
  "rcv_rel S m (take_una h k) = rcv_rel S m k"
  by (simp_all add: rcv_inv_def ack_inv_def cfg_inv_def rtt_inv_def rcv_rel_def)

lemma shrink_frame [simp]:
  "rcv_inv (ikcp_shrink_buf k) = rcv_inv k" "ack_inv (ikcp_shrink_buf k) = ack_inv k"
  "cfg_inv (ikcp_shrink_buf k) = cfg_inv k" "rtt_inv (ikcp_shrink_buf k) = rtt_inv k"
  "rcv_rel S m (ikcp_shrink_buf k) = rcv_rel S m k"
  by (simp_all add: rcv_inv_def ack_inv_def cfg_inv_def rtt_inv_def rcv_rel_def)

lemma parse_ack_frame [simp]:
  "rcv_inv (ikcp_parse_ack k sn) = rcv_inv k" "ack_inv (ikcp_parse_ack k sn) = ack_inv k"
  "cfg_inv (ikcp_parse_ack k sn) = cfg_inv k" "rtt_inv (ikcp_parse_ack k sn) = rtt_inv k"
  "rcv_rel S m (ikcp_parse_ack k sn) = rcv_rel S m k"
  by (simp_all add: rcv_inv_def ack_inv_def cfg_inv_def rtt_inv_def rcv_rel_def)

lemma input_seg_eq:
  "input_seg k h rest f m =
     (let k = take_una h k in
      if seg_cmd h = IKCP_CMD_ACK then input_ack k (seg_sn h) (seg_ts h) f m
      else if seg_cmd h = IKCP_CMD_PUSH then map_option (\<lambda>k. (k, f, m)) (input_push k h rest)
      else if seg_cmd h = IKCP_CMD_WASK then Some (k\<lparr>probe := probe k OR IKCP_ASK_TELL\<rparr>, f, m)
      else Some (k, f, m))"
  by (simp add: input_seg_def take_una_def Let_def map_option_case bind_split split: option.split)


lemma update_ack_frame:
  assumes "ikcp_update_ack k rtt = Some k'" "cfg_inv k"
  shows "cfg_inv k' \<and> snd_inv k' = snd_inv k \<and> rcv_inv k' = rcv_inv k \<and> ack_inv k' = ack_inv k
    \<and> (\<forall>S m. rcv_rel S m k' = rcv_rel S m k) \<and> ackcount k' = ackcount k \<and> kcurrent k' = kcurrent k
    \<and> kconv k' = kconv k"
proof -
  have "1 \<le> rx_minrto k" "rx_minrto k \<le> 60000" using assms(2) by (simp_all add: cfg_inv_def)
  from update_ack_bounds [OF assms(1) this] obtain a b c where
    "k' = k\<lparr>rx_srtt := a, rx_rttval := b, rx_rto := c\<rparr>" "rx_minrto k \<le> c" "c \<le> 60000" by auto
  then show ?thesis
    using assms(2) by (simp add: snd_inv_def rcv_inv_def ack_inv_def cfg_inv_def rcv_rel_def)
qed

lemma input_ack_keeps:
  assumes "input_ack k sn ts f m = Some (k', f', m')" "snd_inv k" "cfg_inv k"
  shows "cfg_inv k' \<and> snd_inv k' \<and> una_inv k' \<and> rcv_inv k' = rcv_inv k \<and> ack_inv k' = ack_inv k
    \<and> (\<forall>S m. rcv_rel S m k' = rcv_rel S m k) \<and> ackcount k' = ackcount k \<and> kcurrent k' = kcurrent k
    \<and> kconv k' = kconv k"
proof -
  obtain k1 where k1: "(if itimediff (kcurrent k) ts \<ge> 0
       then ikcp_update_ack k (itimediff (kcurrent k) ts) else Some k) = Some k1"
    and k': "k' = ikcp_shrink_buf (ikcp_parse_ack k1 sn)"
    using assms(1) by (auto simp: input_ack_def bind_Some_iff Let_def split: if_splits)
  have "cfg_inv k1 \<and> snd_inv k1 \<and> rcv_inv k1 = rcv_inv k \<and> ack_inv k1 = ack_inv k
    \<and> (\<forall>S m. rcv_rel S m k1 = rcv_rel S m k) \<and> ackcount k1 = ackcount k \<and> kcurrent k1 = kcurrent k
    \<and> kconv k1 = kconv k"
    using k1 update_ack_frame [OF _ assms(3)] assms(2,3) by (auto split: if_splits)
  then show ?thesis using shrink_inv parse_ack_inv by (simp add: k')
qed

lemma ack_push_frame:
  assumes "k' = k\<lparr>acklist := al, ackblock := ab, ackcount := c\<rparr>"
  shows "snd_inv k' = snd_inv k" "una_inv k' = una_inv k" "rcv_inv k' = rcv_inv k" "cfg_inv k' = cfg_inv k"
    "rtt_inv k' = rtt_inv k" "rcv_rel S m k' = rcv_rel S m k" "in_window k' sn = in_window k sn"
  using assms by (simp_all add: snd_inv_def una_inv_def rcv_inv_def cfg_inv_def rtt_inv_def rcv_rel_def in_window_def)

lemma put_seg_frame [simp]:
  "snd_inv (put_seg s k) = snd_inv k" "una_inv (put_seg s k) = una_inv k" "ack_inv (put_seg s k) = ack_inv k"
  "cfg_inv (put_seg s k) = cfg_inv k" "rtt_inv (put_seg s k) = rtt_inv k" "ackcount (put_seg s k) = ackcount k"
  "kcurrent (put_seg s k) = kcurrent k" "kconv (put_seg s k) = kconv k"
  by (simp_all add: put_seg_def snd_inv_def una_inv_def ack_inv_def cfg_inv_def rtt_inv_def Let_def)

lemma parse_data_frame:
  assumes "rcv_inv k"
  shows "snd_inv (ikcp_parse_data k s) = snd_inv k" "una_inv (ikcp_parse_data k s) = una_inv k"
    "ack_inv (ikcp_parse_data k s) = ack_inv k" "cfg_inv (ikcp_parse_data k s) = cfg_inv k"
    "rtt_inv (ikcp_parse_data k s) = rtt_inv k" "ackcount (ikcp_parse_data k s) = ackcount k"
    "kcurrent (ikcp_parse_data k s) = kcurrent k" "kconv (ikcp_parse_data k s) = kconv k"
  using assms by (simp_all add: parse_data_eq move_ready_frame rtt_inv_def put_seg_def Let_def)
   (simp_all add: put_seg_frame [unfolded put_seg_def Let_def])

text \<open>
  The effect of a PUSH segment: it is acknowledged when it is below the end of the window, and
  stored when it is inside.
\<close>

lemma input_push_ok:
  assumes "rcv_inv k" "ack_inv k" "unat (ackcount k) < 2 ^ 30" "unat (seg_len h) \<le> length rest"
  shows "\<exists>k1. (k1 = k \<or> (\<exists>al ab. k1 = k\<lparr>acklist := al, ackblock := ab, ackcount := ackcount k + 1\<rparr>))
    \<and> ack_inv k1 \<and> unat (ackcount k1) \<le> unat (ackcount k) + 1
    \<and> (input_push k h rest = Some k1
       \<or> input_push k h rest = Some (ikcp_parse_data k1 (h\<lparr>seg_data := take (unat (seg_len h)) rest\<rparr>)))"
proof (cases "itimediff (seg_sn h) (rcv_nxt k + rcv_wnd k) < 0")
  case False
  then show ?thesis using assms by (intro exI [of _ k]) (simp add: input_push_def)
next
  case True
  obtain al ab where p: "ikcp_ack_push k (seg_sn h) (seg_ts h)
      = Some (k\<lparr>acklist := al, ackblock := ab, ackcount := ackcount k + 1\<rparr>)"
    "ack_inv (k\<lparr>acklist := al, ackblock := ab, ackcount := ackcount k + 1\<rparr>)"
    using ack_push_ok [OF assms(2,3)] by blast
  let ?k1 = "k\<lparr>acklist := al, ackblock := ab, ackcount := ackcount k + 1\<rparr>"
  have "unat (ackcount ?k1) \<le> unat (ackcount k) + 1"
    using assms(3) unat_add_lem [of "ackcount k" 1] by simp
  moreover have "input_push k h rest = Some ?k1
     \<or> input_push k h rest = Some (ikcp_parse_data ?k1 (h\<lparr>seg_data := take (unat (seg_len h)) rest\<rparr>))"
    using True p(1) assms(4) by (auto simp: input_push_def)
  ultimately show ?thesis using p(2) by (intro exI [of _ ?k1]) auto
qed

lemma probe_frame: "kcp_inv (k\<lparr>probe := p\<rparr>) = kcp_inv k"
  by (simp add: kcp_inv_def kcp_parts)

definition inp_inv :: "nat \<Rightarrow> IKCPCB \<Rightarrow> bool" where
  "inp_inv n k \<longleftrightarrow> kcp_inv k \<and> unat (ackcount k) + n < 2 ^ 30"

lemma input_push_keeps:
  assumes "snd_inv k" "una_inv k" "rcv_inv k" "ack_inv k" "cfg_inv k" "unat (ackcount k) + Suc n < 2 ^ 30"
    and "unat (seg_len h) \<le> length rest"
  shows "\<exists>k'. input_push k h rest = Some k' \<and> inp_inv n k' \<and> rtt_inv k' = rtt_inv k \<and> kcurrent k' = kcurrent k"
proof -
  let ?s = "h\<lparr>seg_data := take (unat (seg_len h)) rest\<rparr>"
  obtain k1 where k1: "k1 = k \<or> (\<exists>al ab. k1 = k\<lparr>acklist := al, ackblock := ab, ackcount := ackcount k + 1\<rparr>)"
    and a: "ack_inv k1" "unat (ackcount k1) \<le> unat (ackcount k) + 1"
    and r: "input_push k h rest = Some k1 \<or> input_push k h rest = Some (ikcp_parse_data k1 ?s)"
    using input_push_ok [OF assms(3,4) _ assms(7)] assms(6) by auto
  have i1: "snd_inv k1" "una_inv k1" "rcv_inv k1" "cfg_inv k1" "rtt_inv k1 = rtt_inv k" "kcurrent k1 = kcurrent k"
    using k1 assms(1-5) by (auto simp: ack_push_frame [OF refl])
  have "wf_seg ?s" using assms(7) by (simp add: wf_seg_def)
  then have "rcv_inv (ikcp_parse_data k1 ?s)" using parse_data_inv i1 by blast
  then have "inp_inv n (ikcp_parse_data k1 ?s)"
    using i1 a assms(6) by (simp add: inp_inv_def kcp_inv_def parse_data_frame)
  moreover have "inp_inv n k1" using i1 a assms(6) by (simp add: inp_inv_def kcp_inv_def)
  ultimately show ?thesis using r i1 by (auto simp: parse_data_frame)
qed

lemma input_seg_keeps:
  assumes "inp_inv (Suc n) k" "unat (seg_wnd h) < 65536" "unat (seg_len h) \<le> length rest"
    and "input_seg k h rest f m = Some (k', f', m')"
  shows "inp_inv n k'"
proof -
  let ?k = "take_una h k"
  have i: "snd_inv ?k" "una_inv ?k" "rcv_inv ?k" "ack_inv ?k" "cfg_inv ?k" "unat (ackcount ?k) + Suc n < 2 ^ 30"
    using assms(1) take_una_inv [OF _ assms(2), of k] by (auto simp: inp_inv_def kcp_inv_def)
  consider "seg_cmd h = IKCP_CMD_ACK" | "seg_cmd h \<noteq> IKCP_CMD_ACK" "seg_cmd h = IKCP_CMD_PUSH"
    | "seg_cmd h \<noteq> IKCP_CMD_ACK" "seg_cmd h \<noteq> IKCP_CMD_PUSH" by blast
  then show ?thesis
  proof cases
    case 1
    then have "input_ack ?k (seg_sn h) (seg_ts h) f m = Some (k', f', m')"
      using assms(4) by (simp add: input_seg_eq)
    from input_ack_keeps [OF this i(1,5)] i show ?thesis by (auto simp: inp_inv_def kcp_inv_def)
  next
    case 2
    then show ?thesis using assms(4) input_push_keeps [OF i assms(3)] by (auto simp: input_seg_eq)
  next
    case 3
    then have "k' = ?k \<or> k' = ?k\<lparr>probe := probe ?k OR IKCP_ASK_TELL\<rparr>"
      using assms(4) by (auto simp: input_seg_eq Let_def split: if_splits)
    moreover have "kcp_inv ?k" using i by (simp add: kcp_inv_def)
    ultimately show ?thesis using i(6) by (auto simp: inp_inv_def probe_frame)
  qed
qed


lemma input_seg_total:
  assumes "inp_inv (Suc n) k" "rtt_inv k" "kcurrent k = now" "unat (seg_wnd h) < 65536"
    and "unat (seg_len h) \<le> length rest" "seg_cmd h = IKCP_CMD_ACK \<Longrightarrow> itimediff now (seg_ts h) \<le> 2 ^ 27"
  shows "\<exists>k' f' m'. input_seg k h rest f m = Some (k', f', m') \<and> inp_inv n k' \<and> rtt_inv k' \<and> kcurrent k' = now"
proof -
  let ?k = "take_una h k"
  have i: "snd_inv ?k" "una_inv ?k" "rcv_inv ?k" "ack_inv ?k" "cfg_inv ?k" "unat (ackcount ?k) + Suc n < 2 ^ 30"
      "rtt_inv ?k" "kcurrent ?k = now"
    using assms(1-3) take_una_inv [OF _ assms(4), of k] by (auto simp: inp_inv_def kcp_inv_def)
  have "\<exists>k' f' m'. input_seg k h rest f m = Some (k', f', m') \<and> rtt_inv k' \<and> kcurrent k' = now"
  proof (cases "seg_cmd h = IKCP_CMD_ACK")
    case True
    have "\<exists>k1. (if itimediff now (seg_ts h) \<ge> 0 then ikcp_update_ack ?k (itimediff now (seg_ts h)) else Some ?k)
        = Some k1 \<and> rtt_inv k1 \<and> kcurrent k1 = now"
      using update_ack_ok [OF i(7), of "itimediff now (seg_ts h)"] update_ack_frame [OF _ i(5)] i assms(6) [OF True]
      by fastforce
    then show ?thesis
      using True i(8) by (auto simp: input_seg_eq input_ack_def Let_def rtt_inv_def)
  next
    case False
    then show ?thesis
      using input_push_keeps [OF i(1-6) assms(5)] i
      by (auto simp: input_seg_eq Let_def rtt_inv_def)
  qed
  then show ?thesis using input_seg_keeps [OF assms(1,4,5)] by blast
qed

lemma input_cwnd_frame:
  assumes "input_cwnd k = Some k'"
  shows "\<exists>a b. k' = k\<lparr>cwnd := a, incr := b\<rparr>"
proof -
  have "k' = k\<lparr>cwnd := cwnd k', incr := incr k'\<rparr>"
    using assms
    by (auto simp: input_cwnd_def Let_def bind_Some_iff split: if_splits)
  then show ?thesis by blast
qed

lemma input_cwnd_total:
  assumes "cfg_inv k"
  shows "\<exists>k'. input_cwnd k = Some k'"
proof -
  have "mss k \<noteq> 0"
  proof
    assume "mss k = 0"
    then have "mtu k = IKCP_OVERHEAD" using assms by (simp add: cfg_inv_def)
    then show False using assms by (simp add: cfg_inv_def IKCP_OVERHEAD_def)
  qed
  then show ?thesis by (auto simp: input_cwnd_def Let_def word_gt_0 not_less dest: word_le_0_iff [THEN iffD1])
qed

lemma cwnd_frame: "kcp_inv (k\<lparr>cwnd := a, incr := b\<rparr>) = kcp_inv k"
  by (simp add: kcp_inv_def kcp_parts)

lemma fastack_keeps:
  assumes "kcp_inv k"
  shows "kcp_inv (ikcp_parse_fastack k sn)"
proof -
  have "rcv_inv (ikcp_parse_fastack k sn) = rcv_inv k" "ack_inv (ikcp_parse_fastack k sn) = ack_inv k"
    "cfg_inv (ikcp_parse_fastack k sn) = cfg_inv k"
    by (simp_all add: ikcp_parse_fastack_def rcv_inv_def ack_inv_def cfg_inv_def)
  then show ?thesis using assms parse_fastack_inv by (simp add: kcp_inv_def)
qed

lemma input_finish_keeps:
  assumes "input_finish una r = Some (c, k')" "kcp_inv (loop_state r)"
  shows "kcp_inv k'"
proof (cases r)
  case (Inl res)
  then show ?thesis using assms by (cases res) (auto simp: loop_state_def input_finish_def)
next
  case (Inr t)
  obtain k1 f m where t: "t = (k1, f, m)" by (metis prod_cases3)
  let ?k2 = "if f then ikcp_parse_fastack k1 m else k1"
  have "kcp_inv ?k2" using assms(2) Inr t fastack_keeps by (simp add: loop_state_def)
  moreover have "(if itimediff (snd_una ?k2) una > 0 then input_cwnd ?k2 else Some ?k2) = Some k'"
    using assms(1) Inr t by (auto simp: input_finish_def Let_def bind_Some_iff)
  ultimately show ?thesis using input_cwnd_frame [of ?k2 k'] by (auto simp: cwnd_frame split: if_splits)
qed

lemma input_finish_total:
  assumes "kcp_inv (loop_state r)"
  shows "\<exists>c k'. input_finish una r = Some (c, k')"
proof (cases r)
  case (Inl res)
  then show ?thesis by (cases res) (auto simp: input_finish_def)
next
  case (Inr t)
  obtain k1 f m where t: "t = (k1, f, m)" by (metis prod_cases3)
  let ?k2 = "if f then ikcp_parse_fastack k1 m else k1"
  have "kcp_inv ?k2" using assms Inr t fastack_keeps by (simp add: loop_state_def)
  then obtain k3 where "input_cwnd ?k2 = Some k3" using input_cwnd_total by (auto simp: kcp_inv_def)
  then show ?thesis using Inr t by (simp add: input_finish_def Let_def)
qed

text \<open>\<^verbatim>\<open>ikcp_input\<close> preserves the invariant, whatever the bytes are.\<close>

lemma input_inv:
  assumes "ikcp_input k (Some data) sz = Some (c, k')" "kcp_inv k"
    and "unat (ackcount k) + length (dgram data) < 2 ^ 30"
  shows "kcp_inv k'"
proof (cases "sz < sint IKCP_OVERHEAD")
  case True
  then show ?thesis using assms by (simp add: ikcp_input_def Let_def)
next
  case False
  then obtain r where r: "input_loop k False 0 data sz = Some r"
    and e: "input_finish (snd_una k) r = Some (c, k')"
    using assms(1) by (auto simp: ikcp_input_def bind_Some_iff)
  have "\<exists>n'. inp_inv n' (loop_state r)"
    by (rule input_loop_keeps [OF r, of inp_inv "length (dgram data)" "\<lambda>s. unat (seg_wnd s) < 65536"])
      (use assms(2,3) dgram_wnd in \<open>auto simp: inp_inv_def [of "length (dgram data)"] intro: input_seg_keeps\<close>)
  then have "kcp_inv (loop_state r)" by (auto simp: inp_inv_def)
  then show ?thesis by (rule input_finish_keeps [OF e])
qed

text \<open>
  And it always returns, provided that no header announces a length of \<open>2^31\<close> or more and no
  acknowledgement echoes a time more than \<open>2^27\<close> milliseconds (37 hours) in the past.
\<close>

lemma input_total:
  assumes "kcp_inv k" "rtt_inv k" "unat (ackcount k) + length (dgram data) < 2 ^ 30" "length data < HALF"
    and "\<forall>s\<in>set (dgram data). unat (seg_len s) < HALF
      \<and> (seg_cmd s = IKCP_CMD_ACK \<longrightarrow> itimediff (kcurrent k) (seg_ts s) \<le> 2 ^ 27)"
  shows "\<exists>c k'. ikcp_input k (Some data) (int (length data)) = Some (c, k')"
proof (cases "int (length data) < sint IKCP_OVERHEAD")
  case True
  then show ?thesis by (simp add: ikcp_input_def Let_def)
next
  case False
  let ?P = "\<lambda>n x. inp_inv n x \<and> rtt_inv x \<and> kcurrent x = kcurrent k"
  let ?Q = "\<lambda>s. unat (seg_wnd s) < 65536 \<and> (seg_cmd s = IKCP_CMD_ACK \<longrightarrow> itimediff (kcurrent k) (seg_ts s) \<le> 2 ^ 27)"
  have "\<exists>r. input_loop k False 0 data (int (length data)) = Some r"
  proof (rule input_loop_total [where P = ?P and Q = ?Q and n = "length (dgram data)"])
    show "\<forall>s\<in>set (dgram data). ?Q s \<and> unat (seg_len s) < HALF" using assms(5) dgram_wnd by blast
    show "inp_inv (length (dgram data)) k \<and> rtt_inv k \<and> kcurrent k = kcurrent k"
      using assms(1-3) by (simp add: inp_inv_def)
    show "\<exists>k' f' m'. input_seg x h rest f m = Some (k', f', m') \<and> ?P n k'"
      if "?P (Suc n) x" "?Q (h\<lparr>seg_data := take (unat (seg_len h)) rest\<rparr>)" "unat (seg_len h) \<le> length rest"
      for n x h rest f m
      using that input_seg_total [of n x "kcurrent k" h rest f m] by auto
  qed (use assms(4) in auto)
  then obtain r where r: "input_loop k False 0 data (int (length data)) = Some r" by blast
  have "\<exists>n'. inp_inv n' (loop_state r)"
    by (rule input_loop_keeps [OF r, of inp_inv "length (dgram data)" "\<lambda>s. unat (seg_wnd s) < 65536"])
      (use assms(1,3) dgram_wnd in \<open>auto simp: inp_inv_def [of "length (dgram data)"] intro: input_seg_keeps\<close>)
  then have i: "kcp_inv (loop_state r)" by (auto simp: inp_inv_def)
  then show ?thesis using False r input_finish_total by (simp add: ikcp_input_def)
qed


section \<open>Properties\<close>

text \<open>
  C18: \<^verbatim>\<open>ikcp_input\<close> is safe and total on hostile data: for any datagram at all whose headers announce
  lengths below \<open>2^31\<close> and whose acknowledgements echo a time at most \<open>2^27\<close> milliseconds old, it
  returns, reads and writes only inside its buffers, and leaves a well-formed control block.
\<close>

theorem ikcp_input_safe:
  assumes "kcp_inv k" "rtt_inv k" "unat (ackcount k) + length (dgram data) < 2 ^ 30" "length data < HALF"
    and "\<forall>s\<in>set (dgram data). unat (seg_len s) < HALF
      \<and> (seg_cmd s = IKCP_CMD_ACK \<longrightarrow> itimediff (kcurrent k) (seg_ts s) \<le> 2 ^ 27)"
  shows "\<exists>c k'. ikcp_input k (Some data) (int (length data)) = Some (c, k') \<and> kcp_inv k'"
  using input_total [OF assms] input_inv [OF _ assms(1,3)] by blast

definition ex_ack :: bytes where
  "ex_ack = replicate 16 0 @ [82, 0, 128, 0] @ [0, 0, 0, 0] @ [7, 0, 0, 0] @ [0, 0, 0, 0] @ [0, 0, 0, 0]"

lemma ex_ack_dgram: "map (\<lambda>s. (seg_cmd s, seg_ts s, seg_len s)) (dgram ex_ack) = [(82, 0, 0)]"
  by code_simp

theorem ikcp_input_safe_witness:
  "\<exists>c k'. ikcp_input (ikcp_create Guid_zero) (Some ex_ack) 36 = Some (c, k') \<and> kcp_inv k'"
proof -
  have "length (dgram ex_ack) = 1" using arg_cong [OF ex_ack_dgram, of length] by simp
  moreover have "\<forall>p\<in>set (map (\<lambda>s. (seg_cmd s, seg_ts s, seg_len s)) (dgram ex_ack)). p = (82, 0, 0)"
    unfolding ex_ack_dgram by simp
  then have "\<forall>s\<in>set (dgram ex_ack). seg_ts s = 0 \<and> seg_len s = 0" by simp
  moreover have "rtt_inv (ikcp_create Guid_zero)" by (simp add: rtt_inv_def ikcp_create_def)
  moreover have "ackcount (ikcp_create Guid_zero) = 0" "kcurrent (ikcp_create Guid_zero) = 0"
    by (simp_all add: ikcp_create_def)
  ultimately show ?thesis
    using ikcp_input_safe [OF create_inv [of Guid_zero], of ex_ack] by (simp add: ex_ack_def itimediff_def)
qed


definition ex_huge :: bytes where
  "ex_huge = replicate 16 0 @ [84, 0, 0, 0] @ replicate 12 0 @ [0, 0, 0, 128]"

lemma ex_huge_decode: "ikcp_decodeGuid ex_huge = Some (Guid_zero, drop 16 ex_huge)"
  "map_option (\<lambda>(h, r). (seg_cmd h, seg_len h)) (decode_head Guid_zero (drop 16 ex_huge)) = Some (84, 2147483648)"
  by code_simp+






text \<open>
  C26: The retransmission timeout stays between the configured minimum and one minute, whatever
  round-trip times are measured.
\<close>

theorem ikcp_rto_bounded:
  assumes "ikcp_update_ack k rtt = Some k'" "1 \<le> rx_minrto k" "rx_minrto k \<le> 60000"
  shows "rx_minrto k \<le> rx_rto k' \<and> rx_rto k' \<le> 60000"
  using update_ack_bounds [OF assms] by blast

theorem ikcp_rto_bounded_witness:
  "\<exists>k'. ikcp_update_ack (ikcp_create Guid_zero) 50 = Some k' \<and> 100 \<le> rx_rto k' \<and> rx_rto k' \<le> 60000"
proof -
  obtain k' where "ikcp_update_ack (ikcp_create Guid_zero) 50 = Some k'"
    using update_ack_ok [of "ikcp_create Guid_zero" 50] by (auto simp: rtt_inv_def ikcp_create_def)
  moreover have "rx_minrto (ikcp_create Guid_zero) = 100" by (simp add: ikcp_create_def IKCP_RTO_MIN_def)
  ultimately show ?thesis using ikcp_rto_bounded [of "ikcp_create Guid_zero" 50] by fastforce
qed

text \<open>
  A round trip of \<open>2^31 - 1\<close> milliseconds, which any peer can produce by echoing an old time,
  overflows the signed arithmetic of \<^verbatim>\<open>ikcp_update_ack\<close>.
\<close>

theorem ikcp_update_ack_overflow:
  "ikcp_update_ack (ikcp_create Guid_zero) (2 ^ 31 - 1) = None"
  by code_simp

end
