(* ===== verification/KcpUser.thy ===== *)
theory KcpUser
  imports KcpInv
begin

text \<open>
  The user's side of \<^verbatim>\<open>ikcp.h\<close>: \<^verbatim>\<open>ikcp_send\<close> cuts a message into fragments, \<^verbatim>\<open>ikcp_recv\<close> and
  \<^verbatim>\<open>ikcp_peeksize\<close> put one together. \<open>fragments\<close> is the specification both are compared with.
\<close>

declare of_nat_unat [simp del]

section \<open>Fragments\<close>

primrec fragments :: "nat \<Rightarrow> bool \<Rightarrow> nat \<Rightarrow> bytes \<Rightarrow> IKCPSEG list" where
  "fragments m msg 0 d = []"
| "fragments m msg (Suc r) d =
     (ikcp_segment_new (take m d))\<lparr>seg_len := of_nat (length (take m d)),
       seg_frg := (if msg then of_nat r else 0)\<rparr> # fragments m msg r (drop m d)"

lemma length_fragments [simp]: "length (fragments m msg r d) = r"
  by (induction r arbitrary: d) auto

lemma fragments_concat:
  "length d \<le> r * m \<Longrightarrow> concat (map seg_data (fragments m msg r d)) = d"
proof (induction r arbitrary: d)
  case 0
  then show ?case by simp
next
  case (Suc r)
  then have "length (drop m d) \<le> r * m" by auto
  then show ?case using Suc.IH by (simp add: ikcp_segment_new_def)
qed

lemma fragments_frg: "map seg_frg (fragments m True r d) = map of_nat (rev [0..<r])"
  by (induction r arbitrary: d) auto

lemma fragments_each:
  assumes "s \<in> set (fragments m msg r d)" "m < 2 ^ 32"
  shows "wf_seg s \<and> length (seg_data s) \<le> m \<and> unat (seg_len s) \<le> m"
  using assms
  by (induction r arbitrary: d) (auto simp: ikcp_segment_new_def wf_seg_def unat_of_nat)

section \<open>Sending\<close>

lemma cfg_mss:
  assumes "cfg_inv k"
  shows "unat (mss k) = unat (mtu k) - 36" "14 \<le> unat (mss k)" "unat (mss k) \<le> 2 ^ 30"
    "sint (mss k) = int (unat (mss k))"
proof -
  have "unat (mtu k - 36) = unat (mtu k) - unat (36 :: u32)"
    using assms by (intro unat_sub) (simp add: cfg_inv_def word_le_nat_alt)
  then show *: "unat (mss k) = unat (mtu k) - 36" "14 \<le> unat (mss k)" "unat (mss k) \<le> 2 ^ 30"
    using assms by (auto simp: cfg_inv_def IKCP_OVERHEAD_def)
  show "sint (mss k) = int (unat (mss k))" by (rule sint_small) (use *(3) in simp)
qed

lemma send_fragments_ok:
  assumes "cfg_inv k" "n = int (length d)" "src = Some (d @ junk)"
  shows "send_fragments fresh r src n k = Some (k\<lparr>snd_queue := snd_queue k @ fragments (unat (mss k)) (stream k = 0) r d,
     nsnd_que := nsnd_que k + of_nat r\<rparr>)"
  using assms
proof (induction r arbitrary: src n k d)
  case 0
  then show ?case by simp
next
  case (Suc r)
  let ?m = "unat (mss k)"
  define sz where "sz = (if n > sint (mss k) then sint (mss k) else n)"
  have sz: "nat sz = min ?m (length d)" "sz = int (min ?m (length d))"
    using Suc.prems(2) cfg_mss(4) [OF Suc.prems(1)] by (auto simp: sz_def)
  have fill: "seg_fill fresh src (nat sz) = Some (take ?m d)"
    using Suc.prems(3) sz by (auto simp: seg_fill_def min_def)
  have len: "(word_of_int sz :: u32) = of_nat (length (take ?m d))" by (simp add: sz min.commute)
  have adv: "advance src (nat sz) = Some (drop ?m d @ (if length d < ?m then drop 0 junk else junk))"
    using Suc.prems(3) sz by (auto simp: advance_def)
  let ?s = "(ikcp_segment_new (take ?m d))\<lparr>seg_len := of_nat (length (take ?m d)),
       seg_frg := (if stream k = 0 then of_nat r else 0)\<rparr>"
  let ?k = "k\<lparr>snd_queue := snd_queue k @ [?s], nsnd_que := nsnd_que k + 1\<rparr>"
  have "cfg_inv ?k" using Suc.prems(1) by (simp add: cfg_inv_def)
  moreover have "n - sz = int (length (drop ?m d))" using Suc.prems(2) sz by auto
  ultimately have "send_fragments fresh r (advance src (nat sz)) (n - sz) ?k
    = Some (?k\<lparr>snd_queue := snd_queue ?k @ fragments (unat (mss ?k)) (stream ?k = 0) r (drop ?m d),
        nsnd_que := nsnd_que ?k + of_nat r\<rparr>)"
    using adv by (intro Suc.IH) simp_all
  then show ?case
    using fill len by (simp add: Let_def flip: sz_def)
qed

text \<open>The number of fragments of a message of \<open>n\<close> bytes.\<close>

definition frag_count :: "nat \<Rightarrow> nat \<Rightarrow> nat" where
  "frag_count m n = (if n \<le> m then 1 else (n + m - 1) div m)"

lemma frag_count_enough: "0 < m \<Longrightarrow> n \<le> frag_count m n * m"
proof (cases "n \<le> m")
  case True
  then show ?thesis by (simp add: frag_count_def)
next
  case False
  assume m: "0 < m"
  have "n + m - 1 < (n + m - 1) div m * m + m"
    using m div_mult_mod_eq [of "n + m - 1" m] mod_less_divisor [OF m, of "n + m - 1"] by linarith
  then show ?thesis using False m by (simp add: frag_count_def)
qed

lemma send_count:
  assumes "cfg_inv k" "n < HALF"
  shows "(if int n \<le> sint (mss k) then 1 else sint ((word_of_int (int n) + mss k - 1) div mss k))
    = int (frag_count (unat (mss k)) n)"
proof (cases "n \<le> unat (mss k)")
  case True
  then show ?thesis using cfg_mss(4) [OF assms(1)] by (simp add: frag_count_def)
next
  case False
  let ?m = "unat (mss k)"
  note m = cfg_mss [OF assms(1)]
  have "unat (of_nat n :: u32) = n" using assms(2) by (simp add: unat_of_nat)
  then have "unat (of_nat n + mss k) = n + ?m"
    using assms(2) m(3) unat_add_lem [of "of_nat n :: u32" "mss k"] by simp
  moreover have "unat (of_nat n + mss k - 1) = unat (of_nat n + mss k) - 1"
    by (rule unat_minus_one) (use calculation m(2) in auto)
  ultimately have "unat ((of_nat n + mss k - 1) div mss k) = (n + ?m - 1) div ?m"
    by (simp add: unat_div_distrib)
  moreover have "(n + ?m - 1) div ?m < HALF"
  proof -
    have "(n + ?m - 1) div ?m \<le> (n + ?m - 1) div 14" using m(2) by (intro div_le_mono2) auto
    also have "\<dots> < HALF" using assms(2) m(3) by auto
    finally show ?thesis .
  qed
  ultimately have "sint ((of_nat n + mss k - 1) div mss k) = int ((n + ?m - 1) div ?m)"
    using sint_small by metis
  then show ?thesis using False m(4) by (simp add: frag_count_def)
qed

lemma frag_count_bound:
  assumes "14 \<le> m" "m \<le> 2 ^ 30" "n < HALF"
  shows "frag_count m n < HALF" "0 < frag_count m n"
proof -
  have "(n + m - 1) div m \<le> (n + m - 1) div 14" using assms(1) by (intro div_le_mono2) auto
  also have "\<dots> < HALF" using assms(2,3) by auto
  finally show "frag_count m n < HALF" by (simp add: frag_count_def)
  show "0 < frag_count m n" using assms(1) by (auto simp: frag_count_def div_greater_zero_iff)
qed

lemma send_message:
  assumes "cfg_inv k" "stream k = 0" "length d < HALF"
  defines "m \<equiv> unat (mss k)" and "c \<equiv> frag_count (unat (mss k)) (length d)"
  shows "ikcp_send fresh k (Some d) (int (length d)) =
    (if c \<ge> 128 then Some (-2, k)
     else Some (0, k\<lparr>snd_queue := snd_queue k @ fragments m True c d, nsnd_que := nsnd_que k + of_nat c\<rparr>))"
proof -
  note mm = cfg_mss [OF assms(1)]
  have pos: "mss k > 0" using mm(2) by (simp add: word_less_nat_alt)
  have cb: "c < HALF" "0 < c" using frag_count_bound [OF mm(2,3) assms(3)] by (simp_all add: c_def)
  have "(word_of_int (int c) :: u32) \<ge> IKCP_WND_RCV \<longleftrightarrow> c \<ge> 128"
    using cb by (simp add: IKCP_WND_RCV_def word_le_nat_alt unat_of_nat)
  moreover have "send_fragments fresh c (Some d) (int (length d)) k =
      Some (k\<lparr>snd_queue := snd_queue k @ fragments m True c d, nsnd_que := nsnd_que k + of_nat c\<rparr>)"
    using send_fragments_ok [OF assms(1) refl, of "Some d" d "[]" fresh c] assms(2) by (simp add: m_def)
  ultimately show ?thesis
    using pos cb(2) assms(2) send_count [OF assms(1,3)]
    by (simp add: ikcp_send_def send_count_check_def Let_def c_def)
qed

lemma send_inv_step:
  assumes "snd_inv k" "\<forall>s\<in>set xs. wf_seg s"
  shows "snd_inv (k\<lparr>snd_queue := snd_queue k @ xs, nsnd_que := nsnd_que k + of_nat (length xs)\<rparr>)"
  using assms by (auto simp: snd_inv_def)


definition fresh_ok :: "(nat \<Rightarrow> bytes) \<Rightarrow> bool" where
  "fresh_ok fresh \<longleftrightarrow> (\<forall>n. length (fresh n) = n)"

lemma seg_fill_length: "fresh_ok fresh \<Longrightarrow> seg_fill fresh src n = Some d \<Longrightarrow> length d = n"
  by (auto simp: seg_fill_def fresh_ok_def split: option.splits if_splits)

lemma send_fragments_keeps:
  assumes "fresh_ok fresh" "cfg_inv k" "0 \<le> n" "send_fragments fresh r src n k = Some k'"
  shows "\<exists>xs. k' = k\<lparr>snd_queue := snd_queue k @ xs, nsnd_que := nsnd_que k + of_nat (length xs)\<rparr>
    \<and> (\<forall>s\<in>set xs. wf_seg s \<and> unat (seg_len s) \<le> unat (mss k)) \<and> length xs = r"
  using assms(2-)
proof (induction r arbitrary: src n k)
  case 0
  then show ?case by (intro exI [of _ "[]"]) simp
next
  case (Suc r)
  let ?m = "unat (mss k)"
  note mm = cfg_mss [OF Suc.prems(1)]
  define sz where "sz = (if n > sint (mss k) then sint (mss k) else n)"
  have sz: "0 \<le> sz" "sz \<le> int ?m" "sz \<le> n" using Suc.prems(2) mm(4) by (auto simp: sz_def)
  obtain d where d: "seg_fill fresh src (nat sz) = Some d"
    using Suc.prems(3) by (auto simp: bind_Some_iff Let_def simp flip: sz_def)
  let ?s = "(ikcp_segment_new d)\<lparr>seg_len := word_of_int sz, seg_frg := (if stream k = 0 then of_nat r else 0)\<rparr>"
  let ?k = "k\<lparr>snd_queue := snd_queue k @ [?s], nsnd_que := nsnd_que k + 1\<rparr>"
  have rec: "send_fragments fresh r (advance src (nat sz)) (n - sz) ?k = Some k'"
    using Suc.prems(3) d by (simp add: Let_def flip: sz_def)
  have "cfg_inv ?k" using Suc.prems(1) by (simp add: cfg_inv_def)
  then obtain xs where xs: "k' = ?k\<lparr>snd_queue := snd_queue ?k @ xs, nsnd_que := nsnd_que ?k + of_nat (length xs)\<rparr>"
    "\<forall>s\<in>set xs. wf_seg s \<and> unat (seg_len s) \<le> unat (mss ?k)" "length xs = r"
    using Suc.IH [OF _ _ rec] sz by (metis diff_ge_0_iff_ge)
  have l: "unat (word_of_int sz :: u32) = nat sz"
    using sz mm(3) by (intro unat_word_of_int_small) auto
  then have "wf_seg ?s \<and> unat (seg_len ?s) \<le> ?m"
    using seg_fill_length [OF assms(1) d] sz by (simp add: wf_seg_def ikcp_segment_new_def)
  then show ?case using xs by (intro exI [of _ "?s # xs"]) simp
qed

lemma send_append_keeps:
  assumes "fresh_ok fresh" "cfg_inv k" "snd_inv k" "0 \<le> n" "send_append fresh src n k = Some (src', n', k')"
  shows "\<exists>q. k' = k\<lparr>snd_queue := q\<rparr> \<and> length q = length (snd_queue k) \<and> (\<forall>s\<in>set q. wf_seg s)
    \<and> 0 \<le> n' \<and> n' \<le> n \<and> (\<forall>s\<in>set q. s \<in> set (snd_queue k) \<or> unat (seg_len s) \<le> unat (mss k))"
proof (cases "snd_queue k = [] \<or> \<not> seg_len (last (snd_queue k)) < mss k")
  case True
  then have "k' = k" "n' = n" using assms(5) by (auto simp: send_append_def Let_def split: if_splits)
  then show ?thesis using assms(3,4) by (intro exI [of _ "snd_queue k"]) (auto simp: snd_inv_def)
next
  case False
  note mm = cfg_mss [OF assms(2)]
  let ?old = "last (snd_queue k)"
  define cap where "cap = sint (mss k - seg_len ?old)"
  define ext where "ext = (if n < cap then n else cap)"
  have u: "unat (mss k - seg_len ?old) = unat (mss k) - unat (seg_len ?old)"
    using False by (intro unat_sub) (simp add: word_le_nat_alt word_less_nat_alt)
  then have cap: "cap = int (unat (mss k) - unat (seg_len ?old))"
    unfolding cap_def using mm(3) by (subst sint_small) auto
  have ext: "0 \<le> ext" "ext \<le> n" "ext \<le> cap" using assms(4) cap by (auto simp: ext_def)
  obtain d0 d1 where d: "seg_fill fresh (Some (seg_data ?old)) (unat (seg_len ?old)) = Some d0"
      "seg_fill fresh src (nat ext) = Some d1"
    and r: "n' = n - ext" "k' = k\<lparr>snd_queue := butlast (snd_queue k) @
        [(ikcp_segment_new (d0 @ d1))\<lparr>seg_len := seg_len ?old + word_of_int ext, seg_frg := 0\<rparr>]\<rparr>"
    using assms(5) False by (auto simp: send_append_def Let_def bind_Some_iff simp flip: cap_def ext_def)
  let ?s = "(ikcp_segment_new (d0 @ d1))\<lparr>seg_len := seg_len ?old + word_of_int ext, seg_frg := 0\<rparr>"
  have le: "unat (seg_len ?old) + nat ext \<le> unat (mss k)"
    using ext cap False by (auto simp: word_less_nat_alt)
  have e: "unat (word_of_int ext :: u32) = nat ext"
    using le mm(3) ext by (intro unat_word_of_int_small) auto
  have "unat (seg_len ?old + word_of_int ext) = unat (seg_len ?old) + nat ext"
    using le mm(3) e unat_add_lem [of "seg_len ?old" "word_of_int ext"] by simp
  then have s: "wf_seg ?s" "unat (seg_len ?s) \<le> unat (mss k)"
    using le seg_fill_length [OF assms(1) d(1)] seg_fill_length [OF assms(1) d(2)]
    by (simp_all add: wf_seg_def ikcp_segment_new_def)
  have "\<forall>x\<in>set (butlast (snd_queue k)). wf_seg x" using assms(3) by (auto simp: snd_inv_def dest: in_set_butlastD)
  then show ?thesis
    using r s ext False by (intro exI [of _ "butlast (snd_queue k) @ [?s]"]) (auto dest: in_set_butlastD)
qed

lemma snd_queue_frame:
  assumes "kcp_inv k" "\<forall>s\<in>set q. wf_seg s" "c = of_nat (length q)"
  shows "kcp_inv (k\<lparr>snd_queue := q, nsnd_que := c\<rparr>)"
  using assms by (auto simp: kcp_inv_def kcp_parts)

lemma send_count_cases:
  "send_count_check fresh src n k = Some (c, k') \<Longrightarrow> k' = k \<or> (\<exists>r. send_fragments fresh r src n k = Some k')"
  unfolding send_count_check_def Let_def
  by (auto simp: bind_Some_iff simp del: send_fragments.simps split: if_splits)

lemma send_inv:
  assumes "ikcp_send fresh k src n = Some (c, k')" "kcp_inv k" "fresh_ok fresh"
  shows "kcp_inv k'"
proof (cases "n < 0")
  case True
  then show ?thesis using assms by (auto simp: ikcp_send_def split: if_splits)
next
  case n: False
  obtain src1 n1 k1 where 1: "(if stream k \<noteq> 0 then send_append fresh src n k else Some (src, n, k)) = Some (src1, n1, k1)"
    and k': "k' = k1 \<or> (\<exists>r. send_fragments fresh r src1 n1 k1 = Some k')"
    using assms(1) n send_count_cases by (fastforce simp: ikcp_send_def bind_Some_iff split: if_splits prod.splits)
  have i: "cfg_inv k" "snd_inv k" using assms(2) by (simp_all add: kcp_inv_def)
  obtain q where q: "k1 = k\<lparr>snd_queue := q\<rparr>" "length q = length (snd_queue k)" "\<forall>s\<in>set q. wf_seg s" "0 \<le> n1"
  proof (cases "stream k \<noteq> 0")
    case True
    then show ?thesis using that 1 send_append_keeps [OF assms(3) i, of n src src1 n1 k1] n by auto
  next
    case False
    then show ?thesis using that [of "snd_queue k"] 1 i n by (auto simp: snd_inv_def)
  qed
  have "nsnd_que k = of_nat (length q)" using i(2) q(2) by (simp add: snd_inv_def)
  moreover have "k1 = k\<lparr>snd_queue := q, nsnd_que := nsnd_que k\<rparr>" using q(1) by simp
  ultimately have ki: "kcp_inv k1" using snd_queue_frame [OF assms(2) q(3), of "nsnd_que k"] by metis
  from k' show ?thesis
  proof
    assume "k' = k1"
    then show ?thesis using ki by simp
  next
    assume "\<exists>r. send_fragments fresh r src1 n1 k1 = Some k'"
    then obtain xs where "k' = k1\<lparr>snd_queue := snd_queue k1 @ xs, nsnd_que := nsnd_que k1 + of_nat (length xs)\<rparr>"
      "\<forall>s\<in>set xs. wf_seg s"
      using send_fragments_keeps [OF assms(3) _ q(4)] ki by (fastforce simp: kcp_inv_def)
    moreover have "\<forall>s\<in>set (snd_queue k1). wf_seg s" "nsnd_que k1 = of_nat (length (snd_queue k1))"
      using ki by (auto simp: kcp_inv_def snd_inv_def)
    ultimately show ?thesis
      using snd_queue_frame [OF ki, of "snd_queue k1 @ xs"] by (simp add: ball_Un)
  qed
qed


section \<open>Receiving\<close>

text \<open>The segments of the first complete message of a queue, and what follows it.\<close>

primrec first_msg :: "IKCPSEG list \<Rightarrow> (IKCPSEG list \<times> IKCPSEG list) option" where
  "first_msg [] = None"
| "first_msg (s # q) =
     (if seg_frg s = 0 then Some ([s], q)
      else map_option (\<lambda>(a, b). (s # a, b)) (first_msg q))"

lemma first_msg_append: "first_msg q = Some (a, b) \<Longrightarrow> q = a @ b \<and> a \<noteq> []"
  by (induction q arbitrary: a b) (auto split: if_splits)

definition seg_bytes :: "IKCPSEG list \<Rightarrow> bytes" where
  "seg_bytes q = concat (map seg_data q)"

lemma sint_add_len:
  assumes "wf_seg s" "n + length (seg_data s) < HALF"
  shows "sint (word_of_int (int n) + seg_len s) = int (n + length (seg_data s))"
proof -
  have "(word_of_int (int n) + seg_len s :: u32) = of_nat (n + length (seg_data s))"
    using assms(1) by (simp add: wf_seg_def) (metis of_nat_unat ucast_id)
  then show ?thesis using sint_of_int_id [of "int (n + length (seg_data s))"] assms(2) by simp
qed

lemma peek_loop_ok:
  assumes "first_msg q = Some (a, b)" "\<forall>s\<in>set q. wf_seg s" "n + length (seg_bytes a) < HALF"
  shows "peek_loop q (int n) = int (n + length (seg_bytes a))"
  using assms
proof (induction q arbitrary: a n)
  case Nil
  then show ?case by simp
next
  case (Cons s q)
  have l: "n + length (seg_data s) < HALF" using Cons.prems by (auto simp: seg_bytes_def split: if_splits)
  note e = sint_add_len [OF _ l]
  show ?case
  proof (cases "seg_frg s = 0")
    case True
    then show ?thesis using Cons.prems e by (auto simp: seg_bytes_def Let_def)
  next
    case False
    then obtain a' where a': "first_msg q = Some (a', b)" "a = s # a'" using Cons.prems(1) by auto
    then show ?thesis
      using Cons.IH [OF a'(1), of "n + length (seg_data s)"] Cons.prems False e
      by (simp add: seg_bytes_def Let_def add.assoc)
  qed
qed

lemma peeksize_ok:
  assumes "rcv_inv k" "first_msg (rcv_queue k) = Some (a, b)" "length (seg_bytes a) < HALF"
    and "unat (seg_frg (hd a)) < length a"
  shows "ikcp_peeksize k = int (length (seg_bytes a))"
proof -
  obtain s q where q: "rcv_queue k = s # q" using assms(2) by (cases "rcv_queue k") auto
  have wf: "\<forall>s\<in>set (rcv_queue k). wf_seg s" using assms(1) by (auto simp: rcv_inv_def)
  have hda: "hd a = s" using assms(2) q by (auto split: if_splits)
  have lq: "unat (nrcv_que k) = length (rcv_queue k)" using assms(1) by (simp add: rcv_inv_def unat_of_nat)
  have la: "length a \<le> length (rcv_queue k)" "length (rcv_queue k) \<le> HALF"
    using first_msg_append [OF assms(2)] assms(1) by (auto simp: rcv_inv_def)
  have "unat (seg_frg s + 1) = unat (seg_frg s) + 1"
    using assms(4) hda la unat_add_lem [of "seg_frg s" 1] by simp
  then have "\<not> nrcv_que k < seg_frg s + 1"
    using assms(4) hda la lq by (simp add: word_less_nat_alt)
  moreover have "peek_loop (rcv_queue k) 0 = int (length (seg_bytes a))"
    using peek_loop_ok [OF assms(2) wf, of 0] assms(3) by simp
  moreover have "sint (seg_len s) = int (length (seg_bytes a))" if "seg_frg s = 0"
    using sint_add_len [of s 0] wf q assms(2,3) that by (auto simp: seg_bytes_def)
  ultimately show ?thesis using q by (auto simp: ikcp_peeksize_def Let_def split: if_splits)
qed

lemma recv_merge_ok:
  assumes "first_msg q = Some (a, b)" "\<forall>s\<in>set q. wf_seg s" "n + length (seg_bytes a) < HALF" "rcv_queue k = q"
  shows "recv_merge False True q (int n) dst k = Some (int (n + length (seg_bytes a)), dst @ seg_bytes a,
     k\<lparr>rcv_queue := b, nrcv_que := nrcv_que k - of_nat (length a)\<rparr>)"
  using assms
proof (induction q arbitrary: a n dst k)
  case Nil
  from Nil.prems(1) show ?case by simp
next
  case (Cons s q)
  have l: "n + length (seg_data s) < HALF" using Cons.prems by (auto simp: seg_bytes_def split: if_splits)
  have s: "unat (seg_len s) = length (seg_data s)" using Cons.prems(2) by (simp add: wf_seg_def)
  note e = sint_add_len [OF _ l]
  let ?k = "k\<lparr>rcv_queue := q, nrcv_que := nrcv_que k - 1\<rparr>"
  show ?case
  proof (cases "seg_frg s = 0")
    case True
    then show ?thesis using Cons.prems e s by (auto simp: seg_bytes_def Let_def)
  next
    case False
    then obtain a' where a': "first_msg q = Some (a', b)" "a = s # a'" using Cons.prems(1) by auto
    then show ?thesis
      using Cons.IH [OF a'(1), of "n + length (seg_data s)" ?k "dst @ seg_data s"] Cons.prems False e s
      by (simp add: seg_bytes_def Let_def add.assoc algebra_simps)
  qed
qed

text \<open>
  A complete message at the head of the queue that fits the caller's buffer is returned whole and
  removed; then the receive buffer feeds the queue, and the peer is told about the reopened window.
\<close>

lemma recv_message:
  assumes "rcv_inv k" "first_msg (rcv_queue k) = Some (a, b)" "length (seg_bytes a) < HALF"
    and "unat (seg_frg (hd a)) < length a" "int (length (seg_bytes a)) \<le> n" "n < 2 ^ 31"
  shows "ikcp_recv k True n = Some (int (length (seg_bytes a)), seg_bytes a,
    after_recv (nrcv_que k \<ge> rcv_wnd k) (k\<lparr>rcv_queue := b, nrcv_que := nrcv_que k - of_nat (length a)\<rparr>))"
proof -
  have ne: "rcv_queue k \<noteq> []" using first_msg_append [OF assms(2)] by auto
  have n: "0 \<le> n" "i32 \<bar>n\<bar> = Some n" using assms(5,6) by (auto simp: i32_def)
  have "\<forall>s\<in>set (rcv_queue k). wf_seg s" using assms(1) by (auto simp: rcv_inv_def)
  from recv_merge_ok [OF assms(2) this _ refl, of 0 "[]"] assms(3)
  have "recv_merge False True (rcv_queue k) 0 [] k = Some (int (length (seg_bytes a)), seg_bytes a,
      k\<lparr>rcv_queue := b, nrcv_que := nrcv_que k - of_nat (length a)\<rparr>)" by simp
  then show ?thesis
    using ne n assms(5) peeksize_ok [OF assms(1-4)]
    by (simp add: ikcp_recv_def Let_def)
qed


definition take_segs :: "nat \<Rightarrow> IKCPCB \<Rightarrow> IKCPCB" where
  "take_segs j k = k\<lparr>rcv_queue := drop j (rcv_queue k), nrcv_que := nrcv_que k - of_nat j\<rparr>"

lemma take_segs_0 [simp]: "take_segs 0 k = k"
  by (simp add: take_segs_def)

lemma take_segs_add: "take_segs i (take_segs j k) = take_segs (j + i) k"
  by (simp add: take_segs_def add.commute diff_diff_eq)

lemma recv_merge_peek: "recv_merge True hb q n dst k = Some (n', dst', k') \<Longrightarrow> k' = k"
  by (induction q arbitrary: n dst) (auto simp: Let_def split: if_splits)

lemma recv_merge_takes:
  assumes "recv_merge False hb q n dst k = Some (n', dst', k')" "rcv_queue k = q" "\<forall>s\<in>set q. wf_seg s"
  shows "\<exists>j \<le> length q. k' = take_segs j k \<and> (hb \<longrightarrow> dst' = dst @ seg_bytes (take j q))"
  using assms
proof (induction q arbitrary: n dst k)
  case Nil
  from Nil.prems(1) have "k' = k" "dst' = dst" by simp_all
  then show ?case by (intro exI [of _ 0]) (simp add: seg_bytes_def)
next
  case (Cons s q)
  let ?d = "if hb then dst @ seg_data s else dst"
  let ?n = "sint (word_of_int n + seg_len s)"
  have s: "unat (seg_len s) = length (seg_data s)" using Cons.prems(3) by (simp add: wf_seg_def)
  have one: "k\<lparr>rcv_queue := q, nrcv_que := nrcv_que k - 1\<rparr> = take_segs 1 k"
    unfolding take_segs_def Cons.prems(2) by simp
  have eq: "(if seg_frg s = 0 then Some (?n, ?d, take_segs 1 k) else recv_merge False hb q ?n ?d (take_segs 1 k))
      = Some (n', dst', k')"
    using Cons.prems(1) s unfolding one [symmetric] by (auto simp: Let_def split: if_splits)
  show ?case
  proof (cases "seg_frg s = 0")
    case True
    then have "dst' = ?d" "k' = take_segs 1 k" using eq by auto
    then show ?thesis by (intro exI [of _ 1]) (simp add: seg_bytes_def)
  next
    case False
    have q: "rcv_queue (take_segs 1 k) = q" unfolding one [symmetric] by simp
    obtain j where "j \<le> length q" "k' = take_segs j (take_segs 1 k)" "hb \<longrightarrow> dst' = ?d @ seg_bytes (take j q)"
      using Cons.IH [OF _ q, of ?n ?d] eq False Cons.prems(3) by auto
    then show ?thesis by (intro exI [of _ "Suc j"]) (simp add: take_segs_add seg_bytes_def)
  qed
qed

lemma take_segs_frame [simp]:
  "snd_inv (take_segs j k) = snd_inv k" "una_inv (take_segs j k) = una_inv k"
  "ack_inv (take_segs j k) = ack_inv k" "cfg_inv (take_segs j k) = cfg_inv k"
  by (simp_all add: snd_inv_def una_inv_def ack_inv_def cfg_inv_def take_segs_def)

lemma take_segs_keeps:
  assumes "kcp_inv k" "j \<le> length (rcv_queue k)"
  shows "kcp_inv (take_segs j k)"
proof -
  have "nrcv_que k - of_nat j = of_nat (length (drop j (rcv_queue k)))"
    using assms by (simp add: kcp_inv_def rcv_inv_def of_nat_diff)
  moreover have "set (drop j (rcv_queue k)) \<subseteq> set (rcv_queue k)" by (rule set_drop_subset)
  ultimately have "rcv_inv (take_segs j k)"
    using assms by (auto simp: kcp_inv_def rcv_inv_def take_segs_def)
  then show ?thesis
    using assms(1) by (simp add: kcp_inv_def)
qed

lemma take_segs_rel:
  assumes "rcv_rel S m k" "j \<le> length (rcv_queue k)"
  shows "rcv_rel S (m + j) (take_segs j k)"
  using assms by (auto simp: rcv_rel_def take_segs_def Let_def add.assoc)

lemma after_recv_keeps: "kcp_inv k \<Longrightarrow> kcp_inv (after_recv r k)"
  by (auto simp: after_recv_def Let_def kcp_inv_def move_ready_frame move_ready_inv
      probe_frame [unfolded kcp_inv_def])

lemma after_recv_rel: "rcv_inv k \<Longrightarrow> rcv_rel S m k \<Longrightarrow> rcv_rel S m (after_recv r k)"
  using move_ready_rel [of k S m] by (auto simp: after_recv_def Let_def rcv_rel_def)

text \<open>Whatever it returns, \<^verbatim>\<open>ikcp_recv\<close> takes some first segments of the queue and hands out their bytes.\<close>

lemma recv_unfold:
  assumes "ikcp_recv k hb n = Some (c, dst, k')" "\<not> (c < 0 \<and> dst = [] \<and> k' = k)"
  shows "\<exists>k1 r. recv_merge (n < 0) hb (rcv_queue k) 0 [] k = Some (c, dst, k1) \<and> k' = after_recv r k1
    \<and> c \<ge> 0 \<and> rcv_queue k \<noteq> [] \<and> c = ikcp_peeksize k \<and> c \<le> \<bar>n\<bar> \<and> \<bar>n\<bar> < 2 ^ 31"
proof -
  let ?p = "ikcp_peeksize k"
  have ne: "rcv_queue k \<noteq> []" using assms by (intro notI) (simp add: ikcp_recv_def)
  have n: "\<bar>n\<bar> < 2 ^ 31" using assms(1) ne by (intro ccontr [of "\<bar>n\<bar> < 2 ^ 31"]) (simp add: ikcp_recv_def i32_def)
  then have i: "i32 \<bar>n\<bar> = Some \<bar>n\<bar>" by (simp add: i32_def)
  have p: "0 \<le> ?p" using assms ne i by (intro ccontr [of "0 \<le> ?p"]) (simp add: ikcp_recv_def)
  have pn: "?p \<le> \<bar>n\<bar>" using assms ne i p by (intro ccontr [of "?p \<le> \<bar>n\<bar>"]) (simp add: ikcp_recv_def)
  have e: "(case recv_merge (n < 0) hb (rcv_queue k) 0 [] k of None \<Rightarrow> None
      | Some (got, d, k1) \<Rightarrow> if got \<noteq> ?p then None else Some (got, d, after_recv (nrcv_que k \<ge> rcv_wnd k) k1)) = Some (c, dst, k')"
    using assms(1) ne i p pn by (cases "recv_merge (n < 0) hb (rcv_queue k) 0 [] k") (simp_all add: ikcp_recv_def)
  then obtain k1 where "recv_merge (n < 0) hb (rcv_queue k) 0 [] k = Some (c, dst, k1)" "c = ?p"
    "k' = after_recv (nrcv_que k \<ge> rcv_wnd k) k1"
    by (auto split: option.splits if_splits)
  then show ?thesis using ne n p pn by auto
qed

lemma recv_cases:
  assumes "ikcp_recv k hb n = Some (c, dst, k')" "rcv_inv k"
  shows "(c < 0 \<and> dst = [] \<and> k' = k) \<or>
    (c \<ge> 0 \<and> rcv_queue k \<noteq> [] \<and> c = ikcp_peeksize k \<and> c \<le> \<bar>n\<bar> \<and> \<bar>n\<bar> < 2 ^ 31 \<and>
     (\<exists>j r. j \<le> length (rcv_queue k) \<and> k' = after_recv r (take_segs (if n < 0 then 0 else j) k)
       \<and> (n \<ge> 0 \<and> hb \<longrightarrow> dst = seg_bytes (take j (rcv_queue k)))))"
proof (cases "c < 0 \<and> dst = [] \<and> k' = k")
  case True
  then show ?thesis by simp
next
  case False
  have wf: "\<forall>s\<in>set (rcv_queue k). wf_seg s" using assms(2) by (auto simp: rcv_inv_def)
  obtain k1 r where m: "recv_merge (n < 0) hb (rcv_queue k) 0 [] k = Some (c, dst, k1)" and k': "k' = after_recv r k1"
    and c: "c \<ge> 0" "rcv_queue k \<noteq> []" "c = ikcp_peeksize k" "c \<le> \<bar>n\<bar>" "\<bar>n\<bar> < 2 ^ 31"
    using recv_unfold [OF assms(1) False] by blast
  have "\<exists>j r. j \<le> length (rcv_queue k) \<and> k' = after_recv r (take_segs (if n < 0 then 0 else j) k)
       \<and> (n \<ge> 0 \<and> hb \<longrightarrow> dst = seg_bytes (take j (rcv_queue k)))"
  proof (cases "n < 0")
    case True
    then have "k1 = k" using m recv_merge_peek [of hb "rcv_queue k" 0 "[]" k c dst k1] by simp
    then show ?thesis using k' True by (intro exI [of _ 0] exI [of _ r]) simp
  next
    case False
    then show ?thesis using recv_merge_takes [OF _ refl wf, of hb 0 "[]" c dst k1] m k' by auto
  qed
  then show ?thesis using c by blast
qed

lemma recv_inv: "ikcp_recv k hb n = Some (c, dst, k') \<Longrightarrow> kcp_inv k \<Longrightarrow> kcp_inv k'"
  using recv_cases [of k hb n c dst k'] after_recv_keeps take_segs_keeps [of k]
  by (auto simp: kcp_inv_def [of k])


section \<open>Properties\<close>

text \<open>
  C20: \<^verbatim>\<open>ikcp_send\<close> in message mode: a message of up to 127 segments is queued as its fragments in
  order (their data together is the message, each fits the segment size, the fragment numbers count
  down to 0); a longer one is refused with -2 and nothing is queued.
\<close>

theorem ikcp_send_fragments:
  assumes "cfg_inv k" "stream k = 0" "length d < HALF"
  shows "if frag_count (unat (mss k)) (length d) \<ge> 128
    then ikcp_send fresh k (Some d) (int (length d)) = Some (-2, k)
    else \<exists>fs k'. ikcp_send fresh k (Some d) (int (length d)) = Some (0, k')
      \<and> snd_queue k' = snd_queue k @ fs \<and> nsnd_que k' = nsnd_que k + of_nat (length fs)
      \<and> concat (map seg_data fs) = d \<and> map seg_frg fs = map of_nat (rev [0..<length fs])
      \<and> (\<forall>s\<in>set fs. unat (seg_len s) = length (seg_data s) \<and> length (seg_data s) \<le> unat (mss k))"
proof (cases "frag_count (unat (mss k)) (length d) \<ge> 128")
  case True
  then show ?thesis using send_message [OF assms, of fresh] by simp
next
  case False
  let ?m = "unat (mss k)" let ?c = "frag_count ?m (length d)" let ?fs = "fragments ?m True ?c d"
  have "length d \<le> ?c * ?m" using frag_count_enough [of ?m "length d"] cfg_mss(2) [OF assms(1)] by simp
  then have "concat (map seg_data ?fs) = d" by (rule fragments_concat)
  moreover have "\<forall>s\<in>set ?fs. unat (seg_len s) = length (seg_data s) \<and> length (seg_data s) \<le> ?m"
    using fragments_each cfg_mss(3) [OF assms(1)] by (fastforce simp: wf_seg_def)
  moreover have "map seg_frg ?fs = map of_nat (rev [0..<length ?fs])" by (simp add: fragments_frg)
  ultimately show ?thesis
    using send_message [OF assms, of fresh] False by (intro if_not_P [THEN iffD2] exI [of _ ?fs]) auto
qed

theorem ikcp_send_fragments_witness:
  "\<exists>fs k'. ikcp_send (\<lambda>n. replicate n 0) (ikcp_create Guid_zero) (Some [1, 2, 3]) 3 = Some (0, k')
     \<and> snd_queue k' = fs \<and> concat (map seg_data fs) = [1, 2, 3]"
proof -
  have "cfg_inv (ikcp_create Guid_zero)" "stream (ikcp_create Guid_zero) = 0"
    using create_inv by (simp_all add: kcp_inv_def ikcp_create_def)
  from ikcp_send_fragments [OF this, of "[1, 2, 3]" "\<lambda>n. replicate n 0"] show ?thesis
    by (auto simp: frag_count_def ikcp_create_def IKCP_MTU_DEF_def IKCP_OVERHEAD_def)
qed

text \<open>
  C21: \<^verbatim>\<open>ikcp_recv\<close> of a complete message at the head of the queue: it returns its size and exactly its
  bytes, no more than the caller's buffer holds, and removes exactly its segments; a buffer that is
  too small gets -3 and nothing changes.
\<close>

theorem ikcp_recv_message:
  assumes "rcv_inv k" "first_msg (rcv_queue k) = Some (a, b)" "length (seg_bytes a) < HALF"
    and "unat (seg_frg (hd a)) < length a" "0 \<le> n" "n < 2 ^ 31"
  shows "if int (length (seg_bytes a)) \<le> n
    then \<exists>k'. ikcp_recv k True n = Some (int (length (seg_bytes a)), seg_bytes a, k')
      \<and> (\<exists>moved. rcv_queue k' = b @ moved)
    else ikcp_recv k True n = Some (-3, [], k)"
proof (cases "int (length (seg_bytes a)) \<le> n")
  case True
  have "\<exists>moved. rcv_queue (move_ready q x) = rcv_queue x @ moved" for q x
  proof (induction q arbitrary: x)
    case (Cons s q)
    show ?case
      using Cons.IH [of "x\<lparr>rcv_buf := q, nrcv_buf := nrcv_buf x - 1, rcv_queue := rcv_queue x @ [s],
        nrcv_que := nrcv_que x + 1, rcv_nxt := rcv_nxt x + 1\<rparr>"] by auto
  qed simp
  then have "\<exists>moved. rcv_queue (after_recv r x) = rcv_queue x @ moved" for r x by (simp add: after_recv_def Let_def)
  from this [of "nrcv_que k \<ge> rcv_wnd k" "k\<lparr>rcv_queue := b, nrcv_que := nrcv_que k - of_nat (length a)\<rparr>"]
  show ?thesis using recv_message [OF assms(1-4) True assms(6)] True by auto
next
  case False
  have "rcv_queue k \<noteq> []" using first_msg_append [OF assms(2)] by auto
  then show ?thesis
    using False peeksize_ok [OF assms(1-4)] assms(5,6) by (simp add: ikcp_recv_def i32_def)
qed

definition ex_rcv :: IKCPCB where
  "ex_rcv = (ikcp_create Guid_zero)\<lparr>nrcv_que := 2, rcv_nxt := 2, rcv_queue :=
     [(ikcp_segment_new [10, 11])\<lparr>seg_len := 2, seg_frg := 1\<rparr>, (ikcp_segment_new [12])\<lparr>seg_len := 1\<rparr>]\<rparr>"

theorem ikcp_recv_message_witness: "\<exists>k'. ikcp_recv ex_rcv True 100 = Some (3, [10, 11, 12], k')"
proof -
  have "rcv_inv ex_rcv"
    by (simp add: rcv_inv_def ex_rcv_def ikcp_create_def ikcp_segment_new_def wf_seg_def IKCP_WND_RCV_def)
  then show ?thesis
    using ikcp_recv_message [of ex_rcv "rcv_queue ex_rcv" "[]" 100]
    by (simp add: ex_rcv_def ikcp_segment_new_def seg_bytes_def)
qed

end
