(* ===== verification/KcpWire.thy ===== *)
theory KcpWire
  imports KcpUser
begin

text \<open>
  The wire side of \<^verbatim>\<open>ikcp.h\<close>: the 36-byte header round trip, and \<^verbatim>\<open>ikcp_flush\<close>: it never writes
  outside its buffer, every datagram it gives to the callback is at most \<^verbatim>\<open>mtu\<close> bytes long and is a
  sequence of whole segments, and it preserves the invariant.
\<close>

section \<open>Header round trip\<close>

definition wire :: "IKCPSEG \<Rightarrow> bytes" where
  "wire s = ikcp_encode_seg s @ seg_data s"

definition wire_head :: "IKCPSEG \<Rightarrow> IKCPSEG" where
  "wire_head s = (ikcp_segment_new [])\<lparr>seg_conv := seg_conv s, seg_cmd := seg_cmd s AND 255,
     seg_frg := seg_frg s AND 255, seg_wnd := seg_wnd s AND 65535, seg_ts := seg_ts s, seg_sn := seg_sn s,
     seg_una := seg_una s, seg_len := seg_len s\<rparr>"

lemma length_encode_seg [simp]: "length (ikcp_encode_seg s) = 36"
  by (simp add: ikcp_encode_seg_def ikcp_encodeGuid_def ikcp_encode8u_def ikcp_encode16u_def ikcp_encode32u_def)

lemma decode_encode:
  "ikcp_decode8u (ikcp_encode8u c @ r) = Some (c, r)"
  "ikcp_decode16u (ikcp_encode16u w @ r) = Some (w, r)"
  "ikcp_decode32u (ikcp_encode32u l @ r) = Some (l, r)"
  "ikcp_decodeGuid (ikcp_encodeGuid g @ r) = Some (g, r)"
  by (simp_all add: ikcp_decode8u_def ikcp_encode8u_def ikcp_decode16u_def ikcp_encode16u_def
      ikcp_decode32u_def ikcp_encode32u_def ikcp_decodeGuid_def ikcp_encodeGuid_def Fill_guid_bytes le_word_le_bytes)

lemma mask_numerals: "(255 :: u32) = mask 8" "(65535 :: u32) = mask 16"
  by (simp_all add: mask_eq_exp_minus_1)

lemma ucast_ucast_mask:
  "(ucast (ucast (x :: u32) :: u8) :: u32) = x AND 255"
  "(ucast (ucast (x :: u32) :: u16) :: u32) = x AND 65535"
  unfolding mask_numerals
  by (rule bit_eqI; auto simp: bit_unsigned_iff bit_and_iff bit_mask_iff dest: bit_imp_le_length)+

lemma decode_encode_seg: "decode_seg (ikcp_encode_seg s @ r) = Some (wire_head s, r)"
  by (simp add: decode_seg_def decode_head_def ikcp_encode_seg_def decode_encode wire_head_def ucast_ucast_mask)

lemma wire_head_id:
  assumes "unat (seg_cmd s) < 256" "unat (seg_frg s) < 256" "unat (seg_wnd s) < 65536"
  shows "wire_head s = (ikcp_segment_new [])\<lparr>seg_conv := seg_conv s, seg_cmd := seg_cmd s,
     seg_frg := seg_frg s, seg_wnd := seg_wnd s, seg_ts := seg_ts s, seg_sn := seg_sn s,
     seg_una := seg_una s, seg_len := seg_len s\<rparr>"
proof -
  have m: "x AND mask n = x" if "unat x < 2 ^ n" for x :: u32 and n
    using that by (simp add: take_bit_eq_mask [symmetric] word_unat_eq_iff unsigned_take_bit_eq take_bit_nat_eq_self)
  show ?thesis using m [of "seg_cmd s" 8] m [of "seg_frg s" 8] m [of "seg_wnd s" 16] assms
    by (simp add: wire_head_def mask_numerals)
qed

text \<open>A datagram made of whole segments is decoded into exactly these segments.\<close>

definition wire_seg :: "IKCPSEG \<Rightarrow> IKCPSEG" where
  "wire_seg s = (wire_head s)\<lparr>seg_data := seg_data s\<rparr>"

lemma dgram_wire:
  assumes "\<forall>s\<in>set ss. wf_seg s"
  shows "dgram (concat (map wire ss)) = map wire_seg ss"
  using assms
proof (induction ss)
  case Nil
  then show ?case by (simp add: dgram.simps [of "[]"] decode_seg_def ikcp_decodeGuid_def Fill_def)
next
  case (Cons s ss)
  let ?r = "concat (map wire ss)"
  have "decode_seg (concat (map wire (s # ss))) = Some (wire_head s, seg_data s @ ?r)"
    using decode_encode_seg [of s "seg_data s @ ?r"] by (simp add: wire_def)
  moreover have "unat (seg_len (wire_head s)) = length (seg_data s)"
    using Cons.prems by (simp add: wire_head_def wf_seg_def)
  ultimately show ?case
    using Cons by (simp add: dgram.simps [of "wire s @ _"] wire_seg_def)
qed


section \<open>The output buffer\<close>

definition made_of :: "(IKCPSEG \<Rightarrow> bool) \<Rightarrow> bytes \<Rightarrow> bool" where
  "made_of E d \<longleftrightarrow> (\<exists>ss. d = concat (map wire ss) \<and> (\<forall>s\<in>set ss. E s))"

text \<open>
  \<open>po_inv E M po\<close>: the bytes pending in the buffer and every datagram given out are whole segments
  that satisfy \<open>E\<close>, of at most \<open>M\<close> bytes together, and no empty datagram is given out.
\<close>

definition po_inv :: "(IKCPSEG \<Rightarrow> bool) \<Rightarrow> nat \<Rightarrow> bytes \<times> bytes list \<Rightarrow> bool" where
  "po_inv E M po \<longleftrightarrow> made_of E (fst po) \<and> length (fst po) \<le> M
     \<and> (\<forall>d\<in>set (snd po). made_of E d \<and> d \<noteq> [] \<and> length d \<le> M)"

lemma made_of_Nil [simp]: "made_of E []"
  by (auto simp: made_of_def intro: exI [of _ "[]"])

lemma made_of_snoc: "made_of E d \<Longrightarrow> E s \<Longrightarrow> made_of E (d @ wire s)"
  unfolding made_of_def
proof -
  assume "\<exists>ss. d = concat (map wire ss) \<and> (\<forall>s\<in>set ss. E s)" "E s"
  then obtain ss where "d = concat (map wire ss)" "\<forall>s\<in>set ss. E s" by blast
  then show "\<exists>ss. d @ wire s = concat (map wire ss) \<and> (\<forall>s\<in>set ss. E s)"
    using \<open>E s\<close> by (intro exI [of _ "ss @ [s]"]) auto
qed

lemma output_ok:
  "koutput k \<Longrightarrow> ikcp_output k d outs = Some (outs @ (if d = [] then [] else [d]))"
  by (simp add: ikcp_output_def)

lemma room_put:
  assumes "cfg_inv k" "koutput k" "po_inv E (unat (mtu k)) po" "E s" "wf_seg s"
    and "unat (seg_len s) \<le> unat (mss k)" "need = int (36 + unat (seg_len s))"
  shows "\<exists>po'. do { po \<leftarrow> flush_room k need po; flush_put k s po } = Some po' \<and> po_inv E (unat (mtu k)) po'"
proof -
  let ?M = "unat (mtu k)" and ?n = "unat (seg_len s)"
  obtain ptr outs where po: "po = (ptr, outs)" by fastforce
  have c: "?M < 2 ^ 30" "50 \<le> ?M" "kbuffer k = 3 * (?M + 36)" using assms(1) by (auto simp: cfg_inv_def)
  have n: "36 + ?n \<le> ?M" using cfg_mss(1) [OF assms(1)] assms(6) c(2) by linarith
  have M: "sint (mtu k) = int ?M" by (rule sint_small) (use c in simp)
  have p: "length ptr \<le> ?M" "made_of E ptr" "\<forall>d\<in>set outs. made_of E d \<and> d \<noteq> [] \<and> length d \<le> ?M"
    using assms(3) po by (auto simp: po_inv_def)
  have i: "i32 (int (length ptr) + need) = Some (int (length ptr) + need)"
    using p n c assms(7) by (intro i32_ok) auto
  obtain q outs' where r: "flush_room k need po = Some (q, outs')"
    and q: "made_of E q" "length q + 36 + ?n \<le> ?M" "\<forall>d\<in>set outs'. made_of E d \<and> d \<noteq> [] \<and> length d \<le> ?M"
  proof (cases "length ptr + 36 + ?n > ?M")
    case True
    then have "flush_room k need po = Some ([], outs @ (if ptr = [] then [] else [ptr]))"
      using po i M assms(7) by (auto simp: flush_room_def output_ok [OF assms(2)])
    then show ?thesis using that p n by (auto split: if_splits)
  next
    case False
    then have "flush_room k need po = Some (ptr, outs)"
      using po i M assms(7) by (auto simp: flush_room_def)
    then show ?thesis using that False p by auto
  qed
  have "flush_put k s (q, outs') = Some (q @ wire s, outs')"
  proof (cases "seg_len s > 0")
    case True
    then show ?thesis using q c assms(5) by (auto simp: flush_put_def wire_def wf_seg_def Let_def)
  next
    case False
    then have "seg_data s = []" using assms(5) by (simp add: wf_seg_def word_gt_0)
    then show ?thesis using False q c by (auto simp: flush_put_def wire_def)
  qed
  moreover have "po_inv E ?M (q @ wire s, outs')"
    using q assms(4,5) made_of_snoc by (auto simp: po_inv_def wire_def wf_seg_def)
  ultimately show ?thesis using r by simp
qed


section \<open>Flushing\<close>

text \<open>Segments that carry no data: acknowledgements and window probes.\<close>

definition ctl_seg :: "Guid \<Rightarrow> IKCPSEG \<Rightarrow> bool" where
  "ctl_seg cv s \<longleftrightarrow> seg_conv s = cv \<and> seg_cmd s \<in> {IKCP_CMD_ACK, IKCP_CMD_WASK, IKCP_CMD_WINS}
     \<and> seg_frg s = 0 \<and> seg_len s = 0 \<and> seg_data s = []"

lemma ctl_wf: "ctl_seg cv s \<Longrightarrow> wf_seg s \<and> unat (seg_len s) = 0"
  by (auto simp: ctl_seg_def wf_seg_def)

lemma overhead_int: "sint IKCP_OVERHEAD = int (36 + unat (0 :: u32))"
  by (simp add: IKCP_OVERHEAD_def)

lemma room_put_ctl:
  assumes "cfg_inv k" "koutput k" "po_inv E (unat (mtu k)) po" "ctl_seg cv s" "\<And>s. ctl_seg cv s \<Longrightarrow> E s"
  shows "\<exists>po'. do { po \<leftarrow> flush_room k (sint IKCP_OVERHEAD) po; flush_put k s po } = Some po'
    \<and> po_inv E (unat (mtu k)) po'"
proof (rule room_put [OF assms(1-3)])
  show "E s" using assms(4,5) by blast
  show "wf_seg s" "unat (seg_len s) \<le> unat (mss k)" "sint IKCP_OVERHEAD = int (36 + unat (seg_len s))"
    using ctl_wf [OF assms(4)] by (auto simp: IKCP_OVERHEAD_def)
qed

lemma ack_get_ok:
  assumes "ack_inv k" "i < unat (ackcount k)"
  shows "\<exists>sn ts. ikcp_ack_get k i = Some (sn, ts)"
proof -
  have "acklist k ! (i * 2) \<noteq> None" "acklist k ! (i * 2 + 1) \<noteq> None" "\<not> length (acklist k) \<le> i * 2 + 1"
    using assms by (auto simp: ack_inv_def)
  then show ?thesis by (auto simp: ikcp_ack_get_def)
qed

lemma flush_acks_ok:
  assumes "cfg_inv k" "koutput k" "ack_inv k" "\<And>s. ctl_seg cv s \<Longrightarrow> E s"
    and "po_inv E (unat (mtu k)) po" "ctl_seg cv s" "i + n \<le> unat (ackcount k)"
  shows "\<exists>s' po'. flush_acks k n i s po = Some (s', po') \<and> po_inv E (unat (mtu k)) po' \<and> ctl_seg cv s'
    \<and> seg_wnd s' = seg_wnd s"
  using assms(5-)
proof (induction n arbitrary: i s po)
  case 0
  then show ?case by simp
next
  case (Suc n)
  obtain sn ts where g: "ikcp_ack_get k i = Some (sn, ts)"
    using ack_get_ok [OF assms(3), of i] Suc.prems(3) by auto
  let ?s = "s\<lparr>seg_sn := sn, seg_ts := ts\<rparr>"
  have s: "ctl_seg cv ?s" using Suc.prems(2) by (simp add: ctl_seg_def)
  obtain po' where po': "do { po \<leftarrow> flush_room k (sint IKCP_OVERHEAD) po; flush_put k ?s po } = Some po'"
    "po_inv E (unat (mtu k)) po'"
    using room_put_ctl [OF assms(1,2) Suc.prems(1) s assms(4)] by blast
  then obtain po1 where "flush_room k (sint IKCP_OVERHEAD) po = Some po1" "flush_put k ?s po1 = Some po'"
    by (auto simp: bind_Some_iff)
  then show ?case
    using Suc.IH [OF po'(2) s, of "Suc i"] Suc.prems(3) g by auto
qed

lemma flush_probe_ok:
  assumes "cfg_inv k" "koutput k" "\<And>s. ctl_seg cv s \<Longrightarrow> E s" "po_inv E (unat (mtu k)) po" "ctl_seg cv s"
    and "cmd \<in> {IKCP_CMD_WASK, IKCP_CMD_WINS}"
  shows "\<exists>s' po'. flush_probe k b cmd s po = Some (s', po') \<and> po_inv E (unat (mtu k)) po' \<and> ctl_seg cv s'
    \<and> seg_wnd s' = seg_wnd s"
proof (cases "probe k AND b = 0")
  case True
  then show ?thesis using assms by (simp add: flush_probe_def)
next
  case False
  let ?s = "s\<lparr>seg_cmd := cmd\<rparr>"
  have s: "ctl_seg cv ?s" using assms(5,6) by (auto simp: ctl_seg_def)
  obtain po' where "do { po \<leftarrow> flush_room k (sint IKCP_OVERHEAD) po; flush_put k ?s po } = Some po'"
    "po_inv E (unat (mtu k)) po'"
    using room_put_ctl [OF assms(1,2,4) s assms(3)] by blast
  then show ?thesis using False s by (cases po') (auto simp: flush_probe_def bind_Some_iff)
qed

definition fits_mtu :: "IKCPCB \<Rightarrow> bool" where
  "fits_mtu k \<longleftrightarrow> (\<forall>s\<in>set (snd_queue k) \<union> set (snd_buf k). unat (seg_len s) \<le> unat (mss k))"

text \<open>What a retransmission leaves alone in a segment.\<close>

definition same_seg :: "IKCPSEG \<Rightarrow> IKCPSEG \<Rightarrow> bool" where
  "same_seg a b \<longleftrightarrow> seg_conv a = seg_conv b \<and> seg_cmd a = seg_cmd b \<and> seg_frg a = seg_frg b
     \<and> seg_sn a = seg_sn b \<and> seg_len a = seg_len b \<and> seg_data a = seg_data b"

lemma same_seg_refl [simp]: "same_seg s s"
  by (simp add: same_seg_def)

lemma flush_due_same: "flush_due k resent rtomin s = Some (s', l, c) \<Longrightarrow> same_seg s' s"
  by (auto simp: flush_due_def same_seg_def Let_def split: if_splits)

lemma flush_segs_ok:
  assumes "cfg_inv k" "koutput k" "po_inv E (unat (mtu k)) po" "\<And>s s'. same_seg s' s \<Longrightarrow> E s \<Longrightarrow> E s'"
    and "\<forall>s\<in>set q. E s \<and> wf_seg s \<and> unat (seg_len s) \<le> unat (mss k)"
  shows "\<exists>q' x st l' c' po'. flush_segs wnd resent rtomin q k l c po = Some (q', k\<lparr>kxmit := x, kstate := st\<rparr>, l', c', po')
    \<and> list_all2 same_seg q' q \<and> po_inv E (unat (mtu k)) po'"
  using assms(1,2,3,5)
proof (induction q arbitrary: k l c po)
  case Nil
  have "k = k\<lparr>kxmit := kxmit k, kstate := kstate k\<rparr>" by simp
  then show ?case using Nil.prems(3) by (metis flush_segs.simps(1) list_all2_Nil)
next
  case (Cons s q)
  show ?case
  proof (cases "flush_due k resent rtomin s")
    case None
    obtain q' x st l' c' po' where "flush_segs wnd resent rtomin q k l c po
        = Some (q', k\<lparr>kxmit := x, kstate := st\<rparr>, l', c', po')" "list_all2 same_seg q' q" "po_inv E (unat (mtu k)) po'"
      using Cons.IH [OF Cons.prems(1-3), of l c] Cons.prems(4) by auto
    then have "flush_segs wnd resent rtomin (s # q) k l c po
        = Some (s # q', k\<lparr>kxmit := x, kstate := st\<rparr>, l', c', po')" "list_all2 same_seg (s # q') (s # q)"
        "po_inv E (unat (mtu k)) po'"
      using None by simp_all
    then show ?thesis by blast
  next
    case (Some t)
    obtain s1 l1 c1 where t: "t = (s1, l1, c1)" by (metis prod_cases3)
    define k1 where "k1 = (if l1 then k\<lparr>kxmit := kxmit k + 1\<rparr> else k)"
    define s2 where "s2 = s1\<lparr>seg_ts := kcurrent k1, seg_wnd := wnd, seg_una := rcv_nxt k1\<rparr>"
    define k2 where "k2 = (if seg_xmit s2 \<ge> dead_link k1 then k1\<lparr>kstate := -1\<rparr> else k1)"
    have same: "same_seg s2 s" using flush_due_same [of k resent rtomin s s1 l1 c1] Some t
      by (simp add: s2_def same_seg_def)
    have k1: "cfg_inv k1" "koutput k1" "mtu k1 = mtu k" "mss k1 = mss k"
      using Cons.prems(1,2) by (auto simp: k1_def cfg_inv_def)
    have k2: "cfg_inv k2" "koutput k2" "mtu k2 = mtu k" "mss k2 = mss k" "\<exists>x st. k2 = k\<lparr>kxmit := x, kstate := st\<rparr>"
    proof -
      show "cfg_inv k2" "koutput k2" "mtu k2 = mtu k" "mss k2 = mss k" using k1 by (auto simp: k2_def cfg_inv_def)
      have "k2 = k\<lparr>kxmit := kxmit k2, kstate := kstate k2\<rparr>" by (auto simp: k2_def k1_def)
      then show "\<exists>x st. k2 = k\<lparr>kxmit := x, kstate := st\<rparr>" by blast
    qed
    have s2: "E s2" "wf_seg s2" "unat (seg_len s2) \<le> unat (mss k1)"
      using same assms(4) Cons.prems(4) k1(4) by (auto simp: same_seg_def wf_seg_def)
    have need: "sint (IKCP_OVERHEAD + seg_len s2) = int (36 + unat (seg_len s2))"
    proof -
      have b: "36 + unat (seg_len s2) < HALF" using s2(3) cfg_mss(3) [OF k1(1)] by simp
      have "unat (IKCP_OVERHEAD + seg_len s2) = 36 + unat (seg_len s2)"
        using b unat_add_lem [of IKCP_OVERHEAD "seg_len s2"] by (simp add: IKCP_OVERHEAD_def)
      then show ?thesis using sint_small [of "IKCP_OVERHEAD + seg_len s2"] b by simp
    qed
    obtain po' where "do { po \<leftarrow> flush_room k1 (sint (IKCP_OVERHEAD + seg_len s2)) po; flush_put k1 s2 po } = Some po'"
      and po': "po_inv E (unat (mtu k)) po'"
      using room_put [where E = E, OF k1(1,2) _ s2 need, of po] Cons.prems(3) k1(3) by auto
    then obtain po1 where r: "flush_room k1 (sint (IKCP_OVERHEAD + seg_len s2)) po = Some po1" "flush_put k1 s2 po1 = Some po'"
      by (auto simp: bind_Some_iff)
    obtain q' x st l' c' po2 where rec: "flush_segs wnd resent rtomin q k2 (l \<or> l1) (c \<or> c1) po'
        = Some (q', k2\<lparr>kxmit := x, kstate := st\<rparr>, l', c', po2)" "list_all2 same_seg q' q" "po_inv E (unat (mtu k2)) po2"
      using Cons.IH [OF k2(1,2), of po' "l \<or> l1" "c \<or> c1"] po' Cons.prems(4) k2(3,4) by auto
    have e: "seg_len s1 = seg_len s2" "seg_xmit s1 = seg_xmit s2" by (simp_all add: s2_def)
    have "k2\<lparr>kxmit := x, kstate := st\<rparr> = k\<lparr>kxmit := x, kstate := st\<rparr>" using k2(5) by auto
    then have "flush_segs wnd resent rtomin (s # q) k l c po = Some (s2 # q', k\<lparr>kxmit := x, kstate := st\<rparr>, l', c', po2)"
      using Some t r rec(1) by (cases "dead_link k1 \<le> seg_xmit s2") (simp_all add: e k2_def Let_def flip: k1_def s2_def)
    then show ?thesis using rec(2,3) same k2(3) by fastforce
  qed
qed


text \<open>
  The loop that assigns sequence numbers: a segment leaves the queue only while fewer than the
  window are in flight, and gets the next number.
\<close>

definition send_one :: "u32 \<Rightarrow> IKCPSEG \<Rightarrow> IKCPSEG list \<Rightarrow> IKCPCB \<Rightarrow> IKCPCB" where
  "send_one wnd s q k = k\<lparr>snd_queue := q, snd_buf := snd_buf k @ [s\<lparr>seg_conv := kconv k,
     seg_cmd := IKCP_CMD_PUSH, seg_wnd := wnd, seg_ts := kcurrent k, seg_sn := snd_nxt k, seg_una := rcv_nxt k,
     seg_resendts := kcurrent k, seg_rto := word_of_int (rx_rto k), seg_fastack := 0, seg_xmit := 0\<rparr>],
     nsnd_que := nsnd_que k - 1, nsnd_buf := nsnd_buf k + 1, snd_nxt := snd_nxt k + 1\<rparr>"

lemma flush_move_induct:
  assumes "P k"
    and "\<And>k s q. P k \<Longrightarrow> snd_queue k = s # q \<Longrightarrow> itimediff (snd_nxt k) (snd_una k + cw) < 0 \<Longrightarrow> P (send_one wnd s q k)"
  shows "P (flush_move wnd cw (snd_queue k) k)"
proof -
  have "snd_queue k = q \<Longrightarrow> P k \<Longrightarrow> P (flush_move wnd cw q k)" for q
  proof (induction q arbitrary: k)
    case Nil
    then show ?case by simp
  next
    case (Cons s q)
    show ?case
    proof (cases "itimediff (snd_nxt k) (snd_una k + cw) < 0")
      case True
      then have "P (send_one wnd s q k)" using assms(2) Cons.prems by blast
      moreover have "snd_queue (send_one wnd s q k) = q" by (simp add: send_one_def)
      ultimately have "P (flush_move wnd cw q (send_one wnd s q k))" using Cons.IH by blast
      then show ?thesis using True by (simp add: send_one_def Let_def)
    next
      case False
      then show ?thesis using Cons.prems by simp
    qed
  qed
  then show ?thesis using assms(1) by blast
qed

lemma send_one_inv:
  assumes "snd_inv k" "una_inv k" "fits_mtu k" "snd_queue k = s # q" "itimediff (snd_nxt k) (snd_una k + cw) < 0"
    and "unat cw < 65536"
  shows "snd_inv (send_one wnd s q k)" "una_inv (send_one wnd s q k)" "fits_mtu (send_one wnd s q k)"
    "off (snd_una k) (snd_nxt (send_one wnd s q k)) \<le> unat cw"
proof -
  let ?u = "snd_una k"
  have h: "off ?u (snd_nxt k) < HALF" "off ?u (?u + cw) < HALF"
    using assms(1,6) by (auto simp: snd_inv_def off_base)
  have lt: "off ?u (snd_nxt k) < unat cw"
    using itimediff_off [OF h] assms(5) by (simp add: off_base)
  then have nx: "off ?u (snd_nxt k + 1) = off ?u (snd_nxt k) + 1"
    using off_add [of ?u "snd_nxt k" 1] assms(6) by simp
  show "snd_inv (send_one wnd s q k)"
    using assms(1,4) lt nx assms(6) h(1)
    by (auto simp: snd_inv_def send_one_def ordered_append ordered_Cons wf_seg_def)
  show "una_inv (send_one wnd s q k)"
    using assms(2) by (cases "snd_buf k") (auto simp: una_inv_def send_one_def)
  show "fits_mtu (send_one wnd s q k)" using assms(3,4) by (auto simp: fits_mtu_def send_one_def)
  show "off ?u (snd_nxt (send_one wnd s q k)) \<le> unat cw" using lt nx by (simp add: send_one_def)
qed

lemma send_one_frame [simp]:
  "rcv_inv (send_one wnd s q k) = rcv_inv k" "ack_inv (send_one wnd s q k) = ack_inv k"
  "cfg_inv (send_one wnd s q k) = cfg_inv k" "koutput (send_one wnd s q k) = koutput k"
  "mtu (send_one wnd s q k) = mtu k" "rcv_rel S m (send_one wnd s q k) = rcv_rel S m k"
  "snd_una (send_one wnd s q k) = snd_una k" "stream (send_one wnd s q k) = stream k" "kconv (send_one wnd s q k) = kconv k" "rtt_inv (send_one wnd s q k) = rtt_inv k"
  by (simp_all add: send_one_def rcv_inv_def ack_inv_def cfg_inv_def rcv_rel_def rtt_inv_def)

lemma flush_cwnd_bound: "snd_inv k \<Longrightarrow> unat (flush_cwnd k) < 65536"
  by (auto simp: flush_cwnd_def imin_def Let_def snd_inv_def word_le_nat_alt)

text \<open>The window bounds what is in flight after the loop, unless it already was beyond it.\<close>

definition move_post :: "u32 \<Rightarrow> IKCPCB \<Rightarrow> IKCPCB \<Rightarrow> bool" where
  "move_post cw k k' \<longleftrightarrow> kcp_inv k' \<and> fits_mtu k' \<and> koutput k' = koutput k \<and> mtu k' = mtu k \<and> stream k' = stream k
    \<and> off (snd_una k') (snd_nxt k') \<le> max (off (snd_una k) (snd_nxt k)) (unat cw) \<and> snd_una k' = snd_una k
    \<and> kconv k' = kconv k \<and> rtt_inv k' = rtt_inv k \<and> (\<forall>S m. rcv_rel S m k' = rcv_rel S m k)"

lemma flush_move_ok:
  assumes "kcp_inv k" "fits_mtu k" "unat cw < 65536"
  shows "move_post cw k (flush_move wnd cw (snd_queue k) k)"
proof (rule flush_move_induct [where P = "move_post cw k"])
  show "move_post cw k k" using assms by (simp add: move_post_def)
  fix k1 s q
  assume p: "move_post cw k k1" and q: "snd_queue k1 = s # q" "itimediff (snd_nxt k1) (snd_una k1 + cw) < 0"
  have "snd_inv k1" "una_inv k1" "fits_mtu k1" using p by (simp_all add: move_post_def kcp_inv_def)
  note i = send_one_inv [OF this q assms(3), of wnd]
  show "move_post cw k (send_one wnd s q k1)"
    using p i by (simp add: move_post_def kcp_inv_def)
qed


text \<open>
  The sender's relation to the list \<open>L\<close> of everything the user ever queued: the first \<open>n\<close> have a
  number, which is their position modulo \<open>2^32\<close>; the rest is still in the queue.
\<close>

definition snd_rel :: "(u32 \<times> bytes) list \<Rightarrow> IKCPCB \<Rightarrow> bool" where
  "snd_rel L k \<longleftrightarrow> (\<exists>n \<le> length L. snd_nxt k = of_nat n \<and> map payload (snd_queue k) = drop n L
     \<and> (\<forall>s\<in>set (snd_buf k). seg_conv s = kconv k \<and> seg_cmd s = IKCP_CMD_PUSH
          \<and> (\<exists>i<n. seg_sn s = of_nat i \<and> payload s = L ! i)))"

lemma send_one_rel:
  assumes "snd_rel L k" "snd_queue k = s # q"
  shows "snd_rel L (send_one wnd s q k)"
proof -
  obtain n where n: "n \<le> length L" "snd_nxt k = of_nat n" "payload s # map payload q = drop n L"
    and b: "\<forall>s\<in>set (snd_buf k). seg_conv s = kconv k \<and> seg_cmd s = IKCP_CMD_PUSH
          \<and> (\<exists>i<n. seg_sn s = of_nat i \<and> payload s = L ! i)"
    using assms by (auto simp: snd_rel_def)
  have lt: "n < length L" using n(3) by (cases "n < length L") auto
  then have "L ! n = payload s" "drop (Suc n) L = map payload q"
    using n(3) by (metis Cons_nth_drop_Suc list.inject)+
  moreover have "\<exists>i<Suc n. seg_sn s = of_nat i \<and> payload s = L ! i" if "s \<in> set (snd_buf k)" for s
    using b that less_Suc_eq by metis
  ultimately show ?thesis
    unfolding snd_rel_def using lt n(2) b
    by (intro exI [of _ "Suc n"]) (auto simp: send_one_def payload_def)
qed

lemma flush_move_rel: "snd_rel L k \<Longrightarrow> snd_rel L (flush_move wnd cw (snd_queue k) k)"
  by (rule flush_move_induct [where P = "snd_rel L"]) (auto intro: send_one_rel)

lemma list_all2_in: "list_all2 P xs ys \<Longrightarrow> x \<in> set xs \<Longrightarrow> \<exists>y\<in>set ys. P x y"
  by (induction rule: list_all2_induct) auto

lemma list_all2_in': "list_all2 P xs ys \<Longrightarrow> y \<in> set ys \<Longrightarrow> \<exists>x\<in>set xs. P x y"
  by (induction rule: list_all2_induct) auto

lemma same_segs_keep:
  assumes "list_all2 same_seg q (snd_buf k)"
  shows "kcp_inv k \<Longrightarrow> kcp_inv (k\<lparr>snd_buf := q\<rparr>)" "fits_mtu k \<Longrightarrow> fits_mtu (k\<lparr>snd_buf := q\<rparr>)"
    "snd_rel L k \<Longrightarrow> snd_rel L (k\<lparr>snd_buf := q\<rparr>)"
proof -
  have sn: "map seg_sn q = map seg_sn (snd_buf k)"
    using assms by (auto simp: list_all2_conv_all_nth same_seg_def intro: nth_equalityI)
  have len: "length q = length (snd_buf k)" using assms by (rule list_all2_lengthD)
  have to: "\<exists>t\<in>set (snd_buf k). same_seg s t" if "s \<in> set q" for s using list_all2_in [OF assms that] .
  have tr: "\<forall>s\<in>set q. P s" if "\<forall>s\<in>set (snd_buf k). P s" "\<And>s t. same_seg s t \<Longrightarrow> P t \<Longrightarrow> P s" for P
    using that to by blast
  have wf: "\<forall>s\<in>set q. wf_seg s" if "\<forall>s\<in>set (snd_buf k). wf_seg s"
    using tr [OF that] by (simp add: same_seg_def wf_seg_def)
  have lt: "\<forall>s\<in>set q. off (snd_una k) (seg_sn s) < off (snd_una k) (snd_nxt k)"
    if "\<forall>s\<in>set (snd_buf k). off (snd_una k) (seg_sn s) < off (snd_una k) (snd_nxt k)"
    using tr [OF that] by (simp add: same_seg_def)
  have ord: "ordered (snd_una k) q = ordered (snd_una k) (snd_buf k)" using ordered_cong sn by blast
  show "kcp_inv (k\<lparr>snd_buf := q\<rparr>)" if "kcp_inv k"
  proof -
    have "snd_inv k" using that by (simp add: kcp_inv_def)
    then have "snd_inv (k\<lparr>snd_buf := q\<rparr>)" using wf lt ord len by (auto simp: snd_inv_def)
    then show ?thesis using that by (simp add: kcp_inv_def una_inv_def sn rcv_inv_def ack_inv_def cfg_inv_def)
  qed
  show "fits_mtu (k\<lparr>snd_buf := q\<rparr>)" if "fits_mtu k"
    using that tr [of "\<lambda>s. unat (seg_len s) \<le> unat (mss k)"] by (auto simp: fits_mtu_def same_seg_def)
  show "snd_rel L (k\<lparr>snd_buf := q\<rparr>)" if "snd_rel L k"
  proof -
    obtain n where n: "n \<le> length L" "snd_nxt k = of_nat n" "map payload (snd_queue k) = drop n L"
      and b: "\<forall>s\<in>set (snd_buf k). seg_conv s = kconv k \<and> seg_cmd s = IKCP_CMD_PUSH
          \<and> (\<exists>i<n. seg_sn s = of_nat i \<and> payload s = L ! i)"
      using \<open>snd_rel L k\<close> by (auto simp: snd_rel_def)
    have "\<forall>s\<in>set q. seg_conv s = kconv k \<and> seg_cmd s = IKCP_CMD_PUSH
          \<and> (\<exists>i<n. seg_sn s = of_nat i \<and> payload s = L ! i)"
      by (rule tr [OF b]) (simp add: same_seg_def payload_def)
    then show ?thesis using n unfolding snd_rel_def by (intro exI [of _ n]) simp
  qed
qed

lemma congestion_frame: "\<exists>a b c. flush_congestion resent cw l ch k = k\<lparr>ssthresh := a, cwnd := b, incr := c\<rparr>"
proof -
  have "flush_congestion resent cw l ch k = k\<lparr>ssthresh := ssthresh (flush_congestion resent cw l ch k),
      cwnd := cwnd (flush_congestion resent cw l ch k), incr := incr (flush_congestion resent cw l ch k)\<rparr>"
    by (auto simp: flush_congestion_def Let_def)
  then show ?thesis by blast
qed


lemma sint_le_unat: "nat (sint (u :: u32)) \<le> unat u"
  using sint_small [of u] sint_big [of u] by (cases "unat u < HALF") auto

lemma probe_wait_frame:
  "\<exists>a b c. flush_probe_wait k = k\<lparr>probe_wait := a, ts_probe := b, probe := c\<rparr>"
proof -
  have "flush_probe_wait k = k\<lparr>probe_wait := probe_wait (flush_probe_wait k), ts_probe := ts_probe (flush_probe_wait k),
      probe := probe (flush_probe_wait k)\<rparr>"
    by (auto simp: flush_probe_wait_def Let_def)
  then show ?thesis by blast
qed

lemma probe_state_frame:
  assumes "kcp_inv k" "k' = k\<lparr>ackcount := 0, probe_wait := a, ts_probe := b, probe := c\<rparr>"
  shows "kcp_inv k'"
proof -
  have "ack_inv k'" using assms by (simp add: kcp_inv_def ack_inv_def)
  moreover have "snd_inv k' = snd_inv k" "una_inv k' = una_inv k" "rcv_inv k' = rcv_inv k" "cfg_inv k' = cfg_inv k"
    by (simp_all add: assms(2) snd_inv_def una_inv_def rcv_inv_def cfg_inv_def)
  ultimately show ?thesis using assms(1) by (simp add: kcp_inv_def)
qed

lemma state_frame:
  assumes "k' = k\<lparr>ssthresh := a, cwnd := b, incr := c, kxmit := x, kstate := st\<rparr>"
  shows "kcp_inv k' = kcp_inv k" "fits_mtu k' = fits_mtu k" "snd_rel L k' = snd_rel L k" "rcv_rel S m k' = rcv_rel S m k"
    "rtt_inv k' = rtt_inv k"
  using assms by (simp_all add: kcp_inv_def kcp_parts fits_mtu_def snd_rel_def rcv_rel_def rtt_inv_def)

definition flush_post :: "IKCPCB \<Rightarrow> IKCPCB \<Rightarrow> bool" where
  "flush_post k k' \<longleftrightarrow> kcp_inv k' \<and> fits_mtu k' \<and> koutput k' \<and> kconv k' = kconv k \<and> mtu k' = mtu k \<and> rtt_inv k' = rtt_inv k
     \<and> snd_una k' = snd_una k \<and> stream k' = stream k
     \<and> off (snd_una k') (snd_nxt k') \<le> max (off (snd_una k) (snd_nxt k)) (unat (flush_cwnd k))
     \<and> (\<forall>S m. rcv_rel S m k' = rcv_rel S m k) \<and> (\<forall>L. snd_rel L k \<longrightarrow> snd_rel L k')"

text \<open>The segments a datagram of this flush may hold.\<close>

definition flushed :: "IKCPCB \<Rightarrow> IKCPSEG \<Rightarrow> bool" where
  "flushed k s \<longleftrightarrow> ctl_seg (kconv k) s \<or> (\<exists>t\<in>set (snd_buf k). same_seg s t)"

lemma made_of_mono: "made_of E d \<Longrightarrow> (\<And>s. E s \<Longrightarrow> E' s) \<Longrightarrow> made_of E' d"
  unfolding made_of_def by blast

lemma po_inv_mono:
  assumes "po_inv E M po" "\<And>s. E s \<Longrightarrow> E' s"
  shows "po_inv E' M po"
proof -
  have "made_of E' d" if "made_of E d" for d using made_of_mono [OF that] assms(2) by blast
  then show ?thesis using assms(1) by (simp add: po_inv_def)
qed

text \<open>Sending the segments of the window and adapting the congestion window.\<close>

lemma flush_data_post:
  assumes p3: "move_post (flush_cwnd k) k k3" and inv: "koutput k" and r3: "\<And>L. snd_rel L k \<Longrightarrow> snd_rel L k3"
    and q: "list_all2 same_seg q (snd_buf k3)"
    and k': "k' = k3\<lparr>snd_buf := q\<rparr>\<lparr>ssthresh := A, cwnd := B, incr := C, kxmit := x, kstate := st\<rparr>"
  shows "flush_post k k'"
proof -
  note fr = state_frame [OF k'] and keep = same_segs_keep [OF q]
  have "kcp_inv k'" "fits_mtu k'" using fr(1,2) keep(1,2) p3 by (simp_all add: move_post_def)
  moreover have "rtt_inv k' = rtt_inv k" "rcv_rel S m k' = rcv_rel S m k" for S m
    using p3 fr(4,5) by (simp_all add: move_post_def rtt_inv_def rcv_rel_def)
  moreover have "snd_rel L k'" if "snd_rel L k" for L using fr(3) keep(3) r3 [OF that] by simp
  moreover have "snd_una k' = snd_una k" "stream k' = stream k" "snd_nxt k' = snd_nxt k3" "kconv k' = kconv k" "mtu k' = mtu k" "koutput k'"
    using p3 inv by (simp_all add: k' move_post_def)
  moreover have "off (snd_una k) (snd_nxt k3) \<le> max (off (snd_una k) (snd_nxt k)) (unat (flush_cwnd k))"
    using p3 by (auto simp: move_post_def)
  ultimately show ?thesis by (simp add: flush_post_def)
qed

lemma flush_data_ok:
  assumes inv: "kcp_inv k" "fits_mtu k" "koutput k" and po: "po_inv (ctl_seg (kconv k)) (unat (mtu k)) po"
  shows "\<exists>k' outs. flush_data wnd po k = Some (k', outs) \<and> flush_post k k'
    \<and> (\<forall>d\<in>set outs. d \<noteq> [] \<and> length d \<le> unat (mtu k) \<and> made_of (flushed k') d)"
proof -
  define k3 where "k3 = flush_move wnd (flush_cwnd k) (snd_queue k) k"
  define E where "E = (\<lambda>s. ctl_seg (kconv k) s \<or> (\<exists>t\<in>set (snd_buf k3). same_seg s t))"
  define resent :: u32 where "resent = (if fastresend k3 > 0 then word_of_int (fastresend k3) else 0xffffffff)"
  define rtomin :: u32 where "rtomin = (if nodelay k3 = 0 then word_of_int (rx_rto k3 div 8) else 0)"
  have p3: "move_post (flush_cwnd k) k k3"
    using flush_move_ok [OF inv(1,2)] inv(1) flush_cwnd_bound by (simp add: k3_def kcp_inv_def)
  have r3: "snd_rel L k3" if "snd_rel L k" for L unfolding k3_def by (rule flush_move_rel [OF that])
  have i3: "kcp_inv k3" "fits_mtu k3" "koutput k3" "mtu k3 = mtu k" "kconv k3 = kconv k"
    using p3 inv(3) by (simp_all add: move_post_def)
  have "po_inv E (unat (mtu k)) po" by (rule po_inv_mono [OF po]) (simp add: E_def)
  moreover have "cfg_inv k3" "\<forall>s\<in>set (snd_buf k3). E s \<and> wf_seg s \<and> unat (seg_len s) \<le> unat (mss k3)"
    using i3 same_seg_refl unfolding kcp_inv_def snd_inv_def fits_mtu_def E_def by blast+
  moreover have "same_seg s' s \<Longrightarrow> E s \<Longrightarrow> E s'" for s s' by (auto simp: E_def same_seg_def ctl_seg_def)
  ultimately obtain q x st l ch ptr outs where
    4: "flush_segs wnd resent rtomin (snd_buf k3) k3 False False po = Some (q, k3\<lparr>kxmit := x, kstate := st\<rparr>, l, ch, ptr, outs)"
      "list_all2 same_seg q (snd_buf k3)" "po_inv E (unat (mtu k)) (ptr, outs)"
    using flush_segs_ok [of k3 E po "snd_buf k3" wnd resent rtomin False False] i3 by auto
  define k5 where "k5 = k3\<lparr>kxmit := x, kstate := st, snd_buf := q\<rparr>"
  define outs' where "outs' = outs @ (if ptr = [] then [] else [ptr])"
  obtain A B C where A: "flush_congestion resent (flush_cwnd k) l ch k5 = k5\<lparr>ssthresh := A, cwnd := B, incr := C\<rparr>"
    using congestion_frame by blast
  define k' where "k' = k5\<lparr>ssthresh := A, cwnd := B, incr := C\<rparr>"
  have "koutput k5" using i3 by (simp add: k5_def)
  then have "(if ptr \<noteq> [] then ikcp_output k5 ptr outs else Some outs) = Some outs'" by (simp add: output_ok outs'_def)
  moreover have "k3\<lparr>kxmit := x, kstate := st\<rparr>\<lparr>snd_buf := q\<rparr> = k5" by (simp add: k5_def)
  ultimately have "flush_data wnd po k = Some (k', outs')"
    using 4(1) A unfolding flush_data_def Let_def k3_def [symmetric] resent_def [symmetric] rtomin_def [symmetric]
    by (cases "ptr = []") (simp_all add: k'_def)
  moreover have "flush_post k k'" by (rule flush_data_post [OF p3 inv(3) r3 4(2), where x = x and st = st and A = A and B = B and C = C]) (simp_all add: k'_def k5_def)
  moreover have "\<forall>d\<in>set outs'. d \<noteq> [] \<and> length d \<le> unat (mtu k) \<and> made_of (flushed k') d"
  proof -
    have "flushed k' s" if "E s" for s
      using that list_all2_in' [OF 4(2)] i3(5) by (fastforce simp: flushed_def E_def k'_def k5_def same_seg_def)
    then have "made_of E d \<Longrightarrow> made_of (flushed k') d" for d by (auto simp: made_of_def)
    then show ?thesis using 4(3) by (auto simp: outs'_def po_inv_def)
  qed
  ultimately show ?thesis by blast
qed

text \<open>The acknowledgements and window probes that come first.\<close>

lemma flush_control_ok:
  assumes inv: "kcp_inv k" "koutput k" and s0: "ctl_seg (kconv k) s0"
    and kp: "kp = k\<lparr>ackcount := 0, probe_wait := a, ts_probe := b, probe := c\<rparr>"
  shows "\<exists>s1 po1 s2 po2 s3 po3. flush_acks k (nat (sint (ackcount k))) 0 s0 ([], []) = Some (s1, po1)
    \<and> flush_probe kp IKCP_ASK_SEND IKCP_CMD_WASK s1 po1 = Some (s2, po2)
    \<and> flush_probe kp IKCP_ASK_TELL IKCP_CMD_WINS s2 po2 = Some (s3, po3) \<and> po_inv (ctl_seg (kconv k)) (unat (mtu k)) po3"
proof -
  let ?E = "ctl_seg (kconv k)" and ?M = "unat (mtu k)"
  have cfg: "cfg_inv k" "ack_inv k" "cfg_inv kp" "koutput kp" "mtu kp = mtu k"
    using inv by (simp_all add: kcp_inv_def kp cfg_inv_def)
  have "po_inv ?E ?M ([], [])" by (simp add: po_inv_def)
  then obtain s1 po1 where 1: "flush_acks k (nat (sint (ackcount k))) 0 s0 ([], []) = Some (s1, po1)" "po_inv ?E ?M po1" "?E s1"
    using flush_acks_ok [where E = ?E and i = 0 and n = "nat (sint (ackcount k))" and po = "([], [])", OF cfg(1) inv(2) cfg(2) _ _ s0]
      sint_le_unat by auto
  obtain s2 po2 where 2: "flush_probe kp IKCP_ASK_SEND IKCP_CMD_WASK s1 po1 = Some (s2, po2)" "po_inv ?E ?M po2" "?E s2"
    using flush_probe_ok [where E = ?E and po = po1 and cmd = IKCP_CMD_WASK and b = IKCP_ASK_SEND, OF cfg(3,4) _ _ 1(3)] 1(2) cfg(5) by auto
  obtain s3 po3 where "flush_probe kp IKCP_ASK_TELL IKCP_CMD_WINS s2 po2 = Some (s3, po3)" "po_inv ?E ?M po3"
    using flush_probe_ok [where E = ?E and po = po2 and cmd = IKCP_CMD_WINS and b = IKCP_ASK_TELL, OF cfg(3,4) _ _ 2(3)] 2(2) cfg(5) by auto
  then show ?thesis using 1 2 by blast
qed

lemma flush_ok:
  assumes inv: "kcp_inv k" "fits_mtu k" "koutput k"
  shows "\<exists>k' outs. ikcp_flush k = Some (k', outs) \<and> flush_post k k'
    \<and> (\<forall>d\<in>set outs. d \<noteq> [] \<and> length d \<le> unat (mtu k) \<and> made_of (flushed k') d)"
proof (cases "updated k = 0")
  case True
  then show ?thesis using inv by (simp add: ikcp_flush_def flush_post_def)
next
  case upd: False
  define wnd :: u32 where "wnd = word_of_int (ikcp_wnd_unused k)"
  define s0 where "s0 = (ikcp_segment_new [])\<lparr>seg_conv := kconv k, seg_cmd := IKCP_CMD_ACK, seg_frg := 0,
          seg_wnd := wnd, seg_una := rcv_nxt k, seg_len := 0, seg_sn := 0, seg_ts := 0\<rparr>"
  define kp where "kp = flush_probe_wait (k\<lparr>ackcount := 0\<rparr>)"
  define k2 where "k2 = kp\<lparr>probe := 0\<rparr>"
  obtain a b c where kp: "kp = k\<lparr>ackcount := 0, probe_wait := a, ts_probe := b, probe := c\<rparr>"
    using probe_wait_frame [of "k\<lparr>ackcount := 0\<rparr>"] by (auto simp: kp_def)
  have k2: "k2 = k\<lparr>ackcount := 0, probe_wait := a, ts_probe := b, probe := 0\<rparr>" by (simp add: k2_def kp)
  have i2: "kcp_inv k2" "fits_mtu k2" "koutput k2" "kconv k2 = kconv k" "mtu k2 = mtu k"
    using probe_state_frame [OF inv(1) k2] inv(2,3) by (simp_all add: fits_mtu_def k2)
  have "ctl_seg (kconv k) s0" by (simp add: s0_def ctl_seg_def ikcp_segment_new_def)
  from flush_control_ok [OF inv(1,3) this kp] obtain s1 po1 s2 po2 s3 po3 where
    1: "flush_acks k (nat (sint (ackcount k))) 0 s0 ([], []) = Some (s1, po1)"
      "flush_probe kp IKCP_ASK_SEND IKCP_CMD_WASK s1 po1 = Some (s2, po2)"
      "flush_probe kp IKCP_ASK_TELL IKCP_CMD_WINS s2 po2 = Some (s3, po3)" "po_inv (ctl_seg (kconv k)) (unat (mtu k)) po3" by blast
  have "ikcp_flush k = flush_data wnd po3 k2"
    using upd 1(1-3) unfolding ikcp_flush_def Let_def wnd_def [symmetric] s0_def [symmetric] kp_def [symmetric]
    by (simp flip: k2_def)
  moreover have "flush_cwnd k2 = flush_cwnd k" by (simp add: k2 flush_cwnd_def Let_def)
  then have "flush_post k2 k' = flush_post k k'" for k' by (simp add: flush_post_def k2 rtt_inv_def rcv_rel_def snd_rel_def)
  ultimately show ?thesis using flush_data_ok [OF i2(1-3), of po3 wnd] 1(4) i2(4,5) by simp
qed


section \<open>Properties\<close>

text \<open>
  C22: Encoding and decoding agree: the datagram that holds the images of some segments one after the
  other is decoded into exactly these segments, header fields and data, when command and fragment
  number fit a byte and the window fits_mtu 16 bits.
\<close>

theorem ikcp_wire_roundtrip:
  assumes "\<forall>s\<in>set ss. unat (seg_len s) = length (seg_data s) \<and> unat (seg_cmd s) < 256 \<and> unat (seg_frg s) < 256
    \<and> unat (seg_wnd s) < 65536"
  shows "dgram (concat (map (\<lambda>s. ikcp_encode_seg s @ seg_data s) ss)) =
    map (\<lambda>s. (ikcp_segment_new (seg_data s))\<lparr>seg_conv := seg_conv s, seg_cmd := seg_cmd s, seg_frg := seg_frg s,
      seg_wnd := seg_wnd s, seg_ts := seg_ts s, seg_sn := seg_sn s, seg_una := seg_una s, seg_len := seg_len s\<rparr>) ss"
proof -
  have "(\<lambda>s. ikcp_encode_seg s @ seg_data s) = wire" by (simp add: fun_eq_iff wire_def)
  then have "dgram (concat (map (\<lambda>s. ikcp_encode_seg s @ seg_data s) ss)) = map wire_seg ss"
    using dgram_wire assms by (simp add: wf_seg_def)
  also have "\<dots> = map (\<lambda>s. (ikcp_segment_new (seg_data s))\<lparr>seg_conv := seg_conv s, seg_cmd := seg_cmd s, seg_frg := seg_frg s,
      seg_wnd := seg_wnd s, seg_ts := seg_ts s, seg_sn := seg_sn s, seg_una := seg_una s, seg_len := seg_len s\<rparr>) ss"
    using assms by (auto simp: wire_seg_def wire_head_id ikcp_segment_new_def)
  finally show ?thesis .
qed

theorem ikcp_wire_roundtrip_witness:
  "dgram (ikcp_encode_seg ((ikcp_segment_new [7, 8])\<lparr>seg_cmd := 81, seg_sn := 5, seg_len := 2\<rparr>) @ [7, 8])
    = [(ikcp_segment_new [7, 8])\<lparr>seg_cmd := 81, seg_sn := 5, seg_len := 2\<rparr>]"
  using ikcp_wire_roundtrip [of "[(ikcp_segment_new [7, 8])\<lparr>seg_cmd := 81, seg_sn := 5, seg_len := 2\<rparr>]"]
  by (simp add: ikcp_segment_new_def)

text \<open>
  C19: \<^verbatim>\<open>ikcp_flush\<close> is memory safe and respects the MTU: from any well-formed control block whose
  segments fit the MTU it returns without writing outside its buffer, every datagram it gives to the
  callback is non-empty, at most \<^verbatim>\<open>mtu\<close> bytes long and made of whole segments, and the number of
  segments in flight does not grow beyond the window.
\<close>

theorem ikcp_flush_safe:
  assumes "kcp_inv k" "fits_mtu k" "koutput k"
  shows "\<exists>k' outs. ikcp_flush k = Some (k', outs) \<and> kcp_inv k'
    \<and> (\<forall>d\<in>set outs. 0 < length d \<and> length d \<le> unat (mtu k) \<and> made_of (flushed k') d)
    \<and> off (snd_una k') (snd_nxt k') \<le> max (off (snd_una k) (snd_nxt k)) (unat (flush_cwnd k))"
  using flush_ok [OF assms] by (auto simp: flush_post_def)

theorem ikcp_flush_safe_witness:
  "\<exists>k' outs. ikcp_flush ((ikcp_create Guid_zero)\<lparr>koutput := True, updated := 1\<rparr>) = Some (k', outs) \<and> kcp_inv k'"
proof -
  let ?k = "(ikcp_create Guid_zero)\<lparr>koutput := True, updated := 1\<rparr>"
  have "kcp_inv ?k = kcp_inv (ikcp_create Guid_zero)" by (simp add: kcp_inv_def kcp_parts)
  moreover have "fits_mtu ?k" by (simp add: fits_mtu_def ikcp_create_def)
  ultimately show ?thesis using ikcp_flush_safe [of ?k] create_inv by auto
qed

end
