(* ===== verification/KcpClock.thy ===== *)
theory KcpClock
  imports KcpWire
begin

text \<open>
  \<^verbatim>\<open>ikcp_update\<close>, \<^verbatim>\<open>ikcp_check\<close> and the settings of \<^verbatim>\<open>ikcp.h\<close>, and the control block as a state
  machine: \<open>kcp_step\<close> is one call of the interface, and every reachable control block satisfies the
  invariant.
\<close>

section \<open>Updating\<close>

lemma clock_frame:
  assumes "k' = k\<lparr>kcurrent := a, updated := b, ts_flush := c\<rparr>"
  shows "kcp_inv k' = kcp_inv k" "fits_mtu k' = fits_mtu k" "koutput k' = koutput k" "flush_post k' = flush_post k"
    "mtu k' = mtu k"
  using assms
  by (simp_all add: kcp_inv_def kcp_parts fits_mtu_def flush_post_def fun_eq_iff rtt_inv_def rcv_rel_def snd_rel_def
      flush_cwnd_def Let_def)

text \<open>The flush time after an update, and whether it flushes.\<close>

definition upd_base :: "IKCPCB \<Rightarrow> u32 \<Rightarrow> u32" where
  "upd_base k now = (if updated k = 0 \<or> itimediff now (ts_flush k) \<ge> 10000 \<or> itimediff now (ts_flush k) < -10000
     then now else ts_flush k)"

definition upd_next :: "IKCPCB \<Rightarrow> u32 \<Rightarrow> u32" where
  "upd_next k now = (if itimediff now (upd_base k now + interval k) \<ge> 0 then now + interval k
     else upd_base k now + interval k)"

lemma itimediff_self [simp]: "itimediff x x = 0"
  by (simp add: itimediff_def)

lemma update_eq:
  "ikcp_update k now =
     (let a = (if updated k = 0 then 1 else updated k) in
      if itimediff now (upd_base k now) \<ge> 0
      then ikcp_flush (k\<lparr>kcurrent := now, updated := a, ts_flush := upd_next k now\<rparr>)
      else Some (k\<lparr>kcurrent := now, updated := a, ts_flush := upd_base k now\<rparr>, []))"
proof (cases "updated k = 0")
  case True
  then show ?thesis by (simp add: ikcp_update_def upd_base_def upd_next_def)
next
  case False
  show ?thesis
  proof (cases "itimediff now (ts_flush k) \<ge> 10000 \<or> itimediff now (ts_flush k) < -10000")
    case reset: True
    then have "upd_base k now = now" using False by (simp add: upd_base_def)
    then show ?thesis using False reset by (auto simp: ikcp_update_def upd_next_def)
  next
    case keep: False
    then have b: "upd_base k now = ts_flush k" using False by (simp add: upd_base_def)
    show ?thesis using False keep by (auto simp: ikcp_update_def upd_next_def b Let_def)
  qed
qed

lemma update_ok:
  assumes "kcp_inv k" "fits_mtu k" "koutput k"
  shows "\<exists>k' outs. ikcp_update k now = Some (k', outs) \<and> flush_post k k'
    \<and> (\<forall>d\<in>set outs. d \<noteq> [] \<and> length d \<le> unat (mtu k) \<and> made_of (flushed k') d)"
proof -
  obtain a b where u: "ikcp_update k now = ikcp_flush (k\<lparr>kcurrent := now, updated := a, ts_flush := b\<rparr>)
     \<or> ikcp_update k now = Some (k\<lparr>kcurrent := now, updated := a, ts_flush := b\<rparr>, [])"
    using update_eq [of k now] unfolding Let_def by metis
  let ?k = "k\<lparr>kcurrent := now, updated := a, ts_flush := b\<rparr>"
  note f = clock_frame [where k = k and a = now and b = a and c = b, OF refl]
  have "\<exists>k' outs. ikcp_flush ?k = Some (k', outs) \<and> flush_post k k'
    \<and> (\<forall>d\<in>set outs. d \<noteq> [] \<and> length d \<le> unat (mtu k) \<and> made_of (flushed k') d)"
    using flush_ok [of ?k] assms f by simp
  moreover have "flush_post k ?k" using assms f by (simp add: flush_post_def rtt_inv_def rcv_rel_def snd_rel_def)
  ultimately show ?thesis using u by auto
qed


section \<open>When to update next\<close>

lemma check_loop_Some:
  assumes "check_loop now q tm = Some r" "0 < tm"
  shows "0 < r \<and> r \<le> tm \<and> (\<forall>s\<in>set q. r \<le> itimediff (seg_resendts s) now)"
  using assms
proof (induction q arbitrary: tm)
  case Nil
  then show ?case by simp
next
  case (Cons s q)
  let ?d = "itimediff (seg_resendts s) now"
  have p: "0 < ?d" "check_loop now q (if ?d < tm then ?d else tm) = Some r"
    using Cons.prems(1) by (auto simp: Let_def split: if_splits)
  then show ?case using Cons.IH [OF p(2)] Cons.prems(2) by (auto split: if_splits)
qed

lemma itimediff_ahead:
  assumes "itimediff x now = int e" "d < e" "e < HALF"
  shows "itimediff (now + of_nat d) x = int d - int e" "off now x = e"
proof -
  have nn: "0 \<le> sint (x - now)" using assms(1) by (simp add: itimediff_def)
  then have "sint (x - now) = int (unat (x - now))" using sint_nonneg_iff sint_small by blast
  then show e: "off now x = e" using assms(1) by (simp add: itimediff_def off_def)
  have d: "off now (now + of_nat d) = d" using assms(2,3) by (simp add: off_base unat_of_nat)
  show "itimediff (now + of_nat d) x = int d - int e"
    using itimediff_off [of now "now + of_nat d" x] d e assms(2,3) by simp
qed

text \<open>The offset \<^verbatim>\<open>ikcp_check\<close> adds to the current time.\<close>

lemma check_cases:
  shows "ikcp_check k now = now \<or>
    (\<exists>m e r. ikcp_check k now = now + of_nat m \<and> m \<le> unat (interval k) \<and> m \<le> e \<and> int m \<le> r
       \<and> updated k \<noteq> 0 \<and> itimediff (ts_flush k) now = int e \<and> 0 < e \<and> e \<le> 10000
       \<and> check_loop now (snd_buf k) 0x7fffffff = Some r)"
proof (cases "ikcp_check k now = now")
  case False
  let ?f = "ts_flush k"
  have u: "updated k \<noteq> 0" using False by (auto simp: ikcp_check_def)
  have nr: "\<not> (itimediff now ?f \<ge> 10000 \<or> itimediff now ?f < -10000)"
    using False u by (auto simp: ikcp_check_def Let_def)
  then have lt: "itimediff now ?f < 0" using False u by (auto simp: ikcp_check_def Let_def split: if_splits)
  obtain r where r: "check_loop now (snd_buf k) 0x7fffffff = Some r"
    using False u nr lt by (auto simp: ikcp_check_def Let_def split: option.splits)
  have e: "itimediff ?f now = - itimediff now ?f"
  proof -
    have "sint (word_of_int (- sint (now - ?f)) :: u32) = - sint (now - ?f)"
      using nr by (intro sint_of_int_id) (auto simp: itimediff_def)
    moreover have "(word_of_int (- sint (now - ?f)) :: u32) = ?f - now" by simp
    ultimately show ?thesis by (simp add: itimediff_def)
  qed
  define e where "e = nat (itimediff ?f now)"
  have e': "itimediff ?f now = int e" "0 < e" "e \<le> 10000" using lt nr e by (auto simp: e_def)
  have rp: "0 < r" using check_loop_Some [OF r] by simp
  define w where "w = (if r < int e then r else int e)"
  have w: "0 < w" "w \<le> int e" "w \<le> r" using rp e' by (auto simp: w_def)
  define x :: u32 where "x = (if word_of_int w \<ge> interval k then interval k else word_of_int w)"
  have uw: "unat (word_of_int w :: u32) = nat w" using w e' by (intro unat_word_of_int_small) auto
  have x: "unat x \<le> unat (interval k)" "unat x \<le> nat w"
    using uw by (auto simp: x_def word_le_nat_alt)
  have "ikcp_check k now = now + of_nat (unat x)"
    using u nr lt r e' by (simp add: ikcp_check_def Let_def x_def w_def of_nat_unat)
  then show ?thesis using x w u e' r by (intro disjI2 exI [of _ "unat x"] exI [of _ e] exI [of _ r]) auto
qed simp

lemma check_within_interval: "off now (ikcp_check k now) \<le> unat (interval k)"
proof -
  consider "ikcp_check k now = now" | m where "ikcp_check k now = now + of_nat m" "m \<le> unat (interval k)"
    using check_cases [of k now] by blast
  then show ?thesis
  proof cases
    case 2
    moreover have "unat (interval k) < 2 ^ 32" using unsigned_less [of "interval k", where 'a = nat] by simp
    ultimately show ?thesis by (simp add: off_base unat_of_nat)
  qed simp
qed

lemma check_nothing_due:
  assumes "d < off now (ikcp_check k now)"
  shows "(\<forall>s\<in>set (snd_buf k). itimediff (now + of_nat d) (seg_resendts s) < 0)
    \<and> ikcp_update k (now + of_nat d) = Some (k\<lparr>kcurrent := now + of_nat d\<rparr>, [])"
proof -
  have "ikcp_check k now \<noteq> now" using assms by auto
  then obtain m e r where c: "ikcp_check k now = now + of_nat m" "m \<le> e" "int m \<le> r" "updated k \<noteq> 0"
      "itimediff (ts_flush k) now = int e" "0 < e" "e \<le> 10000" "check_loop now (snd_buf k) 0x7fffffff = Some r"
    using check_cases [of k now] by blast
  have dm: "d < m" using assms c(1,2,7) by (simp add: off_base unat_of_nat)
  have seg: "itimediff (now + of_nat d) (seg_resendts s) < 0" if "s \<in> set (snd_buf k)" for s
  proof -
    let ?i = "itimediff (seg_resendts s) now"
    have "r \<le> ?i" using check_loop_Some [OF c(8)] that by simp
    moreover have "?i < 2 ^ 31" using sint_lt [of "seg_resendts s - now"] by (simp add: itimediff_def)
    ultimately show ?thesis
      using itimediff_ahead(1) [of "seg_resendts s" now "nat ?i" d] c(3) dm by (auto simp: nat_less_iff)
  qed
  let ?t = "now + of_nat d"
  have t: "itimediff ?t (ts_flush k) = int d - int e"
    using itimediff_ahead(1) [OF c(5), of d] dm c(2,7) by simp
  then have "upd_base k ?t = ts_flush k" "itimediff ?t (ts_flush k) < 0"
    using c dm by (auto simp: upd_base_def)
  then have "ikcp_update k ?t = Some (k\<lparr>kcurrent := ?t\<rparr>, [])"
    using c(4) by (simp add: update_eq Let_def)
  then show ?thesis using seg by blast
qed


section \<open>The control block as a state machine\<close>

text \<open>
  One call of the interface, with its result or the datagrams it gives out left aside. The clock
  moves only by \<^verbatim>\<open>ikcp_update\<close>; a received datagram holds any bytes; the arguments of the settings
  are any \<^verbatim>\<open>int\<close>, except that the new MTU must hold the segments already queued (see
  \<open>setmtu_overruns\<close>) and stay below \<open>2^30\<close>. The field \<open>rx_minrto\<close> may be
  assigned directly, as the peers do. At most \<open>2^30\<close> acknowledgements pile up between two
  flushes.
\<close>

inductive kcp_step :: "IKCPCB \<Rightarrow> IKCPCB \<Rightarrow> bool" where
  st_send: "\<lbrakk>fresh_ok fresh; ikcp_send fresh k src n = Some (c, k')\<rbrakk> \<Longrightarrow> kcp_step k k'"
| st_recv: "ikcp_recv k hb n = Some (c, dst, k') \<Longrightarrow> kcp_step k k'"
| st_input: "\<lbrakk>unat (ackcount k) + length (dgram data) < 2 ^ 30; ikcp_input k (Some data) sz = Some (c, k')\<rbrakk>
    \<Longrightarrow> kcp_step k k'"
| st_flush: "ikcp_flush k = Some (k', outs) \<Longrightarrow> kcp_step k k'"
| st_update: "ikcp_update k now = Some (k', outs) \<Longrightarrow> kcp_step k k'"
| st_setmtu: "\<lbrakk>m < 2 ^ 30; \<forall>s\<in>set (snd_queue k) \<union> set (snd_buf k). int (unat (seg_len s)) \<le> m - 36;
     ikcp_setmtu k m = (c, k')\<rbrakk> \<Longrightarrow> kcp_step k k'"
| st_interval: "ikcp_interval k v = (c, k') \<Longrightarrow> kcp_step k k'"
| st_nodelay: "ikcp_nodelay k nd v rs nc = (c, k') \<Longrightarrow> kcp_step k k'"
| st_wndsize: "\<lbrakk>sw < 2 ^ 31; rw < 2 ^ 31; ikcp_wndsize k sw rw = (c, k')\<rbrakk> \<Longrightarrow> kcp_step k k'"
| st_minrto: "\<lbrakk>1 \<le> v; v \<le> 60000\<rbrakk> \<Longrightarrow> kcp_step k (k\<lparr>rx_minrto := v\<rparr>)"

inductive_cases kcp_step_elim: "kcp_step k k'"

inductive kcp_reach :: "Guid \<Rightarrow> IKCPCB \<Rightarrow> bool" for cv where
  reach_create: "kcp_reach cv (ikcp_setoutput (ikcp_create cv))"
| reach_step: "kcp_reach cv k \<Longrightarrow> kcp_step k k' \<Longrightarrow> kcp_reach cv k'"

definition kcp_good :: "IKCPCB \<Rightarrow> bool" where
  "kcp_good k \<longleftrightarrow> kcp_inv k \<and> fits_mtu k \<and> koutput k"

lemma setmtu_good:
  assumes "kcp_good k" "m < 2 ^ 30" "\<forall>s\<in>set (snd_queue k) \<union> set (snd_buf k). int (unat (seg_len s)) \<le> m - 36"
    and "ikcp_setmtu k m = (c, k')"
  shows "kcp_good k'"
proof (cases "m < 50")
  case True
  then show ?thesis using assms(1,4) by (simp add: ikcp_setmtu_def)
next
  case False
  have u: "unat (word_of_int m :: u32) = nat m" using False assms(2) by (intro unat_word_of_int_small) auto
  have k': "k' = k\<lparr>mtu := word_of_int m, mss := word_of_int m - IKCP_OVERHEAD,
        kbuffer := unat ((word_of_int m + IKCP_OVERHEAD :: u32) * 3)\<rparr>"
    using assms(4) False by (simp add: ikcp_setmtu_def IKCP_OVERHEAD_def)
  have b1: "unat (word_of_int m + IKCP_OVERHEAD :: u32) = nat m + 36"
    using u False assms(2) unat_add_lem [of "word_of_int m :: u32" IKCP_OVERHEAD]
    by (simp add: IKCP_OVERHEAD_def nat_less_iff)
  have "nat m < 2 ^ 30" using assms(2) by simp
  then have b2: "unat ((word_of_int m + IKCP_OVERHEAD :: u32) * 3) = 3 * (nat m + 36)"
    using b1 unat_mult_lem [of "word_of_int m + IKCP_OVERHEAD :: u32" 3] by (simp only: b1) simp
  have c: "cfg_inv k'"
    using assms(1) u False assms(2) b2 by (simp add: k' kcp_good_def kcp_inv_def cfg_inv_def nat_less_iff)
  have "snd_inv k' = snd_inv k" "una_inv k' = una_inv k" "rcv_inv k' = rcv_inv k" "ack_inv k' = ack_inv k"
    by (simp_all add: k' snd_inv_def una_inv_def rcv_inv_def ack_inv_def)
  moreover have "fits_mtu k'"
  proof -
    have "unat (mss k') = nat m - 36" using cfg_mss(1) [OF c] u by (simp add: k')
    moreover have "unat (seg_len s) \<le> nat m - 36" if "s \<in> set (snd_queue k) \<union> set (snd_buf k)" for s
    proof -
      have "int (unat (seg_len s)) \<le> m - 36" using assms(3) that by blast
      then show ?thesis by linarith
    qed
    ultimately show ?thesis by (simp add: fits_mtu_def k')
  qed
  ultimately show ?thesis using assms(1) c by (simp add: kcp_good_def kcp_inv_def k')
qed

lemma interval_good: "kcp_good k \<Longrightarrow> kcp_good (k\<lparr>interval := word_of_int (clamp_interval v)\<rparr>)"
proof -
  assume g: "kcp_good k"
  have "unat (word_of_int (clamp_interval v) :: u32) = nat (clamp_interval v)"
    by (intro unat_word_of_int_small) (auto simp: clamp_interval_def)
  then have "10 \<le> unat (word_of_int (clamp_interval v) :: u32)" "unat (word_of_int (clamp_interval v) :: u32) \<le> 5000"
    by (auto simp: clamp_interval_def)
  moreover have "kcp_good (k\<lparr>interval := w\<rparr>)" if "10 \<le> unat w" "unat w \<le> 5000" for w :: u32
  proof -
    have "cfg_inv (k\<lparr>interval := w\<rparr>)" using g that by (auto simp: kcp_good_def kcp_inv_def cfg_inv_def)
    moreover have "snd_inv (k\<lparr>interval := w\<rparr>) = snd_inv k" "una_inv (k\<lparr>interval := w\<rparr>) = una_inv k"
      "rcv_inv (k\<lparr>interval := w\<rparr>) = rcv_inv k" "ack_inv (k\<lparr>interval := w\<rparr>) = ack_inv k"
      "fits_mtu (k\<lparr>interval := w\<rparr>) = fits_mtu k"
      by (simp_all add: snd_inv_def una_inv_def rcv_inv_def ack_inv_def fits_mtu_def)
    ultimately show ?thesis using g by (simp add: kcp_good_def kcp_inv_def)
  qed
  ultimately show ?thesis by blast
qed

lemma nodelay_good: "kcp_good k \<Longrightarrow> ikcp_nodelay k nd v rs nc = (c, k') \<Longrightarrow> kcp_good k'"
proof -
  assume g: "kcp_good k" and e: "ikcp_nodelay k nd v rs nc = (c, k')"
  define k1 where "k1 = (if nd \<ge> 0 then k\<lparr>nodelay := word_of_int nd,
            rx_minrto := uint (if nd \<noteq> 0 then IKCP_RTO_NDL else IKCP_RTO_MIN)\<rparr> else k)"
  have "kcp_good k1"
    using g by (auto simp: k1_def kcp_good_def kcp_inv_def kcp_parts fits_mtu_def IKCP_RTO_NDL_def IKCP_RTO_MIN_def)
  then have "kcp_good (if v \<ge> 0 then k1\<lparr>interval := word_of_int (clamp_interval v)\<rparr> else k1)"
    using interval_good by simp
  moreover have "kcp_good (x\<lparr>fastresend := a, nocwnd := b\<rparr>) = kcp_good x" "kcp_good (x\<lparr>fastresend := a\<rparr>) = kcp_good x"
      "kcp_good (x\<lparr>nocwnd := b\<rparr>) = kcp_good x" for x a b
    by (simp_all add: kcp_good_def kcp_inv_def kcp_parts fits_mtu_def)
  ultimately show ?thesis using e by (auto simp: ikcp_nodelay_def Let_def simp flip: k1_def split: if_splits)
qed

lemma minrto_good: "1 \<le> v \<Longrightarrow> v \<le> 60000 \<Longrightarrow> kcp_good k \<Longrightarrow> kcp_good (k\<lparr>rx_minrto := v\<rparr>)"
  by (auto simp: kcp_good_def kcp_inv_def kcp_parts fits_mtu_def)

lemma wndsize_good:
  assumes "kcp_good k" "rw < 2 ^ 31" "ikcp_wndsize k sw rw = (c, k')"
  shows "kcp_good k'"
proof -
  have "kcp_good (k\<lparr>snd_wnd := w\<rparr>) = kcp_good k" for w
    by (simp add: kcp_good_def kcp_inv_def kcp_parts fits_mtu_def)
  then have g: "kcp_good (if sw > 0 then k\<lparr>snd_wnd := word_of_int sw\<rparr> else k)" using assms(1) by simp
  have "kcp_good (x\<lparr>rcv_wnd := imax (word_of_int rw) IKCP_WND_RCV\<rparr>)" if "kcp_good x" "rw > 0" for x
  proof -
    let ?w = "imax (word_of_int rw) IKCP_WND_RCV"
    have "unat (word_of_int rw :: u32) = nat rw" using that assms(2) by (intro unat_word_of_int_small) auto
    then have "128 \<le> unat ?w" "unat ?w < HALF"
      using assms(2) by (auto simp: imax_def IKCP_WND_RCV_def word_le_nat_alt nat_less_iff)
    then have "rcv_inv (x\<lparr>rcv_wnd := ?w\<rparr>)" using that(1) by (auto simp: kcp_good_def kcp_inv_def rcv_inv_def)
    moreover have "snd_inv (x\<lparr>rcv_wnd := ?w\<rparr>) = snd_inv x" "una_inv (x\<lparr>rcv_wnd := ?w\<rparr>) = una_inv x"
      "cfg_inv (x\<lparr>rcv_wnd := ?w\<rparr>) = cfg_inv x" "ack_inv (x\<lparr>rcv_wnd := ?w\<rparr>) = ack_inv x"
      "fits_mtu (x\<lparr>rcv_wnd := ?w\<rparr>) = fits_mtu x"
      by (simp_all add: snd_inv_def una_inv_def cfg_inv_def ack_inv_def fits_mtu_def)
    ultimately show ?thesis using that(1) by (simp add: kcp_good_def kcp_inv_def)
  qed
  then show ?thesis using g assms(3) by (auto simp: ikcp_wndsize_def Let_def split: if_splits)
qed

lemma send_fits:
  assumes "ikcp_send fresh k src n = Some (c, k')" "kcp_good k" "fresh_ok fresh"
  shows "fits_mtu k' \<and> koutput k' = koutput k"
proof (cases "n < 0")
  case True
  then show ?thesis using assms by (auto simp: ikcp_send_def kcp_good_def split: if_splits)
next
  case n: False
  obtain src1 n1 k1 where 1: "(if stream k \<noteq> 0 then send_append fresh src n k else Some (src, n, k)) = Some (src1, n1, k1)"
    and k': "k' = k1 \<or> (\<exists>r. send_fragments fresh r src1 n1 k1 = Some k')"
    using assms(1) n send_count_cases by (fastforce simp: ikcp_send_def bind_Some_iff split: if_splits prod.splits)
  have i: "cfg_inv k" "snd_inv k" "fits_mtu k" using assms(2) by (simp_all add: kcp_good_def kcp_inv_def)
  obtain q where q: "k1 = k\<lparr>snd_queue := q\<rparr>" "\<forall>s\<in>set q. s \<in> set (snd_queue k) \<or> unat (seg_len s) \<le> unat (mss k)" "0 \<le> n1"
  proof (cases "stream k \<noteq> 0")
    case True
    then show ?thesis using that 1 send_append_keeps [OF assms(3) i(1,2), of n src src1 n1 k1] n by auto
  next
    case False
    then show ?thesis using that [of "snd_queue k"] 1 n by auto
  qed
  have f1: "fits_mtu k1" "koutput k1 = koutput k" using q(1,2) i(3) by (auto simp: fits_mtu_def)
  have "cfg_inv k1" using i(1) q(1) by (simp add: cfg_inv_def)
  then have "fits_mtu k' \<and> koutput k' = koutput k1" if "send_fragments fresh r src1 n1 k1 = Some k'" for r
    using send_fragments_keeps [OF assms(3) _ q(3) that] f1(1) by (auto simp: fits_mtu_def)
  then show ?thesis using k' f1 by auto
qed

text \<open>\<^verbatim>\<open>ikcp_recv\<close> and \<^verbatim>\<open>ikcp_input\<close> add nothing to the sender's queues and do not touch its MTU.\<close>

definition snd_less :: "IKCPCB \<Rightarrow> IKCPCB \<Rightarrow> bool" where
  "snd_less k k' \<longleftrightarrow> mss k' = mss k \<and> koutput k' = koutput k \<and> kconv k' = kconv k \<and> stream k' = stream k
     \<and> snd_nxt k' = snd_nxt k \<and> snd_queue k' = snd_queue k
     \<and> (\<forall>s\<in>set (snd_buf k'). \<exists>t\<in>set (snd_buf k). same_seg s t)"

lemma same_seg_trans: "same_seg a b \<Longrightarrow> same_seg b c \<Longrightarrow> same_seg a c"
  by (simp add: same_seg_def)

lemma snd_less_refl [simp]: "snd_less k k"
  by (auto simp: snd_less_def intro: same_seg_refl)

lemma snd_less_trans: "snd_less a b \<Longrightarrow> snd_less b c \<Longrightarrow> snd_less a c"
  unfolding snd_less_def by (metis same_seg_trans)

lemma snd_less_fits: "snd_less k k' \<Longrightarrow> fits_mtu k \<Longrightarrow> fits_mtu k'"
  unfolding snd_less_def fits_mtu_def same_seg_def by (metis Un_iff)

lemma snd_less_rel: "snd_less k k' \<Longrightarrow> snd_rel L k \<Longrightarrow> snd_rel L k'"
proof -
  assume l: "snd_less k k'" and r: "snd_rel L k"
  then obtain n where n: "n \<le> length L" "snd_nxt k = of_nat n" "map payload (snd_queue k) = drop n L"
    and b: "\<forall>s\<in>set (snd_buf k). seg_conv s = kconv k \<and> seg_cmd s = IKCP_CMD_PUSH
          \<and> (\<exists>i<n. seg_sn s = of_nat i \<and> payload s = L ! i)"
    by (auto simp: snd_rel_def)
  have "seg_conv s = kconv k \<and> seg_cmd s = IKCP_CMD_PUSH \<and> (\<exists>i<n. seg_sn s = of_nat i \<and> payload s = L ! i)"
    if "s \<in> set (snd_buf k')" for s
  proof -
    obtain t where t: "t \<in> set (snd_buf k)" "same_seg s t" using l \<open>s \<in> set (snd_buf k')\<close> by (auto simp: snd_less_def)
    then have "payload s = payload t" by (simp add: same_seg_def payload_def)
    then show ?thesis using b t by (simp add: same_seg_def)
  qed
  then show ?thesis using l n unfolding snd_rel_def by (intro exI [of _ n]) (simp add: snd_less_def)
qed


lemma snd_less_same_fields:
  assumes "mss k' = mss k" "koutput k' = koutput k" "kconv k' = kconv k" "stream k' = stream k" "snd_nxt k' = snd_nxt k"
    "snd_queue k' = snd_queue k" "set (snd_buf k') \<subseteq> set (snd_buf k)"
  shows "snd_less k k'"
  using assms same_seg_refl unfolding snd_less_def by blast

lemma after_take_snd_less: "snd_less k (after_recv r (take_segs j k))"
  by (rule snd_less_same_fields) (simp_all add: after_recv_def take_segs_def Let_def)

lemma recv_snd_less: "ikcp_recv k hb n = Some (c, dst, k') \<Longrightarrow> rcv_inv k \<Longrightarrow> snd_less k k'"
  using recv_cases [of k hb n c dst k'] after_take_snd_less by auto

lemma take_una_snd_less: "snd_less k (take_una h k)"
proof (rule snd_less_same_fields)
  have "set (snd_buf (parse_una_loop una q x)) \<subseteq> set (snd_buf x)" if "snd_buf x = q" for una q x
    using that
  proof (induction q arbitrary: x)
    case (Cons s q)
    have "set (snd_buf (parse_una_loop una q (x\<lparr>snd_buf := q, nsnd_buf := nsnd_buf x - 1\<rparr>))) \<subseteq> set q"
      using Cons.IH [of "x\<lparr>snd_buf := q, nsnd_buf := nsnd_buf x - 1\<rparr>"] by simp
    then show ?case using Cons.prems by (auto dest: subsetD)
  qed simp
  then show "set (snd_buf (take_una h k)) \<subseteq> set (snd_buf k)"
    by (simp add: take_una_def ikcp_parse_una_def)
qed simp_all

lemma parse_ack_loop_subset: "set (fst (parse_ack_loop sn q)) \<subseteq> set q"
  by (induction sn q rule: parse_ack_loop.induct) (auto simp: Let_def split: prod.splits if_splits)

lemma input_ack_snd_less:
  assumes "input_ack k sn ts f m = Some (k', f', m')"
  shows "snd_less k k'"
proof -
  obtain k1 where k1: "(if itimediff (kcurrent k) ts \<ge> 0
       then ikcp_update_ack k (itimediff (kcurrent k) ts) else Some k) = Some k1"
    and k': "k' = ikcp_shrink_buf (ikcp_parse_ack k1 sn)"
    using assms by (auto simp: input_ack_def bind_Some_iff Let_def split: if_splits)
  have "snd_less k k1"
    using k1 by (auto intro!: snd_less_same_fields simp: ikcp_update_ack_def bind_Some_iff Let_def split: if_splits)
  moreover have "set (snd_buf (ikcp_parse_ack k1 sn)) \<subseteq> set (snd_buf k1)"
    using parse_ack_loop_subset [of sn "snd_buf k1"] by (auto simp: ikcp_parse_ack_def split: prod.splits)
  then have "snd_less k1 k'" by (intro snd_less_same_fields) (simp_all add: k')
  ultimately show ?thesis by (rule snd_less_trans)
qed

lemma parse_data_snd_less: "rcv_inv k \<Longrightarrow> snd_less k (ikcp_parse_data k s)"
  by (rule snd_less_same_fields) (auto simp: parse_data_eq put_seg_def Let_def)

lemma input_seg_snd_less:
  assumes "inp_inv (Suc n) k" "unat (seg_wnd h) < 65536" "unat (seg_len h) \<le> length rest"
    and "input_seg k h rest f m = Some (k', f', m')"
  shows "snd_less k k'"
proof -
  let ?k = "take_una h k"
  have i: "snd_inv ?k" "rcv_inv ?k" "ack_inv ?k" "unat (ackcount ?k) < 2 ^ 30"
    using assms(1) take_una_inv [OF _ assms(2), of k] by (auto simp: inp_inv_def kcp_inv_def)
  have "snd_less k ?k" by (rule take_una_snd_less)
  moreover have "snd_less ?k k'"
  proof (cases "seg_cmd h = IKCP_CMD_PUSH")
    case True
    then have p: "input_push ?k h rest = Some k'" using assms(4) by (auto simp: input_seg_eq Let_def cmd_consts)
    obtain k1 where k1: "k1 = ?k \<or> (\<exists>al ab. k1 = ?k\<lparr>acklist := al, ackblock := ab, ackcount := ackcount ?k + 1\<rparr>)"
      and r: "k' = k1 \<or> k' = ikcp_parse_data k1 (h\<lparr>seg_data := take (unat (seg_len h)) rest\<rparr>)"
      using input_push_ok [OF i(2-4) assms(3)] p by auto
    have "snd_less ?k k1" using k1 by (auto intro!: snd_less_same_fields)
    moreover have "rcv_inv k1" using k1 i(2) by (auto simp: ack_push_frame [OF refl])
    then have "snd_less k1 k'" using r parse_data_snd_less by auto
    ultimately show ?thesis by (rule snd_less_trans)
  next
    case False
    then show ?thesis
      using assms(4) input_ack_snd_less [of ?k "seg_sn h" "seg_ts h" f m k' f' m']
      by (auto simp: input_seg_eq Let_def intro!: snd_less_same_fields split: if_splits)
  qed
  ultimately show ?thesis by (rule snd_less_trans)
qed

lemma finish_snd_less:
  assumes "input_finish una r = Some (c, k')"
  shows "snd_less (loop_state r) k'"
proof (cases r)
  case (Inl res)
  then show ?thesis using assms by (cases res) (auto simp: loop_state_def input_finish_def)
next
  case (Inr t)
  obtain k1 f m where t: "t = (k1, f, m)" by (metis prod_cases3)
  let ?k2 = "if f then ikcp_parse_fastack k1 m else k1"
  have r: "list_all2 same_seg q q" for q by (simp add: list_all2_same)
  have f1: "same_seg (s\<lparr>seg_fastack := x\<rparr>) s" for s x by (simp add: same_seg_def)
  have la: "list_all2 same_seg (parse_fastack_loop m q) q" for q
  proof (induction q)
    case (Cons s q)
    then show ?case using r [of q] f1 by simp
  qed simp
  have "\<forall>s\<in>set (parse_fastack_loop m (snd_buf k1)). \<exists>t\<in>set (snd_buf k1). same_seg s t"
    by (rule ballI) (rule list_all2_in [OF la])
  then have "snd_less k1 (k1\<lparr>snd_buf := parse_fastack_loop m (snd_buf k1)\<rparr>)" by (simp add: snd_less_def)
  then have "snd_less k1 ?k2" by (simp add: ikcp_parse_fastack_def)
  moreover have "snd_less x y" if "(if itimediff (snd_una x) una > 0 then input_cwnd x else Some x) = Some y" for x y
  proof (cases "itimediff (snd_una x) una > 0")
    case True
    then obtain a b where "y = x\<lparr>cwnd := a, incr := b\<rparr>"
      using \<open>(if itimediff (snd_una x) una > 0 then input_cwnd x else Some x) = Some y\<close> input_cwnd_frame [of x y] by auto
    then show ?thesis by (intro snd_less_same_fields) simp_all
  next
    case False
    then show ?thesis using \<open>(if itimediff (snd_una x) una > 0 then input_cwnd x else Some x) = Some y\<close> by simp
  qed
  moreover have "(if itimediff (snd_una ?k2) una > 0 then input_cwnd ?k2 else Some ?k2) = Some k'"
    using assms Inr t by (auto simp: input_finish_def Let_def bind_Some_iff)
  ultimately have "snd_less k1 k'" using snd_less_trans by blast
  then show ?thesis using Inr t by (simp add: loop_state_def)
qed

lemma input_snd_less:
  assumes "ikcp_input k (Some data) sz = Some (c, k')" "kcp_inv k" "unat (ackcount k) + length (dgram data) < 2 ^ 30"
  shows "snd_less k k'"
proof (cases "sz < sint IKCP_OVERHEAD")
  case True
  then show ?thesis using assms(1) by (simp add: ikcp_input_def)
next
  case False
  then obtain r where r: "input_loop k False 0 data sz = Some r" and e: "input_finish (snd_una k) r = Some (c, k')"
    using assms(1) by (auto simp: ikcp_input_def bind_Some_iff)
  have "\<exists>n'. inp_inv n' (loop_state r) \<and> snd_less k (loop_state r)"
  proof (rule input_loop_keeps [OF r, of "\<lambda>n x. inp_inv n x \<and> snd_less k x" "length (dgram data)" "\<lambda>s. unat (seg_wnd s) < 65536"])
    show "inp_inv (length (dgram data)) k \<and> snd_less k k" using assms(2,3) by (simp add: inp_inv_def)
    show "\<forall>s\<in>set (dgram data). unat (seg_wnd s) < 65536" using dgram_wnd by blast
    fix n x h rest f m k' f' m'
    assume "inp_inv (Suc n) x \<and> snd_less k x" "unat (seg_wnd (h\<lparr>seg_data := take (unat (seg_len h)) rest\<rparr>)) < 65536"
      "input_seg x h rest f m = Some (k', f', m')" "unat (seg_len h) \<le> length rest"
    then show "inp_inv n k' \<and> snd_less k k'"
      using input_seg_keeps [of n x h rest f m k' f' m'] input_seg_snd_less [of n x h rest f m k' f' m'] snd_less_trans
      by auto
  qed simp
  then show ?thesis using finish_snd_less [OF e] snd_less_trans by blast
qed

lemma step_good:
  assumes "kcp_step k k'" "kcp_good k"
  shows "kcp_good k'"
  using assms(1)
proof cases
  case (st_send fresh src n c)
  then show ?thesis using send_inv send_fits assms(2) by (auto simp: kcp_good_def)
next
  case (st_recv hb n c dst)
  then have "kcp_inv k'" using recv_inv assms(2) by (auto simp: kcp_good_def)
  moreover have "snd_less k k'" using st_recv recv_snd_less assms(2) by (auto simp: kcp_good_def kcp_inv_def)
  ultimately show ?thesis using assms(2) snd_less_fits by (auto simp: kcp_good_def snd_less_def)
next
  case (st_input data sz c)
  then have "kcp_inv k'" "snd_less k k'" using input_inv input_snd_less assms(2) by (auto simp: kcp_good_def)
  then show ?thesis using assms(2) snd_less_fits by (auto simp: kcp_good_def snd_less_def)
next
  case (st_flush outs)
  then show ?thesis using flush_ok [of k] assms(2) by (auto simp: kcp_good_def flush_post_def)
next
  case (st_update now outs)
  then show ?thesis using update_ok [of k now] assms(2) by (auto simp: kcp_good_def flush_post_def)
next
  case (st_setmtu m c)
  then show ?thesis using setmtu_good assms(2) by blast
next
  case (st_interval v c)
  then show ?thesis using interval_good assms(2) by (auto simp: ikcp_interval_def)
next
  case (st_nodelay nd v rs nc c)
  then show ?thesis using nodelay_good assms(2) by blast
next
  case (st_wndsize sw rw c)
  then show ?thesis using wndsize_good assms(2) by blast
next
  case (st_minrto v)
  then show ?thesis using minrto_good assms(2) by blast
qed

lemma reach_good: "kcp_reach cv k \<Longrightarrow> kcp_good k"
proof (induction rule: kcp_reach.induct)
  case reach_create
  have "kcp_inv (ikcp_setoutput (ikcp_create cv)) = kcp_inv (ikcp_create cv)"
    by (simp add: ikcp_setoutput_def kcp_inv_def kcp_parts)
  then show ?case using create_inv by (simp add: kcp_good_def ikcp_setoutput_def fits_mtu_def ikcp_create_def)
next
  case (reach_step k k')
  then show ?case using step_good by blast
qed


section \<open>Properties\<close>



text \<open>
  C25: \<^verbatim>\<open>ikcp_check\<close> is sound: it asks to be called within the interval, and before the time it names no
  retransmission is due and \<^verbatim>\<open>ikcp_update\<close> would only store the time.
\<close>

theorem ikcp_check_sound:
  assumes "d < off now (ikcp_check k now)"
  shows "off now (ikcp_check k now) \<le> unat (interval k)
    \<and> (\<forall>s\<in>set (snd_buf k). itimediff (now + of_nat d) (seg_resendts s) < 0)
    \<and> ikcp_update k (now + of_nat d) = Some (k\<lparr>kcurrent := now + of_nat d\<rparr>, [])"
  using check_within_interval check_nothing_due [OF assms] by blast

theorem ikcp_check_sound_witness:
  "off 0 (ikcp_check ((ikcp_create Guid_zero)\<lparr>updated := 1\<rparr>) 0) \<le> 17"
proof -
  let ?k = "(ikcp_create Guid_zero)\<lparr>updated := 1\<rparr>"
  have "(0 :: nat) < off 0 (ikcp_check ?k 0)" by code_simp
  then show ?thesis using ikcp_check_sound [of 0 0 ?k] by (simp add: ikcp_create_def IKCP_INTERVAL_def)
qed

text \<open>
  \<^verbatim>\<open>ikcp_setmtu\<close> does not look at the segments already queued: lowering the MTU to 50 while a
  segment of 300 bytes waits makes the next flush write past the end of its new 258-byte buffer.
\<close>

theorem setmtu_overruns:
  "(do { (c, k) \<leftarrow> ikcp_send (\<lambda>n. replicate n 0) (ikcp_setoutput (ikcp_create Guid_zero)) (Some (replicate 300 0)) 300;
         (k, outs) \<leftarrow> ikcp_update k 1000;
         let k = snd (ikcp_setmtu k 50);
         Some (ikcp_update k 1100) }) = Some None"
  by code_simp

end
