(* ===== verification/KcpNet.thy ===== *)
theory KcpNet
  imports KcpClock
begin

text \<open>
  Two control blocks of \<^verbatim>\<open>ikcp.h\<close> joined by a network that may lose, repeat, delay and reorder
  datagrams: whatever happens, the messages one side receives are the messages the other side
  sent, in order, complete and unchanged, each exactly once.
\<close>

section \<open>The stream of a sender\<close>

definition stream_at :: "(u32 \<times> bytes) list \<Rightarrow> nat \<Rightarrow> u32 \<times> bytes \<Rightarrow> bool" where
  "stream_at L i p \<longleftrightarrow> i < length L \<and> L ! i = p"

lemma stream_at_mono: "stream_at L i p \<Longrightarrow> stream_at (L @ X) i p"
  by (auto simp: stream_at_def nth_append)

lemma rel_mono: "rcv_rel (stream_at L) m k \<Longrightarrow> rcv_rel (stream_at (L @ X)) m k"
  by (auto simp: rcv_rel_def Let_def intro: stream_at_mono)

lemma rel_bound:
  assumes "rcv_rel (stream_at L) m k" "m \<le> length L"
  shows "m + length (rcv_queue k) \<le> length L"
proof (cases "rcv_queue k")
  case Nil
  then show ?thesis using assms(2) by simp
next
  case (Cons s q)
  then have "stream_at L (m + length q) (payload (rcv_queue k ! length q))"
    using assms(1) by (auto simp: rcv_rel_def Let_def)
  then show ?thesis using Cons by (simp add: stream_at_def)
qed

text \<open>A segment of the stream seen through the window is where its number says.\<close>

lemma off_of_nat:
  assumes "n \<le> i" "i < 2 ^ 32"
  shows "off (of_nat n) (of_nat i) = i - n"
proof -
  obtain d where "i = n + d" using assms(1) le_Suc_ex by blast
  then show ?thesis using assms(2) by (simp add: off_def unat_of_nat)
qed

lemma window_index:
  assumes "n \<le> length L" "length L < HALF" "i < length L" "off (of_nat n) (of_nat i) < HALF"
  shows "n + off (of_nat n) (of_nat i) = i"
proof (cases "n \<le> i")
  case True
  then show ?thesis using assms(2,3) off_of_nat [of n i] by simp
next
  case False
  have o: "off (of_nat i) (of_nat n) = n - i" using False assms(1,2) by (intro off_of_nat) auto
  have "itimediff (of_nat i) (of_nat n) = int (off (of_nat n) (of_nat i))"
    using itimediff_off [of "of_nat n" "of_nat i" "of_nat n"] assms(4) by simp
  moreover have "itimediff (of_nat i) (of_nat n) = - int (n - i)"
    using itimediff_off [of "of_nat i" "of_nat i" "of_nat n"] o assms(1,2) by simp
  ultimately show ?thesis using False by simp
qed

definition from_stream :: "(u32 \<times> bytes) list \<Rightarrow> IKCPSEG \<Rightarrow> bool" where
  "from_stream L s \<longleftrightarrow> (seg_cmd s = IKCP_CMD_PUSH \<longrightarrow> (\<exists>i < length L. seg_sn s = of_nat i \<and> payload s = L ! i))"

lemma parse_data_stream:
  assumes "rcv_inv k" "rcv_rel (stream_at L) m k" "m \<le> length L" "length L < HALF" "wf_seg s"
    and "\<exists>i < length L. seg_sn s = of_nat i \<and> payload s = L ! i"
  shows "rcv_rel (stream_at L) m (ikcp_parse_data k s)"
proof (rule parse_data_rel [OF assms(1,2,5)])
  assume w: "in_window k (seg_sn s)"
  obtain i where i: "i < length L" "seg_sn s = of_nat i" "payload s = L ! i" using assms(6) by blast
  let ?n = "m + length (rcv_queue k)"
  have nx: "rcv_nxt k = of_nat ?n" using assms(2) by (simp add: rcv_rel_def Let_def)
  have "off (of_nat ?n) (of_nat i) < HALF"
    using w assms(1) i(2) nx by (simp add: in_window_def rcv_inv_def)
  from window_index [OF rel_bound [OF assms(2,3)] assms(4) i(1) this]
  show "stream_at L (?n + off (rcv_nxt k) (seg_sn s)) (payload s)"
    unfolding nx i(2) using i by (simp add: stream_at_def)
qed

lemma input_seg_stream:
  assumes "inp_inv (Suc n) k" "rcv_rel (stream_at L) m k" "m \<le> length L" "length L < HALF"
    and "unat (seg_wnd h) < 65536" "unat (seg_len h) \<le> length rest"
    and "from_stream L (h\<lparr>seg_data := take (unat (seg_len h)) rest\<rparr>)"
    and "input_seg k h rest f mx = Some (k', f', m')"
  shows "rcv_rel (stream_at L) m k'"
proof -
  let ?k = "take_una h k" and ?s = "h\<lparr>seg_data := take (unat (seg_len h)) rest\<rparr>"
  have i: "snd_inv ?k" "rcv_inv ?k" "ack_inv ?k" "cfg_inv ?k" "unat (ackcount ?k) < 2 ^ 30" "rcv_rel (stream_at L) m ?k"
    using assms(1,2) take_una_inv [OF _ assms(5), of k] by (auto simp: inp_inv_def kcp_inv_def)
  consider "seg_cmd h = IKCP_CMD_ACK" | "seg_cmd h = IKCP_CMD_PUSH"
    | "seg_cmd h \<noteq> IKCP_CMD_ACK" "seg_cmd h \<noteq> IKCP_CMD_PUSH" by blast
  then show ?thesis
  proof cases
    case 1
    then have "input_ack ?k (seg_sn h) (seg_ts h) f mx = Some (k', f', m')" using assms(8) by (simp add: input_seg_eq)
    from input_ack_keeps [OF this i(1,4)] show ?thesis using i(6) by blast
  next
    case 2
    then have p: "input_push ?k h rest = Some k'" using assms(8) by (auto simp: input_seg_eq Let_def cmd_consts)
    obtain k1 where k1: "k1 = ?k \<or> (\<exists>al ab. k1 = ?k\<lparr>acklist := al, ackblock := ab, ackcount := ackcount ?k + 1\<rparr>)"
      and r: "k' = k1 \<or> k' = ikcp_parse_data k1 ?s"
      using input_push_ok [OF i(2,3,5) assms(6)] p by auto
    have k1i: "rcv_inv k1" "rcv_rel (stream_at L) m k1" using k1 i by (auto simp: ack_push_frame [OF refl])
    have "wf_seg ?s" using assms(6) by (simp add: wf_seg_def)
    moreover have "\<exists>i < length L. seg_sn ?s = of_nat i \<and> payload ?s = L ! i"
      using assms(7) 2 by (simp add: from_stream_def)
    ultimately have "rcv_rel (stream_at L) m (ikcp_parse_data k1 ?s)"
      by (rule parse_data_stream [OF k1i assms(3,4)])
    then show ?thesis using r k1i by blast
  next
    case 3
    then have "k' = ?k \<or> k' = ?k\<lparr>probe := probe ?k OR IKCP_ASK_TELL\<rparr>"
      using assms(8) by (auto simp: input_seg_eq Let_def split: if_splits)
    then show ?thesis using i(6) by (auto simp: rcv_rel_def)
  qed
qed

lemma finish_rel:
  assumes "input_finish una r = Some (c, k')" "rcv_rel S m (loop_state r)"
  shows "rcv_rel S m k'"
proof (cases r)
  case (Inl res)
  then show ?thesis using assms by (cases res) (auto simp: loop_state_def input_finish_def)
next
  case (Inr t)
  obtain k1 f mx where t: "t = (k1, f, mx)" by (metis prod_cases3)
  let ?k2 = "if f then ikcp_parse_fastack k1 mx else k1"
  have "rcv_rel S m (ikcp_parse_fastack k1 mx) = rcv_rel S m k1"
    by (simp add: ikcp_parse_fastack_def rcv_rel_def)
  then have "rcv_rel S m ?k2" using assms(2) Inr t by (simp add: loop_state_def)
  moreover have "rcv_rel S m (x\<lparr>cwnd := a, incr := b\<rparr>) = rcv_rel S m x" for x a b by (simp add: rcv_rel_def)
  moreover have "(if itimediff (snd_una ?k2) una > 0 then input_cwnd ?k2 else Some ?k2) = Some k'"
    using assms(1) Inr t by (auto simp: input_finish_def Let_def bind_Some_iff)
  ultimately show ?thesis using input_cwnd_frame [of ?k2 k'] by (metis option.inject)
qed

lemma input_stream:
  assumes "ikcp_input k (Some data) sz = Some (c, k')" "kcp_inv k" "unat (ackcount k) + length (dgram data) < 2 ^ 30"
    and "rcv_rel (stream_at L) m k" "m \<le> length L" "length L < HALF" "\<forall>s\<in>set (dgram data). from_stream L s"
  shows "rcv_rel (stream_at L) m k'"
proof (cases "sz < sint IKCP_OVERHEAD")
  case True
  then show ?thesis using assms(1,4) by (simp add: ikcp_input_def)
next
  case False
  then obtain r where r: "input_loop k False 0 data sz = Some r" and e: "input_finish (snd_una k) r = Some (c, k')"
    using assms(1) by (auto simp: ikcp_input_def bind_Some_iff)
  let ?P = "\<lambda>n x. inp_inv n x \<and> rcv_rel (stream_at L) m x"
  have "\<exists>n'. ?P n' (loop_state r)"
  proof (rule input_loop_keeps [OF r, of ?P "length (dgram data)" "\<lambda>s. unat (seg_wnd s) < 65536 \<and> from_stream L s"])
    show "?P (length (dgram data)) k" using assms(2-4) by (simp add: inp_inv_def)
    show "\<forall>s\<in>set (dgram data). unat (seg_wnd s) < 65536 \<and> from_stream L s" using dgram_wnd assms(7) by blast
    fix n x h rest f mx k' f' m'
    assume a: "?P (Suc n) x"
      "unat (seg_wnd (h\<lparr>seg_data := take (unat (seg_len h)) rest\<rparr>)) < 65536 \<and> from_stream L (h\<lparr>seg_data := take (unat (seg_len h)) rest\<rparr>)"
      "input_seg x h rest f mx = Some (k', f', m')" "unat (seg_len h) \<le> length rest"
    then show "?P n k'"
      using input_seg_keeps [of n x h rest f mx k' f' m'] input_seg_stream [of n x L m h rest f mx k' f' m'] assms(5,6)
      by auto
  qed simp
  then show ?thesis using finish_rel [OF e] by blast
qed


section \<open>Messages\<close>

text \<open>A message as fragments: counted down to zero, fewer than 128, together its bytes.\<close>

definition frag_ok :: "(u32 \<times> bytes) list \<Rightarrow> bool" where
  "frag_ok f \<longleftrightarrow> f \<noteq> [] \<and> length f < 128 \<and> map fst f = map of_nat (rev [0..<length f])
     \<and> length (concat (map snd f)) < HALF"

definition msg :: "(u32 \<times> bytes) list \<Rightarrow> bytes" where
  "msg f = concat (map snd f)"

lemma fragments_ok:
  assumes "0 < c" "c < 128" "length d \<le> c * m" "length d < HALF"
  shows "frag_ok (map payload (fragments m True c d))" "msg (map payload (fragments m True c d)) = d"
proof -
  have a: "map fst (map payload xs) = map seg_frg xs" "map snd (map payload xs) = map seg_data xs" for xs
    by (simp_all add: payload_def comp_def)
  have "concat (map seg_data (fragments m True c d)) = d" using fragments_concat [OF assms(3)] .
  then show "msg (map payload (fragments m True c d)) = d" unfolding msg_def a .
  then show "frag_ok (map payload (fragments m True c d))"
    using assms(1,2,4) fragments_frg [of m c d]
    unfolding frag_ok_def a msg_def by (auto simp: fragments_concat [OF assms(3)])
qed

lemma fst_payload: "fst (payload s) = seg_frg s" and snd_payload: "snd (payload s) = seg_data s"
  by (simp_all add: payload_def)

text \<open>The first message of a queue that starts with these fragments.\<close>

lemma first_msg_fragments:
  assumes "map payload q1 = f" "map fst f = map of_nat (rev [0..<length f])" "f \<noteq> []" "length f < 2 ^ 32"
  shows "first_msg (q1 @ q2) = Some (q1, q2) \<and> seg_bytes q1 = msg f \<and> unat (seg_frg (hd q1)) < length q1"
  using assms
proof (induction q1 arbitrary: f)
  case Nil
  then show ?case by simp
next
  case (Cons s q1)
  let ?f = "map payload q1"
  have l: "length f = Suc (length ?f)" using Cons.prems(1) by auto
  have "fst (payload s) # map fst ?f = map of_nat (rev [0..<Suc (length ?f)])"
    using Cons.prems(1,2) unfolding l by auto
  then have hd: "seg_frg s = of_nat (length ?f)" and tl: "map fst ?f = map of_nat (rev [0..<length ?f])"
    by (simp_all add: fst_payload)
  have u: "unat (seg_frg s) = length ?f" using hd Cons.prems(4) l by (simp add: unat_of_nat)
  have sb: "seg_bytes (s # q1) = msg f" if "seg_bytes q1 = msg ?f"
    using that Cons.prems(1) by (auto simp: seg_bytes_def msg_def snd_payload)
  show ?case
  proof (cases "?f = []")
    case True
    then show ?thesis using hd sb by (auto simp: seg_bytes_def msg_def)
  next
    case False
    then have "seg_frg s \<noteq> 0" using u by (metis length_0_conv unat_0)
    then show ?thesis using Cons.IH [OF refl tl False] Cons.prems(4) l u sb by auto
  qed
qed

text \<open>When \<^verbatim>\<open>ikcp_peeksize\<close> reports a message, the queue holds all of its fragments.\<close>

lemma queue_holds_message:
  assumes fo: "frag_ok f" and ri: "rcv_inv k" and q0: "rcv_queue k \<noteq> []" and c: "0 \<le> ikcp_peeksize k"
    and at: "\<And>j. j < length (rcv_queue k) \<Longrightarrow> j < length f \<Longrightarrow> payload (rcv_queue k ! j) = f ! j"
  shows "length f \<le> length (rcv_queue k)" "map payload (take (length f) (rcv_queue k)) = f"
proof -
  have f0: "0 < length f" "length f < 2 ^ 32" using fo by (simp_all add: frag_ok_def)
  obtain s q where q: "rcv_queue k = s # q" using q0 by (cases "rcv_queue k") auto
  have "map fst f ! 0 = map of_nat (rev [0..<length f]) ! 0" using fo by (simp add: frag_ok_def)
  then have "fst (f ! 0) = of_nat (length f - 1)" using f0(1) by (simp add: rev_nth)
  then have "seg_frg s = of_nat (length f - 1)" using at [of 0] f0(1) q fst_payload by (metis length_greater_0_conv list.discI nth_Cons_0)
  moreover have "length f - 1 < 2 ^ 32" using f0(2) by (rule less_imp_diff_less)
  ultimately have su: "unat (seg_frg s) = length f - 1" by (simp add: unat_of_nat)
  have nq: "unat (nrcv_que k) = length (rcv_queue k)" using ri by (simp add: rcv_inv_def unat_of_nat)
  show enough: "length f \<le> length (rcv_queue k)"
  proof (cases "seg_frg s = 0")
    case True
    then show ?thesis using su q by simp
  next
    case False
    then have "\<not> nrcv_que k < seg_frg s + 1" using c q by (auto simp: ikcp_peeksize_def split: if_splits)
    moreover have "unat (seg_frg s + 1) = length f"
      using su f0 fo unat_add_lem [of "seg_frg s" 1] by (simp add: frag_ok_def)
    ultimately show ?thesis using nq by (simp add: word_less_nat_alt)
  qed
  show "map payload (take (length f) (rcv_queue k)) = f"
    by (rule nth_equalityI) (use enough at in auto)
qed

lemma queue_next_message:
  assumes inv: "kcp_inv k" and F: "\<forall>f\<in>set F. frag_ok f" and g: "g \<le> length F"
    and rel: "rcv_rel (stream_at (concat F)) (length (concat (take g F))) k"
    and ne: "rcv_queue k \<noteq> []" and p: "0 \<le> ikcp_peeksize k"
  obtains q1 where "g < length F" "q1 = take (length (F ! g)) (rcv_queue k)" "length (F ! g) \<le> length (rcv_queue k)"
    "first_msg (rcv_queue k) = Some (q1, drop (length (F ! g)) (rcv_queue k))" "seg_bytes q1 = msg (F ! g)"
    "length (seg_bytes q1) < HALF" "unat (seg_frg (hd q1)) < length q1" "ikcp_peeksize k = int (length (seg_bytes q1))"
proof -
  let ?L = "concat F" and ?m = "length (concat (take g F))" and ?q = "rcv_queue k"
  have ri: "rcv_inv k" using inv by (simp add: kcp_inv_def)
  have at: "stream_at ?L (?m + j) (payload (?q ! j))" if "j < length ?q" for j
    using rel that by (simp add: rcv_rel_def Let_def)
  have "?m < length ?L" using at [of 0] ne by (simp add: stream_at_def)
  then have gl: "g < length F" using g by (cases "g = length F") auto
  define f where "f = F ! g"
  have fo: "frag_ok f" using F gl by (simp add: f_def)
  have L: "?L = concat (take g F) @ f @ concat (drop (Suc g) F)"
    unfolding f_def using gl by (metis append_take_drop_id concat.simps(2) concat_append Cons_nth_drop_Suc)
  have "payload (?q ! j) = f ! j" if "j < length ?q" "j < length f" for j
    using at [OF that(1)] that(2) by (simp add: stream_at_def L nth_append)
  note h = queue_holds_message [OF fo ri ne _ this]
  have enough: "length f \<le> length ?q" and q1: "map payload (take (length f) ?q) = f" using h p by simp_all
  define q1 where "q1 = take (length f) ?q"
  have fm: "first_msg ?q = Some (q1, drop (length f) ?q)" "seg_bytes q1 = msg f" "unat (seg_frg (hd q1)) < length q1"
    using first_msg_fragments [OF q1, of "drop (length f) ?q"] fo by (auto simp: frag_ok_def q1_def)
  have hb: "length (seg_bytes q1) < HALF" using fo fm(2) by (simp add: frag_ok_def msg_def)
  have "ikcp_peeksize k = int (length (seg_bytes q1))" using peeksize_ok [OF ri fm(1) hb fm(3)] by simp
  with gl enough fm hb show thesis by (intro that [of q1]) (simp_all add: f_def q1_def)
qed

lemma recv_next_message:
  assumes inv: "kcp_inv k" and F: "\<forall>f\<in>set F. frag_ok f" and g: "g \<le> length F"
    and rel: "rcv_rel (stream_at (concat F)) (length (concat (take g F))) k"
    and r: "ikcp_recv k True n = Some (c, dst, k')" "0 \<le> n" "0 \<le> c"
  shows "g < length F \<and> dst = msg (F ! g) \<and> c = int (length dst) \<and> rcv_rel (stream_at (concat F)) (length (concat (take (Suc g) F))) k'"
proof -
  have ri: "rcv_inv k" using inv by (simp add: kcp_inv_def)
  have rc: "rcv_queue k \<noteq> []" "c = ikcp_peeksize k" "c \<le> n" "n < 2 ^ 31" using recv_cases [OF r(1) ri] r(2,3) by auto
  then have "0 \<le> ikcp_peeksize k" using r(3) by simp
  from queue_next_message [OF inv F g rel rc(1) this] obtain q1 where
    q: "g < length F" "q1 = take (length (F ! g)) (rcv_queue k)" "length (F ! g) \<le> length (rcv_queue k)"
    "first_msg (rcv_queue k) = Some (q1, drop (length (F ! g)) (rcv_queue k))" "seg_bytes q1 = msg (F ! g)"
    "length (seg_bytes q1) < HALF" "unat (seg_frg (hd q1)) < length q1" "ikcp_peeksize k = int (length (seg_bytes q1))" by blast
  have "length q1 = length (F ! g)" using q(2,3) by simp
  then have k': "k' = after_recv (nrcv_que k \<ge> rcv_wnd k) (take_segs (length (F ! g)) k)" "dst = msg (F ! g)"
    using recv_message [OF ri q(4,6,7), of n] r(1) rc q(5,8) by (simp_all add: take_segs_def)
  have "rcv_inv (take_segs (length (F ! g)) k)" using take_segs_keeps [OF inv q(3)] by (simp add: kcp_inv_def)
  then have "rcv_rel (stream_at (concat F)) (length (concat (take g F)) + length (F ! g)) k'"
    unfolding k'(1) by (rule after_recv_rel) (rule take_segs_rel [OF rel q(3)])
  then show ?thesis using q(1,5,8) k'(2) rc(2) by (simp add: take_Suc_conv_app_nth)
qed

lemma recv_total:
  assumes inv: "kcp_inv k" and F: "\<forall>f\<in>set F. frag_ok f" and g: "g \<le> length F"
    and rel: "rcv_rel (stream_at (concat F)) (length (concat (take g F))) k" and n: "0 \<le> n" "n < 2 ^ 31"
  shows "\<exists>c dst k'. ikcp_recv k True n = Some (c, dst, k')"
proof (cases "rcv_queue k = [] \<or> ikcp_peeksize k < 0 \<or> n < ikcp_peeksize k")
  case True
  then show ?thesis using n by (auto simp: ikcp_recv_def i32_def)
next
  case False
  then have p: "rcv_queue k \<noteq> []" "0 \<le> ikcp_peeksize k" by auto
  have ri: "rcv_inv k" using inv by (simp add: kcp_inv_def)
  show ?thesis
    by (rule queue_next_message [OF inv F g rel p]) (use recv_message [OF ri] False n in fastforce)
qed


section \<open>Two endpoints and a network\<close>

text \<open>
  An endpoint: its control block, the messages its user sent and received so far, and the number of
  segments it ever queued.
\<close>

record node =
  kcb :: IKCPCB
  sent :: "bytes list"
  got :: "bytes list"
  segs :: nat

inductive setting :: "IKCPCB \<Rightarrow> IKCPCB \<Rightarrow> bool" where
  set_mtu: "\<lbrakk>m < 2 ^ 30; \<forall>s\<in>set (snd_queue k) \<union> set (snd_buf k). int (unat (seg_len s)) \<le> m - 36;
     ikcp_setmtu k m = (c, k')\<rbrakk> \<Longrightarrow> setting k k'"
| set_interval: "ikcp_interval k v = (c, k') \<Longrightarrow> setting k k'"
| set_nodelay: "ikcp_nodelay k nd v rs nc = (c, k') \<Longrightarrow> setting k k'"
| set_wndsize: "\<lbrakk>sw < 2 ^ 31; rw < 2 ^ 31; ikcp_wndsize k sw rw = (c, k')\<rbrakk> \<Longrightarrow> setting k k'"
| set_minrto: "\<lbrakk>1 \<le> v; v \<le> 60000\<rbrakk> \<Longrightarrow> setting k (k\<lparr>rx_minrto := v\<rparr>)"

text \<open>
  One action of an endpoint, given the datagrams \<open>W\<close> the other side ever gave to the network: any of
  them may arrive now, however often it did before. The datagrams the action gives out are \<open>outs\<close>.
\<close>

inductive node_step :: "bytes set \<Rightarrow> node \<Rightarrow> node \<Rightarrow> bytes list \<Rightarrow> bool" where
  nd_send: "\<lbrakk>fresh_ok fresh; length d < HALF; ikcp_send fresh (kcb x) (Some d) (int (length d)) = Some (c, k');
     n = segs x + length (snd_queue k') - length (snd_queue (kcb x)); n < HALF\<rbrakk>
   \<Longrightarrow> node_step W x (x\<lparr>kcb := k', sent := (if c = 0 then sent x @ [d] else sent x), segs := n\<rparr>) []"
| nd_recv: "\<lbrakk>0 \<le> n; ikcp_recv (kcb x) True n = Some (c, dst, k')\<rbrakk>
   \<Longrightarrow> node_step W x (x\<lparr>kcb := k', got := (if c \<ge> 0 then got x @ [dst] else got x)\<rparr>) []"
| nd_input: "\<lbrakk>d \<in> W; unat (ackcount (kcb x)) + length (dgram d) < 2 ^ 30;
     ikcp_input (kcb x) (Some d) (int (length d)) = Some (c, k')\<rbrakk>
   \<Longrightarrow> node_step W x (x\<lparr>kcb := k'\<rparr>) []"
| nd_flush: "ikcp_flush (kcb x) = Some (k', outs) \<Longrightarrow> node_step W x (x\<lparr>kcb := k'\<rparr>) outs"
| nd_update: "ikcp_update (kcb x) now = Some (k', outs) \<Longrightarrow> node_step W x (x\<lparr>kcb := k'\<rparr>) outs"
| nd_setting: "setting (kcb x) k' \<Longrightarrow> node_step W x (x\<lparr>kcb := k'\<rparr>) []"

record net =
  na :: node
  nb :: node
  wab :: "bytes set"
  wba :: "bytes set"

inductive net_step :: "net \<Rightarrow> net \<Rightarrow> bool" where
  step_a: "node_step (wba s) (na s) x outs \<Longrightarrow> net_step s (s\<lparr>na := x, wab := wab s \<union> set outs\<rparr>)"
| step_b: "node_step (wab s) (nb s) x outs \<Longrightarrow> net_step s (s\<lparr>nb := x, wba := wba s \<union> set outs\<rparr>)"

definition node_init :: "Guid \<Rightarrow> node" where
  "node_init cv = \<lparr>kcb = ikcp_setoutput (ikcp_create cv), sent = [], got = [], segs = 0\<rparr>"

inductive net_reach :: "Guid \<Rightarrow> net \<Rightarrow> bool" for cv where
  net_init: "net_reach cv \<lparr>na = node_init cv, nb = node_init cv, wab = {}, wba = {}\<rparr>"
| net_next: "net_reach cv s \<Longrightarrow> net_step s s' \<Longrightarrow> net_reach cv s'"

definition sendable :: "(u32 \<times> bytes) list \<Rightarrow> IKCPSEG \<Rightarrow> bool" where
  "sendable L s \<longleftrightarrow> wf_seg s \<and> unat (seg_cmd s) < 256 \<and> unat (seg_frg s) < 256 \<and> from_stream L s"

definition src_ok :: "(u32 \<times> bytes) list list \<Rightarrow> node \<Rightarrow> bytes set \<Rightarrow> bool" where
  "src_ok F x W \<longleftrightarrow> (\<forall>f\<in>set F. frag_ok f) \<and> sent x = map msg F \<and> length (concat F) = segs x \<and> segs x < HALF
     \<and> snd_rel (concat F) (kcb x) \<and> (\<forall>d\<in>W. made_of (sendable (concat F)) d)"

definition dst_ok :: "(u32 \<times> bytes) list list \<Rightarrow> node \<Rightarrow> bool" where
  "dst_ok F y \<longleftrightarrow> (\<exists>g \<le> length F. got y = take g (map msg F)
     \<and> rcv_rel (stream_at (concat F)) (length (concat (take g F))) (kcb y))"

definition node_good :: "node \<Rightarrow> bool" where
  "node_good x \<longleftrightarrow> kcp_good (kcb x) \<and> stream (kcb x) = 0"

lemma sendable_mono: "sendable L s \<Longrightarrow> sendable (L @ X) s"
  by (auto simp: sendable_def from_stream_def nth_append)

lemma dst_ok_grow: "dst_ok F y \<Longrightarrow> dst_ok (F @ G) y"
proof -
  assume "dst_ok F y"
  then obtain g where "g \<le> length F" "got y = take g (map msg F)"
    "rcv_rel (stream_at (concat F)) (length (concat (take g F))) (kcb y)" by (auto simp: dst_ok_def)
  then show ?thesis unfolding dst_ok_def by (intro exI [of _ g]) (auto intro: rel_mono)
qed

text \<open>What arrives is from the stream.\<close>

lemma dgram_sendable:
  assumes "made_of (sendable L) d"
  shows "\<forall>s\<in>set (dgram d). from_stream L s"
proof -
  obtain ss where ss: "d = concat (map wire ss)" "\<forall>s\<in>set ss. sendable L s" using assms by (auto simp: made_of_def)
  have "dgram d = map wire_seg ss" using ss dgram_wire by (auto simp: sendable_def)
  moreover have "from_stream L (wire_seg s)" if "sendable L s" for s
  proof -
    have m: "x AND 255 = x" if "unat x < 256" for x :: u32
      using that unfolding mask_numerals
      by (simp add: take_bit_eq_mask [symmetric] word_unat_eq_iff unsigned_take_bit_eq take_bit_nat_eq_self)
    show ?thesis
      using that m [of "seg_cmd s"] m [of "seg_frg s"]
      by (auto simp: sendable_def from_stream_def wire_seg_def wire_head_def payload_def)
  qed
  ultimately show ?thesis using ss(2) by auto
qed

text \<open>What is flushed is from the stream.\<close>

lemma frag_ok_frg: "frag_ok f \<Longrightarrow> p \<in> set f \<Longrightarrow> unat (fst p) < 128"
proof -
  assume f: "frag_ok f" and "p \<in> set f"
  then have "fst p \<in> set (map of_nat (rev [0..<length f]) :: u32 list)" by (metis frag_ok_def image_eqI list.set_map)
  then obtain i where "fst p = of_nat i" "i < length f" by auto
  then show ?thesis using f by (simp add: frag_ok_def unat_of_nat)
qed

lemma flushed_sendable:
  assumes "snd_rel L k" "snd_inv k" "\<forall>p\<in>set L. unat (fst p) < 128" "flushed k s"
  shows "sendable L s"
  using assms(4) unfolding flushed_def
proof
  assume "ctl_seg (kconv k) s"
  then show ?thesis by (auto simp: ctl_seg_def sendable_def from_stream_def wf_seg_def cmd_consts)
next
  assume "\<exists>t\<in>set (snd_buf k). same_seg s t"
  then obtain t where t: "t \<in> set (snd_buf k)" "same_seg s t" by blast
  obtain i where i: "i < length L" "seg_sn t = of_nat i" "payload t = L ! i" "seg_cmd t = IKCP_CMD_PUSH"
    using assms(1) t(1) unfolding snd_rel_def by (meson less_le_trans)
  have "wf_seg t" using assms(2) t(1) by (auto simp: snd_inv_def)
  moreover have "unat (seg_frg t) < 128" using assms(3) i(1,3) fst_payload by (metis nth_mem)
  moreover have "payload s = payload t" using t(2) by (simp add: same_seg_def payload_def)
  ultimately show ?thesis
    using i t(2) by (auto simp: sendable_def from_stream_def same_seg_def wf_seg_def cmd_consts)
qed


section \<open>Preservation\<close>

lemma setting_good:
  assumes "setting k k'" "kcp_good k"
  shows "kcp_good k'"
  using assms(1)
proof cases
  case (set_mtu m c)
  then show ?thesis by (rule step_good [OF st_setmtu assms(2)])
next
  case (set_interval v c)
  then show ?thesis by (rule step_good [OF st_interval assms(2)])
next
  case (set_nodelay nd v rs nc c)
  then show ?thesis by (rule step_good [OF st_nodelay assms(2)])
next
  case (set_wndsize sw rw c)
  then show ?thesis by (rule step_good [OF st_wndsize assms(2)])
next
  case (set_minrto v)
  then show ?thesis using minrto_good assms(2) by blast
qed

lemma setting_keeps:
  assumes "setting k k'"
  shows "stream k' = stream k \<and> rcv_rel S m k' = rcv_rel S m k \<and> snd_rel L k' = snd_rel L k"
  using assms
proof cases
  case (set_mtu m c)
  then show ?thesis by (auto simp: ikcp_setmtu_def rcv_rel_def snd_rel_def split: if_splits)
next
  case (set_interval v c)
  then show ?thesis by (auto simp: ikcp_interval_def rcv_rel_def snd_rel_def)
next
  case (set_nodelay nd v rs nc c)
  define k1 where "k1 = (if nd \<ge> 0 then k\<lparr>nodelay := word_of_int nd,
            rx_minrto := uint (if nd \<noteq> 0 then IKCP_RTO_NDL else IKCP_RTO_MIN)\<rparr> else k)"
  define k2 where "k2 = (if v \<ge> 0 then k1\<lparr>interval := word_of_int (clamp_interval v)\<rparr> else k1)"
  define k3 where "k3 = (if rs \<ge> 0 then k2\<lparr>fastresend := rs\<rparr> else k2)"
  have "k' = (if nc \<ge> 0 then k3\<lparr>nocwnd := nc\<rparr> else k3)"
    using set_nodelay unfolding ikcp_nodelay_def Let_def k1_def [symmetric] k2_def [symmetric] k3_def [symmetric] by simp
  then show ?thesis by (simp add: k3_def k2_def k1_def rcv_rel_def snd_rel_def)
next
  case (set_wndsize sw rw c)
  define k1 where "k1 = (if sw > 0 then k\<lparr>snd_wnd := word_of_int sw\<rparr> else k)"
  have "k' = (if rw > 0 then k1\<lparr>rcv_wnd := imax (word_of_int rw) IKCP_WND_RCV\<rparr> else k1)"
    using set_wndsize unfolding ikcp_wndsize_def Let_def k1_def [symmetric] by simp
  then show ?thesis by (simp add: k1_def rcv_rel_def snd_rel_def)
next
  case (set_minrto v)
  then show ?thesis by (simp add: rcv_rel_def snd_rel_def)
qed

text \<open>A send in message mode: the error changes nothing, success appends the fragments.\<close>

lemma send_ok_cases:
  assumes "ikcp_send fresh k (Some d) (int (length d)) = Some (c, k')" "kcp_good k" "stream k = 0" "length d < HALF"
  shows "(c \<noteq> 0 \<and> k' = k) \<or> (\<exists>fs. c = 0 \<and> frag_ok (map payload fs) \<and> msg (map payload fs) = d
    \<and> k' = k\<lparr>snd_queue := snd_queue k @ fs, nsnd_que := nsnd_que k + of_nat (length fs)\<rparr>)"
proof -
  have cfg: "cfg_inv k" using assms(2) by (simp add: kcp_good_def kcp_inv_def)
  let ?m = "unat (mss k)" let ?n = "frag_count ?m (length d)"
  show ?thesis
  proof (cases "?n \<ge> 128")
    case True
    then show ?thesis using send_message [OF cfg assms(3,4)] assms(1) by auto
  next
    case False
    let ?fs = "fragments ?m True ?n d"
    have "0 < ?n" "length d \<le> ?n * ?m"
      using frag_count_bound(2) [OF cfg_mss(2,3) [OF cfg] assms(4)] frag_count_enough [of ?m "length d"] cfg_mss(2) [OF cfg]
      by auto
    then have "frag_ok (map payload ?fs)" "msg (map payload ?fs) = d" using fragments_ok [of ?n d ?m] False assms(4) by auto
    moreover have "c = 0" "k' = k\<lparr>snd_queue := snd_queue k @ ?fs, nsnd_que := nsnd_que k + of_nat (length ?fs)\<rparr>"
      using send_message [OF cfg assms(3,4), of fresh] assms(1) False by auto
    ultimately show ?thesis by blast
  qed
qed

lemma snd_rel_send:
  assumes "snd_rel L k"
  shows "snd_rel (L @ map payload fs) (k\<lparr>snd_queue := snd_queue k @ fs, nsnd_que := c\<rparr>)"
proof -
  obtain n where n: "n \<le> length L" "snd_nxt k = of_nat n" "map payload (snd_queue k) = drop n L"
    and b: "\<forall>s\<in>set (snd_buf k). seg_conv s = kconv k \<and> seg_cmd s = IKCP_CMD_PUSH
          \<and> (\<exists>i<n. seg_sn s = of_nat i \<and> payload s = L ! i)"
    using assms by (auto simp: snd_rel_def)
  have "\<exists>i<n. seg_sn s = of_nat i \<and> payload s = (L @ map payload fs) ! i" if s: "s \<in> set (snd_buf k)" for s
  proof -
    obtain i where "i < n" "seg_sn s = of_nat i" "payload s = L ! i" using b s by blast
    then show ?thesis using n(1) by (intro exI [of _ i]) (simp add: nth_append)
  qed
  then show ?thesis using n b unfolding snd_rel_def by (intro exI [of _ n]) simp
qed

lemma src_ok_out:
  assumes "src_ok F x W" "snd_rel (concat F) k'" "kcp_good k'" "\<forall>d\<in>set outs. made_of (flushed k') d"
  shows "src_ok F (x\<lparr>kcb := k'\<rparr>) (W \<union> set outs)"
proof -
  have "\<forall>p\<in>set (concat F). unat (fst p) < 128" using assms(1) frag_ok_frg by (auto simp: src_ok_def)
  then have "sendable (concat F) s" if "flushed k' s" for s
    using flushed_sendable [OF assms(2) _ _ that] assms(3) by (simp add: kcp_good_def kcp_inv_def)
  then show ?thesis using assms made_of_mono [of "flushed k'" _ "sendable (concat F)"] by (auto simp: src_ok_def)
qed

lemma flush_post_good: "flush_post k k' \<Longrightarrow> kcp_good k'"
  by (simp add: flush_post_def kcp_good_def)

lemma source_step:
  assumes "node_step V x x' outs" "node_good x" "src_ok F x W"
  shows "\<exists>G. src_ok (F @ G) x' (W \<union> set outs)"
  using assms(1)
proof cases
  case (nd_send fresh d c k' n)
  have "kcp_good (kcb x)" "stream (kcb x) = 0" using assms(2) by (simp_all add: node_good_def)
  then consider "c \<noteq> 0" "k' = kcb x" | fs where "c = 0" "frag_ok (map payload fs)" "msg (map payload fs) = d"
      "k' = (kcb x)\<lparr>snd_queue := snd_queue (kcb x) @ fs, nsnd_que := nsnd_que (kcb x) + of_nat (length fs)\<rparr>"
    using send_ok_cases [OF nd_send(5)] nd_send(4) by blast
  then show ?thesis
  proof cases
    case 1
    then show ?thesis using assms(3) nd_send by (intro exI [of _ "[]"]) (auto simp: src_ok_def)
  next
    case (2 fs)
    have "made_of (sendable (concat F @ map payload fs)) d" if "d \<in> W" for d
      using made_of_mono [of "sendable (concat F)" d] sendable_mono assms(3) that by (auto simp: src_ok_def)
    moreover have "snd_rel (concat F @ map payload fs) k'"
      unfolding 2(4) using assms(3) by (intro snd_rel_send) (simp add: src_ok_def)
    ultimately show ?thesis
      using 2 nd_send assms(3) by (intro exI [of _ "[map payload fs]"]) (auto simp: src_ok_def)
  qed
next
  case (nd_recv n c dst k')
  have "snd_less (kcb x) k'" using recv_snd_less [OF nd_recv(4)] assms(2) by (simp add: node_good_def kcp_good_def kcp_inv_def)
  then show ?thesis using assms(3) nd_recv snd_less_rel by (intro exI [of _ "[]"]) (auto simp: src_ok_def)
next
  case (nd_input d c k')
  have "snd_less (kcb x) k'" using input_snd_less [OF nd_input(5)] nd_input(4) assms(2) by (simp add: node_good_def kcp_good_def)
  then show ?thesis using assms(3) nd_input snd_less_rel by (intro exI [of _ "[]"]) (auto simp: src_ok_def)
next
  case (nd_flush k')
  have p: "flush_post (kcb x) k'" "\<forall>d\<in>set outs. made_of (flushed k') d"
    using flush_ok [of "kcb x"] assms(2) nd_flush by (auto simp: node_good_def kcp_good_def)
  then have "snd_rel (concat F) k'" using assms(3) by (auto simp: flush_post_def src_ok_def)
  then show ?thesis using src_ok_out [OF assms(3) _ flush_post_good [OF p(1)] p(2)] nd_flush by (intro exI [of _ "[]"]) simp
next
  case (nd_update now k')
  have p: "flush_post (kcb x) k'" "\<forall>d\<in>set outs. made_of (flushed k') d"
    using update_ok [of "kcb x" now] assms(2) nd_update by (auto simp: node_good_def kcp_good_def)
  then have "snd_rel (concat F) k'" using assms(3) by (auto simp: flush_post_def src_ok_def)
  then show ?thesis using src_ok_out [OF assms(3) _ flush_post_good [OF p(1)] p(2)] nd_update by (intro exI [of _ "[]"]) simp
next
  case (nd_setting k')
  then show ?thesis using assms(3) setting_keeps [OF nd_setting(3)] by (intro exI [of _ "[]"]) (auto simp: src_ok_def)
qed

lemma dst_ok_rel:
  assumes "dst_ok F y" "\<And>m. rcv_rel (stream_at (concat F)) m (kcb y) \<Longrightarrow> m \<le> length (concat F) \<Longrightarrow> rcv_rel (stream_at (concat F)) m k'"
  shows "dst_ok F (y\<lparr>kcb := k', sent := a, segs := b\<rparr>)"
proof -
  obtain g where g: "g \<le> length F" "got y = take g (map msg F)"
    "rcv_rel (stream_at (concat F)) (length (concat (take g F))) (kcb y)" using assms(1) by (auto simp: dst_ok_def)
  have "length (concat (take g F)) \<le> length (concat F)"
    by (metis append_take_drop_id concat_append le_add1 length_append)
  then show ?thesis using g assms(2) unfolding dst_ok_def by (intro exI [of _ g]) simp
qed

lemma destination_step:
  assumes "node_step W y y' outs" "node_good y" "dst_ok F y" "\<forall>f\<in>set F. frag_ok f" "length (concat F) < HALF"
    and "\<forall>d\<in>W. made_of (sendable (concat F)) d"
  shows "dst_ok F y'"
  using assms(1)
proof cases
  case (nd_send fresh d c k' n)
  have "kcp_good (kcb y)" "stream (kcb y) = 0" using assms(2) by (simp_all add: node_good_def)
  then have "rcv_rel S m k' = rcv_rel S m (kcb y)" for S m
    using send_ok_cases [OF nd_send(5)] nd_send(4) by (auto simp: rcv_rel_def)
  then have "dst_ok F (y\<lparr>kcb := k', sent := a, segs := b\<rparr>)" for a b by (intro dst_ok_rel [OF assms(3)]) simp
  then show ?thesis using nd_send by simp
next
  case (nd_recv n c dst k')
  obtain g where g: "g \<le> length F" "got y = take g (map msg F)"
    "rcv_rel (stream_at (concat F)) (length (concat (take g F))) (kcb y)" using assms(3) by (auto simp: dst_ok_def)
  have inv: "kcp_inv (kcb y)" using assms(2) by (simp add: node_good_def kcp_good_def)
  show ?thesis
  proof (cases "c \<ge> 0")
    case True
    then have "g < length F" "dst = msg (F ! g)" "rcv_rel (stream_at (concat F)) (length (concat (take (Suc g) F))) k'"
      using recv_next_message [OF inv assms(4) g(1,3) nd_recv(4,3)] by auto
    then show ?thesis
      unfolding dst_ok_def using nd_recv(1) True g(2)
      by (intro exI [of _ "Suc g"]) (simp add: take_Suc_conv_app_nth)
  next
    case False
    then have "k' = kcb y" using recv_cases [OF nd_recv(4)] inv by (auto simp: kcp_inv_def)
    then show ?thesis using nd_recv(1) False assms(3) by (simp add: dst_ok_def)
  qed
next
  case (nd_input d c k')
  have "kcp_inv (kcb y)" using assms(2) by (simp add: node_good_def kcp_good_def)
  then have "rcv_rel (stream_at (concat F)) m k'" if "rcv_rel (stream_at (concat F)) m (kcb y)" "m \<le> length (concat F)" for m
    using input_stream [OF nd_input(5) _ nd_input(4) that assms(5)] dgram_sendable assms(6) nd_input(3) by blast
  then have "dst_ok F (y\<lparr>kcb := k', sent := a, segs := b\<rparr>)" for a b by (rule dst_ok_rel [OF assms(3)])
  from this [of "segs y" "sent y"] show ?thesis using nd_input(1) by simp
next
  case (nd_flush k')
  have "flush_post (kcb y) k'" using flush_ok [of "kcb y"] assms(2) nd_flush by (auto simp: node_good_def kcp_good_def)
  then have "dst_ok F (y\<lparr>kcb := k', sent := a, segs := b\<rparr>)" for a b
    by (intro dst_ok_rel [OF assms(3)]) (simp add: flush_post_def)
  from this [of "segs y" "sent y"] show ?thesis using nd_flush(1) by simp
next
  case (nd_update now k')
  have "flush_post (kcb y) k'" using update_ok [of "kcb y" now] assms(2) nd_update by (auto simp: node_good_def kcp_good_def)
  then have "dst_ok F (y\<lparr>kcb := k', sent := a, segs := b\<rparr>)" for a b
    by (intro dst_ok_rel [OF assms(3)]) (simp add: flush_post_def)
  from this [of "segs y" "sent y"] show ?thesis using nd_update(1) by simp
next
  case (nd_setting k')
  then have "dst_ok F (y\<lparr>kcb := k', sent := a, segs := b\<rparr>)" for a b
    using setting_keeps [OF nd_setting(3)] by (intro dst_ok_rel [OF assms(3)]) simp
  from this [of "segs y" "sent y"] show ?thesis using nd_setting(1) by simp
qed


lemma node_step_good:
  assumes "node_step W x x' outs" "node_good x"
  shows "node_good x'"
proof -
  have g: "kcp_good (kcb x)" "stream (kcb x) = 0" using assms(2) by (simp_all add: node_good_def)
  then have inv: "kcp_inv (kcb x)" "rcv_inv (kcb x)" "fits_mtu (kcb x)" "koutput (kcb x)" by (simp_all add: kcp_good_def kcp_inv_def)
  show ?thesis
    using assms(1)
  proof cases
    case (nd_send fresh d c k' n)
    have "stream k' = 0" using send_ok_cases [OF nd_send(5) g nd_send(4)] g(2) by auto
    then show ?thesis using nd_send step_good [OF st_send [OF nd_send(3,5)] g(1)] by (simp add: node_good_def)
  next
    case (nd_recv n c dst k')
    then show ?thesis using step_good [OF st_recv [OF nd_recv(4)] g(1)] recv_snd_less [OF nd_recv(4) inv(2)] g(2)
      by (simp add: node_good_def snd_less_def)
  next
    case (nd_input d c k')
    then show ?thesis
      using step_good [OF st_input [OF nd_input(4,5)] g(1)] input_snd_less [OF nd_input(5) inv(1) nd_input(4)] g(2)
      by (simp add: node_good_def snd_less_def)
  next
    case (nd_flush k')
    then show ?thesis using flush_ok [OF inv(1,3,4)] g(2) flush_post_good [of "kcb x" k'] by (auto simp: node_good_def flush_post_def)
  next
    case (nd_update now k')
    then show ?thesis using update_ok [OF inv(1,3,4), of now] g(2) flush_post_good [of "kcb x" k'] by (auto simp: node_good_def flush_post_def)
  next
    case (nd_setting k')
    then show ?thesis using setting_good [OF nd_setting(3) g(1)] setting_keeps [OF nd_setting(3)] g(2) by (simp add: node_good_def)
  qed
qed

definition net_ok :: "net \<Rightarrow> bool" where
  "net_ok s \<longleftrightarrow> node_good (na s) \<and> node_good (nb s)
     \<and> (\<exists>F. src_ok F (na s) (wab s) \<and> dst_ok F (nb s)) \<and> (\<exists>F. src_ok F (nb s) (wba s) \<and> dst_ok F (na s))"

lemma init_ok: "net_ok \<lparr>na = node_init cv, nb = node_init cv, wab = {}, wba = {}\<rparr>"
proof -
  let ?x = "node_init cv"
  have "kcp_good (kcb ?x)" using reach_good [OF reach_create] by (simp add: node_init_def)
  then have "node_good ?x" by (simp add: node_good_def node_init_def ikcp_setoutput_def ikcp_create_def)
  moreover have "src_ok [] ?x {}" "dst_ok [] ?x"
    by (simp_all add: src_ok_def dst_ok_def node_init_def snd_rel_def rcv_rel_def ikcp_setoutput_def ikcp_create_def)
  ultimately show ?thesis unfolding net_ok_def by (intro conjI exI [of _ "[]"]) simp_all
qed

text \<open>One endpoint acts: its own stream may grow, and it may take from the other's.\<close>

lemma act_ok:
  assumes "node_step V x x' outs" "node_good x" "src_ok F x W" "dst_ok F y" "src_ok G y V" "dst_ok G x"
  shows "node_good x' \<and> (\<exists>F. src_ok F x' (W \<union> set outs) \<and> dst_ok F y) \<and> (src_ok G y V \<and> dst_ok G x')"
proof -
  obtain H where "src_ok (F @ H) x' (W \<union> set outs)" using source_step [OF assms(1-3)] by blast
  moreover have "dst_ok (F @ H) y" by (rule dst_ok_grow [OF assms(4)])
  moreover have "\<forall>f\<in>set G. frag_ok f" "length (concat G) < HALF" "\<forall>d\<in>V. made_of (sendable (concat G)) d"
    using assms(5) by (simp_all add: src_ok_def)
  then have "dst_ok G x'" by (rule destination_step [OF assms(1,2,6)])
  ultimately show ?thesis using assms(5) node_step_good [OF assms(1,2)] by blast
qed

lemma net_step_ok:
  assumes "net_step s s'" "net_ok s"
  shows "net_ok s'"
proof -
  obtain F G where f: "src_ok F (na s) (wab s)" "dst_ok F (nb s)" "src_ok G (nb s) (wba s)" "dst_ok G (na s)"
    and n: "node_good (na s)" "node_good (nb s)" using assms(2) by (auto simp: net_ok_def)
  show ?thesis
    using assms(1)
  proof cases
    case (step_a x outs)
    then show ?thesis using act_ok [OF step_a(2) n(1) f] n(2) by (auto simp: net_ok_def)
  next
    case (step_b x outs)
    then show ?thesis using act_ok [OF step_b(2) n(2) f(3,4,1,2)] n(1) by (auto simp: net_ok_def)
  qed
qed

lemma net_reach_ok: "net_reach cv s \<Longrightarrow> net_ok s"
  by (induction rule: net_reach.induct) (auto intro: init_ok net_step_ok)

lemma flow_prefix:
  assumes "src_ok F x W" "dst_ok F y"
  shows "\<exists>n. got y = take n (sent x)"
  using assms by (auto simp: src_ok_def dst_ok_def)

text \<open>The two endpoints are alike.\<close>

definition flip :: "net \<Rightarrow> net" where
  "flip s = \<lparr>na = nb s, nb = na s, wab = wba s, wba = wab s\<rparr>"

lemma flip_fields [simp]: "na (flip s) = nb s" "nb (flip s) = na s" "wab (flip s) = wba s" "wba (flip s) = wab s"
  by (simp_all add: flip_def)

lemma net_step_flip: "net_step s s' \<Longrightarrow> net_step (flip s) (flip s')"
proof (induction rule: net_step.induct)
  case (step_a s x outs)
  then have "net_step (flip s) ((flip s)\<lparr>nb := x, wba := wba (flip s) \<union> set outs\<rparr>)" by (intro net_step.step_b) simp
  then show ?case by (simp add: flip_def)
next
  case (step_b s x outs)
  then have "net_step (flip s) ((flip s)\<lparr>na := x, wab := wab (flip s) \<union> set outs\<rparr>)" by (intro net_step.step_a) simp
  then show ?case by (simp add: flip_def)
qed

lemma net_reach_flip: "net_reach cv s \<Longrightarrow> net_reach cv (flip s)"
proof (induction rule: net_reach.induct)
  case net_init
  then show ?case using net_reach.net_init [of cv] by (simp add: flip_def)
next
  case (net_next s s')
  then show ?case by (blast intro: net_reach.net_next net_step_flip)
qed

text \<open>What \<^verbatim>\<open>ikcp_recv\<close> hands out is the next message of the other side; its result is the length.\<close>

lemma net_recv:
  assumes t: "net_reach cv t" and r: "ikcp_recv (kcb (nb t)) True n = Some (c, d, k')" "0 \<le> n"
  shows "if 0 \<le> c then length (got (nb t)) < length (sent (na t)) \<and> d = sent (na t) ! length (got (nb t)) \<and> c = int (length d) \<and>
      net_reach cv (t\<lparr>nb := (nb t)\<lparr>kcb := k', got := got (nb t) @ [d]\<rparr>\<rparr>) else k' = kcb (nb t)"
proof -
  obtain F where F: "src_ok F (na t) (wab t)" "dst_ok F (nb t)" and inv: "kcp_inv (kcb (nb t))"
    using net_reach_ok [OF t] by (auto simp: net_ok_def node_good_def kcp_good_def)
  obtain g where g: "g \<le> length F" "got (nb t) = take g (map msg F)"
    "rcv_rel (stream_at (concat F)) (length (concat (take g F))) (kcb (nb t))" using F(2) by (auto simp: dst_ok_def)
  show ?thesis
  proof (cases "0 \<le> c")
    case True
    have fo: "\<forall>f\<in>set F. frag_ok f" using F(1) by (simp add: src_ok_def)
    have m: "g < length F" "d = msg (F ! g)" "c = int (length d)" using recv_next_message [OF inv fo g(1,3) r True] by auto
    have "net_reach cv (t\<lparr>nb := (nb t)\<lparr>kcb := k', got := got (nb t) @ [d]\<rparr>, wba := wba t \<union> set []\<rparr>)"
      by (rule net_reach.net_next [OF t net_step.step_b]) (use nd_recv [OF r(2,1), of "wab t"] True in simp)
    then show ?thesis using True m g F(1) by (simp add: src_ok_def)
  next
    case False
    then show ?thesis using recv_cases [OF r(1)] inv by (auto simp: kcp_inv_def)
  qed
qed

lemma net_recv_total:
  assumes t: "net_reach cv t" and n: "0 \<le> n" "n < 2 ^ 31"
  shows "\<exists>c d k'. ikcp_recv (kcb (nb t)) True n = Some (c, d, k')"
proof -
  obtain F where F: "src_ok F (na t) (wab t)" "dst_ok F (nb t)" and inv: "kcp_inv (kcb (nb t))"
    using net_reach_ok [OF t] by (auto simp: net_ok_def node_good_def kcp_good_def)
  then show ?thesis using recv_total [OF inv _ _ _ n, of F] by (auto simp: dst_ok_def src_ok_def)
qed

lemma net_prefix:
  assumes "net_reach cv t"
  shows "length (got (nb t)) \<le> length (sent (na t))" "length (got (na t)) \<le> length (sent (nb t))"
  using net_reach_ok [OF assms] by (auto simp: net_ok_def src_ok_def dst_ok_def)


section \<open>Properties\<close>

text \<open>
  C16: Reliable, ordered delivery over an unreliable network. Two endpoints run any sequence of
  interface calls; the network may lose, repeat, delay and reorder every datagram. As long as an
  endpoint has queued fewer than \<open>2^31\<close> segments, the list of messages a user received is always a
  prefix of the list of messages the other user sent: in order, complete, unchanged, each once.
\<close>

theorem kcp_delivers_in_order:
  assumes "net_reach cv s"
  shows "(\<exists>n. got (nb s) = take n (sent (na s))) \<and> (\<exists>n. got (na s) = take n (sent (nb s)))"
  using net_reach_ok [OF assms] flow_prefix unfolding net_ok_def by blast

definition ex_fresh :: "nat \<Rightarrow> bytes" where
  "ex_fresh n = replicate n 0"

definition ex_run :: "(nat \<times> nat \<times> int \<times> bytes) option" where
  "ex_run = do {
     (c1, k1) \<leftarrow> ikcp_send ex_fresh (kcb (node_init Guid_zero)) (Some [3, 1, 65]) (int (length [3, 1, 65 :: u8]));
     (k2, o2) \<leftarrow> ikcp_update k1 1000;
     (k3, o3) \<leftarrow> ikcp_update k2 1100;
     (case o3 of [] \<Rightarrow> None
      | d # _ \<Rightarrow> do {
          (c4, k4) \<leftarrow> ikcp_input (kcb (node_init Guid_zero)) (Some d) (int (length d));
          (c5, dst, k5) \<leftarrow> ikcp_recv k4 True 100;
          Some (2 * nat \<bar>c1\<bar> + length (snd_queue k1), length (dgram d), c5, dst) }) }"

lemma bind_pair_E:
  assumes "x \<bind> (\<lambda>(a, b). f a b) = Some y"
  obtains a b where "x = Some (a, b)" "f a b = Some y"
  using assms by (cases x) auto

lemma ex_run_value: "ex_run = Some (1, 1, 3, [3, 1, 65])"
  by code_simp

text \<open>One message crosses the network.\<close>

lemma ex_reach: "\<exists>s. net_reach Guid_zero s \<and> sent (na s) = [[3, 1, 65]] \<and> got (nb s) = [[3, 1, 65]]"
proof -
  let ?x = "node_init Guid_zero"
  obtain c1 k1 k2 o2 k3 os where
    1: "ikcp_send ex_fresh (kcb ?x) (Some [3, 1, 65]) (int (length [3, 1, 65 :: u8])) = Some (c1, k1)"
    and 2: "ikcp_update k1 1000 = Some (k2, o2)" and 3: "ikcp_update k2 1100 = Some (k3, os)"
    and r: "(case os of [] \<Rightarrow> None
      | d # _ \<Rightarrow> do {
          (c4, k4) \<leftarrow> ikcp_input (kcb ?x) (Some d) (int (length d));
          (c5, dst, k5) \<leftarrow> ikcp_recv k4 True 100;
          Some (2 * nat \<bar>c1\<bar> + length (snd_queue k1), length (dgram d), c5, dst) }) = Some (1, 1, 3, [3, 1, 65])"
    using ex_run_value unfolding ex_run_def
    by (elim bind_pair_E) (rule that)
  obtain d o3 where os: "os = d # o3" using r by (cases os) simp_all
  obtain c4 k4 k5 where
    4: "ikcp_input (kcb ?x) (Some d) (int (length d)) = Some (c4, k4)"
    and 5: "ikcp_recv k4 True 100 = Some (3, [3, 1, 65], k5)"
    and n: "2 * nat \<bar>c1\<bar> + length (snd_queue k1) = 1" "length (dgram d) = 1"
    using r unfolding os list.case by (elim bind_pair_E) (auto simp: that)
  have q0: "snd_queue (kcb ?x) = []" "ackcount (kcb ?x) = 0" "segs ?x = 0" "sent ?x = []" "got ?x = []"
    by (simp_all add: node_init_def ikcp_setoutput_def ikcp_create_def)
  have good: "kcp_good (kcb ?x)" "stream (kcb ?x) = 0"
    using reach_good [OF reach_create] by (simp_all add: node_init_def ikcp_setoutput_def ikcp_create_def)
  have "c1 = 0"
    using send_ok_cases [OF 1 good] n(1) q0(1) by auto
  have f: "fresh_ok ex_fresh" by (simp add: fresh_ok_def ex_fresh_def)
  define x1 where "x1 = ?x\<lparr>kcb := k1, sent := [[3, 1, 65]], segs := length (snd_queue k1)\<rparr>"
  have s1: "node_step W ?x x1 []" for W
    using nd_send [OF f _ 1 refl, of W] \<open>c1 = 0\<close> n(1) q0 by (simp add: x1_def)
  have s2: "node_step W x1 (x1\<lparr>kcb := k2\<rparr>) o2" for W using nd_update [of x1 1000 k2 o2] 2 by (simp add: x1_def)
  have s3: "node_step W (x1\<lparr>kcb := k2\<rparr>) (x1\<lparr>kcb := k3\<rparr>) (d # o3)" for W
    using nd_update [of "x1\<lparr>kcb := k2\<rparr>" 1100 k3 "d # o3"] 3 os by simp
  have s4: "node_step W ?x (?x\<lparr>kcb := k4\<rparr>) []" if "d \<in> W" for W
    using nd_input [OF that _ 4] n(2) q0 by simp
  have s5: "node_step W (?x\<lparr>kcb := k4\<rparr>) (?x\<lparr>kcb := k5, got := [[3, 1, 65]]\<rparr>) []" for W
    using nd_recv [of 100 "?x\<lparr>kcb := k4\<rparr>" 3 "[3, 1, 65]" k5 W] 5 q0 by simp
  note r0 = net_init [of Guid_zero]
  note r1 = net_next [OF r0 step_a, simplified, OF s1]
  note r2 = net_next [OF r1 step_a, simplified, OF s2]
  note r3 = net_next [OF r2 step_a, simplified, OF s3]
  note r4 = net_next [OF r3 step_b, simplified, OF s4, simplified]
  note r5 = net_next [OF r4 step_b, simplified, OF s5]
  show ?thesis
    by (rule exI, rule conjI [OF r5]) (simp add: x1_def)
qed

theorem kcp_delivers_in_order_witness:
  "\<exists>s. net_reach Guid_zero s \<and> sent (na s) = [[3, 1, 65]] \<and> got (nb s) = [[3, 1, 65]]
     \<and> (\<exists>n. got (nb s) = take n (sent (na s)))"
  using ex_reach kcp_delivers_in_order by blast

end
