(* ===== verification/RingQueue.thy ===== *)
theory RingQueue
  imports Lists
begin

text \<open>
  The ring buffer \<^verbatim>\<open>Queue<T>\<close> of \<^verbatim>\<open>test_uv_4/xx_queue.h\<close> and \<^verbatim>\<open>xx_queue.hpp\<close>. The block, its
  length and the two indices are the fields of the class; slots are as for \<^verbatim>\<open>List<T>\<close>, and the
  element size \<open>szT\<close> and triviality \<open>triv\<close> of \<^verbatim>\<open>T\<close> are arguments. The destructor of a trivial type
  does nothing; that of another type needs an object in the slot and leaves it empty.

  \<open>qrep\<close> relates a queue to the list of its elements: one rule for each of the two pictures in the
  header file, the data in one piece or wrapped around the end of the block. Every operation is
  shown to act on this list as the corresponding list operation, and the interface \<open>fifo\<close> gives the
  order in which elements leave.
\<close>

section \<open>The class\<close>

record 'a queue =
  qbuf :: "'a option list option"
  qbufLen :: nat
  qhead :: nat
  qtail :: nat

definition MemHeader_size :: nat where
  "MemHeader_size = 8"

text \<open>A block from the memory pool; the header stands in front of it in the same allocation.\<close>

definition pool_blk :: "nat \<Rightarrow> nat \<Rightarrow> 'a blk option" where
  "pool_blk szT n = (if n + MemHeader_size \<le> PTRDIFF_MAX then Some (replicate (n div szT) None) else None)"

definition queue_bytes :: "nat \<Rightarrow> nat \<Rightarrow> nat option" where
  "queue_bytes szT capacity = do {
     r \<leftarrow> Round2n_sz (sz_add (sz_mul capacity szT) MemHeader_size);
     Some (sz_sub r MemHeader_size) }"

definition kill_slot :: "bool \<Rightarrow> 'a blk option \<Rightarrow> nat \<Rightarrow> 'a blk option option" where
  "kill_slot triv b i = (if triv then Some b else kill_blk b i)"

definition kill_slots :: "bool \<Rightarrow> 'a blk option \<Rightarrow> nat \<Rightarrow> nat \<Rightarrow> 'a blk option option" where
  "kill_slots triv b i k = (if triv then Some b else kill_range b i k)"

definition Queue_new :: "nat \<Rightarrow> nat \<Rightarrow> 'a queue option" where
  "Queue_new szT capacity = do {
     let capacity = (if capacity < 8 then 8 else capacity);
     n \<leftarrow> queue_bytes szT capacity;
     m \<leftarrow> pool_blk szT n;
     Some \<lparr>qbuf = Some m, qbufLen = n div szT, qhead = 0, qtail = 0\<rparr> }"

definition Queue_move :: "'a queue \<Rightarrow> 'a queue \<times> 'a queue" where
  "Queue_move src = (src, src\<lparr>qbuf := None, qbufLen := 0, qhead := 0, qtail := 0\<rparr>)"

definition Queue_Count :: "'a queue \<Rightarrow> nat" where
  "Queue_Count q =
     (if qhead q \<le> qtail q then qtail q - qhead q else qtail q + (qbufLen q - qhead q))"

definition Queue_Empty :: "'a queue \<Rightarrow> bool" where
  "Queue_Empty q \<longleftrightarrow> qhead q = qtail q"

definition Queue_Pop :: "bool \<Rightarrow> 'a queue \<Rightarrow> 'a queue option" where
  "Queue_Pop triv q = (if qhead q = qtail q then None
     else do {
       b \<leftarrow> kill_slot triv (qbuf q) (qhead q);
       let head = qhead q + 1;
       Some (q\<lparr>qbuf := b, qhead := (if head = qbufLen q then 0 else head)\<rparr>) })"

text \<open>The index before \<^verbatim>\<open>tail\<close>; \<^verbatim>\<open>size_t\<close> wraps below 0.\<close>

definition before_tail :: "'a queue \<Rightarrow> nat" where
  "before_tail q = (let t = sz_sub (qtail q) 1 in if t = SIZE_BOUND - 1 then qbufLen q - 1 else t)"

text \<open>\<^verbatim>\<open>PopLast\<close> destroys \<^verbatim>\<open>buf[tail--]\<close>, the slot behind the last element.\<close>

definition Queue_PopLast :: "bool \<Rightarrow> 'a queue \<Rightarrow> 'a queue option" where
  "Queue_PopLast triv q = (if qhead q = qtail q then None
     else do {
       b \<leftarrow> kill_slot triv (qbuf q) (qtail q);
       Some (q\<lparr>qbuf := b, qtail := before_tail q\<rparr>) })"

text \<open>The loops of \<^verbatim>\<open>Reserve\<close>: \<^verbatim>\<open>memcpy\<close> for a trivial type, else move construct and destroy.\<close>

fun move_slots :: "'a blk option \<Rightarrow> nat \<Rightarrow> 'a blk option \<Rightarrow> nat \<Rightarrow> nat \<Rightarrow> ('a blk option \<times> 'a blk option) option" where
  "move_slots dst d src s 0 = Some (dst, src)"
| "move_slots dst d src s (Suc k) = do {
     x \<leftarrow> rd_blk src s;
     dst \<leftarrow> wr_blk dst d x;
     src \<leftarrow> kill_blk src s;
     move_slots dst (Suc d) src (Suc s) k }"

definition copy_slots ::
  "bool \<Rightarrow> 'a blk option \<Rightarrow> nat \<Rightarrow> 'a blk option \<Rightarrow> nat \<Rightarrow> nat \<Rightarrow> ('a blk option \<times> 'a blk option) option" where
  "copy_slots triv dst d src s n =
     (if triv then do { dst \<leftarrow> blit dst d src s n; Some (dst, src) }
      else move_slots dst d src s n)"

definition Queue_Reserve :: "bool \<Rightarrow> nat \<Rightarrow> nat \<Rightarrow> bool \<Rightarrow> 'a queue \<Rightarrow> 'a queue option" where
  "Queue_Reserve triv szT capacity afterPush q =
     (if capacity = 0 then None
      else if capacity \<le> qbufLen q then Some q
      else do {
        n \<leftarrow> queue_bytes szT capacity;
        m \<leftarrow> pool_blk szT n;
        let dataLen = (if afterPush then qbufLen q else Queue_Count q);
        new \<leftarrow>
          (if qhead q < qtail q then do {
             (new, src) \<leftarrow> copy_slots triv (Some m) 0 (qbuf q) (qhead q) dataLen;
             Some new }
           else do {
             let frontDataLen = qbufLen q - qhead q;
             (new, src) \<leftarrow> copy_slots triv (Some m) 0 (qbuf q) (qhead q) frontDataLen;
             (new, src) \<leftarrow> copy_slots triv new frontDataLen src 0 (qtail q);
             Some new });
        Some (q\<lparr>qhead := 0, qtail := dataLen, qbuf := new, qbufLen := n div szT\<rparr>) })"

text \<open>\<^verbatim>\<open>Emplace\<close> returns a reference to the new element: the index of its slot.\<close>

definition Queue_Emplace :: "bool \<Rightarrow> nat \<Rightarrow> 'a \<Rightarrow> 'a queue \<Rightarrow> (nat \<times> 'a queue) option" where
  "Queue_Emplace triv szT x q = do {
     let idx = qtail q;
     b \<leftarrow> wr_blk (qbuf q) (qtail q) x;
     let tail = qtail q + 1;
     let tail = (if tail = qbufLen q then 0 else tail);
     let q = q\<lparr>qbuf := b, qtail := tail\<rparr>;
     if tail = qhead q then do {
       let idx = qbufLen q - 1;
       q \<leftarrow> Queue_Reserve triv szT (sz_mul (qbufLen q) 2) True q;
       Some (idx, q) }
     else Some (idx, q) }"

fun Queue_Push :: "bool \<Rightarrow> nat \<Rightarrow> 'a list \<Rightarrow> 'a queue \<Rightarrow> 'a queue option" where
  "Queue_Push triv szT [] q = Some q"
| "Queue_Push triv szT (v # vs) q = do {
     (idx, q) \<leftarrow> Queue_Emplace triv szT v q;
     Queue_Push triv szT vs q }"

definition Queue_Clear :: "bool \<Rightarrow> 'a queue \<Rightarrow> 'a queue option" where
  "Queue_Clear triv q = (if qhead q = qtail q then Some q
     else do {
       b \<leftarrow> (if qhead q < qtail q then kill_slots triv (qbuf q) (qhead q) (qtail q - qhead q)
            else do {
              b \<leftarrow> kill_slots triv (qbuf q) 0 (qtail q);
              kill_slots triv b (qhead q) (qbufLen q - qhead q) });
       Some (q\<lparr>qbuf := b, qhead := 0, qtail := 0\<rparr>) })"

definition Queue_PopMulti :: "bool \<Rightarrow> nat \<Rightarrow> 'a queue \<Rightarrow> (nat \<times> 'a queue) option" where
  "Queue_PopMulti triv count q =
     (if count = 0 then Some (0, q)
      else let dataLen = Queue_Count q in
        if count \<ge> dataLen then do { q \<leftarrow> Queue_Clear triv q; Some (dataLen, q) }
        else if qhead q < qtail q then do {
          b \<leftarrow> kill_slots triv (qbuf q) (qhead q) count;
          Some (count, q\<lparr>qbuf := b, qhead := qhead q + count\<rparr>) }
        else let frontDataLen = qbufLen q - qhead q in
          if count < frontDataLen then do {
            b \<leftarrow> kill_slots triv (qbuf q) (qhead q) count;
            Some (count, q\<lparr>qbuf := b, qhead := qhead q + count\<rparr>) }
          else do {
            b \<leftarrow> kill_slots triv (qbuf q) (qhead q) frontDataLen;
            let head = count - frontDataLen;
            b \<leftarrow> kill_slots triv b 0 head;
            Some (count, q\<lparr>qbuf := b, qhead := head\<rparr>) })"

definition Queue_destroy :: "bool \<Rightarrow> 'a queue \<Rightarrow> 'a queue option" where
  "Queue_destroy triv q = (if qbuf q = None then Some q
     else do { q \<leftarrow> Queue_Clear triv q; Some (q\<lparr>qbuf := None\<rparr>) })"

definition Queue_At :: "'a queue \<Rightarrow> nat \<Rightarrow> 'a option" where
  "Queue_At q idx = (if idx < Queue_Count q then
       (if qhead q + idx < qbufLen q then rd_blk (qbuf q) (qhead q + idx)
        else rd_blk (qbuf q) (qhead q + idx - qbufLen q))
     else None)"

definition Queue_Top :: "'a queue \<Rightarrow> 'a option" where
  "Queue_Top q = (if qhead q = qtail q then None else rd_blk (qbuf q) (qhead q))"

definition Queue_Last :: "'a queue \<Rightarrow> 'a option" where
  "Queue_Last q = (if qhead q = qtail q then None
     else rd_blk (qbuf q) (before_tail q))"

definition Queue_TryPop :: "bool \<Rightarrow> 'a queue \<Rightarrow> ('a option \<times> 'a queue) option" where
  "Queue_TryPop triv q = (if qhead q = qtail q then Some (None, q)
     else do {
       x \<leftarrow> rd_blk (qbuf q) (qhead q);
       q \<leftarrow> Queue_Pop triv q;
       Some (Some x, q) })"

section \<open>The contents of a queue\<close>

definition qfit :: "nat \<Rightarrow> nat \<Rightarrow> bool" where
  "qfit szT n \<longleftrightarrow> 0 < szT \<and> n * szT + MemHeader_size \<le> 2 ^ 62"

definition qfree :: "bool \<Rightarrow> 'a blk \<Rightarrow> bool" where
  "qfree triv p \<longleftrightarrow> (\<not> triv \<longrightarrow> set p \<subseteq> {None})"

inductive qrep :: "bool \<Rightarrow> nat \<Rightarrow> 'a queue \<Rightarrow> 'a list \<Rightarrow> bool" for triv szT where
  flat: "qfree triv p \<Longrightarrow> qfree triv s \<Longrightarrow> s \<noteq> [] \<Longrightarrow> qfit szT (length p + length xs + length s) \<Longrightarrow>
    qrep triv szT \<lparr>qbuf = Some (p @ map Some xs @ s), qbufLen = length p + length xs + length s,
      qhead = length p, qtail = length p + length xs\<rparr> xs"
| wrapped: "qfree triv g \<Longrightarrow> g \<noteq> [] \<Longrightarrow> zs \<noteq> [] \<Longrightarrow> qfit szT (length ys + length g + length zs) \<Longrightarrow>
    qrep triv szT \<lparr>qbuf = Some (map Some ys @ g @ map Some zs), qbufLen = length ys + length g + length zs,
      qhead = length ys + length g, qtail = length ys\<rparr> (zs @ ys)"


section \<open>Blocks\<close>

definition dead :: "bool \<Rightarrow> 'a list \<Rightarrow> 'a blk" where
  "dead triv ys = (if triv then map Some ys else replicate (length ys) None)"

lemma length_dead [simp]: "length (dead triv ys) = length ys"
  by (simp add: dead_def)

lemma dead_Nil [simp]: "dead triv [] = []" "dead triv xs = [] \<longleftrightarrow> xs = []"
  by (auto simp: dead_def)

lemma qfree_simps [simp]:
  "qfree triv []" "qfree triv (dead triv ys)" "qfree triv (p @ r) \<longleftrightarrow> qfree triv p \<and> qfree triv r"
  "qfree triv (replicate n None)"
  by (auto simp: qfree_def dead_def)

lemma qfree_Cons: "qfree triv (x # p) \<longleftrightarrow> qfree triv p \<and> (triv \<or> x = None)"
  by (auto simp: qfree_def)

lemma kill_slot_app:
  "length p = i \<Longrightarrow> kill_slot triv (Some (p @ Some x # t)) i = Some (Some (p @ dead triv [x] @ t))"
  by (simp add: kill_slot_def mem_simps dead_def)

lemma kill_slots_app:
  "length p = i \<Longrightarrow> kill_slots triv (Some (p @ map Some ys @ t)) i (length ys) = Some (Some (p @ dead triv ys @ t))"
  by (simp add: kill_slots_def kill_range_app dead_def)

lemma move_slots_app:
  "length p = d \<Longrightarrow> length q = s \<Longrightarrow> length ys \<le> length nt \<Longrightarrow>
   move_slots (Some (p @ nt)) d (Some (q @ map Some ys @ t)) s (length ys)
   = Some (Some (p @ map Some ys @ drop (length ys) nt), Some (q @ replicate (length ys) None @ t))"
proof (induction ys arbitrary: p q nt d s)
  case Nil
  then show ?case by simp
next
  case (Cons y ys)
  then obtain e nt' where nt: "nt = e # nt'" by (cases nt) auto
  have "move_slots (Some ((p @ [Some y]) @ nt')) (Suc d) (Some ((q @ [None]) @ map Some ys @ t)) (Suc s) (length ys)
      = Some (Some ((p @ [Some y]) @ map Some ys @ drop (length ys) nt'), Some ((q @ [None]) @ replicate (length ys) None @ t))"
    using Cons.prems nt by (intro Cons.IH) auto
  with Cons.prems nt show ?case by (simp add: mem_simps)
qed

lemma copy_slots_app:
  assumes "length p = d" "length q = s" "length ys \<le> length nt"
  shows "copy_slots triv (Some (p @ nt)) d (Some (q @ map Some ys @ t)) s (length ys)
    = Some (Some (p @ map Some ys @ drop (length ys) nt), Some (q @ dead triv ys @ t))"
  using assms by (auto simp: copy_slots_def move_slots_app dead_def blit_def)

lemma queue_bytes_ok:
  assumes "qfit szT c" "0 < c"
  shows "\<exists>n. queue_bytes szT c = Some n \<and> c \<le> n div szT \<and> qfit szT (n div szT)
    \<and> pool_blk szT n = Some (replicate (n div szT) (None :: 'a option))"
proof -
  let ?n = "c * szT + MemHeader_size"
  have fit: "0 < szT" "?n \<le> 2 ^ 62" using assms(1) by (auto simp: qfit_def)
  then have e: "sz_add (sz_mul c szT) MemHeader_size = ?n" by (simp add: SIZE_BOUND_def)
  have pos: "0 < ?n" "?n \<le> 2 ^ 63" using fit by (auto simp: MemHeader_size_def)
  from Round2n_sz_spec [OF pos] obtain r k where
    r: "Round2n_sz ?n = Some r" "r = 2 ^ k" "?n \<le> r" "r < 2 * ?n" by blast
  have "(2::nat) ^ k < 2 ^ 63" using r(2,4) fit(2) by (simp add: less_le_trans)
  then have "k \<le> 62" using power_less_imp_less_exp [of "2 :: nat" k 63] by simp
  then have r62: "r \<le> 2 ^ 62" unfolding r(2) by (rule power_increasing) simp
  have rh: "MemHeader_size \<le> r" using r(3) by simp
  then have sub: "sz_sub r MemHeader_size = r - MemHeader_size" using r62 by (simp add: SIZE_BOUND_def)
  let ?m = "r - MemHeader_size"
  have qb: "queue_bytes szT c = Some ?m" by (simp add: queue_bytes_def e r(1) sub)
  have "c * szT \<le> ?m" using r(3) by linarith
  then have c: "c \<le> ?m div szT" using fit(1) by (simp add: less_eq_div_iff_mult_less_eq)
  have "?m div szT * szT \<le> ?m" by simp
  then have "?m div szT * szT + MemHeader_size \<le> 2 ^ 62" using rh r62 by linarith
  then have "qfit szT (?m div szT)" using fit(1) by (simp add: qfit_def)
  moreover have "?m + MemHeader_size \<le> PTRDIFF_MAX" using rh r62 by (simp add: PTRDIFF_MAX_def)
  ultimately show ?thesis using qb c by (auto simp: pool_blk_def)
qed

section \<open>Operations on the contents\<close>

lemma qrepI_flat:
  assumes "qfree triv p" "qfree triv s" "s \<noteq> []" "qfit szT (length p + length xs + length s)"
    and "qbuf q = Some (p @ map Some xs @ s)" "qbufLen q = length p + length xs + length s"
      "qhead q = length p" "qtail q = length p + length xs"
  shows "qrep triv szT q xs"
  using flat [OF assms(1-4)] assms(5-) by (cases q) simp

lemma qrepI_wrapped:
  assumes "qfree triv g" "g \<noteq> []" "zs \<noteq> []" "qfit szT (length ys + length g + length zs)"
    and "qbuf q = Some (map Some ys @ g @ map Some zs)" "qbufLen q = length ys + length g + length zs"
      "qhead q = length ys + length g" "qtail q = length ys"
  shows "qrep triv szT q (zs @ ys)"
  using wrapped [OF assms(1-4)] assms(5-) by (cases q) simp

lemma qrepE:
  assumes "qrep triv szT q xs"
  obtains (flat) p s where "qbuf q = Some (p @ map Some xs @ s)" "qbufLen q = length p + length xs + length s"
      "qhead q = length p" "qtail q = length p + length xs"
      "qfree triv p" "qfree triv s" "s \<noteq> []" "qfit szT (length p + length xs + length s)"
  | (wrapped) g zs ys where "xs = zs @ ys" "qbuf q = Some (map Some ys @ g @ map Some zs)"
      "qbufLen q = length ys + length g + length zs" "qhead q = length ys + length g" "qtail q = length ys"
      "qfree triv g" "g \<noteq> []" "zs \<noteq> []" "qfit szT (length ys + length g + length zs)"
  using assms by (cases rule: qrep.cases) auto

lemma qrep_new:
  assumes "qfit szT (max 8 c)"
  shows "\<exists>q. Queue_new szT c = Some q \<and> qrep triv szT q []"
proof -
  let ?c = "if c < 8 then 8 else c"
  have "qfit szT ?c" "0 < ?c" using assms by (auto simp: max_def split: if_splits)
  from queue_bytes_ok [OF this] obtain n where
    n: "queue_bytes szT ?c = Some n" "?c \<le> n div szT" "qfit szT (n div szT)"
    "pool_blk szT n = Some (replicate (n div szT) (None :: 'a option))" by blast
  let ?q = "\<lparr>qbuf = Some (replicate (n div szT) (None :: 'a option)), qbufLen = n div szT, qhead = 0, qtail = 0\<rparr>"
  have "replicate (n div szT) (None :: 'a option) \<noteq> []" using n(2) by (auto split: if_splits)
  then have "qrep triv szT ?q []" using n(3) by (intro qrepI_flat [where p = "[]" and s = "replicate (n div szT) None"]) auto
  then show ?thesis using n by (simp add: Queue_new_def Let_def)
qed

lemma qrep_Count: "qrep triv szT q xs \<Longrightarrow> Queue_Count q = length xs"
  by (erule qrepE) (auto simp: Queue_Count_def)

lemma qrep_Empty: "qrep triv szT q xs \<Longrightarrow> Queue_Empty q \<longleftrightarrow> xs = []"
  by (erule qrepE) (auto simp: Queue_Empty_def)

lemma qrep_head_tail: "qrep triv szT q xs \<Longrightarrow> qhead q = qtail q \<longleftrightarrow> xs = []"
  by (erule qrepE) auto

lemma qrep_bounds:
  "qrep triv szT q xs \<Longrightarrow> length xs < qbufLen q \<and> qhead q < qbufLen q \<and> qtail q < qbufLen q
     \<and> qfit szT (qbufLen q) \<and> (\<exists>m. qbuf q = Some m \<and> length m = qbufLen q)"
  by (erule qrepE) (auto simp: length_greater_0_conv [symmetric] simp del: length_greater_0_conv)

lemma rd_blk_nth: "rd_blk (Some m) i = (if i < length m then m ! i else None)"
  by (simp add: rd_blk_def)

lemma qrep_At: "qrep triv szT q xs \<Longrightarrow> Queue_At q i = (if i < length xs then Some (xs ! i) else None)"
proof (erule qrepE, goal_cases)
  case (1 p s)
  then show ?case by (auto simp: Queue_At_def Queue_Count_def rd_blk_nth nth_append)
next
  case (2 g zs ys)
  then show ?case by (auto simp: Queue_At_def Queue_Count_def rd_blk_nth nth_append)
qed

lemma qrep_Top: "qrep triv szT q (x # xs) \<Longrightarrow> Queue_Top q = Some x"
  by (erule qrepE) (auto simp: Queue_Top_def mem_simps Cons_eq_append_conv rd_blk_nth nth_append split: if_splits)

lemma sz_sub_one: "n < SIZE_BOUND \<Longrightarrow> sz_sub n 1 = (if n = 0 then SIZE_BOUND - 1 else n - 1)"
proof (cases "n = 0")
  case False
  moreover assume "n < SIZE_BOUND"
  ultimately show ?thesis by (simp add: SIZE_BOUND_def)
qed (simp add: sz_sub_def SIZE_BOUND_def)

lemma qfit_bound: "qfit szT n \<Longrightarrow> n < SIZE_BOUND - 1"
proof -
  assume q: "qfit szT n"
  then have "n \<le> n * szT" "n * szT \<le> 2 ^ 62" by (auto simp: qfit_def)
  then have "n \<le> 2 ^ 62" by (rule order_trans)
  then show ?thesis by (simp add: SIZE_BOUND_def)
qed

lemma qrep_before_tail:
  assumes "qrep triv szT q xs"
  shows "before_tail q = (if qtail q = 0 then qbufLen q - 1 else qtail q - 1)"
proof -
  have "qtail q < SIZE_BOUND - 1" using qrep_bounds [OF assms] qfit_bound by fastforce
  then show ?thesis by (auto simp: before_tail_def Let_def sz_sub_one simp del: One_nat_def)
qed

lemma qrep_Last:
  assumes "qrep triv szT q (xs @ [x])"
  shows "Queue_Last q = Some x"
proof -
  have ne: "qhead q \<noteq> qtail q" using qrep_head_tail [OF assms] by simp
  have "rd_blk (qbuf q) (if qtail q = 0 then qbufLen q - 1 else qtail q - 1) = Some x"
    using assms
  proof (cases rule: qrepE)
    case (flat p s)
    then show ?thesis by (auto simp: rd_blk_nth nth_append)
  next
    case (wrapped g zs ys)
    then show ?thesis by (cases ys rule: rev_cases) (auto simp: rd_blk_nth nth_append)
  qed
  then show ?thesis using ne by (simp add: Queue_Last_def qrep_before_tail [OF assms])
qed

lemma qrep_Pop:
  assumes "qrep triv szT q (x # xs)"
  shows "\<exists>q'. Queue_Pop triv q = Some q' \<and> qrep triv szT q' xs"
  using assms
proof (cases rule: qrepE)
  case (flat p s)
  then have k: "kill_slot triv (qbuf q) (qhead q) = Some (Some ((p @ dead triv [x]) @ map Some xs @ s))"
    using kill_slot_app [of p "length p" triv x "map Some xs @ s"] by simp
  let ?q = "q\<lparr>qbuf := Some ((p @ dead triv [x]) @ map Some xs @ s), qhead := Suc (length p)\<rparr>"
  have "qrep triv szT ?q xs" using flat by (intro qrepI_flat [of triv "p @ dead triv [x]" s]) auto
  then show ?thesis using k flat by (auto simp: Queue_Pop_def Let_def)
next
  case (wrapped g zs ys)
  then obtain zs' where zs: "zs = x # zs'" "xs = zs' @ ys" by (cases zs) auto
  have k: "kill_slot triv (qbuf q) (qhead q) = Some (Some (map Some ys @ (g @ dead triv [x]) @ map Some zs'))"
    using wrapped zs kill_slot_app [of "map Some ys @ g" "length ys + length g" triv x "map Some zs'"] by simp
  show ?thesis
  proof (cases "zs' = []")
    case True
    let ?q = "q\<lparr>qbuf := Some (map Some ys @ (g @ dead triv [x])), qhead := 0\<rparr>"
    have "qrep triv szT ?q xs"
      using wrapped zs True by (intro qrepI_flat [of triv "[]" "g @ dead triv [x]"]) auto
    then show ?thesis using k wrapped zs True by (auto simp: Queue_Pop_def Let_def)
  next
    case False
    let ?q = "q\<lparr>qbuf := Some (map Some ys @ (g @ dead triv [x]) @ map Some zs'), qhead := Suc (length ys + length g)\<rparr>"
    have "qrep triv szT ?q (zs' @ ys)"
      using wrapped zs False by (intro qrepI_wrapped [of triv "g @ dead triv [x]"]) auto
    then show ?thesis using k wrapped zs False by (auto simp: Queue_Pop_def Let_def)
  qed
qed

lemma qrep_TryPop:
  assumes "qrep triv szT q xs"
  shows "case xs of [] \<Rightarrow> Queue_TryPop triv q = Some (None, q)
    | x # ys \<Rightarrow> \<exists>q'. Queue_TryPop triv q = Some (Some x, q') \<and> qrep triv szT q' ys"
proof (cases xs)
  case Nil
  then show ?thesis using qrep_head_tail [OF assms] by (simp add: Queue_TryPop_def)
next
  case (Cons x ys)
  note q = assms [unfolded Cons]
  have "qhead q \<noteq> qtail q" using qrep_head_tail [OF q] by simp
  then show ?thesis
    using Cons qrep_Top [OF q] qrep_Pop [OF q] by (auto simp: Queue_TryPop_def Queue_Top_def)
qed

text \<open>
  \<^verbatim>\<open>PopLast\<close> is right for a trivial type, where destroying the wrong slot has no effect; for any other
  type it destroys an object that does not exist.
\<close>

lemma qrep_PopLast_triv:
  assumes "qrep True szT q (xs @ [x])"
  shows "\<exists>q'. Queue_PopLast True q = Some q' \<and> qrep True szT q' xs"
proof -
  let ?t = "if qtail q = 0 then qbufLen q - 1 else qtail q - 1"
  have ne: "qhead q \<noteq> qtail q" using qrep_head_tail [OF assms] by simp
  have "qrep True szT (q\<lparr>qtail := ?t\<rparr>) xs"
    using assms
  proof (cases rule: qrepE)
    case (flat p s)
    then show ?thesis by (intro qrepI_flat [of True p "Some x # s"]) (auto simp: qfree_def)
  next
    case (wrapped g zs ys)
    show ?thesis
    proof (cases ys rule: rev_cases)
      case Nil
      then show ?thesis
        using wrapped by (intro qrepI_flat [of True g "[Some x]"]) (auto simp: qfree_def)
    next
      case (snoc ys' y)
      then have "xs = zs @ ys'" "y = x" using wrapped by auto
      moreover have "qrep True szT (q\<lparr>qtail := ?t\<rparr>) (zs @ ys')"
        using wrapped snoc by (intro qrepI_wrapped [of True "Some y # g"]) (auto simp: qfree_def)
      ultimately show ?thesis by simp
    qed
  qed
  then show ?thesis
    using ne by (simp add: Queue_PopLast_def kill_slot_def qrep_before_tail [OF assms])
qed

lemma qrep_PopLast_fault:
  assumes "qrep False szT q xs"
  shows "Queue_PopLast False q = None"
proof -
  have "rd_blk (qbuf q) (qtail q) = None"
    using assms
  proof (cases rule: qrepE)
    case (flat p s)
    then show ?thesis by (cases s) (auto simp: rd_blk_nth nth_append qfree_Cons)
  next
    case (wrapped g zs ys)
    then show ?thesis by (cases g) (auto simp: rd_blk_nth nth_append qfree_Cons)
  qed
  then show ?thesis by (simp add: Queue_PopLast_def kill_slot_def kill_blk_def)
qed

lemma qrep_Clear:
  assumes "qrep triv szT q xs"
  shows "\<exists>q'. Queue_Clear triv q = Some q' \<and> qrep triv szT q' []"
proof (cases "xs = []")
  case True
  then show ?thesis using assms qrep_head_tail [OF assms] by (simp add: Queue_Clear_def)
next
  case False
  then have ne: "qhead q \<noteq> qtail q" using qrep_head_tail [OF assms] by simp
  show ?thesis
    using assms
  proof (cases rule: qrepE)
    case (flat p s)
    then have k: "kill_slots triv (qbuf q) (qhead q) (qtail q - qhead q) = Some (Some (p @ dead triv xs @ s))"
      by (simp add: kill_slots_app)
    have "qrep triv szT (q\<lparr>qbuf := Some (p @ dead triv xs @ s), qhead := 0, qtail := 0\<rparr>) []"
      using flat by (intro qrepI_flat [of triv "[]" "p @ dead triv xs @ s"]) (auto simp: add.assoc)
    then show ?thesis using k ne flat by (auto simp: Queue_Clear_def)
  next
    case (wrapped g zs ys)
    then have k: "kill_slots triv (qbuf q) 0 (qtail q) = Some (Some ((dead triv ys @ g) @ map Some zs @ []))"
      using kill_slots_app [of "[]" 0 triv ys "g @ map Some zs"] by simp
    have k2: "kill_slots triv (Some ((dead triv ys @ g) @ map Some zs @ [])) (qhead q) (qbufLen q - qhead q)
        = Some (Some ((dead triv ys @ g) @ dead triv zs @ []))"
      using wrapped kill_slots_app [of "dead triv ys @ g" "qhead q" triv zs "[]"] by simp
    have "qrep triv szT (q\<lparr>qbuf := Some ((dead triv ys @ g) @ dead triv zs @ []), qhead := 0, qtail := 0\<rparr>) []"
      using wrapped by (intro qrepI_flat [of triv "[]" "(dead triv ys @ g) @ dead triv zs @ []"]) (auto simp: add.assoc)
    then show ?thesis using k k2 ne wrapped by (auto simp: Queue_Clear_def)
  qed
qed

lemma qrep_PopMulti:
  assumes "qrep triv szT q xs"
  shows "\<exists>q'. Queue_PopMulti triv n q = Some (min n (length xs), q') \<and> qrep triv szT q' (drop n xs)"
proof -
  consider "n = 0" | "0 < n" "length xs \<le> n" | "0 < n" "n < length xs" by linarith
  then show ?thesis
  proof cases
    case 1
    then show ?thesis using assms by (simp add: Queue_PopMulti_def)
  next
    case 2
    then show ?thesis
      using qrep_Clear [OF assms] qrep_Count [OF assms] by (auto simp: Queue_PopMulti_def min_def)
  next
    case 3
    then have ct: "\<not> Queue_Count q \<le> n" using qrep_Count [OF assms] by simp
    show ?thesis
      using assms
    proof (cases rule: qrepE)
      case (flat p s)
      let ?b = "(p @ dead triv (take n xs)) @ map Some (drop n xs) @ s"
      have "kill_slots triv (qbuf q) (qhead q) n = Some (Some ?b)"
        using flat 3 kill_slots_app [of p "length p" triv "take n xs" "map Some (drop n xs) @ s"]
        by (simp add: append_assoc [symmetric] map_append [symmetric] del: append_assoc map_append)
      moreover have "qrep triv szT (q\<lparr>qbuf := Some ?b, qhead := qhead q + n\<rparr>) (drop n xs)"
        using flat 3 by (intro qrepI_flat [of triv "p @ dead triv (take n xs)" s]) auto
      ultimately show ?thesis using flat 3 ct by (auto simp: Queue_PopMulti_def Let_def)
    next
      case (wrapped g zs ys)
      show ?thesis
      proof (cases "n < length zs")
        case True
        let ?b = "map Some ys @ (g @ dead triv (take n zs)) @ map Some (drop n zs)"
        have "kill_slots triv (qbuf q) (qhead q) n = Some (Some ?b)"
          using wrapped True kill_slots_app [of "map Some ys @ g" "length ys + length g" triv "take n zs" "map Some (drop n zs)"]
          by (simp add: append_assoc [symmetric] map_append [symmetric] del: append_assoc map_append)
        moreover have "qrep triv szT (q\<lparr>qbuf := Some ?b, qhead := qhead q + n\<rparr>) (drop n zs @ ys)"
          using wrapped True by (intro qrepI_wrapped [of triv "g @ dead triv (take n zs)"]) (auto simp: add.assoc)
        ultimately show ?thesis using wrapped True 3 ct by (auto simp: Queue_PopMulti_def Let_def)
      next
        case False
        let ?k = "n - length zs"
        let ?b = "dead triv (take ?k ys) @ map Some (drop ?k ys) @ (g @ dead triv zs)"
        have k: "?k < length ys" using wrapped False 3 by auto
        have 1: "kill_slots triv (qbuf q) (qhead q) (length zs) = Some (Some (map Some ys @ g @ dead triv zs))"
          using wrapped kill_slots_app [of "map Some ys @ g" "length ys + length g" triv zs "[]"] by simp
        have 2: "kill_slots triv (Some (map Some ys @ g @ dead triv zs)) 0 ?k = Some (Some ?b)"
          using k kill_slots_app [of "[]" 0 triv "take ?k ys" "map Some (drop ?k ys) @ g @ dead triv zs"]
          by (simp add: append_assoc [symmetric] map_append [symmetric] del: append_assoc map_append)
        have "qrep triv szT (q\<lparr>qbuf := Some ?b, qhead := ?k\<rparr>) (drop ?k ys)"
          using wrapped k by (intro qrepI_flat [of triv "dead triv (take ?k ys)" "g @ dead triv zs"]) (auto simp: add.assoc)
        then show ?thesis using 1 2 wrapped False 3 ct by (auto simp: Queue_PopMulti_def Let_def)
      qed
    qed
  qed
qed

text \<open>The two copies of \<^verbatim>\<open>Reserve\<close> when the data is not in one piece; after a push the gap \<open>g\<close> is empty.\<close>

lemma Reserve_wrapped:
  assumes "qbuf q = Some (map Some ys @ g @ map Some zs)" "qbufLen q = length ys + length g + length zs"
    and "qhead q = length ys + length g" "qtail q = length ys"
    and "if ap then g = [] else g \<noteq> []" "zs \<noteq> []" "qbufLen q < c" "qfit szT c"
  shows "\<exists>q'. Queue_Reserve triv szT c ap q = Some q' \<and> qrep triv szT q' (zs @ ys)
    \<and> c \<le> qbufLen q' \<and> qhead q' = 0"
proof -
  obtain n where n: "queue_bytes szT c = Some n" "c \<le> n div szT" "qfit szT (n div szT)"
    "pool_blk szT n = Some (replicate (n div szT) (None :: 'a option))"
    using queue_bytes_ok [OF assms(8)] assms(7) by auto
  let ?N = "n div szT" and ?k = "length zs + length ys"
  have len: "?k < ?N" using assms(2,7) n(2) by linarith
  have c1: "copy_slots triv (Some (replicate ?N None)) 0 (qbuf q) (qhead q) (length zs)
      = Some (Some (map Some zs @ replicate (?N - length zs) None), Some (map Some ys @ g @ dead triv zs))"
    using assms len copy_slots_app [of "[]" 0 "map Some ys @ g" "qhead q" zs "replicate ?N None" triv "[]"] by simp
  have c2: "copy_slots triv (Some (map Some zs @ replicate (?N - length zs) None)) (length zs)
      (Some (map Some ys @ g @ dead triv zs)) 0 (length ys)
      = Some (Some (map Some zs @ map Some ys @ replicate (?N - ?k) None), Some (dead triv ys @ g @ dead triv zs))"
    using len copy_slots_app [of "map Some zs" "length zs" "[]" 0 ys "replicate (?N - length zs) None" triv "g @ dead triv zs"]
    by simp
  have dl: "(if ap then qbufLen q else Queue_Count q) = ?k"
    using assms(2-5) by (auto simp: Queue_Count_def split: if_splits)
  let ?q = "q\<lparr>qhead := 0, qtail := ?k, qbuf := Some (map Some zs @ map Some ys @ replicate (?N - ?k) None), qbufLen := ?N\<rparr>"
  have "Queue_Reserve triv szT c ap q = Some ?q"
    using n c1 c2 assms(2-4,7) dl by (simp add: Queue_Reserve_def Let_def)
  moreover have "qrep triv szT ?q (zs @ ys)"
    using len n(3) by (intro qrepI_flat [of triv "[]" "replicate (?N - ?k) None"]) auto
  ultimately show ?thesis using n(2) by auto
qed

lemma Reserve_flat:
  assumes "qbuf q = Some (p @ map Some xs @ s)" "qbufLen q = length p + length xs + length s"
    and "qhead q = length p" "qtail q = length p + length xs" "xs \<noteq> []" "qbufLen q < c" "qfit szT c"
  shows "\<exists>q'. Queue_Reserve triv szT c False q = Some q' \<and> qrep triv szT q' xs \<and> c \<le> qbufLen q'"
proof -
  obtain n where n: "queue_bytes szT c = Some n" "c \<le> n div szT" "qfit szT (n div szT)"
    "pool_blk szT n = Some (replicate (n div szT) (None :: 'a option))"
    using queue_bytes_ok [OF assms(7)] assms(6) by auto
  let ?N = "n div szT" and ?k = "length xs"
  have len: "?k < ?N" using assms(2,6) n(2) by linarith
  have c1: "copy_slots triv (Some (replicate ?N None)) 0 (qbuf q) (qhead q) ?k
      = Some (Some (map Some xs @ replicate (?N - ?k) None), Some (p @ dead triv xs @ s))"
    using assms len copy_slots_app [of "[]" 0 p "qhead q" xs "replicate ?N None" triv s] by simp
  let ?q = "q\<lparr>qhead := 0, qtail := ?k, qbuf := Some (map Some xs @ replicate (?N - ?k) None), qbufLen := ?N\<rparr>"
  have "Queue_Reserve triv szT c False q = Some ?q"
    using n c1 assms(2-6) by (simp add: Queue_Reserve_def Queue_Count_def Let_def)
  moreover have "qrep triv szT ?q xs"
    using len n(3) by (intro qrepI_flat [of triv "[]" "replicate (?N - ?k) None"]) auto
  ultimately show ?thesis using n(2) by auto
qed

lemma qrep_Reserve:
  assumes "qrep triv szT q xs" "xs \<noteq> []" "0 < c" "qfit szT c"
  shows "\<exists>q'. Queue_Reserve triv szT c False q = Some q' \<and> qrep triv szT q' xs \<and> c \<le> qbufLen q'"
proof (cases "c \<le> qbufLen q")
  case True
  then show ?thesis using assms by (simp add: Queue_Reserve_def)
next
  case False
  then have c: "qbufLen q < c" by simp
  show ?thesis
    using assms(1)
  proof (cases rule: qrepE)
    case (flat p s)
    then show ?thesis using Reserve_flat [OF flat(1-4) assms(2) c assms(4)] by blast
  next
    case (wrapped g zs ys)
    then show ?thesis using Reserve_wrapped [OF wrapped(2-5) _ wrapped(8) c assms(4), of False triv] by auto
  qed
qed

text \<open>On an empty queue \<^verbatim>\<open>Reserve\<close> takes the wrapped branch and moves objects that do not exist.\<close>

lemma qrep_Reserve_empty_fault:
  assumes "qrep False szT q []" "qbufLen q < c" "qfit szT c"
  shows "Queue_Reserve False szT c False q = None"
proof -
  obtain n where n: "queue_bytes szT c = Some n" "pool_blk szT n = Some (replicate (n div szT) (None :: 'a option))"
    using queue_bytes_ok [OF assms(3)] assms(2) by auto
  obtain p s where q: "qbuf q = Some (p @ s)" "qbufLen q = length p + length s" "qhead q = length p" "qtail q = length p"
    "qfree False s" "s \<noteq> []"
    using assms(1) by (cases rule: qrepE) auto
  then obtain s' where s: "s = None # s'" by (cases s) (auto simp: qfree_Cons)
  have "copy_slots False (Some (replicate (n div szT) None)) 0 (qbuf q) (qhead q) (qbufLen q - qhead q) = None"
    using q s by (simp add: copy_slots_def rd_blk_nth)
  then show ?thesis using n q assms(2) by (simp add: Queue_Reserve_def Let_def)
qed

lemma Emplace_full:
  assumes "qbuf q = Some (map Some ys @ map Some zs)" "qbufLen q = length ys + length zs"
    and "qhead q = length ys" "qtail q = length ys" "zs \<noteq> []" "qfit szT (2 * (length zs + length ys))"
    and "zs @ ys = xs @ [x]"
  shows "\<exists>q'. Queue_Reserve triv szT (sz_mul (qbufLen q) 2) True q = Some q' \<and> qrep triv szT q' (xs @ [x])
    \<and> rd_blk (qbuf q') (qbufLen q - 1) = Some x"
proof -
  let ?L = "length zs + length ys"
  have L: "?L = Suc (length xs)" using arg_cong [OF assms(7), of length] by simp
  have "2 * ?L < SIZE_BOUND" using qfit_bound [OF assms(6)] by simp
  then have m: "sz_mul (qbufLen q) 2 = 2 * ?L" using assms(2) by simp
  have "qbufLen q < 2 * ?L" using assms(2,5) by (simp add: length_greater_0_conv [symmetric] del: length_greater_0_conv)
  then obtain q' where q': "Queue_Reserve triv szT (2 * ?L) True q = Some q'" "qrep triv szT q' (zs @ ys)"
      "2 * ?L \<le> qbufLen q'" "qhead q' = 0"
    using Reserve_wrapped [of q ys "[]" zs True "2 * ?L" szT triv] assms by auto
  have "Queue_At q' (length xs) = Some x" using qrep_At [OF q'(2)] L assms(7) by simp
  then have "rd_blk (qbuf q') (length xs) = Some x"
    using q'(3,4) L by (auto simp: Queue_At_def split: if_splits)
  moreover have "qbufLen q - 1 = length xs" using assms(2) L by simp
  ultimately show ?thesis using q' m assms(7) by auto
qed

lemma qrep_Emplace:
  assumes "qrep triv szT q xs" "qfit szT (2 * (length xs + 1))"
  shows "\<exists>i q'. Queue_Emplace triv szT x q = Some (i, q') \<and> qrep triv szT q' (xs @ [x]) \<and> rd_blk (qbuf q') i = Some x"
  using assms(1)
proof (cases rule: qrepE)
  case (flat p s)
  obtain e s' where s: "s = e # s'" using flat by (cases s) auto
  let ?b = "p @ map Some (xs @ [x]) @ s'"
  have w: "wr_blk (qbuf q) (qtail q) x = Some (Some ?b)"
    using flat s wr_blk_app [of "p @ map Some xs" "qtail q" e s' x] by simp
  have fs: "qfree triv s'" using flat s by (simp add: qfree_Cons)
  consider "s' \<noteq> []" | "s' = []" "p \<noteq> []" | "s' = []" "p = []" by blast
  then show ?thesis
  proof cases
    case 1
    let ?q = "q\<lparr>qbuf := Some ?b, qtail := Suc (qtail q)\<rparr>"
    have "qrep triv szT ?q (xs @ [x])" using flat s fs 1 by (intro qrepI_flat [of triv p s']) auto
    moreover have "rd_blk (Some ?b) (qtail q) = Some x" using flat by (simp add: rd_blk_nth nth_append)
    ultimately show ?thesis using w flat s 1 by (auto simp: Queue_Emplace_def Let_def)
  next
    case 2
    let ?q = "q\<lparr>qbuf := Some ?b, qtail := 0\<rparr>"
    have "qrep triv szT ?q ((xs @ [x]) @ [])" using flat s 2 by (intro qrepI_wrapped [of triv p]) auto
    moreover have "rd_blk (Some ?b) (qtail q) = Some x" using flat by (simp add: rd_blk_nth nth_append)
    ultimately show ?thesis using w flat s 2 by (auto simp: Queue_Emplace_def Let_def)
  next
    case 3
    let ?q = "q\<lparr>qbuf := Some (map Some [] @ map Some (xs @ [x])), qtail := 0\<rparr>"
    have "qfit szT (2 * (length (xs @ [x]) + length ([] :: 'a list)))" using assms(2) by simp
    then have "\<exists>q'. Queue_Reserve triv szT (sz_mul (qbufLen ?q) 2) True ?q = Some q' \<and> qrep triv szT q' (xs @ [x])
        \<and> rd_blk (qbuf q') (qbufLen ?q - 1) = Some x"
      using flat s 3 by (intro Emplace_full [where ys = "[]" and zs = "xs @ [x]"]) auto
    then show ?thesis using w flat s 3 by (auto simp: Queue_Emplace_def Let_def)
  qed
next
  case (wrapped g zs ys)
  obtain e g' where g: "g = e # g'" using wrapped by (cases g) auto
  let ?b = "map Some (ys @ [x]) @ g' @ map Some zs"
  have w: "wr_blk (qbuf q) (qtail q) x = Some (Some ?b)"
    using wrapped g wr_blk_app [of "map Some ys" "qtail q" e "g' @ map Some zs" x] by simp
  have tl: "Suc (length ys) \<noteq> qbufLen q" using wrapped g by (auto simp: neq_Nil_conv)
  let ?q = "q\<lparr>qbuf := Some ?b, qtail := Suc (length ys)\<rparr>"
  show ?thesis
  proof (cases "g' = []")
    case False
    have "qrep triv szT ?q (zs @ (ys @ [x]))"
      using wrapped g False by (intro qrepI_wrapped [of triv g']) (auto simp: qfree_Cons)
    moreover have "rd_blk (Some ?b) (qtail q) = Some x" using wrapped by (simp add: rd_blk_nth nth_append)
    ultimately show ?thesis using w wrapped g False tl by (auto simp: Queue_Emplace_def Let_def)
  next
    case True
    have "qfit szT (2 * (length zs + length (ys @ [x])))" using assms(2) wrapped by simp
    then have "\<exists>q'. Queue_Reserve triv szT (sz_mul (qbufLen ?q) 2) True ?q = Some q' \<and> qrep triv szT q' (xs @ [x])
        \<and> rd_blk (qbuf q') (qbufLen ?q - 1) = Some x"
      using wrapped g True by (intro Emplace_full [where ys = "ys @ [x]" and zs = zs]) auto
    then show ?thesis using w wrapped g True tl by (auto simp: Queue_Emplace_def Let_def)
  qed
qed

lemma qfit_mono: "qfit szT n \<Longrightarrow> k \<le> n \<Longrightarrow> qfit szT k"
  unfolding qfit_def using mult_le_mono1 [of k n szT] by linarith

section \<open>First in, first out\<close>

text \<open>
  What a client of the queue relies on: a relation between queues and the elements in them, pushing
  at the end while the bound allows it, and taking from the front.
\<close>

locale fifo =
  fixes rep :: "'q \<Rightarrow> 'a list \<Rightarrow> bool"
    and push :: "'a \<Rightarrow> 'q \<Rightarrow> 'q option"
    and try_pop :: "'q \<Rightarrow> ('a option \<times> 'q) option"
    and room :: "nat \<Rightarrow> bool"
  assumes push_ok: "rep q xs \<Longrightarrow> room (length xs + 1) \<Longrightarrow> \<exists>q'. push x q = Some q' \<and> rep q' (xs @ [x])"
    and try_pop_empty: "rep q [] \<Longrightarrow> try_pop q = Some (None, q)"
    and try_pop_ok: "rep q (x # xs) \<Longrightarrow> \<exists>q'. try_pop q = Some (Some x, q') \<and> rep q' xs"
    and room_mono: "room n \<Longrightarrow> k \<le> n \<Longrightarrow> room k"
begin

lemma push_all:
  "rep q xs \<Longrightarrow> room (length xs + length ys) \<Longrightarrow> \<exists>q'. kfold push ys q = Some q' \<and> rep q' (xs @ ys)"
proof (induction ys arbitrary: q xs)
  case (Cons y ys)
  have "room (length xs + 1)" by (rule room_mono [OF Cons.prems(2)]) simp
  then obtain q1 where "push y q = Some q1" "rep q1 (xs @ [y])" using push_ok Cons.prems(1) by blast
  then show ?case using Cons.IH [of q1 "xs @ [y]"] Cons.prems(2) by simp
qed simp

lemma pop_all:
  "rep q xs \<Longrightarrow> n \<le> length xs \<Longrightarrow>
   \<exists>q'. kfold (\<lambda>_ (acc, q). do { (r, q) \<leftarrow> try_pop q; x \<leftarrow> r; Some (acc @ [x], q) }) [0..<n] ([], q)
       = Some (take n xs, q') \<and> rep q' (drop n xs)"
proof (induction n)
  case (Suc n)
  then obtain q1 where q1: "kfold (\<lambda>_ (acc, q). do { (r, q) \<leftarrow> try_pop q; x \<leftarrow> r; Some (acc @ [x], q) }) [0..<n] ([], q)
       = Some (take n xs, q1)" "rep q1 (drop n xs)" by auto
  have d: "drop n xs = xs ! n # drop (Suc n) xs" using Suc.prems(2) by (simp add: Cons_nth_drop_Suc)
  obtain q2 where "try_pop q1 = Some (Some (xs ! n), q2)" "rep q2 (drop (Suc n) xs)"
    using try_pop_ok q1(2) unfolding d by blast
  then show ?case using q1(1) Suc.prems(2) by (simp add: kfold_append take_Suc_conv_app_nth)
qed simp

end

definition queue_push :: "bool \<Rightarrow> nat \<Rightarrow> 'a \<Rightarrow> 'a queue \<Rightarrow> 'a queue option" where
  "queue_push triv szT x q = map_option snd (Queue_Emplace triv szT x q)"

lemma Queue_Push_kfold: "Queue_Push triv szT xs q = kfold (queue_push triv szT) xs q"
proof (induction xs arbitrary: q)
  case (Cons x xs)
  then show ?case by (cases "Queue_Emplace triv szT x q") (auto simp: queue_push_def)
qed simp

interpretation rq: fifo "qrep triv szT" "queue_push triv szT" "Queue_TryPop triv" "\<lambda>n. qfit szT (2 * n)"
  for triv szT
proof
  fix q :: "'a queue" and x xs n k
  show "qrep triv szT q xs \<Longrightarrow> qfit szT (2 * (length xs + 1)) \<Longrightarrow>
      \<exists>q'. queue_push triv szT x q = Some q' \<and> qrep triv szT q' (xs @ [x])"
    using qrep_Emplace [of triv szT q xs x] by (auto simp: queue_push_def)
  show "qrep triv szT q [] \<Longrightarrow> Queue_TryPop triv q = Some (None, q)" using qrep_TryPop by fastforce
  show "qrep triv szT q (x # xs) \<Longrightarrow> \<exists>q'. Queue_TryPop triv q = Some (Some x, q') \<and> qrep triv szT q' xs"
    using qrep_TryPop by fastforce
  show "qfit szT (2 * n) \<Longrightarrow> k \<le> n \<Longrightarrow> qfit szT (2 * k)" using qfit_mono by fastforce
qed

section \<open>Properties\<close>



text \<open>
  The other operations against the list of elements, in every position of the two indices:
  indexed access, the first and the last element, removal of one, of several or of all elements,
  and \<^verbatim>\<open>Reserve\<close> of a queue that is not empty; \<^verbatim>\<open>Emplace\<close> returns the slot of the new element.
\<close>

theorem queue_operations_refine_lists:
  assumes "qrep triv szT q (x # xs)" "qfit szT (2 * (length xs + 2))" "0 < c" "qfit szT c"
  shows "(\<forall>i \<le> length xs. Queue_At q i = Some ((x # xs) ! i)) \<and> Queue_Top q = Some x \<and> Queue_Last q = Some (last (x # xs))
    \<and> (\<exists>q'. Queue_Pop triv q = Some q' \<and> qrep triv szT q' xs)
    \<and> (\<exists>q'. Queue_PopMulti triv n q = Some (min n (length xs + 1), q') \<and> qrep triv szT q' (drop n (x # xs)))
    \<and> (\<exists>q'. Queue_Clear triv q = Some q' \<and> qrep triv szT q' [])
    \<and> (\<exists>q'. Queue_Reserve triv szT c False q = Some q' \<and> qrep triv szT q' (x # xs))
    \<and> (\<exists>i q'. Queue_Emplace triv szT y q = Some (i, q') \<and> qrep triv szT q' (x # xs @ [y]) \<and> rd_blk (qbuf q') i = Some y)"
proof -
  have "butlast (x # xs) @ [last (x # xs)] = x # xs" by (rule append_butlast_last_id) simp
  then have "qrep triv szT q (butlast (x # xs) @ [last (x # xs)])" using assms(1) by simp
  then have "Queue_Last q = Some (last (x # xs))" by (rule qrep_Last)
  moreover have "qfit szT (2 * (length (x # xs) + 1))" using assms(2) by simp
  ultimately show ?thesis
    using qrep_At [OF assms(1)] qrep_Top [OF assms(1)] qrep_Pop [OF assms(1)] qrep_PopMulti [OF assms(1), of n]
      qrep_Clear [OF assms(1)] qrep_Reserve [OF assms(1) _ assms(3,4)] qrep_Emplace [OF assms(1), of y]
    by (simp add: less_Suc_eq_le) blast
qed

definition ex_queue :: "int queue" where
  "ex_queue = \<lparr>qbuf = Some [Some 5, None, None, Some 4], qbufLen = 4, qhead = 3, qtail = 1\<rparr>"

lemma ex_queue_rep: "qrep False 4 ex_queue [4, 5]"
proof -
  have "qfit 4 (Suc (Suc (Suc (Suc 0))))" by (simp add: qfit_def MemHeader_size_def)
  then have "qrep False 4 ex_queue ([4] @ [5])"
    by (intro qrepI_wrapped [of False "[None, None]"]) (simp_all add: ex_queue_def qfree_def)
  then show ?thesis by simp
qed

theorem queue_operations_refine_lists_witness:
  "\<exists>q'. Queue_PopMulti False 1 ex_queue = Some (1, q') \<and> qrep False 4 q' [5]"
  using queue_operations_refine_lists [OF ex_queue_rep, of 8 1] by (simp add: qfit_def MemHeader_size_def)

text \<open>
  \<^verbatim>\<open>PopLast\<close> destroys the slot behind the last element. For a trivial type that is without effect
  and the last element is removed; for any other type there is no object in that slot, whatever the
  queue holds.
\<close>

theorem queue_PopLast_destroys_wrong_slot:
  "(qrep True szT q (xs @ [x]) \<longrightarrow> (\<exists>q'. Queue_PopLast True q = Some q' \<and> qrep True szT q' xs))
   \<and> (qrep False szT q ys \<longrightarrow> Queue_PopLast False q = None)"
  using qrep_PopLast_triv [of szT q xs x] qrep_PopLast_fault [of szT q ys] by blast

theorem queue_PopLast_destroys_wrong_slot_witness:
  "Queue_PopLast False ex_queue = None"
  using queue_PopLast_destroys_wrong_slot [of 4 ex_queue] ex_queue_rep by blast

text \<open>
  \<^verbatim>\<open>Reserve\<close> beyond the capacity of an empty queue takes the branch for wrapped data and, for a type
  that is not trivial, moves from objects that were never constructed.
\<close>

theorem queue_Reserve_empty_moves_nothing:
  assumes "qrep False szT q []" "qbufLen q < c" "qfit szT c"
  shows "Queue_Reserve False szT c False q = None"
  using qrep_Reserve_empty_fault [OF assms] .

theorem queue_Reserve_empty_moves_nothing_witness:
  "\<exists>q :: int queue. Queue_new 4 0 = Some q \<and> Queue_Reserve False 4 1000 False q = None"
proof -
  have "Round2n_sz 40 = Some 64" by code_simp
  then have "Queue_new 4 0 = Some \<lparr>qbuf = Some (replicate 14 (None :: int option)), qbufLen = 14, qhead = 0, qtail = 0\<rparr>"
    by (simp add: Queue_new_def queue_bytes_def pool_blk_def MemHeader_size_def SIZE_BOUND_def PTRDIFF_MAX_def Let_def)
  moreover obtain q :: "int queue" where q: "Queue_new 4 0 = Some q" "qrep False 4 q []"
    using qrep_new [of 4 0] by (auto simp: qfit_def MemHeader_size_def)
  ultimately have "qbufLen q = 14" by auto
  then have "Queue_Reserve False 4 1000 False q = None"
    using queue_Reserve_empty_moves_nothing [OF q(2), of 1000] by (simp add: qfit_def MemHeader_size_def)
  with q show ?thesis by blast
qed

end
