(* ===== verification/HashChain.thy ===== *)
theory HashChain
  imports Prelude
begin

text \<open>
  The linked structure that \<^verbatim>\<open>Dict\<close> and \<^verbatim>\<open>HashSet\<close> share: every bucket heads a doubly linked chain of
  node indices, the slots that were removed form a singly linked free list, and each index below the
  count is on exactly one of them. The fields of the nodes are functions of the index here, so that
  the lemmas apply to both classes: \<open>bk\<close> the bucket heads, \<open>nx\<close> and \<open>pv\<close> the links, \<open>hb\<close> the bucket
  that the hash code of a node selects, \<open>fr\<close> the head of the free list. A link of \<open>-1\<close> ends a list,
  a backward link of \<open>-2\<close> marks a free slot.
\<close>

section \<open>Arrays indexed by \<open>int\<close>\<close>

text \<open>An array of slots, \<open>None\<close> where nothing has been written; an index outside it is a fault.\<close>

definition rd :: "'a option list \<Rightarrow> int \<Rightarrow> 'a option" where
  "rd m i = (if 0 \<le> i \<and> nat i < length m then m ! nat i else None)"

definition wr :: "'a option list \<Rightarrow> int \<Rightarrow> 'a \<Rightarrow> 'a option list option" where
  "wr m i x = (if 0 \<le> i \<and> nat i < length m then Some (m[nat i := Some x]) else None)"

lemma rd_nat: "rd m (int i) = (if i < length m then m ! i else None)"
  by (simp add: rd_def)

lemma rd_neg [simp]: "i < 0 \<Longrightarrow> rd m i = None"
  by (simp add: rd_def)

lemma wr_nat [simp]: "i < length m \<Longrightarrow> wr m (int i) x = Some (m[i := Some x])"
  by (simp add: wr_def)

section \<open>Linked lists of indices\<close>

primrec dlinks :: "(nat \<Rightarrow> int) \<Rightarrow> (nat \<Rightarrow> int) \<Rightarrow> int \<Rightarrow> nat list \<Rightarrow> int \<Rightarrow> bool" where
  "dlinks nx pv p [] f \<longleftrightarrow> f = -1"
| "dlinks nx pv p (x # xs) f \<longleftrightarrow> f = int x \<and> pv x = p \<and> dlinks nx pv (int x) xs (nx x)"

primrec flinks :: "(nat \<Rightarrow> int) \<Rightarrow> nat list \<Rightarrow> int \<Rightarrow> bool" where
  "flinks nx [] f \<longleftrightarrow> f = -1"
| "flinks nx (x # xs) f \<longleftrightarrow> f = int x \<and> flinks nx xs (nx x)"

lemma dlinks_cong:
  "\<forall>i\<in>set xs. nx' i = nx i \<and> pv' i = pv i \<Longrightarrow> dlinks nx' pv' p xs f = dlinks nx pv p xs f"
  by (induction xs arbitrary: p f) auto

lemma flinks_cong: "\<forall>i\<in>set xs. nx' i = nx i \<Longrightarrow> flinks nx' xs f = flinks nx xs f"
  by (induction xs arbitrary: f) auto

lemma dlinks_upd [simp]:
  "i \<notin> set xs \<Longrightarrow> dlinks (nx(i := v)) pv p xs f = dlinks nx pv p xs f"
  "i \<notin> set xs \<Longrightarrow> dlinks nx (pv(i := w)) p xs f = dlinks nx pv p xs f"
  by (rule dlinks_cong; auto)+

lemma dlinks_pv: "dlinks nx pv p xs f \<Longrightarrow> -1 \<le> p \<Longrightarrow> i \<in> set xs \<Longrightarrow> -1 \<le> pv i"
  by (induction xs arbitrary: p f) auto

lemma dlinks_first: "dlinks nx pv p xs f \<Longrightarrow> f = (if xs = [] then -1 else int (hd xs))"
  by (cases xs) auto

lemma dlinks_mid:
  "dlinks nx pv p (as @ i # bs) f \<Longrightarrow>
     pv i = (if as = [] then p else int (last as)) \<and> nx i = (if bs = [] then -1 else int (hd bs))"
  by (induction as arbitrary: p f) (auto dest: dlinks_first)

lemma dlinks_push:
  assumes "dlinks nx pv (-1) xs f" "i \<notin> set xs" "distinct xs"
  shows "dlinks (nx(i := f)) ((if 0 \<le> f then pv(nat f := int i) else pv)(i := -1)) (-1) (i # xs) (int i)"
proof (cases xs)
  case Nil
  then show ?thesis using assms by simp
next
  case (Cons x ys)
  have "dlinks (nx(i := f)) ((pv(x := int i))(i := -1)) (int x) ys (nx x) = dlinks nx pv (int x) ys (nx x)"
    using assms Cons by (intro dlinks_cong) auto
  then show ?thesis using assms Cons by auto
qed

text \<open>Unlinking a node: its neighbours, or the bucket, take over its two links.\<close>

lemma dlinks_unlink:
  assumes "dlinks nx pv p (as @ i # bs) f" "distinct (as @ i # bs)"
    and "\<forall>j\<in>set (as @ bs). nx' j = (if as \<noteq> [] \<and> j = last as then nx i else nx j)"
    and "\<forall>j\<in>set (as @ bs). pv' j = (if bs \<noteq> [] \<and> j = hd bs then pv i else pv j)"
  shows "dlinks nx' pv' p (as @ bs) (if as = [] then nx i else f)"
  using assms
proof (induction as arbitrary: p f)
  case Nil
  show ?case
  proof (cases bs)
    case (Cons c cs)
    then have "dlinks nx' pv' (int c) cs (nx c) = dlinks nx pv (int c) cs (nx c)"
      using Nil.prems by (intro dlinks_cong) auto
    then show ?thesis using Nil.prems Cons by simp
  qed (use Nil.prems in simp)
next
  case (Cons a as)
  have a: "bs \<noteq> [] \<Longrightarrow> hd bs \<noteq> a" "as \<noteq> [] \<Longrightarrow> last as \<noteq> a"
    using Cons.prems(2) hd_in_set [of bs] last_in_set [of as] by auto
  have IH: "dlinks nx' pv' (int a) (as @ bs) (if as = [] then nx i else nx a)"
  proof (rule Cons.IH)
    show "\<forall>j\<in>set (as @ bs). nx' j = (if as \<noteq> [] \<and> j = last as then nx i else nx j)"
      using Cons.prems(2,3) by (cases "as = []") auto
  qed (use Cons.prems in auto)
  then show ?case using Cons.prems a by auto
qed

definition ctab ::
  "nat \<Rightarrow> nat \<Rightarrow> (nat \<Rightarrow> int) \<Rightarrow> (nat \<Rightarrow> int) \<Rightarrow> (nat \<Rightarrow> int) \<Rightarrow> (nat \<Rightarrow> nat) \<Rightarrow> int
   \<Rightarrow> (nat \<Rightarrow> nat list) \<Rightarrow> nat list \<Rightarrow> bool" where
  "ctab B n bk nx pv hb fr ch fl \<longleftrightarrow>
     (\<forall>b<B. dlinks nx pv (-1) (ch b) (bk b)) \<and> (\<forall>b. distinct (ch b))
     \<and> (\<forall>b. \<forall>i\<in>set (ch b). i < n \<and> hb i = b \<and> b < B)
     \<and> flinks nx fl fr \<and> distinct fl \<and> (\<forall>i\<in>set fl. i < n \<and> pv i = -2)
     \<and> (\<forall>i<n. i \<in> set fl \<or> i \<in> set (ch (hb i)))"

lemma ctab_pv:
  assumes "ctab B n bk nx pv hb fr ch fl" "i \<in> set (ch b)"
  shows "-1 \<le> pv i"
  using assms dlinks_pv [of nx pv "-1" "ch b" "bk b" i] by (auto simp: ctab_def)

lemma ctab_live:
  assumes "ctab B n bk nx pv hb fr ch fl" "i < n"
  shows "pv i \<noteq> -2 \<longleftrightarrow> i \<in> set (ch (hb i))" "pv i = -2 \<longleftrightarrow> i \<in> set fl"
proof -
  have "i \<in> set fl \<or> i \<in> set (ch (hb i))" "i \<in> set fl \<Longrightarrow> pv i = -2" using assms by (auto simp: ctab_def)
  moreover have "i \<in> set (ch (hb i)) \<Longrightarrow> -1 \<le> pv i" by (rule ctab_pv [OF assms(1)])
  ultimately show "pv i \<noteq> -2 \<longleftrightarrow> i \<in> set (ch (hb i))" "pv i = -2 \<longleftrightarrow> i \<in> set fl" by auto
qed

lemma ctab_chain_length:
  assumes "ctab B n bk nx pv hb fr ch fl"
  shows "length (ch b) \<le> n"
proof -
  have "set (ch b) \<subseteq> {..<n}" "distinct (ch b)" using assms by (auto simp: ctab_def)
  then show ?thesis using card_mono [of "{..<n}" "set (ch b)"] by (simp add: distinct_card)
qed

lemma ctab_cong:
  assumes "ctab B n bk nx pv hb fr ch fl"
    and "\<And>b. b < B \<Longrightarrow> bk' b = bk b" "\<And>i. i < n \<Longrightarrow> nx' i = nx i" "\<And>i. i < n \<Longrightarrow> pv' i = pv i"
      "\<And>i. i < n \<Longrightarrow> hb' i = hb i"
  shows "ctab B n bk' nx' pv' hb' fr ch fl"
proof -
  have "dlinks nx' pv' (-1) (ch b) (bk' b)" if "b < B" for b
    using assms that dlinks_cong [of "ch b" nx' nx pv' pv "-1" "bk b"] unfolding ctab_def by auto
  moreover have "flinks nx' fl fr" using assms flinks_cong [of fl nx' nx fr] unfolding ctab_def by auto
  ultimately show ?thesis using assms unfolding ctab_def by fastforce
qed

lemma ctab_empty: "(\<And>b. b < B \<Longrightarrow> bk b = -1) \<Longrightarrow> ctab B 0 bk nx pv hb (-1) (\<lambda>_. []) []"
  by (simp add: ctab_def)

lemma ctab_insert:
  assumes c: "ctab B n bk nx pv hb fr ch fl" and b: "b < B"
    and i: "\<And>c. i \<notin> set (ch c)" "i \<notin> set fl'" "i < n'" "n \<le> n'"
    and fl': "flinks nx fl' fr'" "distinct fl'" "set fl' \<subseteq> set fl"
    and cov: "\<And>j. j < n' \<Longrightarrow> j = i \<or> j \<in> set fl' \<or> j \<in> set (ch (hb j))"
  shows "ctab B n' (bk(b := int i)) (nx(i := bk b))
    ((if 0 \<le> bk b then pv(nat (bk b) := int i) else pv)(i := -1)) (hb(i := b)) fr' (ch(b := i # ch b)) fl'"
    (is "ctab B n' ?bk ?nx ?pv ?hb fr' ?ch fl'")
proof -
  have bkb: "dlinks nx pv (-1) (ch b) (bk b)" using c b by (simp add: ctab_def)
  have first: "0 \<le> bk b \<Longrightarrow> nat (bk b) \<in> set (ch b)" using dlinks_first [OF bkb] by (auto split: if_splits)
  have dj: "j \<notin> set fl" if "j \<in> set (ch e)" for j e
    using ctab_pv [OF c that] c unfolding ctab_def by force
  have 1: "dlinks ?nx ?pv (-1) (?ch e) (?bk e)" if "e < B" for e
  proof (cases "e = b")
    case True
    then show ?thesis using dlinks_push [OF bkb i(1)] c by (simp add: ctab_def)
  next
    case False
    have "j \<notin> set (ch b)" if "j \<in> set (ch e)" for j using c that False unfolding ctab_def by metis
    then have "dlinks ?nx ?pv (-1) (ch e) (bk e) = dlinks nx pv (-1) (ch e) (bk e)"
      using first i(1) [of e] by (intro dlinks_cong) auto
    then show ?thesis using c False that by (simp add: ctab_def)
  qed
  have 2: "flinks ?nx fl' fr'" using fl'(1) i(2) flinks_cong [of fl' ?nx nx fr'] by auto
  have 3: "j < n' \<and> ?pv j = -2" if "j \<in> set fl'" for j
  proof -
    have "j \<in> set fl" "j \<noteq> i" using that fl'(3) i(2) by auto
    moreover from this(1) have "j < n" "pv j = -2" using c by (auto simp: ctab_def)
    moreover have "0 \<le> bk b \<Longrightarrow> j \<noteq> nat (bk b)" using first dj \<open>j \<in> set fl\<close> by blast
    ultimately show ?thesis using i(4) by auto
  qed
  have 4: "j < n' \<and> ?hb j = e \<and> e < B" if "j \<in> set (?ch e)" for j e
    using that c b i(1,3,4) unfolding ctab_def by (fastforce split: if_splits)
  have 5: "j \<in> set fl' \<or> j \<in> set (?ch (?hb j))" if "j < n'" for j using cov [OF that] by auto
  have "distinct (?ch e)" for e using c i(1) by (auto simp: ctab_def)
  then show ?thesis using 1 2 3 4 5 fl'(2) unfolding ctab_def by blast
qed

lemmas ctab_insert_fresh = ctab_insert [where i = n and n = n and n' = "Suc n" for n]

lemma ctab_remove:
  assumes c: "ctab B n bk nx pv hb fr ch fl" and i: "i \<in> set (ch b)"
  shows "ctab B n (if pv i < 0 then bk(b := nx i) else bk)
    ((if pv i < 0 then nx else nx(nat (pv i) := nx i))(i := fr))
    ((if 0 \<le> nx i then pv(nat (nx i) := pv i) else pv)(i := -2)) hb (int i)
    (ch(b := remove1 i (ch b))) (i # fl)"
    (is "ctab B n ?bk (?nx(i := fr)) (?pv(i := -2)) hb (int i) ?ch (i # fl)")
proof -
  have b: "b < B" and d: "distinct (ch b)" and bkb: "dlinks nx pv (-1) (ch b) (bk b)"
    using c i by (auto simp: ctab_def)
  obtain as bs where s: "ch b = as @ i # bs" using i by (auto simp: in_set_conv_decomp)
  have r: "remove1 i (ch b) = as @ bs" using s d by (simp add: remove1_append)
  note mid = dlinks_mid [OF bkb [unfolded s]]
  have pi: "pv i < 0 \<longleftrightarrow> as = []" "nx i < 0 \<longleftrightarrow> bs = []" using mid by auto
  have nx': "?nx = (if as = [] then nx else nx(last as := nx i))" using mid pi by auto
  have pv': "?pv = (if bs = [] then pv else pv(hd bs := pv i))" using mid pi by auto
  have bk': "?bk b = (if as = [] then nx i else bk b)" using pi by auto
  have in_b: "as \<noteq> [] \<Longrightarrow> last as \<in> set (ch b)" "bs \<noteq> [] \<Longrightarrow> hd bs \<in> set (ch b)" using s by auto
  have only: "e = b" if "j \<in> set (ch b)" "j \<in> set (ch e)" for j e using c that unfolding ctab_def by metis
  have dj: "j \<notin> set fl" if "j \<in> set (ch e)" for j e
    using ctab_pv [OF c that] c unfolding ctab_def by force
  have 1: "dlinks (?nx(i := fr)) (?pv(i := -2)) (-1) (?ch e) (?bk e)" if "e < B" for e
  proof (cases "e = b")
    case True
    have "dlinks (?nx(i := fr)) (?pv(i := -2)) (-1) (as @ bs) (?bk b)"
      unfolding nx' pv' bk' by (rule dlinks_unlink [OF bkb [unfolded s]]) (use d s in auto)
    then show ?thesis by (simp only: True fun_upd_same r)
  next
    case False
    have "j \<notin> set (ch b)" if "j \<in> set (ch e)" for j using only that False by blast
    then have "dlinks (?nx(i := fr)) (?pv(i := -2)) (-1) (ch e) (bk e) = dlinks nx pv (-1) (ch e) (bk e)"
      using in_b i unfolding nx' pv' by (intro dlinks_cong) auto
    then show ?thesis using c False that by (auto simp: ctab_def)
  qed
  have "\<forall>j\<in>set fl. (?nx(i := fr)) j = nx j" using dj [OF i] dj in_b(1) unfolding nx' by auto
  then have 2: "flinks (?nx(i := fr)) (i # fl) (int i)"
    using flinks_cong [of fl "?nx(i := fr)" nx fr] c by (simp add: ctab_def)
  have 3: "j < n \<and> (?pv(i := -2)) j = -2" if "j \<in> set (i # fl)" for j
    using that dj in_b(2) c i unfolding pv' by (auto simp: ctab_def)
  have 4: "j < n \<and> hb j = e \<and> e < B" if "j \<in> set (?ch e)" for j e
  proof -
    have "j \<in> set (ch e)" using that set_remove1_subset [of i "ch b"] by (auto split: if_splits)
    then show ?thesis using c by (auto simp: ctab_def)
  qed
  have 5: "j \<in> set (i # fl) \<or> j \<in> set (?ch (hb j))" if "j < n" for j
  proof -
    have "j \<in> set fl \<or> j \<in> set (ch (hb j))" using that c by (simp add: ctab_def)
    then show ?thesis using set_remove1_eq [OF d, of i] by (cases "hb j = b") auto
  qed
  have "distinct (?ch e)" for e using c by (auto simp: ctab_def)
  moreover have "distinct (i # fl)" using c dj [OF i] by (simp add: ctab_def)
  ultimately show ?thesis using 1 2 3 4 5 unfolding ctab_def by blast
qed


section \<open>The map interface\<close>

text \<open>
  What \<^verbatim>\<open>Dict\<close> and \<^verbatim>\<open>HashSet\<close> offer their callers: a store that stands for a finite map, with a
  representation invariant that also says how many more insertions its growth policy can serve.
\<close>

datatype ('k, 'v) map_op = Put 'k 'v | Del 'k | Wipe

primrec run_ops ::
  "('k \<Rightarrow> 'v \<Rightarrow> 't \<Rightarrow> 't option) \<Rightarrow> ('k \<Rightarrow> 't \<Rightarrow> 't option) \<Rightarrow> ('t \<Rightarrow> 't option) \<Rightarrow> ('k, 'v) map_op list \<Rightarrow> 't \<Rightarrow> 't option" where
  "run_ops put del wipe [] t = Some t"
| "run_ops put del wipe (op # ops) t = do {
     t \<leftarrow> (case op of Put k v \<Rightarrow> put k v t | Del k \<Rightarrow> del k t | Wipe \<Rightarrow> wipe t);
     run_ops put del wipe ops t }"

primrec map_ops :: "('k, 'v) map_op list \<Rightarrow> ('k \<rightharpoonup> 'v) \<Rightarrow> ('k \<rightharpoonup> 'v)" where
  "map_ops [] m = m"
| "map_ops (op # ops) m = map_ops ops (case op of Put k v \<Rightarrow> m(k \<mapsto> v) | Del k \<Rightarrow> m(k := None) | Wipe \<Rightarrow> Map.empty)"

locale map_store =
  fixes inv :: "nat \<Rightarrow> 't \<Rightarrow> bool"
    and abs :: "'t \<Rightarrow> 'k \<Rightarrow> 'v option"
    and put :: "'k \<Rightarrow> 'v \<Rightarrow> 't \<Rightarrow> 't option"
    and del :: "'k \<Rightarrow> 't \<Rightarrow> 't option"
    and wipe :: "'t \<Rightarrow> 't option"
    and get :: "'k \<Rightarrow> 't \<Rightarrow> 'v option option"
  assumes put: "inv (Suc n) t \<Longrightarrow> \<exists>t'. put k v t = Some t' \<and> inv n t' \<and> abs t' = (abs t)(k \<mapsto> v)"
    and del: "inv n t \<Longrightarrow> \<exists>t'. del k t = Some t' \<and> inv n t' \<and> abs t' = (abs t)(k := None)"
    and wipe: "inv n t \<Longrightarrow> \<exists>t'. wipe t = Some t' \<and> inv n t' \<and> abs t' = Map.empty"
    and get: "inv n t \<Longrightarrow> get k t = Some (abs t k)"
    and weaken: "inv (Suc n) t \<Longrightarrow> inv n t"
begin

lemma step:
  assumes "inv (Suc n) t"
  shows "\<exists>t'. (case op of Put k v \<Rightarrow> put k v t | Del k \<Rightarrow> del k t | Wipe \<Rightarrow> wipe t) = Some t' \<and> inv n t'
    \<and> abs t' = (case op of Put k v \<Rightarrow> (abs t)(k \<mapsto> v) | Del k \<Rightarrow> (abs t)(k := None) | Wipe \<Rightarrow> Map.empty)"
  using put [OF assms] del [OF weaken [OF assms]] wipe [OF weaken [OF assms]] by (cases op) auto

lemma run:
  "inv (length ops) t \<Longrightarrow>
   \<exists>t'. run_ops put del wipe ops t = Some t' \<and> inv 0 t' \<and> abs t' = map_ops ops (abs t)"
proof (induction ops arbitrary: t)
  case (Cons op ops)
  from step [of "length ops" t op] Cons.prems obtain t1 where
    "(case op of Put k v \<Rightarrow> put k v t | Del k \<Rightarrow> del k t | Wipe \<Rightarrow> wipe t) = Some t1" "inv (length ops) t1"
    "abs t1 = (case op of Put k v \<Rightarrow> (abs t)(k \<mapsto> v) | Del k \<Rightarrow> (abs t)(k := None) | Wipe \<Rightarrow> Map.empty)" by auto
  with Cons.IH [of t1] show ?case by simp
qed simp

lemma run_get:
  assumes "inv (length ops) t"
  shows "\<exists>t'. run_ops put del wipe ops t = Some t' \<and> (\<forall>k. get k t' = Some (map_ops ops (abs t) k))"
proof -
  obtain t' where "run_ops put del wipe ops t = Some t'" "inv 0 t'" "abs t' = map_ops ops (abs t)" using run [OF assms] by blast
  then show ?thesis using get [of 0 t'] by simp
qed

end

end
