(* ===== verification/Dict.thy ===== *)
theory Dict
  imports HashUtils HashChain
begin

text \<open>
  The hash table \<^verbatim>\<open>Dict<TK, TV>\<close> of \<^verbatim>\<open>test_uv_4/xx_dict.h\<close> and \<^verbatim>\<open>xx_dict.hpp\<close>, field by field: the
  bucket array, the nodes (hash code and forward link), the items (key, value, backward link), the
  free list and the counters. \<^verbatim>\<open>int\<close> fields are integers (they never exceed the number of buckets).
  Arguments stand for the template parameters: \<open>H\<close> is \<^verbatim>\<open>HashFunc<TK>::GetHashCode\<close>, \<open>ds\<close> is
  \<^verbatim>\<open>sizeof(Data)\<close>, and \<open>mv\<close> is \<open>None\<close> when key and value are trivial types; otherwise \<open>Some junk\<close>,
  where \<open>junk\<close> is what the fresh memory of a new item array holds. \<open>None\<close> results are faults: a slot
  outside its array or without an object, a failed assertion, or a search that never ends.
\<close>

section \<open>The class\<close>

record DNode =
  hashCode :: u32
  nnext :: int

record ('k, 'v) Data =
  dkey :: "'k option"
  dvalue :: "'v option"
  dprev :: int

record ('k, 'v) Dict =
  freeList :: int
  freeCount :: int
  dcount :: int
  bucketsLen :: int
  buckets :: "int option list"
  nodes :: "DNode option list"
  items :: "('k, 'v) Data option list"

definition bucket_of :: "('k, 'v) Dict \<Rightarrow> u32 \<Rightarrow> int" where
  "bucket_of d h = int (unat h mod nat (bucketsLen d))"

definition set_dprev :: "int \<Rightarrow> int \<Rightarrow> ('k, 'v) Data option list \<Rightarrow> ('k, 'v) Data option list option" where
  "set_dprev i v its = do { it \<leftarrow> rd its i; wr its i (it\<lparr>dprev := v\<rparr>) }"

definition set_nnext :: "int \<Rightarrow> int \<Rightarrow> DNode option list \<Rightarrow> DNode option list option" where
  "set_nnext i v ns = do { nd \<leftarrow> rd ns i; wr ns i (nd\<lparr>nnext := v\<rparr>) }"

definition Dict_new :: "int \<Rightarrow> int \<Rightarrow> ('k, 'v) Dict option" where
  "Dict_new ds capacity = do {
     B \<leftarrow> GetPrime capacity ds;
     Some \<lparr>freeList = -1, freeCount = 0, dcount = 0, bucketsLen = B,
       buckets = replicate (nat B) (Some (-1)), nodes = replicate (nat B) None, items = replicate (nat B) None\<rparr> }"

text \<open>
  The search loop of \<^verbatim>\<open>Add\<close>, \<^verbatim>\<open>Find\<close> and \<^verbatim>\<open>UpdateAt\<close>, from node \<open>i\<close>: the index found, or a negative
  number. A walk longer than the number of nodes repeats one and would never end.
\<close>

primrec find_loop :: "('k, 'v) Dict \<Rightarrow> u32 \<Rightarrow> 'k \<Rightarrow> nat \<Rightarrow> int \<Rightarrow> int option" where
  "find_loop d h k 0 i = None"
| "find_loop d h k (Suc n) i =
     (if i < 0 then Some (-1)
      else do {
        nd \<leftarrow> rd (nodes d) i;
        found \<leftarrow> (if hashCode nd = h then do { it \<leftarrow> rd (items d) i; key \<leftarrow> dkey it; Some (key = k) } else Some False);
        if found then Some i else find_loop d h k n (nnext nd) })"

definition Dict_search :: "('k, 'v) Dict \<Rightarrow> u32 \<Rightarrow> 'k \<Rightarrow> int option" where
  "Dict_search d h k = do {
     i \<leftarrow> rd (buckets d) (bucket_of d h);
     find_loop d h k (Suc (length (nodes d))) i }"

definition Dict_Find :: "('k \<Rightarrow> u32) \<Rightarrow> 'k \<Rightarrow> ('k, 'v) Dict \<Rightarrow> int option" where
  "Dict_Find H k d = Dict_search d (H k) k"

text \<open>
  \<^verbatim>\<open>Reserve\<close>: the buckets are allocated anew, the nodes reallocated (their contents stay), the items
  reallocated or moved one by one; then all nodes below \<^verbatim>\<open>count\<close> are linked again.
\<close>

definition realloc :: "int \<Rightarrow> 'a option list \<Rightarrow> 'a option list" where
  "realloc B m = m @ replicate (nat B - length m) None"

primrec move_items ::
  "int \<Rightarrow> nat \<Rightarrow> nat \<Rightarrow> ('k, 'v) Data option list \<Rightarrow> ('k, 'v) Data option list \<Rightarrow> ('k, 'v) Data option list option" where
  "move_items junk 0 i old new = Some new"
| "move_items junk (Suc n) i old new = do {
     it \<leftarrow> rd old (int i);
     k \<leftarrow> dkey it;
     v \<leftarrow> dvalue it;
     new \<leftarrow> wr new (int i) \<lparr>dkey = Some k, dvalue = Some v, dprev = junk\<rparr>;
     move_items junk n (Suc i) old new }"

primrec rehash :: "nat \<Rightarrow> int \<Rightarrow> ('k, 'v) Dict \<Rightarrow> ('k, 'v) Dict option" where
  "rehash 0 i d = Some d"
| "rehash (Suc n) i d = do {
     nd \<leftarrow> rd (nodes d) i;
     let index = bucket_of d (hashCode nd);
     b \<leftarrow> rd (buckets d) index;
     its \<leftarrow> (if b \<ge> 0 then set_dprev b i (items d) else Some (items d));
     its \<leftarrow> set_dprev i (-1) its;
     ns \<leftarrow> wr (nodes d) i (nd\<lparr>nnext := b\<rparr>);
     bks \<leftarrow> wr (buckets d) index i;
     rehash n (i + 1) (d\<lparr>items := its, nodes := ns, buckets := bks\<rparr>) }"

definition Dict_Reserve :: "int \<Rightarrow> int option \<Rightarrow> int \<Rightarrow> ('k, 'v) Dict \<Rightarrow> ('k, 'v) Dict option" where
  "Dict_Reserve ds mv capacity d =
     (if \<not> (dcount d = 0 \<or> dcount d = bucketsLen d) then None
      else do {
        capacity \<leftarrow> (if capacity = 0 then i32 (dcount d * 2) else Some capacity);
        if capacity \<le> bucketsLen d then Some d
        else do {
          B \<leftarrow> GetPrime capacity ds;
          its \<leftarrow> (case mv of None \<Rightarrow> Some (realloc B (items d))
            | Some junk \<Rightarrow> move_items junk (nat (dcount d)) 0 (items d) (replicate (nat B) None));
          rehash (nat (dcount d)) 0 (d\<lparr>bucketsLen := B, buckets := replicate (nat B) (Some (-1)),
            nodes := realloc B (nodes d), items := its\<rparr>) } })"

text \<open>\<^verbatim>\<open>Add\<close> returns the success flag and the index of the \<^verbatim>\<open>DictAddResult\<close>.\<close>

definition add_slot :: "int \<Rightarrow> int option \<Rightarrow> ('k, 'v) Dict \<Rightarrow> (int \<times> ('k, 'v) Dict) option" where
  "add_slot ds mv d =
     (if freeCount d > 0 then do {
        nd \<leftarrow> rd (nodes d) (freeList d);
        Some (freeList d, d\<lparr>freeList := nnext nd, freeCount := freeCount d - 1\<rparr>) }
      else do {
        d \<leftarrow> (if dcount d = bucketsLen d then Dict_Reserve ds mv 0 d else Some d);
        Some (dcount d, d\<lparr>dcount := dcount d + 1\<rparr>) })"

definition link_new :: "u32 \<Rightarrow> 'k \<Rightarrow> 'v \<Rightarrow> int \<Rightarrow> ('k, 'v) Dict \<Rightarrow> ('k, 'v) Dict option" where
  "link_new h k v index d = do {
     let tb = bucket_of d h;
     b \<leftarrow> rd (buckets d) tb;
     ns \<leftarrow> wr (nodes d) index \<lparr>hashCode = h, nnext = b\<rparr>;
     its \<leftarrow> (if b \<ge> 0 then set_dprev b index (items d) else Some (items d));
     bks \<leftarrow> wr (buckets d) tb index;
     its \<leftarrow> wr its index \<lparr>dkey = Some k, dvalue = Some v, dprev = -1\<rparr>;
     Some (d\<lparr>nodes := ns, items := its, buckets := bks\<rparr>) }"

definition Dict_Add ::
  "('k \<Rightarrow> u32) \<Rightarrow> int \<Rightarrow> int option \<Rightarrow> 'k \<Rightarrow> 'v \<Rightarrow> bool \<Rightarrow> ('k, 'v) Dict \<Rightarrow> ((bool \<times> int) \<times> ('k, 'v) Dict) option" where
  "Dict_Add H ds mv k v override d =
     (if bucketsLen d = 0 then None
      else do {
        i \<leftarrow> Dict_search d (H k) k;
        if i \<ge> 0 then
          (if override then do {
             it \<leftarrow> rd (items d) i;
             its \<leftarrow> wr (items d) i (it\<lparr>dvalue := Some v\<rparr>);
             Some ((True, i), d\<lparr>items := its\<rparr>) }
           else Some ((False, i), d))
        else do {
          (index, d) \<leftarrow> add_slot ds mv d;
          d \<leftarrow> link_new (H k) k v index d;
          Some ((True, index), d) } })"

definition index_ok :: "('k, 'v) Dict \<Rightarrow> int \<Rightarrow> bool option" where
  "index_ok d idx = (if 0 \<le> idx \<and> idx < dcount d then do { it \<leftarrow> rd (items d) idx; Some (dprev it \<noteq> -2) } else Some False)"

text \<open>Taking node \<open>idx\<close> out of its chain, in \<^verbatim>\<open>RemoveAt\<close> and \<^verbatim>\<open>UpdateAt\<close>.\<close>

definition unlink :: "int \<Rightarrow> ('k, 'v) Dict \<Rightarrow> ('k, 'v) Dict option" where
  "unlink idx d = do {
     it \<leftarrow> rd (items d) idx;
     nd \<leftarrow> rd (nodes d) idx;
     d \<leftarrow> (if dprev it < 0 then do {
            bks \<leftarrow> wr (buckets d) (bucket_of d (hashCode nd)) (nnext nd);
            Some (d\<lparr>buckets := bks\<rparr>) }
          else do {
            ns \<leftarrow> set_nnext (dprev it) (nnext nd) (nodes d);
            Some (d\<lparr>nodes := ns\<rparr>) });
     nd \<leftarrow> rd (nodes d) idx;
     if nnext nd \<ge> 0 then do {
       its \<leftarrow> set_dprev (nnext nd) (dprev it) (items d);
       Some (d\<lparr>items := its\<rparr>) }
     else Some d }"

definition Dict_RemoveAt :: "int \<Rightarrow> ('k, 'v) Dict \<Rightarrow> ('k, 'v) Dict option" where
  "Dict_RemoveAt idx d = do {
     ok \<leftarrow> index_ok d idx;
     if \<not> ok then None
     else do {
       d \<leftarrow> unlink idx d;
       ns \<leftarrow> set_nnext idx (freeList d) (nodes d);
       it \<leftarrow> rd (items d) idx;
       k \<leftarrow> dkey it;
       v \<leftarrow> dvalue it;
       its \<leftarrow> wr (items d) idx \<lparr>dkey = None, dvalue = None, dprev = -2\<rparr>;
       Some (d\<lparr>nodes := ns, freeList := idx, freeCount := freeCount d + 1, items := its\<rparr>) } }"

definition Dict_Remove :: "('k \<Rightarrow> u32) \<Rightarrow> 'k \<Rightarrow> ('k, 'v) Dict \<Rightarrow> ('k, 'v) Dict option" where
  "Dict_Remove H k d = do {
     idx \<leftarrow> Dict_Find H k d;
     if idx \<noteq> -1 then Dict_RemoveAt idx d else Some d }"

text \<open>\<^verbatim>\<open>DeleteKVs\<close> and \<^verbatim>\<open>Clear\<close> (without a \<^verbatim>\<open>killer\<close> callback).\<close>

primrec DeleteKVs_loop :: "nat \<Rightarrow> nat \<Rightarrow> ('k, 'v) Data option list \<Rightarrow> ('k, 'v) Data option list option" where
  "DeleteKVs_loop 0 i its = Some its"
| "DeleteKVs_loop (Suc n) i its = do {
     it \<leftarrow> rd its (int i);
     its \<leftarrow> (if dprev it \<noteq> -2 then do {
              k \<leftarrow> dkey it;
              v \<leftarrow> dvalue it;
              wr its (int i) \<lparr>dkey = None, dvalue = None, dprev = -2\<rparr> }
            else Some its);
     DeleteKVs_loop n (Suc i) its }"

definition DeleteKVs :: "('k, 'v) Dict \<Rightarrow> ('k, 'v) Dict option" where
  "DeleteKVs d = do { its \<leftarrow> DeleteKVs_loop (nat (dcount d)) 0 (items d); Some (d\<lparr>items := its\<rparr>) }"

definition Dict_destroy :: "('k, 'v) Dict \<Rightarrow> ('k, 'v) Dict option" where
  "Dict_destroy d = do { d \<leftarrow> DeleteKVs d; Some (d\<lparr>buckets := [], nodes := [], items := []\<rparr>) }"

definition Dict_Clear :: "('k, 'v) Dict \<Rightarrow> ('k, 'v) Dict option" where
  "Dict_Clear d = (if dcount d = 0 then Some d
     else do {
       d \<leftarrow> DeleteKVs d;
       Some (d\<lparr>buckets := replicate (nat (bucketsLen d)) (Some (-1)), freeList := -1, freeCount := 0, dcount := 0\<rparr>) })"

definition Dict_ValueAt :: "('k, 'v) Dict \<Rightarrow> int \<Rightarrow> 'v option" where
  "Dict_ValueAt d idx = do { ok \<leftarrow> index_ok d idx; if \<not> ok then None else do { it \<leftarrow> rd (items d) idx; dvalue it } }"

definition Dict_KeyAt :: "('k, 'v) Dict \<Rightarrow> int \<Rightarrow> 'k option" where
  "Dict_KeyAt d idx = do { ok \<leftarrow> index_ok d idx; if \<not> ok then None else do { it \<leftarrow> rd (items d) idx; dkey it } }"

definition Dict_IndexExists :: "('k, 'v) Dict \<Rightarrow> int \<Rightarrow> bool option" where
  "Dict_IndexExists d idx = index_ok d idx"

definition Dict_Count :: "('k, 'v) Dict \<Rightarrow> int" where
  "Dict_Count d = dcount d - freeCount d"

definition Dict_Empty :: "('k, 'v) Dict \<Rightarrow> bool" where
  "Dict_Empty d \<longleftrightarrow> Dict_Count d = 0"

text \<open>\<^verbatim>\<open>operator[]\<close> and \<^verbatim>\<open>At\<close>: the index of the value referred to; \<open>v0\<close> is \<^verbatim>\<open>TV()\<close>.\<close>

definition Dict_At ::
  "('k \<Rightarrow> u32) \<Rightarrow> int \<Rightarrow> int option \<Rightarrow> 'v \<Rightarrow> 'k \<Rightarrow> ('k, 'v) Dict \<Rightarrow> (int \<times> ('k, 'v) Dict) option" where
  "Dict_At H ds mv v0 k d = do {
     idx \<leftarrow> Dict_Find H k d;
     if idx < 0 then do { (r, d) \<leftarrow> Dict_Add H ds mv k v0 True d; Some (snd r, d) } else Some (idx, d) }"

definition Dict_TryGetValue :: "('k \<Rightarrow> u32) \<Rightarrow> 'k \<Rightarrow> ('k, 'v) Dict \<Rightarrow> 'v option option" where
  "Dict_TryGetValue H k d = do {
     idx \<leftarrow> Dict_Find H k d;
     if idx \<ge> 0 then do { it \<leftarrow> rd (items d) idx; v \<leftarrow> dvalue it; Some (Some v) } else Some None }"

definition Dict_UpdateAt :: "('k \<Rightarrow> u32) \<Rightarrow> int \<Rightarrow> 'k \<Rightarrow> ('k, 'v) Dict \<Rightarrow> (bool \<times> ('k, 'v) Dict) option" where
  "Dict_UpdateAt H idx newKey d = do {
     ok \<leftarrow> index_ok d idx;
     if \<not> ok then None
     else do {
       nd \<leftarrow> rd (nodes d) idx;
       it \<leftarrow> rd (items d) idx;
       let newHash = H newKey;
       if hashCode nd = newHash then do {
         its \<leftarrow> wr (items d) idx (it\<lparr>dkey := Some newKey\<rparr>);
         Some (True, d\<lparr>items := its\<rparr>) }
       else if bucket_of d (hashCode nd) = bucket_of d newHash then do {
         ns \<leftarrow> wr (nodes d) idx (nd\<lparr>hashCode := newHash\<rparr>);
         its \<leftarrow> wr (items d) idx (it\<lparr>dkey := Some newKey\<rparr>);
         Some (True, d\<lparr>nodes := ns, items := its\<rparr>) }
       else do {
         j \<leftarrow> Dict_search d newHash newKey;
         if j \<ge> 0 then Some (False, d)
         else do {
           v \<leftarrow> dvalue it;
           d \<leftarrow> unlink idx d;
           d \<leftarrow> link_new newHash newKey v idx d;
           Some (True, d) } } } }"

definition Dict_Update :: "('k \<Rightarrow> u32) \<Rightarrow> 'k \<Rightarrow> 'k \<Rightarrow> ('k, 'v) Dict \<Rightarrow> (bool \<times> ('k, 'v) Dict) option" where
  "Dict_Update H oldKey newKey d = do {
     idx \<leftarrow> Dict_Find H oldKey d;
     if idx = -1 then Some (False, d) else Dict_UpdateAt H idx newKey d }"

text \<open>The iterator: the indices \<^verbatim>\<open>for (auto& c : dict)\<close> visits.\<close>

primrec iter_from :: "nat \<Rightarrow> nat \<Rightarrow> ('k, 'v) Data option list \<Rightarrow> nat list option" where
  "iter_from 0 i its = Some []"
| "iter_from (Suc n) i its = do {
     it \<leftarrow> rd its (int i);
     is \<leftarrow> iter_from n (Suc i) its;
     Some (if dprev it \<noteq> -2 then i # is else is) }"

definition Dict_iter :: "('k, 'v) Dict \<Rightarrow> nat list option" where
  "Dict_iter d = (if Dict_Empty d then Some [] else iter_from (nat (dcount d)) 0 (items d))"

end
