(* ===== verification/DictInv.thy ===== *)
theory DictInv
  imports Dict
begin

text \<open>
  The representation of \<^verbatim>\<open>Dict\<close>: the fields form a chained table (\<open>ctab\<close>), every live slot holds a key
  with its hash code and a value, and no two live slots hold the same key. \<open>dict_map\<close> is the finite
  map a table stands for; each operation is shown to keep the representation and to act on the map.
\<close>

section \<open>Fields as functions of the index\<close>

definition bka :: "int option list \<Rightarrow> nat \<Rightarrow> int" where
  "bka bs b = the (bs ! b)"

definition nxa :: "DNode option list \<Rightarrow> nat \<Rightarrow> int" where
  "nxa ns i = nnext (the (ns ! i))"

definition hsa :: "DNode option list \<Rightarrow> nat \<Rightarrow> u32" where
  "hsa ns i = hashCode (the (ns ! i))"

definition hba :: "int \<Rightarrow> DNode option list \<Rightarrow> nat \<Rightarrow> nat" where
  "hba B ns i = unat (hsa ns i) mod nat B"

definition pva :: "('k, 'v) Data option list \<Rightarrow> nat \<Rightarrow> int" where
  "pva its i = dprev (the (its ! i))"

definition kva :: "('k, 'v) Data option list \<Rightarrow> nat \<Rightarrow> 'k option \<times> 'v option" where
  "kva its i = (dkey (the (its ! i)), dvalue (the (its ! i)))"

definition upd_prev :: "nat \<Rightarrow> int \<Rightarrow> ('k, 'v) Data option list \<Rightarrow> ('k, 'v) Data option list" where
  "upd_prev j v its = its[j := map_option (\<lambda>it. it\<lparr>dprev := v\<rparr>) (its ! j)]"

definition upd_nnext :: "nat \<Rightarrow> int \<Rightarrow> DNode option list \<Rightarrow> DNode option list" where
  "upd_nnext j v ns = ns[j := map_option (\<lambda>nd. nd\<lparr>nnext := v\<rparr>) (ns ! j)]"

definition ini :: "'a option list \<Rightarrow> nat \<Rightarrow> bool" where
  "ini m i \<longleftrightarrow> i < length m \<and> m ! i \<noteq> None"

lemma ini_less [dest]: "ini m i \<Longrightarrow> i < length m"
  by (simp add: ini_def)

lemma ini_rd [simp]: "ini m i \<Longrightarrow> rd m (int i) = Some (the (m ! i))"
  by (auto simp: ini_def rd_nat)

lemma ini_write [simp]: "ini (m[i := Some x]) j \<longleftrightarrow> ini m j \<or> j = i \<and> i < length m"
  by (cases "i = j") (auto simp: ini_def)

lemma length_upd [simp]: "length (upd_prev j v its) = length its" "length (upd_nnext j v ns) = length ns"
  by (simp_all add: upd_prev_def upd_nnext_def)

lemma ini_upd [simp]: "ini (upd_prev j v its) i = ini its i" "ini (upd_nnext j v ns) i = ini ns i"
  by (cases "j < length its"; auto simp: ini_def upd_prev_def nth_list_update)
    (cases "j < length ns"; auto simp: ini_def upd_nnext_def nth_list_update)

lemma upd_fields [simp]:
  "ini its j \<Longrightarrow> pva (upd_prev j v its) = (pva its)(j := v)"
  "ini ns j \<Longrightarrow> nxa (upd_nnext j v ns) = (nxa ns)(j := v)"
  by (auto simp: upd_prev_def upd_nnext_def pva_def nxa_def ini_def nth_list_update)

lemma upd_frame [simp]:
  "ini its j \<Longrightarrow> kva (upd_prev j v its) = kva its"
  "ini ns j \<Longrightarrow> hsa (upd_nnext j v ns) = hsa ns"
  "ini ns j \<Longrightarrow> hba B (upd_nnext j v ns) = hba B ns"
  by (auto simp: upd_prev_def upd_nnext_def kva_def hsa_def hba_def ini_def nth_list_update fun_eq_iff)

lemma write_fields [simp]:
  "b < length bs \<Longrightarrow> bka (bs[b := Some x]) = (bka bs)(b := x)"
  "i < length ns \<Longrightarrow> nxa (ns[i := Some nd]) = (nxa ns)(i := nnext nd)"
  "i < length ns \<Longrightarrow> hsa (ns[i := Some nd]) = (hsa ns)(i := hashCode nd)"
  "i < length ns \<Longrightarrow> hba B (ns[i := Some nd]) = (hba B ns)(i := unat (hashCode nd) mod nat B)"
  "i < length its \<Longrightarrow> pva (its[i := Some it]) = (pva its)(i := dprev it)"
  "i < length its \<Longrightarrow> kva (its[i := Some it]) = (kva its)(i := (dkey it, dvalue it))"
  by (auto simp: bka_def nxa_def hsa_def hba_def pva_def kva_def fun_eq_iff nth_list_update)

lemma set_dprev_ok [simp]: "ini its j \<Longrightarrow> set_dprev (int j) v its = Some (upd_prev j v its)"
  by (auto simp: set_dprev_def upd_prev_def ini_def rd_nat)

lemma set_nnext_ok [simp]: "ini ns j \<Longrightarrow> set_nnext (int j) v ns = Some (upd_nnext j v ns)"
  by (auto simp: set_nnext_def upd_nnext_def ini_def rd_nat)

section \<open>The representation\<close>

definition entry :: "('k, 'v) Dict \<Rightarrow> nat \<Rightarrow> ('k \<times> 'v) option" where
  "entry d i = (if i < nat (dcount d) \<and> pva (items d) i \<noteq> -2 then
     (case kva (items d) i of (Some k, Some v) \<Rightarrow> Some (k, v) | _ \<Rightarrow> None) else None)"

definition dict_map :: "('k, 'v) Dict \<Rightarrow> 'k \<Rightarrow> 'v option" where
  "dict_map d k = (case find (\<lambda>i. map_option fst (entry d i) = Some k) [0..<nat (dcount d)] of
     None \<Rightarrow> None | Some i \<Rightarrow> map_option snd (entry d i))"

definition shape :: "('k, 'v) Dict \<Rightarrow> bool" where
  "shape d \<longleftrightarrow> 0 < bucketsLen d \<and> length (buckets d) = nat (bucketsLen d)
     \<and> nat (bucketsLen d) \<le> length (nodes d) \<and> nat (bucketsLen d) \<le> length (items d)
     \<and> 0 \<le> dcount d \<and> dcount d \<le> bucketsLen d
     \<and> (\<forall>b<nat (bucketsLen d). ini (buckets d) b) \<and> (\<forall>i<nat (dcount d). ini (nodes d) i \<and> ini (items d) i)"

definition keyed :: "('k \<Rightarrow> u32) \<Rightarrow> ('k, 'v) Dict \<Rightarrow> bool" where
  "keyed H d \<longleftrightarrow>
     (\<forall>i<nat (dcount d). pva (items d) i \<noteq> -2 \<longrightarrow> (\<exists>k v. kva (items d) i = (Some k, Some v) \<and> H k = hsa (nodes d) i))
     \<and> (\<forall>i j k v w. entry d i = Some (k, v) \<and> entry d j = Some (k, w) \<longrightarrow> i = j)"

definition linked :: "('k, 'v) Dict \<Rightarrow> (nat \<Rightarrow> nat list) \<Rightarrow> nat list \<Rightarrow> bool" where
  "linked d ch fl \<longleftrightarrow> ctab (nat (bucketsLen d)) (nat (dcount d)) (bka (buckets d)) (nxa (nodes d)) (pva (items d))
     (hba (bucketsLen d) (nodes d)) (freeList d) ch fl \<and> freeCount d = int (length fl)"

definition dict_inv :: "('k \<Rightarrow> u32) \<Rightarrow> ('k, 'v) Dict \<Rightarrow> bool" where
  "dict_inv H d \<longleftrightarrow> shape d \<and> keyed H d \<and> (\<exists>ch fl. linked d ch fl)"

lemma entry_lt: "entry d i = Some p \<Longrightarrow> i < nat (dcount d)"
  by (simp add: entry_def split: if_splits)

lemma dict_map_iff:
  assumes "keyed H d"
  shows "dict_map d k = Some v \<longleftrightarrow> (\<exists>i. entry d i = Some (k, v))"
proof -
  have u: "i = j" if "entry d i = Some (k, x)" "entry d j = Some (k, y)" for i j x y
    using assms that unfolding keyed_def by blast
  show ?thesis
  proof (cases "find (\<lambda>i. map_option fst (entry d i) = Some k) [0..<nat (dcount d)]")
    case None
    then have "map_option fst (entry d i) \<noteq> Some k" if "i < nat (dcount d)" for i
      using that by (auto simp: find_None_iff)
    then show ?thesis using None entry_lt [of d] by (fastforce simp: dict_map_def)
  next
    case (Some i)
    then obtain w where "entry d i = Some (k, w)" by (fastforce simp: find_Some_iff)
    then show ?thesis using Some u by (fastforce simp: dict_map_def)
  qed
qed

lemma dict_map_None:
  assumes "keyed H d"
  shows "dict_map d k = None \<longleftrightarrow> (\<forall>i v. entry d i \<noteq> Some (k, v))"
  using dict_map_iff [OF assms, of k] by (metis not_Some_eq)

lemma dict_map_upd:
  assumes "keyed H d" "keyed H d'" "entry d' = (entry d)(i := Some (k, v))"
    and "\<And>k' w. entry d i = Some (k', w) \<Longrightarrow> k' = k"
  shows "dict_map d' = (dict_map d)(k \<mapsto> v)"
proof
  fix x
  show "dict_map d' x = ((dict_map d)(k \<mapsto> v)) x"
  proof (cases "x = k")
    case True
    have "entry d' i = Some (k, v)" using assms(3) by simp
    then show ?thesis using dict_map_iff [OF assms(2)] True by auto
  next
    case False
    then have "(\<exists>j. entry d' j = Some (x, y)) \<longleftrightarrow> (\<exists>j. entry d j = Some (x, y))" for y
      using assms(3,4) by (auto split: if_splits) (metis)+
    then have "dict_map d' x = Some y \<longleftrightarrow> dict_map d x = Some y" for y
      using dict_map_iff [OF assms(1)] dict_map_iff [OF assms(2)] by blast
    then show ?thesis using False by (metis fun_upd_other option.exhaust)
  qed
qed

lemma dict_map_del:
  assumes "keyed H d" "keyed H d'" "entry d' = (entry d)(i := None)" "entry d i = Some (k, v)"
  shows "dict_map d' = (dict_map d)(k := None)"
proof
  fix x
  have u: "j = i" if "entry d j = Some (k, y)" for j y
    using assms(1,4) that unfolding keyed_def by blast
  have "(\<exists>j. entry d' j = Some (x, y)) \<longleftrightarrow> x \<noteq> k \<and> (\<exists>j. entry d j = Some (x, y))" for y
  proof (cases "x = k")
    case True
    then show ?thesis using assms(3) u by auto
  next
    case False
    then have "entry d i \<noteq> Some (x, y)" using assms(4) by simp
    then show ?thesis using assms(3) False by (metis fun_upd_apply option.distinct(1))
  qed
  then have h: "dict_map d' x = Some y \<longleftrightarrow> x \<noteq> k \<and> dict_map d x = Some y" for y
    using dict_map_iff [OF assms(1)] dict_map_iff [OF assms(2)] by blast
  show "dict_map d' x = ((dict_map d)(k := None)) x"
    using h [of "the (dict_map d x)"] h [of "the (dict_map d' x)"] by (cases "dict_map d x"; cases "dict_map d' x") auto
qed

section \<open>Searching\<close>

lemma live_entry:
  assumes "shape d" "keyed H d" "linked d ch fl" "i \<in> set (ch b)"
  obtains k v where "entry d i = Some (k, v)" "H k = hsa (nodes d) i" "dkey (the (items d ! i)) = Some k"
    "dvalue (the (items d ! i)) = Some v"
    "i < nat (dcount d)" "ini (nodes d) i" "ini (items d) i" "hba (bucketsLen d) (nodes d) i = b"
proof -
  have i: "i < nat (dcount d)" "hba (bucketsLen d) (nodes d) i = b" using assms(3,4) by (auto simp: linked_def ctab_def)
  have p: "pva (items d) i \<noteq> -2" using ctab_pv assms(3,4) unfolding linked_def by fastforce
  then obtain k v where kv: "kva (items d) i = (Some k, Some v)" "H k = hsa (nodes d) i"
    using assms(2) i(1) unfolding keyed_def by blast
  show ?thesis
    using that [of k v] i p kv assms(1) by (auto simp: entry_def shape_def kva_def)
qed

lemma find_loop_chain:
  assumes "\<forall>i\<in>set xs. ini (nodes d) i \<and> ini (items d) i \<and> dkey (the (items d ! i)) \<noteq> None"
    and "dlinks (nxa (nodes d)) pv p xs f" "length xs < n"
  shows "find_loop d h k n f = Some (case find (\<lambda>i. hsa (nodes d) i = h \<and> dkey (the (items d ! i)) = Some k) xs of
    None \<Rightarrow> -1 | Some i \<Rightarrow> int i)"
  using assms
proof (induction xs arbitrary: p f n)
  case Nil
  then show ?case by (cases n) auto
next
  case (Cons x xs)
  then obtain m where n: "n = Suc m" by (cases n) auto
  obtain key where x: "ini (nodes d) x" "ini (items d) x" "dkey (the (items d ! x)) = Some key"
    using Cons.prems(1) by auto
  show ?case
    using Cons.prems Cons.IH [of "int x" "nxa (nodes d) x" m] n x
    by (auto simp: nxa_def hsa_def)
qed

lemma Dict_search_ok:
  assumes "dict_inv H d" "h = H k"
  shows "(\<exists>i v. Dict_search d h k = Some (int i) \<and> entry d i = Some (k, v))
    \<or> Dict_search d h k = Some (-1) \<and> dict_map d k = None"
proof -
  obtain ch fl where s: "shape d" and ky: "keyed H d" and l: "linked d ch fl"
    using assms(1) by (auto simp: dict_inv_def)
  let ?B = "nat (bucketsLen d)" let ?b = "unat h mod ?B"
  have b: "?b < ?B" using s by (simp add: shape_def)
  have ct: "ctab ?B (nat (dcount d)) (bka (buckets d)) (nxa (nodes d)) (pva (items d)) (hba (bucketsLen d) (nodes d))
      (freeList d) ch fl" using l by (simp add: linked_def)
  have dl: "dlinks (nxa (nodes d)) (pva (items d)) (-1) (ch ?b) (bka (buckets d) ?b)" using ct b by (simp add: ctab_def)
  have bk: "rd (buckets d) (bucket_of d h) = Some (bka (buckets d) ?b)"
    using s b by (simp add: bucket_of_def shape_def bka_def)
  have len: "nat (dcount d) \<le> length (nodes d)" using s by (auto simp: shape_def)
  have all: "\<forall>i\<in>set (ch ?b). ini (nodes d) i \<and> ini (items d) i \<and> dkey (the (items d ! i)) \<noteq> None"
    using live_entry [OF s ky l] by (metis (no_types, lifting) option.distinct(1))
  have "length (ch ?b) < Suc (length (nodes d))" using ctab_chain_length [OF ct, of ?b] len by linarith
  note fl = find_loop_chain [OF all dl this, of h k]
  show ?thesis
  proof (cases "find (\<lambda>i. hsa (nodes d) i = h \<and> dkey (the (items d ! i)) = Some k) (ch ?b)")
    case None
    have "entry d i \<noteq> Some (k, v)" for i v
    proof
      assume e: "entry d i = Some (k, v)"
      then have i: "i < nat (dcount d)" "pva (items d) i \<noteq> -2" by (auto simp: entry_def split: if_splits)
      then have c: "i \<in> set (ch (hba (bucketsLen d) (nodes d) i))" using ctab_live(1) [OF ct i(1)] by simp
      from live_entry [OF s ky l c] e have "H k = hsa (nodes d) i" "dkey (the (items d ! i)) = Some k" by auto
      then show False using None c assms(2) by (auto simp: find_None_iff hba_def)
    qed
    then show ?thesis using None fl bk dict_map_None [OF ky] by (simp add: Dict_search_def)
  next
    case (Some i)
    then have "i \<in> set (ch ?b)" "dkey (the (items d ! i)) = Some k" by (auto simp: find_Some_iff)
    then obtain v where "entry d i = Some (k, v)" using live_entry [OF s ky l] by (metis option.inject)
    then show ?thesis using Some fl bk by (auto simp: Dict_search_def)
  qed
qed


section \<open>Adding\<close>

lemma chain_head:
  assumes "ctab B n bk nx pv hb fr ch fl" "b < B"
  shows "bk b = -1 \<and> ch b = [] \<or> (\<exists>j. bk b = int j \<and> j < n \<and> j \<in> set (ch b))"
proof -
  have "dlinks nx pv (-1) (ch b) (bk b)" using assms by (simp add: ctab_def)
  moreover have "\<forall>j\<in>set (ch b). j < n" using assms(1) by (simp add: ctab_def)
  ultimately show ?thesis by (cases "ch b") auto
qed

definition linked_new :: "u32 \<Rightarrow> 'k \<Rightarrow> 'v \<Rightarrow> nat \<Rightarrow> ('k, 'v) Dict \<Rightarrow> ('k, 'v) Dict" where
  "linked_new h k v i d =
     (let b = unat h mod nat (bucketsLen d); f = bka (buckets d) b in
      d\<lparr>nodes := (nodes d)[i := Some \<lparr>hashCode = h, nnext = f\<rparr>],
        items := (if 0 \<le> f then upd_prev (nat f) (int i) (items d) else items d)
          [i := Some \<lparr>dkey = Some k, dvalue = Some v, dprev = -1\<rparr>],
        buckets := (buckets d)[b := Some (int i)]\<rparr>)"

lemma link_new_ok:
  assumes "ctab (nat (bucketsLen d)) n (bka (buckets d)) nx pv hb fr ch fl"
    and "0 < bucketsLen d" "length (buckets d) = nat (bucketsLen d)" "\<forall>b<nat (bucketsLen d). ini (buckets d) b"
    and "i < length (nodes d)" "i < length (items d)" "\<forall>j<n. ini (items d) j"
  shows "link_new h k v (int i) d = Some (linked_new h k v i d)"
proof -
  let ?b = "unat h mod nat (bucketsLen d)" let ?f = "bka (buckets d) ?b"
  have b: "?b < nat (bucketsLen d)" using assms(2) by simp
  have bk: "rd (buckets d) (bucket_of d h) = Some ?f"
    using assms(4) b by (simp add: bucket_of_def bka_def)
  have w: "wr (buckets d) (bucket_of d h) (int i) = Some ((buckets d)[?b := Some (int i)])"
    using assms(3) b by (simp add: bucket_of_def)
  from chain_head [OF assms(1) b] show ?thesis
    using assms(5-7) bk w by (elim disjE exE) (auto simp: link_new_def linked_new_def Let_def)
qed

lemma linked_new_sel [simp]:
  "bucketsLen (linked_new h k v i d) = bucketsLen d" "dcount (linked_new h k v i d) = dcount d"
  "freeList (linked_new h k v i d) = freeList d" "freeCount (linked_new h k v i d) = freeCount d"
  by (simp_all add: linked_new_def Let_def)

lemma linked_new_lengths [simp]:
  "length (buckets (linked_new h k v i d)) = length (buckets d)"
  "length (nodes (linked_new h k v i d)) = length (nodes d)"
  "length (items (linked_new h k v i d)) = length (items d)"
  by (auto simp: linked_new_def Let_def)

lemma linked_new_fields:
  assumes "ctab (nat (bucketsLen d)) n (bka (buckets d)) nx pv hb fr ch fl"
    and "0 < bucketsLen d" "length (buckets d) = nat (bucketsLen d)"
    and "i < length (nodes d)" "i < length (items d)" "\<forall>j<n. ini (items d) j"
    and "b = unat h mod nat (bucketsLen d)"
  shows "bka (buckets (linked_new h k v i d)) = (bka (buckets d))(b := int i)"
    and "nxa (nodes (linked_new h k v i d)) = (nxa (nodes d))(i := bka (buckets d) b)"
    and "hsa (nodes (linked_new h k v i d)) = (hsa (nodes d))(i := h)"
    and "hba (bucketsLen d) (nodes (linked_new h k v i d)) = (hba (bucketsLen d) (nodes d))(i := b)"
    and "pva (items (linked_new h k v i d)) =
      (if 0 \<le> bka (buckets d) b then (pva (items d))(nat (bka (buckets d) b) := int i) else pva (items d))(i := -1)"
    and "kva (items (linked_new h k v i d)) = (kva (items d))(i := (Some k, Some v))"
    and "ini (buckets (linked_new h k v i d)) e \<longleftrightarrow> ini (buckets d) e \<or> e = b"
    and "ini (nodes (linked_new h k v i d)) j \<longleftrightarrow> ini (nodes d) j \<or> j = i"
    and "ini (items (linked_new h k v i d)) j \<longleftrightarrow> ini (items d) j \<or> j = i"
proof -
  have b: "b < nat (bucketsLen d)" using assms(2,7) by simp
  from chain_head [OF assms(1) b] have
    f: "0 \<le> bka (buckets d) b \<Longrightarrow> ini (items d) (nat (bka (buckets d) b))"
    using assms(6) by auto
  show "bka (buckets (linked_new h k v i d)) = (bka (buckets d))(b := int i)"
    "nxa (nodes (linked_new h k v i d)) = (nxa (nodes d))(i := bka (buckets d) b)"
    "hsa (nodes (linked_new h k v i d)) = (hsa (nodes d))(i := h)"
    "hba (bucketsLen d) (nodes (linked_new h k v i d)) = (hba (bucketsLen d) (nodes d))(i := b)"
    "ini (buckets (linked_new h k v i d)) e \<longleftrightarrow> ini (buckets d) e \<or> e = b"
    "ini (nodes (linked_new h k v i d)) j \<longleftrightarrow> ini (nodes d) j \<or> j = i"
    using assms(3,4,7) b by (simp_all add: linked_new_def Let_def)
  show "pva (items (linked_new h k v i d)) =
      (if 0 \<le> bka (buckets d) b then (pva (items d))(nat (bka (buckets d) b) := int i) else pva (items d))(i := -1)"
    "kva (items (linked_new h k v i d)) = (kva (items d))(i := (Some k, Some v))"
    "ini (items (linked_new h k v i d)) j \<longleftrightarrow> ini (items d) j \<or> j = i"
    using assms(5,7) f by (simp_all add: linked_new_def Let_def)
qed

text \<open>Linking a key that is not in the table into a free slot, or into the slot behind the last one.\<close>

lemma link_inv:
  fixes d :: "('k, 'v) Dict" and v :: 'v and k :: 'k and h :: u32 and i :: nat and n' fr' :: int and fl' :: "nat list"
  assumes s: "shape d" and ky: "keyed H d" and l: "linked d ch fl"
    and nk: "dict_map d k = None" and h: "h = H k"
    and c: "(i \<in> set fl \<and> n' = dcount d) \<or> (int i = dcount d \<and> n' = dcount d + 1 \<and> dcount d < bucketsLen d)"
    and fl': "flinks (nxa (nodes d)) fl' fr'" "set fl' = set fl - {i}" "distinct fl'"
  defines "d' \<equiv> linked_new h k v i (d\<lparr>freeList := fr', freeCount := int (length fl'), dcount := n'\<rparr>)"
  shows "link_new h k v (int i) (d\<lparr>freeList := fr', freeCount := int (length fl'), dcount := n'\<rparr>) = Some d'
    \<and> dict_inv H d' \<and> dict_map d' = (dict_map d)(k \<mapsto> v) \<and> entry d' i = Some (k, v)
    \<and> bucketsLen d' = bucketsLen d \<and> dcount d' = n' \<and> freeCount d' = int (length fl')"
proof -
  let ?d1 = "d\<lparr>freeList := fr', freeCount := int (length fl'), dcount := n'\<rparr>"
  let ?B = "nat (bucketsLen d)" let ?n = "nat (dcount d)" let ?b = "unat h mod ?B"
  have ct: "ctab ?B ?n (bka (buckets d)) (nxa (nodes d)) (pva (items d)) (hba (bucketsLen d) (nodes d)) (freeList d) ch fl"
    using l by (simp add: linked_def)
  have sh: "0 < bucketsLen d" "length (buckets d) = ?B" "\<forall>b<?B. ini (buckets d) b" "?B \<le> length (nodes d)"
    "?B \<le> length (items d)" "0 \<le> dcount d" "dcount d \<le> bucketsLen d" "\<forall>j<?n. ini (nodes d) j \<and> ini (items d) j"
    using s by (auto simp: shape_def)
  have fln: "j < ?n" "pva (items d) j = -2" if "j \<in> set fl" for j using ct that by (auto simp: ctab_def)
  have n: "?n \<le> nat n'" "n' \<le> bucketsLen d" "0 \<le> n'" using c sh(6,7) by auto
  have i: "i < nat n'" using c fln(1) by auto
  have il: "i < length (nodes d)" "i < length (items d)" using i n sh by auto
  have b: "?b < ?B" using sh(1) by simp
  have dead: "entry d i = None" using c fln by (auto simp: entry_def)
  have ct1: "ctab (nat (bucketsLen ?d1)) ?n (bka (buckets ?d1)) (nxa (nodes d)) (pva (items d)) (hba (bucketsLen d) (nodes d)) (freeList d) ch fl"
    using ct by simp
  have il1: "i < length (nodes ?d1)" "i < length (items ?d1)" "\<forall>j<?n. ini (items ?d1) j"
    "0 < bucketsLen ?d1" "length (buckets ?d1) = nat (bucketsLen ?d1)"
    using il sh by auto
  have run: "link_new h k v (int i) ?d1 = Some d'"
    unfolding d'_def by (rule link_new_ok [OF ct1]) (use il sh in auto)
  note f = linked_new_fields [OF ct1 il1(4,5,1,2,3), of ?b h k v, folded d'_def, simplified]
  have f5: "pva (items d') =
      (if 0 \<le> bka (buckets d) ?b then (pva (items d))(nat (bka (buckets d) ?b) := int i) else pva (items d))(i := -1)"
    using f(5) by (simp cong: if_cong)
  have sel: "bucketsLen d' = bucketsLen d" "dcount d' = n'" "freeList d' = fr'" "freeCount d' = int (length fl')"
    by (simp_all add: d'_def)
  have ich: "i \<notin> set (ch e)" for e
    using c ctab_pv [OF ct, of i e] fln(2) [of i] ct unfolding ctab_def by (metis less_irrefl nat_int neg_le_iff_le numeral_le_one_iff semiring_norm(69))
  have cov: "j = i \<or> j \<in> set fl' \<or> j \<in> set (ch (hba (bucketsLen d) (nodes d) j))" if "j < nat n'" for j
    using that c ct fl'(2) unfolding ctab_def by (cases "j < ?n") auto
  have l': "linked d' (ch(?b := i # ch ?b)) fl'"
  proof -
    have fi: "i \<notin> set fl'" "set fl' \<subseteq> set fl" using fl'(2) by auto
    show ?thesis
      unfolding linked_def sel f(1,2,4) f5
      by (rule conjI [OF ctab_insert [OF ct b ich fi(1) i n(1) fl'(1,3) fi(2)] refl]) (rule cov)
  qed
  have live: "pva (items d') j = -2 \<longleftrightarrow> pva (items d) j = -2" if "j \<noteq> i" for j
  proof (cases "bka (buckets d) ?b = int j")
    case True
    then have "j \<in> set (ch ?b)" using chain_head [OF ct b] by auto
    then show ?thesis using True that ctab_pv [OF ct] by (fastforce simp: f5)
  next
    case False
    then show ?thesis using that by (auto simp: f5)
  qed
  have ent: "entry d' = (entry d)(i := Some (k, v))"
  proof
    fix j
    show "entry d' j = ((entry d)(i := Some (k, v))) j"
      using live [of j] i c sh(6) by (cases "j = i") (auto simp: entry_def sel f5 f(6))
  qed
  have s': "shape d'"
  proof -
    have "ini (nodes d') j \<and> ini (items d') j" if "j < nat n'" for j
      using that sh(8) c by (cases "j < ?n") (auto simp: f(8,9))
    then show ?thesis using sh n by (auto simp: shape_def f(7) sel) (auto simp: d'_def)
  qed
  have none: "entry d j \<noteq> Some (k, w)" for j w using dict_map_None [OF ky] nk by blast
  have k': "keyed H d'"
    unfolding keyed_def
  proof (intro conjI allI impI)
    fix j assume j: "j < nat (dcount d')" "pva (items d') j \<noteq> -2"
    show "\<exists>k v. kva (items d') j = (Some k, Some v) \<and> H k = hsa (nodes d') j"
    proof (cases "j = i")
      case False
      then have "j < ?n" using j(1) c by (auto simp: sel)
      then show ?thesis using ky j(2) live [OF False] False by (simp add: keyed_def f(3,6))
    qed (simp add: f(3,6) h)
  next
    fix x y q a w assume e: "entry d' x = Some (q, a) \<and> entry d' y = Some (q, w)"
    have "x = y" if "entry d x = Some (q, a)" "entry d y = Some (q, w)" using ky that unfolding keyed_def by blast
    then show "x = y" using e none by (auto simp: ent split: if_splits)
  qed
  show ?thesis
    using run s' k' l' ent dict_map_upd [OF ky k' ent] dead by (auto simp: dict_inv_def sel)
qed

section \<open>Growing\<close>

lemma hash_of_relinked:
  assumes "ini ns i"
  shows "hsa (ns[i := Some ((the (ns ! i))\<lparr>nnext := x\<rparr>)]) = hsa ns"
    and "hba B (ns[i := Some ((the (ns ! i))\<lparr>nnext := x\<rparr>)]) = hba B ns"
  using ini_less [OF assms] by (auto simp: hba_def fun_eq_iff) (auto simp: hsa_def)

lemma rehash_step:
  assumes ct: "ctab (nat (bucketsLen d)) i (bka (buckets d)) (nxa (nodes d)) (pva (items d)) (hba (bucketsLen d) (nodes d)) (-1) ch []"
    and sh: "0 < bucketsLen d" "length (buckets d) = nat (bucketsLen d)" "\<forall>b<nat (bucketsLen d). ini (buckets d) b"
    and it: "\<forall>j\<le>i. ini (nodes d) j \<and> ini (items d) j"
  shows "\<exists>d' ch'. rehash (Suc n) (int i) d = rehash n (int (Suc i)) d'
    \<and> ctab (nat (bucketsLen d')) (Suc i) (bka (buckets d')) (nxa (nodes d')) (pva (items d')) (hba (bucketsLen d') (nodes d')) (-1) ch' []
    \<and> kva (items d') = kva (items d) \<and> hsa (nodes d') = hsa (nodes d) \<and> length (buckets d') = length (buckets d)
    \<and> (\<forall>j. ini (buckets d) j \<longrightarrow> ini (buckets d') j) \<and> (\<forall>j. ini (nodes d) j \<longrightarrow> ini (nodes d') j)
    \<and> (\<forall>j. ini (items d) j \<longrightarrow> ini (items d') j) \<and> length (nodes d') = length (nodes d) \<and> length (items d') = length (items d)
    \<and> bucketsLen d' = bucketsLen d \<and> dcount d' = dcount d \<and> freeList d' = freeList d \<and> freeCount d' = freeCount d"
proof -
  let ?B = "nat (bucketsLen d)" let ?b = "hba (bucketsLen d) (nodes d) i" let ?f = "bka (buckets d) ?b"
  let ?its = "if 0 \<le> ?f then upd_prev (nat ?f) (int i) (items d) else items d"
  let ?d = "d\<lparr>items := upd_prev i (-1) ?its, nodes := (nodes d)[i := Some ((the (nodes d ! i))\<lparr>nnext := ?f\<rparr>)],
    buckets := (buckets d)[?b := Some (int i)]\<rparr>"
  have b: "?b < ?B" using sh(1) by (simp add: hba_def)
  have i: "ini (nodes d) i" "ini (items d) i" using it by auto
  have f: "ini (items d) (nat ?f)" if "0 \<le> ?f" using chain_head [OF ct b] it that by auto
  have fs: "?f < 0 \<or> (\<exists>j. ?f = int j \<and> ini (items d) j)" using chain_head [OF ct b] it by auto
  have bk: "bucket_of d (hashCode (the (nodes d ! i))) = int ?b" by (simp add: bucket_of_def hba_def hsa_def)
  have rb: "rd (buckets d) (int ?b) = Some ?f" using sh(3) b by (simp add: bka_def)
  have run: "rehash (Suc n) (int i) d = rehash n (int (Suc i)) ?d"
    using fs i bk rb b sh(2) by (auto simp: Let_def ini_less add.commute [of 1])
  note hs = hash_of_relinked(1) [OF i(1), where x = ?f] hash_of_relinked(2) [OF i(1), where B = "bucketsLen d" and x = ?f]
  define its where "its = upd_prev i (-1) ?its"
  have its: "pva its = (if 0 \<le> ?f then (pva (items d))(nat ?f := int i) else pva (items d))(i := -1)"
    "kva its = kva (items d)" "length its = length (items d)" "\<forall>j. ini its j = ini (items d) j"
    using i(2) f by (auto simp: its_def)
  define ns where "ns = (nodes d)[i := Some ((the (nodes d ! i))\<lparr>nnext := ?f\<rparr>)]"
  have ns: "nxa ns = (nxa (nodes d))(i := ?f)" "hsa ns = hsa (nodes d)" "hba (bucketsLen d) ns = hba (bucketsLen d) (nodes d)"
    "length ns = length (nodes d)" "\<forall>j. ini (nodes d) j \<longrightarrow> ini ns j"
    using i(1) hs by (auto simp: ns_def ini_less)
  have "ctab ?B (Suc i) ((bka (buckets d))(?b := int i)) (nxa ns) (pva its)
      ((hba (bucketsLen d) (nodes d))(i := ?b)) (-1) (ch(?b := i # ch ?b)) []"
    unfolding ns(1) its(1)
  proof (rule ctab_insert [OF ct b])
    show "i \<notin> set (ch c)" for c using ct by (auto simp: ctab_def)
    show "j = i \<or> j \<in> set [] \<or> j \<in> set (ch (hba (bucketsLen d) (nodes d) j))" if "j < Suc i" for j
      using that ct by (cases "j = i") (auto simp: ctab_def)
  qed auto
  then show ?thesis
    using run its(2-4) ns(2-5) b sh(2) unfolding its_def [symmetric] ns_def [symmetric]
    by (intro exI [of _ "d\<lparr>items := its, nodes := ns, buckets := (buckets d)[?b := Some (int i)]\<rparr>"]
        exI [of _ "ch(?b := i # ch ?b)"]) (simp del: rehash.simps of_nat_Suc)
qed

lemma rehash_ok:
  assumes "ctab (nat (bucketsLen d)) i (bka (buckets d)) (nxa (nodes d)) (pva (items d)) (hba (bucketsLen d) (nodes d)) (-1) ch []"
    and "0 < bucketsLen d" "length (buckets d) = nat (bucketsLen d)" "\<forall>b<nat (bucketsLen d). ini (buckets d) b"
    and "\<forall>j<i + n. ini (nodes d) j \<and> ini (items d) j"
  shows "\<exists>d' ch'. rehash n (int i) d = Some d'
    \<and> ctab (nat (bucketsLen d)) (i + n) (bka (buckets d')) (nxa (nodes d')) (pva (items d')) (hba (bucketsLen d) (nodes d')) (-1) ch' []
    \<and> kva (items d') = kva (items d) \<and> hsa (nodes d') = hsa (nodes d) \<and> length (buckets d') = length (buckets d)
    \<and> (\<forall>b<nat (bucketsLen d). ini (buckets d') b) \<and> (\<forall>j<i + n. ini (nodes d') j \<and> ini (items d') j)
    \<and> length (nodes d') = length (nodes d) \<and> length (items d') = length (items d)
    \<and> bucketsLen d' = bucketsLen d \<and> dcount d' = dcount d \<and> freeList d' = freeList d \<and> freeCount d' = freeCount d"
  using assms
proof (induction n arbitrary: i d ch)
  case 0
  then show ?case by auto
next
  case (Suc n)
  have it: "\<forall>j\<le>i. ini (nodes d) j \<and> ini (items d) j" using Suc.prems(5) by auto
  obtain d1 ch1 where
    r: "rehash (Suc n) (int i) d = rehash n (int (Suc i)) d1"
    and c: "ctab (nat (bucketsLen d1)) (Suc i) (bka (buckets d1)) (nxa (nodes d1)) (pva (items d1)) (hba (bucketsLen d1) (nodes d1)) (-1) ch1 []"
    and e: "kva (items d1) = kva (items d)" "hsa (nodes d1) = hsa (nodes d)" "length (buckets d1) = length (buckets d)"
      "\<forall>j. ini (buckets d) j \<longrightarrow> ini (buckets d1) j" "\<forall>j. ini (nodes d) j \<longrightarrow> ini (nodes d1) j"
      "\<forall>j. ini (items d) j \<longrightarrow> ini (items d1) j" "length (nodes d1) = length (nodes d)" "length (items d1) = length (items d)"
      "bucketsLen d1 = bucketsLen d" "dcount d1 = dcount d" "freeList d1 = freeList d" "freeCount d1 = freeCount d"
    using rehash_step [OF Suc.prems(1-4) it, of n] by (elim exE conjE) (rule that)
  have "0 < bucketsLen d1" "length (buckets d1) = nat (bucketsLen d1)" "\<forall>b<nat (bucketsLen d1). ini (buckets d1) b"
    "\<forall>j<Suc i + n. ini (nodes d1) j \<and> ini (items d1) j"
    using Suc.prems e by auto
  from Suc.IH [OF c this] show ?case using e r by (auto simp del: rehash.simps)
qed

lemma move_items_ok:
  assumes "\<forall>j<i + n. ini old j \<and> dkey (the (old ! j)) \<noteq> None \<and> dvalue (the (old ! j)) \<noteq> None" "i + n \<le> length new"
  shows "\<exists>new'. move_items junk n i old new = Some new' \<and> length new' = length new
    \<and> (\<forall>j. ini new j \<or> i \<le> j \<and> j < i + n \<longrightarrow> ini new' j) \<and> (\<forall>j<i. kva new' j = kva new j)
    \<and> (\<forall>j. i \<le> j \<and> j < i + n \<longrightarrow> kva new' j = kva old j)"
  using assms
proof (induction n arbitrary: i new)
  case 0
  then show ?case by auto
next
  case (Suc n)
  have i: "ini old i" "i < length new" using Suc.prems by auto
  obtain k v where kv: "dkey (the (old ! i)) = Some k" "dvalue (the (old ! i)) = Some v"
    using Suc.prems(1) by force
  let ?new = "new[i := Some \<lparr>dkey = Some k, dvalue = Some v, dprev = junk\<rparr>]"
  obtain new' where n: "move_items junk n (Suc i) old ?new = Some new'" "length new' = length new"
      "\<forall>j. ini ?new j \<or> Suc i \<le> j \<and> j < Suc i + n \<longrightarrow> ini new' j" "\<forall>j<Suc i. kva new' j = kva ?new j"
      "\<forall>j. Suc i \<le> j \<and> j < Suc i + n \<longrightarrow> kva new' j = kva old j"
    using Suc.IH [of "Suc i" ?new] Suc.prems by auto
  have "kva new' i = kva old i" using n(4) i kv by (simp add: kva_def)
  moreover have "\<forall>j<i. kva new' j = kva new j" using n(4) i by auto
  moreover have "ini new' i" using n(3) i by auto
  moreover have "i \<le> j \<and> j < i + Suc n \<longleftrightarrow> j = i \<or> Suc i \<le> j \<and> j < Suc i + n" for j by auto
  ultimately show ?case using n(1-3,5) i kv by auto
qed

lemma realloc_fields [simp]:
  "ini m i \<Longrightarrow> ini (realloc B m) i" "ini ns i \<Longrightarrow> hsa (realloc B ns) i = hsa ns i"
  "ini its i \<Longrightarrow> kva (realloc B its) i = kva its i"
  by (auto simp: realloc_def ini_def hsa_def kva_def nth_append)

lemma length_realloc: "nat B \<le> length (realloc B m)" "length m \<le> length (realloc B m)"
  by (auto simp: realloc_def)

lemma grow_items:
  fixes d :: "('k, 'v) Dict"
  assumes "\<forall>j<n. ini (items d) j" "\<forall>j<n. \<exists>k v. kva (items d) j = (Some k, Some v)" "n \<le> nat B"
  shows "\<exists>its. (case mv of None \<Rightarrow> Some (realloc B (items d))
            | Some junk \<Rightarrow> move_items junk n 0 (items d) (replicate (nat B) None)) = Some its
      \<and> nat B \<le> length its \<and> (\<forall>j<n. ini its j \<and> kva its j = kva (items d) j)"
proof (cases mv)
  case None
  then show ?thesis using assms(1) length_realloc by auto
next
  case (Some junk)
  have "\<forall>j<0 + n. ini (items d) j \<and> dkey (the (items d ! j)) \<noteq> None \<and> dvalue (the (items d ! j)) \<noteq> None"
    using assms(1,2) by (fastforce simp: kva_def)
  moreover have "0 + n \<le> length (replicate (nat B) (None :: ('k, 'v) Data option))" using assms(3) by simp
  ultimately obtain new where "move_items junk n 0 (items d) (replicate (nat B) None) = Some new" "length new = nat B"
      "\<forall>j<n. ini new j" "\<forall>j<n. kva new j = kva (items d) j"
    using move_items_ok [of 0 n "items d" "replicate (nat B) None" junk] by auto
  then show ?thesis using Some by auto
qed

lemma Reserve_full:
  fixes d :: "('k, 'v) Dict"
  assumes inv: "dict_inv H d" and full: "dcount d = bucketsLen d" "freeCount d = 0"
    and g: "grows ds (dcount d)" "0 < ds"
  shows "\<exists>d'. Dict_Reserve ds mv 0 d = Some d' \<and> dict_inv H d' \<and> dict_map d' = dict_map d \<and> entry d' = entry d
    \<and> dcount d' = dcount d \<and> dcount d' < bucketsLen d' \<and> freeCount d' = 0"
proof -
  obtain ch fl where s: "shape d" and ky: "keyed H d" and l: "linked d ch fl"
    using inv by (auto simp: dict_inv_def)
  obtain B where B: "GetPrime (dcount d * 2) ds = Some B" "dcount d < B"
    using g(1) by (auto simp: grows_def split: option.splits)
  have c0: "0 < dcount d" using s full by (simp add: shape_def)
  have "dcount d * 2 * ds < 2 ^ 31" using B(1) by (auto simp: GetPrime_def i32_def split: if_splits)
  moreover have "dcount d * 2 \<le> dcount d * 2 * ds" using c0 g(2) by simp
  ultimately have "dcount d * 2 < 2 ^ 31" by linarith
  then have cap: "i32 (dcount d * 2) = Some (dcount d * 2)" using c0 by (simp add: i32_def)
  have fl0: "fl = []" using l full by (simp add: linked_def)
  have ct: "ctab (nat (bucketsLen d)) (nat (dcount d)) (bka (buckets d)) (nxa (nodes d)) (pva (items d))
      (hba (bucketsLen d) (nodes d)) (freeList d) ch []" using l fl0 by (simp add: linked_def)
  have fr: "freeList d = -1" using ct by (simp add: ctab_def)
  let ?n = "nat (dcount d)"
  have live: "pva (items d) j \<noteq> -2" if "j < ?n" for j using ctab_live(2) [OF ct that] by simp
  have sh: "\<forall>j<?n. ini (nodes d) j \<and> ini (items d) j" using s by (simp add: shape_def)
  have kv: "\<exists>k v. kva (items d) j = (Some k, Some v) \<and> H k = hsa (nodes d) j" if "j < ?n" for j
    using ky live [OF that] that by (simp add: keyed_def)
  have "\<forall>j<?n. ini (items d) j" "\<forall>j<?n. \<exists>k v. kva (items d) j = (Some k, Some v)" "?n \<le> nat B"
    using sh kv B(2) by (auto, blast)
  from grow_items [OF this, of mv] obtain its where its: "(case mv of None \<Rightarrow> Some (realloc B (items d))
            | Some junk \<Rightarrow> move_items junk ?n 0 (items d) (replicate (nat B) None)) = Some its"
      "nat B \<le> length its" "\<forall>j<?n. ini its j \<and> kva its j = kva (items d) j" by blast
  let ?d = "d\<lparr>bucketsLen := B, buckets := replicate (nat B) (Some (-1)), nodes := realloc B (nodes d), items := its\<rparr>"
  have ns: "\<forall>j<?n. ini (realloc B (nodes d)) j \<and> hsa (realloc B (nodes d)) j = hsa (nodes d) j"
    using sh by simp
  have "ctab (nat (bucketsLen ?d)) 0 (bka (buckets ?d)) (nxa (nodes ?d)) (pva (items ?d)) (hba (bucketsLen ?d) (nodes ?d)) (-1) (\<lambda>_. []) []"
    by (rule ctab_empty) (simp add: bka_def)
  moreover have "0 < bucketsLen ?d" "length (buckets ?d) = nat (bucketsLen ?d)" "\<forall>b<nat (bucketsLen ?d). ini (buckets ?d) b"
    "\<forall>j<0 + ?n. ini (nodes ?d) j \<and> ini (items ?d) j"
    using B(2) c0 ns its(3) by (auto simp: ini_def)
  ultimately obtain d' ch' where d': "rehash ?n (int 0) ?d = Some d'"
    and c': "ctab (nat B) (0 + ?n) (bka (buckets d')) (nxa (nodes d')) (pva (items d')) (hba B (nodes d')) (-1) ch' []"
    and e: "kva (items d') = kva its" "hsa (nodes d') = hsa (realloc B (nodes d))" "length (buckets d') = nat B"
      "\<forall>b<nat B. ini (buckets d') b" "\<forall>j<0 + ?n. ini (nodes d') j \<and> ini (items d') j"
      "length (nodes d') = length (realloc B (nodes d))" "length (items d') = length its"
      "bucketsLen d' = B" "dcount d' = dcount d" "freeList d' = -1" "freeCount d' = 0"
    using rehash_ok [of ?d 0 "\<lambda>_. []" ?n] fr full by auto
  have live': "pva (items d') j \<noteq> -2" if "j < ?n" for j using ctab_live(2) [OF c'] that by simp
  have ent: "entry d' = entry d"
    using live live' its(3) e(1,9) by (auto simp: entry_def fun_eq_iff)
  have "shape d'" using e B(2) c0 its(2) length_realloc(1) [of B "nodes d"] by (auto simp: shape_def)
  moreover have k': "keyed H d'"
    using kv ky live live' its(3) ns e(1,2,9) ent by (auto simp: keyed_def)
  moreover have "linked d' ch' []" using c' e by (simp add: linked_def)
  ultimately have "dict_inv H d'" by (auto simp: dict_inv_def)
  moreover have "dict_map d' = dict_map d" by (rule ext) (simp only: dict_map_def ent e(9))
  moreover have "Dict_Reserve ds mv 0 d = Some d'"
    using full cap B(1) its(1) d' c0 by (simp add: Dict_Reserve_def)
  ultimately show ?thesis using ent e B(2) by auto
qed

lemma override_ok:
  fixes v :: 'v and d :: "('k, 'v) Dict"
  assumes inv: "dict_inv H d" and e: "entry d i = Some (k, w)"
  defines "d' \<equiv> d\<lparr>items := (items d)[i := Some ((the (items d ! i))\<lparr>dvalue := Some v\<rparr>)]\<rparr>"
  shows "ini (items d) i" "dict_inv H d'" "dict_map d' = (dict_map d)(k \<mapsto> v)" "entry d' i = Some (k, v)"
proof -
  obtain ch fl where s: "shape d" and ky: "keyed H d" and l: "linked d ch fl"
    using inv by (auto simp: dict_inv_def)
  have ii: "ini (items d) i" "i < nat (dcount d)" "pva (items d) i \<noteq> -2" "kva (items d) i = (Some k, Some w)"
    using e s by (auto simp: entry_def shape_def split: if_splits option.splits prod.splits)
  have pv: "pva (items d') = pva (items d)" using ii(1) by (auto simp: d'_def pva_def ini_less)
  have kv: "kva (items d') = (kva (items d))(i := (Some k, Some v))" using ii(1,4) by (simp add: d'_def ini_less kva_def)
  have fr: "nodes d' = nodes d" "dcount d' = dcount d" by (simp_all add: d'_def)
  have ent: "entry d' = (entry d)(i := Some (k, v))" using ii pv kv by (auto simp: entry_def fun_eq_iff fr)
  have "H k = hsa (nodes d) i" using ky ii(2-4) by (fastforce simp: keyed_def)
  moreover have "x = y" if xy: "entry d' x = Some (q, a)" "entry d' y = Some (q, b)" for x y q a b
  proof -
    have o: "\<exists>c. entry d z = Some (q, c)" if "entry d' z = Some (q, c)" for z c
      using that e unfolding ent by (auto split: if_splits)
    obtain a' b' where "entry d x = Some (q, a')" "entry d y = Some (q, b')" using o [OF xy(1)] o [OF xy(2)] by blast
    then show ?thesis using ky unfolding keyed_def by metis
  qed
  ultimately have k': "keyed H d'" using ky pv kv by (auto simp: keyed_def fr)
  have "shape d'" using s ii(1) by (auto simp: shape_def ini_less d'_def)
  moreover have "linked d' ch fl" using l pv by (simp add: linked_def d'_def)
  ultimately show "dict_inv H d'" using k' by (auto simp: dict_inv_def)
  show "dict_map d' = (dict_map d)(k \<mapsto> v)" using dict_map_upd [OF ky k' ent] e by simp
  show "entry d' i = Some (k, v)" "ini (items d) i" using ent ii(1) by simp_all
qed

lemma add_slot_ok:
  assumes inv: "dict_inv H d" and ds: "0 < ds" and None: "dict_map d k = None"
    and room: "dcount d = bucketsLen d \<and> freeCount d = 0 \<longrightarrow> grows ds (dcount d)"
  shows "\<exists>i d1 d'. add_slot ds mv d = Some (int i, d1) \<and> link_new (H k) k v (int i) d1 = Some d' \<and> dict_inv H d'
    \<and> dict_map d' = (dict_map d)(k \<mapsto> v) \<and> entry d' i = Some (k, v) \<and> dcount d' \<le> dcount d + 1"
proof (cases "freeCount d > 0")
  case True
  obtain ch fl where s: "shape d" and ky: "keyed H d" and l: "linked d ch fl"
    using inv by (auto simp: dict_inv_def)
  then obtain i fl' where fl: "fl = i # fl'" using True by (cases fl) (auto simp: linked_def)
  have c: "freeList d = int i" "flinks (nxa (nodes d)) fl' (nxa (nodes d) i)" "distinct fl" "i < nat (dcount d)"
    "freeCount d = int (length fl)"
    using l fl by (auto simp: linked_def ctab_def)
  have i: "ini (nodes d) i" using s c(4) by (simp add: shape_def)
  let ?d = "d\<lparr>freeList := nxa (nodes d) i, freeCount := int (length fl'), dcount := dcount d\<rparr>"
  have a: "add_slot ds mv d = Some (int i, ?d)" using True c(1,5) i fl by (simp add: add_slot_def nxa_def)
  have "(i \<in> set fl \<and> dcount d = dcount d) \<or> (int i = dcount d \<and> dcount d = dcount d + 1 \<and> dcount d < bucketsLen d)"
    "set fl' = set fl - {i}" "distinct fl'" using fl c(3) by auto
  note link_inv [OF s ky l None refl this(1) c(2) this(2,3), of v]
  then obtain d' where "link_new (H k) k v (int i) ?d = Some d'" "dict_inv H d'" "dict_map d' = (dict_map d)(k \<mapsto> v)"
    "entry d' i = Some (k, v)" "dcount d' = dcount d" by blast
  with a show ?thesis by (intro exI [of _ i] exI [of _ ?d] exI [of _ d']) simp
next
  case False
  obtain ch fl where s: "shape d" and l: "linked d ch fl" using inv by (auto simp: dict_inv_def)
  then have fc: "freeCount d = 0" using False by (simp add: linked_def)
  have "\<exists>d0. (if dcount d = bucketsLen d then Dict_Reserve ds mv 0 d else Some d) = Some d0 \<and> dict_inv H d0
      \<and> dict_map d0 = dict_map d \<and> dcount d0 < bucketsLen d0 \<and> freeCount d0 = 0 \<and> dcount d0 = dcount d"
  proof (cases "dcount d = bucketsLen d")
    case True
    then have "grows ds (dcount d)" using room fc by simp
    from Reserve_full [OF inv True fc this ds, of mv] True show ?thesis by auto
  next
    case False
    then show ?thesis using inv fc s by (simp add: shape_def)
  qed
  then obtain d0 where d0: "(if dcount d = bucketsLen d then Dict_Reserve ds mv 0 d else Some d) = Some d0"
      "dict_inv H d0" "dict_map d0 = dict_map d" "dcount d0 < bucketsLen d0" "freeCount d0 = 0" "dcount d0 = dcount d" by blast
  then obtain ch0 fl0 where s0: "shape d0" and ky0: "keyed H d0" and l0: "linked d0 ch0 fl0" by (auto simp: dict_inv_def)
  then have fl0: "fl0 = []" "freeList d0 = -1" using d0(5) by (auto simp: linked_def ctab_def)
  have n0: "0 \<le> dcount d0" using s0 by (simp add: shape_def)
  let ?i = "nat (dcount d0)" let ?d = "d0\<lparr>freeList := -1, freeCount := int (length ([] :: nat list)), dcount := dcount d0 + 1\<rparr>"
  have "?d = d0\<lparr>dcount := dcount d0 + 1\<rparr>" using fl0(2) d0(5) by (cases d0) simp
  then have a: "add_slot ds mv d = Some (int ?i, ?d)" using fc d0(1) n0 by (simp add: add_slot_def)
  have "(?i \<in> set fl0 \<and> dcount d0 + 1 = dcount d0) \<or> (int ?i = dcount d0 \<and> dcount d0 + 1 = dcount d0 + 1 \<and> dcount d0 < bucketsLen d0)"
    "flinks (nxa (nodes d0)) [] (-1)" "set [] = set fl0 - {?i}" "distinct ([] :: nat list)"
    using n0 d0(4) fl0 by auto
  note link_inv [OF s0 ky0 l0 None [folded d0(3)] refl this, of v]
  moreover have "x = dcount d0 + 1 \<Longrightarrow> x \<le> dcount d + 1" for x using d0(6) by simp
  ultimately show ?thesis unfolding d0(3) using a by blast
qed

lemma Dict_Add_ok:
  assumes inv: "dict_inv H d" and ds: "0 < ds"
    and room: "dcount d = bucketsLen d \<and> freeCount d = 0 \<longrightarrow> grows ds (dcount d)"
  shows "case dict_map d k of
      None \<Rightarrow> \<exists>i d'. Dict_Add H ds mv k v ov d = Some ((True, int i), d') \<and> dict_inv H d'
        \<and> dict_map d' = (dict_map d)(k \<mapsto> v) \<and> entry d' i = Some (k, v) \<and> dcount d' \<le> dcount d + 1
    | Some w \<Rightarrow> \<exists>i d'. Dict_Add H ds mv k v ov d = Some ((ov, int i), d') \<and> dict_inv H d'
        \<and> dict_map d' = (if ov then (dict_map d)(k \<mapsto> v) else dict_map d) \<and> entry d' i = Some (k, if ov then v else w)
        \<and> dcount d' = dcount d"
proof -
  have s: "shape d" and ky: "keyed H d" using inv by (auto simp: dict_inv_def)
  have B: "bucketsLen d \<noteq> 0" using s by (simp add: shape_def)
  show ?thesis
  proof (cases "dict_map d k")
    case (Some w)
    then obtain i x where ix: "Dict_search d (H k) k = Some (int i)" "entry d i = Some (k, x)"
      using Dict_search_ok [OF inv refl, of k] by auto
    moreover have "x = w" using dict_map_iff [OF ky] ix(2) Some by (metis option.inject)
    ultimately have i: "Dict_search d (H k) k = Some (int i)" "entry d i = Some (k, w)" by auto
    show ?thesis
    proof (cases ov)
      case False
      then show ?thesis using Some i inv B by (auto simp: Dict_Add_def)
    next
      case True
      then show ?thesis using Some i B override_ok(1) [OF inv i(2)] override_ok(2-4) [OF inv i(2), of v] by (auto simp: Dict_Add_def ini_less)
    qed
  next
    case None
    then have "Dict_search d (H k) k = Some (-1)"
      using Dict_search_ok [OF inv refl, of k] dict_map_None [OF ky, of k] by auto
    then show ?thesis using add_slot_ok [OF inv ds None room, of mv v] B None by (auto simp: Dict_Add_def)
  qed
qed

section \<open>Removing\<close>

lemma chain_neighbours:
  assumes "ctab B n bk nx pv hb fr ch fl" "i \<in> set (ch b)"
  shows "pv i = -1 \<or> (\<exists>j. pv i = int j \<and> j \<in> set (ch b) \<and> j \<noteq> i)"
    and "nx i = -1 \<or> (\<exists>j. nx i = int j \<and> j \<in> set (ch b) \<and> j \<noteq> i)"
proof -
  obtain as bs where s: "ch b = as @ i # bs" using assms(2) by (auto simp: in_set_conv_decomp)
  have d: "dlinks nx pv (-1) (as @ i # bs) (bk b)" "distinct (as @ i # bs)"
    using assms s [symmetric] by (auto simp: ctab_def)
  have "as \<noteq> [] \<Longrightarrow> last as \<in> set (ch b) \<and> last as \<noteq> i" "bs \<noteq> [] \<Longrightarrow> hd bs \<in> set (ch b) \<and> hd bs \<noteq> i"
    using s d(2) last_in_set [of as] hd_in_set [of bs] by auto
  then show "pv i = -1 \<or> (\<exists>j. pv i = int j \<and> j \<in> set (ch b) \<and> j \<noteq> i)"
    "nx i = -1 \<or> (\<exists>j. nx i = int j \<and> j \<in> set (ch b) \<and> j \<noteq> i)"
    using dlinks_mid [OF d(1)] by (cases "as = []"; cases "bs = []"; auto)+
qed

definition unlinked :: "nat \<Rightarrow> ('k, 'v) Dict \<Rightarrow> ('k, 'v) Dict" where
  "unlinked i d =
     (let p = pva (items d) i; n = nxa (nodes d) i in
      d\<lparr>buckets := (if p < 0 then (buckets d)[hba (bucketsLen d) (nodes d) i := Some n] else buckets d),
        nodes := (if p < 0 then nodes d else upd_nnext (nat p) n (nodes d)),
        items := (if 0 \<le> n then upd_prev (nat n) p (items d) else items d)\<rparr>)"

lemma unlink_ok:
  assumes s: "shape d" and l: "linked d ch fl" and i: "i \<in> set (ch b)"
  shows "unlink (int i) d = Some (unlinked i d)"
    and "bka (buckets (unlinked i d)) = (if pva (items d) i < 0 then (bka (buckets d))(b := nxa (nodes d) i) else bka (buckets d))"
    and "nxa (nodes (unlinked i d)) = (if pva (items d) i < 0 then nxa (nodes d) else (nxa (nodes d))(nat (pva (items d) i) := nxa (nodes d) i))"
    and "pva (items (unlinked i d)) = (if 0 \<le> nxa (nodes d) i then (pva (items d))(nat (nxa (nodes d) i) := pva (items d) i) else pva (items d))"
    and "kva (items (unlinked i d)) = kva (items d)" "hsa (nodes (unlinked i d)) = hsa (nodes d)"
    and "ini (buckets (unlinked i d)) x \<longleftrightarrow> ini (buckets d) x" "ini (nodes (unlinked i d)) j \<longleftrightarrow> ini (nodes d) j"
      "ini (items (unlinked i d)) j \<longleftrightarrow> ini (items d) j"
proof -
  let ?B = "nat (bucketsLen d)" let ?p = "pva (items d) i" let ?n = "nxa (nodes d) i"
  have ct: "ctab ?B (nat (dcount d)) (bka (buckets d)) (nxa (nodes d)) (pva (items d)) (hba (bucketsLen d) (nodes d)) (freeList d) ch fl"
    using l by (simp add: linked_def)
  have b: "hba (bucketsLen d) (nodes d) i = b" "b < ?B" using ct i by (auto simp: ctab_def)
  have B: "b < length (buckets d)" "ini (buckets d) b" using b s by (auto simp: shape_def)
  have ch: "ini (nodes d) j" "ini (items d) j" if "j \<in> set (ch b)" for j
    using that ct s by (auto simp: ctab_def shape_def)
  have bo: "bucket_of d (hashCode (the (nodes d ! i))) = int b" using b by (simp add: bucket_of_def hba_def hsa_def)
  have n': "rd (upd_nnext j x (nodes d)) (int i) = Some (the (nodes d ! i))" if "j \<noteq> i" for j x
    using ch(1) [OF i] that by (simp add: upd_nnext_def) (simp add: rd_nat ini_def)
  have p: "?p = -1 \<or> (\<exists>j. ?p = int j \<and> ini (nodes d) j \<and> j \<noteq> i)"
    and n: "?n = -1 \<or> (\<exists>j. ?n = int j \<and> ini (items d) j \<and> j \<noteq> i)"
    using chain_neighbours [OF ct i] ch by blast+
  have pv: "dprev (the (items d ! i)) = ?p" and nx: "nnext (the (nodes d ! i)) = ?n"
    by (simp_all add: pva_def nxa_def)
  show "unlink (int i) d = Some (unlinked i d)"
    using p n ch [OF i] B b bo n' by (auto simp: unlink_def unlinked_def Let_def pv nx)
  show "bka (buckets (unlinked i d)) = (if ?p < 0 then (bka (buckets d))(b := ?n) else bka (buckets d))"
    "nxa (nodes (unlinked i d)) = (if ?p < 0 then nxa (nodes d) else (nxa (nodes d))(nat ?p := ?n))"
    "pva (items (unlinked i d)) = (if 0 \<le> ?n then (pva (items d))(nat ?n := ?p) else pva (items d))"
    "kva (items (unlinked i d)) = kva (items d)" "hsa (nodes (unlinked i d)) = hsa (nodes d)"
    "ini (buckets (unlinked i d)) x \<longleftrightarrow> ini (buckets d) x" "ini (nodes (unlinked i d)) j \<longleftrightarrow> ini (nodes d) j"
    "ini (items (unlinked i d)) j \<longleftrightarrow> ini (items d) j"
    using p n B b by (auto simp: unlinked_def Let_def)
qed

lemma unlinked_sel [simp]:
  "bucketsLen (unlinked i d) = bucketsLen d" "dcount (unlinked i d) = dcount d"
  "freeList (unlinked i d) = freeList d" "freeCount (unlinked i d) = freeCount d"
  "length (buckets (unlinked i d)) = length (buckets d)" "length (nodes (unlinked i d)) = length (nodes d)"
  "length (items (unlinked i d)) = length (items d)"
  by (simp_all add: unlinked_def Let_def)

lemma keyed_sub:
  assumes "keyed H d" "entry d' = (entry d)(i := None)"
    and "\<And>j. j < nat (dcount d') \<Longrightarrow> pva (items d') j \<noteq> -2 \<Longrightarrow>
      j < nat (dcount d) \<and> pva (items d) j \<noteq> -2 \<and> kva (items d') j = kva (items d) j \<and> hsa (nodes d') j = hsa (nodes d) j"
  shows "keyed H d'"
  using assms(1,3) unfolding keyed_def assms(2) by (fastforce split: if_splits)

lemma entry_in_chain:
  assumes "linked d ch fl" "entry d i = Some kv"
  shows "i \<in> set (ch (hba (bucketsLen d) (nodes d) i))"
  using assms ctab_live(1) unfolding linked_def by (fastforce simp: entry_def split: if_splits)

lemma entry_slot:
  assumes "shape d" "entry d i = Some (k, v)"
  shows "i < nat (dcount d)" "ini (nodes d) i" "ini (items d) i" "pva (items d) i \<noteq> -2"
    "dkey (the (items d ! i)) = Some k" "dvalue (the (items d ! i)) = Some v"
  using assms by (auto simp: entry_def shape_def kva_def split: if_splits option.splits)

lemma index_ok_iff:
  assumes "dict_inv H d"
  shows "index_ok d idx = Some (0 \<le> idx \<and> entry d (nat idx) \<noteq> None)"
proof (cases "0 \<le> idx \<and> idx < dcount d")
  case True
  then obtain i where i: "idx = int i" "i < nat (dcount d)" by (metis nat_eq_iff2 nat_less_eq_zless)
  have "ini (items d) i" "pva (items d) i \<noteq> -2 \<longrightarrow> (\<exists>k v. kva (items d) i = (Some k, Some v))"
    using assms i(2) by (auto simp: dict_inv_def shape_def keyed_def)
  then show ?thesis using i by (auto simp: index_ok_def entry_def pva_def)
next
  case False
  then show ?thesis by (auto simp: index_ok_def entry_def)
qed

definition removed :: "nat \<Rightarrow> ('k, 'v) Dict \<Rightarrow> ('k, 'v) Dict" where
  "removed i d = (unlinked i d)\<lparr>nodes := upd_nnext i (freeList d) (nodes (unlinked i d)), freeList := int i,
     freeCount := freeCount d + 1, items := (items (unlinked i d))[i := Some \<lparr>dkey = None, dvalue = None, dprev = -2\<rparr>]\<rparr>"

lemma removed_sel [simp]:
  "bucketsLen (removed i d) = bucketsLen d" "dcount (removed i d) = dcount d"
  "freeList (removed i d) = int i" "freeCount (removed i d) = freeCount d + 1" "buckets (removed i d) = buckets (unlinked i d)"
  by (simp_all add: removed_def)

lemma removed_ok:
  assumes s: "shape d" and ky: "keyed H d" and l: "linked d ch fl" and e: "entry d i = Some (k, v)"
  shows "shape (removed i d)" "keyed H (removed i d)" "\<exists>ch'. linked (removed i d) ch' (i # fl)"
    "entry (removed i d) = (entry d)(i := None)" "nxa (nodes (removed i d)) i = freeList d"
    "Dict_RemoveAt (int i) d = Some (removed i d)"
proof -
  define d' where "d' = removed i d"
  have ct: "ctab (nat (bucketsLen d)) (nat (dcount d)) (bka (buckets d)) (nxa (nodes d)) (pva (items d)) (hba (bucketsLen d) (nodes d)) (freeList d) ch fl"
    using l by (simp add: linked_def)
  let ?b = "hba (bucketsLen d) (nodes d) i" let ?d = "unlinked i d"
  have i: "i \<in> set (ch ?b)" by (rule entry_in_chain [OF l e])
  note es = entry_slot [OF s e] note u = unlink_ok [OF s l i]
  have kvi: "dkey (the (items ?d ! i)) = Some k" "dvalue (the (items ?d ! i)) = Some v"
    using fun_cong [OF u(5), of i] es(5,6) by (auto simp: kva_def)
  have inv: "dict_inv H d" using s ky l by (auto simp: dict_inv_def)
  show "Dict_RemoveAt (int i) d = Some (removed i d)"
    using u(1) index_ok_iff [OF inv, of "int i"] e es kvi u(8,9) by (simp add: Dict_RemoveAt_def removed_def ini_less)
  have hb: "hba (bucketsLen d) (nodes ?d) = hba (bucketsLen d) (nodes d)" using u(6) by (simp add: hba_def fun_eq_iff)
  have f: "bka (buckets d') = bka (buckets ?d)" "nxa (nodes d') = (nxa (nodes ?d))(i := freeList d)"
      "pva (items d') = (pva (items ?d))(i := -2)" "kva (items d') = (kva (items d))(i := (None, None))" "hsa (nodes d') = hsa (nodes d)"
      "hba (bucketsLen d) (nodes d') = hba (bucketsLen d) (nodes d)"
    using es(2,3) u(5,6,8,9) hb by (simp_all add: d'_def removed_def ini_less)
  have sel: "bucketsLen d' = bucketsLen d" "dcount d' = dcount d" "freeList d' = int i" "freeCount d' = freeCount d + 1"
    by (simp_all add: d'_def)
  have "linked d' (ch(?b := remove1 i (ch ?b))) (i # fl)"
    unfolding linked_def f(1,2,3,6) sel u(2-4) using ctab_remove [OF ct i] l by (simp add: linked_def)
  then show "\<exists>ch'. linked (removed i d) ch' (i # fl)" by (auto simp: d'_def)
  have "shape d'"
    using s es(2,3) u(7-9) by (auto simp: shape_def sel) (auto simp: d'_def removed_def ini_less u(7-9))
  then show "shape (removed i d)" by (simp add: d'_def)
  have pv: "pva (items d') j = -2 \<longleftrightarrow> j = i \<or> pva (items d) j = -2" for j
    using chain_neighbours [OF ct i] ctab_pv [OF ct] unfolding f(3) u(4) by (auto, fastforce+)
  then have ent: "entry d' = (entry d)(i := None)" by (auto simp: entry_def fun_eq_iff f(4) sel)
  then show "entry (removed i d) = (entry d)(i := None)" by (simp add: d'_def)
  from ky ent have "keyed H d'" by (rule keyed_sub) (auto simp: pv f(4,5) sel)
  then show "keyed H (removed i d)" by (simp add: d'_def)
  show "nxa (nodes (removed i d)) i = freeList d" using f(2) by (simp add: d'_def)
qed

lemma Dict_RemoveAt_ok:
  assumes inv: "dict_inv H d" and e: "entry d i = Some (k, v)"
  shows "\<exists>d'. Dict_RemoveAt (int i) d = Some d' \<and> dict_inv H d' \<and> entry d' = (entry d)(i := None)
    \<and> dict_map d' = (dict_map d)(k := None) \<and> dcount d' = dcount d \<and> bucketsLen d' = bucketsLen d"
proof -
  obtain ch fl where s: "shape d" and ky: "keyed H d" and l: "linked d ch fl"
    using inv by (auto simp: dict_inv_def)
  note r = removed_ok [OF s ky l e]
  have "dict_inv H (removed i d)" using r(1-3) by (auto simp: dict_inv_def)
  moreover have "dict_map (removed i d) = (dict_map d)(k := None)" by (rule dict_map_del [OF ky r(2,4) e])
  ultimately show ?thesis using r(4,6) by simp
qed

section \<open>The other operations\<close>

lemma Dict_new_ok:
  assumes "Dict_new ds c = Some d" "0 < c" "0 < ds"
  shows "dict_inv H d" "dict_map d = Map.empty" "dcount d = 0" "freeCount d = 0"
proof -
  obtain B where B: "GetPrime c ds = Some B" "0 < B" and d: "d = \<lparr>freeList = -1, freeCount = 0, dcount = 0, bucketsLen = B,
       buckets = replicate (nat B) (Some (-1)), nodes = replicate (nat B) None, items = replicate (nat B) None\<rparr>"
    using assms GetPrime_pos [of c ds] by (auto simp: Dict_new_def split: Option.bind_splits)
  have "linked d (\<lambda>_. []) []" using B(2) unfolding linked_def d by (auto intro!: ctab_empty simp: bka_def)
  moreover have "shape d" using B(2) by (simp add: shape_def d ini_def)
  moreover have "keyed H d" by (simp add: keyed_def d entry_def)
  ultimately show "dict_inv H d" by (auto simp: dict_inv_def)
  show "dict_map d = Map.empty" "dcount d = 0" "freeCount d = 0" by (auto simp: dict_map_def d)
qed

lemma Dict_Remove_ok:
  assumes inv: "dict_inv H d"
  shows "\<exists>d'. Dict_Remove H k d = Some d' \<and> dict_inv H d' \<and> dict_map d' = (dict_map d)(k := None) \<and> dcount d' = dcount d"
  using Dict_search_ok [OF inv refl, of k]
proof
  assume "\<exists>i v. Dict_search d (H k) k = Some (int i) \<and> entry d i = Some (k, v)"
  then show ?thesis using Dict_RemoveAt_ok [OF inv] by (fastforce simp: Dict_Remove_def Dict_Find_def)
next
  assume "Dict_search d (H k) k = Some (-1) \<and> dict_map d k = None"
  then show ?thesis using inv by (auto simp: Dict_Remove_def Dict_Find_def fun_upd_idem)
qed

lemma Dict_TryGetValue_ok:
  assumes inv: "dict_inv H d"
  shows "Dict_TryGetValue H k d = Some (dict_map d k)"
proof -
  have s: "shape d" "keyed H d" using inv by (auto simp: dict_inv_def)
  show ?thesis
    using Dict_search_ok [OF inv refl, of k]
  proof (elim disjE exE conjE)
    fix i v assume "Dict_search d (H k) k = Some (int i)" and e: "entry d i = Some (k, v)"
    moreover have "dict_map d k = Some v" using dict_map_iff [OF s(2)] e by blast
    ultimately show ?thesis using entry_slot [OF s(1) e] by (simp add: Dict_TryGetValue_def Dict_Find_def)
  qed (simp add: Dict_TryGetValue_def Dict_Find_def)
qed

lemma Dict_Find_ok:
  assumes inv: "dict_inv H d"
  shows "Dict_Find H k d = Some (case find (\<lambda>i. map_option fst (entry d i) = Some k) [0..<nat (dcount d)] of None \<Rightarrow> -1 | Some i \<Rightarrow> int i)"
proof -
  have ky: "keyed H d" using inv by (auto simp: dict_inv_def)
  show ?thesis
  proof (cases "find (\<lambda>i. map_option fst (entry d i) = Some k) [0..<nat (dcount d)]")
    case None
    then have "dict_map d k = None" by (simp add: dict_map_def)
    then show ?thesis using Dict_search_ok [OF inv refl, of k] dict_map_None [OF ky, of k] None by (auto simp: Dict_Find_def)
  next
    case (Some i)
    then obtain w where w: "entry d i = Some (k, w)" by (fastforce simp: find_Some_iff)
    then have "dict_map d k \<noteq> None" using dict_map_None [OF ky] by blast
    then obtain j x where "Dict_search d (H k) k = Some (int j)" "entry d j = Some (k, x)"
      using Dict_search_ok [OF inv refl, of k] by auto
    moreover from this(2) w have "j = i" using ky unfolding keyed_def by blast
    ultimately show ?thesis using Some by (simp add: Dict_Find_def)
  qed
qed

lemma Dict_Count_ok:
  assumes inv: "dict_inv H d"
  shows "Dict_Count d = int (card (dom (dict_map d)))"
proof -
  obtain ch fl where s: "shape d" and ky: "keyed H d" and l: "linked d ch fl"
    using inv by (auto simp: dict_inv_def)
  let ?n = "nat (dcount d)" let ?E = "{i. entry d i \<noteq> None}"
  have ct: "ctab (nat (bucketsLen d)) ?n (bka (buckets d)) (nxa (nodes d)) (pva (items d)) (hba (bucketsLen d) (nodes d)) (freeList d) ch fl"
    using l by (simp add: linked_def)
  have E: "?E = {..<?n} - set fl"
    using ctab_live(2) [OF ct] ky unfolding keyed_def by (fastforce simp: entry_def split: if_splits)
  have "set fl \<subseteq> {..<?n}" "distinct fl" using ct by (auto simp: ctab_def)
  then have card: "card ?E = ?n - length fl" "length fl \<le> ?n"
    unfolding E using card_mono [of "{..<?n}" "set fl"] by (auto simp: card_Diff_subset distinct_card)
  have "inj_on (\<lambda>i. fst (the (entry d i))) ?E" using ky unfolding keyed_def inj_on_def by fastforce
  moreover have "(\<lambda>i. fst (the (entry d i))) ` ?E = dom (dict_map d)"
    using dict_map_iff [OF ky] by (force simp: dom_def image_def)
  ultimately have "card (dom (dict_map d)) = card ?E" using card_image by fastforce
  then show ?thesis using card l s by (auto simp: Dict_Count_def linked_def shape_def)
qed

lemma DeleteKVs_loop_ok:
  "\<forall>j<i + n. ini its j \<and> (pva its j \<noteq> -2 \<longrightarrow> (\<exists>k v. kva its j = (Some k, Some v))) \<Longrightarrow>
   \<exists>its'. DeleteKVs_loop n i its = Some its' \<and> length its' = length its"
proof (induction n arbitrary: i its)
  case (Suc n)
  have i: "ini its i" "pva its i \<noteq> -2 \<longrightarrow> (\<exists>k v. kva its i = (Some k, Some v))" using Suc.prems by auto
  show ?case
  proof (cases "pva its i = -2")
    case True
    then show ?thesis using i Suc.IH [of "Suc i" its] Suc.prems by (auto simp: pva_def)
  next
    case False
    let ?its = "its[i := Some \<lparr>dkey = None, dvalue = None, dprev = -2\<rparr>]"
    have "\<forall>j<Suc i + n. ini ?its j \<and> (pva ?its j \<noteq> -2 \<longrightarrow> (\<exists>k v. kva ?its j = (Some k, Some v)))"
      using Suc.prems i(1) by (auto simp: ini_less)
    from Suc.IH [OF this] show ?thesis using i False by (auto simp: pva_def kva_def ini_less)
  qed
qed simp

lemma Dict_Clear_ok:
  assumes inv: "dict_inv H d"
  shows "\<exists>d'. Dict_Clear d = Some d' \<and> dict_inv H d' \<and> dict_map d' = Map.empty \<and> dcount d' = 0 \<and> freeCount d' = 0
    \<and> bucketsLen d' = bucketsLen d"
proof -
  obtain ch fl where s: "shape d" and ky: "keyed H d" and l: "linked d ch fl"
    using inv by (auto simp: dict_inv_def)
  show ?thesis
  proof (cases "dcount d = 0")
    case True
    then have "fl = []" using l by (auto simp: linked_def ctab_def)
    then have "freeCount d = 0" using l by (simp add: linked_def)
    then show ?thesis using True inv by (auto simp: Dict_Clear_def dict_map_def)
  next
    case False
    have "\<forall>j<0 + nat (dcount d). ini (items d) j \<and> (pva (items d) j \<noteq> -2 \<longrightarrow> (\<exists>k v. kva (items d) j = (Some k, Some v)))"
      using s ky unfolding shape_def keyed_def by auto
    from DeleteKVs_loop_ok [OF this] obtain its where its: "DeleteKVs_loop (nat (dcount d)) 0 (items d) = Some its"
      "length its = length (items d)" by blast
    define d' where "d' = d\<lparr>items := its, buckets := replicate (nat (bucketsLen d)) (Some (-1)), freeList := -1, freeCount := 0, dcount := 0\<rparr>"
    have run: "Dict_Clear d = Some d'" using False its(1) by (simp add: Dict_Clear_def DeleteKVs_def d'_def)
    have "linked d' (\<lambda>_. []) []" unfolding linked_def d'_def by (auto intro!: ctab_empty simp: bka_def)
    moreover have "shape d'" using s its(2) by (auto simp: shape_def d'_def ini_def)
    moreover have "keyed H d'" by (simp add: keyed_def d'_def entry_def)
    ultimately have "dict_inv H d'" by (auto simp: dict_inv_def)
    then show ?thesis using run by (auto simp: d'_def dict_map_def)
  qed
qed

lemma iter_from_ok:
  "\<forall>j<i + n. ini its j \<Longrightarrow> iter_from n i its = Some (filter (\<lambda>j. pva its j \<noteq> -2) [i..<i + n])"
proof (induction n arbitrary: i)
  case (Suc n)
  have "[i..<i + Suc n] = i # [Suc i..<Suc i + n]" by (simp add: upt_conv_Cons)
  then show ?case using Suc.IH [of "Suc i"] Suc.prems by (simp add: pva_def del: upt_Suc)
qed simp

lemma Dict_iter_ok:
  assumes inv: "dict_inv H d"
  shows "Dict_iter d = Some (filter (\<lambda>i. entry d i \<noteq> None) [0..<nat (dcount d)])"
proof -
  have s: "shape d" and ky: "keyed H d" using inv by (auto simp: dict_inv_def)
  have "filter (\<lambda>i. entry d i \<noteq> None) [0..<nat (dcount d)] = filter (\<lambda>j. pva (items d) j \<noteq> -2) [0..<nat (dcount d)]"
    using ky unfolding keyed_def by (intro filter_cong) (fastforce simp: entry_def)+
  moreover have "iter_from (nat (dcount d)) 0 (items d) = Some (filter (\<lambda>j. pva (items d) j \<noteq> -2) [0..<nat (dcount d)])"
    using iter_from_ok [of 0 "nat (dcount d)" "items d"] s by (simp add: shape_def)
  moreover have "entry d i = None" if "Dict_Count d = 0" for i
  proof -
    have "finite (dom (dict_map d))"
    proof (rule finite_subset)
      show "dom (dict_map d) \<subseteq> (\<lambda>i. fst (the (entry d i))) ` {..<nat (dcount d)}"
        using dict_map_iff [OF ky] entry_lt [of d] by (force simp: dom_def image_def)
    qed simp
    then have "dict_map d = Map.empty" using that Dict_Count_ok [OF inv] by simp
    then show ?thesis using dict_map_iff [OF ky] by (metis option.distinct(1) not_Some_eq surj_pair)
  qed
  ultimately show ?thesis by (cases "Dict_Count d = 0") (simp_all add: Dict_iter_def Dict_Empty_def)
qed

section \<open>Renaming a key\<close>

lemma upd_prev_over: "(upd_prev j x (its[i := y]))[i := z] = (upd_prev j x its)[i := z]"
  by (cases "j = i") (auto simp: upd_prev_def list_update_swap)

lemma upd_nnext_over: "(upd_nnext i x ns)[i := z] = ns[i := z]"
  by (simp add: upd_nnext_def)

text \<open>\<^verbatim>\<open>UpdateAt\<close> takes a node out of its chain and links it again: the same as removing it and adding
  the new key in the slot that became free.\<close>

lemma relink_removed:
  "linked_new h k v i ((removed i d)\<lparr>freeList := freeList d, freeCount := freeCount d, dcount := dcount d\<rparr>)
    = linked_new h k v i (unlinked i d)"
  by (rule Dict.equality) (simp_all add: linked_new_def Let_def removed_def upd_nnext_over upd_prev_over)

lemma relink_inv:
  fixes d :: "('k, 'v) Dict"
  assumes inv: "dict_inv H d" and e: "entry d i = Some (k, v)" and nk: "dict_map d k2 = None"
  shows "\<exists>d'. link_new (H k2) k2 v (int i) (unlinked i d) = Some d' \<and> dict_inv H d'
    \<and> dict_map d' = (dict_map d)(k := None, k2 \<mapsto> v) \<and> entry d' i = Some (k2, v)"
proof -
  obtain ch fl where s: "shape d" and ky: "keyed H d" and l: "linked d ch fl"
    using inv by (auto simp: dict_inv_def)
  let ?r = "removed i d" let ?u = "unlinked i d"
  note r = removed_ok [OF s ky l e]
  obtain ch' where l': "linked ?r ch' (i # fl)" using r(3) by blast
  have ct: "ctab (nat (bucketsLen ?r)) (nat (dcount ?r)) (bka (buckets ?r)) (nxa (nodes ?r)) (pva (items ?r)) (hba (bucketsLen ?r) (nodes ?r)) (int i) ch' (i # fl)"
    using l' by (simp add: linked_def)
  have fc: "freeCount d = int (length fl)" using l by (simp add: linked_def)
  have fl: "i \<in> set (i # fl) \<and> dcount ?r = dcount ?r \<or> int i = dcount ?r \<and> dcount ?r = dcount ?r + 1 \<and> dcount ?r < bucketsLen ?r"
    "flinks (nxa (nodes ?r)) fl (freeList d)" "set fl = set (i # fl) - {i}" "distinct fl"
    using ct r(5) by (auto simp: ctab_def)
  have m: "dict_map ?r = (dict_map d)(k := None)" by (rule dict_map_del [OF ky r(2,4) e])
  then have nk': "dict_map ?r k2 = None" using nk by simp
  note L = link_inv [OF r(1,2) l' nk' refl fl, of v]
  have eq: "linked_new (H k2) k2 v i (?r\<lparr>freeList := freeList d, freeCount := int (length fl), dcount := dcount ?r\<rparr>)
      = linked_new (H k2) k2 v i ?u"
    using relink_removed [of "H k2" k2 v i d] by (simp add: fc)
  have iu: "i \<in> set (ch (hba (bucketsLen d) (nodes d) i))" by (rule entry_in_chain [OF l e])
  have "link_new (H k2) k2 v (int i) ?u = Some (linked_new (H k2) k2 v i ?u)"
  proof (rule link_new_ok)
    show "ctab (nat (bucketsLen ?u)) (nat (dcount d)) (bka (buckets ?u)) (nxa (nodes ?r)) (pva (items ?r)) (hba (bucketsLen ?r) (nodes ?r)) (int i) ch' (i # fl)"
      using ct by simp
    show "i < length (nodes ?u)" "i < length (items ?u)" using entry_slot [OF s e] by (auto simp: ini_less)
  qed (use s unlink_ok(7-9) [OF s l iu] in \<open>auto simp: shape_def\<close>)
  then show ?thesis using L unfolding eq m by blast
qed

lemma rename_inv:
  fixes d :: "('k, 'v) Dict"
  assumes inv: "dict_inv H d" and e: "entry d i = Some (k, v)" and nk: "dict_map d k2 = None"
    and b: "unat (hsa (nodes d) i) mod nat (bucketsLen d) = unat (H k2) mod nat (bucketsLen d)"
  defines "d' \<equiv> d\<lparr>nodes := (nodes d)[i := Some ((the (nodes d ! i))\<lparr>hashCode := H k2\<rparr>)],
      items := (items d)[i := Some ((the (items d ! i))\<lparr>dkey := Some k2\<rparr>)]\<rparr>"
  shows "dict_inv H d'" "dict_map d' = (dict_map d)(k := None, k2 \<mapsto> v)" "entry d' i = Some (k2, v)"
proof -
  obtain ch fl where s: "shape d" and ky: "keyed H d" and l: "linked d ch fl"
    using inv by (auto simp: dict_inv_def)
  note es = entry_slot [OF s e]
  have f: "pva (items d') = pva (items d)" "nxa (nodes d') = nxa (nodes d)" "kva (items d') = (kva (items d))(i := (Some k2, Some v))"
    "hsa (nodes d') = (hsa (nodes d))(i := H k2)" "buckets d' = buckets d" "dcount d' = dcount d" "bucketsLen d' = bucketsLen d"
    "freeList d' = freeList d" "freeCount d' = freeCount d"
    using es by (auto simp: d'_def ini_less pva_def nxa_def)
  have hb: "hba (bucketsLen d) (nodes d') = hba (bucketsLen d) (nodes d)" using b by (auto simp: hba_def f(4))
  have ent: "entry d' = (entry d)(i := Some (k2, v))" using es(1,4) by (auto simp: entry_def fun_eq_iff f)
  have none: "entry d j \<noteq> Some (k2, w)" for j w using dict_map_None [OF ky] nk by blast
  have u: "x = y" if "entry d' x = Some (q, a)" "entry d' y = Some (q, c)" for x y q a c
    using that none ky unfolding ent keyed_def by (auto split: if_splits)
  have k': "keyed H d'"
    using ky u unfolding keyed_def by (auto simp: f)
  have "shape d'" using s es by (auto simp: shape_def f) (auto simp: d'_def ini_less)
  moreover have "linked d' ch fl" using l by (simp add: linked_def f hb)
  ultimately show "dict_inv H d'" using k' by (auto simp: dict_inv_def)
  show "entry d' i = Some (k2, v)" using ent by simp
  show "dict_map d' = (dict_map d)(k := None, k2 \<mapsto> v)"
  proof
    fix x
    have "dict_map d' x = Some w \<longleftrightarrow> ((dict_map d)(k := None, k2 \<mapsto> v)) x = Some w" for w
      using dict_map_iff [OF ky, of x w] dict_map_iff [OF k', of x w] e ky unfolding ent keyed_def
      by (cases "x = k2"; cases "x = k") (auto split: if_splits simp: none, (metis option.inject prod.inject)+)
    then show "dict_map d' x = ((dict_map d)(k := None, k2 \<mapsto> v)) x" by (metis not_Some_eq)
  qed
qed

lemma Dict_UpdateAt_ok:
  assumes inv: "dict_inv H d" and e: "entry d i = Some (k, v)" and nk: "dict_map d k2 = None"
  shows "\<exists>d'. Dict_UpdateAt H (int i) k2 d = Some (True, d') \<and> dict_inv H d'
    \<and> dict_map d' = (dict_map d)(k := None, k2 \<mapsto> v) \<and> entry d' i = Some (k2, v)"
proof -
  obtain ch fl where s: "shape d" and ky: "keyed H d" and l: "linked d ch fl"
    using inv by (auto simp: dict_inv_def)
  note es = entry_slot [OF s e]
  have ok: "index_ok d (int i) = Some True" using index_ok_iff [OF inv, of "int i"] e by simp
  have nd: "hashCode (the (nodes d ! i)) = hsa (nodes d) i" by (simp add: hsa_def)
  note start = Dict_UpdateAt_def ok nd es ini_less Let_def
  note rn = rename_inv [OF inv e nk]
  show ?thesis
  proof (cases "hsa (nodes d) i = H k2")
    case True
    then have "(nodes d)[i := Some ((the (nodes d ! i))\<lparr>hashCode := H k2\<rparr>)] = nodes d"
      using es(2) nd by (intro list_update_same_conv [THEN iffD2]) (auto simp: ini_def)
    then have "Dict_UpdateAt H (int i) k2 d = Some (True, d\<lparr>nodes := (nodes d)[i := Some ((the (nodes d ! i))\<lparr>hashCode := H k2\<rparr>)],
      items := (items d)[i := Some ((the (items d ! i))\<lparr>dkey := Some k2\<rparr>)]\<rparr>)"
      using True by (simp add: start)
    then show ?thesis using rn True by auto
  next
    case neq: False
    show ?thesis
    proof (cases "bucket_of d (hsa (nodes d) i) = bucket_of d (H k2)")
      case True
      then show ?thesis using rn neq by (auto simp: start bucket_of_def)
    next
      case False
      have "Dict_search d (H k2) k2 = Some (-1)"
        using Dict_search_ok [OF inv refl, of k2] dict_map_None [OF ky, of k2] nk by auto
      then show ?thesis
        using relink_inv [OF inv e nk] unlink_ok(1) [OF s l entry_in_chain [OF l e]] neq False by (auto simp: start)
    qed
  qed
qed

section \<open>A map store\<close>

definition dict_room :: "('k \<Rightarrow> u32) \<Rightarrow> int \<Rightarrow> nat \<Rightarrow> ('k, 'v) Dict \<Rightarrow> bool" where
  "dict_room H ds n d \<longleftrightarrow> dict_inv H d \<and> 0 < ds \<and> (\<forall>m>0. m < dcount d + int n \<longrightarrow> grows ds m)"

definition dict_put :: "('k \<Rightarrow> u32) \<Rightarrow> int \<Rightarrow> int option \<Rightarrow> 'k \<Rightarrow> 'v \<Rightarrow> ('k, 'v) Dict \<Rightarrow> ('k, 'v) Dict option" where
  "dict_put H ds mv k v d = map_option snd (Dict_Add H ds mv k v True d)"

lemma dict_put_ok:
  assumes "dict_room H ds (Suc n) d"
  shows "\<exists>d'. dict_put H ds mv k v d = Some d' \<and> dict_room H ds n d' \<and> dict_map d' = (dict_map d)(k \<mapsto> v)"
proof -
  have i: "dict_inv H d" "0 < ds" and g: "\<forall>m>0. m < dcount d + int (Suc n) \<longrightarrow> grows ds m" using assms by (auto simp: dict_room_def)
  have "dcount d = bucketsLen d \<and> freeCount d = 0 \<longrightarrow> grows ds (dcount d)" using g i(1) by (auto simp: dict_inv_def shape_def)
  note A = Dict_Add_ok [OF i this, where k = k and mv = mv and v = v and ov = True]
  obtain r d' where d': "Dict_Add H ds mv k v True d = Some (r, d')" "dict_inv H d'" "dict_map d' = (dict_map d)(k \<mapsto> v)"
    "dcount d' \<le> dcount d + 1"
    using A by (cases "dict_map d k") auto
  moreover have "dict_room H ds n d'" using d'(2,4) g i(2) by (auto simp: dict_room_def)
  ultimately show ?thesis by (auto simp: dict_put_def)
qed

interpretation dm: map_store "dict_room H ds" dict_map "dict_put H ds mv" "Dict_Remove H" Dict_Clear "Dict_TryGetValue H"
proof
  fix n d k v
  show "\<exists>d'. dict_put H ds mv k v d = Some d' \<and> dict_room H ds n d' \<and> dict_map d' = (dict_map d)(k \<mapsto> v)" if "dict_room H ds (Suc n) d"
    by (rule dict_put_ok [OF that])
  show "\<exists>d'. Dict_Remove H k d = Some d' \<and> dict_room H ds n d' \<and> dict_map d' = (dict_map d)(k := None)" if "dict_room H ds n d"
    using that Dict_Remove_ok [of H d k] by (fastforce simp: dict_room_def)
  show "\<exists>d'. Dict_Clear d = Some d' \<and> dict_room H ds n d' \<and> dict_map d' = Map.empty" if "dict_room H ds n d"
    using that Dict_Clear_ok [of H d] by (fastforce simp: dict_room_def dict_inv_def shape_def)
  show "Dict_TryGetValue H k d = Some (dict_map d k)" if "dict_room H ds n d"
    using that Dict_TryGetValue_ok [of H d k] by (simp add: dict_room_def)
qed (auto simp: dict_room_def)

section \<open>Properties\<close>

text \<open>
  C34: A new \<^verbatim>\<open>Dict\<close> behaves as a finite map. After any sequence of \<^verbatim>\<open>Add\<close> with \<^verbatim>\<open>override\<close>, \<^verbatim>\<open>Remove\<close> and
  \<^verbatim>\<open>Clear\<close> in which every growth the sequence may need gives room, no operation faults,
  \<^verbatim>\<open>TryGetValue\<close> answers as the map does, and \<^verbatim>\<open>Count\<close> is the number of its keys.
\<close>

theorem dict_refines_map:
  assumes "Dict_new ds c = Some d" "0 < c" "0 < ds" "\<forall>m\<in>{1..<length ops}. grows ds (int m)"
  shows "\<exists>d'. run_ops (dict_put H ds mv) (Dict_Remove H) Dict_Clear ops d = Some d'
    \<and> (\<forall>k. Dict_TryGetValue H k d' = Some (map_ops ops Map.empty k))
    \<and> Dict_Count d' = int (card (dom (map_ops ops Map.empty)))"
proof -
  note new = Dict_new_ok [OF assms(1-3)]
  have "grows ds m" if "0 < m" "m < int (length ops)" for m
    using assms(4) that by (auto dest!: bspec [of _ _ "nat m"])
  then have "dict_room H ds (length ops) d" using new assms(3) by (simp add: dict_room_def)
  from dm.run [OF this] obtain d' where d': "run_ops (dict_put H ds mv) (Dict_Remove H) Dict_Clear ops d = Some d'"
    "dict_room H ds 0 d'" "dict_map d' = map_ops ops Map.empty" using new(2) by auto
  then show ?thesis using dm.get [OF d'(2)] Dict_Count_ok [of H d'] by (auto simp: dict_room_def)
qed

theorem dict_refines_map_witness:
  "let ops = [Put 3 True, Put 10 False, Del 3, Put 10 True]; d = the (Dict_new 16 2) in
   \<exists>d'. run_ops (dict_put HashFunc_4 16 None) (Dict_Remove HashFunc_4) Dict_Clear ops d = Some d'
    \<and> Dict_TryGetValue HashFunc_4 10 d' = Some (Some True) \<and> Dict_TryGetValue HashFunc_4 3 d' = Some None"
proof -
  have "Dict_new 16 2 = Some (the (Dict_new 16 2 :: (u32, bool) Dict option))" "grows 16 1" "grows 16 2" "grows 16 3"
    by code_simp+
  then have "Dict_new 16 2 = Some (the (Dict_new 16 2 :: (u32, bool) Dict option))"
    "\<forall>m\<in>{1..<length [Put (3 :: u32) True, Put 10 False, Del 3, Put 10 True]}. grows 16 (int m)"
    by (auto simp: atLeastLessThanSuc)
  from dict_refines_map [OF this(1) _ _ this(2), of HashFunc_4 None] show ?thesis
    by (auto simp: Let_def)
qed

text \<open>
  The growth of \<^verbatim>\<open>Dict\<close> overruns its arrays for some element sizes. \<^verbatim>\<open>GetPrime\<close> answers a request
  for 14 slots of 36 bytes with the prime 7, so that a full table of 7 entries is \<open>grown\<close> to 7 slots
  and the next \<^verbatim>\<open>Add\<close> writes behind the end of the node array.
\<close>

theorem dict_growth_overrun:
  "GetPrime 14 36 = Some 7
   \<and> (\<exists>d d'. Dict_new 36 14 = Some d
      \<and> run_ops (dict_put HashFunc_4 36 None) (Dict_Remove HashFunc_4) Dict_Clear (map (\<lambda>i. Put (of_nat i) ()) [0..<7]) d = Some d'
      \<and> Dict_Add HashFunc_4 36 None 7 () True d' = None)"
proof -
  let ?d = "the (Dict_new 36 14) :: (u32, unit) Dict"
  let ?d' = "the (run_ops (dict_put HashFunc_4 36 None) (Dict_Remove HashFunc_4) Dict_Clear (map (\<lambda>i. Put (of_nat i) ()) [0..<7]) ?d)"
  have "GetPrime 14 36 = Some 7" by code_simp
  moreover have "Dict_new 36 14 = Some ?d" by code_simp
  moreover have "run_ops (dict_put HashFunc_4 36 None) (Dict_Remove HashFunc_4) Dict_Clear (map (\<lambda>i. Put (of_nat i) ()) [0..<7]) ?d = Some ?d'"
    by code_simp
  moreover have "Dict_Add HashFunc_4 36 None 7 () True ?d' = None" by code_simp
  ultimately show ?thesis by blast
qed

text \<open>
  \<^verbatim>\<open>Dict::UpdateAt\<close> renames the key of an entry: when the new key is not in the table, the entry
  stays in its slot with its value, every other entry is untouched, and the representation is kept.
\<close>

theorem dict_UpdateAt_renames:
  assumes "dict_inv H d" "entry d i = Some (k, v)" "dict_map d newKey = None"
  shows "\<exists>d'. Dict_UpdateAt H (int i) newKey d = Some (True, d') \<and> dict_inv H d' \<and> entry d' i = Some (newKey, v)
    \<and> dict_map d' = (dict_map d)(k := None, newKey \<mapsto> v) \<and> Dict_TryGetValue H newKey d' = Some (Some v)"
  using Dict_UpdateAt_ok [OF assms] Dict_TryGetValue_ok [of H] by fastforce

theorem dict_UpdateAt_renames_witness:
  "let d = the (run_ops (dict_put HashFunc_4 16 None) (Dict_Remove HashFunc_4) Dict_Clear [Put 3 True, Put 10 False] (the (Dict_new 16 2)))
   in \<exists>d'. Dict_UpdateAt HashFunc_4 0 5 d = Some (True, d') \<and> Dict_TryGetValue HashFunc_4 5 d' = Some (Some True)
      \<and> dict_map d' 3 = None"
proof -
  define d where "d = the (run_ops (dict_put HashFunc_4 16 None) (Dict_Remove HashFunc_4) Dict_Clear
    [Put 3 True, Put 10 False] (the (Dict_new 16 2 :: (u32, bool) Dict option)))"
  have n: "Dict_new 16 2 = Some (the (Dict_new 16 2 :: (u32, bool) Dict option))" "grows 16 1" by code_simp+
  have "grows 16 m" if "0 < m" "m < int (length [Put (3 :: u32) True, Put 10 False])" for m
  proof -
    have "m = 1" using that by simp
    then show ?thesis using n(2) by simp
  qed
  then have "dict_room HashFunc_4 16 (length [Put (3 :: u32) True, Put 10 False]) (the (Dict_new 16 2 :: (u32, bool) Dict option))"
    using Dict_new_ok(1) [OF n(1), of HashFunc_4] Dict_new_ok(3) [OF n(1)] by (simp add: dict_room_def)
  from dm.run [OF this, of None] have "dict_inv HashFunc_4 d" by (auto simp: dict_room_def d_def)
  moreover have "entry d (nat 0) = Some (3, True)" "dict_map d 5 = None" unfolding d_def by code_simp+
  ultimately show ?thesis
    using dict_UpdateAt_renames [of HashFunc_4 d "nat 0" 3 True 5] unfolding Let_def d_def [symmetric] by auto
qed

text \<open>
  \<^verbatim>\<open>Dict::UpdateAt\<close> does not look for the new key when it falls into the bucket of the old one: the
  table then holds the key twice, and only one of the two values can be found.
\<close>

theorem dict_UpdateAt_duplicates:
  "let d = the (run_ops (dict_put HashFunc_4 16 None) (Dict_Remove HashFunc_4) Dict_Clear [Put 1 True, Put 4 False]
        (the (Dict_new 16 4)));
       r = the (Dict_UpdateAt HashFunc_4 0 4 d)
   in fst r \<and> Dict_KeyAt (snd r) 0 = Some 4 \<and> Dict_KeyAt (snd r) 1 = Some 4
      \<and> Dict_ValueAt (snd r) 0 = Some True \<and> Dict_ValueAt (snd r) 1 = Some False \<and> Dict_Count (snd r) = 2"
  by code_simp

text \<open>
  \<^verbatim>\<open>Dict::Reserve\<close> links every slot below \<^verbatim>\<open>count\<close> again, the free ones too: called on a full table
  from which an entry was removed, it turns the removed entry into one that seems to exist and whose
  destroyed key the next search reads.
\<close>

theorem dict_Reserve_revives_removed:
  "let d = the (run_ops (dict_put HashFunc_4 16 None) (Dict_Remove HashFunc_4) Dict_Clear
        [Put 0 True, Put 1 True, Put 2 True, Del 1] (the (Dict_new 16 4)));
       d' = the (Dict_Reserve 16 None 8 d)
   in dcount d = bucketsLen d \<and> Dict_IndexExists d 1 = Some False \<and> Dict_TryGetValue HashFunc_4 1 d = Some None
      \<and> Dict_Reserve 16 None 8 d = Some d' \<and> Dict_IndexExists d' 1 = Some True \<and> Dict_TryGetValue HashFunc_4 1 d' = None"
  by code_simp

end
