(* ===== verification/HashSets.thy ===== *)
theory HashSets
  imports DictInv
begin

text \<open>
  The class \<^verbatim>\<open>HashSet<TK>\<close> of \<^verbatim>\<open>test_uv_4/xx_hashset.h\<close> and \<^verbatim>\<open>xx_hashset.hpp\<close>: the same chained table as
  \<^verbatim>\<open>Dict\<close>, with one array of nodes that hold hash code, key and both links. The parameters are those
  of the model of \<^verbatim>\<open>Dict\<close>: \<open>H\<close> the hash function, \<open>ds\<close> the \<^verbatim>\<open>sizeof(Node)\<close>, \<open>mv\<close> is \<open>None\<close> for a trivial
  key type and \<open>Some junk\<close> otherwise, where \<open>junk\<close> is what fresh memory holds in the fields that nobody
  wrote. \<open>as_dict\<close> reads a set as a \<^verbatim>\<open>Dict\<close> with values of the unit type, and every operation is the
  operation of \<^verbatim>\<open>Dict\<close> on that reading.
\<close>

section \<open>The class\<close>

record 'k HNode =
  shash :: u32
  snext :: int
  skey :: "'k option"
  sprev :: int

record 'k HashSet =
  sfreeList :: int
  sfreeCount :: int
  scount :: int
  sbucketsLen :: int
  sbuckets :: "int option list"
  snodes :: "'k HNode option list"

definition sbucket_of :: "'k HashSet \<Rightarrow> u32 \<Rightarrow> int" where
  "sbucket_of s h = int (unat h mod nat (sbucketsLen s))"

definition set_sprev :: "int \<Rightarrow> int \<Rightarrow> 'k HNode option list \<Rightarrow> 'k HNode option list option" where
  "set_sprev i v ns = do { nd \<leftarrow> rd ns i; wr ns i (nd\<lparr>sprev := v\<rparr>) }"

definition set_snext :: "int \<Rightarrow> int \<Rightarrow> 'k HNode option list \<Rightarrow> 'k HNode option list option" where
  "set_snext i v ns = do { nd \<leftarrow> rd ns i; wr ns i (nd\<lparr>snext := v\<rparr>) }"

definition HashSet_new :: "int \<Rightarrow> int \<Rightarrow> 'k HashSet option" where
  "HashSet_new ds capacity = do {
     B \<leftarrow> GetPrime capacity ds;
     Some \<lparr>sfreeList = -1, sfreeCount = 0, scount = 0, sbucketsLen = B,
       sbuckets = replicate (nat B) (Some (-1)), snodes = replicate (nat B) None\<rparr> }"

text \<open>The search loop of \<^verbatim>\<open>Add\<close>, \<^verbatim>\<open>Exists\<close> and \<^verbatim>\<open>Remove\<close>.\<close>

primrec set_loop :: "'k HashSet \<Rightarrow> u32 \<Rightarrow> 'k \<Rightarrow> nat \<Rightarrow> int \<Rightarrow> int option" where
  "set_loop s h k 0 i = None"
| "set_loop s h k (Suc n) i =
     (if i < 0 then Some (-1)
      else do {
        nd \<leftarrow> rd (snodes s) i;
        found \<leftarrow> (if shash nd = h then do { key \<leftarrow> skey nd; Some (key = k) } else Some False);
        if found then Some i else set_loop s h k n (snext nd) })"

definition HashSet_search :: "'k HashSet \<Rightarrow> u32 \<Rightarrow> 'k \<Rightarrow> int option" where
  "HashSet_search s h k = do {
     i \<leftarrow> rd (sbuckets s) (sbucket_of s h);
     set_loop s h k (Suc (length (snodes s))) i }"

definition HashSet_Exists :: "('k \<Rightarrow> u32) \<Rightarrow> 'k \<Rightarrow> 'k HashSet \<Rightarrow> bool option" where
  "HashSet_Exists H k s = do { i \<leftarrow> HashSet_search s (H k) k; Some (i \<ge> 0) }"

text \<open>
  \<^verbatim>\<open>Reserve\<close>: for a key type that is not trivial, the loop moves the keys into the new array and
  nothing else; the other fields of the new nodes are what the memory held.
\<close>

primrec move_keys :: "'k HNode \<Rightarrow> nat \<Rightarrow> nat \<Rightarrow> 'k HNode option list \<Rightarrow> 'k HNode option list \<Rightarrow> 'k HNode option list option" where
  "move_keys junk 0 i old new = Some new"
| "move_keys junk (Suc n) i old new = do {
     nd \<leftarrow> rd old (int i);
     k \<leftarrow> skey nd;
     new \<leftarrow> wr new (int i) (junk\<lparr>skey := Some k\<rparr>);
     move_keys junk n (Suc i) old new }"

primrec set_rehash :: "nat \<Rightarrow> int \<Rightarrow> 'k HashSet \<Rightarrow> 'k HashSet option" where
  "set_rehash 0 i s = Some s"
| "set_rehash (Suc n) i s = do {
     nd \<leftarrow> rd (snodes s) i;
     let index = sbucket_of s (shash nd);
     b \<leftarrow> rd (sbuckets s) index;
     ns \<leftarrow> (if b \<ge> 0 then set_sprev b i (snodes s) else Some (snodes s));
     ns \<leftarrow> set_sprev i (-1) ns;
     ns \<leftarrow> set_snext i b ns;
     bks \<leftarrow> wr (sbuckets s) index i;
     set_rehash n (i + 1) (s\<lparr>snodes := ns, sbuckets := bks\<rparr>) }"

definition HashSet_Reserve :: "int \<Rightarrow> 'k HNode option \<Rightarrow> int \<Rightarrow> 'k HashSet \<Rightarrow> 'k HashSet option" where
  "HashSet_Reserve ds mv capacity s =
     (if \<not> (scount s = 0 \<or> scount s = sbucketsLen s) then None
      else do {
        capacity \<leftarrow> (if capacity = 0 then i32 (scount s * 2) else Some capacity);
        if capacity \<le> sbucketsLen s then Some s
        else do {
          B \<leftarrow> GetPrime capacity ds;
          ns \<leftarrow> (case mv of None \<Rightarrow> Some (realloc B (snodes s))
            | Some junk \<Rightarrow> move_keys junk (nat (scount s)) 0 (snodes s) (replicate (nat B) None));
          set_rehash (nat (scount s)) 0 (s\<lparr>sbucketsLen := B, sbuckets := replicate (nat B) (Some (-1)), snodes := ns\<rparr>) } })"

definition set_slot :: "int \<Rightarrow> 'k HNode option \<Rightarrow> 'k HashSet \<Rightarrow> (int \<times> 'k HashSet) option" where
  "set_slot ds mv s =
     (if sfreeCount s > 0 then do {
        nd \<leftarrow> rd (snodes s) (sfreeList s);
        Some (sfreeList s, s\<lparr>sfreeList := snext nd, sfreeCount := sfreeCount s - 1\<rparr>) }
      else do {
        s \<leftarrow> (if scount s = sbucketsLen s then HashSet_Reserve ds mv 0 s else Some s);
        Some (scount s, s\<lparr>scount := scount s + 1\<rparr>) })"

definition set_link :: "u32 \<Rightarrow> 'k \<Rightarrow> int \<Rightarrow> 'k HashSet \<Rightarrow> 'k HashSet option" where
  "set_link h k index s = do {
     let tb = sbucket_of s h;
     b \<leftarrow> rd (sbuckets s) tb;
     ns \<leftarrow> (if b \<ge> 0 then set_sprev b index (snodes s) else Some (snodes s));
     bks \<leftarrow> wr (sbuckets s) tb index;
     ns \<leftarrow> wr ns index \<lparr>shash = h, snext = b, skey = Some k, sprev = -1\<rparr>;
     Some (s\<lparr>snodes := ns, sbuckets := bks\<rparr>) }"

definition HashSet_Add :: "('k \<Rightarrow> u32) \<Rightarrow> int \<Rightarrow> 'k HNode option \<Rightarrow> 'k \<Rightarrow> 'k HashSet \<Rightarrow> (bool \<times> 'k HashSet) option" where
  "HashSet_Add H ds mv k s =
     (if sbucketsLen s = 0 then None
      else do {
        i \<leftarrow> HashSet_search s (H k) k;
        if i \<ge> 0 then Some (False, s)
        else do {
          (index, s) \<leftarrow> set_slot ds mv s;
          s \<leftarrow> set_link (H k) k index s;
          Some (True, s) } })"

definition HashSet_Remove :: "('k \<Rightarrow> u32) \<Rightarrow> 'k \<Rightarrow> 'k HashSet \<Rightarrow> (bool \<times> 'k HashSet) option" where
  "HashSet_Remove H k s = do {
     i \<leftarrow> HashSet_search s (H k) k;
     if i < 0 then Some (False, s)
     else do {
       nd \<leftarrow> rd (snodes s) i;
       s \<leftarrow> (if sprev nd < 0 then do {
              bks \<leftarrow> wr (sbuckets s) (sbucket_of s (shash nd)) (snext nd);
              Some (s\<lparr>sbuckets := bks\<rparr>) }
            else do {
              ns \<leftarrow> set_snext (sprev nd) (snext nd) (snodes s);
              Some (s\<lparr>snodes := ns\<rparr>) });
       nd \<leftarrow> rd (snodes s) i;
       s \<leftarrow> (if snext nd \<ge> 0 then do {
              ns \<leftarrow> set_sprev (snext nd) (sprev nd) (snodes s);
              Some (s\<lparr>snodes := ns\<rparr>) }
            else Some s);
       ns \<leftarrow> set_snext i (sfreeList s) (snodes s);
       nd \<leftarrow> rd ns i;
       k \<leftarrow> skey nd;
       ns \<leftarrow> wr ns i (nd\<lparr>skey := None, sprev := -2\<rparr>);
       Some (True, s\<lparr>snodes := ns, sfreeList := i, sfreeCount := sfreeCount s + 1\<rparr>) } }"

primrec DeleteKs_loop :: "nat \<Rightarrow> nat \<Rightarrow> 'k HNode option list \<Rightarrow> 'k HNode option list option" where
  "DeleteKs_loop 0 i ns = Some ns"
| "DeleteKs_loop (Suc n) i ns = do {
     nd \<leftarrow> rd ns (int i);
     ns \<leftarrow> (if sprev nd \<noteq> -2 then do { k \<leftarrow> skey nd; wr ns (int i) (nd\<lparr>skey := None, sprev := -2\<rparr>) } else Some ns);
     DeleteKs_loop n (Suc i) ns }"

definition DeleteKs :: "'k HashSet \<Rightarrow> 'k HashSet option" where
  "DeleteKs s = do { ns \<leftarrow> DeleteKs_loop (nat (scount s)) 0 (snodes s); Some (s\<lparr>snodes := ns\<rparr>) }"

definition HashSet_destroy :: "'k HashSet \<Rightarrow> 'k HashSet option" where
  "HashSet_destroy s = do { s \<leftarrow> DeleteKs s; Some (s\<lparr>sbuckets := [], snodes := []\<rparr>) }"

definition HashSet_Clear :: "'k HashSet \<Rightarrow> 'k HashSet option" where
  "HashSet_Clear s = (if scount s = 0 then Some s
     else do {
       s \<leftarrow> DeleteKs s;
       Some (s\<lparr>sbuckets := replicate (nat (sbucketsLen s)) (Some (-1)), sfreeList := -1, sfreeCount := 0, scount := 0\<rparr>) })"

definition HashSet_Count :: "'k HashSet \<Rightarrow> int option" where
  "HashSet_Count s = (if scount s \<ge> sfreeCount s then Some (scount s - sfreeCount s) else None)"

definition HashSet_Empty :: "'k HashSet \<Rightarrow> bool option" where
  "HashSet_Empty s = do { n \<leftarrow> HashSet_Count s; Some (n = 0) }"

text \<open>The iterator: the slots \<^verbatim>\<open>for (auto& c : set)\<close> visits, from slot \<open>i\<close> on.\<close>

primrec set_iter_from :: "nat \<Rightarrow> nat \<Rightarrow> 'k HNode option list \<Rightarrow> nat list option" where
  "set_iter_from 0 i ns = Some []"
| "set_iter_from (Suc n) i ns = do {
     nd \<leftarrow> rd ns (int i);
     is \<leftarrow> set_iter_from n (Suc i) ns;
     Some (if sprev nd \<noteq> -2 then i # is else is) }"

definition HashSet_iter :: "'k HashSet \<Rightarrow> nat list option" where
  "HashSet_iter s = (if scount s = sfreeCount s then Some [] else set_iter_from (nat (scount s)) 0 (snodes s))"

section \<open>A set is a dictionary of units\<close>

definition nview :: "'k HNode \<Rightarrow> DNode" where
  "nview nd = \<lparr>hashCode = shash nd, nnext = snext nd\<rparr>"

definition iview :: "'k HNode \<Rightarrow> ('k, unit) Data" where
  "iview nd = \<lparr>dkey = skey nd, dvalue = map_option (\<lambda>_. ()) (skey nd), dprev = sprev nd\<rparr>"

definition as_dict :: "'k HashSet \<Rightarrow> ('k, unit) Dict" where
  "as_dict s = \<lparr>freeList = sfreeList s, freeCount = sfreeCount s, dcount = scount s, bucketsLen = sbucketsLen s,
     buckets = sbuckets s, nodes = map (map_option nview) (snodes s), items = map (map_option iview) (snodes s)\<rparr>"

lemma as_dict_sel [simp]:
  "freeList (as_dict s) = sfreeList s" "freeCount (as_dict s) = sfreeCount s" "dcount (as_dict s) = scount s"
  "bucketsLen (as_dict s) = sbucketsLen s" "buckets (as_dict s) = sbuckets s"
  "nodes (as_dict s) = map (map_option nview) (snodes s)" "items (as_dict s) = map (map_option iview) (snodes s)"
  "bucket_of (as_dict s) h = sbucket_of s h"
  by (simp_all add: as_dict_def bucket_of_def sbucket_of_def)

lemma view_sel [simp]:
  "hashCode (nview nd) = shash nd" "nnext (nview nd) = snext nd" "dkey (iview nd) = skey nd"
  "dvalue (iview nd) = map_option (\<lambda>_. ()) (skey nd)" "dprev (iview nd) = sprev nd"
  by (simp_all add: nview_def iview_def)

lemma rd_map [simp]: "rd (map (map_option f) m) i = map_option f (rd m i)"
  by (simp add: rd_def)

lemma wr_map: "wr (map (map_option f) m) i (f x) = map_option (map (map_option f)) (wr m i x)"
  by (simp add: wr_def map_update)

lemma wr_Some_iff: "wr m i x = Some m' \<longleftrightarrow> 0 \<le> i \<and> nat i < length m \<and> m' = m[nat i := Some x]"
  by (auto simp: wr_def)

lemma rd_Some_iff: "rd m i = Some x \<longleftrightarrow> 0 \<le> i \<and> nat i < length m \<and> m ! nat i = Some x"
  by (auto simp: rd_def)

lemma map_write_same:
  "rd m i = Some x \<Longrightarrow> f y = f x \<Longrightarrow> map (map_option f) (m[nat i := Some y]) = map (map_option f) m"
  by (simp add: rd_Some_iff map_update list_update_same_conv)


lemma view_upd [simp]:
  "(iview nd)\<lparr>dprev := v\<rparr> = iview (nd\<lparr>sprev := v\<rparr>)" "(nview nd)\<lparr>nnext := v\<rparr> = nview (nd\<lparr>snext := v\<rparr>)"
  by (simp_all add: iview_def nview_def)

lemma as_dict_upd [simp]:
  "(as_dict s)\<lparr>buckets := bs, items := map (map_option iview) ns, nodes := map (map_option nview) ns\<rparr> = as_dict (s\<lparr>sbuckets := bs, snodes := ns\<rparr>)"
  "(as_dict s)\<lparr>buckets := bs\<rparr> = as_dict (s\<lparr>sbuckets := bs\<rparr>)"
  "(as_dict s)\<lparr>freeList := a, freeCount := b\<rparr> = as_dict (s\<lparr>sfreeList := a, sfreeCount := b\<rparr>)"
  "(as_dict s)\<lparr>dcount := c\<rparr> = as_dict (s\<lparr>scount := c\<rparr>)"
  by (simp_all add: as_dict_def)

lemma set_sprev_items: "set_dprev i v (map (map_option iview) ns) = map_option (map (map_option iview)) (set_sprev i v ns)"
  by (cases "rd ns i") (simp_all add: set_dprev_def set_sprev_def wr_map)

lemma set_sprev_nodes:
  assumes "set_sprev i v ns = Some ns'"
  shows "map (map_option nview) ns' = map (map_option nview) ns" "length ns' = length ns"
  using assms by (auto simp: set_sprev_def wr_Some_iff nview_def intro!: map_write_same split: Option.bind_splits)

lemma set_snext_nodes: "set_nnext i v (map (map_option nview) ns) = map_option (map (map_option nview)) (set_snext i v ns)"
  by (cases "rd ns i") (simp_all add: set_nnext_def set_snext_def wr_map)

lemma set_snext_items:
  assumes "set_snext i v ns = Some ns'"
  shows "map (map_option iview) ns' = map (map_option iview) ns" "length ns' = length ns"
  using assms by (auto simp: set_snext_def wr_Some_iff iview_def intro!: map_write_same split: Option.bind_splits)

lemma set_loop_sim: "find_loop (as_dict s) h k n i = set_loop s h k n i"
  by (induction n arbitrary: i) (auto split: Option.bind_splits)

lemma HashSet_search_sim: "Dict_search (as_dict s) h k = HashSet_search s h k"
  unfolding Dict_search_def HashSet_search_def set_loop_sim by simp

lemma as_dict_eq:
  assumes "map (map_option nview) ns = N" "map (map_option iview) ns = I"
  shows "as_dict (s\<lparr>snodes := ns, sbuckets := bs\<rparr>) = (as_dict s)\<lparr>nodes := N, items := I, buckets := bs\<rparr>"
  using assms by (auto simp: as_dict_def)

lemma set_link_sim: "map_option as_dict (set_link h k index s) = link_new h k () index (as_dict s)"
proof (cases "rd (sbuckets s) (sbucket_of s h)")
  case (Some b)
  let ?nd = "\<lparr>shash = h, snext = b, skey = Some k, sprev = -1\<rparr>"
  have n: "\<lparr>hashCode = h, nnext = b\<rparr> = nview ?nd" by (simp add: nview_def)
  have i: "\<lparr>dkey = Some k, dvalue = Some (), dprev = -1\<rparr> = iview ?nd" by (simp add: iview_def)
  define r where "r = (if b \<ge> 0 then set_sprev b index (snodes s) else Some (snodes s))"
  have it: "(if b \<ge> 0 then set_dprev b index (items (as_dict s)) else Some (items (as_dict s))) = map_option (map (map_option iview)) r"
    by (simp add: r_def set_sprev_items)
  show ?thesis
  proof (cases r)
    case None
    then show ?thesis using Some it by (cases "wr (nodes (as_dict s)) index (nview ?nd)") (simp_all add: set_link_def link_new_def n r_def [symmetric] del: as_dict_sel(6,7))
  next
    case (Some ns)
    have ns: "map (map_option nview) ns = map (map_option nview) (snodes s)" "length ns = length (snodes s)"
      using Some set_sprev_nodes by (auto simp: r_def split: if_splits)
    show ?thesis
    proof (cases "wr ns index ?nd")
      case None
      then have "wr (snodes s) index ?nd = None" using ns(2) by (simp add: wr_def split: if_splits)
      then show ?thesis using None Some \<open>rd _ _ = _\<close> by (simp add: set_link_def link_new_def n r_def [symmetric] wr_map)
    next
      case (Some ns')
      have "map_option (map (map_option nview)) (wr (snodes s) index ?nd) = Some (map (map_option nview) ns')"
        using Some ns by (auto simp: wr_def map_update split: if_splits)
      then show ?thesis
        using Some \<open>r = Some ns\<close> \<open>rd _ _ = _\<close> it
        by (auto simp: set_link_def link_new_def n i r_def [symmetric] wr_map as_dict_eq split: Option.bind_splits)
    qed
  qed
qed (simp add: set_link_def link_new_def)

lemma wr_snext:
  assumes "rd ns i = Some nd" "map (map_option nview) ns2 = map (map_option nview) ns"
  shows "wr (map (map_option nview) ns) i (nview (nd\<lparr>snext := b\<rparr>)) = map_option (map (map_option nview)) (set_snext i b ns2)"
proof -
  have "wr (map (map_option nview) ns) i (nview (nd\<lparr>snext := b\<rparr>)) = set_nnext i b (map (map_option nview) ns)"
    using assms(1) by (simp add: set_nnext_def)
  then show ?thesis by (simp only: assms(2) [symmetric] set_snext_nodes)
qed

lemma set_rehash_step:
  assumes "rd (snodes s) i = Some nd" "rd (sbuckets s) (sbucket_of s (shash nd)) = Some b"
  shows "do { its \<leftarrow> (if b \<ge> 0 then set_dprev b i (items (as_dict s)) else Some (items (as_dict s)));
      its \<leftarrow> set_dprev i (-1) its;
      ns \<leftarrow> wr (nodes (as_dict s)) i ((nview nd)\<lparr>nnext := b\<rparr>);
      bks \<leftarrow> wr (sbuckets s) (sbucket_of s (shash nd)) i;
      Some ((as_dict s)\<lparr>items := its, nodes := ns, buckets := bks\<rparr>) }
    = map_option as_dict (do {
      ns \<leftarrow> (if b \<ge> 0 then set_sprev b i (snodes s) else Some (snodes s));
      ns \<leftarrow> set_sprev i (-1) ns;
      ns \<leftarrow> set_snext i b ns;
      bks \<leftarrow> wr (sbuckets s) (sbucket_of s (shash nd)) i;
      Some (s\<lparr>snodes := ns, sbuckets := bks\<rparr>) })"
proof -
  define r where "r = (if b \<ge> 0 then set_sprev b i (snodes s) else Some (snodes s))"
  have it: "(if b \<ge> 0 then set_dprev b i (items (as_dict s)) else Some (items (as_dict s))) = map_option (map (map_option iview)) r"
    by (simp add: r_def set_sprev_items)
  show ?thesis
  proof (cases "r \<bind> set_sprev i (-1)")
    case None
    then show ?thesis unfolding it r_def [symmetric] by (cases r) (simp_all add: set_sprev_items)
  next
    case (Some ns2)
    then obtain ns1 where ns1: "r = Some ns1" "set_sprev i (-1) ns1 = Some ns2" by (cases r) auto
    have "map (map_option nview) ns1 = map (map_option nview) (snodes s)"
      using ns1(1) set_sprev_nodes by (auto simp: r_def split: if_splits)
    then have m: "map (map_option nview) ns2 = map (map_option nview) (snodes s)" using set_sprev_nodes(1) [OF ns1(2)] by simp
    show ?thesis
    proof (cases "set_snext i b ns2")
      case None
      then show ?thesis unfolding it r_def [symmetric]
        using ns1 wr_snext [OF assms(1) m, of b] by (simp add: set_sprev_items)
    next
      case (Some ns3)
      then show ?thesis unfolding it r_def [symmetric]
        using ns1 wr_snext [OF assms(1) m, of b] set_snext_items(1) [OF Some]
        by (cases "wr (sbuckets s) (sbucket_of s (shash nd)) i") (simp_all add: set_sprev_items as_dict_def)
    qed
  qed
qed

lemma set_rehash_sim: "rehash n i (as_dict s) = map_option as_dict (set_rehash n i s)"
proof (induction n arbitrary: i s)
  case (Suc n)
  show ?case
  proof (cases "rd (snodes s) i")
    case nd: (Some nd)
    show ?thesis
    proof (cases "rd (sbuckets s) (sbucket_of s (shash nd))")
      case (Some b)
      let ?d = "do { its \<leftarrow> (if b \<ge> 0 then set_dprev b i (items (as_dict s)) else Some (items (as_dict s)));
        its \<leftarrow> set_dprev i (-1) its;
        ns \<leftarrow> wr (nodes (as_dict s)) i ((nview nd)\<lparr>nnext := b\<rparr>);
        bks \<leftarrow> wr (sbuckets s) (sbucket_of s (shash nd)) i;
        Some ((as_dict s)\<lparr>items := its, nodes := ns, buckets := bks\<rparr>) }"
      let ?s = "do { ns \<leftarrow> (if b \<ge> 0 then set_sprev b i (snodes s) else Some (snodes s));
        ns \<leftarrow> set_sprev i (-1) ns;
        ns \<leftarrow> set_snext i b ns;
        bks \<leftarrow> wr (sbuckets s) (sbucket_of s (shash nd)) i;
        Some (s\<lparr>snodes := ns, sbuckets := bks\<rparr>) }"
      have "rehash (Suc n) i (as_dict s) = ?d \<bind> rehash n (i + 1)"
        using nd Some by (simp add: Let_def)
      also have "\<dots> = ?s \<bind> (\<lambda>s. rehash n (i + 1) (as_dict s))"
        unfolding set_rehash_step [OF nd Some] by (simp add: bind_map_option comp_def del: bind_assoc)
      also have "\<dots> = map_option as_dict (?s \<bind> set_rehash n (i + 1))"
        by (simp only: Suc.IH map_option_bind comp_def)
      also have "?s \<bind> set_rehash n (i + 1) = set_rehash (Suc n) i s"
        using nd Some by (simp add: Let_def)
      finally show ?thesis .
    qed (use nd in simp)
  qed simp
qed simp

lemma realloc_map: "realloc B (map (map_option f) m) = map (map_option f) (realloc B m)"
  by (simp add: realloc_def map_replicate_const)

lemma HashSet_Reserve_sim: "map_option as_dict (HashSet_Reserve ds None c s) = Dict_Reserve ds None c (as_dict s)"
proof -
  have "as_dict (s\<lparr>sbucketsLen := B, sbuckets := bs, snodes := realloc B (snodes s)\<rparr>)
      = (as_dict s)\<lparr>bucketsLen := B, buckets := bs, nodes := realloc B (nodes (as_dict s)), items := realloc B (items (as_dict s))\<rparr>" for B bs
    by (simp add: as_dict_def realloc_map)
  note e = this [symmetric]
  show ?thesis
    by (auto simp: HashSet_Reserve_def Dict_Reserve_def map_option_bind comp_def e set_rehash_sim simp del: as_dict_sel(6,7)
        intro!: Option.bind_cong)
qed

lemma set_slot_sim: "map_option (map_prod id as_dict) (set_slot ds None s) = add_slot ds None (as_dict s)"
  by (auto simp: set_slot_def add_slot_def HashSet_Reserve_sim [symmetric]
      intro!: Option.bind_cong split: Option.bind_splits)
  
lemma HashSet_Add_sim:
  "map_option (\<lambda>(b, s). (b, as_dict s)) (HashSet_Add H ds None k s) = map_option (\<lambda>((b, i), d). (b, d)) (Dict_Add H ds None k () False (as_dict s))"
proof -
  have "map_option (\<lambda>(b, s). (b, as_dict s)) (do { (index, s) \<leftarrow> set_slot ds None s; s \<leftarrow> set_link (H k) k index s; Some (True, s) })
    = map_option (\<lambda>((b, i), d). (b, d)) (do { (index, d) \<leftarrow> add_slot ds None (as_dict s); d \<leftarrow> link_new (H k) k () index d; Some ((True, index), d) })"
    unfolding set_slot_sim [symmetric]
    by (auto simp: set_link_sim [symmetric] split: Option.bind_splits)
  then show ?thesis
    by (auto simp: HashSet_Add_def Dict_Add_def HashSet_search_sim map_option_bind comp_def intro!: Option.bind_cong)
qed

lemma as_dict_sprev: "set_sprev i v (snodes s) = Some ns \<Longrightarrow> (as_dict s)\<lparr>items := map (map_option iview) ns\<rparr> = as_dict (s\<lparr>snodes := ns\<rparr>)"
  by (drule set_sprev_nodes(1)) (simp add: as_dict_def)

lemma as_dict_snext: "set_snext i v (snodes s) = Some ns \<Longrightarrow> (as_dict s)\<lparr>nodes := map (map_option nview) ns\<rparr> = as_dict (s\<lparr>snodes := ns\<rparr>)"
  by (drule set_snext_items(1)) (simp add: as_dict_def)

lemma unlink_sim:
  assumes "rd (snodes s) i = Some nd"
  shows "unlink i (as_dict s) = map_option as_dict (do {
       s \<leftarrow> (if sprev nd < 0 then do {
              bks \<leftarrow> wr (sbuckets s) (sbucket_of s (shash nd)) (snext nd);
              Some (s\<lparr>sbuckets := bks\<rparr>) }
            else do {
              ns \<leftarrow> set_snext (sprev nd) (snext nd) (snodes s);
              Some (s\<lparr>snodes := ns\<rparr>) });
       nd \<leftarrow> rd (snodes s) i;
       if snext nd \<ge> 0 then do {
         ns \<leftarrow> set_sprev (snext nd) (sprev nd) (snodes s);
         Some (s\<lparr>snodes := ns\<rparr>) }
       else Some s })"
proof (cases "sprev nd < 0")
  case True
  then show ?thesis using assms
    by (cases "wr (sbuckets s) (sbucket_of s (shash nd)) (snext nd)"; cases "set_sprev (snext nd) (sprev nd) (snodes s)")
      (auto simp: unlink_def set_sprev_items as_dict_sprev)
next
  case False
  show ?thesis
  proof (cases "set_snext (sprev nd) (snext nd) (snodes s)")
    case None
    then show ?thesis using assms False by (simp add: unlink_def set_snext_nodes)
  next
    case (Some ns)
    note ns = Some set_snext_items [OF Some]
    have "map_option iview (rd ns i) = map_option iview (rd (snodes s) i)" using ns(2) rd_map [of iview] by metis
    then obtain nd' where nd': "rd ns i = Some nd'" "sprev nd' = sprev nd" using assms by (auto simp: iview_def)
    show ?thesis
      using assms False Some nd' as_dict_sprev [where s = "s\<lparr>snodes := ns\<rparr>", simplified]
      by (cases "set_sprev (snext nd') (sprev nd') ns")
        (auto simp: unlink_def set_snext_nodes as_dict_snext [OF Some] set_sprev_items as_dict_sprev)
  qed
qed

lemma HashSet_Remove_sim:
  fixes s :: "'k HashSet"
  assumes "dict_inv H (as_dict s)"
  shows "map_option (as_dict \<circ> snd) (HashSet_Remove H k s) = Dict_Remove H k (as_dict s)"
  using Dict_search_ok [OF assms refl, of k]
proof (elim disjE exE conjE)
  assume "Dict_search (as_dict s) (H k) k = Some (-1)"
  then show ?thesis by (simp add: HashSet_Remove_def Dict_Remove_def Dict_Find_def HashSet_search_sim)
next
  fix i v assume f: "Dict_search (as_dict s) (H k) k = Some (int i)" and e: "entry (as_dict s) i = Some (k, v)"
  have "shape (as_dict s)" using assms by (simp add: dict_inv_def)
  from entry_slot [OF this e] have "rd (nodes (as_dict s)) (int i) \<noteq> None" using ini_rd by (metis option.distinct(1))
  then obtain nd where nd: "rd (snodes s) (int i) = Some nd" by auto
  have ok: "index_ok (as_dict s) (int i) = Some True" using index_ok_iff [OF assms, of "int i"] e by simp
  have fin: "do { ns \<leftarrow> set_nnext (int i) (freeList (as_dict s')) (nodes (as_dict s'));
       it \<leftarrow> rd (items (as_dict s')) (int i); k \<leftarrow> dkey it; v \<leftarrow> dvalue it;
       its \<leftarrow> wr (items (as_dict s')) (int i) \<lparr>dkey = None, dvalue = None, dprev = -2\<rparr>;
       Some ((as_dict s')\<lparr>nodes := ns, freeList := int i, freeCount := freeCount (as_dict s') + 1, items := its\<rparr>) }
     = map_option (as_dict \<circ> snd) (do { ns \<leftarrow> set_snext (int i) (sfreeList s') (snodes s'); nd \<leftarrow> rd ns (int i); k \<leftarrow> skey nd;
         ns \<leftarrow> wr ns (int i) (nd\<lparr>skey := None, sprev := -2\<rparr>);
         Some (True, s'\<lparr>snodes := ns, sfreeList := int i, sfreeCount := sfreeCount s' + 1\<rparr>) })" for s' :: "'k HashSet"
  proof (cases "set_snext (int i) (sfreeList s') (snodes s')")
    case (Some ns)
    note items = set_snext_items [OF Some]
    have iv: "\<lparr>dkey = None, dvalue = None, dprev = -2\<rparr> = iview (nd\<lparr>skey := None, sprev := -2\<rparr>)" for nd :: "'k HNode"
      by (simp add: iview_def)
    have r: "map_option iview (rd (snodes s') (int i)) = map_option iview (rd ns (int i))" using items(1) rd_map [of iview] by metis
    show ?thesis
    proof (cases "rd ns (int i)")
      case None
      then show ?thesis using Some r by (simp add: set_snext_nodes)
    next
      case nd2: (Some nd2)
      have w: "wr (items (as_dict s')) (int i) \<lparr>dkey = None, dvalue = None, dprev = -2\<rparr>
          = map_option (map (map_option iview)) (wr ns (int i) (nd2\<lparr>skey := None, sprev := -2\<rparr>))"
        by (simp only: iv [of nd2] as_dict_sel items(1) [symmetric] wr_map)
      have n: "map (map_option nview) (ns[nat (int i) := Some (nd2\<lparr>skey := None, sprev := -2\<rparr>)]) = map (map_option nview) ns"
        by (rule map_write_same [OF nd2]) (simp add: nview_def)
      show ?thesis
        using Some nd2 r n w
        by (cases "skey nd2"; cases "wr ns (int i) (nd2\<lparr>skey := None, sprev := -2\<rparr>)")
          (auto simp: set_snext_nodes as_dict_def wr_Some_iff)
    qed
  qed (simp add: set_snext_nodes)
  show ?thesis
    using f nd ok
    by (simp add: HashSet_Remove_def Dict_Remove_def Dict_Find_def HashSet_search_sim Dict_RemoveAt_def unlink_sim [OF nd]
        bind_map_option fin map_option_bind comp_def del: as_dict_sel)
qed

lemma DeleteKs_loop_sim:
  "DeleteKVs_loop n i (map (map_option iview) ns) = map_option (map (map_option iview)) (DeleteKs_loop n i ns)"
proof (induction n arbitrary: i ns)
  case (Suc n)
  have iv: "\<lparr>dkey = None, dvalue = None, dprev = -2\<rparr> = iview (nd\<lparr>skey := None, sprev := -2\<rparr>)" for nd :: "'a HNode"
    by (simp add: iview_def)
  show ?case
  proof (cases "rd ns (int i)")
    case (Some nd)
    then show ?thesis using Suc
      by (cases "skey nd"; cases "wr ns (int i) (nd\<lparr>skey := None, sprev := -2\<rparr>)") (simp_all add: iv [of nd] wr_map)
  qed simp
qed simp

lemma DeleteKs_loop_nodes: "DeleteKs_loop n i ns = Some ns' \<Longrightarrow> map (map_option nview) ns' = map (map_option nview) ns"
proof (induction n arbitrary: i ns)
  case (Suc n)
  then obtain nd where nd: "rd ns (int i) = Some nd" by (cases "rd ns (int i)") auto
  have w: "map (map_option nview) ns1 = map (map_option nview) ns" if "wr ns (int i) (nd\<lparr>skey := None, sprev := -2\<rparr>) = Some ns1" for ns1
    using that map_write_same [OF nd, of nview "nd\<lparr>skey := None, sprev := -2\<rparr>"] by (simp add: wr_Some_iff nview_def)
  show ?case using Suc nd w by (auto split: if_splits Option.bind_splits)
qed simp

lemma HashSet_Clear_sim: "map_option as_dict (HashSet_Clear s) = Dict_Clear (as_dict s)"
  by (auto simp: HashSet_Clear_def Dict_Clear_def DeleteKs_def DeleteKVs_def DeleteKs_loop_sim as_dict_def
      dest!: DeleteKs_loop_nodes split: Option.bind_splits)

lemma set_iter_sim: "iter_from n i (map (map_option iview) ns) = set_iter_from n i ns"
  by (induction n arbitrary: i) (auto split: Option.bind_splits)

lemma HashSet_iter_sim: "HashSet_iter s = Dict_iter (as_dict s)"
  by (simp add: HashSet_iter_def Dict_iter_def Dict_Empty_def Dict_Count_def set_iter_sim)

lemma HashSet_new_sim: "map_option as_dict (HashSet_new ds c) = Dict_new ds c"
  by (cases "GetPrime c ds") (simp_all add: HashSet_new_def Dict_new_def as_dict_def)

section \<open>A store of keys\<close>

definition hashset_room :: "('k \<Rightarrow> u32) \<Rightarrow> int \<Rightarrow> nat \<Rightarrow> 'k HashSet \<Rightarrow> bool" where
  "hashset_room H ds n s \<longleftrightarrow> dict_room H ds n (as_dict s)"

definition set_of :: "'k HashSet \<Rightarrow> 'k \<Rightarrow> unit option" where
  "set_of s = dict_map (as_dict s)"

definition hashset_put :: "('k \<Rightarrow> u32) \<Rightarrow> int \<Rightarrow> 'k \<Rightarrow> unit \<Rightarrow> 'k HashSet \<Rightarrow> 'k HashSet option" where
  "hashset_put H ds k u s = map_option snd (HashSet_Add H ds None k s)"

definition hashset_del :: "('k \<Rightarrow> u32) \<Rightarrow> 'k \<Rightarrow> 'k HashSet \<Rightarrow> 'k HashSet option" where
  "hashset_del H k s = map_option snd (HashSet_Remove H k s)"

definition hashset_get :: "('k \<Rightarrow> u32) \<Rightarrow> 'k \<Rightarrow> 'k HashSet \<Rightarrow> unit option option" where
  "hashset_get H k s = map_option (\<lambda>b. if b then Some () else None) (HashSet_Exists H k s)"

lemma HashSet_Exists_ok:
  assumes "dict_inv H (as_dict s)"
  shows "HashSet_Exists H k s = Some (set_of s k \<noteq> None)"
proof -
  have "keyed H (as_dict s)" using assms by (simp add: dict_inv_def)
  then show ?thesis
    using Dict_search_ok [OF assms refl, of k] dict_map_None [of H "as_dict s" k]
    by (auto simp: HashSet_Exists_def HashSet_search_sim set_of_def)
qed

lemma hashset_put_ok:
  assumes "hashset_room H ds (Suc n) s"
  shows "\<exists>s'. HashSet_Add H ds None k s = Some (set_of s k = None, s') \<and> hashset_room H ds n s' \<and> set_of s' = (set_of s)(k \<mapsto> ())"
proof -
  let ?d = "as_dict s"
  have i: "dict_inv H ?d" "0 < ds" and g: "\<forall>m>0. m < dcount ?d + int (Suc n) \<longrightarrow> grows ds m"
    using assms by (auto simp: hashset_room_def dict_room_def)
  have "dcount ?d = bucketsLen ?d \<and> freeCount ?d = 0 \<longrightarrow> grows ds (dcount ?d)" using g i(1) by (auto simp: dict_inv_def shape_def)
  note A = Dict_Add_ok [OF i this, where k = k and mv = None and v = "()" and ov = False]
  obtain j d' where d': "Dict_Add H ds None k () False ?d = Some ((dict_map ?d k = None, j), d')" "dict_inv H d'"
    "dict_map d' = (dict_map ?d)(k \<mapsto> ())" "dcount d' \<le> dcount ?d + 1"
    using A by (cases "dict_map ?d k") (auto simp: fun_upd_idem)
  have "map_option (\<lambda>(b, s). (b, as_dict s)) (HashSet_Add H ds None k s) = Some (dict_map ?d k = None, d')"
    unfolding HashSet_Add_sim d'(1) by simp
  then obtain s' where s': "HashSet_Add H ds None k s = Some (dict_map ?d k = None, s')" "as_dict s' = d'"
    by (cases "HashSet_Add H ds None k s") auto
  then show ?thesis
    using d'(2,3,4) g i(2) by (auto simp: hashset_room_def dict_room_def set_of_def)
qed

lemma hashset_del_ok:
  assumes "hashset_room H ds n s"
  shows "\<exists>s'. hashset_del H k s = Some s' \<and> hashset_room H ds n s' \<and> set_of s' = (set_of s)(k := None)"
proof -
  have inv: "dict_inv H (as_dict s)" using assms by (simp add: hashset_room_def dict_room_def)
  obtain d' where d': "Dict_Remove H k (as_dict s) = Some d'" "dict_inv H d'" "dict_map d' = (dict_map (as_dict s))(k := None)"
    "dcount d' = dcount (as_dict s)" using Dict_Remove_ok [OF inv] by blast
  have "map_option (as_dict \<circ> snd) (HashSet_Remove H k s) = Some d'" by (simp only: HashSet_Remove_sim [OF inv] d'(1))
  then obtain s' where "hashset_del H k s = Some s'" "as_dict s' = d'" by (auto simp: hashset_del_def)
  then show ?thesis using d' assms by (auto simp: hashset_room_def dict_room_def set_of_def)
qed

lemma hashset_clear_ok:
  assumes "hashset_room H ds n s"
  shows "\<exists>s'. HashSet_Clear s = Some s' \<and> hashset_room H ds n s' \<and> set_of s' = Map.empty"
proof -
  obtain d' where "Dict_Clear (as_dict s) = Some d'" "dict_room H ds n d'" "dict_map d' = Map.empty"
    using dm.wipe [of H ds n "as_dict s"] assms by (auto simp: hashset_room_def)
  then show ?thesis using HashSet_Clear_sim [of s] by (auto simp: hashset_room_def set_of_def)
qed

interpretation hs: map_store "hashset_room H ds" set_of "hashset_put H ds" "hashset_del H" HashSet_Clear "hashset_get H"
proof
  fix n s k u
  show "\<exists>s'. hashset_put H ds k u s = Some s' \<and> hashset_room H ds n s' \<and> set_of s' = (set_of s)(k \<mapsto> u)" if "hashset_room H ds (Suc n) s"
    using hashset_put_ok [OF that, of k] by (auto simp: hashset_put_def)
  show "hashset_get H k s = Some (set_of s k)" if "hashset_room H ds n s"
  proof -
    have "dict_inv H (as_dict s)" using that by (simp add: hashset_room_def dict_room_def)
    then show ?thesis by (cases "set_of s k") (simp_all add: hashset_get_def HashSet_Exists_ok)
  qed
  show "hashset_room H ds n s" if "hashset_room H ds (Suc n) s"
    using that dm.weaken by (auto simp: hashset_room_def)
qed (rule hashset_del_ok hashset_clear_ok; assumption)+

section \<open>Properties\<close>



text \<open>
  For a key type that is not trivial, \<^verbatim>\<open>HashSet::Reserve\<close> moves the keys but not their hash codes: the
  chains are rebuilt from what the new memory holds, and keys of the set are no longer found.
\<close>

theorem hashset_Reserve_loses_hashes:
  "let junk = \<lparr>shash = 0, snext = 0, skey = None, sprev = 0\<rparr>;
       s = the (run_ops (hashset_put HashFunc_4 16) (hashset_del HashFunc_4) HashSet_Clear [Put 1 (), Put 2 ()] (the (HashSet_new 16 2)));
       s' = the (HashSet_Add HashFunc_4 16 (Some junk) 3 s)
   in HashSet_Exists HashFunc_4 1 s = Some True \<and> fst s' \<and> HashSet_Count (snd s') = Some 3
      \<and> HashSet_Exists HashFunc_4 3 (snd s') = Some True \<and> HashSet_Exists HashFunc_4 1 (snd s') = Some False
      \<and> HashSet_Exists HashFunc_4 2 (snd s') = Some False"
  by code_simp

end
