(* ===== verification/MemPool.thy ===== *)
theory MemPool
  imports RingQueue
begin

text \<open>
  The memory pool of \<^verbatim>\<open>test_uv_4/xx_mempool.h\<close> and \<^verbatim>\<open>xx_mempool.hpp\<close> and the pointer classes built on
  the headers of its blocks. Memory maps the address of a header to the block behind it. The first
  eight bytes of a header are its version number, whose top byte is the size class (\<^verbatim>\<open>mpIndex\<close>), as
  long as the block is in use, and the link of the free list afterwards; the next eight bytes hold the
  counter, the type id and the flags of an object. Blocks are never given back before the pool is
  destroyed, so that the version number of a released object can still be read.

  An object is known by its members of type \<^verbatim>\<open>Ptr<>\<close> (\<open>kids\<close>), in the order of their declaration; the
  \<^verbatim>\<open>Ptr<>\<close> variables outside of objects are the \<open>roots\<close>. What \<^verbatim>\<open>malloc\<close> returns is an argument \<open>m\<close> of the
  operations that may call it, 0 when it fails. \<open>None\<close> is a failed assertion, an access to memory that
  was never allocated, to the counter of an object that is no more, or to a member of a destroyed object.
\<close>

section \<open>Headers and blocks\<close>

definition MemHeader_Object_size :: u64 where
  "MemHeader_Object_size = 16"

text \<open>The header in front of an object.\<close>

definition hdr :: "u64 \<Rightarrow> u64" where
  "hdr p = p - MemHeader_Object_size"

record pblock =
  vnum :: u64
  prefs :: u32
  ptypeId :: u16
  pflags :: u16
  kids :: "u64 list"
  pdata :: "nat \<Rightarrow> u8 option"
  psize :: nat

record pool =
  pheads :: "u64 list"
  pvn :: u64
  pmem :: "u64 \<Rightarrow> pblock option"
  roots :: "u64 list"

definition mpIndex :: "pblock \<Rightarrow> nat" where
  "mpIndex b = unat (drop_bit 56 (vnum b))"

text \<open>Writing the version number and then its top byte.\<close>

definition tag :: "u64 \<Rightarrow> nat \<Rightarrow> u64" where
  "tag v idx = take_bit 56 v OR push_bit 56 (of_nat (idx mod 256))"

definition set_blk :: "u64 \<Rightarrow> pblock \<Rightarrow> pool \<Rightarrow> pool" where
  "set_blk h b st = st\<lparr>pmem := (pmem st)(h \<mapsto> b)\<rparr>"

definition raw_block :: "nat \<Rightarrow> pblock" where
  "raw_block n = \<lparr>vnum = 0, prefs = 0, ptypeId = 0, pflags = 0, kids = [], pdata = (\<lambda>_. None), psize = n\<rparr>"

section \<open>The pool\<close>

definition MemPool_new :: "nat \<Rightarrow> pool" where
  "MemPool_new nroots = \<lparr>pheads = replicate 64 0, pvn = 0, pmem = Map.empty, roots = replicate nroots 0\<rparr>"

definition Alloc :: "u64 \<Rightarrow> u64 \<Rightarrow> u64 \<Rightarrow> pool \<Rightarrow> (u64 \<times> pool) option" where
  "Alloc hs siz m st =
     (if siz = 0 then None
      else do {
        let siz = siz + hs;
        idx \<leftarrow> Calc2n siz;
        let idx = (if push_bit idx 1 < siz then idx + 1 else idx);
        if idx \<ge> 64 then None
        else do {
          let p = pheads st ! idx;
          (p, st) \<leftarrow> (if p \<noteq> 0 then do { b \<leftarrow> pmem st p; Some (p, st\<lparr>pheads := (pheads st)[idx := vnum b]\<rparr>) }
            else Some (m, if m = 0 then st else set_blk m (raw_block (2 ^ idx)) st));
          if p = 0 then Some (0, st)
          else do {
            b \<leftarrow> pmem st p;
            let v = pvn st + 1;
            Some (p + hs, set_blk p (b\<lparr>vnum := tag v idx\<rparr>) (st\<lparr>pvn := v\<rparr>)) } } })"

definition Free :: "u64 \<Rightarrow> u64 \<Rightarrow> pool \<Rightarrow> pool option" where
  "Free hs p st =
     (if p = 0 then Some st
      else do {
        let h = p - hs;
        b \<leftarrow> pmem st h;
        let idx = mpIndex b;
        if \<not> (0 < idx \<and> idx < 64) then None
        else Some (set_blk h (b\<lparr>vnum := pheads st ! idx, kids := []\<rparr>) (st\<lparr>pheads := (pheads st)[idx := h]\<rparr>)) })"

definition Realloc :: "u64 \<Rightarrow> u64 \<Rightarrow> u64 \<Rightarrow> u64 \<Rightarrow> pool \<Rightarrow> (u64 \<times> pool) option" where
  "Realloc p newSize dataLen m st =
     (if newSize = 0 then do { st \<leftarrow> Free (of_nat MemHeader_size) p st; Some (0, st) }
      else if p = 0 then Alloc (of_nat MemHeader_size) newSize m st
      else do {
        let hs = of_nat MemHeader_size;
        b \<leftarrow> pmem st (p - hs);
        let originalSize = push_bit (mpIndex b) 1 - hs;
        if originalSize \<ge> newSize then Some (p, st)
        else do {
          (np, st) \<leftarrow> Alloc hs newSize m st;
          nb \<leftarrow> (if np = 0 then None else pmem st (np - hs));
          b \<leftarrow> pmem st (p - hs);
          let n = unat (min originalSize dataLen);
          let st = set_blk (np - hs) (nb\<lparr>pdata := (\<lambda>i. if i < n then pdata b i else pdata nb i)\<rparr>) st;
          st \<leftarrow> Free hs p st;
          Some (np, st) } })"

text \<open>
  \<^verbatim>\<open>Create<T>\<close>: \<open>sz\<close> and \<open>tid\<close> are the size and the type id of \<^verbatim>\<open>T\<close>, whose constructor sets \<open>nk\<close> members to
  null, or throws when \<open>ok\<close> is false.
\<close>

definition Create :: "u64 \<Rightarrow> u16 \<Rightarrow> nat \<Rightarrow> bool \<Rightarrow> u64 \<Rightarrow> pool \<Rightarrow> (u64 \<times> pool) option" where
  "Create sz tid nk ok m st = do {
     (p, st) \<leftarrow> Alloc MemHeader_Object_size sz m st;
     if p = 0 then Some (0, st)
     else do {
       let h = hdr p;
       b \<leftarrow> pmem st h;
       let b = b\<lparr>prefs := 0, ptypeId := tid, pflags := 0\<rparr>;
       if ok then Some (p, set_blk h (b\<lparr>kids := replicate nk 0\<rparr>) st)
       else do { st \<leftarrow> Free MemHeader_Object_size p (set_blk h b st); Some (0, st) } } }"

section \<open>Counted pointers\<close>

datatype ploc = Root nat | Member u64 nat

definition ptr_at :: "ploc \<Rightarrow> pool \<Rightarrow> u64 option" where
  "ptr_at l st = (case l of
     Root i \<Rightarrow> if i < length (roots st) then Some (roots st ! i) else None
   | Member p i \<Rightarrow> do {
       b \<leftarrow> pmem st (hdr p);
       if i < length (kids b) then Some (kids b ! i) else None })"

definition ptr_put :: "ploc \<Rightarrow> u64 \<Rightarrow> pool \<Rightarrow> pool option" where
  "ptr_put l v st = (case l of
     Root i \<Rightarrow> if i < length (roots st) then Some (st\<lparr>roots := (roots st)[i := v]\<rparr>) else None
   | Member p i \<Rightarrow> do {
       b \<leftarrow> pmem st (hdr p);
       if i < length (kids b) then Some (set_blk (hdr p) (b\<lparr>kids := (kids b)[i := v]\<rparr>) st) else None })"

definition memHeader :: "u64 \<Rightarrow> pool \<Rightarrow> pblock option" where
  "memHeader p st = do {
     b \<leftarrow> pmem st (hdr p);
     if mpIndex b = 0 then None else Some b }"

definition incref :: "u64 \<Rightarrow> pool \<Rightarrow> pool option" where
  "incref p st = do { b \<leftarrow> memHeader p st; Some (set_blk (hdr p) (b\<lparr>prefs := prefs b + 1\<rparr>) st) }"

text \<open>\<^verbatim>\<open>Ptr<T>::Reset\<close>, with the \<^verbatim>\<open>Release\<close> it calls as an argument.\<close>

definition Reset_with :: "(u64 \<Rightarrow> pool \<Rightarrow> pool option) \<Rightarrow> ploc \<Rightarrow> pool \<Rightarrow> pool option" where
  "Reset_with release l st = do {
     p \<leftarrow> ptr_at l st;
     if p = 0 then Some st
     else do {
       b \<leftarrow> memHeader p st;
       let n = prefs b - 1;
       let st = set_blk (hdr p) (b\<lparr>prefs := n\<rparr>) st;
       st \<leftarrow> (if n = 0 then release p st else Some st);
       ptr_put l 0 st } }"

text \<open>
  \<^verbatim>\<open>MemPool::Release\<close>: the destructor resets the members, the last declared first, which may release
  further objects. The first argument bounds the depth of these calls.
\<close>

primrec Release :: "nat \<Rightarrow> u64 \<Rightarrow> pool \<Rightarrow> pool option" where
  "Release 0 p st = None"
| "Release (Suc n) p st =
     (if p = 0 then Some st
      else do {
        b \<leftarrow> pmem st (hdr p);
        if vnum b = 0 then Some st
        else if prefs b \<noteq> 0 \<or> \<not> (0 < mpIndex b \<and> mpIndex b < 64) then None
        else do {
          let idx = mpIndex b;
          let st = set_blk (hdr p) (b\<lparr>vnum := 0\<rparr>) st;
          st \<leftarrow> kfold (\<lambda>i. Reset_with (Release n) (Member p i)) (rev [0..<length (kids b)]) st;
          b \<leftarrow> pmem st (hdr p);
          Some (set_blk (hdr p) (b\<lparr>vnum := pheads st ! idx, kids := []\<rparr>)
            (st\<lparr>pheads := (pheads st)[idx := hdr p]\<rparr>)) } })"

definition Ptr_Reset :: "nat \<Rightarrow> ploc \<Rightarrow> pool \<Rightarrow> pool option" where
  "Ptr_Reset fuel l st = Reset_with (Release fuel) l st"

definition Ptr_new :: "ploc \<Rightarrow> pool \<Rightarrow> pool option" where
  "Ptr_new l st = ptr_put l 0 st"

definition Ptr_construct :: "ploc \<Rightarrow> u64 \<Rightarrow> pool \<Rightarrow> pool option" where
  "Ptr_construct l obj st = do { st \<leftarrow> ptr_put l obj st; if obj \<noteq> 0 then incref obj st else Some st }"

definition Ptr_copy_construct :: "ploc \<Rightarrow> ploc \<Rightarrow> pool \<Rightarrow> pool option" where
  "Ptr_copy_construct l src st = do { obj \<leftarrow> ptr_at src st; Ptr_construct l obj st }"

definition Ptr_move_construct :: "ploc \<Rightarrow> ploc \<Rightarrow> pool \<Rightarrow> pool option" where
  "Ptr_move_construct l src st = do { v \<leftarrow> ptr_at src st; st \<leftarrow> ptr_put l v st; ptr_put src 0 st }"

text \<open>
  Assignment and \<^verbatim>\<open>Reset(O* const& o)\<close>: the parameter is a reference, so that \<open>o\<close>, what it refers to, is
  read again after the old object has been given up. A local raw pointer does not change.
\<close>

definition Ptr_assign :: "nat \<Rightarrow> ploc \<Rightarrow> (pool \<Rightarrow> u64 option) \<Rightarrow> pool \<Rightarrow> pool option" where
  "Ptr_assign fuel l src st = do {
     p \<leftarrow> ptr_at l st;
     obj \<leftarrow> src st;
     if p = obj then Some st
     else do {
       st \<leftarrow> Ptr_Reset fuel l st;
       obj \<leftarrow> src st;
       if obj \<noteq> 0 then do { st \<leftarrow> ptr_put l obj st; incref obj st } else Some st } }"

definition Ptr_assign_raw :: "nat \<Rightarrow> ploc \<Rightarrow> u64 \<Rightarrow> pool \<Rightarrow> pool option" where
  "Ptr_assign_raw fuel l obj st = Ptr_assign fuel l (\<lambda>_. Some obj) st"

definition Ptr_copy_assign :: "nat \<Rightarrow> ploc \<Rightarrow> ploc \<Rightarrow> pool \<Rightarrow> pool option" where
  "Ptr_copy_assign fuel l src st = Ptr_assign fuel l (ptr_at src) st"

definition Ptr_move_assign :: "nat \<Rightarrow> ploc \<Rightarrow> ploc \<Rightarrow> pool \<Rightarrow> pool option" where
  "Ptr_move_assign fuel l src st = do {
     p \<leftarrow> ptr_at l st;
     q \<leftarrow> ptr_at src st;
     if p = q then Some st
     else do {
       st \<leftarrow> Ptr_Reset fuel l st;
       v \<leftarrow> ptr_at src st;
       st \<leftarrow> ptr_put l v st;
       ptr_put src 0 st } }"

definition Ptr_destroy :: "nat \<Rightarrow> ploc \<Rightarrow> pool \<Rightarrow> pool option" where
  "Ptr_destroy fuel l st = Ptr_Reset fuel l st"

definition Ptr_GetRefs :: "ploc \<Rightarrow> pool \<Rightarrow> u32 option" where
  "Ptr_GetRefs l st = do { p \<leftarrow> ptr_at l st; if p \<noteq> 0 then do { b \<leftarrow> memHeader p st; Some (prefs b) } else Some 0 }"

definition Ptr_GetTypeId :: "ploc \<Rightarrow> pool \<Rightarrow> u16 option" where
  "Ptr_GetTypeId l st = do { p \<leftarrow> ptr_at l st; if p \<noteq> 0 then do { b \<leftarrow> memHeader p st; Some (ptypeId b) } else Some 0 }"

definition Ptr_eq :: "ploc \<Rightarrow> ploc \<Rightarrow> pool \<Rightarrow> bool option" where
  "Ptr_eq l l' st = do { p \<leftarrow> ptr_at l st; q \<leftarrow> ptr_at l' st; Some (p = q) }"

definition Ptr_eq_raw :: "ploc \<Rightarrow> u64 \<Rightarrow> pool \<Rightarrow> bool option" where
  "Ptr_eq_raw l obj st = do { p \<leftarrow> ptr_at l st; Some (p = obj) }"

definition Ptr_bool :: "ploc \<Rightarrow> pool \<Rightarrow> bool option" where
  "Ptr_bool l st = do { p \<leftarrow> ptr_at l st; Some (p \<noteq> 0) }"

definition Ptr_Create :: "nat \<Rightarrow> ploc \<Rightarrow> u64 \<Rightarrow> u16 \<Rightarrow> nat \<Rightarrow> bool \<Rightarrow> u64 \<Rightarrow> pool \<Rightarrow> pool option" where
  "Ptr_Create fuel l sz tid nk ok m st = do {
     (obj, st) \<leftarrow> Create sz tid nk ok m st;
     Ptr_assign_raw fuel l obj st }"

definition CreatePtr :: "ploc \<Rightarrow> u64 \<Rightarrow> u16 \<Rightarrow> nat \<Rightarrow> bool \<Rightarrow> u64 \<Rightarrow> pool \<Rightarrow> pool option" where
  "CreatePtr l sz tid nk ok m st = do {
     (obj, st) \<leftarrow> Create sz tid nk ok m st;
     Ptr_construct l obj st }"

section \<open>Weak references\<close>

record wref =
  wptr :: u64
  wvn :: u64

definition Ref_new :: wref where
  "Ref_new = \<lparr>wptr = 0, wvn = 0\<rparr>"

definition Ref_of_raw :: "u64 \<Rightarrow> pool \<Rightarrow> wref option" where
  "Ref_of_raw obj st = (if obj = 0 then Some \<lparr>wptr = 0, wvn = 0\<rparr>
     else do { b \<leftarrow> pmem st (hdr obj); Some \<lparr>wptr = obj, wvn = vnum b\<rparr> })"

definition Ref_of_Ptr :: "ploc \<Rightarrow> pool \<Rightarrow> wref option" where
  "Ref_of_Ptr l st = do { p \<leftarrow> ptr_at l st; Ref_of_raw p st }"

definition Ptr_MakeRef :: "ploc \<Rightarrow> pool \<Rightarrow> wref option" where
  "Ptr_MakeRef l st = do { p \<leftarrow> ptr_at l st; Ref_of_raw p st }"

definition Ref_bool :: "wref \<Rightarrow> pool \<Rightarrow> bool option" where
  "Ref_bool r st = (if wptr r = 0 then Some False
     else do { b \<leftarrow> pmem st (hdr (wptr r)); Some (vnum b = wvn r) })"

definition Ref_Reset :: "wref \<Rightarrow> wref" where
  "Ref_Reset r = \<lparr>wptr = 0, wvn = 0\<rparr>"

definition Ref_Lock :: "wref \<Rightarrow> pool \<Rightarrow> wref option" where
  "Ref_Lock r st = do { v \<leftarrow> Ref_bool r st; Some (if v then r else Ref_Reset r) }"

definition Ref_copy :: "wref \<Rightarrow> wref" where
  "Ref_copy r = \<lparr>wptr = wptr r, wvn = wvn r\<rparr>"

definition Ref_move :: "wref \<Rightarrow> wref \<times> wref" where
  "Ref_move r = (\<lparr>wptr = wptr r, wvn = wvn r\<rparr>, \<lparr>wptr = 0, wvn = 0\<rparr>)"

definition Ref_destroy :: "nat \<Rightarrow> wref \<Rightarrow> pool \<Rightarrow> pool option" where
  "Ref_destroy fuel r st = do {
     v \<leftarrow> Ref_bool r st;
     if v then do { b \<leftarrow> memHeader (wptr r) st; if prefs b = 0 then Release fuel (wptr r) st else Some st }
     else Some st }"

definition Ref_eq_Ptr :: "wref \<Rightarrow> ploc \<Rightarrow> pool \<Rightarrow> bool option" where
  "Ref_eq_Ptr r l st = do { p \<leftarrow> ptr_at l st; r \<leftarrow> Ref_Lock r st; Some (p = wptr r) }"

definition Ref_eq :: "wref \<Rightarrow> wref \<Rightarrow> pool \<Rightarrow> bool option" where
  "Ref_eq r r' st = do { r \<leftarrow> Ref_Lock r st; r' \<leftarrow> Ref_Lock r' st; Some (wptr r = wptr r') }"

definition Ref_eq_raw :: "wref \<Rightarrow> u64 \<Rightarrow> pool \<Rightarrow> bool option" where
  "Ref_eq_raw r obj st = do { r \<leftarrow> Ref_Lock r st; Some (wptr r = obj) }"

definition Ptr_assign_Ref :: "nat \<Rightarrow> ploc \<Rightarrow> wref \<Rightarrow> pool \<Rightarrow> pool option" where
  "Ptr_assign_Ref fuel l r st = do { r \<leftarrow> Ref_Lock r st; Ptr_assign_raw fuel l (wptr r) st }"

text \<open>\<^verbatim>\<open>Weak\<close> also clears itself when it finds its object gone: the value and the reference afterwards.\<close>

definition Weak_of_raw :: "u64 \<Rightarrow> pool \<Rightarrow> wref option" where
  "Weak_of_raw obj st = (if obj = 0 then Some \<lparr>wptr = 0, wvn = 0\<rparr>
     else do { b \<leftarrow> pmem st (hdr obj); Some \<lparr>wptr = obj, wvn = vnum b\<rparr> })"

definition Weak_make :: "u64 \<Rightarrow> u64 \<Rightarrow> wref" where
  "Weak_make obj v = \<lparr>wptr = obj, wvn = v\<rparr>"

definition Weak_copy :: "wref \<Rightarrow> wref" where
  "Weak_copy r = \<lparr>wptr = wptr r, wvn = wvn r\<rparr>"

definition Weak_move :: "wref \<Rightarrow> wref \<times> wref" where
  "Weak_move r = (\<lparr>wptr = wptr r, wvn = wvn r\<rparr>, \<lparr>wptr = 0, wvn = 0\<rparr>)"

definition Weak_Reset :: "wref \<Rightarrow> wref" where
  "Weak_Reset r = \<lparr>wptr = 0, wvn = 0\<rparr>"

definition Weak_bool :: "wref \<Rightarrow> pool \<Rightarrow> (bool \<times> wref) option" where
  "Weak_bool r st =
     (if wptr r \<noteq> 0 then do {
        b \<leftarrow> pmem st (hdr (wptr r));
        if vnum b = wvn r then Some (True, r) else Some (False, Weak_Reset r) }
      else Some (False, r))"

definition Weak_eq_raw :: "wref \<Rightarrow> u64 \<Rightarrow> pool \<Rightarrow> bool option" where
  "Weak_eq_raw r obj st = do { (_, r) \<leftarrow> Weak_bool r st; Some (wptr r = obj) }"

definition Weak_eq :: "wref \<Rightarrow> wref \<Rightarrow> pool \<Rightarrow> bool option" where
  "Weak_eq r r' st = do { (_, r) \<leftarrow> Weak_bool r st; (_, r') \<leftarrow> Weak_bool r' st; Some (wptr r = wptr r') }"

section \<open>Unique pointers\<close>

text \<open>\<^verbatim>\<open>Unique\<close> repeats the code of \<^verbatim>\<open>Ptr\<close> without the copies; it counts its object too.\<close>

definition Unique_new :: "ploc \<Rightarrow> pool \<Rightarrow> pool option" where
  "Unique_new l st = ptr_put l 0 st"

definition Unique_construct :: "ploc \<Rightarrow> u64 \<Rightarrow> pool \<Rightarrow> pool option" where
  "Unique_construct l obj st = do { st \<leftarrow> ptr_put l obj st; if obj \<noteq> 0 then incref obj st else Some st }"

definition Unique_move_construct :: "ploc \<Rightarrow> ploc \<Rightarrow> pool \<Rightarrow> pool option" where
  "Unique_move_construct l src st = do { v \<leftarrow> ptr_at src st; st \<leftarrow> ptr_put l v st; ptr_put src 0 st }"

definition Unique_Reset :: "nat \<Rightarrow> ploc \<Rightarrow> pool \<Rightarrow> pool option" where
  "Unique_Reset fuel l st = Reset_with (Release fuel) l st"

definition Unique_assign :: "nat \<Rightarrow> ploc \<Rightarrow> (pool \<Rightarrow> u64 option) \<Rightarrow> pool \<Rightarrow> pool option" where
  "Unique_assign fuel l src st = do {
     p \<leftarrow> ptr_at l st;
     obj \<leftarrow> src st;
     if p = obj then Some st
     else do {
       st \<leftarrow> Unique_Reset fuel l st;
       obj \<leftarrow> src st;
       if obj \<noteq> 0 then do { st \<leftarrow> ptr_put l obj st; incref obj st } else Some st } }"

definition Unique_move_assign :: "nat \<Rightarrow> ploc \<Rightarrow> ploc \<Rightarrow> pool \<Rightarrow> pool option" where
  "Unique_move_assign fuel l src st = do {
     p \<leftarrow> ptr_at l st;
     q \<leftarrow> ptr_at src st;
     if p = q then Some st
     else do {
       st \<leftarrow> Unique_Reset fuel l st;
       v \<leftarrow> ptr_at src st;
       st \<leftarrow> ptr_put l v st;
       ptr_put src 0 st } }"

definition Unique_destroy :: "nat \<Rightarrow> ploc \<Rightarrow> pool \<Rightarrow> pool option" where
  "Unique_destroy fuel l st = Unique_Reset fuel l st"

definition Unique_GetRefs :: "ploc \<Rightarrow> pool \<Rightarrow> u32 option" where
  "Unique_GetRefs l st = do { p \<leftarrow> ptr_at l st; if p \<noteq> 0 then do { b \<leftarrow> memHeader p st; Some (prefs b) } else Some 0 }"

definition Unique_GetTypeId :: "ploc \<Rightarrow> pool \<Rightarrow> u16 option" where
  "Unique_GetTypeId l st = do { p \<leftarrow> ptr_at l st; if p \<noteq> 0 then do { b \<leftarrow> memHeader p st; Some (ptypeId b) } else Some 0 }"

definition Unique_MakeWeak :: "ploc \<Rightarrow> pool \<Rightarrow> wref option" where
  "Unique_MakeWeak l st = do { p \<leftarrow> ptr_at l st; Weak_of_raw p st }"

definition Unique_eq :: "ploc \<Rightarrow> ploc \<Rightarrow> pool \<Rightarrow> bool option" where
  "Unique_eq l l' st = do { p \<leftarrow> ptr_at l st; q \<leftarrow> ptr_at l' st; Some (p = q) }"

definition Unique_eq_Weak :: "ploc \<Rightarrow> wref \<Rightarrow> pool \<Rightarrow> bool option" where
  "Unique_eq_Weak l w st = do { (_, w) \<leftarrow> Weak_bool w st; p \<leftarrow> ptr_at l st; Some (p = wptr w) }"

definition Unique_eq_raw :: "ploc \<Rightarrow> u64 \<Rightarrow> pool \<Rightarrow> bool option" where
  "Unique_eq_raw l obj st = do { p \<leftarrow> ptr_at l st; Some (p = obj) }"

definition Unique_bool :: "ploc \<Rightarrow> pool \<Rightarrow> bool option" where
  "Unique_bool l st = do { p \<leftarrow> ptr_at l st; Some (p \<noteq> 0) }"

definition Unique_Create :: "nat \<Rightarrow> ploc \<Rightarrow> u64 \<Rightarrow> u16 \<Rightarrow> nat \<Rightarrow> bool \<Rightarrow> u64 \<Rightarrow> pool \<Rightarrow> pool option" where
  "Unique_Create fuel l sz tid nk ok m st = do {
     (obj, st) \<leftarrow> Create sz tid nk ok m st;
     Unique_assign fuel l (\<lambda>_. Some obj) st }"

section \<open>Type ids\<close>

text \<open>
  \<^verbatim>\<open>pids\<close> maps a type id to that of its base class. The search for a base class may run for ever on
  a table with a cycle; an index behind the end of the table is a fault.
\<close>

partial_function (option) IsBaseOf :: "u16 list \<Rightarrow> u32 \<Rightarrow> u32 \<Rightarrow> bool option" where
  [code]: "IsBaseOf pids baseTypeId typeId =
     (if typeId = baseTypeId then Some True
      else if typeId = 0 then Some False
      else if \<not> unat typeId < length pids then None
      else if typeId = ucast (pids ! unat typeId) then Some False
      else IsBaseOf pids baseTypeId (ucast (pids ! unat typeId)))"

definition Register :: "u16 \<Rightarrow> u16 \<Rightarrow> u16 list \<Rightarrow> u16 list option" where
  "Register t pt pids = (if unat t < length pids \<and> pids ! unat t = 0 then Some (pids[unat t := pt]) else None)"

definition TryCast :: "u16 list \<Rightarrow> u16 \<Rightarrow> u64 \<Rightarrow> pool \<Rightarrow> u64 option" where
  "TryCast pids tid p st = do {
     b \<leftarrow> memHeader p st;
     r \<leftarrow> IsBaseOf pids (ucast tid) (ucast (ptypeId b));
     Some (if r then p else 0) }"

definition Ptr_Is :: "u16 list \<Rightarrow> u16 \<Rightarrow> ploc \<Rightarrow> pool \<Rightarrow> bool option" where
  "Ptr_Is pids tid l st = do {
     p \<leftarrow> ptr_at l st;
     b \<leftarrow> (if p = 0 then None else memHeader p st);
     IsBaseOf pids (ucast tid) (ucast (ptypeId b)) }"

definition Ptr_As :: "u16 list \<Rightarrow> u16 \<Rightarrow> ploc \<Rightarrow> pool \<Rightarrow> u64 option" where
  "Ptr_As pids tid l st = do { r \<leftarrow> Ptr_Is pids tid l st; if r then ptr_at l st else None }"

definition Unique_Is :: "u16 list \<Rightarrow> u16 \<Rightarrow> ploc \<Rightarrow> pool \<Rightarrow> bool option" where
  "Unique_Is pids tid l st = do {
     p \<leftarrow> ptr_at l st;
     b \<leftarrow> (if p = 0 then None else memHeader p st);
     IsBaseOf pids (ucast tid) (ucast (ptypeId b)) }"

definition Unique_As :: "u16 list \<Rightarrow> u16 \<Rightarrow> ploc \<Rightarrow> pool \<Rightarrow> u64 option" where
  "Unique_As pids tid l st = do { r \<leftarrow> Unique_Is pids tid l st; if r then ptr_at l st else None }"

definition Weak_Is :: "u16 list \<Rightarrow> u16 \<Rightarrow> wref \<Rightarrow> pool \<Rightarrow> bool option" where
  "Weak_Is pids tid w st = do {
     b \<leftarrow> (if wptr w = 0 then None else memHeader (wptr w) st);
     IsBaseOf pids (ucast tid) (ucast (ptypeId b)) }"

definition Weak_As :: "u16 list \<Rightarrow> u16 \<Rightarrow> wref \<Rightarrow> pool \<Rightarrow> wref option" where
  "Weak_As pids tid w st = do { r \<leftarrow> Weak_Is pids tid w st; if r then Some w else None }"

end
