(* ===== verification/PoolInv.thy ===== *)
theory PoolInv
  imports MemPool
begin

text \<open>
  The invariant of the memory pool. Every block is in use, on the free list of its size class, or
  being destroyed; a block in use carries its size class and a version number not above that of the
  pool in the first eight bytes of its header, any other block has a zero top byte there.
\<close>

section \<open>Version numbers\<close>

lemma hdr_inj [simp]: "hdr p = hdr q \<longleftrightarrow> p = q"
  by (simp add: hdr_def)

lemma drop_bit_small: "unat (h :: u64) < 2 ^ 56 \<Longrightarrow> drop_bit 56 h = 0"
  by (simp add: drop_bit_eq_div word_arith_nat_div unat_eq_0 [symmetric] unat_div)

lemma tag_top:
  assumes "idx < 64"
  shows "unat (drop_bit 56 (tag v idx)) = idx"
proof -
  have b: "n < 8" if "bit idx n" for n
  proof (rule ccontr)
    assume "\<not> n < 8"
    then have "(2 :: nat) ^ 8 \<le> 2 ^ n" by (intro power_increasing) auto
    moreover have "2 ^ n \<le> idx" using that by (metis bit_iff_odd div_less even_zero not_le)
    ultimately show False using assms by simp
  qed
  have "drop_bit 56 (tag v idx) = of_nat idx"
    using assms by (intro bit_eqI) (auto simp: tag_def bit_simps not_less dest: bit_imp_le_length b)
  then show ?thesis using assms by (simp add: unat_of_nat)
qed

lemma tag_low: "take_bit 56 (tag v idx) = take_bit 56 v"
  by (rule bit_eqI) (auto simp: tag_def bit_simps)

section \<open>The invariant\<close>

primrec fchain :: "(u64 \<Rightarrow> u64) \<Rightarrow> u64 \<Rightarrow> u64 list \<Rightarrow> bool" where
  "fchain nx x [] \<longleftrightarrow> x = 0"
| "fchain nx x (a # as) \<longleftrightarrow> x = a \<and> a \<noteq> 0 \<and> fchain nx (nx a) as"

lemma fchain_cong: "\<forall>a\<in>set as. nx' a = nx a \<Longrightarrow> fchain nx' x as = fchain nx x as"
  by (induction as arbitrary: x) auto

lemma fchain_zero: "fchain nx 0 as \<Longrightarrow> as = []"
  by (cases as) auto

definition lnk :: "pool \<Rightarrow> u64 \<Rightarrow> u64" where
  "lnk st h = vnum (the (pmem st h))"

definition live :: "pool \<Rightarrow> u64 \<Rightarrow> bool" where
  "live st h \<longleftrightarrow> (\<exists>b. pmem st h = Some b \<and> mpIndex b \<noteq> 0)"

lemma live_code [code]: "live st h = (case pmem st h of None \<Rightarrow> False | Some b \<Rightarrow> mpIndex b \<noteq> 0)"
  by (simp add: live_def split: option.splits)

definition blk_ok :: "u64 \<Rightarrow> u64 \<Rightarrow> pblock \<Rightarrow> bool" where
  "blk_ok v h b \<longleftrightarrow> h \<noteq> 0 \<and> unat h < 2 ^ 56
     \<and> (mpIndex b \<noteq> 0 \<longrightarrow> mpIndex b < 64 \<and> psize b = 2 ^ mpIndex b \<and> unat (take_bit 56 (vnum b)) \<le> unat v)"

definition free_ok :: "pool \<Rightarrow> (nat \<Rightarrow> u64 list) \<Rightarrow> bool" where
  "free_ok st fl \<longleftrightarrow> length (pheads st) = 64 \<and> (\<forall>i<64. fchain (lnk st) (pheads st ! i) (fl i))
     \<and> (\<forall>i. distinct (fl i)) \<and> (\<forall>i j h. h \<in> set (fl i) \<and> h \<in> set (fl j) \<longrightarrow> i = j)
     \<and> (\<forall>i. \<forall>h\<in>set (fl i). i < 64 \<and> (\<exists>b. pmem st h = Some b \<and> mpIndex b = 0 \<and> psize b = 2 ^ i \<and> kids b = []))"

definition pool_ok :: "pool \<Rightarrow> u64 set \<Rightarrow> (nat \<Rightarrow> u64 list) \<Rightarrow> bool" where
  "pool_ok st D fl \<longleftrightarrow> free_ok st fl \<and> (\<forall>h b. pmem st h = Some b \<longrightarrow> blk_ok (pvn st) h b)
     \<and> (\<forall>h b. pmem st h = Some b \<and> mpIndex b = 0 \<longrightarrow> h \<in> D \<or> (\<exists>i. h \<in> set (fl i)))
     \<and> (\<forall>h\<in>D. (\<forall>i. h \<notin> set (fl i)) \<and> (\<exists>b. pmem st h = Some b \<and> mpIndex b = 0))"

lemma free_ok_uniq: "free_ok st fl \<Longrightarrow> h \<in> set (fl i) \<Longrightarrow> h \<in> set (fl j) \<Longrightarrow> i = j"
  unfolding free_ok_def by blast

lemma free_ok_block:
  "free_ok st fl \<Longrightarrow> h \<in> set (fl i) \<Longrightarrow> i < 64 \<and> (\<exists>b. pmem st h = Some b \<and> mpIndex b = 0 \<and> psize b = 2 ^ i \<and> kids b = [])"
  unfolding free_ok_def by blast

lemma pool_ok_blk: "pool_ok st D fl \<Longrightarrow> pmem st h = Some b \<Longrightarrow> blk_ok (pvn st) h b"
  by (simp add: pool_ok_def)

lemma pool_ok_dying: "pool_ok st D fl \<Longrightarrow> h \<in> D \<Longrightarrow> h \<notin> set (fl i) \<and> (\<exists>b. pmem st h = Some b \<and> mpIndex b = 0)"
  unfolding pool_ok_def by blast

lemma pool_ok_dead: "pool_ok st D fl \<Longrightarrow> pmem st h = Some b \<Longrightarrow> mpIndex b = 0 \<Longrightarrow> h \<in> D \<or> (\<exists>i. h \<in> set (fl i))"
  unfolding pool_ok_def by blast

lemma blk_ok_mono: "blk_ok v h b \<Longrightarrow> unat v \<le> unat v' \<Longrightarrow> blk_ok v' h b"
  by (auto simp: blk_ok_def)

lemma pool_ok_free:
  assumes "pool_ok st D fl" "h \<in> set (fl i)"
  shows "i < 64" "\<exists>b. pmem st h = Some b \<and> mpIndex b = 0 \<and> psize b = 2 ^ i \<and> kids b = []" "\<not> live st h" "h \<notin> D" "h \<noteq> 0"
proof -
  show i: "i < 64" and b: "\<exists>b. pmem st h = Some b \<and> mpIndex b = 0 \<and> psize b = 2 ^ i \<and> kids b = []"
    using assms by (auto simp: pool_ok_def free_ok_def)
  show "\<not> live st h" using b by (auto simp: live_def)
  show "h \<notin> D" using assms by (auto simp: pool_ok_def)
  show "h \<noteq> 0" using b assms(1) by (auto simp: pool_ok_def blk_ok_def)
qed

lemma pool_ok_head_small:
  assumes "pool_ok st D fl" "i < 64"
  shows "unat (pheads st ! i) < 2 ^ 56"
proof (cases "fl i")
  case Nil
  then show ?thesis using assms by (auto simp: pool_ok_def free_ok_def dest!: spec [of _ i])
next
  case (Cons a as)
  then have "pheads st ! i = a" using assms by (auto simp: pool_ok_def free_ok_def dest!: spec [of _ i])
  moreover obtain b where "pmem st a = Some b" using pool_ok_free(2) [OF assms(1), of a i] Cons by auto
  ultimately show ?thesis using assms(1) by (auto simp: pool_ok_def blk_ok_def)
qed

text \<open>Changing a block that stays in use, or keeps its header.\<close>

lemma pool_ok_upd:
  assumes ok: "pool_ok st D fl" and b: "pmem st h = Some b"
    and b': "vnum b' = vnum b" "psize b' = psize b" "mpIndex b = 0 \<Longrightarrow> kids b = [] \<Longrightarrow> kids b' = []"
  shows "pool_ok (set_blk h b' st) D fl"
proof -
  have m: "mpIndex b' = mpIndex b" using b'(1) by (simp add: mpIndex_def)
  have l: "lnk (set_blk h b' st) = lnk st" using b b'(1) by (auto simp: lnk_def set_blk_def)
  have "free_ok (set_blk h b' st) fl"
    using ok b m b' unfolding pool_ok_def free_ok_def l by (fastforce simp: set_blk_def)
  then show ?thesis using ok b m b' by (auto simp: pool_ok_def set_blk_def blk_ok_def)
qed

lemma live_upd: "vnum b' = vnum b \<Longrightarrow> pmem st h = Some b \<Longrightarrow> live (set_blk h b' st) = live st"
  by (auto simp: live_def set_blk_def fun_eq_iff mpIndex_def)

section \<open>Taking and returning blocks\<close>

lemma pool_ok_pop:
  assumes ok: "pool_ok st D fl" and i: "i < 64" "pheads st ! i \<noteq> 0"
  shows "\<exists>h b as. pheads st ! i = h \<and> fl i = h # as \<and> pmem st h = Some b \<and> psize b = 2 ^ i \<and> kids b = [] \<and> \<not> live st h \<and> h \<notin> D"
proof -
  obtain h as where f: "fl i = h # as" using ok i by (cases "fl i") (auto simp: pool_ok_def free_ok_def dest!: spec [of _ i])
  moreover have "pheads st ! i = h" using ok i(1) f by (auto simp: pool_ok_def free_ok_def dest!: spec [of _ i])
  ultimately show ?thesis using pool_ok_free [OF ok, of h i] by auto
qed

text \<open>A block that is handed out: its header holds a new version number and its size class.\<close>

lemma blk_ok_new:
  assumes i: "0 < i" "i < 64" and v: "unat (pvn st) + 1 < 2 ^ 56" and st': "pvn st' = pvn st + 1" and ok: "pool_ok st D fl"
    and h: "h \<noteq> 0" "unat h < 2 ^ 56" "psize b = 2 ^ i" "vnum b = tag (pvn st + 1) i" and mem: "pmem st' = (pmem st)(h \<mapsto> b)"
  shows "mpIndex b = i" "\<forall>x c. pmem st' x = Some c \<longrightarrow> blk_ok (pvn st') x c"
proof -
  show m: "mpIndex b = i" using i h(4) by (simp add: mpIndex_def tag_top)
  have un: "unat (pvn st + 1) = unat (pvn st) + 1" using v by (simp add: unat_word_ariths)
  have tb: "unat (take_bit 56 (vnum b)) \<le> unat (pvn st + 1)"
    by (simp add: h(4) tag_low unsigned_take_bit_eq take_bit_nat_less_eq_self)
  have "blk_ok (pvn st') x c" if c: "pmem st' x = Some c" for x c
  proof (cases "x = h")
    case True
    then show ?thesis using c mem m h i tb by (simp add: blk_ok_def st')
  next
    case False
    then have "blk_ok (pvn st) x c" using c mem by (intro pool_ok_blk [OF ok]) simp
    then show ?thesis by (rule blk_ok_mono) (use un in \<open>simp add: st'\<close>)
  qed
  then show "\<forall>x c. pmem st' x = Some c \<longrightarrow> blk_ok (pvn st') x c" by blast
qed

lemma free_ok_pop:
  assumes fo: "free_ok st fl" and i: "i < 64" and f: "fl i = h # as" "pmem st h = Some b"
    and st': "pmem st' = (pmem st)(h \<mapsto> b')" "pheads st' = (pheads st)[i := vnum b]"
  shows "free_ok st' (fl(i := as))" "\<And>j. h \<notin> set ((fl(i := as)) j)" "\<And>j. set ((fl(i := as)) j) \<subseteq> set (fl j)"
proof -
  let ?fl = "fl(i := as)"
  have d: "distinct (fl j)" for j using fo by (simp add: free_ok_def)
  show nin: "h \<notin> set (?fl j)" for j
    using d [of i] f free_ok_uniq [OF fo, of h i j] by (cases "j = i") auto
  show sub: "set (?fl j) \<subseteq> set (fl j)" for j using f by auto
  have "fchain (lnk st') (pheads st' ! j) (?fl j)" if "j < 64" for j
  proof -
    have "fchain (lnk st') (pheads st' ! j) (?fl j) = fchain (lnk st) (pheads st' ! j) (?fl j)"
      using nin [of j] by (intro fchain_cong) (auto simp: lnk_def st')
    moreover have "fchain (lnk st) (pheads st' ! j) (?fl j)"
      using fo f that i by (cases "j = i") (auto simp: free_ok_def st' lnk_def dest!: spec [of _ j])
    ultimately show ?thesis by simp
  qed
  moreover have "distinct (?fl j)" for j using d [of j] f by (cases "j = i") auto
  moreover have "j = k" if "x \<in> set (?fl j) \<and> x \<in> set (?fl k)" for j k x
    using that sub [of j] sub [of k] free_ok_uniq [OF fo, of x j k] by blast
  moreover have "j < 64 \<and> (\<exists>b. pmem st' x = Some b \<and> mpIndex b = 0 \<and> psize b = 2 ^ j \<and> kids b = [])" if "x \<in> set (?fl j)" for x j
  proof -
    have "x \<in> set (fl j)" "x \<noteq> h" using that sub [of j] nin [of j] by auto
    then show ?thesis using free_ok_block [OF fo, of x j] by (simp add: st')
  qed
  moreover have "length (pheads st') = 64" using fo by (simp add: free_ok_def st')
  ultimately show "free_ok st' ?fl" unfolding free_ok_def by blast
qed

lemma pool_ok_take:
  assumes ok: "pool_ok st D fl" and i: "0 < i" "i < 64" and v: "unat (pvn st) + 1 < 2 ^ 56"
    and f: "fl i = h # as" "pmem st h = Some b"
  shows "pool_ok (set_blk h (b\<lparr>vnum := tag (pvn st + 1) i\<rparr>) (st\<lparr>pheads := (pheads st)[i := vnum b], pvn := pvn st + 1\<rparr>)) D (fl(i := as))"
    (is "pool_ok ?st D ?fl")
proof -
  let ?b = "b\<lparr>vnum := tag (pvn st + 1) i\<rparr>"
  have fo: "free_ok st fl" using ok by (simp add: pool_ok_def)
  have h: "psize b = 2 ^ i" "h \<notin> D" "h \<noteq> 0" "unat h < 2 ^ 56"
    using pool_ok_free [OF ok, of h i] pool_ok_blk [OF ok f(2)] f by (auto simp: blk_ok_def)
  have mem: "pmem ?st = (pmem st)(h \<mapsto> ?b)" "pheads ?st = (pheads st)[i := vnum b]" "pvn ?st = pvn st + 1" by (simp_all add: set_blk_def)
  note n = blk_ok_new [OF i v mem(3) ok h(3,4) _ _ mem(1), simplified, OF h(1)] and p = free_ok_pop [OF fo i(2) f mem(1,2)]
  have "x \<in> D \<or> (\<exists>j. x \<in> set (?fl j))" if c: "pmem ?st x = Some c" "mpIndex c = 0" for x c
  proof -
    have x: "x \<noteq> h" using c n(1) i mem(1) by auto
    then have "x \<in> D \<or> (\<exists>j. x \<in> set (fl j))" using c mem(1) pool_ok_dead [OF ok, of x c] by simp
    moreover have "x \<in> set (?fl j)" if "x \<in> set (fl j)" for j using that f x by (cases "j = i") auto
    ultimately show ?thesis by blast
  qed
  moreover have "(\<forall>j. x \<notin> set (?fl j)) \<and> (\<exists>c. pmem ?st x = Some c \<and> mpIndex c = 0)" if x: "x \<in> D" for x
  proof -
    have "x \<notin> set (?fl j)" for j using pool_ok_dying [OF ok x, of j] p(3) [of j] by blast
    then show ?thesis using pool_ok_dying [OF ok x] x h(2) mem(1) by auto
  qed
  ultimately show ?thesis using p(1) n(2) unfolding pool_ok_def by blast
qed

lemma pool_ok_fresh:
  assumes ok: "pool_ok st D fl" and i: "0 < i" "i < 64" and v: "unat (pvn st) + 1 < 2 ^ 56"
    and m: "m \<noteq> 0" "unat m < 2 ^ 56" "pmem st m = None"
  shows "pool_ok (set_blk m ((raw_block (2 ^ i))\<lparr>vnum := tag (pvn st + 1) i\<rparr>) (st\<lparr>pvn := pvn st + 1\<rparr>)) D fl"
    (is "pool_ok ?st D fl")
proof -
  let ?b = "(raw_block (2 ^ i))\<lparr>vnum := tag (pvn st + 1) i\<rparr>"
  have mem: "pmem ?st = (pmem st)(m \<mapsto> ?b)" "pvn ?st = pvn st + 1" by (simp_all add: set_blk_def)
  have b: "psize ?b = 2 ^ i" "vnum ?b = tag (pvn st + 1) i" by (simp_all add: raw_block_def)
  note n = blk_ok_new [OF i v mem(2) ok m(1,2) b mem(1)]
  have fo: "free_ok st fl" and D: "m \<notin> D" using ok m by (auto simp: pool_ok_def)
  have nin: "m \<notin> set (fl j)" for j using free_ok_block [OF fo] m by fastforce
  have "fchain (lnk ?st) x (fl j) = fchain (lnk st) x (fl j)" for x j
    using nin [of j] by (intro fchain_cong) (auto simp: lnk_def set_blk_def)
  moreover have "\<exists>c. pmem ?st x = Some c \<and> mpIndex c = 0 \<and> psize c = 2 ^ j \<and> kids c = []" if "x \<in> set (fl j)" for x j
    using that free_ok_block [OF fo that] nin [of j] by (auto simp: set_blk_def)
  ultimately have "free_ok ?st fl" using fo unfolding free_ok_def by (simp add: set_blk_def)
  moreover have "x \<in> D \<or> (\<exists>j. x \<in> set (fl j))" if "pmem ?st x = Some c" "mpIndex c = 0" for x c
    using that ok n(1) i by (auto simp: pool_ok_def set_blk_def split: if_splits)
  moreover have "(\<forall>j. x \<notin> set (fl j)) \<and> (\<exists>c. pmem ?st x = Some c \<and> mpIndex c = 0)" if "x \<in> D" for x
    using that ok D by (auto simp: pool_ok_def set_blk_def)
  ultimately show ?thesis using n(2) unfolding pool_ok_def by blast
qed

lemma free_ok_push:
  assumes fo: "free_ok st fl" and h: "h \<noteq> 0" "\<And>j. h \<notin> set (fl j)" and i: "i < 64"
    and st': "pmem st' = (pmem st)(h \<mapsto> b')" "pheads st' = (pheads st)[i := h]"
    and b': "vnum b' = pheads st ! i" "kids b' = []" "psize b' = 2 ^ i" "mpIndex b' = 0"
  shows "free_ok st' (fl(i := h # fl i))"
proof -
  let ?fl = "fl(i := h # fl i)"
  have len: "length (pheads st) = 64" using fo by (simp add: free_ok_def)
  have old: "x \<in> set (fl j)" if "x \<in> set (?fl j)" "x \<noteq> h" for x j using that by (auto split: if_splits)
  have new: "j = i" if "h \<in> set (?fl j)" for j using that h(2) by (metis fun_upd_apply)
  have c: "fchain (lnk st') x (fl j) = fchain (lnk st) x (fl j)" for x j
    using h(2) [of j] by (intro fchain_cong) (auto simp: lnk_def st')
  have "lnk st' h = pheads st ! i" by (simp add: lnk_def st' b')
  then have "fchain (lnk st') (pheads st' ! j) (?fl j)" if "j < 64" for j
    using c fo len h(1) that by (cases "j = i") (simp_all add: free_ok_def st')
  moreover have "distinct (?fl j)" for j using fo h(2) by (simp add: free_ok_def)
  moreover have "j = k" if "x \<in> set (?fl j) \<and> x \<in> set (?fl k)" for j k x
  proof (cases "x = h")
    case True
    then show ?thesis using that new by metis
  next
    case False
    then show ?thesis using that old by (intro free_ok_uniq [OF fo, of x]) blast+
  qed
  moreover have "j < 64 \<and> (\<exists>b. pmem st' x = Some b \<and> mpIndex b = 0 \<and> psize b = 2 ^ j \<and> kids b = [])" if "x \<in> set (?fl j)" for x j
  proof (cases "x = h")
    case True
    then have "j = i" using new that by blast
    then show ?thesis using True i b' by (simp add: st')
  next
    case False
    then show ?thesis using free_ok_block [OF fo old [OF that False]] by (simp add: st')
  qed
  moreover have "length (pheads st') = 64" using len by (simp add: st')
  ultimately show ?thesis unfolding free_ok_def by blast
qed

lemma pool_ok_push:
  assumes ok: "pool_ok st D fl" and h: "pmem st h = Some b" "\<And>j. h \<notin> set (fl j)" "psize b = 2 ^ i" "i < 64"
  shows "pool_ok (set_blk h (b\<lparr>vnum := pheads st ! i, kids := []\<rparr>) (st\<lparr>pheads := (pheads st)[i := h]\<rparr>)) (D - {h}) (fl(i := h # fl i))"
    (is "pool_ok ?st (D - {h}) ?fl")
    and "mpIndex (b\<lparr>vnum := pheads st ! i, kids := []\<rparr>) = 0"
proof -
  let ?b = "b\<lparr>vnum := pheads st ! i, kids := []\<rparr>"
  show mi: "mpIndex ?b = 0"
    using pool_ok_head_small [OF ok h(4)] by (simp add: mpIndex_def drop_bit_small)
  have fo: "free_ok st fl" using ok by (simp add: pool_ok_def)
  have h0: "h \<noteq> 0" "unat h < 2 ^ 56" using ok h(1) by (auto simp: pool_ok_def blk_ok_def)
  have "free_ok ?st ?fl" by (rule free_ok_push [OF fo h0(1) h(2,4), where b' = ?b]) (use h(3) mi in \<open>simp_all add: set_blk_def\<close>)
  moreover have "blk_ok (pvn ?st) x c" if "pmem ?st x = Some c" for x c
    using that ok h0 mi by (cases "x = h") (auto simp: pool_ok_def blk_ok_def set_blk_def)
  moreover have "x \<in> D - {h} \<or> (\<exists>j. x \<in> set (?fl j))" if c: "pmem ?st x = Some c" "mpIndex c = 0" for x c
  proof (cases "x = h")
    case True
    then have "x \<in> set (?fl i)" by simp
    then show ?thesis by blast
  next
    case False
    then have "x \<in> D \<or> (\<exists>j. x \<in> set (fl j))" using c by (intro pool_ok_dead [OF ok]) (auto simp: set_blk_def)
    moreover have "set (fl j) \<subseteq> set (?fl j)" for j by auto
    ultimately show ?thesis using False by blast
  qed
  moreover have "(\<forall>j. x \<notin> set (?fl j)) \<and> (\<exists>c. pmem ?st x = Some c \<and> mpIndex c = 0)" if "x \<in> D - {h}" for x
    using that pool_ok_dying [OF ok, of x] by (auto simp: set_blk_def)
  ultimately show "pool_ok ?st (D - {h}) ?fl" unfolding pool_ok_def by blast
qed


section \<open>Alloc and Free\<close>

definition size_class :: "u64 \<Rightarrow> nat" where
  "size_class n = (let k = the (Calc2n n) in if push_bit k 1 < n then k + 1 else k)"

lemma size_class_ok:
  assumes "2 \<le> unat n" "unat n \<le> 2 ^ 63"
  shows "0 < size_class n" "size_class n < 64" "unat n \<le> 2 ^ size_class n" "2 ^ size_class n < 2 * unat n"
proof -
  have n0: "n \<noteq> 0" using assms(1) by auto
  obtain k where k: "Calc2n n = Some k" using Calc2n_total [OF n0] by blast
  note b = Calc2n_bounds [OF k]
  have k64: "k < 64" using b by simp
  have lt: "push_bit k 1 < n \<longleftrightarrow> 2 ^ k < unat n" using k64 by (simp add: word_less_nat_alt push_bit_eq_mult unat_two_power)
  have k0: "0 < k" using b assms(1) by (cases k) auto
  have sc: "size_class n = (if 2 ^ k < unat n then k + 1 else k)" using k lt by (simp add: size_class_def)
  have "k < 63" if "2 ^ k < unat n"
  proof (rule ccontr)
    assume "\<not> k < 63"
    then have "(2 :: nat) ^ 63 \<le> 2 ^ k" by (intro power_increasing) auto
    then show False using that assms(2) by linarith
  qed
  then show "0 < size_class n" "size_class n < 64" using sc k0 k64 by auto
  show "unat n \<le> 2 ^ size_class n" using sc b by auto
  show "2 ^ size_class n < 2 * unat n" using sc b by auto
qed

text \<open>What \<^verbatim>\<open>malloc\<close> may return: null, or an address in user space that is not in use.\<close>

definition malloc_ok :: "u64 \<Rightarrow> pool \<Rightarrow> bool" where
  "malloc_ok m st \<longleftrightarrow> m = 0 \<or> m < 2 ^ 56 \<and> pmem st m = None"

lemma Alloc_ok:
  assumes ok: "pool_ok st D fl" and siz: "siz \<noteq> 0" "unat siz + unat hs \<le> 2 ^ 63" "1 \<le> unat hs"
    and v: "unat (pvn st) + 1 < 2 ^ 56" and m: "malloc_ok m st"
  shows "(Alloc hs siz m st = Some (0, st) \<and> m = 0)
    \<or> (\<exists>h b st' fl'. Alloc hs siz m st = Some (h + hs, st') \<and> pool_ok st' D fl' \<and> \<not> live st h \<and> h \<notin> D \<and> live st' h
        \<and> pmem st' = (pmem st)(h \<mapsto> b) \<and> vnum b = tag (pvn st + 1) (size_class (siz + hs)) \<and> kids b = []
        \<and> unat siz + unat hs \<le> psize b \<and> pvn st' = pvn st + 1 \<and> roots st' = roots st)"
proof -
  have un: "unat (siz + hs) = unat siz + unat hs" using siz(2) by (simp add: unat_word_ariths)
  have s0: "unat siz \<noteq> 0" using siz(1) by (simp add: unat_eq_0)
  define i where "i = size_class (siz + hs)"
  have i: "0 < i" "i < 64" "unat siz + unat hs \<le> 2 ^ i"
    using size_class_ok [of "siz + hs"] un s0 siz(2,3) by (auto simp: i_def)
  obtain k where k: "Calc2n (siz + hs) = Some k" using Calc2n_total [of "siz + hs"] un s0 by fastforce
  have ik: "(if push_bit k 1 < siz + hs then k + 1 else k) = i" using k by (simp add: i_def size_class_def)
  have run: "Alloc hs siz m st = do {
      (p, st) \<leftarrow> (if pheads st ! i \<noteq> 0 then do { b \<leftarrow> pmem st (pheads st ! i); Some (pheads st ! i, st\<lparr>pheads := (pheads st)[i := vnum b]\<rparr>) }
            else Some (m, if m = 0 then st else set_blk m (raw_block (2 ^ i)) st));
      if p = 0 then Some (0, st)
      else do { b \<leftarrow> pmem st p; let v = pvn st + 1; Some (p + hs, set_blk p (b\<lparr>vnum := tag v i\<rparr>) (st\<lparr>pvn := v\<rparr>)) } }"
    using siz(1) k ik i(2) by (simp add: Alloc_def Let_def)
  have mi: "mpIndex (b\<lparr>vnum := tag v i\<rparr>) \<noteq> 0" for b v using i by (simp add: mpIndex_def tag_top)
  show ?thesis
  proof (cases "pheads st ! i = 0")
    case False
    then obtain h b as where h: "pheads st ! i = h" "fl i = h # as" "pmem st h = Some b" "psize b = 2 ^ i" "kids b = []" "\<not> live st h" "h \<notin> D"
      using pool_ok_pop [OF ok i(2)] by blast
    let ?st = "set_blk h (b\<lparr>vnum := tag (pvn st + 1) i\<rparr>) (st\<lparr>pheads := (pheads st)[i := vnum b], pvn := pvn st + 1\<rparr>)"
    have "Alloc hs siz m st = Some (h + hs, ?st)" using run False h by (simp add: Let_def)
    moreover note pool_ok_take [OF ok i(1,2) v h(2,3)]
    moreover have "live ?st h" using mi by (simp add: live_def set_blk_def)
    ultimately show ?thesis using h i by (intro disjI2 exI [of _ h] exI [of _ "b\<lparr>vnum := tag (pvn st + 1) i\<rparr>"] exI [of _ ?st])
        (auto simp: set_blk_def i_def)
  next
    case True
    show ?thesis
    proof (cases "m = 0")
      case m0: True
      then show ?thesis using run True by simp
    next
      case False
      then have mm: "unat m < 2 ^ 56" "pmem st m = None" using m by (auto simp: malloc_ok_def word_less_nat_alt)
      let ?b = "(raw_block (2 ^ i))\<lparr>vnum := tag (pvn st + 1) i\<rparr>"
      let ?st = "set_blk m ?b (st\<lparr>pvn := pvn st + 1\<rparr>)"
      have "Alloc hs siz m st = Some (m + hs, ?st)" using run True False by (simp add: Let_def set_blk_def)
      moreover note pool_ok_fresh [OF ok i(1,2) v False mm]
      moreover have "live ?st m" using mi by (simp add: live_def set_blk_def)
      moreover have "\<not> live st m" "m \<notin> D" using mm pool_ok_dying [OF ok, of m] by (auto simp: live_def)
      ultimately show ?thesis using i by (intro disjI2 exI [of _ m] exI [of _ ?b] exI [of _ ?st])
          (auto simp: set_blk_def i_def raw_block_def)
    qed
  qed
qed

lemma Free_ok:
  assumes ok: "pool_ok st D fl" and h: "live st h" "h + hs \<noteq> 0"
  shows "\<exists>st' fl'. Free hs (h + hs) st = Some st' \<and> pool_ok st' D fl' \<and> \<not> live st' h
    \<and> (\<forall>h'. h' \<noteq> h \<longrightarrow> pmem st' h' = pmem st h') \<and> (\<exists>b. pmem st' h = Some b \<and> kids b = [])
    \<and> pvn st' = pvn st \<and> roots st' = roots st"
proof -
  obtain b where b: "pmem st h = Some b" "mpIndex b \<noteq> 0" using h(1) by (auto simp: live_def)
  have bo: "mpIndex b < 64" "psize b = 2 ^ mpIndex b" using pool_ok_blk [OF ok b(1)] b(2) by (auto simp: blk_ok_def)
  have nfl: "h \<notin> set (fl j)" for j using pool_ok_free(3) [OF ok] h(1) by blast
  have "h \<notin> D" using pool_ok_dying [OF ok, of h] b by auto
  then have D: "D - {h} = D" by auto
  note P = pool_ok_push [OF ok b(1) nfl bo(2,1), unfolded D]
  let ?st = "set_blk h (b\<lparr>vnum := pheads st ! mpIndex b, kids := []\<rparr>) (st\<lparr>pheads := (pheads st)[mpIndex b := h]\<rparr>)"
  have "Free hs (h + hs) st = Some ?st" using h(2) b bo by (simp add: Free_def Let_def)
  moreover have "\<not> live ?st h" using P(2) by (simp add: live_def set_blk_def)
  ultimately show ?thesis using P(1) by (intro exI [of _ ?st]) (auto simp: set_blk_def)
qed

section \<open>Locations\<close>

lemma ptr_at_upd: "pmem st h = Some b \<Longrightarrow> kids b' = kids b \<Longrightarrow> ptr_at l (set_blk h b' st) = ptr_at l st"
  by (auto simp: ptr_at_def set_blk_def split: ploc.splits)

lemma ptr_put_ex: "ptr_at l st = Some w \<Longrightarrow> \<exists>st'. ptr_put l v st = Some st'"
  by (auto simp: ptr_at_def ptr_put_def bind_Some_iff split: ploc.splits if_splits)

lemma ptr_put_at: "ptr_put l v st = Some st' \<Longrightarrow> ptr_at l' st' = (if l' = l then Some v else ptr_at l' st)"
  by (auto simp: ptr_at_def ptr_put_def bind_Some_iff set_blk_def split: ploc.splits if_splits)

lemma ptr_put_mem:
  assumes "ptr_put l v st = Some st'"
  shows "pmem st' h = Some b' \<Longrightarrow> \<exists>b. pmem st h = Some b \<and> vnum b' = vnum b \<and> prefs b' = prefs b \<and> ptypeId b' = ptypeId b \<and> psize b' = psize b"
    and "pmem st h = Some b \<Longrightarrow> \<exists>b'. pmem st' h = Some b' \<and> vnum b' = vnum b \<and> prefs b' = prefs b \<and> ptypeId b' = ptypeId b \<and> psize b' = psize b"
    and "live st' = live st" "pvn st' = pvn st" "length (roots st') = length (roots st)" "dom (pmem st') = dom (pmem st)"
  using assms by (auto simp: ptr_put_def bind_Some_iff set_blk_def live_def mpIndex_def fun_eq_iff split: ploc.splits if_splits)

lemma pool_ok_roots: "pool_ok (st\<lparr>roots := r\<rparr>) D fl = pool_ok st D fl"
proof -
  have "lnk (st\<lparr>roots := r\<rparr>) = lnk st" by (simp add: lnk_def fun_eq_iff)
  then show ?thesis by (simp add: pool_ok_def free_ok_def)
qed

lemma ptr_put_pool_ok: "ptr_put l v st = Some st' \<Longrightarrow> pool_ok st D fl \<Longrightarrow> pool_ok st' D fl"
proof (cases l)
  case (Root i)
  assume "ptr_put l v st = Some st'" "pool_ok st D fl"
  then show ?thesis using Root by (auto simp: ptr_put_def pool_ok_roots split: if_splits)
next
  case (Member p i)
  assume "ptr_put l v st = Some st'" "pool_ok st D fl"
  then show ?thesis using Member pool_ok_upd by (auto simp: ptr_put_def bind_Some_iff split: if_splits)
qed

lemma finite_locs: "finite {l. ptr_at l st \<noteq> None}"
proof (rule finite_subset)
  show "{l. ptr_at l st \<noteq> None} \<subseteq> Root ` {..<length (roots st)}
      \<union> (\<Union>p. Member p ` {..<length (kids (the (pmem st (hdr p))))})"
  proof
    fix l assume "l \<in> {l. ptr_at l st \<noteq> None}"
    then show "l \<in> Root ` {..<length (roots st)} \<union> (\<Union>p. Member p ` {..<length (kids (the (pmem st (hdr p))))})"
    proof (cases l)
      case (Member p i)
      then have "l \<in> Member p ` {..<length (kids (the (pmem st (hdr p))))}"
        using \<open>l \<in> _\<close> by (auto simp: ptr_at_def bind_Some_iff split: if_splits)
      then show ?thesis by blast
    qed (use \<open>l \<in> _\<close> in \<open>auto simp: ptr_at_def split: if_splits\<close>)
  qed
qed simp

section \<open>Reference counts\<close>

definition inrefs :: "pool \<Rightarrow> ploc set \<Rightarrow> u64 \<Rightarrow> ploc set" where
  "inrefs st E p = {l. l \<notin> E \<and> ptr_at l st = Some p}"

text \<open>
  The counter of every object in use is the number of pointers to it, and every pointer refers to an
  object in use; \<open>E\<close> are the pointers that are just being reset.
\<close>

definition rc :: "pool \<Rightarrow> ploc set \<Rightarrow> bool" where
  "rc st E \<longleftrightarrow> (\<forall>p b. pmem st (hdr p) = Some b \<and> mpIndex b \<noteq> 0 \<longrightarrow> unat (prefs b) = card (inrefs st E p))
     \<and> (\<forall>l p. l \<notin> E \<and> ptr_at l st = Some p \<and> p \<noteq> 0 \<longrightarrow> live st (hdr p))"

lemma finite_inrefs: "finite (inrefs st E p)"
  by (rule finite_subset [OF _ finite_locs [of st]]) (auto simp: inrefs_def)

lemma rc_live: "rc st E \<Longrightarrow> l \<notin> E \<Longrightarrow> ptr_at l st = Some p \<Longrightarrow> p \<noteq> 0 \<Longrightarrow> live st (hdr p)"
  unfolding rc_def by blast

lemma rc_count: "rc st E \<Longrightarrow> pmem st (hdr p) = Some b \<Longrightarrow> mpIndex b \<noteq> 0 \<Longrightarrow> unat (prefs b) = card (inrefs st E p)"
  unfolding rc_def by blast

lemma rc_dec:
  assumes r: "rc st E" and l: "l \<notin> E" "ptr_at l st = Some p" "p \<noteq> 0" and b: "pmem st (hdr p) = Some b" "mpIndex b \<noteq> 0"
  shows "rc (set_blk (hdr p) (b\<lparr>prefs := prefs b - 1\<rparr>) st) (insert l E)" (is "rc ?st _")
proof -
  have at: "ptr_at x ?st = ptr_at x st" for x using b by (intro ptr_at_upd) auto
  have lv: "live ?st = live st" using b(1) by (intro live_upd) auto
  have i: "inrefs ?st (insert l E) q = inrefs st E q - {l}" for q by (auto simp: inrefs_def at)
  have "l \<in> inrefs st E p" using l by (simp add: inrefs_def)
  then have c: "unat (prefs b) = card (inrefs st E p)" "0 < card (inrefs st E p)" "card (inrefs st E p - {l}) = card (inrefs st E p) - 1"
    using rc_count [OF r b] finite_inrefs [of st E p] by (auto simp: card_gt_0_iff)
  then have "unat (prefs b - 1) = unat (prefs b) - 1"
    by (intro unat_minus_one) (auto simp: unat_gt_0)
  moreover have "inrefs st E q - {l} = inrefs st E q" if "q \<noteq> p" for q using that l by (auto simp: inrefs_def)
  ultimately show ?thesis
    using r c unfolding rc_def i lv at by (auto simp: set_blk_def mpIndex_def split: if_splits)
qed

lemma not_null: "pool_ok st D fl \<Longrightarrow> pmem st (hdr p) = Some b \<Longrightarrow> p \<noteq> 0"
  using pool_ok_blk [of st D fl "hdr p" b] by (auto simp: blk_ok_def hdr_def MemHeader_Object_size_def)

lemma rc_clear:
  assumes r: "rc st (insert l E)" and put: "ptr_put l 0 st = Some st'" and ok: "pool_ok st D fl"
  shows "rc st' E"
proof -
  have at: "ptr_at x st' = (if x = l then Some 0 else ptr_at x st)" for x by (rule ptr_put_at [OF put])
  have i: "inrefs st' E q = inrefs st (insert l E) q" if "q \<noteq> 0" for q using that by (auto simp: inrefs_def at)
  show ?thesis
    unfolding rc_def
  proof (intro conjI allI impI)
    fix p b assume p: "pmem st' (hdr p) = Some b \<and> mpIndex b \<noteq> 0"
    then obtain b0 where b0: "pmem st (hdr p) = Some b0" "vnum b = vnum b0" "prefs b = prefs b0" using ptr_put_mem(1) [OF put] by blast
    have "p \<noteq> 0" by (rule not_null [OF ok b0(1)])
    then show "unat (prefs b) = card (inrefs st' E p)"
      using rc_count [OF r b0(1)] p b0 i by (simp add: mpIndex_def)
  next
    fix x p assume "x \<notin> E \<and> ptr_at x st' = Some p \<and> p \<noteq> 0"
    then show "live st' (hdr p)" using rc_live [OF r, of x p] ptr_put_mem(3) [OF put] at by (auto split: if_splits)
  qed
qed

section \<open>Releasing\<close>

definition stays :: "u64 set \<Rightarrow> pool \<Rightarrow> ploc \<Rightarrow> bool" where
  "stays D st l = (case l of Root i \<Rightarrow> True | Member q i \<Rightarrow> hdr q \<in> D \<or> live st (hdr q))"

text \<open>
  What resetting pointers does to the rest: objects may cease to be in use; those that stay keep
  their headers and all pointers but those in \<open>L\<close>; no pointer appears, and an object without pointers stays.
\<close>

definition shrink :: "pool \<Rightarrow> pool \<Rightarrow> u64 set \<Rightarrow> ploc set \<Rightarrow> bool" where
  "shrink st st' D L \<longleftrightarrow> (\<forall>h. live st' h \<longrightarrow> live st h) \<and> length (roots st') = length (roots st) \<and> pvn st' = pvn st
     \<and> dom (pmem st') = dom (pmem st)
     \<and> (\<forall>h b b'. pmem st h = Some b \<and> pmem st' h = Some b' \<longrightarrow> psize b' = psize b \<and> (live st' h \<longrightarrow> vnum b' = vnum b \<and> ptypeId b' = ptypeId b))
     \<and> (\<forall>l. stays D st' l \<longrightarrow> (if l \<in> L then ptr_at l st' = None \<longleftrightarrow> ptr_at l st = None else ptr_at l st' = ptr_at l st))
     \<and> (\<forall>l q. q \<noteq> 0 \<and> ptr_at l st' = Some q \<longrightarrow> ptr_at l st = Some q)
     \<and> (\<forall>q. q \<noteq> 0 \<and> live st (hdr q) \<and> (\<forall>l. ptr_at l st \<noteq> Some q) \<longrightarrow> live st' (hdr q))"

lemma shrink_block:
  "shrink st st' D L \<Longrightarrow> pmem st h = Some b \<Longrightarrow> pmem st' h = Some b' \<Longrightarrow> psize b' = psize b"
  "shrink st st' D L \<Longrightarrow> pmem st h = Some b \<Longrightarrow> pmem st' h = Some b' \<Longrightarrow> live st' h \<Longrightarrow> vnum b' = vnum b \<and> ptypeId b' = ptypeId b"
  unfolding shrink_def by blast+

lemma shrink_parts:
  "shrink st st' D L \<Longrightarrow> live st' h \<Longrightarrow> live st h" "shrink st st' D L \<Longrightarrow> length (roots st') = length (roots st)"
  "shrink st st' D L \<Longrightarrow> pvn st' = pvn st" "shrink st st' D L \<Longrightarrow> dom (pmem st') = dom (pmem st)"
  "shrink st st' D L \<Longrightarrow> q \<noteq> 0 \<Longrightarrow> ptr_at l st' = Some q \<Longrightarrow> ptr_at l st = Some q"
  "shrink st st' D L \<Longrightarrow> q \<noteq> 0 \<Longrightarrow> live st (hdr q) \<Longrightarrow> (\<And>l. ptr_at l st \<noteq> Some q) \<Longrightarrow> live st' (hdr q)"
  unfolding shrink_def by blast+

lemma shrink_at: "shrink st st' D L \<Longrightarrow> stays D st' l \<Longrightarrow> l \<notin> L \<Longrightarrow> ptr_at l st' = ptr_at l st"
  unfolding shrink_def by meson

lemma shrink_None:
  assumes "shrink st st' D L" "stays D st' l"
  shows "ptr_at l st' = None \<longleftrightarrow> ptr_at l st = None"
proof -
  have "if l \<in> L then ptr_at l st' = None \<longleftrightarrow> ptr_at l st = None else ptr_at l st' = ptr_at l st"
    using assms unfolding shrink_def by (elim conjE) (drule spec [of _ l], erule mp)
  then show ?thesis by (simp split: if_splits)
qed

lemma shrink_refl [simp]: "shrink st st D {}"
  by (auto simp: shrink_def)

lemma shrink_trans:
  assumes "shrink a b D L" "shrink b c D L'"
  shows "shrink a c D (L \<union> L')"
proof -
  have st: "stays D b l" if "stays D c l" for l using that shrink_parts(1) [OF assms(2)] by (auto simp: stays_def split: ploc.splits)
  have 1: "psize y = psize x \<and> (live c h \<longrightarrow> vnum y = vnum x \<and> ptypeId y = ptypeId x)" if "pmem a h = Some x" "pmem c h = Some y" for h x y
  proof -
    have "pmem b h \<noteq> None" using that(1) assms(1) unfolding shrink_def by blast
    then obtain z where z: "pmem b h = Some z" by blast
    have "psize z = psize x \<and> (live b h \<longrightarrow> vnum z = vnum x \<and> ptypeId z = ptypeId x)" using assms(1) that(1) z unfolding shrink_def by blast
    moreover have "psize y = psize z \<and> (live c h \<longrightarrow> vnum y = vnum z \<and> ptypeId y = ptypeId z)" "live c h \<longrightarrow> live b h"
      using assms(2) that(2) z unfolding shrink_def by blast+
    ultimately show ?thesis by simp
  qed
  have 2: "if l \<in> L \<union> L' then ptr_at l c = None \<longleftrightarrow> ptr_at l a = None else ptr_at l c = ptr_at l a" if "stays D c l" for l
    using shrink_None [OF assms(1) st [OF that]] shrink_None [OF assms(2) that]
      shrink_at [OF assms(1) st [OF that]] shrink_at [OF assms(2) that] by simp
  have 3: "ptr_at l a = Some q" if "q \<noteq> 0" "ptr_at l c = Some q" for l q
    using shrink_parts(5) [OF assms(1) that(1)] shrink_parts(5) [OF assms(2) that] by blast
  have 4: "live c (hdr q)" if "q \<noteq> 0" "live a (hdr q)" "\<forall>l. ptr_at l a \<noteq> Some q" for q
    using shrink_parts(6) [OF assms(1)] shrink_parts(6) [OF assms(2)] shrink_parts(5) [OF assms(1)] that by metis
  have "(\<forall>h. live c h \<longrightarrow> live a h)" "length (roots c) = length (roots a)" "pvn c = pvn a" "dom (pmem c) = dom (pmem a)"
    using assms unfolding shrink_def by auto
  with 1 2 3 4 show ?thesis unfolding shrink_def by blast
qed

lemma shrink_upd:
  assumes "pmem st h = Some b" "vnum b' = vnum b" "ptypeId b' = ptypeId b" "psize b' = psize b" "kids b' = kids b"
  shows "shrink st (set_blk h b' st) D {}"
proof -
  have lv: "live (set_blk h b' st) = live st" by (rule live_upd [OF assms(2,1)])
  have at: "ptr_at l (set_blk h b' st) = ptr_at l st" for l by (rule ptr_at_upd [OF assms(1,5)])
  have "psize y = psize x \<and> (live st x0 \<longrightarrow> vnum y = vnum x \<and> ptypeId y = ptypeId x)"
    if "pmem st x0 = Some x" "pmem (set_blk h b' st) x0 = Some y" for x0 x y
    using that assms by (cases "x0 = h") (auto simp: set_blk_def)
  moreover have "dom (pmem (set_blk h b' st)) = dom (pmem st)" "roots (set_blk h b' st) = roots st" "pvn (set_blk h b' st) = pvn st"
    using assms(1) by (auto simp: set_blk_def)
  ultimately show ?thesis unfolding shrink_def lv at by auto
qed

lemma shrink_put:
  assumes "ptr_put l 0 st = Some st'" "ptr_at l st = Some w"
  shows "shrink st st' D {l}"
proof -
  have "psize b' = psize b \<and> (live st' h \<longrightarrow> vnum b' = vnum b \<and> ptypeId b' = ptypeId b)" if "pmem st h = Some b" "pmem st' h = Some b'" for h b b'
    using ptr_put_mem(1) [OF assms(1) that(2)] that(1) by auto
  then show ?thesis using ptr_put_at [OF assms(1)] ptr_put_mem(3-6) [OF assms(1)] assms(2) by (auto simp: shrink_def)
qed

lemma shrink_card: "shrink st st' D L \<Longrightarrow> card {h. live st' h} \<le> card {h. live st h}"
  by (rule card_mono) (auto simp: shrink_def)

text \<open>The object that holds the pointer must outlive the reset: it is being destroyed, or a variable refers to it.\<close>

definition pinned :: "u64 set \<Rightarrow> ploc set \<Rightarrow> pool \<Rightarrow> ploc \<Rightarrow> bool" where
  "pinned D E st l = (case l of Root i \<Rightarrow> True
     | Member q i \<Rightarrow> hdr q \<in> D \<or> q \<noteq> 0 \<and> (\<exists>k. Root k \<notin> E \<and> ptr_at (Root k) st = Some q))"

definition releases :: "nat \<Rightarrow> (u64 \<Rightarrow> pool \<Rightarrow> pool option) \<Rightarrow> bool" where
  "releases n R \<longleftrightarrow> (\<forall>st D fl E p b. pool_ok st D fl \<and> rc st E \<and> (\<forall>l\<in>E. pinned D E st l) \<and> pmem st (hdr p) = Some b \<and> mpIndex b \<noteq> 0 \<and> prefs b = 0
     \<and> (\<exists>l. ptr_at l st = Some p) \<and> card {h. live st h} \<le> n \<longrightarrow>
     (\<exists>st' fl'. R p st = Some st' \<and> pool_ok st' D fl' \<and> rc st' E \<and> \<not> live st' (hdr p) \<and> shrink st st' D {}))"

lemma pinned_simps [simp]:
  "pinned D E st (Root i)"
  "pinned D E st (Member q i) \<longleftrightarrow> hdr q \<in> D \<or> q \<noteq> 0 \<and> (\<exists>k. Root k \<notin> E \<and> ptr_at (Root k) st = Some q)"
  by (simp_all add: pinned_def)

lemma shrink_root: "shrink st st' D L \<Longrightarrow> Root k \<notin> L \<Longrightarrow> ptr_at (Root k) st' = ptr_at (Root k) st"
  by (erule shrink_at) (simp_all add: stays_def)

lemma pinned_stays:
  assumes "pinned D E st l" "shrink st st' D L" "\<forall>k. Root k \<notin> L" "rc st' E"
  shows "stays D st' l"
proof (cases l)
  case (Member q i)
  show ?thesis
  proof (cases "hdr q \<in> D")
    case False
    then obtain k where k: "q \<noteq> 0" "Root k \<notin> E" "ptr_at (Root k) st = Some q" using assms(1) Member by (auto simp: pinned_def)
    have "stays D st' (Root k)" by (simp add: stays_def)
    then have "ptr_at (Root k) st' = Some q" using assms(2,3) k(3) unfolding shrink_def by metis
    then have "live st' (hdr q)" using rc_live [OF assms(4), of "Root k" q] k by simp
    then show ?thesis using Member by (simp add: stays_def)
  qed (simp add: Member stays_def)
qed (simp add: stays_def)

lemma pinned_shrink: "pinned D E st l \<Longrightarrow> shrink st st' D L \<Longrightarrow> \<forall>k. Root k \<notin> L \<Longrightarrow> pinned D E st' l"
  using shrink_root [of st st' D L] by (cases l) auto

lemma Reset_ok:
  assumes R: "releases n R" and ok: "pool_ok st D fl" and r: "rc st E" and l: "l \<notin> E" "ptr_at l st = Some p"
    and pn: "\<forall>l'\<in>insert l E. pinned D (insert l E) st l'"
    and n: "card {h. live st h} \<le> n"
  shows "\<exists>st' fl'. Reset_with R l st = Some st' \<and> pool_ok st' D fl' \<and> rc st' E \<and> ptr_at l st' = Some 0 \<and> shrink st st' D {l}"
proof (cases "p = 0")
  case True
  have "shrink st st D {l}" by (auto simp: shrink_def)
  then show ?thesis using True l ok r by (auto simp: Reset_with_def)
next
  case False
  obtain b where b: "pmem st (hdr p) = Some b" "mpIndex b \<noteq> 0" using rc_live [OF r l(1,2) False] by (auto simp: live_def)
  let ?st = "set_blk (hdr p) (b\<lparr>prefs := prefs b - 1\<rparr>) st"
  have r1: "rc ?st (insert l E)" by (rule rc_dec [OF r l(1,2) False b])
  have ok1: "pool_ok ?st D fl" by (rule pool_ok_upd [OF ok b(1)]) auto
  have s1: "shrink st ?st D {}" by (rule shrink_upd [OF b(1)]) auto
  have lv: "live ?st = live st" by (rule live_upd [OF _ b(1)]) simp
  have b1: "pmem ?st (hdr p) = Some (b\<lparr>prefs := prefs b - 1\<rparr>)" "mpIndex (b\<lparr>prefs := prefs b - 1\<rparr>) \<noteq> 0"
    using b(2) by (simp_all add: set_blk_def mpIndex_def)
  obtain st2 fl2 where 2: "(if prefs b - 1 = 0 then R p ?st else Some ?st) = Some st2" "pool_ok st2 D fl2" "rc st2 (insert l E)" "shrink st st2 D {}"
  proof (cases "prefs b - 1 = 0")
    case True
    then have "pool_ok ?st D fl \<and> rc ?st (insert l E) \<and> (\<forall>l'\<in>insert l E. pinned D (insert l E) ?st l') \<and> pmem ?st (hdr p) = Some (b\<lparr>prefs := prefs b - 1\<rparr>)
        \<and> mpIndex (b\<lparr>prefs := prefs b - 1\<rparr>) \<noteq> 0 \<and> prefs (b\<lparr>prefs := prefs b - 1\<rparr>) = 0 \<and> (\<exists>l. ptr_at l ?st = Some p) \<and> card {h. live ?st h} \<le> n"
      using ok1 r1 b1 n lv pn pinned_shrink [OF _ s1] l(2) ptr_at_upd [OF b(1)] by auto
    then obtain st2 fl2 where "R p ?st = Some st2" "pool_ok st2 D fl2" "rc st2 (insert l E)" "shrink ?st st2 D {}"
      using R unfolding releases_def by blast
    then show thesis using that True shrink_trans [OF s1] by fastforce
  next
    case False
    then show thesis using that ok1 r1 s1 by simp
  qed
  have "stays D st2 l" by (rule pinned_stays [OF _ 2(4) _ 2(3)]) (use pn in simp_all)
  then have l2: "ptr_at l st2 = Some p" using 2(4) l(2) unfolding shrink_def by (metis empty_iff)
  then obtain st3 where put: "ptr_put l 0 st2 = Some st3" using ptr_put_ex by blast
  have "Reset_with R l st = Some st3" using l(2) False b 2(1) put by (simp add: Reset_with_def memHeader_def Let_def)
  moreover have "pool_ok st3 D fl2" by (rule ptr_put_pool_ok [OF put 2(2)])
  moreover have "rc st3 E" by (rule rc_clear [OF 2(3) put 2(2)])
  moreover have "ptr_at l st3 = Some 0" using ptr_put_at [OF put, of l] by simp
  moreover have "shrink st st3 D {l}" using shrink_trans [OF 2(4) shrink_put [OF put l2]] by simp
  ultimately show ?thesis by blast
qed

lemma Reset_members_ok:
  assumes "releases n R" "pool_ok st D fl" "rc st E" "hdr p \<in> D" "\<forall>l\<in>E. pinned D E st l" "\<forall>i. Member p i \<notin> E"
    and "\<forall>i\<in>set is. ptr_at (Member p i) st \<noteq> None" "distinct is" "card {h. live st h} \<le> n"
  shows "\<exists>st' fl'. kfold (\<lambda>i. Reset_with R (Member p i)) is st = Some st' \<and> pool_ok st' D fl' \<and> rc st' E
    \<and> (\<forall>i\<in>set is. ptr_at (Member p i) st' = Some 0) \<and> shrink st st' D (Member p ` set is)"
  using assms
proof (induction "is" arbitrary: st fl)
  case (Cons i "is")
  obtain v where v: "ptr_at (Member p i) st = Some v" using Cons.prems(7) by auto
  have "\<forall>l'\<in>insert (Member p i) E. pinned D (insert (Member p i) E) st l'"
    using Cons.prems(4,5) by (auto simp: pinned_def split: ploc.splits)
  from Reset_ok [OF Cons.prems(1-3) _ v this Cons.prems(9)] Cons.prems(6)
  obtain st1 fl1 where 1: "Reset_with R (Member p i) st = Some st1" "pool_ok st1 D fl1" "rc st1 E"
    "ptr_at (Member p i) st1 = Some 0" "shrink st st1 D {Member p i}" by blast
  have st: "stays D s (Member p j)" for s j using Cons.prems(4) by (simp add: stays_def)
  have pn: "\<forall>l\<in>E. pinned D E st1 l" using Cons.prems(5) pinned_shrink [OF _ 1(5)] by simp
  have "\<forall>j\<in>set is. ptr_at (Member p j) st1 \<noteq> None"
    using 1(5) st Cons.prems(7) unfolding shrink_def by (metis list.set_intros(2))
  moreover have "card {h. live st1 h} \<le> n" using shrink_card [OF 1(5)] Cons.prems(9) by linarith
  moreover have "distinct is" "i \<notin> set is" using Cons.prems(8) by auto
  ultimately obtain st2 fl2 where 2: "kfold (\<lambda>i. Reset_with R (Member p i)) is st1 = Some st2" "pool_ok st2 D fl2" "rc st2 E"
      "\<forall>i\<in>set is. ptr_at (Member p i) st2 = Some 0" "shrink st1 st2 D (Member p ` set is)"
    using Cons.IH [OF Cons.prems(1) 1(2,3) Cons.prems(4) pn Cons.prems(6)] by blast
  have "Member p i \<notin> Member p ` set is" using \<open>i \<notin> set is\<close> by auto
  then have "ptr_at (Member p i) st2 = Some 0" using 2(5) st 1(4) unfolding shrink_def by metis
  then show ?case using 1(1) 2 shrink_trans [OF 1(5) 2(5)] by auto
qed auto

lemma pool_ok_start_dying:
  assumes ok: "pool_ok st D fl" and b: "pmem st h = Some b" "mpIndex b \<noteq> 0"
  shows "pool_ok (set_blk h (b\<lparr>vnum := 0\<rparr>) st) (insert h D) fl" (is "pool_ok ?st _ _")
proof -
  have z: "mpIndex (b\<lparr>vnum := 0\<rparr>) = 0" by (simp add: mpIndex_def)
  have nfl: "h \<notin> set (fl j)" for j using pool_ok_free(3) [OF ok] b by (auto simp: live_def)
  have fo: "free_ok st fl" using ok by (simp add: pool_ok_def)
  have "fchain (lnk ?st) x (fl j) = fchain (lnk st) x (fl j)" for x j
    using nfl [of j] by (intro fchain_cong) (auto simp: lnk_def set_blk_def)
  moreover have "\<exists>c. pmem ?st x = Some c \<and> mpIndex c = 0 \<and> psize c = 2 ^ j \<and> kids c = []" if "x \<in> set (fl j)" for x j
    using free_ok_block [OF fo that] nfl [of j] that by (auto simp: set_blk_def)
  ultimately have "free_ok ?st fl" using fo unfolding free_ok_def by (simp add: set_blk_def)
  moreover have "blk_ok (pvn ?st) x c" if "pmem ?st x = Some c" for x c
    using that pool_ok_blk [OF ok, of x] b z by (cases "x = h") (auto simp: blk_ok_def set_blk_def)
  moreover have "x \<in> insert h D \<or> (\<exists>j. x \<in> set (fl j))" if "pmem ?st x = Some c" "mpIndex c = 0" for x c
    using that pool_ok_dead [OF ok, of x] by (cases "x = h") (auto simp: set_blk_def)
  moreover have "(\<forall>j. x \<notin> set (fl j)) \<and> (\<exists>c. pmem ?st x = Some c \<and> mpIndex c = 0)" if "x \<in> insert h D" for x
    using that pool_ok_dying [OF ok, of x] nfl z by (cases "x = h") (auto simp: set_blk_def)
  ultimately show ?thesis unfolding pool_ok_def by blast
qed

lemma rc_start_dying:
  assumes r: "rc st E" and b: "pmem st (hdr p) = Some b" "mpIndex b \<noteq> 0" "prefs b = 0"
  shows "rc (set_blk (hdr p) (b\<lparr>vnum := 0\<rparr>) st) E" (is "rc ?st _")
proof -
  have z: "mpIndex (b\<lparr>vnum := 0\<rparr>) = 0" by (simp add: mpIndex_def)
  have at: "ptr_at x ?st = ptr_at x st" for x using b by (intro ptr_at_upd) auto
  have i: "inrefs ?st E q = inrefs st E q" for q by (auto simp: inrefs_def at)
  have "card (inrefs st E p) = 0" using rc_count [OF r b(1,2)] b(3) by simp
  then have none: "inrefs st E p = {}" using finite_inrefs by simp
  have "live ?st (hdr q)" if "live st (hdr q)" "q \<noteq> p" for q using that by (auto simp: live_def set_blk_def)
  moreover have "q \<noteq> p" if "l \<notin> E" "ptr_at l st = Some q" for l q using that none by (auto simp: inrefs_def)
  ultimately show ?thesis
    using r z unfolding rc_def i at by (auto simp: set_blk_def split: if_splits)
qed

text \<open>The end of \<^verbatim>\<open>Release\<close>: the block goes to its free list; its members, all null by now, are gone.\<close>

lemma rc_end_dying:
  assumes r: "rc st E" and h: "pmem st (hdr p) = Some b" "mpIndex b = 0" and z: "\<forall>i. ptr_at (Member p i) st \<noteq> None \<longrightarrow> ptr_at (Member p i) st = Some 0"
    and st': "pmem st' = (pmem st)(hdr p \<mapsto> b')" "mpIndex b' = 0" "kids b' = []" "roots st' = roots st" and ok: "pool_ok st D fl"
  shows "rc st' E" "\<And>l. ptr_at l st' = (case l of Root i \<Rightarrow> ptr_at l st | Member q i \<Rightarrow> if q = p then None else ptr_at l st)"
    "live st' = live st"
proof -
  show at: "ptr_at l st' = (case l of Root i \<Rightarrow> ptr_at l st | Member q i \<Rightarrow> if q = p then None else ptr_at l st)" for l
    using st' by (auto simp: ptr_at_def split: ploc.splits)
  show lv: "live st' = live st" using st' h by (auto simp: live_def fun_eq_iff)
  have i: "inrefs st' E q = inrefs st E q" if "q \<noteq> 0" for q
  proof -
    have "ptr_at l st' = Some q \<longleftrightarrow> ptr_at l st = Some q" for l using z that by (cases l) (auto simp: at)
    then show ?thesis by (simp add: inrefs_def)
  qed
  have nz: "q \<noteq> 0" if "pmem st' (hdr q) = Some c" "mpIndex c \<noteq> 0" for q c
  proof -
    have "live st (hdr q)" using that lv by (auto simp: live_def fun_eq_iff)
    then show ?thesis using not_null [OF ok] by (auto simp: live_def)
  qed
  have old: "ptr_at l st = Some q" if "ptr_at l st' = Some q" for l q using that by (cases l) (auto simp: at split: if_splits)
  show "rc st' E"
    unfolding rc_def lv
  proof (intro conjI allI impI)
    fix q c assume c: "pmem st' (hdr q) = Some c \<and> mpIndex c \<noteq> 0"
    then have "pmem st (hdr q) = Some c" using st'(1,2) by (auto split: if_splits)
    then show "unat (prefs c) = card (inrefs st' E q)" using c i nz rc_count [OF r] by metis
  next
    fix l q assume "l \<notin> E \<and> ptr_at l st' = Some q \<and> q \<noteq> 0"
    then show "live st (hdr q)" using old rc_live [OF r] by blast
  qed
qed

text \<open>What the destruction of an object changes, from the resets of its members.\<close>

lemma shrink_destroyed:
  fixes b :: pblock
  defines "b1 \<equiv> b\<lparr>vnum := 0\<rparr>"
  assumes b: "pmem st (hdr p) = Some b" and lv1: "\<And>h. live (set_blk (hdr p) b1 st) h \<longleftrightarrow> live st h \<and> h \<noteq> hdr p"
    and at1: "\<And>x. ptr_at x (set_blk (hdr p) b1 st) = ptr_at x st" and l0: "ptr_at l0 st = Some p" and hD: "hdr p \<notin> D"
    and s: "shrink (set_blk (hdr p) b1 st) st2 (insert (hdr p) D) (Member p ` I)" and b2: "pmem st2 (hdr p) = Some b2" "mpIndex b2 = 0" "psize b2 = psize b"
    and mem3: "pmem st3 = (pmem st2)(hdr p \<mapsto> b2\<lparr>vnum := v, kids := []\<rparr>)" "roots st3 = roots st2" "pvn st3 = pvn st2"
    and at3: "\<And>l. ptr_at l st3 = (case l of Root i \<Rightarrow> ptr_at l st2 | Member q i \<Rightarrow> if q = p then None else ptr_at l st2)"
    and lv3: "live st3 = live st2"
  shows "shrink st st3 D {}"
  unfolding shrink_def
proof (intro conjI allI impI)
  show "live st h" if "live st3 h" for h using that lv3 shrink_parts(1) [OF s] lv1 by simp
  show "length (roots st3) = length (roots st)" "pvn st3 = pvn st"
    using shrink_parts(2,3) [OF s] mem3 by (simp_all add: set_blk_def)
  show "dom (pmem st3) = dom (pmem st)" using shrink_parts(4) [OF s] mem3(1) b b2 by (auto simp: set_blk_def)
  fix h x y assume xy: "pmem st h = Some x \<and> pmem st3 h = Some y"
  show "psize y = psize x"
    using xy shrink_block(1) [OF s, of h x y] mem3(1) b b2(3) by (cases "h = hdr p") (auto simp: set_blk_def)
  assume lh: "live st3 h"
  then have h: "h \<noteq> hdr p" "live st2 h" using lv3 b2 by (auto simp: live_def)
  then show "vnum y = vnum x" "ptypeId y = ptypeId x"
    using xy shrink_block(2) [OF s, of h x y] mem3(1) by (auto simp: set_blk_def)
next
  fix l assume l: "stays D st3 l"
  have np: "l \<noteq> Member p i" for i using l hD lv3 b2 by (auto simp: stays_def live_def)
  have "stays (insert (hdr p) D) st2 l" using l lv3 by (auto simp: stays_def split: ploc.splits)
  moreover have "l \<notin> Member p ` I" using np by auto
  ultimately have "ptr_at l st2 = ptr_at l st" using s unfolding shrink_def at1 by metis
  then show "if l \<in> {} then (ptr_at l st3 = None) = (ptr_at l st = None) else ptr_at l st3 = ptr_at l st"
    using at3 np by (cases l) auto
next
  fix l q assume q: "q \<noteq> 0 \<and> ptr_at l st3 = Some q"
  then have "ptr_at l st2 = Some q" using at3 by (cases l) (auto split: if_splits)
  then show "ptr_at l st = Some q" using q shrink_parts(5) [OF s] at1 by metis
next
  fix q assume q: "q \<noteq> 0 \<and> live st (hdr q) \<and> (\<forall>l. ptr_at l st \<noteq> Some q)"
  then have "live (set_blk (hdr p) b1 st) (hdr q)" using lv1 l0 by auto
  then show "live st3 (hdr q)" using q shrink_parts(6) [OF s] at1 lv3 by metis
qed

lemma Release_step:
  assumes IH: "releases n (Release n)" and ok: "pool_ok st D fl" and r: "rc st E" and pn: "\<forall>l\<in>E. pinned D E st l"
    and b: "pmem st (hdr p) = Some b" "mpIndex b \<noteq> 0" "prefs b = 0" "ptr_at l0 st = Some p" and n: "card {h. live st h} \<le> Suc n"
  shows "\<exists>st' fl'. Release (Suc n) p st = Some st' \<and> pool_ok st' D fl' \<and> rc st' E \<and> \<not> live st' (hdr p) \<and> shrink st st' D {}"
proof -
  let ?st = "set_blk (hdr p) (b\<lparr>vnum := 0\<rparr>) st" let ?D = "insert (hdr p) D" let ?is = "rev [0..<length (kids b)]"
  have lv: "live st (hdr p)" using b by (auto simp: live_def)
  then have hD: "hdr p \<notin> D" using pool_ok_dying [OF ok, of "hdr p"] b by auto
  have none: "inrefs st E p = {}" using rc_count [OF r b(1,2)] b(3) finite_inrefs by simp
  have E: "\<forall>i. Member p i \<notin> E"
  proof (intro allI notI)
    fix i assume "Member p i \<in> E"
    then obtain k where "Root k \<notin> E" "ptr_at (Root k) st = Some p" using pn hD by fastforce
    then show False using none by (auto simp: inrefs_def)
  qed
  have bo: "mpIndex b < 64" "psize b = 2 ^ mpIndex b" using pool_ok_blk [OF ok b(1)] b(2) by (auto simp: blk_ok_def)
  note ok1 = pool_ok_start_dying [OF ok b(1,2)] and r1 = rc_start_dying [OF r b(1-3)]
  have at1: "ptr_at x ?st = ptr_at x st" for x using b by (intro ptr_at_upd) auto
  have lv1: "live ?st h \<longleftrightarrow> live st h \<and> h \<noteq> hdr p" for h by (auto simp: live_def set_blk_def mpIndex_def)
  have "{h. live ?st h} = {h. live st h} - {hdr p}" using lv1 by auto
  then have n1: "card {h. live ?st h} \<le> n" using n lv by (simp add: card_Diff_singleton)
  have "\<forall>l\<in>E. pinned ?D E ?st l" using pn unfolding pinned_def at1 by (auto split: ploc.splits)
  moreover have "\<forall>i\<in>set ?is. ptr_at (Member p i) ?st \<noteq> None" "distinct ?is" using b(1) by (auto simp: ptr_at_def set_blk_def)
  ultimately obtain st2 fl2 where 2: "kfold (\<lambda>i. Reset_with (Release n) (Member p i)) ?is ?st = Some st2" "pool_ok st2 ?D fl2" "rc st2 E"
      "\<forall>i\<in>set ?is. ptr_at (Member p i) st2 = Some 0" "shrink ?st st2 ?D (Member p ` set ?is)"
    using Reset_members_ok [OF IH ok1 r1 _ _ E _ _ n1, of ?is] by auto
  obtain b2 where b2: "pmem st2 (hdr p) = Some b2" "mpIndex b2 = 0" using pool_ok_dying [OF 2(2), of "hdr p"] by auto
  have ps': "psize b2 = psize b" using shrink_block(1) [OF 2(5) _ b2(1)] by (simp add: set_blk_def)
  note ps = pool_ok_push [OF 2(2) b2(1) _ ps' [unfolded bo(2)] bo(1)]
  define st3 where "st3 = set_blk (hdr p) (b2\<lparr>vnum := pheads st2 ! mpIndex b, kids := []\<rparr>) (st2\<lparr>pheads := (pheads st2)[mpIndex b := hdr p]\<rparr>)"
  have D: "?D - {hdr p} = D" using hD by auto
  have ok3: "pool_ok st3 D (fl2(mpIndex b := hdr p # fl2 (mpIndex b)))" "mpIndex (b2\<lparr>vnum := pheads st2 ! mpIndex b, kids := []\<rparr>) = 0"
    using ps pool_ok_dying [OF 2(2), of "hdr p"] unfolding D st3_def by auto
  have z: "ptr_at (Member p i) st2 = Some 0" if "ptr_at (Member p i) st2 \<noteq> None" for i
  proof (cases "i < length (kids b)")
    case False
    have "stays ?D st2 (Member p i)" by (simp add: stays_def)
    moreover have "Member p i \<notin> Member p ` set ?is" using False by auto
    ultimately have "ptr_at (Member p i) st2 = ptr_at (Member p i) st" using 2(5) unfolding shrink_def at1 by metis
    then show ?thesis using that False b(1) by (simp add: ptr_at_def)
  qed (use 2(4) in auto)
  have mem3: "pmem st3 = (pmem st2)(hdr p \<mapsto> b2\<lparr>vnum := pheads st2 ! mpIndex b, kids := []\<rparr>)" "roots st3 = roots st2" "pvn st3 = pvn st2"
    by (simp_all add: st3_def set_blk_def)
  have z': "\<forall>i. ptr_at (Member p i) st2 \<noteq> None \<longrightarrow> ptr_at (Member p i) st2 = Some 0" using z by blast
  note e = rc_end_dying [OF 2(3) b2 z' mem3(1) ok3(2) _ mem3(2) 2(2), simplified]
  have p0: "p \<noteq> 0" "vnum b \<noteq> 0" using not_null [OF ok b(1)] b(2) by (auto simp: mpIndex_def)
  have run: "Release (Suc n) p st = Some st3"
    using p0 b bo(1) 2(1) b2(1) by (simp add: st3_def Let_def)
  have "shrink st st3 D {}"
    by (rule shrink_destroyed [OF b(1) lv1 at1 b(4) hD 2(5) b2 ps' mem3 e(2,3)])
  moreover have "\<not> live st3 (hdr p)" using e(3) b2 by (simp add: live_def)
  ultimately show ?thesis using run ok3(1) e(1) by blast
qed

lemma Release_releases: "releases n (Release n)"
proof (induction n)
  case 0
  have "live st (hdr p)" if "pmem st (hdr p) = Some b" "mpIndex b \<noteq> 0" for st p b using that by (auto simp: live_def)
  then have "card {h. live st h} \<noteq> 0" if "pmem st (hdr p) = Some b" "mpIndex b \<noteq> 0" for st p b using that by auto
  then show ?case unfolding releases_def by (metis le_zero_eq)
next
  case (Suc n)
  show ?case unfolding releases_def using Release_step [OF Suc] by blast
qed

section \<open>Operations of the pointer classes\<close>

definition pinv :: "pool \<Rightarrow> bool" where
  "pinv st \<longleftrightarrow> (\<exists>fl. pool_ok st {} fl) \<and> rc st {}"

lemma Ptr_Reset_ok:
  assumes "pinv st" "ptr_at l st = Some p" "pinned {} {l} st l" "card {h. live st h} \<le> fuel"
  shows "\<exists>st'. Ptr_Reset fuel l st = Some st' \<and> pinv st' \<and> ptr_at l st' = Some 0 \<and> shrink st st' {} {l}"
proof -
  obtain fl where "pool_ok st {} fl" "rc st {}" using assms(1) by (auto simp: pinv_def)
  from Reset_ok [OF Release_releases this _ assms(2) _ assms(4)] assms(3) show ?thesis
    by (auto simp: Ptr_Reset_def pinv_def)
qed

text \<open>Letting a null pointer refer to an object and counting it.\<close>

definition install :: "ploc \<Rightarrow> u64 \<Rightarrow> pool \<Rightarrow> pool option" where
  "install l p st = do { st \<leftarrow> ptr_put l p st; incref p st }"

lemma install_ok:
  assumes inv: "pinv st" and l: "ptr_at l st = Some 0" and p: "pmem st (hdr p) = Some b" "mpIndex b \<noteq> 0" "prefs b + 1 \<noteq> 0"
  shows "\<exists>st'. install l p st = Some st' \<and> pinv st' \<and> (\<forall>l'. ptr_at l' st' = (if l' = l then Some p else ptr_at l' st))
    \<and> live st' = live st \<and> pvn st' = pvn st \<and> length (roots st') = length (roots st)
    \<and> (\<forall>h b'. pmem st' h = Some b' \<longrightarrow> (\<exists>b. pmem st h = Some b \<and> vnum b' = vnum b \<and> ptypeId b' = ptypeId b))
    \<and> dom (pmem st) \<subseteq> dom (pmem st')"
proof -
  obtain fl where ok: "pool_ok st {} fl" and r: "rc st {}" using inv by (auto simp: pinv_def)
  have p0: "p \<noteq> 0" by (rule not_null [OF ok p(1)])
  obtain st1 where put: "ptr_put l p st = Some st1" using ptr_put_ex [OF l] by blast
  obtain b1 where b1: "pmem st1 (hdr p) = Some b1" "vnum b1 = vnum b" "prefs b1 = prefs b" using ptr_put_mem(2) [OF put p(1)] by blast
  have m1: "mpIndex b1 \<noteq> 0" using p(2) b1(2) by (simp add: mpIndex_def)
  let ?st = "set_blk (hdr p) (b1\<lparr>prefs := prefs b1 + 1\<rparr>) st1"
  have run: "install l p st = Some ?st" using put b1(1) m1 by (simp add: install_def incref_def memHeader_def)
  have ok2: "pool_ok ?st {} fl" by (rule pool_ok_upd [OF ptr_put_pool_ok [OF put ok] b1(1)]) auto
  have lv: "live ?st = live st" using live_upd [of "b1\<lparr>prefs := prefs b1 + 1\<rparr>" b1 st1] b1(1) ptr_put_mem(3) [OF put] by simp
  have at: "ptr_at l' ?st = (if l' = l then Some p else ptr_at l' st)" for l'
    using ptr_put_at [OF put, of l'] b1(1) by (simp add: ptr_at_upd)
  have ip: "inrefs ?st {} p = insert l (inrefs st {} p)" "l \<notin> inrefs st {} p" using l p0 by (auto simp: inrefs_def at)
  have iq: "inrefs ?st {} q = inrefs st {} q" if "q \<noteq> p" "q \<noteq> 0" for q using that l by (auto simp: inrefs_def at)
  have up: "unat (prefs b1 + 1) = unat (prefs b) + 1" using p(3) b1(3) unatSuc [of "prefs b"] by (simp add: add.commute)
  have blk: "\<exists>c. pmem st h = Some c \<and> vnum b' = vnum c \<and> ptypeId b' = ptypeId c \<and> (h \<noteq> hdr p \<longrightarrow> prefs b' = prefs c)"
    if "pmem ?st h = Some b'" for h b'
    using that ptr_put_mem(1) [OF put, of h] b1(1) by (cases "h = hdr p") (fastforce simp: set_blk_def)+
  have "rc ?st {}"
    unfolding rc_def lv
  proof (intro conjI allI impI)
    fix q c assume c: "pmem ?st (hdr q) = Some c \<and> mpIndex c \<noteq> 0"
    show "unat (prefs c) = card (inrefs ?st {} q)"
    proof (cases "q = p")
      case True
      then have "prefs c = prefs b1 + 1" using c by (auto simp: set_blk_def)
      then show ?thesis using True up rc_count [OF r p(1,2)] ip finite_inrefs by simp
    next
      case False
      obtain c0 where c0: "pmem st (hdr q) = Some c0" "vnum c = vnum c0" "prefs c = prefs c0" using blk [of "hdr q" c] c False by auto
      then show ?thesis using rc_count [OF r c0(1)] c iq [OF False not_null [OF ok c0(1)]] by (simp add: mpIndex_def)
    qed
  next
    fix l' q assume q: "l' \<notin> {} \<and> ptr_at l' ?st = Some q \<and> q \<noteq> 0"
    show "live st (hdr q)"
    proof (cases "l' = l")
      case True
      then show ?thesis using q p by (auto simp: at live_def)
    next
      case False
      then show ?thesis using q rc_live [OF r, of l' q] by (simp add: at)
    qed
  qed
  then have "pinv ?st" using ok2 by (auto simp: pinv_def)
  moreover have "pvn ?st = pvn st" "length (roots ?st) = length (roots st)" "dom (pmem st) \<subseteq> dom (pmem ?st)"
    using ptr_put_mem(4-6) [OF put] by (auto simp: set_blk_def)
  moreover have "\<forall>h b'. pmem ?st h = Some b' \<longrightarrow> (\<exists>b. pmem st h = Some b \<and> vnum b' = vnum b \<and> ptypeId b' = ptypeId b)"
    using blk by blast
  ultimately show ?thesis using run at lv by blast
qed

text \<open>
  What an operation may do to the headers of objects in use: keep their version numbers, and give a
  new object a number that no reference has seen.
\<close>

definition evolves :: "pool \<Rightarrow> pool \<Rightarrow> bool" where
  "evolves st st' \<longleftrightarrow> unat (pvn st) \<le> unat (pvn st') \<and> unat (pvn st') \<le> unat (pvn st) + 1 \<and> length (roots st') = length (roots st)
     \<and> card {h. live st' h} \<le> card {h. live st h} + 1 \<and> dom (pmem st) \<subseteq> dom (pmem st')
     \<and> (\<forall>h b b'. live st h \<and> live st' h \<and> pmem st h = Some b \<and> pmem st' h = Some b' \<longrightarrow> vnum b' = vnum b)
     \<and> (\<forall>h b'. \<not> live st h \<and> live st' h \<and> pmem st' h = Some b' \<longrightarrow> unat (pvn st) < unat (take_bit 56 (vnum b')))"

lemma evolves_refl: "evolves st st"
  by (auto simp: evolves_def)

lemma evolves_shrink:
  assumes e: "evolves a b" and s: "shrink b c D L"
  shows "evolves a c"
  unfolding evolves_def
proof (intro conjI allI impI)
  note f = shrink_parts [OF s]
  show "unat (pvn a) \<le> unat (pvn c)" "unat (pvn c) \<le> unat (pvn a) + 1" "length (roots c) = length (roots a)" "dom (pmem a) \<subseteq> dom (pmem c)"
    using e f(2-4) by (auto simp: evolves_def)
  show "card {h. live c h} \<le> card {h. live a h} + 1" using e shrink_card [OF s] by (simp add: evolves_def)
  fix h y
  have ex: "\<exists>z. pmem b h = Some z \<and> vnum y = vnum z" if "live c h" "pmem c h = Some y"
    using that f(4) shrink_block(2) [OF s _ that(2,1)] by blast
  show "unat (pvn a) < unat (take_bit 56 (vnum y))" if "\<not> live a h \<and> live c h \<and> pmem c h = Some y"
    using that e f(1) [of h] ex unfolding evolves_def by metis
  fix x show "vnum y = vnum x" if "live a h \<and> live c h \<and> pmem a h = Some x \<and> pmem c h = Some y"
    using that e f(1) [of h] ex unfolding evolves_def by metis
qed

lemmas shrink_evolves = evolves_shrink [OF evolves_refl]

lemma evolves_same:
  assumes e: "evolves a b" and "live c = live b" "pvn c = pvn b" "length (roots c) = length (roots b)"
    and v: "\<forall>h y. pmem c h = Some y \<longrightarrow> (\<exists>x. pmem b h = Some x \<and> vnum y = vnum x \<and> ptypeId y = ptypeId x)" and d: "dom (pmem b) \<subseteq> dom (pmem c)"
  shows "evolves a c"
  unfolding evolves_def assms(2-4)
proof (intro conjI allI impI)
  fix h y
  show "unat (pvn a) < unat (take_bit 56 (vnum y))" if "\<not> live a h \<and> live b h \<and> pmem c h = Some y"
    using that e v unfolding evolves_def by metis
  fix x show "vnum y = vnum x" if "live a h \<and> live b h \<and> pmem a h = Some x \<and> pmem c h = Some y"
    using that e v unfolding evolves_def by metis
  show "dom (pmem a) \<subseteq> dom (pmem c)" using e d unfolding evolves_def by blast
qed (use e in \<open>auto simp: evolves_def\<close>)

lemma no_wrap:
  fixes x y :: "'a::len word"
  assumes "unat x \<le> unat y" "y + 1 \<noteq> 0"
  shows "x + 1 \<noteq> 0"
proof
  assume "x + 1 = 0"
  then have "x = -1" by (simp add: eq_neg_iff_add_eq_0)
  then have "y = -1" using assms(1) by (metis antisym word_le_nat_alt word_order.extremum)
  then show False using assms(2) by simp
qed

definition count_ok :: "pool \<Rightarrow> u64 \<Rightarrow> bool" where
  "count_ok st p = (case pmem st (hdr p) of None \<Rightarrow> True | Some b \<Rightarrow> prefs b + 1 \<noteq> 0)"

lemma Ptr_assign_ok:
  assumes inv: "pinv st" and l: "ptr_at l st = Some p" "pinned {} {l} st l" and n: "card {h. live st h} \<le> fuel"
    and src: "src st = Some q" "\<And>st'. pinv st' \<Longrightarrow> shrink st st' {} {l} \<Longrightarrow> src st' = Some q \<and> (q \<noteq> 0 \<longrightarrow> live st' (hdr q))"
    and c: "count_ok st q" and e: "evolves a st"
  shows "\<exists>st'. Ptr_assign fuel l src st = Some st' \<and> pinv st' \<and> evolves a st' \<and> ptr_at l st' = Some q
    \<and> (\<forall>k. Root k \<noteq> l \<longrightarrow> ptr_at (Root k) st' = ptr_at (Root k) st)"
proof (cases "p = q")
  case True
  then show ?thesis using inv l src(1) e by (auto simp: Ptr_assign_def)
next
  case False
  obtain st1 where 1: "Ptr_Reset fuel l st = Some st1" "pinv st1" "ptr_at l st1 = Some 0" "shrink st st1 {} {l}"
    using Ptr_Reset_ok [OF inv l n] by blast
  note s = src(2) [OF 1(2,4)]
  have rt: "ptr_at (Root k) st1 = ptr_at (Root k) st" if "Root k \<noteq> l" for k using shrink_root [OF 1(4), of k] that by simp
  have ev: "evolves a st1" by (rule evolves_shrink [OF e 1(4)])
  show ?thesis
  proof (cases "q = 0")
    case True
    then show ?thesis using False l src(1) 1 s ev rt by (auto simp: Ptr_assign_def)
  next
    case q: False
    then obtain b where b: "pmem st1 (hdr q) = Some b" "mpIndex b \<noteq> 0" using s by (auto simp: live_def)
    obtain fl fl1 where ok: "pool_ok st {} fl" "rc st {}" "rc st1 {}" using inv 1(2) by (auto simp: pinv_def)
    have "live st (hdr q)" using shrink_parts(1) [OF 1(4)] b by (auto simp: live_def)
    then obtain b0 where b0: "pmem st (hdr q) = Some b0" "mpIndex b0 \<noteq> 0" by (auto simp: live_def)
    have "inrefs st1 {} q \<subseteq> inrefs st {} q" using shrink_parts(5) [OF 1(4) q] by (auto simp: inrefs_def)
    then have "unat (prefs b) \<le> unat (prefs b0)"
      using rc_count [OF ok(2) b0] rc_count [OF ok(3) b] finite_inrefs by (simp add: card_mono)
    then have "prefs b + 1 \<noteq> 0" by (rule no_wrap) (use c b0(1) in \<open>simp add: count_ok_def\<close>)
    from install_ok [OF 1(2,3) b this] obtain st2 where 2: "install l q st1 = Some st2" "pinv st2"
      "\<forall>l'. ptr_at l' st2 = (if l' = l then Some q else ptr_at l' st1)" "live st2 = live st1" "pvn st2 = pvn st1"
      "length (roots st2) = length (roots st1)"
      "\<forall>h b'. pmem st2 h = Some b' \<longrightarrow> (\<exists>b. pmem st1 h = Some b \<and> vnum b' = vnum b \<and> ptypeId b' = ptypeId b)"
      "dom (pmem st1) \<subseteq> dom (pmem st2)" by blast
    have "Ptr_assign fuel l src st = Some st2"
      using False q l(1) src(1) 1(1) s 2(1) by (simp add: Ptr_assign_def install_def)
    moreover have "evolves a st2" by (rule evolves_same [OF ev 2(4-8)])
    ultimately show ?thesis using 2(2,3) rt by auto
  qed
qed

lemma Ptr_move_assign_ok:
  assumes inv: "pinv st" and l: "ptr_at (Root r) st = Some p" "ptr_at (Root r') st = Some q" and n: "card {h. live st h} \<le> fuel"
  shows "\<exists>st'. Ptr_move_assign fuel (Root r) (Root r') st = Some st' \<and> pinv st' \<and> evolves st st' \<and> ptr_at (Root r) st' = Some q"
proof (cases "p = q")
  case True
  then show ?thesis using inv l evolves_refl by (auto simp: Ptr_move_assign_def)
next
  case False
  then have rr: "r \<noteq> r'" using l by auto
  obtain st1 where 1: "Ptr_Reset fuel (Root r) st = Some st1" "pinv st1" "ptr_at (Root r) st1 = Some 0" "shrink st st1 {} {Root r}"
    using Ptr_Reset_ok [OF inv l(1) _ n] by auto
  have q1: "ptr_at (Root r') st1 = Some q" using shrink_root [OF 1(4), of r'] rr l(2) by simp
  have len: "r < length (roots st1)" "r' < length (roots st1)" using 1(3) q1 by (auto simp: ptr_at_def split: if_splits)
  let ?st = "st1\<lparr>roots := (roots st1)[r := q, r' := 0]\<rparr>"
  have run: "Ptr_move_assign fuel (Root r) (Root r') st = Some ?st"
    using False l 1(1) q1 len by (simp add: Ptr_move_assign_def ptr_put_def)
  have at: "ptr_at x ?st = (if x = Root r' then Some 0 else if x = Root r then Some q else ptr_at x st1)" for x
    using len rr by (cases x) (auto simp: ptr_at_def nth_list_update)
  have lv: "live ?st = live st1" by (simp add: live_def fun_eq_iff)
  obtain fl where ok: "pool_ok st1 {} fl" and rc1: "rc st1 {}" using 1(2) by (auto simp: pinv_def)
  have iq: "card (inrefs ?st {} x) = card (inrefs st1 {} x)" if "x \<noteq> 0" for x
  proof (cases "x = q")
    case True
    then have "inrefs ?st {} x = insert (Root r) (inrefs st1 {} x - {Root r'})" "Root r' \<in> inrefs st1 {} x" "Root r \<notin> inrefs st1 {} x - {Root r'}"
      using that rr q1 1(3) by (auto simp: inrefs_def at)
    then show ?thesis using finite_inrefs [of st1 "{}" x] card.remove [OF finite_inrefs, of "Root r'" st1 "{}" x] by simp
  next
    case False
    then have "inrefs ?st {} x = inrefs st1 {} x" using that q1 1(3) by (auto simp: inrefs_def at)
    then show ?thesis by simp
  qed
  have "rc ?st {}"
    unfolding rc_def lv
  proof (intro conjI allI impI)
    fix x b assume b: "pmem ?st (hdr x) = Some b \<and> mpIndex b \<noteq> 0"
    then have "x \<noteq> 0" using not_null [OF ok] by auto
    then show "unat (prefs b) = card (inrefs ?st {} x)" using b rc_count [OF rc1] iq by simp
  next
    fix y x assume "y \<notin> {} \<and> ptr_at y ?st = Some x \<and> x \<noteq> 0"
    then show "live st1 (hdr x)" using rc_live [OF rc1] q1 by (auto simp: at split: if_splits)
  qed
  moreover have "pool_ok ?st {} fl" using ok by (simp add: pool_ok_roots)
  ultimately have "pinv ?st" by (auto simp: pinv_def)
  moreover have "evolves st ?st"
    by (rule evolves_same [OF shrink_evolves [OF 1(4)] lv]) auto
  moreover have "ptr_at (Root r) ?st = Some q" using at rr by simp
  ultimately show ?thesis using run by blast
qed

lemma evolves_new:
  assumes mem: "pmem st' = (pmem st)(h \<mapsto> b)" and mi: "mpIndex b \<noteq> 0" and h: "\<not> live st h" and vb: "vnum b = tag (pvn st + 1) i"
    and pv: "pvn st' = pvn st + 1" "roots st' = roots st" and v: "unat (pvn st) + 1 < 2 ^ 56"
  shows "evolves st st'"
proof -
  have lv: "live st' x \<longleftrightarrow> live st x \<or> x = h" for x using mem mi by (auto simp: live_def)
  then have "{x. live st' x} = insert h {x. live st x}" by auto
  then have card: "card {x. live st' x} \<le> card {x. live st x} + 1" by (simp add: card_insert_if)
  have un: "unat (pvn st + 1) = unat (pvn st) + 1" using v by (simp add: unat_word_ariths)
  have "unat (take_bit 56 (vnum b)) = unat (pvn st) + 1"
    using v un by (simp add: vb tag_low unsigned_take_bit_eq take_bit_nat_eq_self)
  then have new: "unat (pvn st) < unat (take_bit 56 (vnum y))" if "\<not> live st x \<and> live st' x \<and> pmem st' x = Some y" for x y
    using that lv mem by auto
  have "vnum y = vnum x" if "live st z \<and> live st' z \<and> pmem st z = Some x \<and> pmem st' z = Some y" for x y z
    using that h mem by (auto split: if_splits)
  moreover have "dom (pmem st) \<subseteq> dom (pmem st')" using mem by auto
  ultimately show ?thesis using un card new pv unfolding evolves_def by simp
qed

lemma new_object_ok:
  assumes ok: "pool_ok st {} fl" and r: "rc st {}" and ok': "pool_ok st' {} fl'" and h: "\<not> live st (hdr p)"
    and mem: "pmem st' = (pmem st)(hdr p \<mapsto> b)" "roots st' = roots st" and b: "mpIndex b \<noteq> 0" "prefs b = 0" "kids b = replicate nk 0"
  shows "pinv st'" "\<And>l. ptr_at l st' \<noteq> Some p" "\<And>k. ptr_at (Root k) st' = ptr_at (Root k) st"
proof -
  have p0: "p \<noteq> 0" using not_null [OF ok', of p b] mem by simp
  have old: "ptr_at (Member p i) st = None" for i
  proof (cases "pmem st (hdr p)")
    case (Some c)
    then have "mpIndex c = 0" using h by (auto simp: live_def)
    then obtain j where "hdr p \<in> set (fl j)" using pool_ok_dead [OF ok Some] by auto
    then show ?thesis using pool_ok_free(2) [OF ok, of "hdr p" j] Some by (auto simp: ptr_at_def)
  qed (simp add: ptr_at_def)
  have at: "ptr_at l st' = (case l of Root i \<Rightarrow> ptr_at l st | Member q i \<Rightarrow> if q = p then if i < nk then Some 0 else None else ptr_at l st)" for l
    using mem b(3) by (auto simp: ptr_at_def split: ploc.splits)
  show "ptr_at (Root k) st' = ptr_at (Root k) st" for k by (simp add: at)
  have lv: "live st' x \<longleftrightarrow> live st x \<or> x = hdr p" for x using mem b(1) by (auto simp: live_def)
  have i: "inrefs st' {} q = inrefs st {} q" if "q \<noteq> 0" for q
  proof -
    have "ptr_at l st' = Some q \<longleftrightarrow> ptr_at l st = Some q" for l using that old at by (cases l) auto
    then show ?thesis by (simp add: inrefs_def)
  qed
  have none: "ptr_at l st \<noteq> Some p" for l using rc_live [OF r, of l p] p0 h by auto
  show "ptr_at l st' \<noteq> Some p" for l using i [OF p0] none by (auto simp: inrefs_def)
  have "unat (prefs c) = card (inrefs st' {} q)" if c: "pmem st' (hdr q) = Some c" "mpIndex c \<noteq> 0" for q c
  proof (cases "q = p")
    case True
    then have "c = b" using c mem by simp
    moreover have "inrefs st {} p = {}" using none by (auto simp: inrefs_def)
    ultimately show ?thesis using True i [OF p0] b(2) by simp
  next
    case False
    then have "pmem st (hdr q) = Some c" using c mem by simp
    then show ?thesis using rc_count [OF r] c i not_null [OF ok' c(1)] by simp
  qed
  moreover have "live st' (hdr q)" if "ptr_at l st' = Some q" "q \<noteq> 0" for l q
    using that rc_live [OF r, of l q] i [of q] lv by (auto simp: inrefs_def)
  ultimately have "rc st' {}" unfolding rc_def by blast
  then show "pinv st'" using ok' by (auto simp: pinv_def)
qed

lemma Create_ok:
  assumes inv: "pinv st" and sz: "sz \<noteq> 0" "unat sz \<le> 2 ^ 62" and v: "unat (pvn st) + 1 < 2 ^ 56" and m: "malloc_ok m st"
  shows "Create sz tid nk True m st = Some (0, st)
    \<or> (\<exists>p st' b. Create sz tid nk True m st = Some (p, st') \<and> p \<noteq> 0 \<and> pinv st' \<and> evolves st st' \<and> \<not> live st (hdr p)
        \<and> pmem st' (hdr p) = Some b \<and> mpIndex b \<noteq> 0 \<and> prefs b = 0 \<and> ptypeId b = tid \<and> (\<forall>l. ptr_at l st' \<noteq> Some p)
        \<and> (\<forall>k. ptr_at (Root k) st' = ptr_at (Root k) st))"
proof -
  obtain fl where ok: "pool_ok st {} fl" and r: "rc st {}" using inv by (auto simp: pinv_def)
  have hs: "unat sz + unat MemHeader_Object_size \<le> 2 ^ 63" "1 \<le> unat MemHeader_Object_size"
    using sz(2) by (simp_all add: MemHeader_Object_size_def)
  from Alloc_ok [OF ok sz(1) hs v m] show ?thesis
  proof (elim disjE exE conjE)
    assume "Alloc MemHeader_Object_size sz m st = Some (0, st)"
    then show ?thesis by (simp add: Create_def)
  next
    fix h b st1 fl1
    assume A: "Alloc MemHeader_Object_size sz m st = Some (h + MemHeader_Object_size, st1)" and ok1: "pool_ok st1 {} fl1"
      and h: "\<not> live st h" "live st1 h" and st1: "pmem st1 = (pmem st)(h \<mapsto> b)" and vb: "vnum b = tag (pvn st + 1) (size_class (sz + MemHeader_Object_size))"
      and kb: "kids b = []" and pv: "pvn st1 = pvn st + 1" "roots st1 = roots st"
    define p where "p = h + MemHeader_Object_size"
    have hp: "hdr p = h" by (simp add: p_def hdr_def)
    have b1: "pmem st1 (hdr p) = Some b" "mpIndex b \<noteq> 0" using st1 h(2) hp by (auto simp: live_def)
    have p0: "p \<noteq> 0" by (rule not_null [OF ok1 b1(1)])
    let ?b = "b\<lparr>prefs := 0, ptypeId := tid, pflags := 0, kids := replicate nk 0\<rparr>" let ?st = "set_blk h ?b st1"
    have run: "Create sz tid nk True m st = Some (p, ?st)"
      using A p0 b1(1) hp by (simp add: Create_def p_def [symmetric] Let_def)
    have pb: "vnum ?b = vnum b" "psize ?b = psize b" by simp_all
    have ok2: "pool_ok ?st {} fl1" using pool_ok_upd [OF ok1 b1(1) pb] b1(2) by (simp add: hp)
    have mem: "pmem ?st = (pmem st)(hdr p \<mapsto> ?b)" "roots ?st = roots st" "pvn ?st = pvn st + 1" and mi: "mpIndex ?b \<noteq> 0"
      using st1 b1(2) pv hp by (simp_all add: set_blk_def mpIndex_def)
    have hl: "\<not> live st (hdr p)" using h(1) hp by simp
    note n = new_object_ok [OF ok r ok2 hl mem(1,2) mi, of nk]
    have "evolves st ?st" by (rule evolves_new [OF mem(1) mi hl _ mem(3,2) v]) (simp add: vb)
    then show ?thesis using run p0 hl mem(1) mi n by (intro disjI2 exI [of _ p] exI [of _ ?st] exI [of _ ?b]) simp
  qed
qed

end
