(* ===== verification/PoolAlloc.thy ===== *)
theory PoolAlloc
  imports PoolInv
begin

text \<open>
  The pool as an allocator: what its clients rely on, stated as a locale over the operations that obtain
  and give back blocks, sequences of such operations, and the pool as an instance.
\<close>

section \<open>Clients of an allocator\<close>

datatype 'r mem_op = Get 'r | Give nat

text \<open>The blocks a client holds, in the order it obtained them; it gives back the block at an index.\<close>

primrec run_mem :: "('r \<Rightarrow> 's \<Rightarrow> ('p option \<times> 's) option) \<Rightarrow> ('p \<Rightarrow> 's \<Rightarrow> 's option) \<Rightarrow> 'r mem_op list \<Rightarrow> ('p \<times> 'r) list \<Rightarrow> 's
    \<Rightarrow> (('p \<times> 'r) list \<times> 's) option" where
  "run_mem get give [] ps s = Some (ps, s)"
| "run_mem get give (x # xs) ps s = (case x of
     Get r \<Rightarrow> do { (p, s) \<leftarrow> get r s; run_mem get give xs (case p of None \<Rightarrow> ps | Some p \<Rightarrow> ps @ [(p, r)]) s }
   | Give i \<Rightarrow> do { s \<leftarrow> give (fst (ps ! i)) s; run_mem get give xs (take i ps @ drop (Suc i) ps) s })"

primrec mem_ops_ok :: "('r \<Rightarrow> 's \<Rightarrow> bool) \<Rightarrow> ('r \<Rightarrow> 's \<Rightarrow> ('p option \<times> 's) option) \<Rightarrow> ('p \<Rightarrow> 's \<Rightarrow> 's option) \<Rightarrow> 'r mem_op list
    \<Rightarrow> ('p \<times> 'r) list \<Rightarrow> 's \<Rightarrow> bool" where
  "mem_ops_ok req get give [] ps s \<longleftrightarrow> True"
| "mem_ops_ok req get give (x # xs) ps s \<longleftrightarrow> (case x of
     Get r \<Rightarrow> req r s \<and> (case get r s of None \<Rightarrow> True | Some (p, s) \<Rightarrow>
       mem_ops_ok req get give xs (case p of None \<Rightarrow> ps | Some p \<Rightarrow> ps @ [(p, r)]) s)
   | Give i \<Rightarrow> i < length ps \<and> (case give (fst (ps ! i)) s of None \<Rightarrow> True | Some s \<Rightarrow>
       mem_ops_ok req get give xs (take i ps @ drop (Suc i) ps) s))"

text \<open>
  \<open>inv n s\<close>: the state is consistent and will serve \<open>n\<close> more requests; \<open>used s p r\<close>: the block at \<open>p\<close> is
  handed out and serves the request \<open>r\<close>.
\<close>

locale allocator =
  fixes inv :: "nat \<Rightarrow> 's \<Rightarrow> bool"
    and used :: "'s \<Rightarrow> 'p \<Rightarrow> 'r \<Rightarrow> bool"
    and req :: "'r \<Rightarrow> 's \<Rightarrow> bool"
    and get :: "'r \<Rightarrow> 's \<Rightarrow> ('p option \<times> 's) option"
    and give :: "'p \<Rightarrow> 's \<Rightarrow> 's option"
  assumes get_law: "inv (Suc n) s \<Longrightarrow> req r s \<Longrightarrow> \<exists>p s'. get r s = Some (p, s') \<and> inv n s'
      \<and> (\<forall>q t. used s q t \<longrightarrow> used s' q t) \<and> (\<forall>q. p = Some q \<longrightarrow> used s' q r \<and> (\<forall>t. \<not> used s q t))"
    and give_law: "inv (Suc n) s \<Longrightarrow> used s p r \<Longrightarrow> \<exists>s'. give p s = Some s' \<and> inv n s'
      \<and> (\<forall>q t. used s q t \<and> q \<noteq> p \<longrightarrow> used s' q t) \<and> give p s' = None"
begin

definition held :: "'s \<Rightarrow> ('p \<times> 'r) list \<Rightarrow> bool" where
  "held s ps \<longleftrightarrow> distinct (map fst ps) \<and> (\<forall>(p, r)\<in>set ps. used s p r)"

lemma held_get:
  assumes "held s ps" "\<forall>q t. used s q t \<longrightarrow> used s' q t" "\<forall>q. p = Some q \<longrightarrow> used s' q r \<and> (\<forall>t. \<not> used s q t)"
  shows "held s' (case p of None \<Rightarrow> ps | Some p \<Rightarrow> ps @ [(p, r)])"
  using assms by (auto simp: held_def split: option.splits)

lemma held_give:
  assumes h: "held s ps" and i: "i < length ps" and s': "\<forall>q t. used s q t \<and> q \<noteq> fst (ps ! i) \<longrightarrow> used s' q t"
  shows "held s' (take i ps @ drop (Suc i) ps)"
proof -
  let ?qs = "take i ps @ drop (Suc i) ps"
  have ps: "ps = take i ps @ ps ! i # drop (Suc i) ps" by (rule id_take_nth_drop [OF i])
  have "distinct (map fst (take i ps @ ps ! i # drop (Suc i) ps))" using h ps unfolding held_def by argo
  then have d: "distinct (map fst ?qs)" "fst (ps ! i) \<notin> fst ` set ?qs" by auto
  have "used s' p r" if x: "(p, r) \<in> set (take i ps @ drop (Suc i) ps)" for p r
  proof -
    have "(p, r) \<in> set ps" using x in_set_takeD [of _ i ps] in_set_dropD [of _ "Suc i" ps] by auto
    then have "used s p r" using h by (auto simp: held_def)
    moreover have "p \<noteq> fst (ps ! i)" using x d(2) by (metis fst_conv imageI)
    ultimately show ?thesis using s' by blast
  qed
  then show ?thesis using d(1) by (auto simp: held_def)
qed

lemma run_mem_held:
  assumes "inv (length xs + k) s" "held s ps" "mem_ops_ok req get give xs ps s"
  shows "\<exists>ps' s'. run_mem get give xs ps s = Some (ps', s') \<and> held s' ps' \<and> inv k s'"
  using assms
proof (induction xs arbitrary: s ps)
  case (Cons x xs)
  show ?case
  proof (cases x)
    case (Get r)
    obtain p s' where "get r s = Some (p, s')" "inv (length xs + k) s'" "held s' (case p of None \<Rightarrow> ps | Some p \<Rightarrow> ps @ [(p, r)])"
      using get_law [of "length xs + k" s r] held_get [OF Cons.prems(2)] Cons.prems Get by fastforce
    then show ?thesis using Cons.IH Cons.prems(3) Get by simp
  next
    case (Give i)
    then have i: "i < length ps" using Cons.prems(3) by simp
    then have "used s (fst (ps ! i)) (snd (ps ! i))" using Cons.prems(2) nth_mem [OF i] by (simp add: held_def case_prod_beta)
    then obtain s' where "give (fst (ps ! i)) s = Some s'" "inv (length xs + k) s'" "held s' (take i ps @ drop (Suc i) ps)"
      using give_law [of "length xs + k" s] held_give [OF Cons.prems(2) i] Cons.prems(1) by fastforce
    then show ?thesis using Cons.IH Cons.prems(3) Give by simp
  qed
qed simp

lemma client:
  assumes "inv (Suc (length xs)) s" "mem_ops_ok req get give xs [] s"
  shows "\<exists>ps s'. run_mem get give xs [] s = Some (ps, s') \<and> distinct (map fst ps)
    \<and> (\<forall>(p, r)\<in>set ps. used s' p r \<and> (\<exists>s''. give p s' = Some s'' \<and> give p s'' = None))"
proof -
  obtain ps s' where r: "run_mem get give xs [] s = Some (ps, s')" "held s' ps" "inv (Suc 0) s'"
    using run_mem_held [of xs "Suc 0" s "[]"] assms by (auto simp: held_def)
  then show ?thesis using give_law [OF r(3)] by (fastforce simp: held_def)
qed

end

section \<open>The pool\<close>

type_synonym request = "u64 \<times> u64"

text \<open>\<^verbatim>\<open>Alloc<MemHeader>\<close> and \<^verbatim>\<open>Free<MemHeader>\<close>; a request is a size and what \<^verbatim>\<open>malloc\<close> would return.\<close>

definition pool_get :: "request \<Rightarrow> pool \<Rightarrow> (u64 option \<times> pool) option" where
  "pool_get r st = do { (p, st) \<leftarrow> Alloc 8 (fst r) (snd r) st; Some (if p = 0 then None else Some p, st) }"

definition pool_req :: "request \<Rightarrow> pool \<Rightarrow> bool" where
  "pool_req r st \<longleftrightarrow> fst r \<noteq> 0 \<and> fst r \<le> 2 ^ 62 \<and> malloc_ok (snd r) st"

definition pool_inv :: "nat \<Rightarrow> pool \<Rightarrow> bool" where
  "pool_inv n st \<longleftrightarrow> (\<exists>fl. pool_ok st {} fl) \<and> unat (pvn st) + n < 2 ^ 56"

definition pool_used :: "pool \<Rightarrow> u64 \<Rightarrow> request \<Rightarrow> bool" where
  "pool_used st p r \<longleftrightarrow> (\<exists>b. pmem st (p - 8) = Some b \<and> mpIndex b \<noteq> 0 \<and> unat (fst r) + 8 \<le> psize b)"

lemma pool_get_law:
  assumes inv: "pool_inv (Suc n) st" and r: "pool_req r st"
  shows "\<exists>p st'. pool_get r st = Some (p, st') \<and> pool_inv n st'
    \<and> (\<forall>q t. pool_used st q t \<longrightarrow> pool_used st' q t) \<and> (\<forall>q. p = Some q \<longrightarrow> pool_used st' q r \<and> (\<forall>t. \<not> pool_used st q t))"
proof -
  obtain fl where ok: "pool_ok st {} fl" and v: "unat (pvn st) + 1 < 2 ^ 56" "unat (pvn st) + Suc n < 2 ^ 56" using inv by (auto simp: pool_inv_def)
  have r': "fst r \<noteq> 0" "unat (fst r) + unat (8 :: u64) \<le> 2 ^ 63" "1 \<le> unat (8 :: u64)" "malloc_ok (snd r) st"
    using r by (auto simp: pool_req_def word_le_nat_alt)
  from Alloc_ok [OF ok r'(1-3) v(1) r'(4)] show ?thesis
  proof (elim disjE exE conjE)
    assume "Alloc 8 (fst r) (snd r) st = Some (0, st)"
    then show ?thesis using inv by (auto simp: pool_get_def pool_inv_def)
  next
    fix h b st' fl'
    assume A: "Alloc 8 (fst r) (snd r) st = Some (h + 8, st')" "pool_ok st' {} fl'" "\<not> live st h" "live st' h"
      "pmem st' = (pmem st)(h \<mapsto> b)" "unat (fst r) + unat (8 :: u64) \<le> psize b" "pvn st' = pvn st + 1"
    have b: "mpIndex b \<noteq> 0" using A(4,5) by (auto simp: live_def)
    have "unat (pvn st + 1) = unat (pvn st) + 1" using v(1) by (simp add: unat_word_ariths)
    then have "pool_inv n st'" using A(2,7) v(2) by (auto simp: pool_inv_def)
    moreover have "pool_used st' q t" if "pool_used st q t" for q t
      using that A(3,5) by (auto simp: pool_used_def live_def)
    moreover have "pool_used st' (h + 8) r" "\<not> pool_used st (h + 8) t" for t
      using A(3,5,6) b by (auto simp: pool_used_def live_def)
    ultimately show ?thesis using A(1) by (auto simp: pool_get_def)
  qed
qed

lemma pool_give_law:
  assumes inv: "pool_inv (Suc n) st" and p: "pool_used st p r"
  shows "\<exists>st'. Free 8 p st = Some st' \<and> pool_inv n st' \<and> (\<forall>q t. pool_used st q t \<and> q \<noteq> p \<longrightarrow> pool_used st' q t) \<and> Free 8 p st' = None"
proof -
  obtain fl where ok: "pool_ok st {} fl" and v: "unat (pvn st) + Suc n < 2 ^ 56" using inv by (auto simp: pool_inv_def)
  have h: "live st (p - 8)" using p by (auto simp: pool_used_def live_def)
  then obtain b where b: "pmem st (p - 8) = Some b" by (auto simp: live_def)
  have "unat (p - 8) < 2 ^ 56" using pool_ok_blk [OF ok b] by (simp add: blk_ok_def)
  then have p0: "(p - 8) + 8 \<noteq> 0" by (cases "p = 0") auto
  obtain st' fl' where st': "Free 8 p st = Some st'" "pool_ok st' {} fl'" "\<not> live st' (p - 8)"
    "\<forall>h'. h' \<noteq> p - 8 \<longrightarrow> pmem st' h' = pmem st h'" "pvn st' = pvn st" using Free_ok [OF ok h p0] by auto
  have "Free 8 p st' = None" using p0 st'(3) by (auto simp: Free_def live_def Let_def split: Option.bind_splits)
  moreover have "pool_used st' q t" if "pool_used st q t" "q \<noteq> p" for q t using that st'(4) by (auto simp: pool_used_def)
  moreover have "pool_inv n st'" using st'(2,5) v by (auto simp: pool_inv_def)
  ultimately show ?thesis using st'(1) by blast
qed

interpretation pool: allocator pool_inv pool_used pool_req pool_get "Free 8"
  using pool_get_law pool_give_law by unfold_locales blast+

lemma pool_inv_new: "n < 2 ^ 56 \<Longrightarrow> pool_inv n (MemPool_new k)"
  by (auto simp: pool_inv_def pool_ok_def free_ok_def MemPool_new_def intro!: exI [of _ "\<lambda>_. []"])

text \<open>
  C33: Whatever blocks a program obtains from the pool and gives back, no operation of the pool faults, the
  blocks that it holds are pairwise different, each is in use and as large as was asked for, counting its header,
  and giving one of them back a second time fails the pool's assertion.
\<close>

theorem pool_serves_requests:
  assumes "mem_ops_ok pool_req pool_get (Free 8) ops [] (MemPool_new k)" "length ops < 2 ^ 55"
  shows "\<exists>ps st. run_mem pool_get (Free 8) ops [] (MemPool_new k) = Some (ps, st) \<and> distinct (map fst ps)
    \<and> (\<forall>(p, siz, m)\<in>set ps. \<exists>b st'. pmem st (p - 8) = Some b \<and> unat siz + 8 \<le> psize b
         \<and> Free 8 p st = Some st' \<and> Free 8 p st' = None)"
proof -
  have inv: "pool_inv (Suc (length ops)) (MemPool_new k)" using assms(2) by (intro pool_inv_new) simp
  from pool.client [OF inv assms(1)] show ?thesis by (fastforce simp: pool_used_def)
qed

theorem pool_serves_requests_witness:
  "\<exists>ps st. run_mem pool_get (Free 8) [Get (8, 4096), Get (100, 8192), Give 0, Get (5, 0)] [] (MemPool_new 0) = Some (ps, st) \<and> distinct (map fst ps)"
proof -
  have "mem_ops_ok pool_req pool_get (Free 8) [Get (8, 4096), Get (100, 8192), Give 0, Get (5, 0)] [] (MemPool_new 0)" by code_simp
  from pool_serves_requests [OF this] show ?thesis by auto
qed

end
