(* ===== verification/SmartPtr.thy ===== *)
theory SmartPtr
  imports PoolInv
begin

text \<open>
  Programs over the pointer classes: sequences of the operations that application code performs on
  \<^verbatim>\<open>Ptr<>\<close> variables and on the \<^verbatim>\<open>Ptr<>\<close> members of the objects they refer to. Every state such a sequence
  reaches from a new pool satisfies the invariants of the pool and of the counters, no operation
  faults, and a weak reference is valid exactly as long as its object has not been released.
\<close>

section \<open>Sequences of operations\<close>

datatype ptr_op =
    NewObj nat u64 u16 nat u64
  | Assign nat nat
  | MoveTo nat nat
  | Drop nat
  | Load nat nat nat
  | Store nat nat nat
  | DropMember nat nat

definition root :: "nat \<Rightarrow> pool \<Rightarrow> u64" where
  "root r st = (if r < length (roots st) then roots st ! r else 0)"

primrec run_op :: "nat \<Rightarrow> ptr_op \<Rightarrow> pool \<Rightarrow> pool option" where
  "run_op fuel (NewObj r sz tid nk m) st = Ptr_Create fuel (Root r) sz tid nk True m st"
| "run_op fuel (Assign r r') st = Ptr_copy_assign fuel (Root r) (Root r') st"
| "run_op fuel (MoveTo r r') st = Ptr_move_assign fuel (Root r) (Root r') st"
| "run_op fuel (Drop r) st = Ptr_Reset fuel (Root r) st"
| "run_op fuel (Load r r' i) st = Ptr_copy_assign fuel (Root r) (Member (root r' st) i) st"
| "run_op fuel (Store r i r') st = Ptr_copy_assign fuel (Member (root r st) i) (Root r') st"
| "run_op fuel (DropMember r i) st = Ptr_Reset fuel (Member (root r st) i) st"

text \<open>
  What an operation needs: variables that exist, members of an object that a variable refers to, a
  counter that can be raised, \<^verbatim>\<open>malloc\<close> as documented; \<open>r = r->member\<close> needs two variables.
\<close>

primrec op_ok :: "pool \<Rightarrow> ptr_op \<Rightarrow> bool" where
  "op_ok st (NewObj r sz tid nk m) \<longleftrightarrow> r < length (roots st) \<and> sz \<noteq> 0 \<and> sz \<le> 2 ^ 62 \<and> malloc_ok m st"
| "op_ok st (Assign r r') \<longleftrightarrow> r < length (roots st) \<and> r' < length (roots st) \<and> count_ok st (root r' st)"
| "op_ok st (MoveTo r r') \<longleftrightarrow> r < length (roots st) \<and> r' < length (roots st)"
| "op_ok st (Drop r) \<longleftrightarrow> r < length (roots st)"
| "op_ok st (Load r r' i) \<longleftrightarrow> r < length (roots st) \<and> r' < length (roots st) \<and> r \<noteq> r' \<and> root r' st \<noteq> 0
     \<and> (case ptr_at (Member (root r' st) i) st of None \<Rightarrow> False | Some q \<Rightarrow> count_ok st q)"
| "op_ok st (Store r i r') \<longleftrightarrow> r < length (roots st) \<and> r' < length (roots st) \<and> root r st \<noteq> 0
     \<and> ptr_at (Member (root r st) i) st \<noteq> None \<and> count_ok st (root r' st)"
| "op_ok st (DropMember r i) \<longleftrightarrow> r < length (roots st) \<and> root r st \<noteq> 0 \<and> ptr_at (Member (root r st) i) st \<noteq> None"

primrec run_ptr_ops :: "nat \<Rightarrow> ptr_op list \<Rightarrow> pool \<Rightarrow> pool option" where
  "run_ptr_ops fuel [] st = Some st"
| "run_ptr_ops fuel (op # ops) st = do { st \<leftarrow> run_op fuel op st; run_ptr_ops fuel ops st }"

primrec ops_ok :: "nat \<Rightarrow> ptr_op list \<Rightarrow> pool \<Rightarrow> bool" where
  "ops_ok fuel [] st \<longleftrightarrow> True"
| "ops_ok fuel (op # ops) st \<longleftrightarrow> op_ok st op \<and> (case run_op fuel op st of None \<Rightarrow> True | Some st' \<Rightarrow> ops_ok fuel ops st')"

section \<open>One operation\<close>

lemma root_at: "r < length (roots st) \<Longrightarrow> ptr_at (Root r) st = Some (root r st)"
  by (simp add: ptr_at_def root_def)

lemma root_stable:
  assumes "pinv st'" "shrink st st' {} {l}" "Root r \<noteq> l" "ptr_at (Root r) st = Some p"
  shows "ptr_at (Root r) st' = Some p" "p \<noteq> 0 \<Longrightarrow> live st' (hdr p)"
  using assms shrink_root [of st st' "{}" "{l}" r] rc_live [of st' "{}" "Root r" p] by (auto simp: pinv_def)

lemma member_stable:
  assumes "pinv st'" "shrink st st' {} {l}" "Root r \<noteq> l" "ptr_at (Root r) st = Some p" "p \<noteq> 0"
    and "Member p i \<noteq> l" "ptr_at (Member p i) st = Some q"
  shows "ptr_at (Member p i) st' = Some q" "q \<noteq> 0 \<Longrightarrow> live st' (hdr q)"
proof -
  have "stays {} st' (Member p i)" using root_stable(2) [OF assms(1-4)] assms(5) by (simp add: stays_def)
  then show "ptr_at (Member p i) st' = Some q" using shrink_at [OF assms(2)] assms(6,7) by simp
  then show "live st' (hdr q)" if "q \<noteq> 0" using rc_live [of st' "{}" "Member p i" q] assms(1) that by (simp add: pinv_def)
qed

lemma count_ok_null: "pinv st \<Longrightarrow> count_ok st 0"
  using not_null [of st "{}" _ 0] by (auto simp: pinv_def count_ok_def split: option.splits)

lemma NewObj_ok:
  assumes inv: "pinv st" and op: "op_ok st (NewObj r sz tid nk m)" and n: "card {h. live st h} < fuel" and v: "unat (pvn st) + 1 < 2 ^ 56"
  shows "\<exists>st'. run_op fuel (NewObj r sz tid nk m) st = Some st' \<and> pinv st' \<and> evolves st st'"
proof -
  have r: "ptr_at (Root r) st = Some (root r st)" using op by (simp add: root_at)
  have op': "sz \<noteq> 0" "unat sz \<le> 2 ^ 62" "malloc_ok m st" using op by (auto simp: word_le_nat_alt)
  from Create_ok [OF inv op'(1,2) v op'(3), of tid nk] show ?thesis
  proof (elim disjE exE conjE)
    assume c: "Create sz tid nk True m st = Some (0, st)"
    obtain st' where "Ptr_assign fuel (Root r) (\<lambda>_. Some 0) st = Some st'" "pinv st'" "evolves st st'"
      using Ptr_assign_ok [OF inv r _ _ _ _ count_ok_null [OF inv] evolves_refl, of fuel "\<lambda>_. Some 0"] n by auto
    then show ?thesis using c by (simp add: Ptr_Create_def Ptr_assign_raw_def)
  next
    fix p st1 b
    assume c: "Create sz tid nk True m st = Some (p, st1)" "p \<noteq> 0" "pinv st1" "evolves st st1" and p: "\<not> live st (hdr p)"
      "pmem st1 (hdr p) = Some b" "mpIndex b \<noteq> 0" "prefs b = 0" "\<forall>l. ptr_at l st1 \<noteq> Some p" and rt: "\<forall>k. ptr_at (Root k) st1 = ptr_at (Root k) st"
    have "card {h. live st1 h} \<le> fuel" using c(4) n by (simp add: evolves_def)
    moreover have "Some p = Some p \<and> (p \<noteq> 0 \<longrightarrow> live st' (hdr p))" if "pinv st'" "shrink st1 st' {} {Root r}" for st'
      using shrink_parts(6) [OF that(2) c(2)] p by (auto simp: live_def)
    moreover have "count_ok st1 p" using p by (simp add: count_ok_def)
    moreover have r1: "ptr_at (Root r) st1 = Some (root r st)" using rt r by simp
    ultimately obtain st' where st': "Ptr_assign fuel (Root r) (\<lambda>_. Some p) st1 = Some st'" "pinv st'" "evolves st st'"
      using Ptr_assign_ok [OF c(3) r1, of fuel "\<lambda>_. Some p" p st] c(4) by auto
    then show ?thesis using c(1) by (auto simp: Ptr_Create_def Ptr_assign_raw_def)
  qed
qed

lemma member_pinned: "ptr_at (Root k) st = Some q \<Longrightarrow> q \<noteq> 0 \<Longrightarrow> pinned {} {Member q i} st (Member q i)"
  by auto

lemma root_live: "pinv st \<Longrightarrow> ptr_at l st = Some p \<Longrightarrow> p \<noteq> 0 \<Longrightarrow> live st (hdr p)"
  by (auto simp: pinv_def intro: rc_live)

lemmas Ptr_copy_assign_ok =
  Ptr_assign_ok [where src = "ptr_at l'" and a = st and st = st for l' st, OF _ _ _ _ _ _ _ evolves_refl, folded Ptr_copy_assign_def]

lemma Assign_ok:
  assumes inv: "pinv st" and op: "op_ok st (Assign r r')" and n: "card {h. live st h} < fuel"
  shows "\<exists>st'. run_op fuel (Assign r r') st = Some st' \<and> pinv st' \<and> evolves st st'"
proof (cases "r = r'")
  case True
  then show ?thesis using op inv evolves_refl by (simp add: Ptr_copy_assign_def Ptr_assign_def root_at)
next
  case False
  have at: "ptr_at (Root r) st = Some (root r st)" "ptr_at (Root r') st = Some (root r' st)" "count_ok st (root r' st)"
    using op by (simp_all add: root_at)
  have "ptr_at (Root r') st' = Some (root r' st) \<and> (root r' st \<noteq> 0 \<longrightarrow> live st' (hdr (root r' st)))"
    if "pinv st'" "shrink st st' {} {Root r}" for st'
    using root_stable [OF that, of r'] at(2) False by simp
  then show ?thesis
    using Ptr_copy_assign_ok [OF inv at(1) _ _ at(2) _ at(3), of fuel] n by auto
qed

lemma Load_ok:
  assumes inv: "pinv st" and op: "op_ok st (Load r r' i)" and n: "card {h. live st h} < fuel"
  shows "\<exists>st'. run_op fuel (Load r r' i) st = Some st' \<and> pinv st' \<and> evolves st st'"
proof -
  let ?p = "root r' st" let ?m = "Member ?p i"
  obtain q where q: "ptr_at ?m st = Some q" "count_ok st q" using op by (auto split: option.splits)
  have at: "ptr_at (Root r) st = Some (root r st)" "ptr_at (Root r') st = Some ?p" "?p \<noteq> 0" "Root r' \<noteq> Root r"
    using op by (simp_all add: root_at)
  have "ptr_at ?m st' = Some q \<and> (q \<noteq> 0 \<longrightarrow> live st' (hdr q))" if "pinv st'" "shrink st st' {} {Root r}" for st'
    using member_stable [OF that at(4,2,3) _ q(1)] by simp
  then show ?thesis
    using Ptr_copy_assign_ok [OF inv at(1) _ _ q(1) _ q(2), of fuel] n by auto
qed

lemma Store_ok:
  assumes inv: "pinv st" and op: "op_ok st (Store r i r')" and n: "card {h. live st h} < fuel"
  shows "\<exists>st'. run_op fuel (Store r i r') st = Some st' \<and> pinv st' \<and> evolves st st'"
proof -
  let ?m = "Member (root r st) i"
  obtain q where q: "ptr_at ?m st = Some q" using op by auto
  have at: "ptr_at (Root r) st = Some (root r st)" "root r st \<noteq> 0" "ptr_at (Root r') st = Some (root r' st)" "count_ok st (root r' st)"
    using op by (simp_all add: root_at)
  have "ptr_at (Root r') st' = Some (root r' st) \<and> (root r' st \<noteq> 0 \<longrightarrow> live st' (hdr (root r' st)))"
    if "pinv st'" "shrink st st' {} {?m}" for st'
    using root_stable [OF that, of r'] at(3) by simp
  then show ?thesis
    using Ptr_copy_assign_ok [OF inv q member_pinned [OF at(1,2)] _ at(3) _ at(4), of fuel] n by auto
qed

lemma Drop_ok:
  assumes "pinv st" "ptr_at l st = Some p" "pinned {} {l} st l" "card {h. live st h} < fuel"
  shows "\<exists>st'. Ptr_Reset fuel l st = Some st' \<and> pinv st' \<and> evolves st st'"
  using Ptr_Reset_ok [OF assms(1-3), of fuel] assms(4) shrink_evolves by fastforce

lemma run_op_ok:
  assumes inv: "pinv st" and op: "op_ok st opn" and n: "card {h. live st h} < fuel" and v: "unat (pvn st) + 1 < 2 ^ 56"
  shows "\<exists>st'. run_op fuel opn st = Some st' \<and> pinv st' \<and> evolves st st'"
proof (cases opn)
  case (NewObj r sz tid nk m)
  then show ?thesis using NewObj_ok [OF inv _ n v] op by metis
next
  case (Assign r r')
  then show ?thesis using Assign_ok [OF inv _ n] op by metis
next
  case (MoveTo r r')
  then show ?thesis using Ptr_move_assign_ok [OF inv root_at root_at, of r r' fuel] op n by auto
next
  case (Drop r)
  then show ?thesis using Drop_ok [OF inv root_at, of r fuel] op n by auto
next
  case (Load r r' i)
  then show ?thesis using Load_ok [OF inv _ n] op by metis
next
  case (Store r i r')
  then show ?thesis using Store_ok [OF inv _ n] op by metis
next
  case (DropMember r i)
  then show ?thesis using Drop_ok [OF inv _ member_pinned [OF root_at], of r i _ fuel] op n by auto
qed

section \<open>Sequences\<close>

lemma run_ptr_ops_ok:
  assumes "pinv st" "ops_ok fuel ops st" "card {h. live st h} + length ops \<le> fuel" "unat (pvn st) + length ops < 2 ^ 56"
  shows "\<exists>st'. run_ptr_ops fuel ops st = Some st' \<and> pinv st' \<and> card {h. live st' h} \<le> card {h. live st h} + length ops
    \<and> unat (pvn st') \<le> unat (pvn st) + length ops"
  using assms
proof (induction ops arbitrary: st)
  case (Cons opn ops)
  obtain st1 where 1: "run_op fuel opn st = Some st1" "pinv st1" "evolves st st1"
    using run_op_ok [OF Cons.prems(1), of opn fuel] Cons.prems(2-4) by auto
  then have "card {h. live st1 h} \<le> card {h. live st h} + 1" "unat (pvn st1) \<le> unat (pvn st) + 1" by (auto simp: evolves_def)
  then show ?case using Cons.IH [OF 1(2)] Cons.prems(2-4) 1(1) by fastforce
qed simp

lemma pool_ok_new: "pool_ok (MemPool_new n) {} (\<lambda>_. [])"
  by (simp add: pool_ok_def free_ok_def MemPool_new_def)

lemma pinv_new: "pinv (MemPool_new n)" "card {h. live (MemPool_new n) h} = 0" "unat (pvn (MemPool_new n)) = 0"
proof -
  have "p = 0" if "ptr_at l (MemPool_new n) = Some p" for l p
    using that by (cases l) (auto simp: ptr_at_def MemPool_new_def split: if_splits)
  then have "rc (MemPool_new n) {}" by (auto simp: rc_def) (simp add: MemPool_new_def)
  then show "pinv (MemPool_new n)" using pool_ok_new by (auto simp: pinv_def)
qed (simp_all add: live_def MemPool_new_def)

lemmas run_from_new = run_ptr_ops_ok [OF pinv_new(1), unfolded pinv_new(2,3) add_0]


section \<open>Weak references\<close>

text \<open>The object at \<open>p\<close> is not released by any of the operations.\<close>

primrec survives :: "nat \<Rightarrow> u64 \<Rightarrow> ptr_op list \<Rightarrow> pool \<Rightarrow> bool" where
  "survives fuel p [] st \<longleftrightarrow> live st (hdr p)"
| "survives fuel p (opn # ops) st \<longleftrightarrow>
     live st (hdr p) \<and> (case run_op fuel opn st of None \<Rightarrow> False | Some st' \<Rightarrow> survives fuel p ops st')"

text \<open>A version number that was given out before names one object only.\<close>

definition seen :: "pool \<Rightarrow> u64 \<Rightarrow> bool" where
  "seen st v \<longleftrightarrow> drop_bit 56 v \<noteq> 0 \<and> unat (take_bit 56 v) \<le> unat (pvn st)"

lemma evolves_version:
  assumes e: "evolves st st'" and v: "seen st v" and b: "pmem st h = Some b"
  shows "\<exists>b'. pmem st' h = Some b' \<and> (vnum b' = v \<longleftrightarrow> vnum b = v \<and> live st' h)" "seen st' v"
proof -
  obtain b' where b': "pmem st' h = Some b'" using e b unfolding evolves_def by blast
  have lv: "live st h" if "vnum b = v" using that v b by (auto simp: live_def mpIndex_def seen_def unat_eq_0)
  have lv': "live st' h" if "vnum b' = v" using that v b' by (auto simp: live_def mpIndex_def seen_def unat_eq_0)
  have "vnum b' = vnum b" if "live st h" "live st' h" using that e b b' unfolding evolves_def by blast
  moreover have "vnum b' \<noteq> v" if "\<not> live st h" "live st' h"
    using that e b' v unfolding evolves_def seen_def by (metis not_le)
  ultimately show "\<exists>b'. pmem st' h = Some b' \<and> (vnum b' = v \<longleftrightarrow> vnum b = v \<and> live st' h)" using b' lv lv' by metis
  show "seen st' v" using v e by (auto simp: seen_def evolves_def)
qed

lemma run_version:
  assumes "pinv st" "ops_ok fuel ops st" "card {h. live st h} + length ops \<le> fuel" "unat (pvn st) + length ops < 2 ^ 56"
    and "seen st v" "pmem st (hdr p) = Some b" "vnum b = v \<longrightarrow> live st (hdr p)"
  shows "\<exists>st' b'. run_ptr_ops fuel ops st = Some st' \<and> pmem st' (hdr p) = Some b' \<and> (vnum b' = v \<longleftrightarrow> vnum b = v \<and> survives fuel p ops st)"
  using assms
proof (induction ops arbitrary: st b)
  case Nil
  then show ?case by auto
next
  case (Cons opn ops)
  obtain st1 where 1: "run_op fuel opn st = Some st1" "pinv st1" and e: "evolves st st1"
    using run_op_ok [OF Cons.prems(1), of opn fuel] Cons.prems(2-4) by auto
  then have n: "card {h. live st1 h} \<le> card {h. live st h} + 1" "unat (pvn st1) \<le> unat (pvn st) + 1" by (auto simp: evolves_def)
  obtain b1 where b1: "pmem st1 (hdr p) = Some b1" "vnum b1 = v \<longleftrightarrow> vnum b = v \<and> live st1 (hdr p)" and sn: "seen st1 v"
    using evolves_version [OF e Cons.prems(5,6)] by blast
  have "survives fuel p ops st1 \<Longrightarrow> live st1 (hdr p)" by (cases ops) simp_all
  then show ?case using Cons.IH [OF 1(2) _ _ _ sn b1(1)] Cons.prems(2-4,7) n 1(1) b1(2) by auto
qed

text \<open>
  C32: A weak reference is exact. It is made of a pointer at any point of a program; whatever the program
  does next, the reference reads as valid if and only if its object has not been released since then, also when
  the memory of the object has been given to another object in between.
\<close>

theorem weak_reference_exact:
  assumes "ops_ok fuel ops (MemPool_new n)" "run_ptr_ops fuel ops (MemPool_new n) = Some st" "ptr_at l st = Some p" "p \<noteq> 0"
    and "ops_ok fuel ops' st" "length ops + length ops' \<le> fuel" "length ops + length ops' < 2 ^ 56"
  shows "\<exists>w st' w'. Weak_of_raw p st = Some w \<and> run_ptr_ops fuel ops' st = Some st' \<and> Weak_bool w st' = Some (survives fuel p ops' st, w')"
proof -
  have st: "pinv st" "card {h. live st h} \<le> length ops" "unat (pvn st) \<le> length ops"
    using run_from_new [OF assms(1)] assms(2,6,7) by auto
  obtain fl where ok: "pool_ok st {} fl" using st(1) by (auto simp: pinv_def)
  obtain b where b: "pmem st (hdr p) = Some b" "mpIndex b \<noteq> 0" using root_live [OF st(1) assms(3,4)] by (auto simp: live_def)
  have sn: "seen st (vnum b)" using pool_ok_blk [OF ok b(1)] b(2) by (auto simp: seen_def blk_ok_def mpIndex_def unat_eq_0)
  obtain st' b' where 1: "run_ptr_ops fuel ops' st = Some st'" "pmem st' (hdr p) = Some b'" "vnum b' = vnum b \<longleftrightarrow> survives fuel p ops' st"
    using run_version [OF st(1) assms(5) _ _ sn b(1)] st(2,3) assms(6,7) b by (auto simp: live_def)
  then show ?thesis using b(1) assms(4) by (simp add: Weak_of_raw_def Weak_bool_def)
qed

text \<open>
  Two objects; the first refers to the second, whose variable is dropped; a weak reference to the second
  outlives it when the first one goes, and a third object reuses its memory.
\<close>

definition demo :: "ptr_op list" where
  "demo = [NewObj 0 8 1 1 4096, NewObj 1 8 1 1 8192, Store 0 0 1, Drop 1]"

definition demo' :: "ptr_op list" where
  "demo' = [Load 1 0 0, DropMember 0 0, Drop 1, NewObj 1 8 1 1 0]"

definition demo_state :: pool where
  "demo_state = the (run_ptr_ops 8 demo (MemPool_new 2))"

lemma demo_ok: "ops_ok 8 demo (MemPool_new 2)"
  by code_simp

lemma demo_run: "run_ptr_ops 8 demo (MemPool_new 2) = Some demo_state"
proof -
  have "length demo \<le> 8" "length demo < 2 ^ 56" by (simp_all add: demo_def)
  from run_from_new [OF demo_ok this] show ?thesis unfolding demo_state_def by fastforce
qed

lemma demo_at: "ptr_at (Member 4112 0) demo_state = Some 8208"
  by code_simp

lemma demo_rest: "ops_ok 8 demo' demo_state"
  by code_simp

lemma demo_released: "survives 8 8208 (take 2 demo') demo_state" "\<not> survives 8 8208 demo' demo_state"
  by code_simp+


theorem weak_reference_exact_witness:
  "\<exists>w st' w'. Weak_of_raw 8208 demo_state = Some w \<and> run_ptr_ops 8 demo' demo_state = Some st' \<and> Weak_bool w st' = Some (False, w')"
proof -
  have "length demo + length demo' \<le> 8" "length demo + length demo' < 2 ^ 56" by (simp_all add: demo_def demo'_def)
  from weak_reference_exact [OF demo_ok demo_run demo_at _ demo_rest this] demo_released(2) show ?thesis by simp
qed

section \<open>Assigning from a member of the object itself\<close>


end
