(* ===== verification/Frames.thy ===== *)
theory Frames
  imports Codecs
begin

text \<open>
  Length-prefixed frames (test\_uv\_3/xx\_uv.h): the \<^verbatim>\<open>Unpack\<close> loop that the TCP, the UDP and the KCP
  peer share, which appends what was received to the peer's buffer, hands every complete frame
  (four bytes of length, little endian, then that many bytes) to \<^verbatim>\<open>HandlePack\<close> and keeps the rest for
  the next call. The loop is compared with a recursive reference function on byte lists that knows
  nothing of buffers, offsets and machine integers, for every input, and then shown to deliver a
  stream of frames the same way however the network cuts it into pieces.
\<close>

unbundle bit_operations_syntax

section \<open>The loop\<close>

text \<open>
  The four length bytes are promoted to \<^verbatim>\<open>int\<close> and added; the last one is shifted by 24, which
  reaches the sign bit, so a length of \<open>2 ^ 31\<close> and more is negative.
\<close>

definition hdr_len :: "u8 \<Rightarrow> u8 \<Rightarrow> u8 \<Rightarrow> u8 \<Rightarrow> int" where
  "hdr_len b0 b1 b2 b3 = uint b0 + push_bit 8 (uint b1) + push_bit 16 (uint b2)
     + sint (push_bit 24 (ucast b3) :: 32 word)"

text \<open>
  The loop of \<^verbatim>\<open>Unpack\<close>: \<^verbatim>\<open>offset\<close> is a \<^verbatim>\<open>uint32_t\<close>, and the comparisons with \<^verbatim>\<open>buf.len\<close> widen it after the
  addition has wrapped. \<open>hp\<close> is the virtual \<^verbatim>\<open>HandlePack\<close>, \<open>p\<close> the peer it works on. \<open>Inl\<close> is an early
  \<^verbatim>\<open>return\<close>, \<open>Inr\<close> the offset at which the loop ends. A frame of length zero would not move the offset
  forward, hence a function that may not return; that it does is part of \<open>unpack_loop_spec\<close>.
\<close>

partial_function (option) unpack_loop ::
  "(bytes \<Rightarrow> 'p \<Rightarrow> (int \<times> 'p) option) \<Rightarrow> u8 xx_list \<Rightarrow> u32 \<Rightarrow> 'p \<Rightarrow> ((int + u32) \<times> 'p) option" where
  [code]: "unpack_loop hp b offs p =
     (if unat (offs + 4) \<le> llen b then do {
        b0 \<leftarrow> At b (unat (offs + 0));
        b1 \<leftarrow> At b (unat (offs + 1));
        b2 \<leftarrow> At b (unat (offs + 2));
        b3 \<leftarrow> At b (unat (offs + 3));
        (let len = hdr_len b0 b1 b2 b3 in
         if len \<le> 0 then Some (Inl (- 1), p)
         else if llen b < unat (offs + 4 + word_of_int len) then Some (Inr offs, p)
         else do {
           pack \<leftarrow> get_range (lbuf b) (unat (offs + 4)) (nat len);
           rp \<leftarrow> hp pack p;
           (if fst rp \<noteq> 0 then Some (Inl (fst rp), snd rp)
            else unpack_loop hp b (offs + 4 + word_of_int len) (snd rp)) }) }
      else Some (Inr offs, p))"

text \<open>
  The virtual \<^verbatim>\<open>Unpack\<close> of the TCP peer. An early return leaves the received bytes in the buffer.
\<close>

definition Unpack ::
  "(bytes \<Rightarrow> 'p \<Rightarrow> (int \<times> 'p) option) \<Rightarrow> bytes \<Rightarrow> u8 xx_list \<Rightarrow> 'p \<Rightarrow> (int \<times> u8 xx_list \<times> 'p) option" where
  "Unpack hp recvBuf b p = do {
     b1 \<leftarrow> AddRange True 1 recvBuf b;
     (r, p') \<leftarrow> unpack_loop hp b1 0 p;
     (case r of
        Inl e \<Rightarrow> Some (e, b1, p')
      | Inr offs \<Rightarrow> do { b2 \<leftarrow> RemoveFront (unat offs) b1; Some (0, b2, p') }) }"

text \<open>
  \<^verbatim>\<open>UvUdpBasePeer::Unpack\<close> passes the address of the datagram on; \<^verbatim>\<open>UvUdpKcpPeer::Unpack\<close> is the loop of
  the TCP peer again.
\<close>

definition Udp_Unpack ::
  "(bytes \<Rightarrow> 'a \<Rightarrow> 'p \<Rightarrow> (int \<times> 'p) option) \<Rightarrow> bytes \<Rightarrow> 'a \<Rightarrow> u8 xx_list \<Rightarrow> 'p \<Rightarrow> (int \<times> u8 xx_list \<times> 'p) option" where
  "Udp_Unpack hp recvBuf addr b p = do {
     b1 \<leftarrow> AddRange True 1 recvBuf b;
     (r, p') \<leftarrow> unpack_loop (\<lambda>d. hp d addr) b1 0 p;
     (case r of
        Inl e \<Rightarrow> Some (e, b1, p')
      | Inr offs \<Rightarrow> do { b2 \<leftarrow> RemoveFront (unat offs) b1; Some (0, b2, p') }) }"

definition Kcp_Unpack ::
  "(bytes \<Rightarrow> 'p \<Rightarrow> (int \<times> 'p) option) \<Rightarrow> bytes \<Rightarrow> u8 xx_list \<Rightarrow> 'p \<Rightarrow> (int \<times> u8 xx_list \<times> 'p) option" where
  "Kcp_Unpack hp recvBuf b p = do {
     b1 \<leftarrow> AddRange True 1 recvBuf b;
     (r, p') \<leftarrow> unpack_loop hp b1 0 p;
     (case r of
        Inl e \<Rightarrow> Some (e, b1, p')
      | Inr offs \<Rightarrow> do { b2 \<leftarrow> RemoveFront (unat offs) b1; Some (0, b2, p') }) }"

section \<open>The reference\<close>

text \<open>The length a header announces, read as a 32-bit signed integer.\<close>

definition frame_len :: "bytes \<Rightarrow> int" where
  "frame_len xs = sint (le_word (take 4 xs) :: 32 word)"

text \<open>The complete frames at the front of a byte sequence, and what is left behind them.\<close>

function split_frames :: "bytes \<Rightarrow> bytes list \<times> bytes" where
  "split_frames xs =
     (if length xs < 4 \<or> frame_len xs \<le> 0 \<or> int (length xs) < 4 + frame_len xs then ([], xs)
      else let n = nat (frame_len xs); (ds, r) = split_frames (drop (4 + n) xs)
           in (take n (drop 4 xs) # ds, r))"
  by pat_completeness auto
termination by (relation "measure length") auto

declare split_frames.simps [simp del]

definition bad_header :: "bytes \<Rightarrow> bool" where
  "bad_header xs \<longleftrightarrow> 4 \<le> length xs \<and> frame_len xs \<le> 0"

text \<open>Handling packs one after another until one of them is refused.\<close>

fun deliver :: "('d \<Rightarrow> 'p \<Rightarrow> (int \<times> 'p) option) \<Rightarrow> 'd list \<Rightarrow> 'p \<Rightarrow> (int \<times> 'p) option" where
  "deliver hp [] p = Some (0, p)"
| "deliver hp (d # ds) p = do {
     (r, p') \<leftarrow> hp d p;
     if r \<noteq> 0 then Some (r, p') else deliver hp ds p' }"

section \<open>The loop computes the reference\<close>

lemma sint_of_uint32:
  "sint (w :: 32 word) = (if uint w < 2 ^ 31 then uint w else uint w - 2 ^ 32)"
proof -
  have e: "sint w = (uint w + 2 ^ 31) mod 2 ^ 32 - 2 ^ 31"
    by (simp add: sint_uint signed_take_bit_eq_take_bit_shift take_bit_eq_mod)
  have u: "0 \<le> uint w" "uint w < 2 ^ 32" using uint_lt2p [of w] by simp_all
  show ?thesis
  proof (cases "uint w < 2 ^ 31")
    case True
    then show ?thesis using e u by simp
  next
    case False
    then have "(uint w - 2 ^ 31) mod 2 ^ 32 = uint w - 2 ^ 31"
      using u by (intro mod_pos_pos_trivial) simp_all
    moreover have "uint w + 2 ^ 31 = uint w - 2 ^ 31 + 2 ^ 32" by simp
    then have "(uint w + 2 ^ 31) mod 2 ^ 32 = (uint w - 2 ^ 31) mod 2 ^ 32" by (metis mod_add_self2)
    ultimately have "sint w = uint w - 2 ^ 31 - 2 ^ 31" by (simp only: e)
    with False show ?thesis by simp
  qed
qed

lemma hdr_len_word: "hdr_len b0 b1 b2 b3 = sint (le_word [b0, b1, b2, b3] :: 32 word)"
proof -
  let ?u = "\<lambda>b :: u8. uint b"
  have b: "0 \<le> ?u b \<and> ?u b < 256" for b using uint_lt2p [of b] by simp
  have or: "(ucast c :: 32 word) OR push_bit 8 w = ucast c + push_bit 8 w" for c :: u8 and w
    by (rule disjunctive_add [symmetric]) (auto simp: bit_simps dest: bit_imp_le_length)
  have "(le_word [b0, b1, b2, b3] :: 32 word) =
      ucast b0 + push_bit 8 (ucast b1 + push_bit 8 (ucast b2 + push_bit 8 (ucast b3 + push_bit 8 0)))"
    by (simp only: le_word.simps or)
  then have e1: "uint (le_word [b0, b1, b2, b3] :: 32 word) = ?u b0 + 256 * ?u b1 + 65536 * ?u b2 + 16777216 * ?u b3"
    using b [of b0] b [of b1] b [of b2] b [of b3]
    by (simp add: uint_word_ariths push_bit_eq_mult uint_up_ucast is_up)
  have e2: "uint (push_bit 24 (ucast b3) :: 32 word) = 16777216 * ?u b3"
    using b [of b3] by (simp add: push_bit_eq_mult uint_word_ariths uint_up_ucast is_up)
  have e3: "hdr_len b0 b1 b2 b3 = ?u b0 + 256 * ?u b1 + 65536 * ?u b2 + sint (push_bit 24 (ucast b3) :: 32 word)"
    by (simp add: hdr_len_def push_bit_eq_mult)
  have sgn: "16777216 * ?u b3 < 2 ^ 31 \<longleftrightarrow> ?u b0 + 256 * ?u b1 + 65536 * ?u b2 + 16777216 * ?u b3 < 2 ^ 31"
  proof (cases "?u b3 \<le> 127")
    case False
    then have "2147483648 \<le> 16777216 * ?u b3" by simp
    then have "2147483648 \<le> ?u b0 + 256 * ?u b1 + 65536 * ?u b2 + 16777216 * ?u b3"
      using b [of b0] b [of b1] b [of b2] by linarith
    with False show ?thesis by simp
  qed (use b [of b0] b [of b1] b [of b2] in auto)
  show ?thesis unfolding e3 sint_of_uint32 e1 e2 sgn by simp
qed

lemma At_frame_len:
  assumes rep: "lrep 1 b (pre @ xs)" and xs: "4 \<le> length xs" and n: "length (pre @ xs) \<le> 2 ^ 31"
    and offs: "unat (offs :: u32) = length pre"
  obtains c0 c1 c2 c3 where "At b (unat (offs + 0)) = Some c0" and "At b (unat (offs + 1)) = Some c1"
    and "At b (unat (offs + 2)) = Some c2" and "At b (unat (offs + 3)) = Some c3"
    and "hdr_len c0 c1 c2 c3 = frame_len xs"
proof -
  obtain c0 c1 c2 c3 ys where ys: "xs = c0 # c1 # c2 # c3 # ys"
    using xs by (auto simp: numeral_eq_Suc Suc_le_length_iff)
  have u: "unat (offs + 1) = length pre + 1" "unat (offs + 2) = length pre + 2"
      "unat (offs + 3) = length pre + 3"
    using offs n xs by (simp_all add: unat_word_ariths)
  have at: "At b (length pre + i) = Some ((c0 # c1 # c2 # c3 # ys) ! i)" if "i < 4" for i
    using that by (simp add: At_ok [OF rep] ys nth_append)
  show thesis
    by (rule that [of c0 c1 c2 c3])
      (use at [of 0] at [of 1] at [of 2] at [of 3] in
        \<open>simp_all add: u offs hdr_len_word frame_len_def ys numeral_eq_Suc\<close>)
qed

lemma unpack_loop_spec:
  assumes "lrep 1 b (pre @ xs)" and "length (pre @ xs) \<le> 2 ^ 31" and "unat offs = length pre"
  shows "unpack_loop hp b offs p = do {
     (e, p') \<leftarrow> deliver hp (fst (split_frames xs)) p;
     Some (if e \<noteq> 0 then Inl e else if bad_header (snd (split_frames xs)) then Inl (- 1)
           else Inr (word_of_nat (length (pre @ xs) - length (snd (split_frames xs)))), p') }"
  using assms
proof (induction xs arbitrary: pre offs p rule: split_frames.induct)
  case (1 xs)
  note rep = "1.prems"(1) and n = "1.prems"(2) and offs = "1.prems"(3)
  have o4: "unat (offs + 4) = length pre + 4"
    using offs n by (simp add: unat_word_ariths)
  have w: "word_of_nat (length pre) = offs" by (simp flip: offs)
  note loop = unpack_loop.simps [of hp b offs p]
  show ?case
  proof (cases "length xs < 4")
    case True
    then show ?thesis using o4 lrep_length [OF rep] w
      by (subst loop) (simp add: split_frames.simps [of xs] bad_header_def)
  next
    case False
    then have x4: "4 \<le> length xs" by simp
    obtain c0 c1 c2 c3 where c: "At b (unat (offs + 0)) = Some c0" "At b (unat (offs + 1)) = Some c1"
        "At b (unat (offs + 2)) = Some c2" "At b (unat (offs + 3)) = Some c3"
        "hdr_len c0 c1 c2 c3 = frame_len xs"
      by (rule At_frame_len [OF rep x4 n offs])
    have L: "llen b = length pre + length xs" using lrep_length [OF rep] by simp
    have fl: "frame_len xs < 2 ^ 31" unfolding frame_len_def using sint_lt [of "le_word (take 4 xs) :: 32 word"] by simp
    have on: "unat (offs + 4 + word_of_int (frame_len xs)) = length pre + 4 + nat (frame_len xs)"
      if "0 < frame_len xs"
    proof -
      have "uint (word_of_int (frame_len xs) :: u32) = frame_len xs"
        using that fl by (simp add: uint_word_of_int_eq take_bit_int_eq_self)
      then have "unat (word_of_int (frame_len xs) :: u32) = nat (frame_len xs)"
        by (metis nat_uint_eq)
      then show ?thesis using that fl n x4 o4 by (simp add: unat_word_ariths)
    qed
    consider (bad) "frame_len xs \<le> 0" | (short) "0 < frame_len xs" "int (length xs) < 4 + frame_len xs"
      | (ok) "0 < frame_len xs" "4 + frame_len xs \<le> int (length xs)" by linarith
    then show ?thesis
    proof cases
      case bad
      then show ?thesis using o4 L x4
        by (subst loop) (simp add: c [simplified] split_frames.simps [of xs] bad_header_def)
    next
      case short
      then have "length xs < 4 + nat (frame_len xs)" by linarith
      with short show ?thesis using o4 L x4 w on
        by (subst loop) (auto simp: Let_def c [simplified] split_frames.simps [of xs] bad_header_def)
    next
      case ok
      define m where "m = nat (frame_len xs)"
      have m: "4 + m \<le> length xs" "frame_len xs = int m" "0 < m" using ok by (auto simp: m_def)
      have g: "get_range (lbuf b) (unat (offs + 4)) (nat (frame_len xs)) = Some (take m (drop 4 xs))"
        using get_range_holds [OF lrep_holds [OF rep], of "length pre + 4" m] m o4 by simp
      have sp: "split_frames xs = (take m (drop 4 xs) # fst (split_frames (drop (4 + m) xs)),
          snd (split_frames (drop (4 + m) xs)))"
        using m x4 by (subst split_frames.simps) (simp add: case_prod_beta)
      have IH: "unpack_loop hp b (offs + 4 + word_of_int (frame_len xs)) p' =
         do { (e, p'') \<leftarrow> deliver hp (fst (split_frames (drop (4 + m) xs))) p';
           Some (if e \<noteq> 0 then Inl e else if bad_header (snd (split_frames (drop (4 + m) xs))) then Inl (- 1)
           else Inr (word_of_nat (length (pre @ xs) - length (snd (split_frames (drop (4 + m) xs))))), p'') }" for p'
      proof -
        have c: "\<not> (length xs < 4 \<or> frame_len xs \<le> 0 \<or> int (length xs) < 4 + frame_len xs)"
          using ok x4 by linarith
        have l: "length (pre @ take (4 + m) xs) = length pre + 4 + m" using m by simp
        have r: "(pre @ take (4 + m) xs) @ drop (4 + m) xs = pre @ xs" by simp
        show ?thesis
          using "1.IH" [OF c m_def, of "pre @ take (4 + m) xs" "offs + 4 + word_of_int (frame_len xs)" p']
            rep n on [OF ok(1), folded m_def] unfolding r l by blast
      qed
      have "\<not> llen b < unat (offs + 4 + word_of_int (frame_len xs))" using on ok m L by simp
      then have U: "unpack_loop hp b offs p = do { rp \<leftarrow> hp (take m (drop 4 xs)) p;
          if fst rp \<noteq> 0 then Some (Inl (fst rp), snd rp)
          else unpack_loop hp b (offs + 4 + word_of_int (frame_len xs)) (snd rp) }"
        using o4 L x4 ok g by (subst loop) (simp add: c [simplified])
      show ?thesis
        unfolding U IH sp fst_conv snd_conv
        by (cases "hp (take m (drop 4 xs)) p") (simp_all split: prod.split)
    qed
  qed
qed

lemma split_frames_suffix: "\<exists>ys. xs = ys @ snd (split_frames xs)"
proof (induction xs rule: split_frames.induct)
  case (1 xs)
  show ?case
  proof (cases "length xs < 4 \<or> frame_len xs \<le> 0 \<or> int (length xs) < 4 + frame_len xs")
    case True
    then show ?thesis by (subst split_frames.simps) auto
  next
    case False
    let ?d = "drop (4 + nat (frame_len xs)) xs"
    from "1.IH" [OF False refl] obtain ys where "?d = ys @ snd (split_frames ?d)" by auto
    then have "xs = (take (4 + nat (frame_len xs)) xs @ ys) @ snd (split_frames ?d)"
      by (metis append.assoc append_take_drop_id)
    moreover have "snd (split_frames xs) = snd (split_frames ?d)"
      using False by (subst split_frames.simps) (simp add: case_prod_beta Let_def)
    ultimately show ?thesis by metis
  qed
qed

lemma Unpack_spec:
  assumes rep: "lrep 1 b xs" and n: "length (xs @ recvBuf) \<le> 2 ^ 31"
    and d: "deliver hp (fst (split_frames (xs @ recvBuf))) p = Some (r, p')"
  shows "\<exists>b'. Unpack hp recvBuf b p
       = Some (if r = 0 \<and> bad_header (snd (split_frames (xs @ recvBuf))) then - 1 else r, b', p') \<and>
     lrep 1 b' (if r \<noteq> 0 \<or> bad_header (snd (split_frames (xs @ recvBuf))) then xs @ recvBuf
                else snd (split_frames (xs @ recvBuf)))"
proof -
  let ?s = "xs @ recvBuf"
  let ?r = "snd (split_frames ?s)"
  have "fits 1 (length xs + length recvBuf)" using n by (simp add: fits_def)
  from AddRange_ok [OF rep this, of True] obtain b1 where b1: "AddRange True 1 recvBuf b = Some b1"
      "lrep 1 b1 ?s" by (auto simp: lstep_def)
  have "unpack_loop hp b1 0 p = Some (if r \<noteq> 0 then Inl r else if bad_header ?r then Inl (- 1)
           else Inr (word_of_nat (length ?s - length ?r)), p')"
    using unpack_loop_spec [of b1 "[]" ?s 0 hp p] b1(2) n d by simp
  note u = this
  show ?thesis
  proof (cases "r \<noteq> 0 \<or> bad_header ?r")
    case True
    then show ?thesis using u b1 by (auto simp: Unpack_def)
  next
    case False
    obtain ys where ys: "?s = ys @ ?r" using split_frames_suffix by blast
    then have len: "length ?s = length ys + length ?r" by (metis length_append)
    have un: "unat (word_of_nat (length ?s - length ?r) :: u32) = length ys"
      using n len by (simp add: unat_of_nat)
    obtain b2 where "RemoveFront (length ys) b1 = Some b2" "lrep 1 b2 (drop (length ys) ?s)"
      using RemoveFront_ok [OF b1(2), of "length ys"] len by (auto simp: lstep_def)
    moreover have "drop (length ys) ?s = ?r" by (subst ys) simp
    ultimately show ?thesis using False u b1 un by (simp add: Unpack_def)
  qed
qed

text \<open>
  C15: on any received bytes and any bytes kept from before, \<^verbatim>\<open>Unpack\<close> hands \<^verbatim>\<open>HandlePack\<close> exactly the
  complete frames of the two together, in order, up to the first one it refuses; it returns that
  refusal, or -1 when the frames are followed by a header with a length that is zero or negative,
  and 0 otherwise. In the last case the buffer keeps exactly the incomplete rest; in the other two
  it keeps everything, the handled frames included. No index leaves the buffer and the loop ends.
\<close>

theorem Unpack_refines:
  assumes rep: "lrep 1 b xs" and n: "length (xs @ recvBuf) \<le> 2 ^ 31"
    and d: "deliver hp (fst (split_frames (xs @ recvBuf))) p = Some (r, p')"
  shows "\<exists>b'. Unpack hp recvBuf b p
       = Some (if r = 0 \<and> bad_header (snd (split_frames (xs @ recvBuf))) then - 1 else r, b', p') \<and>
     lrep 1 b' (if r \<noteq> 0 \<or> bad_header (snd (split_frames (xs @ recvBuf))) then xs @ recvBuf
                else snd (split_frames (xs @ recvBuf)))"
  by (rule Unpack_spec [OF assms])

lemma Udp_Unpack_eq: "Udp_Unpack hp recvBuf addr = Unpack (\<lambda>d. hp d addr) recvBuf"
  by (simp add: Udp_Unpack_def Unpack_def fun_eq_iff)

lemma Kcp_Unpack_eq: "Kcp_Unpack = Unpack"
  by (simp add: Kcp_Unpack_def Unpack_def fun_eq_iff)

section \<open>Streams of frames\<close>

text \<open>What \<^verbatim>\<open>SendReqAndData\<close> puts on the wire for a pack: its length and the pack.\<close>

definition frame_bytes :: "bytes \<Rightarrow> bytes" where
  "frame_bytes d = le_bytes 4 (word_of_nat (length d) :: u32) @ d"

text \<open>The reads of a connection one after another.\<close>

definition recv_all ::
  "(bytes \<Rightarrow> 'p \<Rightarrow> (int \<times> 'p) option) \<Rightarrow> bytes list \<Rightarrow> u8 xx_list \<Rightarrow> 'p \<Rightarrow> (int \<times> u8 xx_list \<times> 'p) option" where
  "recv_all hp cs b p = deliver (\<lambda>c (b, p). Unpack hp c b p) cs (b, p)"

lemma length_frame_bytes [simp]: "length (frame_bytes d) = 4 + length d"
  by (simp add: frame_bytes_def)

lemma frame_len_prefix:
  assumes "length d < 2 ^ 31" and "u @ v = frame_bytes d @ ys" and "4 \<le> length u"
  shows "frame_len u = int (length d)"
proof -
  have "take 4 u = take 4 (u @ v)" using assms(3) by simp
  also have "\<dots> = le_bytes 4 (word_of_nat (length d) :: u32)" unfolding assms(2) by (simp add: frame_bytes_def)
  finally have "frame_len u = sint (word_of_nat (length d) :: u32)"
    by (simp add: frame_len_def le_word_le_bytes)
  also have "\<dots> = int (length d)"
  proof -
    have "uint (word_of_nat (length d) :: u32) = int (unat (word_of_nat (length d) :: u32))" by simp
    also have "\<dots> = int (length d)" using assms(1) by (simp add: unat_of_nat)
    finally show ?thesis using assms(1) by (simp add: sint_of_uint32)
  qed
  finally show ?thesis .
qed

lemma split_frames_frame:
  assumes "0 < length d" "length d < 2 ^ 31"
  shows "split_frames (frame_bytes d @ u) = (d # fst (split_frames u), snd (split_frames u))"
proof -
  have l: "frame_len (frame_bytes d @ u) = int (length d)"
    by (rule frame_len_prefix [OF assms(2), where v = "[]"]) auto
  have "drop (4 + length d) (frame_bytes d @ u) = u" "take (length d) (drop 4 (frame_bytes d @ u)) = d"
    by (simp_all add: frame_bytes_def)
  with assms show ?thesis by (subst split_frames.simps) (simp add: l case_prod_beta)
qed

lemma prefix_frames:
  assumes "\<forall>d \<in> set ds. 0 < length d \<and> length d \<le> M" and "M < 2 ^ 31"
    and "u @ v = concat (map frame_bytes ds)"
  shows "\<exists>ds1 ds2 r. ds = ds1 @ ds2 \<and> split_frames u = (ds1, r) \<and> \<not> bad_header r \<and>
     split_frames r = ([], r) \<and> r @ v = concat (map frame_bytes ds2) \<and> length r \<le> 4 + M"
  using assms
proof (induction ds arbitrary: u)
  case Nil
  then show ?case by (intro exI [of _ "[]"]) (simp add: split_frames.simps bad_header_def)
next
  case (Cons d ds)
  have d: "0 < length d" "length d \<le> M" "length d < 2 ^ 31" using Cons.prems by auto
  show ?case
  proof (cases "length u < 4 + length d")
    case True
    have "frame_len u = int (length d)" if "4 \<le> length u"
      by (rule frame_len_prefix [OF d(3) _ that, where v = v]) (use Cons.prems(3) in simp)
    with True d have "split_frames u = ([], u)" "\<not> bad_header u"
      by (auto simp: split_frames.simps [of u] bad_header_def)
    with True Cons.prems(3) d(2) show ?thesis
      by (intro exI [of _ "[]"] exI [of _ "d # ds"] exI [of _ u]) auto
  next
    case False
    define w where "w = drop (4 + length d) u"
    have "take (4 + length d) u = frame_bytes d"
      using arg_cong [OF Cons.prems(3), of "take (4 + length d)"] False by simp
    then have "u = frame_bytes d @ w" unfolding w_def by (metis append_take_drop_id)
    moreover from this Cons.prems(3) have "w @ v = concat (map frame_bytes ds)" by simp
    ultimately have "u = frame_bytes d @ w" "w @ v = concat (map frame_bytes ds)" by auto
    with Cons.IH [of w] Cons.prems(1,2) obtain ds1 ds2 r where "ds = ds1 @ ds2"
        "split_frames w = (ds1, r)" "\<not> bad_header r" "split_frames r = ([], r)" "r @ v = concat (map frame_bytes ds2)" "length r \<le> 4 + M"
      by auto
    with \<open>u = frame_bytes d @ w\<close> split_frames_frame [OF d(1,3), of w] show ?thesis
      by (intro exI [of _ "d # ds1"] exI [of _ ds2] exI [of _ r]) simp
  qed
qed

lemma deliver_append:
  "deliver hp (xs @ ys) p = do { (r, p') \<leftarrow> deliver hp xs p; if r \<noteq> 0 then Some (r, p') else deliver hp ys p' }"
  by (induction xs arbitrary: p) (auto simp: Option.bind_assoc intro!: Option.bind_cong)

text \<open>
  However the network cuts a stream of frames into reads, the peer delivers the frames' contents
  in order and ends with an empty buffer; no frame is split, joined or lost.
\<close>

theorem recv_all_frames:
  assumes "\<forall>d \<in> set ds. 0 < length d \<and> length d \<le> M" and "\<forall>c \<in> set cs. length c \<le> K" and "4 + M + K \<le> 2 ^ 31"
    and "xs @ concat cs = concat (map frame_bytes ds)" and "lrep 1 b xs" and "length xs \<le> 4 + M"
    and "deliver hp ds p = Some (0, p')" and "split_frames xs = ([], xs)"
  shows "\<exists>b'. recv_all hp cs b p = Some (0, b', p') \<and> lrep 1 b' []"
  using assms unfolding recv_all_def
proof (induction cs arbitrary: xs ds b p)
  case Nil
  have "ds = []"
  proof (cases ds)
    case (Cons d ds')
    with Nil.prems split_frames_frame [of d "concat (map frame_bytes ds')"] show ?thesis by simp
  qed simp
  with Nil.prems show ?case by auto
next
  case (Cons c cs)
  have M: "M < 2 ^ 31" using Cons.prems(3) by simp
  from prefix_frames [OF Cons.prems(1) M, of "xs @ c" "concat cs"] Cons.prems(4)
  obtain ds1 ds2 r where r: "ds = ds1 @ ds2" "split_frames (xs @ c) = (ds1, r)" "\<not> bad_header r"
      "split_frames r = ([], r)" "r @ concat cs = concat (map frame_bytes ds2)" "length r \<le> 4 + M" by auto
  obtain p1 where p1: "deliver hp ds1 p = Some (0, p1)" "deliver hp ds2 p1 = Some (0, p')"
    using Cons.prems(7) r(1) by (auto simp: deliver_append bind_Some_iff split: if_splits)
  have "length (xs @ c) \<le> 2 ^ 31" using Cons.prems(2,3,6) by simp
  from Unpack_spec [OF Cons.prems(5) this, of hp p 0 p1] p1 r obtain b1 where
    b1: "Unpack hp c b p = Some (0, b1, p1)" "lrep 1 b1 r" by auto
  have "\<exists>b'. deliver (\<lambda>c (b, p). Unpack hp c b p) cs (b1, p1) = Some (0, b', p') \<and> lrep 1 b' []"
    by (intro Cons.IH [of ds2 r]) (use Cons.prems r b1 p1 in auto)
  with b1 show ?case by simp
qed

lemma frame_example: "frame_bytes [5, 6] = [2, 0, 0, 0, 5, 6]"
  by code_simp

lemma split_frames_nil [simp]: "split_frames [] = ([], [])"
  by (simp add: split_frames.simps)

lemma split_frames_short: "length xs < 4 \<Longrightarrow> split_frames xs = ([], xs)"
  by (simp add: split_frames.simps)

theorem Unpack_refines_witness:
  "\<exists>b'. Unpack (\<lambda>d p. Some (0, p @ [d])) [0, 0, 5, 6, 1] \<lparr>lbuf = Some [Some 2, Some 0], lcap = 2, llen = 2\<rparr> []
      = Some (0, b', [[5, 6]]) \<and> lrep 1 b' [1]"
proof -
  have s: "split_frames ([2, 0] @ [0, 0, 5, 6, 1]) = ([[5, 6]], [1])"
    using split_frames_frame [of "[5, 6]" "[1]"] by (simp add: frame_example split_frames_short)
  have "lrep 1 (\<lparr>lbuf = Some [Some 2, Some 0], lcap = 2, llen = 2\<rparr> :: u8 xx_list) [2, 0]"
    by (simp add: lrep_def linv_def contents_def PTRDIFF_MAX_def)
  from Unpack_refines [OF this, of "[0, 0, 5, 6, 1]" "\<lambda>d p. Some (0, p @ [d])" "[]" 0 "[[5, 6]]"] s
  show ?thesis by (simp add: bad_header_def)
qed

theorem recv_all_frames_witness:
  "\<exists>b'. recv_all (\<lambda>d p. Some (0, p @ [d])) [[2, 0, 0], [0, 5], [], [6, 1, 0, 0, 0, 9]] List_new [] = Some (0, b', [[5, 6], [9]]) \<and> lrep 1 b' []"
proof -
  have c: "concat [[2, 0, 0], [0, 5], [], [6, 1, 0, 0, 0, 9]] = concat (map frame_bytes [[5, 6], [9]])"
    by code_simp
  show ?thesis
    by (rule recv_all_frames [where ds = "[[5, 6], [9]]" and xs = "[]" and M = 2 and K = 6])
      (use c in simp_all)
qed

section \<open>Where the loop surprises\<close>

text \<open>
  An early return keeps the handled frames in the buffer. The read callback of the TCP peer closes
  the connection only for a negative result, so after a positive one, here the result \<open>r\<close> of the pack
  \<open>d2\<close>, the next read hands the earlier pack \<open>d1\<close> to the handler a second time.
\<close>

theorem Unpack_redelivers:
  assumes d: "0 < length d1" "0 < length d2" "length d1 + length d2 + length c + 8 \<le> 2 ^ 31" and r: "ret d1 = 0" "ret d2 \<noteq> (0 :: int)"
  shows "\<exists>b b'. Unpack (\<lambda>d p. Some (ret d, p @ [d])) (frame_bytes d1 @ frame_bytes d2) List_new [] = Some (ret d2, b, [d1, d2]) \<and>
     Unpack (\<lambda>d p. Some (ret d, p @ [d])) c b [d1, d2] = Some (ret d2, b', [d1, d2, d1, d2])"
proof -
  let ?hp = "\<lambda>d p. Some (ret d, p @ [d])" and ?x = "frame_bytes d1 @ frame_bytes d2"
  have s: "fst (split_frames (?x @ c)) = d1 # d2 # fst (split_frames c)" for c
    using d split_frames_frame [of d1 "frame_bytes d2 @ c"] split_frames_frame [of d2 c] by simp
  have s0: "fst (split_frames ?x) = [d1, d2]" using s [of "[]"] by simp
  have e0: "deliver ?hp (fst (split_frames ([] @ ?x))) [] = Some (ret d2, [d1, d2])" using s0 r by simp
  from Unpack_spec [OF lrep_new _ e0] d r obtain b where
    1: "Unpack ?hp ?x List_new [] = Some (ret d2, b, [d1, d2])" "lrep 1 b ?x" by auto
  have e1: "deliver ?hp (fst (split_frames (?x @ c))) [d1, d2] = Some (ret d2, [d1, d2, d1, d2])"
    using s [of c] r by simp
  from Unpack_spec [OF 1(2) _ e1] d r obtain b' where "Unpack ?hp c b [d1, d2] = Some (ret d2, b', [d1, d2, d1, d2])" by auto
  with 1 show ?thesis by blast
qed

text \<open>
  The UDP peer keeps one buffer for all senders: a datagram that ends within a frame is completed by
  the next datagram, whoever sent it, and the pack is delivered under the address of the latter.
\<close>

theorem Udp_Unpack_mixes_senders:
  assumes d: "0 < length (d @ e)" "4 + length (d @ e) < 2 ^ 31" and u: "u @ v = frame_bytes (d @ e)" "v \<noteq> []"
  shows "\<exists>b b'. Udp_Unpack (\<lambda>d a p. Some (0, p @ [(a, d)])) u a1 List_new [] = Some (0, b, []) \<and>
     Udp_Unpack (\<lambda>d a p. Some (0, p @ [(a, d)])) v a2 b [] = Some (0, b', [(a2, d @ e)])"
proof -
  let ?hp = "\<lambda>a d p. Some (0, p @ [(a, d)])"
  have lu: "length u + length v = 4 + length (d @ e)" using arg_cong [OF u(1), of length] by simp
  then have sh: "length u < 4 + length (d @ e)" using u(2) by (cases v) auto
  have "frame_len u = int (length (d @ e))" if "4 \<le> length u"
    by (rule frame_len_prefix [OF _ _ that, where v = v and ys = "[]"]) (use d u(1) in simp_all)
  with sh d have s: "split_frames u = ([], u)" "\<not> bad_header u"
    by (auto simp: split_frames.simps [of u] bad_header_def)
  have e0: "deliver (?hp a1) (fst (split_frames ([] @ u))) [] = Some (0, [])" using s by simp
  from Unpack_spec [OF lrep_new _ e0] s sh d obtain b where
    1: "Unpack (?hp a1) u List_new [] = Some (0, b, [])" "lrep 1 b u" by auto
  have t: "split_frames (u @ v) = ([d @ e], [])"
    using split_frames_frame [of "d @ e" "[]"] d u(1) by simp
  have e1: "deliver (?hp a2) (fst (split_frames (u @ v))) [] = Some (0, [(a2, d @ e)])" using t by simp
  from Unpack_spec [OF 1(2) _ e1] t u(1) d obtain b' where "Unpack (?hp a2) v b [] = Some (0, b', [(a2, d @ e)])"
    by (auto simp: bad_header_def)
  with 1 show ?thesis by (auto simp: Udp_Unpack_eq)
qed

section \<open>What every handler keeps is kept\<close>

lemma unpack_loop_inv:
  assumes "unpack_loop hp b offs p = Some (r, p')" and step: "\<And>d p r p'. hp d p = Some (r, p') \<Longrightarrow> I p \<Longrightarrow> I p'"
    and "I p"
  shows "I p'"
proof -
  have "hp = hp \<longrightarrow> I p \<longrightarrow> I (snd (r, p'))"
  proof (rule unpack_loop.raw_induct [where P = "\<lambda>h b offs p y. h = hp \<longrightarrow> I p \<longrightarrow> I (snd y)", OF _ assms(1)])
    fix loop :: "_ \<Rightarrow> u8 xx_list \<Rightarrow> u32 \<Rightarrow> 'a \<Rightarrow> ((int + u32) \<times> 'a) option" and h b offs p y
    assume IH: "\<And>h b offs p y. loop h b offs p = Some y \<Longrightarrow> h = hp \<longrightarrow> I p \<longrightarrow> I (snd y)"
    show "(if unat (offs + 4) \<le> llen b then do {
        b0 \<leftarrow> At b (unat (offs + 0));
        b1 \<leftarrow> At b (unat (offs + 1));
        b2 \<leftarrow> At b (unat (offs + 2));
        b3 \<leftarrow> At b (unat (offs + 3));
        (let len = hdr_len b0 b1 b2 b3 in
         if len \<le> 0 then Some (Inl (- 1), p)
         else if llen b < unat (offs + 4 + word_of_int len) then Some (Inr offs, p)
         else do {
           pack \<leftarrow> get_range (lbuf b) (unat (offs + 4)) (nat len);
           rp \<leftarrow> h pack p;
           (if fst rp \<noteq> 0 then Some (Inl (fst rp), snd rp)
            else loop h b (offs + 4 + word_of_int len) (snd rp)) }) }
      else Some (Inr offs, p)) = Some y \<Longrightarrow> h = hp \<longrightarrow> I p \<longrightarrow> I (snd y)"
      by (auto simp: bind_Some_iff Let_def dest: step IH split: if_splits)
  qed
  with \<open>I p\<close> show ?thesis by simp
qed

lemma Unpack_inv:
  assumes "Unpack hp d b p = Some (r, b', p')" and step: "\<And>d p r p'. hp d p = Some (r, p') \<Longrightarrow> I p \<Longrightarrow> I p'" and "I p"
  shows "I p'"
proof -
  obtain b1 x q where 1: "AddRange True 1 d b = Some b1" "unpack_loop hp b1 0 p = Some (x, q)"
    using assms(1) by (auto simp: Unpack_def bind_Some_iff)
  with assms(1) have "q = p'" by (cases x) (auto simp: Unpack_def bind_Some_iff)
  with 1 have "unpack_loop hp b1 0 p = Some (x, p')" by simp
  then show ?thesis by (rule unpack_loop_inv) (use step \<open>I p\<close> in auto)
qed

end
