(* ===== verification/Peers.thy ===== *)
theory Peers
  imports Frames "HOL-Library.Multiset"
begin

text \<open>
  The request and response peer over TCP (test\_uv\_3/xx\_uv.h, \<^verbatim>\<open>UvTcpBasePeer\<close> and \<^verbatim>\<open>UvTcpPeer\<close>):
  packages with a serial number, callbacks that wait for answers, timeouts and the disposal of a peer.
  User code is a parameter. First the operations; then, for user code that keeps a log, the bookkeeping
  of requests over complete runs (locale \<open>request_peer\<close>), and what packages sent by one peer look like
  to the other (locale \<open>msg_codec\<close>).
\<close>

section \<open>State\<close>

text \<open>
  User code. A callback given to \<^verbatim>\<open>SendRequest\<close> is called with the answer, or with a null pointer
  when the request times out or the connection goes; \<open>call\<close> runs the callback named \<open>c\<close>. User code may
  change the peer, as it may in C++; \<open>None\<close> is undefined behaviour.
\<close>

record ('m, 'c, 'p) hooks =
  call :: "'c \<Rightarrow> 'm option \<Rightarrow> 'p \<Rightarrow> (int \<times> 'p) option"
  OnReceivePush :: "'m \<Rightarrow> 'p \<Rightarrow> (int \<times> 'p) option"
  OnReceiveRequest :: "int \<Rightarrow> 'm \<Rightarrow> 'p \<Rightarrow> (int \<times> 'p) option"
  OnDisconnect :: "'p \<Rightarrow> 'p option"

text \<open>
  The fields the TCP and the KCP peer have in common. \<open>callbacks\<close> is the \<^verbatim>\<open>unordered_map\<close> from serials to
  the callback and its timer (the timeout is kept in its place); \<open>hasPush\<close>, \<open>hasRequest\<close> and \<open>hasDisconnect\<close> say whether the
  corresponding \<^verbatim>\<open>std::function\<close> holds a target, \<open>inbuf\<close> is the peer's \<^verbatim>\<open>buf\<close>. \<open>recvBB\<close> and \<open>sendBB\<close> belong to the
  \<^verbatim>\<open>Uv\<close> object and are shared by its peers; one operation uses them from beginning to end, so a peer
  carries the copy that it works on. \<open>world\<close> is whatever state the user code has.
\<close>

record ('c, 'u) peer =
  callbacks :: "(int \<times> 'c \<times> nat) list"
  serial :: int
  hasPush :: bool
  hasRequest :: bool
  hasDisconnect :: bool
  inbuf :: "u8 xx_list"
  recvBB :: bbuffer
  sendBB :: bbuffer
  world :: 'u

text \<open>
  \<open>uvTcp\<close> tells whether the handle is still there, \<open>outq\<close> what was handed to \<^verbatim>\<open>uv_write\<close>, in order.
\<close>

record ('c, 'u) tcp_peer = "('c, 'u) peer" +
  uvTcp :: bool
  outq :: "bytes list"

section \<open>Receiving\<close>

definition Disconnect :: "('m, 'c, ('c, 'u, 'z) peer_scheme) hooks \<Rightarrow> ('c, 'u, 'z) peer_scheme
    \<Rightarrow> ('c, 'u, 'z) peer_scheme option" where
  "Disconnect H p = (if hasDisconnect p then OnDisconnect H p else Some p)"

definition ReceivePush :: "('m, 'c, ('c, 'u, 'z) peer_scheme) hooks \<Rightarrow> 'm \<Rightarrow> ('c, 'u, 'z) peer_scheme
    \<Rightarrow> (int \<times> ('c, 'u, 'z) peer_scheme) option" where
  "ReceivePush H msg p = (if hasPush p then OnReceivePush H msg p else Some (0, p))"

definition ReceiveRequest :: "('m, 'c, ('c, 'u, 'z) peer_scheme) hooks \<Rightarrow> int \<Rightarrow> 'm \<Rightarrow> ('c, 'u, 'z) peer_scheme
    \<Rightarrow> (int \<times> ('c, 'u, 'z) peer_scheme) option" where
  "ReceiveRequest H s msg p = (if hasRequest p then OnReceiveRequest H s msg p else Some (0, p))"

text \<open>
  \<^verbatim>\<open>callbacks.erase(iter)\<close>: the iterator must still point to an element, so erasing after the element
  has gone is undefined.
\<close>

definition erase_cb :: "int \<Rightarrow> ('c, 'u, 'z) peer_scheme \<Rightarrow> ('c, 'u, 'z) peer_scheme option" where
  "erase_cb s p = (if map_of (callbacks p) s = None then None
     else Some (p\<lparr>callbacks := filter (\<lambda>e. fst e \<noteq> s) (callbacks p)\<rparr>))"

text \<open>
  The end of \<^verbatim>\<open>HandlePack\<close>: serial 0 is a push, a negative one a request, a positive one the answer to
  a request of ours. \<^verbatim>\<open>-serial\<close> overflows for the least \<^verbatim>\<open>int\<close>.
\<close>

definition dispatch ::
  "('m, 'c, ('c, 'u, 'z) peer_scheme) hooks \<Rightarrow> int \<Rightarrow> 'm
    \<Rightarrow> ('c, 'u, 'z) peer_scheme \<Rightarrow> (int \<times> ('c, 'u, 'z) peer_scheme) option" where
  "dispatch H s msg p =
     (if s = 0 then ReceivePush H msg p
      else if s < 0 then do { s' \<leftarrow> i32 (- s); ReceiveRequest H s' msg p }
      else (case map_of (callbacks p) s of
        None \<Rightarrow> Some (0, p)
      | Some (c, _) \<Rightarrow> do {
          (r, p1) \<leftarrow> call H c (Some msg) p;
          p2 \<leftarrow> erase_cb s p1;
          Some (r, p2) }))"

definition HandlePack ::
  "('m, 'c, ('c, 'u, 'z) peer_scheme) hooks \<Rightarrow> (bbuffer \<Rightarrow> ('m rres \<times> bbuffer) option) \<Rightarrow> bytes
    \<Rightarrow> ('c, 'u, 'z) peer_scheme \<Rightarrow> (int \<times> ('c, 'u, 'z) peer_scheme) option" where
  "HandlePack H rdRoot recvBuf p = do {
     (r, bb) \<leftarrow> ReadVarS (BBuffer_Reset (Some (map Some recvBuf)) (length recvBuf) 0 0 (recvBB p));
     (case r of Inl e \<Rightarrow> Some (e, p\<lparr>recvBB := bb\<rparr>)
      | Inr (s :: u32) \<Rightarrow> do {
          (r, bb') \<leftarrow> rdRoot bb;
          (case r of Inl e \<Rightarrow> Some (e, p\<lparr>recvBB := bb'\<rparr>)
           | Inr msg \<Rightarrow> dispatch H (sint s) msg (p\<lparr>recvBB := bb'\<rparr>)) }) }"

definition TimeoutCallback ::
  "('m, 'c, ('c, 'u, 'z) peer_scheme) hooks \<Rightarrow> int \<Rightarrow> ('c, 'u, 'z) peer_scheme
    \<Rightarrow> ('c, 'u, 'z) peer_scheme option" where
  "TimeoutCallback H s p = (case map_of (callbacks p) s of
       None \<Rightarrow> Some p
     | Some (c, _) \<Rightarrow> do { (_, p1) \<leftarrow> call H c None p; erase_cb s p1 })"

text \<open>
  The loop of \<^verbatim>\<open>Dispose\<close> over the callbacks; a callback that removes an entry the loop still has to
  visit (or stands on) invalidates its iterator.
\<close>

fun call_all :: "('m, 'c, ('c, 'u, 'z) peer_scheme) hooks \<Rightarrow> (int \<times> 'c \<times> nat) list
    \<Rightarrow> ('c, 'u, 'z) peer_scheme \<Rightarrow> ('c, 'u, 'z) peer_scheme option" where
  "call_all H [] p = Some p"
| "call_all H (e # es) p = do {
     (_, p1) \<leftarrow> call H (fst (snd e)) None p;
     (if fst ` set (e # es) \<subseteq> fst ` set (callbacks p1) then call_all H es p1 else None) }"

section \<open>The TCP peer\<close>

definition drop_hooks :: "('c, 'u, 'z) peer_scheme \<Rightarrow> ('c, 'u, 'z) peer_scheme" where
  "drop_hooks p = p\<lparr>hasPush := False, hasRequest := False, hasDisconnect := False\<rparr>"

definition Tcp_Dispose ::
  "('m, 'c, ('c, 'u) tcp_peer) hooks \<Rightarrow> int \<Rightarrow> ('c, 'u) tcp_peer \<Rightarrow> ('c, 'u) tcp_peer option" where
  "Tcp_Dispose H flag p = (if \<not> uvTcp p then Some p
     else do {
       p1 \<leftarrow> call_all H (callbacks p) p;
       let p2 = p1\<lparr>callbacks := [], uvTcp := False\<rparr>;
       (if flag \<noteq> 0 then map_option drop_hooks (Disconnect H p2) else Some p2) })"

text \<open>
  \<^verbatim>\<open>uv_write\<close> is libuv's: it queues the data and returns 0, or returns an error, in which case the peer
  disposes of itself without telling the user.
\<close>

definition SendReq ::
  "('m, 'c, ('c, 'u) tcp_peer) hooks \<Rightarrow> (bytes \<Rightarrow> int) \<Rightarrow> bytes \<Rightarrow> ('c, 'u) tcp_peer
    \<Rightarrow> (int \<times> ('c, 'u) tcp_peer) option" where
  "SendReq H uv_write data p = (if \<not> uvTcp p then Some (- 1, p)
     else let r = uv_write data in
       if r \<noteq> 0 then do { p' \<leftarrow> Tcp_Dispose H 0 p; Some (r, p') }
       else Some (0, p\<lparr>outq := outq p @ [data]\<rparr>))"

definition Tcp_Send ::
  "('m, 'c, ('c, 'u) tcp_peer) hooks \<Rightarrow> (bytes \<Rightarrow> int) \<Rightarrow> bytes \<Rightarrow> ('c, 'u) tcp_peer
    \<Rightarrow> (int \<times> ('c, 'u) tcp_peer) option" where
  "Tcp_Send H uv_write data p = (if \<not> uvTcp p then Some (- 1, p) else SendReq H uv_write data p)"

text \<open>
  \<open>sz\<close> is \<^verbatim>\<open>sizeof(uv_write_t_ex)\<close>, a size the platform's libuv fixes.
\<close>

definition SendReqAndData ::
  "('m, 'c, ('c, 'u) tcp_peer) hooks \<Rightarrow> (bytes \<Rightarrow> int) \<Rightarrow> nat \<Rightarrow> u8 blk option \<Rightarrow> u32 \<Rightarrow> ('c, 'u) tcp_peer
    \<Rightarrow> (int \<times> ('c, 'u) tcp_peer) option" where
  "SendReqAndData H uv_write sz reqbuf len p = do {
     b0 \<leftarrow> wr_blk reqbuf (sz + 0) (ucast len);
     b1 \<leftarrow> wr_blk b0 (sz + 1) (ucast (drop_bit 8 len));
     b2 \<leftarrow> wr_blk b1 (sz + 2) (ucast (drop_bit 16 len));
     b3 \<leftarrow> wr_blk b2 (sz + 3) (ucast (drop_bit 24 len));
     data \<leftarrow> get_range b3 sz (unat (len + 4));
     SendReq H uv_write data p }"

text \<open>
  \<^verbatim>\<open>sendBB.len = n\<close> after a \<^verbatim>\<open>Reserve\<close>: the skipped bytes keep what the block has there, \<open>junk\<close> where
  nothing was ever written.
\<close>

definition skip_to :: "(nat \<Rightarrow> u8) \<Rightarrow> nat \<Rightarrow> (u8, 'z) xx_list_scheme \<Rightarrow> (u8, 'z) xx_list_scheme option" where
  "skip_to junk n l = (case lbuf l of None \<Rightarrow> None | Some m \<Rightarrow>
     if n \<le> length m then Some (l\<lparr>llen := n,
        lbuf := Some (map (\<lambda>i. Some (case m ! i of None \<Rightarrow> junk i | Some x \<Rightarrow> x)) [0..<n] @ drop n m)\<rparr>)
     else None)"

definition put_package ::
  "('m \<Rightarrow> bbuffer \<Rightarrow> bbuffer option) \<Rightarrow> int \<Rightarrow> int \<Rightarrow> 'm \<Rightarrow> bbuffer \<Rightarrow> bbuffer option" where
  "put_package wrRoot tar s data bb = do {
     bb1 \<leftarrow> (if tar \<noteq> 0 then WriteFixed (word_of_int tar :: u32) bb else Some bb);
     bb2 \<leftarrow> WriteVarS (word_of_int s :: u32) bb1;
     wrRoot data bb2 }"

definition Tcp_SendPackage ::
  "('m, 'c, ('c, 'u) tcp_peer) hooks \<Rightarrow> (bytes \<Rightarrow> int) \<Rightarrow> nat \<Rightarrow> (nat \<Rightarrow> u8)
    \<Rightarrow> ('m \<Rightarrow> bbuffer \<Rightarrow> bbuffer option) \<Rightarrow> 'm \<Rightarrow> int \<Rightarrow> int \<Rightarrow> ('c, 'u) tcp_peer
    \<Rightarrow> (int \<times> ('c, 'u) tcp_peer) option" where
  "Tcp_SendPackage H uv_write sz junk wrRoot data s tar p = (if \<not> uvTcp p then Some (- 1, p)
     else do {
       bb1 \<leftarrow> Reserve True 1 1024 (sendBB p);
       bb2 \<leftarrow> skip_to junk (sz + 4) bb1;
       bb3 \<leftarrow> put_package wrRoot tar s data bb2;
       SendReqAndData H uv_write sz (lbuf bb3) (word_of_nat (llen bb3 - sz - 4))
         (p\<lparr>sendBB := bb3\<lparr>lbuf := None, llen := 0, lcap := 0\<rparr>\<rparr>) })"

text \<open>
  \<^verbatim>\<open>SendRequest\<close> is the same text in the TCP and in the KCP peer, up to the test for a live peer and
  the \<^verbatim>\<open>SendPackage\<close> it calls. \<open>timer\<close> is \<open>None\<close> when no timer can be made, otherwise the result of starting
  it.
\<close>

definition SendRequest ::
  "(('c, 'u, 'z) peer_scheme \<Rightarrow> bool) \<Rightarrow> ('m \<Rightarrow> int \<Rightarrow> int \<Rightarrow> ('c, 'u, 'z) peer_scheme
      \<Rightarrow> (int \<times> ('c, 'u, 'z) peer_scheme) option) \<Rightarrow> int option
    \<Rightarrow> 'm \<Rightarrow> int \<Rightarrow> 'c \<Rightarrow> nat \<Rightarrow> ('c, 'u, 'z) peer_scheme \<Rightarrow> (int \<times> ('c, 'u, 'z) peer_scheme) option" where
  "SendRequest alive SendPackage timer data tar cb timeoutMS p = (if \<not> alive p then Some (- 1, p)
     else do {
       s \<leftarrow> i32 (serial p + 1);
       let p1 = p\<lparr>serial := s\<rparr>;
       (if timeoutMS \<noteq> 0 \<and> timer = None then Some (- 1, p1)
        else if timeoutMS \<noteq> 0 \<and> timer \<noteq> Some 0 then Some (the timer, p1)
        else do {
          n \<leftarrow> i32 (- s);
          (r, p2) \<leftarrow> SendPackage data n tar p1;
          (if r \<noteq> 0 then Some (r, p2)
           else Some (0, p2\<lparr>callbacks := (serial p2, cb, timeoutMS)
                    # filter (\<lambda>e. fst e \<noteq> serial p2) (callbacks p2)\<rparr>)) }) })"

text \<open>The read callback installed by \<^verbatim>\<open>ReadStart\<close>.\<close>

definition Tcp_Unpack ::
  "('m, 'c, ('c, 'u) tcp_peer) hooks \<Rightarrow> (bbuffer \<Rightarrow> ('m rres \<times> bbuffer) option) \<Rightarrow> bytes
    \<Rightarrow> ('c, 'u) tcp_peer \<Rightarrow> (int \<times> ('c, 'u) tcp_peer) option" where
  "Tcp_Unpack H rdRoot recvBuf p = do {
     (r, b, p') \<leftarrow> Unpack (HandlePack H rdRoot) recvBuf (inbuf p) p;
     Some (r, p'\<lparr>inbuf := b\<rparr>) }"

definition Tcp_Read ::
  "('m, 'c, ('c, 'u) tcp_peer) hooks \<Rightarrow> (bbuffer \<Rightarrow> ('m rres \<times> bbuffer) option) \<Rightarrow> int \<Rightarrow> bytes
    \<Rightarrow> ('c, 'u) tcp_peer \<Rightarrow> ('c, 'u) tcp_peer option" where
  "Tcp_Read H rdRoot nread buf p = do {
     (nread', p1) \<leftarrow> (if nread > 0 then Tcp_Unpack H rdRoot (take (nat nread) buf) p else Some (nread, p));
     (if nread' < 0 then Tcp_Dispose H 1 p1 else Some p1) }"

section \<open>User code that only keeps a log\<close>

text \<open>
  For the statements about complete runs the user code is made observable: every call it gets is
  appended to a log, and its result is any function of the call.
\<close>

datatype ('m, 'c) seen = Called 'c "'m option" | Pushed 'm | Requested int 'm | Disconnected

definition jot :: "('m, 'c) seen \<Rightarrow> ('c, ('m, 'c) seen list, 'z) peer_scheme \<Rightarrow> ('c, ('m, 'c) seen list, 'z) peer_scheme" where
  "jot x p = p\<lparr>world := world p @ [x]\<rparr>"

definition log_hooks :: "(('m, 'c) seen \<Rightarrow> int) \<Rightarrow> ('m, 'c, ('c, ('m, 'c) seen list, 'z) peer_scheme) hooks" where
  "log_hooks ret = \<lparr>
     call = (\<lambda>c m p. Some (ret (Called c m), jot (Called c m) p)),
     OnReceivePush = (\<lambda>m p. Some (ret (Pushed m), jot (Pushed m) p)),
     OnReceiveRequest = (\<lambda>s m p. Some (ret (Requested s m), jot (Requested s m) p)),
     OnDisconnect = (\<lambda>p. Some (jot Disconnected p))\<rparr>"

lemma log_hooks_sel [simp]:
  "call (log_hooks ret) c om p = Some (ret (Called c om), jot (Called c om) p)"
  "OnReceivePush (log_hooks ret) m p = Some (ret (Pushed m), jot (Pushed m) p)"
  "OnReceiveRequest (log_hooks ret) s m p = Some (ret (Requested s m), jot (Requested s m) p)"
  "OnDisconnect (log_hooks ret) p = Some (jot Disconnected p)"
  by (simp_all add: log_hooks_def)

fun called :: "('m, 'c) seen list \<Rightarrow> 'c list" where
  "called [] = []"
| "called (Called c m # w) = c # called w"
| "called (_ # w) = called w"

definition pending :: "('c, 'u, 'z) peer_scheme \<Rightarrow> 'c list" where
  "pending p = map (fst \<circ> snd) (callbacks p)"

lemma called_append [simp]: "called (v @ w) = called v @ called w"
  by (induction v rule: called.induct) auto

lemma jot_fields [simp]:
  "callbacks (jot x p) = callbacks p" "serial (jot x p) = serial p" "world (jot x p) = world p @ [x]"
  "recvBB (jot x p) = recvBB p" "inbuf (jot x p) = inbuf p" "sendBB (jot x p) = sendBB p"
  by (simp_all add: jot_def)

lemma call_all_log:
  "fst ` set es \<subseteq> fst ` set (callbacks p) \<Longrightarrow>
   call_all (log_hooks ret) es p = Some (p\<lparr>world := world p @ map (\<lambda>e. Called (fst (snd e)) None) es\<rparr>)"
proof (induction es arbitrary: p)
  case Nil
  then show ?case by (simp add: peer.equality)
next
  case (Cons e es)
  then show ?case by (simp add: jot_def)
qed

lemma HandlePack_cases:
  assumes "HandlePack H rdRoot d p = Some (r, p')"
  obtains (failed) bb where "p' = p\<lparr>recvBB := bb\<rparr>"
  | (dispatched) bb s msg where "dispatch H s msg (p\<lparr>recvBB := bb\<rparr>) = Some (r, p')"
proof -
  let ?in = "BBuffer_Reset (Some (map Some d)) (length d) 0 0 (recvBB p)"
  obtain r1 bb where 1: "(ReadVarS ?in :: (u32 rres \<times> bbuffer) option) = Some (r1, bb)"
    using assms by (auto simp: HandlePack_def bind_Some_iff)
  show thesis
  proof (cases r1)
    case (Inl e)
    with 1 assms failed [of bb] show thesis by (auto simp: HandlePack_def)
  next
    case (Inr s)
    with 1 assms obtain r2 bb2 where 2: "rdRoot bb = Some (r2, bb2)"
      by (auto simp: HandlePack_def bind_Some_iff)
    with 1 Inr assms failed [of bb2] dispatched [of "sint s" _ bb2] show thesis
      by (cases r2) (auto simp: HandlePack_def)
  qed
qed

lemma SendRequest_cases:
  assumes "SendRequest alive send timer m tar c t p = Some (r, p')"
  obtains (refused) "r \<noteq> 0" "p' = p \<or> p' = p\<lparr>serial := serial p + 1\<rparr>"
  | (tried) r2 p2 where "alive p" "send m (- (serial p + 1)) tar (p\<lparr>serial := serial p + 1\<rparr>) = Some (r2, p2)"
      "(r, p') = (if r2 \<noteq> 0 then (r2, p2) else (0, p2\<lparr>callbacks := (serial p2, c, t)
         # filter (\<lambda>e. fst e \<noteq> serial p2) (callbacks p2)\<rparr>))"
proof (cases "alive p \<and> i32 (serial p + 1) = Some (serial p + 1) \<and> (t = 0 \<or> timer = Some 0)")
  case False
  then show thesis using assms
    by (intro refused) (auto simp: SendRequest_def Let_def i32_def split: if_splits)
next
  case True
  then obtain r2 p2 where s: "send m (- (serial p + 1)) tar (p\<lparr>serial := serial p + 1\<rparr>) = Some (r2, p2)"
    using assms by (auto simp: SendRequest_def Let_def i32_def bind_Some_iff split: if_splits)
  with True assms tried [OF _ s] show thesis
    by (auto simp: SendRequest_def Let_def i32_def split: if_splits)
qed

lemma called_map [simp]: "called (map (\<lambda>e. Called (f e) (g e)) es) = map f es"
  by (induction es) auto

section \<open>The bookkeeping of requests\<close>

text \<open>
  What the bookkeeping of requests needs of a peer: being alive does not depend on the fields that
  the receiving side writes, disposing of a live peer calls all callbacks and clears them, and sending either
  leaves the bookkeeping alone or fails by disposing of the peer. The lemmas are proved once from
  these laws and hold for the TCP and for the KCP peer.
\<close>

locale request_peer =
  fixes alive :: "('c, ('m, 'c) seen list, 'z) peer_scheme \<Rightarrow> bool"
    and send :: "'m \<Rightarrow> int \<Rightarrow> int \<Rightarrow> ('c, ('m, 'c) seen list, 'z) peer_scheme
          \<Rightarrow> (int \<times> ('c, ('m, 'c) seen list, 'z) peer_scheme) option"
    and dispose :: "int \<Rightarrow> ('c, ('m, 'c) seen list, 'z) peer_scheme \<Rightarrow> ('c, ('m, 'c) seen list, 'z) peer_scheme option"
    and ret :: "('m, 'c) seen \<Rightarrow> int"
  assumes alive_callbacks [simp]: "alive (p\<lparr>callbacks := x\<rparr>) = alive p"
    and alive_serial [simp]: "alive (p\<lparr>serial := n\<rparr>) = alive p"
    and alive_recvBB [simp]: "alive (p\<lparr>recvBB := bb\<rparr>) = alive p"
    and alive_inbuf [simp]: "alive (p\<lparr>inbuf := b\<rparr>) = alive p"
    and alive_world [simp]: "alive (p\<lparr>world := w\<rparr>) = alive p"
    and dispose_ok: "dispose flag p = Some p' \<Longrightarrow>
       (if alive p then callbacks p' = [] \<and> \<not> alive p' \<and> serial p' = serial p \<and>
           called (world p') = called (world p) @ pending p else p' = p)"
    and send_ok: "send m s tar p = Some (r, p') \<Longrightarrow> alive p \<Longrightarrow>
       callbacks p' = callbacks p \<and> serial p' = serial p \<and> world p' = world p \<and> alive p' \<or>
       r \<noteq> 0 \<and> callbacks p' = [] \<and> \<not> alive p' \<and> serial p' = serial p \<and>
         called (world p') = called (world p) @ pending p"
begin

text \<open>
  Every accepted request (\<open>acc\<close>) either still waits or has had its callback called, and a peer
  that is disposed of has no request waiting.
\<close>

definition acct :: "'c list \<Rightarrow> ('c, ('m, 'c) seen list, 'z) peer_scheme \<Rightarrow> bool" where
  "acct acc p \<longleftrightarrow> mset (called (world p)) + mset (pending p) = mset acc \<and>
     distinct (map fst (callbacks p)) \<and> 0 \<le> serial p \<and> (\<forall>e \<in> set (callbacks p). 0 < fst e \<and> fst e \<le> serial p) \<and>
     (\<not> alive p \<longrightarrow> callbacks p = [])"

lemma alive_jot [simp]: "alive (jot x p) = alive p"
  by (simp add: jot_def)

lemma acct_recvBB [simp]: "acct acc (p\<lparr>recvBB := bb\<rparr>) = acct acc p"
  by (simp add: acct_def pending_def)

lemma acct_inbuf [simp]: "acct acc (p\<lparr>inbuf := bb\<rparr>) = acct acc p"
  by (simp add: acct_def pending_def)

lemma dispose_acct: "dispose flag p = Some p' \<Longrightarrow> acct acc p \<Longrightarrow> acct acc p'"
  using dispose_ok [of flag p p'] by (auto simp: acct_def pending_def split: if_splits)

lemma erase_acct:
  assumes a: "acct acc p" and m: "map_of (callbacks p) s = Some (c, t)"
    and e: "erase_cb s (jot (Called c msg) p) = Some p'"
  shows "acct acc p'"
proof -
  have p': "p' = (jot (Called c msg) p)\<lparr>callbacks := filter (\<lambda>e. fst e \<noteq> s) (callbacks p)\<rparr>"
    using e m by (simp add: erase_cb_def)
  have d: "distinct (map fst (callbacks p))" using a by (simp add: acct_def)
  from m have "(s, c, t) \<in> set (callbacks p)" by (rule map_of_SomeD)
  then obtain xs ys where xy: "callbacks p = xs @ (s, c, t) # ys" by (blast dest: split_list)
  have "s \<notin> fst ` set xs" "s \<notin> fst ` set ys" using d xy by auto
  then have "filter (\<lambda>e. fst e \<noteq> s) xs = xs" "filter (\<lambda>e. fst e \<noteq> s) ys = ys"
    by (auto simp: filter_id_conv)
  then have f: "filter (\<lambda>e. fst e \<noteq> s) (callbacks p) = xs @ ys" by (simp add: xy)
  have "mset (called (world p)) + mset (pending p) = mset acc" and b: "\<forall>e \<in> set (callbacks p). 0 < fst e \<and> fst e \<le> serial p"
    and al: "alive p" "0 \<le> serial p" using a m by (auto simp: acct_def)
  then have "mset (called (world p')) + mset (pending p') = mset acc" by (simp add: p' f pending_def) (simp add: xy)
  moreover have "distinct (map fst (callbacks p'))" using d by (simp add: p' f) (simp add: xy)
  moreover have "\<forall>e \<in> set (callbacks p'). 0 < fst e \<and> fst e \<le> serial p'" using b by (simp add: p' f) (simp add: xy)
  ultimately show ?thesis using al by (simp add: acct_def p')
qed

lemma acct_quiet: "called [x] = [] \<Longrightarrow> acct acc (jot x p) = acct acc p"
  by (cases x) (simp_all add: acct_def pending_def)

lemma TimeoutCallback_acct:
  "TimeoutCallback (log_hooks ret) s p = Some p' \<Longrightarrow> acct acc p \<Longrightarrow> acct acc p'"
  by (auto simp: TimeoutCallback_def split: option.splits intro: erase_acct)

lemma dispatch_acct:
  assumes h: "dispatch (log_hooks ret) s msg p = Some (r, p')" and a: "acct acc p"
  shows "acct acc p'"
proof (cases "s \<le> 0")
  case True
  then show ?thesis using h a
    by (auto simp: dispatch_def ReceivePush_def ReceiveRequest_def acct_quiet bind_Some_iff
        split: if_splits)
next
  case False
  then show ?thesis using h a
    by (auto simp: dispatch_def bind_Some_iff split: option.splits intro: erase_acct)
qed

lemma HandlePack_acct:
  assumes h: "HandlePack (log_hooks ret) rdRoot d p = Some (r, p')" and a: "acct acc p"
  shows "acct acc p'"
  using h
proof (cases rule: HandlePack_cases)
  case (failed bb)
  then show ?thesis using a by simp
next
  case (dispatched bb s msg)
  then show ?thesis by (rule dispatch_acct) (simp add: a)
qed

lemma SendRequest_acct:
  assumes s: "SendRequest alive send timer m tar c t p = Some (r, p')" and a: "acct acc p"
  shows "acct (if r = 0 then acc @ [c] else acc) p'"
proof -
  have up: "0 \<le> serial p" using a by (simp add: acct_def)
  show ?thesis using s
  proof (cases rule: SendRequest_cases)
    case refused
    then show ?thesis using a by (fastforce simp: acct_def pending_def)
  next
    case (tried r2 p2)
    note snt = tried(2) and al = tried(1) and res = tried(3)
    have so: "callbacks p2 = callbacks p \<and> serial p2 = serial p + 1 \<and> world p2 = world p \<and> alive p2 \<or>
       r2 \<noteq> 0 \<and> callbacks p2 = [] \<and> \<not> alive p2 \<and> serial p2 = serial p + 1 \<and>
         called (world p2) = called (world p) @ pending p"
      using send_ok [OF snt] al by (simp add: pending_def)
    have b: "\<forall>e \<in> set (callbacks p). 0 < fst e \<and> fst e \<le> serial p" using a by (simp add: acct_def)
    then have b1: "\<forall>e \<in> set (callbacks p). 0 < fst e \<and> fst e \<le> serial p + 1" by force
    have k: "acct acc p2"
      using so by (elim disjE) (use a b1 in \<open>simp_all add: acct_def pending_def\<close>)
    show ?thesis
    proof (cases "r2 = 0")
      case False
      with res k show ?thesis by simp
    next
      case True
      with so have p2: "callbacks p2 = callbacks p" "serial p2 = serial p + 1" "world p2 = world p" "alive p2" by auto
      have "filter (\<lambda>e. fst e \<noteq> serial p + 1) (callbacks p) = callbacks p" using b by (auto simp: filter_id_conv)
      then have "r = 0" "p' = p2\<lparr>callbacks := (serial p + 1, c, t) # callbacks p\<rparr>" using res True p2 by auto
      moreover have "serial p + 1 \<notin> fst ` set (callbacks p)" using b by fastforce
      ultimately show ?thesis using a b1 p2 up by (simp add: acct_def pending_def)
    qed
  qed
qed

lemma Unpack_acct:
  "Unpack (HandlePack (log_hooks ret) rdRoot) d b p = Some (r, b', p') \<Longrightarrow> acct acc p \<Longrightarrow> acct acc p'"
  by (erule Unpack_inv [where I = "acct acc"]) (auto intro: HandlePack_acct)

end

lemma Tcp_Dispose_log:
  "uvTcp p \<Longrightarrow> \<exists>p'. Tcp_Dispose (log_hooks ret) flag p = Some p' \<and> callbacks p' = [] \<and> \<not> uvTcp p' \<and>
     serial p' = serial p \<and> called (world p') = called (world p) @ pending p"
  by (auto simp: Tcp_Dispose_def call_all_log Disconnect_def drop_hooks_def pending_def
      Let_def comp_def jot_def)

lemma SendReq_log:
  assumes "SendReq (log_hooks ret) uvw d p = Some (r, p')" "uvTcp p"
  shows "callbacks p' = callbacks p \<and> serial p' = serial p \<and> world p' = world p \<and> uvTcp p' \<or>
       r \<noteq> 0 \<and> callbacks p' = [] \<and> \<not> uvTcp p' \<and> serial p' = serial p \<and>
         called (world p') = called (world p) @ pending p"
  using assms Tcp_Dispose_log [OF assms(2), of ret 0]
  by (auto simp: SendReq_def Let_def bind_Some_iff split: if_splits)

lemma Tcp_SendPackage_log:
  assumes "Tcp_SendPackage (log_hooks ret) uvw sz junk wr m s tar p = Some (r, p')" "uvTcp p"
  shows "callbacks p' = callbacks p \<and> serial p' = serial p \<and> world p' = world p \<and> uvTcp p' \<or>
       r \<noteq> 0 \<and> callbacks p' = [] \<and> \<not> uvTcp p' \<and> serial p' = serial p \<and>
         called (world p') = called (world p) @ pending p"
proof -
  obtain bb d where "SendReq (log_hooks ret) uvw d (p\<lparr>sendBB := bb\<rparr>) = Some (r, p')"
    using assms by (auto simp: Tcp_SendPackage_def SendReqAndData_def bind_Some_iff)
  from SendReq_log [OF this] assms(2) show ?thesis by (simp add: pending_def)
qed

interpretation tcp: request_peer uvTcp "Tcp_SendPackage (log_hooks ret) uvw sz junk wr" "Tcp_Dispose (log_hooks ret)" ret
  for ret uvw sz junk wr
proof
  show "if uvTcp p then callbacks p' = [] \<and> \<not> uvTcp p' \<and> serial p' = serial p \<and>
        called (world p') = called (world p) @ pending p else p' = p"
    if "Tcp_Dispose (log_hooks ret) flag p = Some p'" for flag and p p' :: "('a, ('b, 'a) seen list) tcp_peer"
    using that Tcp_Dispose_log [of p ret flag] by (auto simp: Tcp_Dispose_def)
qed (rule Tcp_SendPackage_log | simp)+

section \<open>Runs of a TCP peer\<close>

text \<open>
  The events of a connection: what the user sends, with the results that libuv gives to the write
  and to the timer, and what the loop reports.
\<close>

datatype ('m, 'c) tcp_event =
    EvRequest "bytes \<Rightarrow> int" "int option" 'm int 'c nat
  | EvPush "bytes \<Rightarrow> int" 'm
  | EvRespond "bytes \<Rightarrow> int" int 'm
  | EvRead int bytes
  | EvTimeout int
  | EvDispose int

definition Tcp_SendPush ::
  "('m, 'c, ('c, 'u) tcp_peer) hooks \<Rightarrow> (bytes \<Rightarrow> int) \<Rightarrow> nat \<Rightarrow> (nat \<Rightarrow> u8)
    \<Rightarrow> ('m \<Rightarrow> bbuffer \<Rightarrow> bbuffer option) \<Rightarrow> 'm \<Rightarrow> ('c, 'u) tcp_peer \<Rightarrow> (int \<times> ('c, 'u) tcp_peer) option" where
  "Tcp_SendPush H uv_write sz junk wrRoot data p = Tcp_SendPackage H uv_write sz junk wrRoot data 0 0 p"

definition Tcp_SendResponse ::
  "('m, 'c, ('c, 'u) tcp_peer) hooks \<Rightarrow> (bytes \<Rightarrow> int) \<Rightarrow> nat \<Rightarrow> (nat \<Rightarrow> u8)
    \<Rightarrow> ('m \<Rightarrow> bbuffer \<Rightarrow> bbuffer option) \<Rightarrow> int \<Rightarrow> 'm \<Rightarrow> ('c, 'u) tcp_peer \<Rightarrow> (int \<times> ('c, 'u) tcp_peer) option" where
  "Tcp_SendResponse H uv_write sz junk wrRoot s data p = Tcp_SendPackage H uv_write sz junk wrRoot data s 0 p"

definition Tcp_SendRequest ::
  "('m, 'c, ('c, 'u) tcp_peer) hooks \<Rightarrow> (bytes \<Rightarrow> int) \<Rightarrow> nat \<Rightarrow> (nat \<Rightarrow> u8)
    \<Rightarrow> ('m \<Rightarrow> bbuffer \<Rightarrow> bbuffer option) \<Rightarrow> int option \<Rightarrow> 'm \<Rightarrow> int \<Rightarrow> 'c \<Rightarrow> nat \<Rightarrow> ('c, 'u) tcp_peer
    \<Rightarrow> (int \<times> ('c, 'u) tcp_peer) option" where
  "Tcp_SendRequest H uv_write sz junk wrRoot timer data tar cb timeoutMS p =
     SendRequest uvTcp (Tcp_SendPackage H uv_write sz junk wrRoot) timer data tar cb timeoutMS p"

fun tcp_step ::
  "('m, 'c, ('c, 'u) tcp_peer) hooks \<Rightarrow> nat \<Rightarrow> (nat \<Rightarrow> u8) \<Rightarrow> ('m \<Rightarrow> bbuffer \<Rightarrow> bbuffer option)
    \<Rightarrow> (bbuffer \<Rightarrow> ('m rres \<times> bbuffer) option) \<Rightarrow> ('m, 'c) tcp_event
    \<Rightarrow> ('c, 'u) tcp_peer \<times> 'c list \<Rightarrow> (('c, 'u) tcp_peer \<times> 'c list) option" where
  "tcp_step H sz junk wr rd (EvRequest uvw timer m tar c t) (p, acc) = do {
     (r, p') \<leftarrow> Tcp_SendRequest H uvw sz junk wr timer m tar c t p;
     Some (p', if r = 0 then acc @ [c] else acc) }"
| "tcp_step H sz junk wr rd (EvPush uvw m) (p, acc) = do {
     (r, p') \<leftarrow> Tcp_SendPush H uvw sz junk wr m p; Some (p', acc) }"
| "tcp_step H sz junk wr rd (EvRespond uvw s m) (p, acc) = do {
     (r, p') \<leftarrow> Tcp_SendResponse H uvw sz junk wr s m p; Some (p', acc) }"
| "tcp_step H sz junk wr rd (EvRead n bs) (p, acc) = do { p' \<leftarrow> Tcp_Read H rd n bs p; Some (p', acc) }"
| "tcp_step H sz junk wr rd (EvTimeout s) (p, acc) = do { p' \<leftarrow> TimeoutCallback H s p; Some (p', acc) }"
| "tcp_step H sz junk wr rd (EvDispose flag) (p, acc) = do { p' \<leftarrow> Tcp_Dispose H flag p; Some (p', acc) }"

definition tcp_new :: "('c, ('m, 'c) seen list) tcp_peer" where
  "tcp_new = \<lparr>callbacks = [], serial = 0, hasPush = True, hasRequest = True, hasDisconnect = True,
     inbuf = List_new, recvBB = BBuffer_new, sendBB = BBuffer_new, world = [], uvTcp = True, outq = []\<rparr>"

lemma tcp_send_acct:
  assumes "Tcp_SendPackage (log_hooks ret) uvw sz junk wr m s tar p = Some (r, p')" "tcp.acct acc p"
  shows "tcp.acct acc p'"
proof (cases "uvTcp p")
  case True
  from Tcp_SendPackage_log [OF assms(1) True] show ?thesis
    by (elim disjE) (use assms(2) in \<open>simp_all add: tcp.acct_def pending_def\<close>)
next
  case False
  then show ?thesis using assms by (simp add: Tcp_SendPackage_def)
qed

lemma tcp_step_acct:
  assumes "tcp_step (log_hooks ret) sz junk wr rd ev (p, acc) = Some (p', acc')" "tcp.acct acc p"
  shows "tcp.acct acc' p'"
proof (cases ev)
  case (EvRequest uvw timer m tar c t)
  then show ?thesis using assms
    by (auto simp: Tcp_SendRequest_def bind_Some_iff dest: tcp.SendRequest_acct)
next
  case (EvRead n bs)
  then obtain n1 p1 where 1: "(if n > 0 then Tcp_Unpack (log_hooks ret) rd (take (nat n) bs) p else Some (n, p)) = Some (n1, p1)"
      and 2: "(if n1 < 0 then Tcp_Dispose (log_hooks ret) 1 p1 else Some p1) = Some p'" "acc' = acc"
    using assms by (auto simp: Tcp_Read_def bind_Some_iff split: if_splits)
  have "tcp.acct acc p1" using 1 assms(2)
    by (auto simp: Tcp_Unpack_def bind_Some_iff split: if_splits dest: tcp.Unpack_acct)
  with 2 show ?thesis by (auto split: if_splits dest: tcp.dispose_acct)
qed (use assms in \<open>auto simp: bind_Some_iff Tcp_SendPush_def Tcp_SendResponse_def
    dest: tcp_send_acct tcp.TimeoutCallback_acct tcp.dispose_acct\<close>)

lemma tcp_run_acct:
  "kfold (tcp_step (log_hooks ret) sz junk wr rd) evs (q, acc0) = Some (p, acc) \<Longrightarrow> tcp.acct acc0 q \<Longrightarrow> tcp.acct acc p"
proof (induction evs arbitrary: q acc0)
  case (Cons ev evs)
  then show ?case by (auto simp: bind_Some_iff dest: tcp_step_acct)
qed simp

lemma tcp_acct_new: "tcp.acct [] (tcp_new :: ('c, ('m, 'c) seen list) tcp_peer)"
  by (simp add: tcp.acct_def tcp_new_def pending_def)

section \<open>Packages\<close>

text \<open>A buffer that no message is being read from.\<close>

definition idle :: "bbuffer \<Rightarrow> bool" where
  "idle bb \<longleftrightarrow> readLengthLimit bb = 0 \<and> objIdxs bb = Map.empty \<and> strIdxs bb = Map.empty"

lemma idle_new [simp]: "idle BBuffer_new" and ptrs_new [simp]: "ptrs BBuffer_new = Map.empty"
  by (simp_all add: idle_def BBuffer_new_def)

lemma jot_inbuf: "jot x (p\<lparr>inbuf := b\<rparr>) = (jot x p)\<lparr>inbuf := b\<rparr>"
  by (simp add: jot_def)

lemma erase_inbuf: "erase_cb s (p\<lparr>inbuf := b\<rparr>) = map_option (\<lambda>q. q\<lparr>inbuf := b\<rparr>) (erase_cb s p)"
  by (simp add: erase_cb_def)

lemma dispatch_inbuf:
  "dispatch (log_hooks ret) s m (p\<lparr>inbuf := b\<rparr>) =
     map_option (\<lambda>(r, q). (r, q\<lparr>inbuf := b\<rparr>)) (dispatch (log_hooks ret) s m p)"
  by (cases "map_of (callbacks p) s"; cases "i32 (- s)"; cases "erase_cb s (jot (Called (fst (the (map_of (callbacks p) s))) (Some m)) p)")
    (auto simp: dispatch_def ReceivePush_def ReceiveRequest_def jot_inbuf erase_inbuf)

lemma HandlePack_inbuf:
  "HandlePack (log_hooks ret) rd d (p\<lparr>inbuf := b\<rparr>) =
     map_option (\<lambda>(r, q). (r, q\<lparr>inbuf := b\<rparr>)) (HandlePack (log_hooks ret) rd d p)"
proof -
  have sw: "p\<lparr>inbuf := b, recvBB := x\<rparr> = (p\<lparr>recvBB := x\<rparr>)\<lparr>inbuf := b\<rparr>" for x by simp
  show ?thesis unfolding HandlePack_def
    by (simp add: sw dispatch_inbuf split: Option.bind_split sum.split prod.split)
qed

lemma deliver_inbuf:
  "deliver (HandlePack (log_hooks ret) rd) ds (p\<lparr>inbuf := b\<rparr>) =
     map_option (\<lambda>(r, q). (r, q\<lparr>inbuf := b\<rparr>)) (deliver (HandlePack (log_hooks ret) rd) ds p)"
  by (induction ds arbitrary: p) (auto simp: HandlePack_inbuf split: Option.bind_split prod.split)

text \<open>The reads of a connection, each with the bytes that arrived.\<close>

definition tcp_reads ::
  "('m, 'c, ('c, 'u) tcp_peer) hooks \<Rightarrow> (bbuffer \<Rightarrow> ('m rres \<times> bbuffer) option) \<Rightarrow> bytes list
    \<Rightarrow> ('c, 'u) tcp_peer \<Rightarrow> ('c, 'u) tcp_peer option" where
  "tcp_reads H rd cs p = kfold (\<lambda>c. Tcp_Read H rd (int (length c)) c) cs p"

lemma tcp_reads_frames:
  assumes "\<forall>d \<in> set ds. 0 < length d \<and> length d \<le> M" and "\<forall>c \<in> set cs. length c \<le> K" and "4 + M + K \<le> 2 ^ 31"
    and "xs @ concat cs = concat (map frame_bytes ds)" and "lrep 1 (inbuf p) xs" and "length xs \<le> 4 + M"
    and "deliver (HandlePack (log_hooks ret) rd) ds p = Some (0, q)" and "split_frames xs = ([], xs)"
  shows "\<exists>b. tcp_reads (log_hooks ret) rd cs p = Some (q\<lparr>inbuf := b\<rparr>) \<and> lrep 1 b []"
  using assms unfolding tcp_reads_def
proof (induction cs arbitrary: xs ds p q)
  case Nil
  have "ds = []"
  proof (cases ds)
    case (Cons d ds')
    with Nil.prems split_frames_frame [of d "concat (map frame_bytes ds')"] show ?thesis by simp
  qed simp
  with Nil.prems show ?case by (auto intro!: exI [of _ "inbuf p"])
next
  case (Cons c cs)
  show ?case
  proof (cases "c = []")
    case True
    then have "Tcp_Read (log_hooks ret) rd (int (length c)) c p = Some p" by (simp add: Tcp_Read_def)
    then show ?thesis using Cons.IH [of ds xs p q] Cons.prems True by simp
  next
    case False
  have M: "M < 2 ^ 31" using Cons.prems(3) by simp
  from prefix_frames [OF Cons.prems(1) M, of "xs @ c" "concat cs"] Cons.prems(4)
  obtain ds1 ds2 r where r: "ds = ds1 @ ds2" "split_frames (xs @ c) = (ds1, r)" "\<not> bad_header r"
      "split_frames r = ([], r)" "r @ concat cs = concat (map frame_bytes ds2)" "length r \<le> 4 + M" by auto
  obtain p1 where p1: "deliver (HandlePack (log_hooks ret) rd) ds1 p = Some (0, p1)"
      "deliver (HandlePack (log_hooks ret) rd) ds2 p1 = Some (0, q)"
    using Cons.prems(7) r(1) by (auto simp: deliver_append bind_Some_iff split: if_splits)
  have "length (xs @ c) \<le> 2 ^ 31" using Cons.prems(2,3,6) by simp
  from Unpack_spec [OF Cons.prems(5) this, of "HandlePack (log_hooks ret) rd" p 0 p1] p1 r obtain b1 where
    b1: "Unpack (HandlePack (log_hooks ret) rd) c (inbuf p) p = Some (0, b1, p1)" "lrep 1 b1 r" by auto
  have "Tcp_Read (log_hooks ret) rd (int (length c)) c p = Some (p1\<lparr>inbuf := b1\<rparr>)"
    using False b1(1) by (simp add: Tcp_Read_def Tcp_Unpack_def)
  moreover have "\<exists>b. kfold (\<lambda>c. Tcp_Read (log_hooks ret) rd (int (length c)) c) cs (p1\<lparr>inbuf := b1\<rparr>) = Some (q\<lparr>inbuf := b1, inbuf := b\<rparr>) \<and> lrep 1 b []"
    by (rule Cons.IH [of ds2 r]) (use Cons.prems r b1 p1 in \<open>auto simp: deliver_inbuf\<close>)
  ultimately show ?thesis by simp
  qed
qed

lemma skip_to_ok:
  assumes rep: "lrep 1 l xs" and n: "0 < n" "n \<le> lcap l"
  shows "\<exists>l' ys. skip_to junk n l = Some l' \<and> lrep 1 l' ys \<and> length ys = n \<and> xx_list.more l' = xx_list.more l"
proof -
  obtain t where t: "lbuf l = Some (map Some xs @ t)" "lcap l = length xs + length t"
    using rep n by (cases rule: lrep_cases) auto
  let ?m = "map Some xs @ t"
  define ys where "ys = map (\<lambda>i. case ?m ! i of None \<Rightarrow> junk i | Some x \<Rightarrow> x) [0..<n]"
  let ?l = "l\<lparr>llen := n, lbuf := Some (map Some ys @ drop n ?m)\<rparr>"
  have "skip_to junk n l = Some ?l" using t n by (simp add: skip_to_def ys_def comp_def)
  moreover have "lrep 1 ?l ys"
    by (rule lrep_Blk [where t = "drop n ?m"]) (use t n lrep_pos [OF rep] in \<open>auto simp: ys_def\<close>)
  ultimately show ?thesis by (auto simp: ys_def)
qed

lemma wr_blk_Some: "i < length m \<Longrightarrow> wr_blk (Some m) i x = Some (Some (m[i := Some x]))"
  by (simp add: wr_blk_def)

lemma length_four: "length l = 4 \<Longrightarrow> \<exists>a b c d. l = [a, b, c, d]"
  by (auto simp: numeral_eq_Suc length_Suc_conv)

lemma fill_header:
  assumes "length ys = sz + 4"
  shows "do { b0 \<leftarrow> wr_blk (Some (map Some (ys @ zs) @ t)) (sz + 0) a; b1 \<leftarrow> wr_blk b0 (sz + 1) b;
      b2 \<leftarrow> wr_blk b1 (sz + 2) c; b3 \<leftarrow> wr_blk b2 (sz + 3) d; f b3 }
     = f (Some (map Some (take sz ys @ [a, b, c, d] @ zs) @ t))"
proof -
  obtain y0 y1 y2 y3 where "drop sz ys = [y0, y1, y2, y3]"
    using length_four [of "drop sz ys"] assms by auto
  then have "ys = take sz ys @ [y0, y1, y2, y3]" by (metis append_take_drop_id)
  moreover have "length (take sz ys) = sz" using assms by simp
  ultimately obtain us where "ys = us @ [y0, y1, y2, y3]" "length us = sz" by metis
  then show ?thesis by (simp add: wr_blk_Some list_update_append numeral_eq_Suc)
qed

lemma SendReqAndData_ok:
  assumes "length ys = sz + 4" and "length zs + 4 < 2 ^ 32"
  shows "SendReqAndData H uvw sz (Some (map Some (ys @ zs) @ t)) (word_of_nat (length zs)) p
     = SendReq H uvw (frame_bytes zs) p"
proof -
  let ?w = "word_of_nat (length zs) :: u32"
  let ?xs = "take sz ys @ [ucast ?w, ucast (drop_bit 8 ?w), ucast (drop_bit 16 ?w), ucast (drop_bit 24 ?w)] @ zs"
  have u: "unat (?w + 4) = length zs + 4" using assms(2) by (simp add: unat_word_ariths unat_of_nat)
  have "holds \<lparr>lbuf = Some (map Some ?xs @ t), lcap = 0, llen = length ?xs\<rparr> ?xs" by (auto simp: holds_def)
  from get_range_holds [OF this, of sz "length zs + 4"] assms(1)
  have g: "get_range (Some (map Some ?xs @ t)) sz (length zs + 4) = Some (frame_bytes zs)"
    by (simp add: frame_bytes_def numeral_eq_Suc drop_bit_drop_bit)
  show ?thesis unfolding SendReqAndData_def fill_header [OF assms(1)] u g by simp
qed

definition serial_bytes :: "int \<Rightarrow> bytes" where
  "serial_bytes s = venc (unat (ZigZagEncode (word_of_int s :: u32)))"

lemma length_serial: "length (serial_bytes s) \<le> 5" and serial_nonempty: "serial_bytes s \<noteq> []"
proof -
  show "length (serial_bytes s) \<le> 5" unfolding serial_bytes_def
    by (rule length_venc_le) (use unsigned_less [of "ZigZagEncode (word_of_int s :: u32)", where 'a = nat] in auto)
  show "serial_bytes s \<noteq> []" unfolding serial_bytes_def by (subst venc.simps) simp
qed

lemma list_all2_right: "list_all2 P xs ys \<Longrightarrow> y \<in> set ys \<Longrightarrow> \<exists>x \<in> set xs. P x y"
  by (induction rule: list_all2_induct) auto

text \<open>A peer between two operations.\<close>

definition ready :: "('c, 'u) tcp_peer \<Rightarrow> bool" where
  "ready p \<longleftrightarrow> uvTcp p \<and> ptrs (sendBB p) = Map.empty \<and> (\<exists>xs. lrep 1 (sendBB p) xs) \<and> idle (recvBB p) \<and> lrep 1 (inbuf p) []"

text \<open>
  What the peers need of \<^verbatim>\<open>WriteRoot\<close> and \<^verbatim>\<open>ReadRoot\<close>: an encoding of bounded length is appended, and
  reading it yields an equivalent message. The typed object graphs of the generated classes are
  shown to be an instance.
\<close>

locale msg_codec =
  fixes wrRoot :: "'m \<Rightarrow> bbuffer \<Rightarrow> bbuffer option"
    and rdRoot :: "bbuffer \<Rightarrow> ('m rres \<times> bbuffer) option"
    and encodes :: "'m \<Rightarrow> bytes \<Rightarrow> bool"
    and ok :: "'m \<Rightarrow> bool"
    and bound :: "'m \<Rightarrow> nat"
    and eqv :: "'m \<Rightarrow> 'm \<Rightarrow> bool"
  assumes wrRoot_ok: "ok m \<Longrightarrow> ptrs bb = Map.empty \<Longrightarrow> lrep 1 bb xs \<Longrightarrow> length xs + bound m \<le> 2 ^ 32 \<Longrightarrow>
       \<exists>bb' ys. wrRoot m bb = Some bb' \<and> lrep 1 bb' (xs @ ys) \<and> encodes m ys \<and> length ys \<le> bound m \<and> ptrs bb' = Map.empty"
    and rdRoot_ok: "encodes m ys \<Longrightarrow> idle bb \<Longrightarrow> holds bb (pre @ ys) \<Longrightarrow> offset bb = length pre \<Longrightarrow>
       length (pre @ ys) < SIZE_BOUND \<Longrightarrow> \<exists>m' bb'. rdRoot bb = Some (Inr m', bb') \<and> eqv m m' \<and> idle bb'"
begin

definition is_package :: "int \<Rightarrow> 'm \<Rightarrow> bytes \<Rightarrow> bool" where
  "is_package s m d \<longleftrightarrow> (\<exists>ys. d = serial_bytes s @ ys \<and> encodes m ys \<and> length ys \<le> bound m)"

lemma package_length: "is_package s m d \<Longrightarrow> 0 < length d \<and> length d \<le> 5 + bound m"
  using length_serial [of s] serial_nonempty [of s] by (auto simp: is_package_def)

lemma put_package_ok:
  assumes "ok m" "ptrs bb = Map.empty" "lrep 1 bb xs" "length xs + 5 + bound m \<le> 2 ^ 32"
  shows "\<exists>bb' d. put_package wrRoot 0 s m bb = Some bb' \<and> lrep 1 bb' (xs @ d) \<and> is_package s m d \<and> ptrs bb' = Map.empty"
proof -
  let ?v = "word_of_int s :: u32"
  have z: "unat (ZigZagEncode ?v) < 2 ^ 32" using unsigned_less [of "ZigZagEncode ?v", where 'a = nat] by simp
  have "fits 1 (length xs + length (venc (unat (ZigZagEncode ?v))) + 16)"
    using assms(4) length_serial [of s] by (simp add: fits_def serial_bytes_def)
  from s32_codec.wr_ok [OF z assms(3) this] obtain bb1 where bb1: "WriteVarS ?v bb = Some bb1"
      "lrep 1 bb1 (xs @ serial_bytes s)" "xx_list.more bb1 = xx_list.more bb" by (auto simp: lstep_def serial_bytes_def)
  have "ptrs bb1 = Map.empty" using more_fields [OF bb1(3)] assms(2) by simp
  moreover have "length (xs @ serial_bytes s) + bound m \<le> 2 ^ 32" using assms(4) length_serial [of s] by simp
  ultimately obtain bb2 ys where "wrRoot m bb1 = Some bb2" "lrep 1 bb2 ((xs @ serial_bytes s) @ ys)" "encodes m ys"
      "length ys \<le> bound m" "ptrs bb2 = Map.empty"
    using wrRoot_ok [OF assms(1) _ bb1(2)] by blast
  with bb1 show ?thesis
    by (intro exI [of _ bb2] exI [of _ "serial_bytes s @ ys"]) (auto simp: put_package_def is_package_def)
qed

lemma HandlePack_package:
  assumes d: "is_package s m d" and "idle (recvBB p)" "- (2 ^ 31) \<le> s" "s < 2 ^ 31" "length d < SIZE_BOUND"
  shows "\<exists>m' bb. HandlePack H rdRoot d p = dispatch H s m' (p\<lparr>recvBB := bb\<rparr>) \<and> eqv m m' \<and> idle bb"
proof -
  obtain ys where ys: "d = serial_bytes s @ ys" "encodes m ys" using d by (auto simp: is_package_def)
  let ?v = "word_of_int s :: u32"
  let ?z = "serial_bytes s"
  let ?bb = "BBuffer_Reset (Some (map Some d)) (length d) 0 0 (recvBB p)"
  have z: "unat (ZigZagEncode ?v) < 2 ^ 32" using unsigned_less [of "ZigZagEncode ?v", where 'a = nat] by simp
  have h: "holds ?bb ([] @ ?z @ ys)" by (simp add: holds_def BBuffer_Reset_def ys)
  have "ReadVarS ?bb = Some (Inr ?v, ?bb\<lparr>offset := length ([] :: bytes) + length ?z\<rparr>)"
    unfolding serial_bytes_def
    by (rule s32_codec.rd_ok [OF z h [unfolded serial_bytes_def]])
      (use assms(2,5) ys in \<open>auto simp: BBuffer_Reset_def idle_def serial_bytes_def\<close>)
  then have r: "ReadVarS ?bb = Some (Inr ?v, ?bb\<lparr>offset := length ?z\<rparr>)" by simp
  have "\<exists>m' bb'. rdRoot (?bb\<lparr>offset := length ?z\<rparr>) = Some (Inr m', bb') \<and> eqv m m' \<and> idle bb'"
    by (rule rdRoot_ok [OF ys(2), where pre = ?z]) (use assms(2,5) h ys in \<open>auto simp: BBuffer_Reset_def idle_def\<close>)
  then obtain m' bb' where m': "rdRoot (?bb\<lparr>offset := length ?z\<rparr>) = Some (Inr m', bb')" "eqv m m'" "idle bb'" by blast
  moreover have "sint ?v = s" using assms(3,4) by (simp add: signed_of_int signed_take_bit_int_eq_self)
  ultimately have "HandlePack H rdRoot d p = dispatch H s m' (p\<lparr>recvBB := bb'\<rparr>)"
    using r by (simp add: HandlePack_def)
  with m' show ?thesis by blast
qed

lemma SendPackage_ok:
  assumes "uvTcp p" "ok m" "ptrs (sendBB p) = Map.empty" "lrep 1 (sendBB p) xs" "sz + 4 \<le> 1024"
    and "2048 + bound m \<le> 2 ^ 32" and "\<And>d. uvw d = 0"
  shows "\<exists>bb d. Tcp_SendPackage H uvw sz junk wrRoot m s 0 p = Some (0, p\<lparr>sendBB := bb, outq := outq p @ [frame_bytes d]\<rparr>) \<and>
     is_package s m d \<and> ptrs bb = Map.empty \<and> lrep 1 bb []"
proof -
  obtain bb1 where bb1: "Reserve True 1 1024 (sendBB p) = Some bb1" "lrep 1 bb1 xs"
      "xx_list.more bb1 = xx_list.more (sendBB p)" "1024 \<le> lcap bb1"
    using Reserve_ok [OF assms(4), of 1024 True] by (auto simp: fits_def)
  obtain bb2 ys where bb2: "skip_to junk (sz + 4) bb1 = Some bb2" "lrep 1 bb2 ys" "length ys = sz + 4"
      "xx_list.more bb2 = xx_list.more bb1"
    using skip_to_ok [OF bb1(2), of "sz + 4" junk] assms(5) bb1(4) by auto
  have i: "ptrs bb2 = Map.empty" using more_fields [OF bb2(4)] more_fields [OF bb1(3)] assms(3) by simp
  have "length ys + 5 + bound m \<le> 2 ^ 32" using assms(5,6) bb2(3) by simp
  from put_package_ok [OF assms(2) i bb2(2) this] obtain bb3 d where bb3:
      "put_package wrRoot 0 s m bb2 = Some bb3" "lrep 1 bb3 (ys @ d)" "is_package s m d" "ptrs bb3 = Map.empty" by blast
  obtain t where t: "lbuf bb3 = Some (map Some (ys @ d) @ t)"
    using bb3(2) bb2(3) by (cases rule: lrep_cases) auto
  have l: "llen bb3 - sz - 4 = length d" using lrep_length [OF bb3(2)] bb2(3) by simp
  have "length d + 4 < 2 ^ 32" using package_length [OF bb3(3)] assms(6) by simp
  let ?bb = "bb3\<lparr>lbuf := None, llen := 0, lcap := 0\<rparr>"
  have "Tcp_SendPackage H uvw sz junk wrRoot m s 0 p = SendReq H uvw (frame_bytes d) (p\<lparr>sendBB := ?bb\<rparr>)"
    using assms(1) bb1 bb2 bb3 l SendReqAndData_ok [OF bb2(3) \<open>length d + 4 < 2 ^ 32\<close>]
    by (simp add: Tcp_SendPackage_def t)
  moreover have "lrep 1 ?bb []" by (simp add: lrep_def linv_def contents_def)
  ultimately show ?thesis using assms(1,7) bb3(3,4)
    by (intro exI [of _ ?bb] exI [of _ d]) (simp add: SendReq_def)
qed

lemma deliver_pushes:
  assumes "list_all2 (is_package 0) ms ds" "\<forall>d \<in> set ds. length d < SIZE_BOUND" "idle (recvBB p)" "hasPush p"
    and "\<And>m. ret (Pushed m) = 0"
  shows "\<exists>ms' bb. deliver (HandlePack (log_hooks ret) rdRoot) ds p =
     Some (0, p\<lparr>recvBB := bb, world := world p @ map Pushed ms'\<rparr>) \<and> list_all2 eqv ms ms' \<and> idle bb"
  using assms(1-4)
proof (induction ms ds arbitrary: p rule: list_all2_induct)
  case Nil
  then show ?case by (auto intro!: exI [of _ "recvBB p"])
next
  case (Cons m ms d ds)
  from HandlePack_package [OF Cons.hyps(1), of p "log_hooks ret"] Cons.prems obtain m' bb where h:
      "HandlePack (log_hooks ret) rdRoot d p = dispatch (log_hooks ret) 0 m' (p\<lparr>recvBB := bb\<rparr>)"
      "eqv m m'" "idle bb" by auto
  let ?p = "p\<lparr>recvBB := bb, world := world p @ [Pushed m']\<rparr>"
  have d: "HandlePack (log_hooks ret) rdRoot d p = Some (0, ?p)"
    using h(1) Cons.prems(3) assms(5) by (simp add: dispatch_def ReceivePush_def jot_def)
  from Cons.IH [of ?p] Cons.prems h(3) obtain ms' bb' where
      "deliver (HandlePack (log_hooks ret) rdRoot) ds ?p =
         Some (0, ?p\<lparr>recvBB := bb', world := world ?p @ map Pushed ms'\<rparr>)" "list_all2 eqv ms ms'" "idle bb'" by auto
  with d h(2) show ?case by (intro exI [of _ "m' # ms'"] exI [of _ bb']) simp
qed

lemma send_pushes:
  assumes "\<forall>m \<in> set ms. ok m \<and> 2048 + bound m \<le> 2 ^ 32" "uvTcp p" "ptrs (sendBB p) = Map.empty" "lrep 1 (sendBB p) xs"
    and "sz + 4 \<le> 1024" and "\<And>d. uvw d = 0"
  shows "\<exists>bb ds. deliver (Tcp_SendPush H uvw sz junk wrRoot) ms p =
     Some (0, p\<lparr>sendBB := bb, outq := outq p @ map frame_bytes ds\<rparr>) \<and> list_all2 (is_package 0) ms ds"
  using assms(1-4)
proof (induction ms arbitrary: p xs)
  case Nil
  then show ?case by (auto intro!: exI [of _ "sendBB p"])
next
  case (Cons m ms)
  from SendPackage_ok [of p m xs sz uvw H junk 0] Cons.prems assms(5,6) obtain bb d where bb:
    "Tcp_SendPackage H uvw sz junk wrRoot m 0 0 p = Some (0, p\<lparr>sendBB := bb, outq := outq p @ [frame_bytes d]\<rparr>)"
    "is_package 0 m d" "ptrs bb = Map.empty" "lrep 1 bb []" by auto
  let ?p = "p\<lparr>sendBB := bb, outq := outq p @ [frame_bytes d]\<rparr>"
  from Cons.IH [of ?p "[]"] Cons.prems bb obtain bb' ds where
     ih: "deliver (Tcp_SendPush H uvw sz junk wrRoot) ms ?p =
     Some (0, ?p\<lparr>sendBB := bb', outq := outq ?p @ map frame_bytes ds\<rparr>)" "list_all2 (is_package 0) ms ds" by auto
  have "Tcp_SendPush H uvw sz junk wrRoot m p = Some (0, ?p)" using bb(1) by (simp add: Tcp_SendPush_def)
  with ih bb(2) show ?case by (intro exI [of _ bb'] exI [of _ "d # ds"]) simp
qed

lemma pushes_arrive:
  assumes ms: "\<forall>m \<in> set ms. ok m \<and> 5 + bound m \<le> M" and MK: "4 + M + K \<le> 2 ^ 31"
    and sz: "sz + 4 \<le> 1024" and uvw: "\<And>d. uvw d = 0" and ret: "\<And>m. ret (Pushed m) = 0"
  shows "\<exists>a. deliver (Tcp_SendPush H uvw sz junk wrRoot) ms (tcp_new :: ('c, ('b, 'c) seen list) tcp_peer) = Some (0, a) \<and>
     length (concat (outq a)) \<le> length ms * (4 + M) \<and>
     (\<forall>cs. concat cs = concat (outq a) \<longrightarrow> (\<forall>c \<in> set cs. length c \<le> K) \<longrightarrow>
       (\<exists>b ms'. tcp_reads (log_hooks ret) rdRoot cs tcp_new = Some b \<and> world b = map Pushed ms' \<and>
          list_all2 eqv ms ms' \<and> uvTcp b))"
proof -
  let ?n = "tcp_new :: ('c, ('b, 'c) seen list) tcp_peer"
  have "\<exists>bb ds. deliver (Tcp_SendPush H uvw sz junk wrRoot) ms ?n =
     Some (0, ?n\<lparr>sendBB := bb, outq := outq ?n @ map frame_bytes ds\<rparr>) \<and> list_all2 (is_package 0) ms ds"
    by (rule send_pushes [where xs = "[]"])
      (use ms MK sz uvw in \<open>auto simp: tcp_new_def lrep_BBuffer_new [simplified]\<close>)
  then obtain a ds where a: "deliver (Tcp_SendPush H uvw sz junk wrRoot) ms ?n = Some (0, a)"
      "outq a = map frame_bytes ds" "list_all2 (is_package 0) ms ds"
    by (auto simp: tcp_new_def)
  have len: "\<forall>d \<in> set ds. 0 < length d \<and> length d \<le> M"
  proof
    fix d assume "d \<in> set ds"
    then obtain m where "m \<in> set ms" "is_package 0 m d" using list_all2_right [OF a(3)] by blast
    then show "0 < length d \<and> length d \<le> M" using package_length [of 0 m d] ms by auto
  qed
  have "length (concat (map frame_bytes ds)) \<le> length ds * (4 + M)" using len by (induction ds) auto
  then have tot: "length (concat (outq a)) \<le> length ms * (4 + M)" using a(2,3) by (simp add: list_all2_lengthD)
  have "\<exists>ms' bb. deliver (HandlePack (log_hooks ret) rdRoot) ds tcp_new =
     Some (0, tcp_new\<lparr>recvBB := bb, world := world tcp_new @ map Pushed ms'\<rparr>) \<and> list_all2 eqv ms ms' \<and> idle bb"
    by (rule deliver_pushes [OF a(3)]) (use len MK ret in \<open>auto simp: tcp_new_def SIZE_BOUND_def\<close>)
  then obtain ms' bb where 2: "deliver (HandlePack (log_hooks ret) rdRoot) ds tcp_new =
     Some (0, tcp_new\<lparr>recvBB := bb, world := map Pushed ms'\<rparr>)" "list_all2 eqv ms ms'" by (auto simp: tcp_new_def)
  have "\<exists>b. tcp_reads (log_hooks ret) rdRoot cs tcp_new = Some ((tcp_new\<lparr>recvBB := bb, world := map Pushed ms'\<rparr>)\<lparr>inbuf := b\<rparr>) \<and> lrep 1 b []"
    if "concat cs = concat (outq a)" "\<forall>c \<in> set cs. length c \<le> K" for cs
    by (rule tcp_reads_frames [where xs = "[]" and ds = ds and M = M and K = K])
      (use len MK that a 2(1) in \<open>auto simp: tcp_new_def split_frames.simps comp_def\<close>)
  then show ?thesis using a(1) tot 2(2) by (fastforce simp: tcp_new_def)
qed

lemma read_package:
  assumes d: "is_package s m d" "- (2 ^ 31) \<le> s" "s < 2 ^ 31" and p: "lrep 1 (inbuf p) []" "idle (recvBB p)"
    and cs: "concat cs = frame_bytes d" "\<forall>c \<in> set cs. length c \<le> K" "9 + bound m + K \<le> 2 ^ 31"
    and disp: "\<And>m' bb. eqv m m' \<Longrightarrow> idle bb \<Longrightarrow> dispatch (log_hooks ret) s m' (p\<lparr>recvBB := bb\<rparr>) = Some (0, f m' bb)"
  shows "\<exists>m' bb b. tcp_reads (log_hooks ret) rdRoot cs p = Some ((f m' bb)\<lparr>inbuf := b\<rparr>) \<and> lrep 1 b [] \<and> eqv m m' \<and> idle bb"
proof -
  have l: "0 < length d" "length d \<le> 5 + bound m" using package_length [OF d(1)] by auto
  then have "length d < SIZE_BOUND" using cs(3) by (simp add: SIZE_BOUND_def)
  from HandlePack_package [OF d(1) p(2) d(2,3) this, of "log_hooks ret"] obtain m' bb where
    h: "HandlePack (log_hooks ret) rdRoot d p = Some (0, f m' bb)" "eqv m m'" "idle bb" using disp by fastforce
  have "\<exists>b. tcp_reads (log_hooks ret) rdRoot cs p = Some ((f m' bb)\<lparr>inbuf := b\<rparr>) \<and> lrep 1 b []"
    by (rule tcp_reads_frames [where ds = "[d]" and M = "5 + bound m" and K = K and xs = "[]"])
      (use l cs p h in \<open>auto simp: split_frames.simps\<close>)
  with h show ?thesis by blast
qed

lemma request_answered:
  assumes a: "ready a" "0 \<le> serial a" "serial a < 2 ^ 31 - 1" "\<forall>e \<in> set (callbacks a). fst e \<le> serial a"
    and b: "ready b" "hasRequest b" and ok: "ok m1" "ok m2" and sz: "sz + 4 \<le> 1024"
    and K: "2048 + bound m1 + K \<le> 2 ^ 31" "2048 + bound m2 + K \<le> 2 ^ 31"
    and uvw: "\<And>d. uvw d = 0" and ret: "\<And>s m. ret (Requested s m) = 0" "\<And>c m. ret (Called c m) = 0"
  shows "\<exists>a1 d1. Tcp_SendRequest (log_hooks ret) uvw sz junk wrRoot timer m1 0 c 0 a = Some (0, a1) \<and> outq a1 = outq a @ [d1] \<and>
     (\<forall>cs. concat cs = d1 \<longrightarrow> (\<forall>x \<in> set cs. length x \<le> K) \<longrightarrow>
       (\<exists>b1 b2 m1' d2. tcp_reads (log_hooks ret) rdRoot cs b = Some b1 \<and> eqv m1 m1' \<and>
          world b1 = world b @ [Requested (serial a + 1) m1'] \<and>
          Tcp_SendResponse (log_hooks ret) uvw sz junk wrRoot (serial a + 1) m2 b1 = Some (0, b2) \<and> outq b2 = outq b @ [d2] \<and>
          (\<forall>cs'. concat cs' = d2 \<longrightarrow> (\<forall>x \<in> set cs'. length x \<le> K) \<longrightarrow>
             (\<exists>a2 m2'. tcp_reads (log_hooks ret) rdRoot cs' a1 = Some a2 \<and> eqv m2 m2' \<and>
                world a2 = world a @ [Called c (Some m2')] \<and> callbacks a2 = callbacks a))))"
proof -
  let ?k = "serial a + 1" and ?H = "log_hooks ret"
  let ?a = "a\<lparr>serial := ?k\<rparr>"
  obtain xs where xs: "uvTcp ?a" "ptrs (sendBB ?a) = Map.empty" "lrep 1 (sendBB ?a) xs" using a(1) by (auto simp: ready_def)
  from SendPackage_ok [OF xs(1) ok(1) xs(2,3) sz, of uvw ?H junk "- ?k"] K(1) uvw obtain bb1 d1 where
    s1: "Tcp_SendPackage ?H uvw sz junk wrRoot m1 (- ?k) 0 ?a = Some (0, ?a\<lparr>sendBB := bb1, outq := outq ?a @ [frame_bytes d1]\<rparr>)"
      "is_package (- ?k) m1 d1" by auto
  define a1 where "a1 = ?a\<lparr>sendBB := bb1, outq := outq a @ [frame_bytes d1], callbacks := (?k, c, 0) # callbacks a\<rparr>"
  have "filter (\<lambda>e. fst e \<noteq> ?k) (callbacks a) = callbacks a" using a(4) by (auto simp: filter_id_conv)
  then have 1: "Tcp_SendRequest ?H uvw sz junk wrRoot timer m1 0 c 0 a = Some (0, a1)"
    using s1(1) a(1,2,3) by (simp add: Tcp_SendRequest_def SendRequest_def i32_def ready_def a1_def)
  have nk: "?k \<notin> fst ` set (callbacks a)" using a(4) by force
  have "\<exists>b1 b2 m1' d2. tcp_reads ?H rdRoot cs b = Some b1 \<and> eqv m1 m1' \<and> world b1 = world b @ [Requested ?k m1'] \<and>
      Tcp_SendResponse ?H uvw sz junk wrRoot ?k m2 b1 = Some (0, b2) \<and> outq b2 = outq b @ [d2] \<and>
      (\<forall>cs'. concat cs' = d2 \<longrightarrow> (\<forall>x \<in> set cs'. length x \<le> K) \<longrightarrow>
         (\<exists>a2 m2'. tcp_reads ?H rdRoot cs' a1 = Some a2 \<and> eqv m2 m2' \<and>
            world a2 = world a @ [Called c (Some m2')] \<and> callbacks a2 = callbacks a))"
    if cs: "concat cs = frame_bytes d1" "\<forall>x \<in> set cs. length x \<le> K" for cs
  proof -
    let ?f = "\<lambda>m' bb. jot (Requested ?k m') (b\<lparr>recvBB := bb\<rparr>)"
    have "\<exists>m' bb z. tcp_reads ?H rdRoot cs b = Some ((?f m' bb)\<lparr>inbuf := z\<rparr>) \<and> lrep 1 z [] \<and> eqv m1 m' \<and> idle bb"
      by (rule read_package [OF s1(2) _ _ _ _ cs])
        (use a b K ret in \<open>auto simp: ready_def dispatch_def ReceiveRequest_def i32_def add.commute\<close>)
    then obtain m1' bb z where r: "tcp_reads ?H rdRoot cs b = Some ((?f m1' bb)\<lparr>inbuf := z\<rparr>)" "eqv m1 m1'" by blast
    let ?b1 = "(?f m1' bb)\<lparr>inbuf := z\<rparr>"
    obtain ys where ys: "uvTcp ?b1" "ptrs (sendBB ?b1) = Map.empty" "lrep 1 (sendBB ?b1) ys" using b(1) by (auto simp: ready_def jot_def)
    from SendPackage_ok [OF ys(1) ok(2) ys(2,3) sz, of uvw ?H junk ?k] K(2) uvw obtain bb2 d2 where
      s2: "Tcp_SendPackage ?H uvw sz junk wrRoot m2 ?k 0 ?b1 = Some (0, ?b1\<lparr>sendBB := bb2, outq := outq ?b1 @ [frame_bytes d2]\<rparr>)"
        "is_package ?k m2 d2" by auto
    have "\<exists>a2 m2'. tcp_reads ?H rdRoot cs' a1 = Some a2 \<and> eqv m2 m2' \<and> world a2 = world a @ [Called c (Some m2')] \<and>
        callbacks a2 = callbacks a"
      if cs': "concat cs' = frame_bytes d2" "\<forall>x \<in> set cs'. length x \<le> K" for cs'
    proof -
      let ?g = "\<lambda>m' bb. (jot (Called c (Some m')) (a1\<lparr>recvBB := bb\<rparr>))\<lparr>callbacks := callbacks a\<rparr>"
      have "\<exists>m' bb z. tcp_reads ?H rdRoot cs' a1 = Some ((?g m' bb)\<lparr>inbuf := z\<rparr>) \<and> lrep 1 z [] \<and> eqv m2 m' \<and> idle bb"
        by (rule read_package [OF s2(2) _ _ _ _ cs'])
          (use a K ret \<open>filter _ _ = _\<close> in \<open>auto simp: ready_def dispatch_def erase_cb_def a1_def jot_def\<close>)
      then show ?thesis by (auto simp: a1_def jot_def)
    qed
    moreover have "Tcp_SendResponse ?H uvw sz junk wrRoot ?k m2 ?b1 = Some (0, ?b1\<lparr>sendBB := bb2, outq := outq ?b1 @ [frame_bytes d2]\<rparr>)"
      using s2(1) by (simp add: Tcp_SendResponse_def)
    ultimately show ?thesis using r
      by (intro exI [of _ ?b1] exI [of _ "?b1\<lparr>sendBB := bb2, outq := outq ?b1 @ [frame_bytes d2]\<rparr>"] exI [of _ m1'] exI [of _ "frame_bytes d2"])
        (simp add: jot_def)
  qed
  with 1 show ?thesis by (intro exI [of _ a1] exI [of _ "frame_bytes d1"]) (simp add: a1_def)
qed

end

section \<open>Callbacks that close their connection\<close>

text \<open>
  A callback that disposes of its peer when the answer arrives, and does nothing but log otherwise.
\<close>

definition closing_hooks :: "int \<Rightarrow> ('m, 'c, ('c, ('m, 'c) seen list) tcp_peer) hooks" where
  "closing_hooks flag = (log_hooks (\<lambda>_. 0))\<lparr>call := (\<lambda>c m p.
     if m = None then Some (0, jot (Called c m) p)
     else do { p' \<leftarrow> Tcp_Dispose (log_hooks (\<lambda>_. 0)) flag (jot (Called c m) p); Some (0, p') })\<rparr>"

text \<open>
  The callback is still in the map while it runs, so \<^verbatim>\<open>Dispose\<close> calls it a second time, with a null
  pointer, and destroys it; then \<^verbatim>\<open>HandlePack\<close> erases it through an iterator into the cleared map.
\<close>

theorem callback_disposing_its_peer:
  assumes "0 < s" "map_of (callbacks p) s = Some (c, t)" "uvTcp p"
  shows "dispatch (closing_hooks flag) s m p = None \<and>
     (\<exists>p1. call (closing_hooks flag) c (Some m) p = Some (0, p1) \<and> {Called c (Some m), Called c None} \<subseteq> set (world p1) \<and> callbacks p1 = [])"
proof -
  let ?q = "jot (Called c (Some m)) p"
  have "(s, c, t) \<in> set (callbacks p)" using assms(2) by (rule map_of_SomeD)
  then have "Called c None \<in> (\<lambda>e. Called (fst (snd e)) None) ` set (callbacks p)" by force
  moreover have "uvTcp ?q" using assms(3) by (simp add: jot_def)
  ultimately have "\<exists>p1. Tcp_Dispose (log_hooks (\<lambda>_. 0)) flag ?q = Some p1 \<and> {Called c (Some m), Called c None} \<subseteq> set (world p1) \<and> callbacks p1 = []"
    by (auto simp: Tcp_Dispose_def call_all_log Disconnect_def drop_hooks_def Let_def jot_def)
  then obtain p1 where 1: "call (closing_hooks flag) c (Some m) p = Some (0, p1)"
      "{Called c (Some m), Called c None} \<subseteq> set (world p1)" "callbacks p1 = []"
    by (auto simp: closing_hooks_def)
  then have "dispatch (closing_hooks flag) s m p = None"
    using assms(1,2) by (simp add: dispatch_def erase_cb_def)
  with 1 show ?thesis by blast
qed

text \<open>
  A request whose serial is the least \<^verbatim>\<open>int\<close>, which five bytes on the wire announce, makes the
  receiver negate it: signed overflow, whatever the user code and the message.
\<close>

theorem request_serial_overflows: "dispatch H (- (2 ^ 31)) m p = None"
  by (simp add: dispatch_def i32_def)

end
