(* ===== verification/Graph.thy ===== *)
theory Graph
  imports Codecs
begin

text \<open>
  Serialising object graphs (test\_uv\_3/xx\_bbuffer.h, \<^verbatim>\<open>WritePtr\<close>, \<^verbatim>\<open>ReadPtr\<close>, \<^verbatim>\<open>WriteRoot\<close>, \<^verbatim>\<open>ReadRoot\<close>) for the
  classes of the generated package (gens/output/PKG\_class.h): the objects, their writers and readers, and
  the proof that reading any bytes at all can only build a well-typed heap.
\<close>

unbundle bit_operations_syntax

section \<open>Objects\<close>

text \<open>
  A smart pointer is null or the index of an object on the heap. The objects are the ones of the generated
  package \<^verbatim>\<open>PKG\<close> (gens/output/PKG\_class.h) together with \<^verbatim>\<open>std::string\<close> and \<^verbatim>\<open>BBuffer\<close>: \<open>OFoo parent childs\<close>,
  \<open>OPlayer id token target\<close>, \<open>OMonster\<close>, \<open>OScene monsters players\<close>, \<open>OSync players scene\<close>, and \<open>OList\<close> for the four instances
  of \<^verbatim>\<open>xx::List\<close> of pointers, with the type id that tells them apart.
\<close>

type_synonym ptr = "nat option"

datatype pobj =
    OString bytes
  | OBBuffer bytes
  | OFoo ptr ptr
  | OPlayer u32 ptr ptr
  | OMonster
  | OScene ptr ptr
  | OSync ptr ptr
  | OList u16 "ptr list"

type_synonym heap = "pobj list"

fun GetTypeId :: "pobj \<Rightarrow> u16" where
  "GetTypeId (OString s) = 1"
| "GetTypeId (OBBuffer d) = 2"
| "GetTypeId (OFoo parent childs) = 3"
| "GetTypeId (OPlayer i token target) = 5"
| "GetTypeId OMonster = 6"
| "GetTypeId (OScene monsters players) = 7"
| "GetTypeId (OSync players scene) = 10"
| "GetTypeId (OList t ps) = t"

text \<open>
  The table of creators after \<^verbatim>\<open>PKG::AllTypesRegister\<close>; ids that are not registered have a null entry.
\<close>

definition creators :: "u16 \<Rightarrow> pobj option" where
  "creators t =
     (if t = 5 then Some (OPlayer 0 None None)
      else if t = 6 then Some OMonster
      else if t = 7 then Some (OScene None None)
      else if t = 8 \<or> t = 9 then Some (OList t [])
      else if t = 10 then Some (OSync None None)
      else if t = 11 then Some (OList t [])
      else if t = 3 then Some (OFoo None None)
      else if t = 4 then Some (OList t [])
      else None)"

definition CreateByTypeId :: "u16 \<Rightarrow> pobj option" where
  "CreateByTypeId t = (case creators t of None \<Rightarrow> None | Some x \<Rightarrow> Some x)"

text \<open>
  The static type \<^verbatim>\<open>T\<close> of the pointer that \<^verbatim>\<open>ReadPtr\<close> fills: a string, any object (the root), or one class.
  No class of the package is derived from another, so \<^verbatim>\<open>dynamic_pointer_cast\<close> succeeds exactly for the class itself.
\<close>

datatype cls = CString | CObject | COf u16

fun is_a :: "pobj \<Rightarrow> cls \<Rightarrow> bool" where
  "is_a x CString \<longleftrightarrow> GetTypeId x = 1"
| "is_a x CObject \<longleftrightarrow> GetTypeId x \<noteq> 1"
| "is_a x (COf t) \<longleftrightarrow> GetTypeId x = t \<and> GetTypeId x \<noteq> 1"

text \<open>
  The element types of the lists: \<^verbatim>\<open>List<weak_ptr<Foo>>\<close> (4), \<^verbatim>\<open>List<Monster_s>\<close> (8), \<^verbatim>\<open>List<weak_ptr<Player>>\<close> (9)
  and \<^verbatim>\<open>List<Player_s>\<close> (11).
\<close>

definition elem_cls :: "u16 \<Rightarrow> cls" where
  "elem_cls t = (if t = 4 then COf 3 else if t = 8 then COf 6 else COf 5)"

section \<open>Writing\<close>

text \<open>
  \<^verbatim>\<open>ToBBuffer\<close> of every class; \<open>wp\<close> is the \<^verbatim>\<open>WritePtr\<close> it calls for its pointers. A weak pointer is
  locked first; in the model a weak pointer to an object that has gone is null. \<^verbatim>\<open>Player\<close> leaves its token out.
\<close>

definition Player_ToBBuffer :: "(ptr \<Rightarrow> bbuffer \<Rightarrow> bbuffer option) \<Rightarrow> u32 \<Rightarrow> ptr \<Rightarrow> bbuffer \<Rightarrow> bbuffer option" where
  "Player_ToBBuffer wp i target bb = do { bb1 \<leftarrow> WriteVarS i bb; wp target bb1 }"

definition Monster_ToBBuffer :: "bbuffer \<Rightarrow> bbuffer option" where
  "Monster_ToBBuffer bb = Some bb"

definition Scene_ToBBuffer :: "(ptr \<Rightarrow> bbuffer \<Rightarrow> bbuffer option) \<Rightarrow> ptr \<Rightarrow> ptr \<Rightarrow> bbuffer \<Rightarrow> bbuffer option" where
  "Scene_ToBBuffer wp monsters players bb = do { bb1 \<leftarrow> wp monsters bb; wp players bb1 }"

definition Sync_ToBBuffer :: "(ptr \<Rightarrow> bbuffer \<Rightarrow> bbuffer option) \<Rightarrow> ptr \<Rightarrow> ptr \<Rightarrow> bbuffer \<Rightarrow> bbuffer option" where
  "Sync_ToBBuffer wp players scene bb = do { bb1 \<leftarrow> wp players bb; wp scene bb1 }"

definition Foo_ToBBuffer :: "(ptr \<Rightarrow> bbuffer \<Rightarrow> bbuffer option) \<Rightarrow> ptr \<Rightarrow> ptr \<Rightarrow> bbuffer \<Rightarrow> bbuffer option" where
  "Foo_ToBBuffer wp parent childs bb = do { bb1 \<leftarrow> wp parent bb; wp childs bb1 }"

definition PtrList_ToBBuffer :: "(ptr \<Rightarrow> bbuffer \<Rightarrow> bbuffer option) \<Rightarrow> ptr list \<Rightarrow> bbuffer \<Rightarrow> bbuffer option" where
  "PtrList_ToBBuffer wp ps bb = do {
     bb1 \<leftarrow> Reserve True 1 (sz_add (sz_add (llen bb) 5) (sz_mul (length ps) 16)) bb;
     bb2 \<leftarrow> WriteVarU (word_of_nat (length ps) :: u64) bb1;
     kfold wp ps bb2 }"

definition ToBBuffer :: "(ptr \<Rightarrow> bbuffer \<Rightarrow> bbuffer option) \<Rightarrow> pobj \<Rightarrow> bbuffer \<Rightarrow> bbuffer option" where
  "ToBBuffer wp x bb = (case x of
       OString s \<Rightarrow> String_WriteBB s bb
     | OBBuffer d \<Rightarrow> do { bb1 \<leftarrow> WriteVarU (word_of_nat (length d) :: u64) bb; AddRange True 1 d bb1 }
     | OFoo parent childs \<Rightarrow> Foo_ToBBuffer wp parent childs bb
     | OPlayer i token target \<Rightarrow> Player_ToBBuffer wp i target bb
     | OMonster \<Rightarrow> Monster_ToBBuffer bb
     | OScene monsters players \<Rightarrow> Scene_ToBBuffer wp monsters players bb
     | OSync players scene \<Rightarrow> Sync_ToBBuffer wp players scene bb
     | OList t ps \<Rightarrow> PtrList_ToBBuffer wp ps bb)"

lemma ToBBuffer_eq: "ToBBuffer wp x bb = (case x of
       OString s \<Rightarrow> String_WriteBB s bb
     | OBBuffer d \<Rightarrow> do { bb1 \<leftarrow> WriteVarU (word_of_nat (length d) :: u64) bb; AddRange True 1 d bb1 }
     | OFoo parent childs \<Rightarrow> do { bb1 \<leftarrow> wp parent bb; wp childs bb1 }
     | OPlayer i token target \<Rightarrow> do { bb1 \<leftarrow> WriteVarS i bb; wp target bb1 }
     | OMonster \<Rightarrow> Some bb
     | OScene monsters players \<Rightarrow> do { bb1 \<leftarrow> wp monsters bb; wp players bb1 }
     | OSync players scene \<Rightarrow> do { bb1 \<leftarrow> wp players bb; wp scene bb1 }
     | OList t ps \<Rightarrow> do {
         bb1 \<leftarrow> Reserve True 1 (sz_add (sz_add (llen bb) 5) (sz_mul (length ps) 16)) bb;
         bb2 \<leftarrow> WriteVarU (word_of_nat (length ps) :: u64) bb1;
         kfold wp ps bb2 })"
  by (simp add: ToBBuffer_def Player_ToBBuffer_def Monster_ToBBuffer_def Scene_ToBBuffer_def Sync_ToBBuffer_def
      Foo_ToBBuffer_def PtrList_ToBBuffer_def cong: pobj.case_cong)

text \<open>
  \<^verbatim>\<open>WritePtr\<close> remembers where each object was written and writes a reference for one it has met, so that it ends
  on cyclic graphs too. The fuel bounds the nesting of calls; that more fuel than objects is enough is
  part of the round trip.
\<close>

fun WritePtr :: "nat \<Rightarrow> heap \<Rightarrow> ptr \<Rightarrow> bbuffer \<Rightarrow> bbuffer option" where
  "WritePtr 0 h v bb = None"
| "WritePtr (Suc n) h None bb = WriteVarU (0 :: u16) bb"
| "WritePtr (Suc n) h (Some a) bb =
     (if a < length h then do {
        bb1 \<leftarrow> WriteVarU (GetTypeId (h ! a)) bb;
        (case ptrs bb1 a of
           Some offs \<Rightarrow> WriteVarU (word_of_nat offs :: u64) bb1
         | None \<Rightarrow>
             let offs = sz_sub (llen bb1) (offsetRoot bb1) in do {
             bb2 \<leftarrow> WriteVarU (word_of_nat offs :: u64) (bb1\<lparr>ptrs := (ptrs bb1)(a \<mapsto> offs)\<rparr>);
             ToBBuffer (WritePtr n h) (h ! a) bb2 }) }
      else None)"

definition WriteRoot :: "nat \<Rightarrow> heap \<Rightarrow> ptr \<Rightarrow> bbuffer \<Rightarrow> bbuffer option" where
  "WriteRoot n h v bb = (if ptrs bb = Map.empty then do {
       bb1 \<leftarrow> WritePtr n h v (bb\<lparr>offsetRoot := llen bb\<rparr>);
       Some (bb1\<lparr>ptrs := Map.empty\<rparr>) }
     else None)"

section \<open>Reading\<close>

type_synonym rptr = "cls \<Rightarrow> bbuffer \<Rightarrow> heap \<Rightarrow> (ptr rres \<times> bbuffer \<times> heap) option"
type_synonym rcode = "(int \<times> bbuffer \<times> heap) option"

text \<open>
  Reading a pointer member of the object at \<open>a\<close>. Reading may create objects in between, so the member is
  stored in the object as it then is.
\<close>

definition read_field :: "rptr \<Rightarrow> cls \<Rightarrow> (ptr \<Rightarrow> pobj \<Rightarrow> pobj) \<Rightarrow> nat \<Rightarrow> bbuffer \<Rightarrow> heap \<Rightarrow> rcode" where
  "read_field rp T upd a bb h = do {
     (r, bb1, h1) \<leftarrow> rp T bb h;
     (case r of Inl e \<Rightarrow> Some (e, bb1, h1)
      | Inr v \<Rightarrow> Some (0, bb1, h1[a := upd v (h1 ! a)])) }"

definition and_then :: "rcode \<Rightarrow> (bbuffer \<Rightarrow> heap \<Rightarrow> rcode) \<Rightarrow> rcode" where
  "and_then m f = do { (r, bb, h) \<leftarrow> m; if r \<noteq> 0 then Some (r, bb, h) else f bb h }"

fun set_fst :: "ptr \<Rightarrow> pobj \<Rightarrow> pobj" where
  "set_fst v (OFoo p c) = OFoo v c"
| "set_fst v (OScene m p) = OScene v p"
| "set_fst v (OSync p s) = OSync v s"
| "set_fst v (OPlayer i tk tg) = OPlayer i v tg"
| "set_fst v x = x"

fun set_snd :: "ptr \<Rightarrow> pobj \<Rightarrow> pobj" where
  "set_snd v (OFoo p c) = OFoo p v"
| "set_snd v (OScene m p) = OScene m v"
| "set_snd v (OSync p s) = OSync p v"
| "set_snd v (OPlayer i tk tg) = OPlayer i tk v"
| "set_snd v x = x"

fun set_elem :: "nat \<Rightarrow> ptr \<Rightarrow> pobj \<Rightarrow> pobj" where
  "set_elem i v (OList t ps) = OList t (ps[i := v])"
| "set_elem i v x = x"

fun read_items :: "rptr \<Rightarrow> cls \<Rightarrow> nat \<Rightarrow> nat \<Rightarrow> nat \<Rightarrow> bbuffer \<Rightarrow> heap \<Rightarrow> rcode" where
  "read_items rp T a i 0 bb h = Some (0, bb, h)"
| "read_items rp T a i (Suc k) bb h =
     and_then (read_field rp T (set_elem i) a bb h) (\<lambda>bb h. read_items rp T a (Suc i) k bb h)"

abbreviation no_limit :: "bbuffer \<Rightarrow> bbuffer" where
  "no_limit bb \<equiv> bb\<lparr>readLengthLimit := 0\<rparr>"

text \<open>
  \<^verbatim>\<open>FromBBuffer\<close> of every class, on the object at \<open>a\<close>; the generated code resets the length limit before every
  member that has a length. A string is not an \<^verbatim>\<open>Object\<close>, its case does not arise.
\<close>

definition Player_FromBBuffer :: "rptr \<Rightarrow> u32 \<Rightarrow> ptr \<Rightarrow> ptr \<Rightarrow> nat \<Rightarrow> bbuffer \<Rightarrow> heap \<Rightarrow> rcode" where
  "Player_FromBBuffer rp i token target a bb h = do {
     (r, bb1) \<leftarrow> ReadVarS bb;
     (case r of Inl e \<Rightarrow> Some (e, bb1, h)
      | Inr i' \<Rightarrow>
          and_then (read_field rp CString set_fst a (no_limit bb1) (h[a := OPlayer i' token target])) (\<lambda>bb h.
            read_field rp (COf 6) set_snd a bb h)) }"

definition Monster_FromBBuffer :: "bbuffer \<Rightarrow> heap \<Rightarrow> rcode" where
  "Monster_FromBBuffer bb h = Some (0, bb, h)"

definition Scene_FromBBuffer :: "rptr \<Rightarrow> nat \<Rightarrow> bbuffer \<Rightarrow> heap \<Rightarrow> rcode" where
  "Scene_FromBBuffer rp a bb h =
     and_then (read_field rp (COf 8) set_fst a (no_limit bb) h) (\<lambda>bb h.
       read_field rp (COf 9) set_snd a (no_limit bb) h)"

definition Sync_FromBBuffer :: "rptr \<Rightarrow> nat \<Rightarrow> bbuffer \<Rightarrow> heap \<Rightarrow> rcode" where
  "Sync_FromBBuffer rp a bb h =
     and_then (read_field rp (COf 11) set_fst a (no_limit bb) h) (\<lambda>bb h.
       read_field rp (COf 7) set_snd a bb h)"

definition Foo_FromBBuffer :: "rptr \<Rightarrow> nat \<Rightarrow> bbuffer \<Rightarrow> heap \<Rightarrow> rcode" where
  "Foo_FromBBuffer rp a bb h =
     and_then (read_field rp (COf 3) set_fst a bb h) (\<lambda>bb h.
       read_field rp (COf 4) set_snd a (no_limit bb) h)"

definition PtrList_FromBBuffer :: "rptr \<Rightarrow> u16 \<Rightarrow> ptr list \<Rightarrow> nat \<Rightarrow> bbuffer \<Rightarrow> heap \<Rightarrow> rcode" where
  "PtrList_FromBBuffer rp t ps a bb h = do {
     (r, bb1) \<leftarrow> read_count bb;
     (case r of Inl e \<Rightarrow> Some (e, bb1, h)
      | Inr len \<Rightarrow>
          read_items rp (elem_cls t) a 0 len bb1
            (h[a := OList t (take len ps @ replicate (len - length ps) None)])) }"

definition FromBBuffer :: "rptr \<Rightarrow> nat \<Rightarrow> bbuffer \<Rightarrow> heap \<Rightarrow> rcode" where
  "FromBBuffer rp a bb h = (case h ! a of
       OString s \<Rightarrow> None
     | OBBuffer d \<Rightarrow> do {
         (r, bb1) \<leftarrow> ReadVarU bb;
         (case r of Inl e \<Rightarrow> Some (e, bb1, h)
          | Inr (len :: u64) \<Rightarrow> do {
              (r, bb2) \<leftarrow> get_raw (- 11) (unat len) bb1;
              (case r of Inl e \<Rightarrow> Some (e, bb2, h)
               | Inr d \<Rightarrow> Some (0, bb2, h[a := OBBuffer d])) }) }
     | OFoo parent childs \<Rightarrow> Foo_FromBBuffer rp a bb h
     | OPlayer i token target \<Rightarrow> Player_FromBBuffer rp i token target a bb h
     | OMonster \<Rightarrow> Monster_FromBBuffer bb h
     | OScene monsters players \<Rightarrow> Scene_FromBBuffer rp a bb h
     | OSync players scene \<Rightarrow> Sync_FromBBuffer rp a bb h
     | OList t ps \<Rightarrow> PtrList_FromBBuffer rp t ps a bb h)"

lemma FromBBuffer_eq: "FromBBuffer rp a bb h = (case h ! a of
       OString s \<Rightarrow> None
     | OBBuffer d \<Rightarrow> do {
         (r, bb1) \<leftarrow> ReadVarU bb;
         (case r of Inl e \<Rightarrow> Some (e, bb1, h)
          | Inr (len :: u64) \<Rightarrow> do {
              (r, bb2) \<leftarrow> get_raw (- 11) (unat len) bb1;
              (case r of Inl e \<Rightarrow> Some (e, bb2, h)
               | Inr d \<Rightarrow> Some (0, bb2, h[a := OBBuffer d])) }) }
     | OFoo parent childs \<Rightarrow>
         and_then (read_field rp (COf 3) set_fst a bb h) (\<lambda>bb h.
           read_field rp (COf 4) set_snd a (no_limit bb) h)
     | OPlayer i token target \<Rightarrow> do {
         (r, bb1) \<leftarrow> ReadVarS bb;
         (case r of Inl e \<Rightarrow> Some (e, bb1, h)
          | Inr i' \<Rightarrow>
              and_then (read_field rp CString set_fst a (no_limit bb1) (h[a := OPlayer i' token target])) (\<lambda>bb h.
                read_field rp (COf 6) set_snd a bb h)) }
     | OMonster \<Rightarrow> Some (0, bb, h)
     | OScene monsters players \<Rightarrow>
         and_then (read_field rp (COf 8) set_fst a (no_limit bb) h) (\<lambda>bb h.
           read_field rp (COf 9) set_snd a (no_limit bb) h)
     | OSync players scene \<Rightarrow>
         and_then (read_field rp (COf 11) set_fst a (no_limit bb) h) (\<lambda>bb h.
           read_field rp (COf 7) set_snd a bb h)
     | OList t ps \<Rightarrow> do {
         (r, bb1) \<leftarrow> read_count bb;
         (case r of Inl e \<Rightarrow> Some (e, bb1, h)
          | Inr len \<Rightarrow>
              read_items rp (elem_cls t) a 0 len bb1
                (h[a := OList t (take len ps @ replicate (len - length ps) None)])) })"
  by (simp add: FromBBuffer_def Player_FromBBuffer_def Monster_FromBBuffer_def Scene_FromBBuffer_def Sync_FromBBuffer_def
      Foo_FromBBuffer_def PtrList_FromBBuffer_def cong: pobj.case_cong)

text \<open>
  The two branches of \<^verbatim>\<open>ReadPtr\<close>: the offset announced is the present one, so the object follows; or it is
  the offset of an object read before.
\<close>

definition make_at :: "rptr \<Rightarrow> cls \<Rightarrow> u16 \<Rightarrow> nat \<Rightarrow> bbuffer \<Rightarrow> heap \<Rightarrow> (ptr rres \<times> bbuffer \<times> heap) option" where
  "make_at rp T typeId po bb h =
     (if T = CString then do {
        (r, bb1) \<leftarrow> String_ReadBB (bb\<lparr>strIdxs := (strIdxs bb)(po \<mapsto> length h)\<rparr>);
        (case r of Inl e \<Rightarrow> Some (Inl e, bb1, h @ [OString []])
         | Inr s \<Rightarrow> Some (Inr (Some (length h)), bb1, h @ [OString s])) }
      else case (if typeId = 2 then Some (OBBuffer []) else CreateByTypeId typeId) of
        None \<Rightarrow> Some (Inl (- 3), bb, h)
      | Some x \<Rightarrow>
          if \<not> is_a x T then Some (Inl (- 4), bb, h)
          else do {
            (r, bb1, h1) \<leftarrow> FromBBuffer rp (length h) (bb\<lparr>objIdxs := (objIdxs bb)(po \<mapsto> length h)\<rparr>) (h @ [x]);
            Some (if r \<noteq> 0 then Inl r else Inr (Some (length h)), bb1, h1) })"

definition find_at :: "cls \<Rightarrow> u16 \<Rightarrow> nat \<Rightarrow> bbuffer \<Rightarrow> heap \<Rightarrow> ptr rres" where
  "find_at T typeId po bb h =
     (if T = CString then (case strIdxs bb po of None \<Rightarrow> Inl (- 5) | Some a \<Rightarrow> Inr (Some a))
      else case objIdxs bb po of
        None \<Rightarrow> Inl (- 6)
      | Some a \<Rightarrow>
          if GetTypeId (h ! a) \<noteq> typeId then Inl (- 7)
          else if \<not> is_a (h ! a) T then Inl (- 8)
          else Inr (Some a))"

fun ReadPtr :: "nat \<Rightarrow> rptr" where
  "ReadPtr 0 T bb h = None"
| "ReadPtr (Suc n) T bb h = do {
     (r, bb1) \<leftarrow> ReadVarU bb;
     (case r of Inl e \<Rightarrow> Some (Inl e, bb1, h)
      | Inr (typeId :: u16) \<Rightarrow>
        if typeId = 0 then Some (Inr None, bb1, h)
        else if T = CString \<and> typeId \<noteq> 1 then Some (Inl (- 1), bb1, h)
        else if T \<noteq> CString \<and> typeId < 2 then Some (Inl (- 2), bb1, h)
        else if typeId > 2 \<and> creators typeId = None then Some (Inl (- 3), bb1, h)
        else do {
          (r, bb2) \<leftarrow> ReadVarU bb1;
          (case r of Inl e \<Rightarrow> Some (Inl e, bb2, h)
           | Inr (ptrOffset :: u64) \<Rightarrow>
             if unat ptrOffset = sz_sub (offset bb1) (offsetRoot bb1)
             then make_at (ReadPtr n) T typeId (unat ptrOffset) bb2 h
             else Some (find_at T typeId (unat ptrOffset) bb2 h, bb2, h)) }) }"

definition ReadRoot :: "nat \<Rightarrow> bbuffer \<Rightarrow> heap \<Rightarrow> (ptr rres \<times> bbuffer \<times> heap) option" where
  "ReadRoot n bb h = (if objIdxs bb = Map.empty \<and> strIdxs bb = Map.empty then do {
       (r, bb1, h1) \<leftarrow> ReadPtr n CObject (bb\<lparr>offsetRoot := offset bb\<rparr>) h;
       Some (r, bb1\<lparr>objIdxs := Map.empty, strIdxs := Map.empty\<rparr>, h1) }
     else None)"

section \<open>Typed heaps\<close>

text \<open>
  A heap is typed when every member points to nothing or to an object of the class its declaration names.
\<close>

definition ptr_ok :: "heap \<Rightarrow> cls \<Rightarrow> ptr \<Rightarrow> bool" where
  "ptr_ok h T v \<longleftrightarrow> (case v of None \<Rightarrow> True | Some a \<Rightarrow> a < length h \<and> is_a (h ! a) T)"

fun obj_ok :: "heap \<Rightarrow> pobj \<Rightarrow> bool" where
  "obj_ok h (OString s) \<longleftrightarrow> True"
| "obj_ok h (OBBuffer d) \<longleftrightarrow> True"
| "obj_ok h (OFoo parent childs) \<longleftrightarrow> ptr_ok h (COf 3) parent \<and> ptr_ok h (COf 4) childs"
| "obj_ok h (OPlayer i token target) \<longleftrightarrow> ptr_ok h CString token \<and> ptr_ok h (COf 6) target"
| "obj_ok h OMonster \<longleftrightarrow> True"
| "obj_ok h (OScene monsters players) \<longleftrightarrow> ptr_ok h (COf 8) monsters \<and> ptr_ok h (COf 9) players"
| "obj_ok h (OSync players scene) \<longleftrightarrow> ptr_ok h (COf 11) players \<and> ptr_ok h (COf 7) scene"
| "obj_ok h (OList t ps) \<longleftrightarrow> (t = 4 \<or> t = 8 \<or> t = 9 \<or> t = 11) \<and> (\<forall>v \<in> set ps. ptr_ok h (elem_cls t) v)"

definition heap_ok :: "heap \<Rightarrow> bool" where
  "heap_ok h \<longleftrightarrow> (\<forall>x \<in> set h. obj_ok h x)"

definition grows :: "heap \<Rightarrow> heap \<Rightarrow> bool" where
  "grows h h' \<longleftrightarrow> length h \<le> length h' \<and> (\<forall>i < length h. GetTypeId (h' ! i) = GetTypeId (h ! i))"

definition indexed :: "bbuffer \<Rightarrow> heap \<Rightarrow> bool" where
  "indexed bb h \<longleftrightarrow> heap_ok h \<and>
     (\<forall>i a. objIdxs bb i = Some a \<longrightarrow> a < length h \<and> GetTypeId (h ! a) \<noteq> 1) \<and>
     (\<forall>i a. strIdxs bb i = Some a \<longrightarrow> a < length h \<and> GetTypeId (h ! a) = 1)"

lemma grows_refl [simp]: "grows h h"
  by (simp add: grows_def)

lemma grows_trans: "grows h h1 \<Longrightarrow> grows h1 h2 \<Longrightarrow> grows h h2"
  by (auto simp: grows_def)

lemma grows_snoc [simp]: "grows h (h @ xs)"
  by (simp add: grows_def nth_append)

lemma type_update: "GetTypeId x = GetTypeId (h ! a) \<Longrightarrow> GetTypeId (h[a := x] ! i) = GetTypeId (h ! i)"
  by (cases "a < length h") (auto simp: nth_list_update list_update_beyond)

lemma grows_update: "GetTypeId x = GetTypeId (h ! a) \<Longrightarrow> grows h (h[a := x])"
  by (simp add: grows_def type_update)

lemma is_a_type: "GetTypeId x = GetTypeId y \<Longrightarrow> is_a x T = is_a y T"
  by (cases T) auto

lemma ptr_ok_grows: "ptr_ok h T v \<Longrightarrow> grows h h' \<Longrightarrow> ptr_ok h' T v"
  by (auto simp: ptr_ok_def grows_def split: option.splits dest: is_a_type [where T = T])

lemma obj_ok_grows: "obj_ok h x \<Longrightarrow> grows h h' \<Longrightarrow> obj_ok h' x"
  by (cases x) (auto intro: ptr_ok_grows)

lemma heap_ok_snoc: "heap_ok h \<Longrightarrow> obj_ok (h @ [x]) x \<Longrightarrow> heap_ok (h @ [x])"
  by (auto simp: heap_ok_def intro: obj_ok_grows)

lemma heap_ok_update:
  assumes "heap_ok h" "obj_ok h x" "GetTypeId x = GetTypeId (h ! a)"
  shows "heap_ok (h[a := x])"
proof -
  have "grows h (h[a := x])" using assms(3) by (rule grows_update)
  then show ?thesis using assms(1,2) set_update_subset_insert [of h a x]
    by (auto simp: heap_ok_def intro: obj_ok_grows)
qed

lemma indexed_update:
  "indexed bb h \<Longrightarrow> obj_ok h x \<Longrightarrow> GetTypeId x = GetTypeId (h ! a) \<Longrightarrow> indexed bb (h[a := x])"
  by (auto simp: indexed_def heap_ok_update type_update)

lemma indexed_frame [simp]:
  "indexed (bb\<lparr>offset := k\<rparr>) h = indexed bb h" "indexed (bb\<lparr>readLengthLimit := k\<rparr>) h = indexed bb h"
  "indexed (bb\<lparr>offsetRoot := k\<rparr>) h = indexed bb h"
  by (simp_all add: indexed_def)

lemma creators_ok: "creators t = Some x \<Longrightarrow> GetTypeId x = t \<and> obj_ok h x \<and> t \<noteq> 1 \<and> t \<noteq> 2"
  by (auto simp: creators_def ptr_ok_def split: if_splits)

section \<open>The readers only move the offset\<close>

definition moved :: "bbuffer \<Rightarrow> bbuffer \<Rightarrow> bool" where
  "moved bb bb' \<longleftrightarrow> bb'\<lparr>offset := 0\<rparr> = bb\<lparr>offset := 0\<rparr>"

lemma moved_refl [simp]: "moved bb bb" and moved_offset [simp]: "moved bb (bb\<lparr>offset := k\<rparr>)"
  by (simp_all add: moved_def)

lemma moved_trans: "moved bb bb1 \<Longrightarrow> moved bb1 bb2 \<Longrightarrow> moved bb bb2"
  by (simp add: moved_def)

lemma movedD:
  assumes "moved bb bb'"
  shows "objIdxs bb' = objIdxs bb" "strIdxs bb' = strIdxs bb" "offsetRoot bb' = offsetRoot bb"
    "readLengthLimit bb' = readLengthLimit bb"
  using assms by (cases bb; cases bb'; simp add: moved_def)+

lemma indexed_moved: "moved bb bb' \<Longrightarrow> indexed bb h \<Longrightarrow> indexed bb' h"
  by (simp add: indexed_def movedD)

lemma var_get_moved: "var_get shift u bb = Some (r, bb') \<Longrightarrow> moved bb bb'"
proof (induction shift u bb rule: var_get.induct)
  case (1 shift u bb)
  show ?case
  proof (cases "shift < LENGTH('a) \<and> offset bb \<noteq> llen bb")
    case False
    then show ?thesis using "1.prems" by (subst (asm) var_get.simps) (auto split: if_splits)
  next
    case True
    let ?bb = "bb\<lparr>offset := offset bb + 1\<rparr>"
    from True "1.prems" obtain b where b: "rd_blk (lbuf bb) (offset bb) = Some b" "\<not> 32 \<le> shift"
      by (subst (asm) var_get.simps) (auto simp: bind_Some_iff Let_def split: if_splits)
    let ?u = "u OR ucast (push_bit shift (ucast (b AND 0x7F) :: u32))"
    from True "1.prems" b have "(if b AND 0x80 = 0 then Some (Inr ?u, ?bb) else var_get (shift + 7) ?u ?bb) = Some (r, bb')"
      by (subst (asm) var_get.simps) (simp add: Let_def split: if_splits)
    then show ?thesis
      using "1.IH" [OF _ _ b(1) refl b(2) refl] True by (auto simp: moved_def split: if_splits)
  qed
qed

lemma ReadVarU_moved: "ReadVarU bb = Some (r, bb') \<Longrightarrow> moved bb bb'"
  unfolding ReadVarU_def by (rule var_get_moved)

lemma ReadVarS_moved: "ReadVarS bb = Some (r, bb') \<Longrightarrow> moved bb bb'"
  unfolding ReadVarS_def by (auto simp: bind_Some_iff dest: var_get_moved)

lemma get_raw_moved: "get_raw c n bb = Some (r, bb') \<Longrightarrow> moved bb bb'"
  by (auto simp: get_raw_def bind_Some_iff split: if_splits)

lemma String_ReadBB_moved:
  assumes "String_ReadBB bb = Some (r, bb')"
  shows "moved bb bb'"
proof -
  obtain r1 bb1 where 1: "(ReadVarU bb :: (u64 rres \<times> bbuffer) option) = Some (r1, bb1)"
    using assms by (auto simp: String_ReadBB_def bind_Some_iff)
  from ReadVarU_moved [OF this] have "moved bb1 bb' \<Longrightarrow> ?thesis" by (rule moved_trans)
  with 1 assms show ?thesis
    by (cases r1) (auto simp: String_ReadBB_def Let_def bind_Some_iff split: if_splits)
qed

lemma read_count_moved:
  assumes "read_count bb = Some (r, bb')"
  shows "moved bb bb'"
proof -
  obtain r1 bb1 where 1: "(ReadVarU bb :: (u64 rres \<times> bbuffer) option) = Some (r1, bb1)"
    using assms by (auto simp: read_count_def bind_Some_iff)
  from ReadVarU_moved [OF this] 1 assms show ?thesis
    by (cases r1) (auto simp: read_count_def Let_def split: if_splits)
qed

lemmas reader_moved = ReadVarU_moved ReadVarS_moved get_raw_moved String_ReadBB_moved read_count_moved

section \<open>Reading keeps the heap typed\<close>

definition kept :: "heap \<Rightarrow> bbuffer \<Rightarrow> heap \<Rightarrow> bool" where
  "kept h bb' h' \<longleftrightarrow> indexed bb' h' \<and> grows h h'"

definition rp_ok :: "rptr \<Rightarrow> bool" where
  "rp_ok rp \<longleftrightarrow> (\<forall>T bb h r bb' h'. rp T bb h = Some (r, bb', h') \<longrightarrow> indexed bb h \<longrightarrow>
     kept h bb' h' \<and> (\<forall>v. r = Inr v \<longrightarrow> ptr_ok h' T v))"

lemma kept_trans: "kept h bb1 h1 \<Longrightarrow> kept h1 bb2 h2 \<Longrightarrow> kept h bb2 h2"
  by (auto simp: kept_def intro: grows_trans)

lemma kept_frame [simp]:
  "kept h (bb\<lparr>offset := k\<rparr>) h' = kept h bb h'" "kept h (bb\<lparr>readLengthLimit := k\<rparr>) h' = kept h bb h'"
  by (simp_all add: kept_def)

lemma kept_moved: "moved bb bb' \<Longrightarrow> indexed bb h \<Longrightarrow> kept h bb' h"
  by (simp add: kept_def indexed_moved)

lemma read_field_kept:
  assumes rp: "rp_ok rp" and r: "read_field rp T upd a bb h = Some (r, bb', h')" and i: "indexed bb h" and a: "a < length h"
    and upd: "\<And>h1 v. heap_ok h1 \<Longrightarrow> GetTypeId (h1 ! a) = GetTypeId (h ! a) \<Longrightarrow> obj_ok h1 (h1 ! a) \<Longrightarrow> ptr_ok h1 T v \<Longrightarrow>
        obj_ok h1 (upd v (h1 ! a)) \<and> GetTypeId (upd v (h1 ! a)) = GetTypeId (h1 ! a)"
  shows "kept h bb' h'"
proof -
  obtain r1 bb1 h1 where 1: "rp T bb h = Some (r1, bb1, h1)" using r by (auto simp: read_field_def bind_Some_iff)
  from rp 1 i have k: "kept h bb1 h1" and v: "\<And>v. r1 = Inr v \<Longrightarrow> ptr_ok h1 T v"
    unfolding rp_ok_def by blast+
  show ?thesis
  proof (cases r1)
    case (Inl e)
    with 1 r k show ?thesis by (simp add: read_field_def)
  next
    case (Inr w)
    with 1 r have e: "bb' = bb1" "h' = h1[a := upd w (h1 ! a)]" by (simp_all add: read_field_def)
    have i1: "indexed bb1 h1" and g: "grows h h1" using k by (auto simp: kept_def)
    have "a < length h1" "GetTypeId (h1 ! a) = GetTypeId (h ! a)" using g a by (auto simp: grows_def)
    with upd [of h1 w] v [OF Inr] i1 have u: "obj_ok h1 (upd w (h1 ! a))" "GetTypeId (upd w (h1 ! a)) = GetTypeId (h1 ! a)"
      by (auto simp: indexed_def heap_ok_def)
    show ?thesis unfolding e kept_def
      using indexed_update [OF i1 u] grows_trans [OF g grows_update [OF u(2)]] by simp
  qed
qed

lemma and_then_kept:
  assumes "and_then m f = Some (r, bb', h')" "\<And>r1 bb1 h1. m = Some (r1, bb1, h1) \<Longrightarrow> kept h bb1 h1"
    and "\<And>bb1 h1. f bb1 h1 = Some (r, bb', h') \<Longrightarrow> indexed bb1 h1 \<Longrightarrow> grows h h1 \<Longrightarrow> kept h1 bb' h'"
  shows "kept h bb' h'"
proof -
  obtain r1 bb1 h1 where m: "m = Some (r1, bb1, h1)" using assms(1) by (auto simp: and_then_def bind_Some_iff)
  have k: "kept h bb1 h1" by (rule assms(2) [OF m])
  show ?thesis
  proof (cases "r1 = 0")
    case True
    then have "f bb1 h1 = Some (r, bb', h')" using assms(1) m by (simp add: and_then_def)
    from assms(3) [OF this] k show ?thesis by (auto simp: kept_def intro: grows_trans)
  next
    case False
    then show ?thesis using assms(1) m k by (simp add: and_then_def)
  qed
qed

lemma set_fst_ok:
  "obj_ok h x \<Longrightarrow> GetTypeId x = 3 \<Longrightarrow> ptr_ok h (COf 3) v \<Longrightarrow> obj_ok h (set_fst v x) \<and> GetTypeId (set_fst v x) = GetTypeId x"
  "obj_ok h x \<Longrightarrow> GetTypeId x = 7 \<Longrightarrow> ptr_ok h (COf 8) v \<Longrightarrow> obj_ok h (set_fst v x) \<and> GetTypeId (set_fst v x) = GetTypeId x"
  "obj_ok h x \<Longrightarrow> GetTypeId x = 10 \<Longrightarrow> ptr_ok h (COf 11) v \<Longrightarrow> obj_ok h (set_fst v x) \<and> GetTypeId (set_fst v x) = GetTypeId x"
  "obj_ok h x \<Longrightarrow> GetTypeId x = 5 \<Longrightarrow> ptr_ok h CString v \<Longrightarrow> obj_ok h (set_fst v x) \<and> GetTypeId (set_fst v x) = GetTypeId x"
  by (cases x; auto)+

lemma set_snd_ok:
  "obj_ok h x \<Longrightarrow> GetTypeId x = 3 \<Longrightarrow> ptr_ok h (COf 4) v \<Longrightarrow> obj_ok h (set_snd v x) \<and> GetTypeId (set_snd v x) = GetTypeId x"
  "obj_ok h x \<Longrightarrow> GetTypeId x = 7 \<Longrightarrow> ptr_ok h (COf 9) v \<Longrightarrow> obj_ok h (set_snd v x) \<and> GetTypeId (set_snd v x) = GetTypeId x"
  "obj_ok h x \<Longrightarrow> GetTypeId x = 10 \<Longrightarrow> ptr_ok h (COf 7) v \<Longrightarrow> obj_ok h (set_snd v x) \<and> GetTypeId (set_snd v x) = GetTypeId x"
  "obj_ok h x \<Longrightarrow> GetTypeId x = 5 \<Longrightarrow> ptr_ok h (COf 6) v \<Longrightarrow> obj_ok h (set_snd v x) \<and> GetTypeId (set_snd v x) = GetTypeId x"
  by (cases x; auto)+

lemma set_elem_ok:
  "obj_ok h x \<Longrightarrow> GetTypeId x = t \<Longrightarrow> ptr_ok h (elem_cls t) v \<Longrightarrow> obj_ok h (set_elem i v x) \<and> GetTypeId (set_elem i v x) = GetTypeId x"
  by (cases x) (auto dest!: set_update_subset_insert [THEN subsetD])

lemma two_fields_kept:
  assumes rp: "rp_ok rp" and i: "indexed bb h" and a: "a < length h"
    and r: "and_then (read_field rp T1 set_fst a (g bb) h) (\<lambda>bb h. read_field rp T2 set_snd a (f bb) h) = Some (r, bb', h')"
    and frame: "\<And>bb h. indexed (g bb) h = indexed bb h" "\<And>bb h. indexed (f bb) h = indexed bb h"
    and 1: "\<And>h1 x v. obj_ok h1 x \<Longrightarrow> GetTypeId x = GetTypeId (h ! a) \<Longrightarrow> ptr_ok h1 T1 v \<Longrightarrow>
        obj_ok h1 (set_fst v x) \<and> GetTypeId (set_fst v x) = GetTypeId x"
    and 2: "\<And>h1 x v. obj_ok h1 x \<Longrightarrow> GetTypeId x = GetTypeId (h ! a) \<Longrightarrow> ptr_ok h1 T2 v \<Longrightarrow>
        obj_ok h1 (set_snd v x) \<and> GetTypeId (set_snd v x) = GetTypeId x"
  shows "kept h bb' h'"
  using r
proof (rule and_then_kept)
  show "kept h bb1 h1" if "read_field rp T1 set_fst a (g bb) h = Some (r1, bb1, h1)" for r1 bb1 h1
    by (rule read_field_kept [OF rp that]) (use i a 1 frame in auto)
  show "kept h1 bb' h'" if f: "read_field rp T2 set_snd a (f bb1) h1 = Some (r, bb', h')"
    and i1: "indexed bb1 h1" and g: "grows h h1" for bb1 h1
    by (rule read_field_kept [OF rp f]) (use i1 g a 2 frame in \<open>auto simp: grows_def\<close>)
qed

lemma read_items_kept:
  assumes rp: "rp_ok rp"
  shows "read_items rp (elem_cls t) a i k bb h = Some (r, bb', h') \<Longrightarrow> indexed bb h \<Longrightarrow> a < length h \<Longrightarrow>
     GetTypeId (h ! a) = t \<Longrightarrow> kept h bb' h'"
proof (induction k arbitrary: i bb h)
  case 0
  then show ?case by (simp add: kept_def)
next
  case (Suc k)
  from Suc.prems(1) [unfolded read_items.simps] show ?case
  proof (rule and_then_kept)
    show "kept h bb1 h1" if "read_field rp (elem_cls t) (set_elem i) a bb h = Some (r1, bb1, h1)" for r1 bb1 h1
      by (rule read_field_kept [OF rp that]) (use Suc.prems set_elem_ok in auto)
    show "kept h1 bb' h'" if "read_items rp (elem_cls t) a (Suc i) k bb1 h1 = Some (r, bb', h')"
      "indexed bb1 h1" "grows h h1" for bb1 h1
      by (rule Suc.IH [OF that(1,2)]) (use that(3) Suc.prems in \<open>auto simp: grows_def\<close>)
  qed
qed

lemma FromBBuffer_kept:
  assumes rp: "rp_ok rp" and r: "FromBBuffer rp a bb h = Some (r, bb', h')" and i: "indexed bb h" and a: "a < length h"
  shows "kept h bb' h'"
proof -
  have ok: "obj_ok h (h ! a)" using i a by (simp add: indexed_def heap_ok_def)
  have self: "kept h bb h" using i by (simp add: kept_def)
  show ?thesis
  proof (cases "h ! a")
    case (OString s)
    then show ?thesis using r by (simp add: FromBBuffer_eq)
  next
    case (OBBuffer d)
    obtain r1 bb1 where 1: "(ReadVarU bb :: (u64 rres \<times> bbuffer) option) = Some (r1, bb1)"
      using r OBBuffer by (auto simp: FromBBuffer_eq bind_Some_iff)
    note k1 = kept_moved [OF ReadVarU_moved [OF 1] i]
    show ?thesis
    proof (cases r1)
      case (Inl e)
      then show ?thesis using r OBBuffer 1 k1 by (simp add: FromBBuffer_eq)
    next
      case (Inr len)
      obtain r2 bb2 where 2: "get_raw (- 11) (unat len) bb1 = Some (r2, bb2)"
        using r OBBuffer 1 Inr by (auto simp: FromBBuffer_eq bind_Some_iff)
      have i2: "indexed bb2 h" using k1 indexed_moved [OF get_raw_moved [OF 2]] by (simp add: kept_def)
      have "kept h bb2 (h[a := OBBuffer d'])" for d'
        using indexed_update [OF i2, of "OBBuffer d'" a] OBBuffer by (simp add: kept_def grows_update)
      then show ?thesis using r OBBuffer 1 Inr 2 i2 by (cases r2) (auto simp: FromBBuffer_eq kept_def)
    qed
  next
    case (OFoo p c)
    with r show ?thesis
      by (intro two_fields_kept [OF rp i a, where g = id and f = no_limit and ?T1.0 = "COf 3" and ?T2.0 = "COf 4"])
        (simp_all add: FromBBuffer_eq set_fst_ok set_snd_ok)
  next
    case (OPlayer j tk tg)
    obtain r1 bb1 where 1: "(ReadVarS bb :: (u32 rres \<times> bbuffer) option) = Some (r1, bb1)"
      using r OPlayer by (auto simp: FromBBuffer_eq bind_Some_iff)
    note k1 = kept_moved [OF ReadVarS_moved [OF 1] i]
    show ?thesis
    proof (cases r1)
      case (Inl e)
      then show ?thesis using r OPlayer 1 k1 by (simp add: FromBBuffer_eq)
    next
      case (Inr i')
      let ?h = "h[a := OPlayer i' tk tg]"
      have i1: "indexed bb1 ?h" using k1 ok OPlayer by (intro indexed_update) (auto simp: kept_def)
      have "kept ?h bb' h'"
        by (rule two_fields_kept [OF rp i1, where g = no_limit and f = id and ?T1.0 = CString and ?T2.0 = "COf 6" and a = a])
          (use r OPlayer 1 Inr a in \<open>simp_all add: FromBBuffer_eq set_fst_ok set_snd_ok\<close>)
      moreover have "grows h ?h" using OPlayer by (simp add: grows_update)
      ultimately show ?thesis by (auto simp: kept_def intro: grows_trans)
    qed
  next
    case OMonster
    then show ?thesis using r self by (simp add: FromBBuffer_eq)
  next
    case (OScene m p)
    with r show ?thesis
      by (intro two_fields_kept [OF rp i a, where g = no_limit and f = no_limit and ?T1.0 = "COf 8" and ?T2.0 = "COf 9"])
        (simp_all add: FromBBuffer_eq set_fst_ok set_snd_ok)
  next
    case (OSync p s)
    with r show ?thesis
      by (intro two_fields_kept [OF rp i a, where g = no_limit and f = id and ?T1.0 = "COf 11" and ?T2.0 = "COf 7"])
        (simp_all add: FromBBuffer_eq set_fst_ok set_snd_ok)
  next
    case (OList t ps)
    obtain r1 bb1 where 1: "read_count bb = Some (r1, bb1)" using r OList by (auto simp: FromBBuffer_eq bind_Some_iff)
    note k1 = kept_moved [OF read_count_moved [OF 1] i]
    show ?thesis
    proof (cases r1)
      case (Inl e)
      then show ?thesis using r OList 1 k1 by (simp add: FromBBuffer_eq)
    next
      case (Inr len)
      let ?h = "h[a := OList t (take len ps @ replicate (len - length ps) None)]"
      have "obj_ok h (OList t (take len ps @ replicate (len - length ps) None))"
        using ok OList by (auto simp: ptr_ok_def dest: in_set_takeD)
      then have i1: "indexed bb1 ?h" using k1 OList by (intro indexed_update) (auto simp: kept_def)
      have "kept ?h bb' h'"
        by (rule read_items_kept [OF rp, of t a 0 len bb1 ?h r])
          (use r OList 1 Inr a i1 in \<open>auto simp: FromBBuffer_eq\<close>)
      moreover have "grows h ?h" using OList by (simp add: grows_update)
      ultimately show ?thesis by (auto simp: kept_def intro: grows_trans)
    qed
  qed
qed

lemma make_at_ok:
  assumes rp: "rp_ok rp" and r: "make_at rp T typeId po bb h = Some (r, bb', h')" and i: "indexed bb h"
  shows "kept h bb' h' \<and> (\<forall>v. r = Inr v \<longrightarrow> ptr_ok h' T v)"
proof (cases "T = CString")
  case True
  let ?bb = "bb\<lparr>strIdxs := (strIdxs bb)(po \<mapsto> length h)\<rparr>"
  have i1: "indexed ?bb (h @ [OString s])" for s
    using i by (auto simp: indexed_def heap_ok_snoc nth_append intro: less_SucI)
  obtain r1 bb1 where 1: "String_ReadBB ?bb = Some (r1, bb1)" using r True by (auto simp: make_at_def bind_Some_iff)
  have "kept h bb1 (h @ [OString s])" for s
    using indexed_moved [OF String_ReadBB_moved [OF 1] i1] by (simp add: kept_def)
  with r True 1 show ?thesis by (cases r1) (auto simp: make_at_def ptr_ok_def)
next
  case False
  define mk where "mk = (if typeId = 2 then Some (OBBuffer []) else CreateByTypeId typeId)"
  have m: "make_at rp T typeId po bb h = (case mk of None \<Rightarrow> Some (Inl (- 3), bb, h)
      | Some x \<Rightarrow> if \<not> is_a x T then Some (Inl (- 4), bb, h)
          else do {
            (r, bb1, h1) \<leftarrow> FromBBuffer rp (length h) (bb\<lparr>objIdxs := (objIdxs bb)(po \<mapsto> length h)\<rparr>) (h @ [x]);
            Some (if r \<noteq> 0 then Inl r else Inr (Some (length h)), bb1, h1) })"
    using False by (simp add: make_at_def mk_def)
  have self: "kept h bb h" using i by (simp add: kept_def)
  show ?thesis
  proof (cases "\<exists>x. mk = Some x \<and> is_a x T")
    case False
    with r m self show ?thesis by (auto split: option.splits if_splits)
  next
    case True
    then obtain x where x: "mk = Some x" "is_a x T" by blast
    let ?bb = "bb\<lparr>objIdxs := (objIdxs bb)(po \<mapsto> length h)\<rparr>"
    obtain c where f: "FromBBuffer rp (length h) ?bb (h @ [x]) = Some (c, bb', h')"
        and c: "r = (if c \<noteq> 0 then Inl c else Inr (Some (length h)))"
      using r m x by (auto simp: bind_Some_iff)
    have "obj_ok (h @ [x]) x \<and> GetTypeId x \<noteq> 1"
      using x(1) creators_ok [of typeId x] by (auto simp: mk_def CreateByTypeId_def split: if_splits option.splits)
    then have i1: "indexed ?bb (h @ [x])" using i by (auto simp: indexed_def heap_ok_snoc nth_append intro: less_SucI)
    from FromBBuffer_kept [OF rp f i1] have k: "kept (h @ [x]) bb' h'" by simp
    then have g: "grows (h @ [x]) h'" by (simp add: kept_def)
    then have "length h < length h'" "GetTypeId (h' ! length h) = GetTypeId x" by (auto simp: grows_def)
    then have "ptr_ok h' T (Some (length h))" using x(2) is_a_type [of "h' ! length h" x T] by (simp add: ptr_ok_def)
    then show ?thesis using k c grows_trans [OF grows_snoc g] by (auto simp: kept_def)
  qed
qed

lemma find_at_ok: "indexed bb h \<Longrightarrow> find_at T typeId po bb h = Inr v \<Longrightarrow> ptr_ok h T v"
  by (auto simp: find_at_def indexed_def ptr_ok_def split: if_splits option.splits)

lemma ReadPtr_ok: "rp_ok (ReadPtr n)"
proof (induction n)
  case 0
  show ?case by (simp add: rp_ok_def)
next
  case (Suc n)
  have "kept h bb' h' \<and> (\<forall>v. r = Inr v \<longrightarrow> ptr_ok h' T v)"
    if r: "ReadPtr (Suc n) T bb h = Some (r, bb', h')" and i: "indexed bb h" for T bb h r bb' h'
  proof -
    obtain r1 bb1 where 1: "(ReadVarU bb :: (u16 rres \<times> bbuffer) option) = Some (r1, bb1)"
      using r by (auto simp: bind_Some_iff)
    have i1: "indexed bb1 h" by (rule indexed_moved [OF ReadVarU_moved [OF 1] i])
    then have k1: "kept h bb1 h" by (simp add: kept_def)
    show ?thesis
    proof (cases "\<exists>t. r1 = Inr t \<and> t \<noteq> 0 \<and> \<not> (T = CString \<and> t \<noteq> 1) \<and> \<not> (T \<noteq> CString \<and> t < 2) \<and>
        \<not> (t > 2 \<and> creators t = None)")
      case False
      then show ?thesis using r 1 k1 by (auto simp: ptr_ok_def split: sum.splits if_splits)
    next
      case True
      then obtain t where t: "r1 = Inr t" "t \<noteq> 0" "\<not> (T = CString \<and> t \<noteq> 1)" "\<not> (T \<noteq> CString \<and> t < 2)"
        "\<not> (t > 2 \<and> creators t = None)" by blast
      obtain r2 bb2 where 2: "(ReadVarU bb1 :: (u64 rres \<times> bbuffer) option) = Some (r2, bb2)"
        using r 1 t by (auto simp: bind_Some_iff split: if_splits)
      have i2: "indexed bb2 h" by (rule indexed_moved [OF ReadVarU_moved [OF 2] i1])
      then have k2: "kept h bb2 h" by (simp add: kept_def)
      show ?thesis
      proof (cases r2)
        case (Inl e)
        then show ?thesis using r 1 t 2 k2 by (auto split: if_splits)
      next
        case (Inr po)
        show ?thesis
        proof (cases "unat po = sz_sub (offset bb1) (offsetRoot bb1)")
          case True
          with r 1 t 2 Inr have "make_at (ReadPtr n) T t (unat po) bb2 h = Some (r, bb', h')"
            by (simp split: if_splits)
          then show ?thesis by (rule make_at_ok [OF Suc.IH _ i2])
        next
          case False
          with r 1 t 2 Inr have "r = find_at T t (unat po) bb2 h" "bb' = bb2" "h' = h"
            by (auto split: if_splits)
          then show ?thesis using k2 find_at_ok [OF i2] by metis
        qed
      qed
    qed
  qed
  then show ?case unfolding rp_ok_def by blast
qed

lemma ReadRoot_kept:
  assumes "ReadRoot n bb [] = Some (Inr v, bb', h)"
  shows "heap_ok h \<and> ptr_ok h CObject v \<and> objIdxs bb' = Map.empty \<and> strIdxs bb' = Map.empty"
proof -
  obtain bb1 where 1: "objIdxs bb = Map.empty" "strIdxs bb = Map.empty"
      "ReadPtr n CObject (bb\<lparr>offsetRoot := offset bb\<rparr>) [] = Some (Inr v, bb1, h)"
      "bb' = bb1\<lparr>objIdxs := Map.empty, strIdxs := Map.empty\<rparr>"
    using assms by (auto simp: ReadRoot_def bind_Some_iff split: if_splits)
  have "indexed (bb\<lparr>offsetRoot := offset bb\<rparr>) []" using 1 by (simp add: indexed_def heap_ok_def)
  with ReadPtr_ok [of n] 1(3) have "kept [] bb1 h" "ptr_ok h CObject v" unfolding rp_ok_def by blast+
  with 1(4) show ?thesis by (simp add: kept_def indexed_def)
qed

text \<open>
  C14: whatever bytes \<^verbatim>\<open>ReadRoot\<close> is given, from a well-behaved peer or not, when it reports success the
  objects it has built are well typed: every member of every object is null or points to an object of
  the class it is declared with, and so does the root; the tables of offsets are empty again.
\<close>

theorem ReadRoot_typed:
  assumes "ReadRoot n bb [] = Some (Inr v, bb', h)"
  shows "heap_ok h \<and> ptr_ok h CObject v \<and> objIdxs bb' = Map.empty \<and> strIdxs bb' = Map.empty"
  by (rule ReadRoot_kept [OF assms])

lemma ReadVarU_byte:
  assumes "rd_blk (lbuf bb) (offset bb) = Some b" "offset bb \<noteq> llen bb" "b AND 0x80 = 0" "b AND 0x7F = b"
  shows "(ReadVarU bb :: ('w::len word rres \<times> bbuffer) option) = Some (Inr (ucast (ucast b :: u32)), bb\<lparr>offset := offset bb + 1\<rparr>)"
  using assms unfolding ReadVarU_def by (subst var_get.simps) simp

text \<open>The five bytes of an object that points to itself.\<close>

theorem ReadRoot_typed_witness:
  "\<exists>bb'. ReadRoot 2 (BBuffer_new\<lparr>lbuf := Some (map Some [3, 1, 3, 1, 0]), llen := 5\<rparr>) []
        = Some (Inr (Some 0), bb', [OFoo (Some 0) None]) \<and> heap_ok [OFoo (Some 0) None]"
proof -
  let ?B = "BBuffer_new\<lparr>lbuf := Some (map Some [3, 1, 3, 1, 0]), llen := 5\<rparr>"
  define B where "B m k = \<lparr>lbuf = Some (map Some [3, 1, 3, 1, 0 :: u8]), lcap = 0, llen = 5, offset = k, offsetRoot = 0,
      readLengthLimit = 0, ptrs = Map.empty, objIdxs = m, strIdxs = Map.empty\<rparr>" for m k
  have B: "offset (B m k) = k" "offsetRoot (B m k) = 0" "objIdxs (B m k) = m" "(B m k)\<lparr>objIdxs := m'\<rparr> = B m' k"
      "no_limit (B m k) = B m k" "?B\<lparr>offsetRoot := offset ?B\<rparr> = B Map.empty 0" for m m' k
    by (simp_all add: B_def BBuffer_new_def)
  have small: "\<forall>b \<in> set [3, 1, 3, 1, 0 :: u8]. b AND 0x80 = 0 \<and> b AND 0x7F = b" by simp
  have byte: "rd_blk (lbuf (B m k)) (offset (B m k)) = Some ([3, 1, 3, 1, 0] ! k)" "offset (B m k) \<noteq> llen (B m k)"
      "([3, 1, 3, 1, 0] ! k) AND 0x80 = (0 :: u8)" "([3, 1, 3, 1, 0] ! k) AND 0x7F = ([3, 1, 3, 1, 0] ! k :: u8)" if "k < 5" for m k
    using that nth_mem [of k "[3, 1, 3, 1, 0 :: u8]"] small nth_map [of k "[3, 1, 3, 1, 0 :: u8]" Some]
    by (simp_all add: B_def rd_blk_def del: list.map set_simps)
  have succ: "(B m k)\<lparr>offset := offset (B m k) + 1\<rparr> = B m (k + 1)" for m k by (simp add: B_def)
  have R: "ReadVarU (B m k) = Some (Inr (ucast (ucast ([3, 1, 3, 1, 0 :: u8] ! k) :: u32) :: u16), B m (k + 1))" if "k < 5" for m k
    using ReadVarU_byte [OF byte [OF that]] unfolding succ .
  have S: "ReadVarU (B m k) = Some (Inr (ucast (ucast ([3, 1, 3, 1, 0 :: u8] ! k) :: u32) :: u64), B m (k + 1))" if "k < 5" for m k
    using ReadVarU_byte [OF byte [OF that]] unfolding succ .
  have sub: "sz_sub 1 0 = 1" "sz_sub 3 0 = 3" by (simp_all add: sz_sub_def SIZE_BOUND_def)
  have P: "ReadPtr (Suc 0) (COf 3) (B [1 \<mapsto> 0] 2) [OFoo None None] = Some (Inr (Some 0), B [1 \<mapsto> 0] 4, [OFoo None None])"
    using R [of 2] S [of 3] sub by (subst ReadPtr.simps) (simp add: B creators_def find_at_def)
  have Q: "ReadPtr (Suc 0) (COf 4) (B [1 \<mapsto> 0] 4) h = Some (Inr None, B [1 \<mapsto> 0] 5, h)" for h
    using R [of 4] by (subst ReadPtr.simps) simp
  have F: "FromBBuffer (ReadPtr (Suc 0)) 0 (B [1 \<mapsto> 0] 2) [OFoo None None] = Some (0, B [1 \<mapsto> 0] 5, [OFoo (Some 0) None])"
    by (simp add: FromBBuffer_eq and_then_def read_field_def P Q B del: ReadPtr.simps One_nat_def)
  have "make_at (ReadPtr (Suc 0)) CObject 3 1 (B Map.empty 2) [] = Some (Inr (Some 0), B [1 \<mapsto> 0] 5, [OFoo (Some 0) None])"
    using F by (simp add: make_at_def CreateByTypeId_def creators_def B del: ReadPtr.simps)
  then have "ReadPtr (Suc (Suc 0)) CObject (B Map.empty 0) [] = Some (Inr (Some 0), B [1 \<mapsto> 0] 5, [OFoo (Some 0) None])"
    using R [of 0] S [of 1] sub by (subst ReadPtr.simps) (simp add: B creators_def numeral_2_eq_2 [symmetric])
  then have "\<exists>bb'. ReadRoot 2 ?B [] = Some (Inr (Some 0), bb', [OFoo (Some 0) None])"
    unfolding ReadRoot_def B(6) by (simp add: numeral_2_eq_2 BBuffer_new_def)
  then obtain bb' where r: "ReadRoot 2 ?B [] = Some (Inr (Some 0), bb', [OFoo (Some 0) None])" ..
  from ReadRoot_typed [OF this] r show ?thesis by blast
qed

end
