(* ===== verification/GraphTrip.thy ===== *)
theory GraphTrip
  imports Graph
begin

text \<open>
  The round trip of object graphs: the writer and the reader of theory \<open>Graph\<close> are run side by side, with
  the correspondence between the objects met so far as the invariant, for graphs with any sharing and
  any cycles. Players are excluded; the last section proves why.
\<close>

section \<open>The state of a writer\<close>

text \<open>
  The pointers of an object in the order they are written (a player's token is not), the object with
  its pointers renamed, and a bound on the bytes it takes.
\<close>

fun ptr_fields :: "pobj \<Rightarrow> ptr list" where
  "ptr_fields (OFoo parent childs) = [parent, childs]"
| "ptr_fields (OPlayer i token target) = [token, target]"
| "ptr_fields (OScene monsters players) = [monsters, players]"
| "ptr_fields (OSync players scene) = [players, scene]"
| "ptr_fields (OList t ps) = ps"
| "ptr_fields _ = []"

fun map_obj :: "(nat \<Rightarrow> nat) \<Rightarrow> pobj \<Rightarrow> pobj" where
  "map_obj f (OString s) = OString s"
| "map_obj f (OBBuffer d) = OBBuffer d"
| "map_obj f (OFoo parent childs) = OFoo (map_option f parent) (map_option f childs)"
| "map_obj f (OPlayer i token target) = OPlayer i (map_option f token) (map_option f target)"
| "map_obj f OMonster = OMonster"
| "map_obj f (OScene monsters players) = OScene (map_option f monsters) (map_option f players)"
| "map_obj f (OSync players scene) = OSync (map_option f players) (map_option f scene)"
| "map_obj f (OList t ps) = OList t (map (map_option f) ps)"

fun osize :: "pobj \<Rightarrow> nat" where
  "osize (OString s) = 5 + length s"
| "osize (OBBuffer d) = 5 + length d"
| "osize OMonster = 0"
| "osize (OList t ps) = 5 + 8 * length ps"
| "osize _ = 16"

fun is_player :: "pobj \<Rightarrow> bool" where
  "is_player (OPlayer i token target) = True"
| "is_player _ = False"

definition known :: "(nat \<rightharpoonup> nat) \<Rightarrow> ptr \<Rightarrow> bool" where
  "known M v \<longleftrightarrow> (\<forall>a. v = Some a \<longrightarrow> a \<in> dom M)"

definition budget :: "heap \<Rightarrow> (nat \<rightharpoonup> nat) \<Rightarrow> nat" where
  "budget h M = (\<Sum>a \<in> {..<length h} - dom M. osize (h ! a))"

definition unseen :: "heap \<Rightarrow> (nat \<rightharpoonup> nat) \<Rightarrow> nat" where
  "unseen h M = card ({..<length h} - dom M)"

text \<open>
  The writer: after \<open>W\<close> bytes that were there before, it has written \<open>X\<close> since the root began.
\<close>

definition wstate :: "heap \<Rightarrow> bbuffer \<Rightarrow> bytes \<Rightarrow> bytes \<Rightarrow> bool" where
  "wstate h bb W X \<longleftrightarrow> lrep 1 bb (W @ X) \<and> offsetRoot bb = length W \<and>
     (\<forall>a i. ptrs bb a = Some i \<longrightarrow> a < length h \<and> i < length X)"

definition wframe :: "bbuffer \<Rightarrow> bbuffer \<Rightarrow> bool" where
  "wframe bb bb' \<longleftrightarrow> objIdxs bb' = objIdxs bb \<and> strIdxs bb' = strIdxs bb \<and> readLengthLimit bb' = readLengthLimit bb \<and>
     ptrs bb \<subseteq>\<^sub>m ptrs bb'"

definition entry :: "heap \<Rightarrow> bytes \<Rightarrow> bbuffer \<Rightarrow> heap \<Rightarrow> nat \<Rightarrow> nat \<Rightarrow> nat \<Rightarrow> bool" where
  "entry h X br hr a i b \<longleftrightarrow> i < length X \<and> b < length hr \<and> GetTypeId (hr ! b) = GetTypeId (h ! a) \<and>
     (if GetTypeId (h ! a) = 1 then strIdxs br i = Some b else objIdxs br i = Some b)"

text \<open>
  The reader in step with the writer: it has read \<open>X\<close> behind \<open>P\<close> and has \<open>R\<close> before it; every object
  the writer has met, \<open>a\<close> at offset \<open>i\<close>, is \<open>f a\<close> on the reader's heap, under the same offset.
\<close>

definition linked :: "heap \<Rightarrow> (nat \<rightharpoonup> nat) \<Rightarrow> bytes \<Rightarrow> bytes \<Rightarrow> bytes \<Rightarrow> bbuffer \<Rightarrow> heap \<Rightarrow> (nat \<Rightarrow> nat) \<Rightarrow> bool" where
  "linked h M X P R br hr f \<longleftrightarrow> holds br (P @ X @ R) \<and> length (P @ X @ R) < SIZE_BOUND \<and>
     offsetRoot br = length P \<and> offset br = length P + length X \<and> readLengthLimit br = 0 \<and> inj_on f (dom M) \<and>
     (\<forall>a i. M a = Some i \<longrightarrow> entry h X br hr a i (f a))"

text \<open>
  What reading adds: the objects met since then are new on the reader's heap, complete copies with
  pointers renamed, and the objects of before are unchanged outside \<open>S\<close>, those still being filled.
\<close>

definition filled :: "nat set \<Rightarrow> heap \<Rightarrow> (nat \<rightharpoonup> nat) \<Rightarrow> (nat \<rightharpoonup> nat) \<Rightarrow> (nat \<Rightarrow> nat) \<Rightarrow> (nat \<Rightarrow> nat) \<Rightarrow> heap \<Rightarrow> heap \<Rightarrow> bool" where
  "filled S h M M' f f' hr hr' \<longleftrightarrow> M \<subseteq>\<^sub>m M' \<and> (\<forall>a \<in> dom M. f' a = f a) \<and> length hr \<le> length hr' \<and>
     (\<forall>i < length hr. i \<notin> S \<longrightarrow> hr' ! i = hr ! i) \<and>
     (\<forall>a \<in> dom M' - dom M. length hr \<le> f' a \<and> f' a < length hr' \<and> (\<forall>v \<in> set (ptr_fields (h ! a)). known M' v) \<and>
        hr' ! f' a = map_obj f' (h ! a))"

lemma map_obj_cong:
  "(\<And>v a. v \<in> set (ptr_fields x) \<Longrightarrow> v = Some a \<Longrightarrow> f a = g a) \<Longrightarrow> map_obj f x = map_obj g x"
  by (cases x) (auto intro: map_option_cong)

lemma GetTypeId_map_obj [simp]: "GetTypeId (map_obj f x) = GetTypeId x"
  by (cases x) auto

lemma known_mono: "known M v \<Longrightarrow> M \<subseteq>\<^sub>m M' \<Longrightarrow> known M' v"
  by (auto simp: known_def map_le_def dom_def)

lemma filled_refl [simp]: "filled S h M M f f hr hr"
  by (simp add: filled_def)

lemma filledD:
  assumes "filled S h M M' f f' hr hr'"
  shows "M \<subseteq>\<^sub>m M'" "dom M \<subseteq> dom M'" "length hr \<le> length hr'" "a \<in> dom M \<Longrightarrow> f' a = f a"
    "i < length hr \<Longrightarrow> i \<notin> S \<Longrightarrow> hr' ! i = hr ! i"
  using assms by (auto simp: filled_def dest: map_le_implies_dom_le)

lemma filled_new:
  assumes "filled S h M M' f f' hr hr'" "a \<in> dom M'" "a \<notin> dom M"
  shows "length hr \<le> f' a" "f' a < length hr'" "hr' ! f' a = map_obj f' (h ! a)"
    "v \<in> set (ptr_fields (h ! a)) \<Longrightarrow> known M' v"
  using assms by (auto simp: filled_def)

lemma map_obj_keep:
  assumes "\<And>v. v \<in> set (ptr_fields x) \<Longrightarrow> known M v" "\<And>a. a \<in> dom M \<Longrightarrow> f' a = f a"
  shows "map_obj f' x = map_obj f x"
  by (rule map_obj_cong) (use assms in \<open>auto simp: known_def\<close>)

lemma filled_trans:
  assumes 1: "filled S h M M1 f f1 hr hr1" and 2: "filled S h M1 M2 f1 f2 hr1 hr2" and S: "S \<subseteq> {..<length hr}"
  shows "filled S h M M2 f f2 hr hr2"
proof -
  have new: "length hr \<le> f2 a \<and> f2 a < length hr2 \<and> (\<forall>v \<in> set (ptr_fields (h ! a)). known M2 v) \<and>
      hr2 ! f2 a = map_obj f2 (h ! a)" if a: "a \<in> dom M2" "a \<notin> dom M" for a
  proof (cases "a \<in> dom M1")
    case True
    note n = filled_new [OF 1 True a(2)]
    have f: "f2 a = f1 a" by (rule filledD(4) [OF 2 True])
    have "f1 a \<notin> S" using n(1) S by auto
    then have "hr2 ! f1 a = hr1 ! f1 a" using filledD(5) [OF 2] n(2) by blast
    moreover have "map_obj f2 (h ! a) = map_obj f1 (h ! a)"
      by (rule map_obj_keep [of _ M1]) (use n(4) filledD(4) [OF 2] in auto)
    moreover have "known M2 v" if "v \<in> set (ptr_fields (h ! a))" for v
      using known_mono [OF n(4) [OF that] filledD(1) [OF 2]] .
    ultimately show ?thesis using n f filledD(3) [OF 2] by auto
  next
    case False
    note n = filled_new [OF 2 a(1) False]
    show ?thesis using n filledD(3) [OF 1] by auto
  qed
  show ?thesis unfolding filled_def
  proof (intro conjI ballI allI impI)
    show "M \<subseteq>\<^sub>m M2" by (rule map_le_trans [OF filledD(1) [OF 1] filledD(1) [OF 2]])
    show "f2 a = f a" if "a \<in> dom M" for a
      using filledD(4) [OF 1 that] filledD(4) [OF 2, of a] filledD(2) [OF 1] that by (metis subsetD)
    show "length hr \<le> length hr2" using filledD(3) [OF 1] filledD(3) [OF 2] by simp
    show "hr2 ! i = hr ! i" if "i < length hr" "i \<notin> S" for i
      using filledD(5) [OF 1 that] filledD(5) [OF 2, of i] filledD(3) [OF 1] that by simp
  qed (use new in blast)+
qed

lemma filled_slot:
  "filled S h M M' f f' hr hr' \<Longrightarrow> c \<in> S \<Longrightarrow> c < length hr \<Longrightarrow> filled S h M M' f f' hr (hr'[c := x])"
  unfolding filled_def
proof (elim conjE, intro conjI ballI allI impI)
  fix a
  assume a: "a \<in> dom M' - dom M" and c: "c \<in> S" "c < length hr"
    and n: "\<forall>a \<in> dom M' - dom M. length hr \<le> f' a \<and> f' a < length hr' \<and>
        (\<forall>v \<in> set (ptr_fields (h ! a)). known M' v) \<and> hr' ! f' a = map_obj f' (h ! a)"
  from bspec [OF n a] c(2) show "hr'[c := x] ! f' a = map_obj f' (h ! a)" by simp
  from bspec [OF n a] show "length hr \<le> f' a" "f' a < length (hr'[c := x])" by simp_all
  show "known M' v" if "v \<in> set (ptr_fields (h ! a))" for v using bspec [OF n a] that by simp
next
  fix i
  assume "i < length hr" "i \<notin> S" "c \<in> S" "\<forall>i < length hr. i \<notin> S \<longrightarrow> hr' ! i = hr ! i"
  then show "hr'[c := x] ! i = hr ! i" by (cases "c = i") auto
qed auto

lemma filled_weaken: "filled {} h M M' f f' hr hr' \<Longrightarrow> filled S h M M' f f' hr hr'"
  by (auto simp: filled_def)

lemma linked_slot:
  "linked h M X P R br hr f \<Longrightarrow> GetTypeId x = GetTypeId (hr ! c) \<Longrightarrow> linked h M X P R br (hr[c := x]) f"
  by (auto simp: linked_def entry_def type_update)

lemma entry_mono: "entry h X br hr a i b \<Longrightarrow> entry h (X @ ys) br hr a i b"
  by (simp add: entry_def)

lemma entry_offset [simp]: "entry h X (br\<lparr>offset := k\<rparr>) hr a i b = entry h X br hr a i b"
  by (simp add: entry_def)

section \<open>Reading and writing one number\<close>

lemma linked_advance:
  assumes "linked h M X P (ys @ R) br hr f"
  shows "linked h M (X @ ys) P R (br\<lparr>offset := length P + length X + length ys\<rparr>) hr f"
  using assms unfolding linked_def by (auto intro: entry_mono)

lemma linked_read_at:
  assumes c: "codec wr rd enc ok" and v: "ok v" and l: "linked h M X P (enc v @ R) br hr f"
  shows "rd br = Some (Inr v, br\<lparr>offset := length P + length X + length (enc v)\<rparr>)"
  using codec.rd_ok [OF c v, of br "P @ X" R] l by (auto simp: linked_def)

lemma linked_read:
  assumes c: "codec wr rd enc ok" and v: "ok v" and l: "linked h M X P (enc v @ R) br hr f"
  shows "\<exists>br'. rd br = Some (Inr v, br') \<and> linked h M (X @ enc v) P R br' hr f"
  using linked_read_at [OF c v l] linked_advance [OF l] by blast

lemma wstate_write:
  assumes c: "codec wr rd enc ok" and v: "ok v" and w: "wstate h bb W X" and fit: "length W + length X + length (enc v) + 16 \<le> 2 ^ 62"
  shows "\<exists>bb'. wr v bb = Some bb' \<and> wstate h bb' W (X @ enc v) \<and> wframe bb bb' \<and> ptrs bb' = ptrs bb"
proof -
  have "lstep 1 bb (wr v bb) ((W @ X) @ enc v)"
    by (rule codec.wr_ok [OF c v]) (use w fit in \<open>auto simp: wstate_def fits_def\<close>)
  then obtain bb' where "wr v bb = Some bb'" "lrep 1 bb' ((W @ X) @ enc v)" "xx_list.more bb' = xx_list.more bb"
    by (auto simp: lstep_def)
  then show ?thesis using w more_fields [of bb' bb] by (fastforce simp: wstate_def wframe_def)
qed

lemma unat_small: "n < 2 ^ 32 \<Longrightarrow> unat (word_of_nat n :: u64) = n"
  by (simp add: unat_of_nat)

lemma venc5: "n < 2 ^ 32 \<Longrightarrow> length (venc n) \<le> 5"
  by (rule length_venc_le) auto

lemma venc3: "length (venc (unat (t :: u16))) \<le> 3"
  by (rule length_venc_le) (use unsigned_less [of t, where 'a = nat] in auto)

section \<open>Pointers one after another\<close>

definition wrote :: "heap \<Rightarrow> bbuffer \<Rightarrow> bbuffer \<Rightarrow> bytes \<Rightarrow> bytes \<Rightarrow> bytes \<Rightarrow> nat \<Rightarrow> bool" where
  "wrote h bb bb' W X ys k \<longleftrightarrow> wstate h bb' W (X @ ys) \<and> wframe bb bb' \<and>
     length ys + budget h (ptrs bb') \<le> budget h (ptrs bb) + k"

definition reads :: "rptr \<Rightarrow> heap \<Rightarrow> cls \<Rightarrow> ptr \<Rightarrow> (nat \<rightharpoonup> nat) \<Rightarrow> bytes \<Rightarrow> bytes \<Rightarrow> (nat \<rightharpoonup> nat) \<Rightarrow> bool" where
  "reads rp h T v M X ys M' \<longleftrightarrow> ys \<noteq> [] \<and> known M' v \<and> (\<forall>P R br hr f. linked h M X P (ys @ R) br hr f \<longrightarrow>
     (\<exists>f' br' hr'. rp T br hr = Some (Inr (map_option f' v), br', hr') \<and>
        linked h M' (X @ ys) P R br' hr' f' \<and> filled {} h M M' f f' hr hr'))"

definition has_room :: "heap \<Rightarrow> nat \<Rightarrow> bbuffer \<Rightarrow> bytes \<Rightarrow> bytes \<Rightarrow> nat \<Rightarrow> bool" where
  "has_room h n bb W X k \<longleftrightarrow> unseen h (ptrs bb) < n \<and> length W + length X + budget h (ptrs bb) + k + 40 \<le> 2 ^ 32"

definition ptr_step :: "heap \<Rightarrow> nat \<Rightarrow> bool" where
  "ptr_step h n \<longleftrightarrow> (\<forall>m T v bb W X. n \<le> m \<longrightarrow> ptr_ok h T v \<longrightarrow> wstate h bb W X \<longrightarrow> has_room h n bb W X 8 \<longrightarrow>
     (\<exists>bb' ys. WritePtr n h v bb = Some bb' \<and> wrote h bb bb' W X ys 8 \<and>
        reads (ReadPtr m) h T v (ptrs bb) X ys (ptrs bb')))"

lemma unseen_mono: "M \<subseteq>\<^sub>m M' \<Longrightarrow> unseen h M' \<le> unseen h M"
  unfolding unseen_def by (intro card_mono) (auto dest: map_le_implies_dom_le)

lemma room_next: "has_room h n bb W X (j + k) \<Longrightarrow> wrote h bb bb' W X ys j \<Longrightarrow> has_room h n bb' W (X @ ys) k"
  using unseen_mono [of "ptrs bb" "ptrs bb'" h] by (auto simp: has_room_def wrote_def wframe_def)

lemma room_less: "has_room h n bb W X j \<Longrightarrow> k \<le> j \<Longrightarrow> has_room h n bb W X k"
  by (simp add: has_room_def)

lemma wframe_trans: "wframe a b \<Longrightarrow> wframe b c \<Longrightarrow> wframe a c"
  by (auto simp: wframe_def intro: map_le_trans)

lemma wrote_trans: "wrote h a b W X ys j \<Longrightarrow> wrote h b c W (X @ ys) zs k \<Longrightarrow> wrote h a c W X (ys @ zs) (j + k)"
  by (auto simp: wrote_def intro: wframe_trans)

lemma ptr_stepE:
  assumes "ptr_step h n" "n \<le> m" "ptr_ok h T v" "wstate h bb W X" "has_room h n bb W X 8"
  obtains bb' ys where "WritePtr n h v bb = Some bb'" "wrote h bb bb' W X ys 8"
    "reads (ReadPtr m) h T v (ptrs bb) X ys (ptrs bb')"
  using assms unfolding ptr_step_def by blast

lemma readsE:
  assumes "reads rp h T v M X ys M'" "linked h M X P (ys @ R) br hr f"
  obtains f' br' hr' where "rp T br hr = Some (Inr (map_option f' v), br', hr')"
    "linked h M' (X @ ys) P R br' hr' f'" "filled {} h M M' f f' hr hr'"
  using assms unfolding reads_def by blast

lemma map_option_keep: "known M v \<Longrightarrow> filled S h M M' f f' hr hr' \<Longrightarrow> map_option f' v = map_option f v"
  using filledD(4) [of S h M M' f f' hr hr'] by (cases v) (auto simp: known_def)

lemma set_types [simp]:
  "GetTypeId (set_fst v x) = GetTypeId x" "GetTypeId (set_snd v x) = GetTypeId x" "GetTypeId (set_elem i v x) = GetTypeId x"
  by (cases x; simp)+

text \<open>One pointer read into a slot of the object that is being filled.\<close>

lemma field_read:
  assumes r: "reads rp h T v M X ys M'" and l: "linked h M X P (ys @ R) br hr f" and c: "c < length hr"
    and u: "\<And>v x. GetTypeId (upd v x) = GetTypeId x"
  obtains f' br' hr' where "read_field rp T upd c br hr = Some (0, br', hr')"
    "linked h M' (X @ ys) P R br' hr' f'" "filled {c} h M M' f f' hr hr'" "hr' ! c = upd (map_option f' v) (hr ! c)"
proof -
  obtain f' br' h1 where 1: "rp T br hr = Some (Inr (map_option f' v), br', h1)"
      "linked h M' (X @ ys) P R br' h1 f'" "filled {} h M M' f f' hr h1" using readsE [OF r l] .
  let ?h = "h1[c := upd (map_option f' v) (h1 ! c)]"
  have hc: "h1 ! c = hr ! c" "c < length h1" using filledD(5) [OF 1(3) c] filledD(3) [OF 1(3)] c by auto
  show thesis
  proof (rule that [of br' ?h f'])
    show "read_field rp T upd c br hr = Some (0, br', ?h)" using 1(1) by (simp add: read_field_def)
    show "linked h M' (X @ ys) P R br' ?h f'" by (rule linked_slot [OF 1(2)]) (rule u)
    show "filled {c} h M M' f f' hr ?h" by (rule filled_slot [OF filled_weaken [OF 1(3)]]) (use c in auto)
    show "?h ! c = upd (map_option f' v) (hr ! c)" using hc by simp
  qed
qed

lemma items_step:
  assumes st: "ptr_step h n" and m: "n \<le> m"
  shows "\<forall>v \<in> set vs. ptr_ok h T v \<Longrightarrow> wstate h bb W X \<Longrightarrow> has_room h n bb W X (8 * length vs) \<Longrightarrow>
     \<exists>bb' ys. kfold (WritePtr n h) vs bb = Some bb' \<and> wrote h bb bb' W X ys (8 * length vs) \<and> length vs \<le> length ys \<and>
       (\<forall>v \<in> set vs. known (ptrs bb') v) \<and>
       (\<forall>P R br hr f c t us i. linked h (ptrs bb) X P (ys @ R) br hr f \<longrightarrow> c < length hr \<longrightarrow> hr ! c = OList t us \<longrightarrow>
          i + length vs = length us \<longrightarrow>
          (\<exists>f' br' hr'. read_items (ReadPtr m) T c i (length vs) br hr = Some (0, br', hr') \<and>
             linked h (ptrs bb') (X @ ys) P R br' hr' f' \<and> filled {c} h (ptrs bb) (ptrs bb') f f' hr hr' \<and>
             hr' ! c = OList t (take i us @ map (map_option f') vs)))"
proof (induction vs arbitrary: bb X)
  case Nil
  then show ?case
    by (intro exI [of _ bb] exI [of _ "[]"]) (auto simp: wrote_def wframe_def intro: filled_refl)
next
  case (Cons v vs)
  have "has_room h n bb W X 8" using Cons.prems(3) by (rule room_less) simp
  with Cons.prems obtain bb1 ys1 where 1: "WritePtr n h v bb = Some bb1" "wrote h bb bb1 W X ys1 8"
      "reads (ReadPtr m) h T v (ptrs bb) X ys1 (ptrs bb1)"
    by (auto intro: ptr_stepE [OF st m])
  have "has_room h n bb1 W (X @ ys1) (8 * length vs)" by (rule room_next [OF _ 1(2)]) (use Cons.prems(3) in simp)
  with Cons.IH [of bb1 "X @ ys1"] Cons.prems(1) 1(2) obtain bb2 ys2 where
    2: "kfold (WritePtr n h) vs bb1 = Some bb2" "wrote h bb1 bb2 W (X @ ys1) ys2 (8 * length vs)"
       "\<forall>v \<in> set vs. known (ptrs bb2) v" "length vs \<le> length ys2" and
    rd2: "\<forall>P R br hr f c t us i. linked h (ptrs bb1) (X @ ys1) P (ys2 @ R) br hr f \<longrightarrow> c < length hr \<longrightarrow> hr ! c = OList t us \<longrightarrow>
          i + length vs = length us \<longrightarrow>
          (\<exists>f' br' hr'. read_items (ReadPtr m) T c i (length vs) br hr = Some (0, br', hr') \<and>
             linked h (ptrs bb2) ((X @ ys1) @ ys2) P R br' hr' f' \<and> filled {c} h (ptrs bb1) (ptrs bb2) f f' hr hr' \<and>
             hr' ! c = OList t (take i us @ map (map_option f') vs))"
    by (auto simp: wrote_def)
  have kn: "known (ptrs bb1) v" and y1: "0 < length ys1" using 1(3) by (simp_all add: reads_def)
  then have kv: "known (ptrs bb2) v" using 2(2) by (auto simp: wrote_def wframe_def intro: known_mono)
  have ln: "Suc (length vs) \<le> length ys1 + length ys2" using y1 2(4) by linarith
  have rd: "\<exists>f' br' hr'. read_items (ReadPtr m) T c i (length (v # vs)) br hr = Some (0, br', hr') \<and>
       linked h (ptrs bb2) (X @ ys1 @ ys2) P R br' hr' f' \<and> filled {c} h (ptrs bb) (ptrs bb2) f f' hr hr' \<and>
       hr' ! c = OList t (take i us @ map (map_option f') (v # vs))"
    if l: "linked h (ptrs bb) X P ((ys1 @ ys2) @ R) br hr f" and c: "c < length hr" "hr ! c = OList t us"
      and i: "i + length (v # vs) = length us" for P R br hr f c t us i
  proof -
    have l': "linked h (ptrs bb) X P (ys1 @ ys2 @ R) br hr f" using l by simp
    obtain f1 br1 hr1 where r1: "read_field (ReadPtr m) T (set_elem i) c br hr = Some (0, br1, hr1)"
        "linked h (ptrs bb1) (X @ ys1) P (ys2 @ R) br1 hr1 f1" "filled {c} h (ptrs bb) (ptrs bb1) f f1 hr hr1"
        "hr1 ! c = OList t (us[i := map_option f1 v])"
      by (rule field_read [OF 1(3) l' c(1), of "set_elem i"]) (simp_all add: c(2))
    have c1: "c < length hr1" using c(1) filledD(3) [OF r1(3)] by simp
    have "Suc i + length vs = length (us[i := map_option f1 v])" using i by simp
    with rd2 r1(2,4) c1 obtain f2 br2 hr2 where
      r2: "read_items (ReadPtr m) T c (Suc i) (length vs) br1 hr1 = Some (0, br2, hr2)"
          "linked h (ptrs bb2) ((X @ ys1) @ ys2) P R br2 hr2 f2" "filled {c} h (ptrs bb1) (ptrs bb2) f1 f2 hr1 hr2"
          "hr2 ! c = OList t (take (Suc i) (us[i := map_option f1 v]) @ map (map_option f2) vs)"
      by blast
    have "take (Suc i) (us[i := map_option f1 v]) = take i us @ [map_option f2 v]"
      using i take_Suc_update [of i us] map_option_keep [OF kn r2(3)] by simp
    then show ?thesis using r1(1) r2 filled_trans [OF r1(3) r2(3)] c(1)
      by (intro exI [of _ f2] exI [of _ br2] exI [of _ hr2]) (simp add: and_then_def)
  qed
  show ?case
    by (intro exI [of _ bb2] exI [of _ "ys1 @ ys2"])
      (use 1 2 ln kv rd wrote_trans [OF 1(2) 2(2)] in auto)
qed

lemma two_step:
  assumes st: "ptr_step h n" and m: "n \<le> m" and v: "ptr_ok h T1 v1" "ptr_ok h T2 v2"
    and w: "wstate h bb W X" and rm: "has_room h n bb W X 16"
    and k: "\<forall>b. readLengthLimit b = 0 \<longrightarrow> k1 b = b" "\<forall>b. readLengthLimit b = 0 \<longrightarrow> k2 b = b"
  shows "\<exists>bb' ys. (do { bb1 \<leftarrow> WritePtr n h v1 bb; WritePtr n h v2 bb1 }) = Some bb' \<and> wrote h bb bb' W X ys 16 \<and>
       known (ptrs bb') v1 \<and> known (ptrs bb') v2 \<and>
       (\<forall>P R br hr f c. linked h (ptrs bb) X P (ys @ R) br hr f \<longrightarrow> c < length hr \<longrightarrow>
          (\<exists>f' br' hr'. and_then (read_field (ReadPtr m) T1 set_fst c (k1 br) hr)
                 (\<lambda>b h. read_field (ReadPtr m) T2 set_snd c (k2 b) h) = Some (0, br', hr') \<and>
             linked h (ptrs bb') (X @ ys) P R br' hr' f' \<and> filled {c} h (ptrs bb) (ptrs bb') f f' hr hr' \<and>
             hr' ! c = set_snd (map_option f' v2) (set_fst (map_option f' v1) (hr ! c))))"
proof -
  obtain bb1 ys1 where 1: "WritePtr n h v1 bb = Some bb1" "wrote h bb bb1 W X ys1 8"
      "reads (ReadPtr m) h T1 v1 (ptrs bb) X ys1 (ptrs bb1)"
    by (rule ptr_stepE [OF st m v(1) w room_less [OF rm]]) auto
  have rm1: "has_room h n bb1 W (X @ ys1) 8" by (rule room_next [OF _ 1(2)]) (use rm in simp)
  have "wstate h bb1 W (X @ ys1)" using 1(2) by (simp add: wrote_def)
  from ptr_stepE [OF st m v(2) this rm1] obtain bb2 ys2 where
    2: "WritePtr n h v2 bb1 = Some bb2" "wrote h bb1 bb2 W (X @ ys1) ys2 8"
      "reads (ReadPtr m) h T2 v2 (ptrs bb1) (X @ ys1) ys2 (ptrs bb2)" by blast
  have kn: "known (ptrs bb1) v1" "known (ptrs bb2) v2" using 1(3) 2(3) by (simp_all add: reads_def)
  have kv: "known (ptrs bb2) v1" using kn(1) 2(2) by (auto simp: wrote_def wframe_def intro: known_mono)
  have rd: "\<exists>f' br' hr'. and_then (read_field (ReadPtr m) T1 set_fst c (k1 br) hr)
                 (\<lambda>b h. read_field (ReadPtr m) T2 set_snd c (k2 b) h) = Some (0, br', hr') \<and>
             linked h (ptrs bb2) (X @ ys1 @ ys2) P R br' hr' f' \<and> filled {c} h (ptrs bb) (ptrs bb2) f f' hr hr' \<and>
             hr' ! c = set_snd (map_option f' v2) (set_fst (map_option f' v1) (hr ! c))"
    if l: "linked h (ptrs bb) X P ((ys1 @ ys2) @ R) br hr f" and c: "c < length hr" for P R br hr f c
  proof -
    have l': "linked h (ptrs bb) X P (ys1 @ ys2 @ R) br hr f" using l by simp
    obtain f1 br1 hr1 where r1: "read_field (ReadPtr m) T1 set_fst c br hr = Some (0, br1, hr1)"
        "linked h (ptrs bb1) (X @ ys1) P (ys2 @ R) br1 hr1 f1" "filled {c} h (ptrs bb) (ptrs bb1) f f1 hr hr1"
        "hr1 ! c = set_fst (map_option f1 v1) (hr ! c)"
      by (rule field_read [OF 1(3) l' c, of set_fst]) simp_all
    have c1: "c < length hr1" using c filledD(3) [OF r1(3)] by simp
    obtain f2 br2 hr2 where r2: "read_field (ReadPtr m) T2 set_snd c br1 hr1 = Some (0, br2, hr2)"
        "linked h (ptrs bb2) ((X @ ys1) @ ys2) P R br2 hr2 f2" "filled {c} h (ptrs bb1) (ptrs bb2) f1 f2 hr1 hr2"
        "hr2 ! c = set_snd (map_option f2 v2) (hr1 ! c)"
      by (rule field_read [OF 2(3) r1(2) c1, of set_snd]) simp_all
    have "k1 br = br" "k2 br1 = br1" using l r1(2) k by (auto simp: linked_def)
    then show ?thesis using r1 r2 filled_trans [OF r1(3) r2(3)] c map_option_keep [OF kn(1) r2(3)]
      by (intro exI [of _ f2] exI [of _ br2] exI [of _ hr2]) (simp add: and_then_def)
  qed
  show ?thesis
    by (intro exI [of _ bb2] exI [of _ "ys1 @ ys2"]) (use 1 2 kv kn rd wrote_trans [OF 1(2) 2(2)] in auto)
qed

section \<open>The body of an object\<close>

definition blank :: "pobj \<Rightarrow> pobj" where
  "blank x = (case x of OString s \<Rightarrow> OString [] | OBBuffer d \<Rightarrow> OBBuffer [] | OFoo p c \<Rightarrow> OFoo None None
     | OPlayer i tk tg \<Rightarrow> OPlayer 0 None None | OMonster \<Rightarrow> OMonster | OScene m p \<Rightarrow> OScene None None
     | OSync p s \<Rightarrow> OSync None None | OList t ps \<Rightarrow> OList t [])"

definition body_step :: "heap \<Rightarrow> nat \<Rightarrow> nat \<Rightarrow> pobj \<Rightarrow> bbuffer \<Rightarrow> bytes \<Rightarrow> bytes \<Rightarrow> bool" where
  "body_step h n m x bb W X \<longleftrightarrow> (\<exists>bb' ys. ToBBuffer (WritePtr n h) x bb = Some bb' \<and>
     wrote h bb bb' W X ys (osize x) \<and> (\<forall>v \<in> set (ptr_fields x). known (ptrs bb') v) \<and>
     (\<forall>P R br hr f c. linked h (ptrs bb) X P (ys @ R) br hr f \<longrightarrow> c < length hr \<longrightarrow> hr ! c = blank x \<longrightarrow>
        (\<exists>f' br' hr'. FromBBuffer (ReadPtr m) c br hr = Some (0, br', hr') \<and>
           linked h (ptrs bb') (X @ ys) P R br' hr' f' \<and> filled {c} h (ptrs bb) (ptrs bb') f f' hr hr' \<and>
           hr' ! c = map_obj f' x)))"

lemma limit_id: "readLengthLimit (b :: bbuffer) = 0 \<Longrightarrow> no_limit b = b"
  by (auto intro!: bbuffer.equality)

lemma body_two:
  assumes "ptr_step h n" "n \<le> m" "ptr_ok h T1 v1" "ptr_ok h T2 v2" "wstate h bb W X" "has_room h n bb W X (osize x)"
    and k: "\<forall>b. readLengthLimit b = 0 \<longrightarrow> k1 b = b" "\<forall>b. readLengthLimit b = 0 \<longrightarrow> k2 b = b"
    and x: "osize x = 16" "ptr_fields x = [v1, v2]" "\<And>f. map_obj f x = set_snd (map_option f v2) (set_fst (map_option f v1) (blank x))"
    and to: "ToBBuffer (WritePtr n h) x bb = do { bb1 \<leftarrow> WritePtr n h v1 bb; WritePtr n h v2 bb1 }"
    and fr: "\<And>c br hr. hr ! c = blank x \<Longrightarrow> FromBBuffer (ReadPtr m) c br hr =
        and_then (read_field (ReadPtr m) T1 set_fst c (k1 br) hr) (\<lambda>b h. read_field (ReadPtr m) T2 set_snd c (k2 b) h)"
  shows "body_step h n m x bb W X"
proof -
  have "has_room h n bb W X 16" using assms(6) x(1) by simp
  from two_step [OF assms(1-5) this k] obtain bb' ys where
    t: "do { bb1 \<leftarrow> WritePtr n h v1 bb; WritePtr n h v2 bb1 } = Some bb'" "wrote h bb bb' W X ys 16"
       "known (ptrs bb') v1" "known (ptrs bb') v2" and
    rd: "\<forall>P R br hr f c. linked h (ptrs bb) X P (ys @ R) br hr f \<longrightarrow> c < length hr \<longrightarrow>
          (\<exists>f' br' hr'. and_then (read_field (ReadPtr m) T1 set_fst c (k1 br) hr)
                 (\<lambda>b h. read_field (ReadPtr m) T2 set_snd c (k2 b) h) = Some (0, br', hr') \<and>
             linked h (ptrs bb') (X @ ys) P R br' hr' f' \<and> filled {c} h (ptrs bb) (ptrs bb') f f' hr hr' \<and>
             hr' ! c = set_snd (map_option f' v2) (set_fst (map_option f' v1) (hr ! c)))" by blast
  have "\<exists>f' br' hr'. FromBBuffer (ReadPtr m) c br hr = Some (0, br', hr') \<and>
           linked h (ptrs bb') (X @ ys) P R br' hr' f' \<and> filled {c} h (ptrs bb) (ptrs bb') f f' hr hr' \<and>
           hr' ! c = map_obj f' x"
    if "linked h (ptrs bb) X P (ys @ R) br hr f" "c < length hr" "hr ! c = blank x" for P R br hr f c
    using rd that unfolding x(3) fr [OF that(3)] by metis
  then show ?thesis unfolding body_step_def to x(1,2)
    by (intro exI [of _ bb'] exI [of _ ys]) (use t in simp)
qed

lemma body_data:
  assumes "wstate h bb W X" "has_room h n bb W X (osize x)" and x: "x = OBBuffer d"
  shows "body_step h n m x bb W X"
proof -
  have len: "length d < 2 ^ 32" using assms(2) x by (simp add: has_room_def)
  let ?ys = "venc (length d) @ d"
  from wstate_write [OF string_codec.codec_axioms len assms(1)] assms(2) venc5 [OF len] x obtain bb' where
    bb': "String_WriteBB d bb = Some bb'" "wstate h bb' W (X @ ?ys)" "wframe bb bb'" "ptrs bb' = ptrs bb"
    by (auto simp: has_room_def)
  have rd: "\<exists>f' br' hr'. FromBBuffer (ReadPtr m) c br hr = Some (0, br', hr') \<and>
           linked h (ptrs bb) (X @ ?ys) P R br' hr' f' \<and> filled {c} h (ptrs bb) (ptrs bb) f f' hr hr' \<and>
           hr' ! c = map_obj f' x"
    if l: "linked h (ptrs bb) X P (?ys @ R) br hr f" and c: "c < length hr" "hr ! c = blank x" for P R br hr f c
  proof -
    have l': "linked h (ptrs bb) X P (venc (unat (word_of_nat (length d) :: u64)) @ d @ R) br hr f"
      using l unat_small [OF len] by simp
    have u: "unat (word_of_nat (length d) :: u64) < 2 ^ 32" using unat_small [OF len] len by simp
    from linked_read [OF u64_codec.codec_axioms u l'] obtain br1 where
      1: "ReadVarU br = Some (Inr (word_of_nat (length d) :: u64), br1)"
        "linked h (ptrs bb) (X @ venc (length d)) P (d @ R) br1 hr f" by (auto simp: unat_small [OF len])
    have g: "get_raw (- 11) (length d) br1 = Some (Inr d, br1\<lparr>offset := length (P @ X @ venc (length d)) + length d\<rparr>)"
      by (rule get_raw_ok [where rest = R]) (use 1(2) in \<open>auto simp: linked_def\<close>)
    let ?br = "br1\<lparr>offset := length (P @ X @ venc (length d)) + length d\<rparr>"
    have "linked h (ptrs bb) (X @ ?ys) P R ?br hr f" using linked_advance [OF 1(2)] by simp
    then have "linked h (ptrs bb) (X @ ?ys) P R ?br (hr[c := OBBuffer d]) f"
      by (rule linked_slot) (simp add: c(2) blank_def x)
    moreover have "filled {c} h (ptrs bb) (ptrs bb) f f hr (hr[c := OBBuffer d])"
      by (rule filled_slot) (use c in auto)
    moreover have "FromBBuffer (ReadPtr m) c br hr = Some (0, ?br, hr[c := OBBuffer d])"
      using 1(1) g c(2) unat_small [OF len] by (simp add: FromBBuffer_eq blank_def x)
    ultimately show ?thesis using c(1) x by (intro exI [of _ f] exI [of _ ?br] exI [of _ "hr[c := OBBuffer d]"]) simp
  qed
  show ?thesis unfolding body_step_def
    by (intro exI [of _ bb'] exI [of _ ?ys] conjI)
      (use bb' rd x venc5 [OF len] in \<open>auto simp: ToBBuffer_eq String_WriteBB_def wrote_def\<close>)
qed

lemma body_list:
  assumes st: "ptr_step h n" "n \<le> m" and w: "wstate h bb W X" and rm: "has_room h n bb W X (osize x)" and ok: "obj_ok h x"
    and x: "x = OList t ps"
  shows "body_step h n m x bb W X"
proof -
  have len: "length ps < 2 ^ 32" using rm x by (simp add: has_room_def)
  have u: "unat (word_of_nat (length ps) :: u64) < 2 ^ 32" using unat_small [OF len] len by simp
  obtain bb0 where bb0: "Reserve True 1 (sz_add (sz_add (llen bb) 5) (sz_mul (length ps) 16)) bb = Some bb0"
      "wstate h bb0 W X" "wframe bb bb0" "ptrs bb0 = ptrs bb"
  proof -
    have "sz_mul (length ps) 16 = length ps * 16" "llen bb = length W + length X"
      using len w lrep_length [of 1 bb "W @ X"] by (auto simp: sz_mul_def SIZE_BOUND_def wstate_def)
    then have e: "sz_add (sz_add (llen bb) 5) (sz_mul (length ps) 16) = length W + length X + 5 + length ps * 16"
      using rm len by (simp add: has_room_def sz_add_def SIZE_BOUND_def)
    have "fits 1 (length W + length X + 5 + length ps * 16)" using rm len by (simp add: has_room_def fits_def)
    from Reserve_ok [of 1 bb "W @ X", OF _ this, of True] w obtain bb0 where
      "Reserve True 1 (length W + length X + 5 + length ps * 16) bb = Some bb0" "lrep 1 bb0 (W @ X)"
      "xx_list.more bb0 = xx_list.more bb" by (auto simp: wstate_def)
    with w more_fields [of bb0 bb] show thesis unfolding e [symmetric]
      by (intro that [of bb0]) (auto simp: wstate_def wframe_def)
  qed
  have "length W + length X + length (venc (unat (word_of_nat (length ps) :: u64))) + 16 \<le> 2 ^ 62"
    using rm venc5 [OF len] unat_small [OF len] by (simp add: has_room_def)
  from wstate_write [OF u64_codec.codec_axioms u bb0(2) this] obtain bb1 where
    bb1: "WriteVarU (word_of_nat (length ps) :: u64) bb0 = Some bb1" "wstate h bb1 W (X @ venc (length ps))"
         "wframe bb0 bb1" "ptrs bb1 = ptrs bb0" by (auto simp: unat_small [OF len])
  have w1: "wrote h bb bb1 W X (venc (length ps)) 5"
    using bb0 bb1 venc5 [OF len] by (auto simp: wrote_def intro: wframe_trans)
  have "has_room h n bb1 W (X @ venc (length ps)) (8 * length ps)"
    by (rule room_next [OF _ w1]) (use rm x in simp)
  from items_step [OF st, of ps "elem_cls t" bb1 W "X @ venc (length ps)", OF _ bb1(2) this] ok x
  obtain bb' ys where t: "kfold (WritePtr n h) ps bb1 = Some bb'" "wrote h bb1 bb' W (X @ venc (length ps)) ys (8 * length ps)" and ly: "length ps \<le> length ys" and
    kn: "\<forall>v \<in> set ps. known (ptrs bb') v" and
    rd: "\<forall>P R br hr f c t' us i. linked h (ptrs bb1) (X @ venc (length ps)) P (ys @ R) br hr f \<longrightarrow> c < length hr \<longrightarrow> hr ! c = OList t' us \<longrightarrow>
          i + length ps = length us \<longrightarrow>
          (\<exists>f' br' hr'. read_items (ReadPtr m) (elem_cls t) c i (length ps) br hr = Some (0, br', hr') \<and>
             linked h (ptrs bb') ((X @ venc (length ps)) @ ys) P R br' hr' f' \<and> filled {c} h (ptrs bb1) (ptrs bb') f f' hr hr' \<and>
             hr' ! c = OList t' (take i us @ map (map_option f') ps))"
    by auto
  have "\<exists>f' br' hr'. FromBBuffer (ReadPtr m) c br hr = Some (0, br', hr') \<and>
           linked h (ptrs bb') (X @ venc (length ps) @ ys) P R br' hr' f' \<and> filled {c} h (ptrs bb) (ptrs bb') f f' hr hr' \<and>
           hr' ! c = map_obj f' x"
    if l: "linked h (ptrs bb) X P ((venc (length ps) @ ys) @ R) br hr f" and c: "c < length hr" "hr ! c = blank x" for P R br hr f c
  proof -
    let ?h = "hr[c := OList t (replicate (length ps) None)]"
    have h: "holds br ((P @ X) @ venc (length ps) @ ys @ R)" and b: "length ((P @ X) @ venc (length ps) @ ys @ R) < SIZE_BOUND"
      using l by (auto simp: linked_def)
    let ?br = "br\<lparr>offset := length (P @ X) + length (venc (length ps))\<rparr>"
    have rc: "read_count br = Some (Inr (length ps), ?br)"
      by (rule read_count_ok [OF _ h _ b]) (use l len ly in \<open>auto simp: linked_def\<close>)
    have l': "linked h (ptrs bb) X P (venc (length ps) @ ys @ R) br hr f" using l by simp
    have "linked h (ptrs bb1) (X @ venc (length ps)) P (ys @ R) ?br hr f"
      using linked_advance [OF l'] bb0(4) bb1(4) by simp
    then have l1: "linked h (ptrs bb1) (X @ venc (length ps)) P (ys @ R) ?br ?h f"
      by (rule linked_slot) (simp add: c(2) blank_def x)
    from rd l1 c obtain f' br' hr' where
      r: "read_items (ReadPtr m) (elem_cls t) c 0 (length ps) ?br ?h = Some (0, br', hr')"
         "linked h (ptrs bb') ((X @ venc (length ps)) @ ys) P R br' hr' f'" "filled {c} h (ptrs bb1) (ptrs bb') f f' ?h hr'"
         "hr' ! c = OList t (map (map_option f') ps)"
      by (metis (no_types, lifting) add_0 append_Nil length_list_update length_replicate nth_list_update_eq take0)
    have "filled {c} h (ptrs bb) (ptrs bb') f f' hr hr'"
      using filled_trans [OF filled_slot [OF filled_refl [of "{c}" h "ptrs bb" f hr], of c]] r(3) bb0(4) bb1(4) c(1) by auto
    then show ?thesis using rc r c x
      by (intro exI [of _ f'] exI [of _ br'] exI [of _ hr']) (simp add: FromBBuffer_eq blank_def)
  qed
  then show ?thesis unfolding body_step_def
    by (intro exI [of _ bb'] exI [of _ "venc (length ps) @ ys"])
      (use t kn bb0 bb1 x wrote_trans [OF w1 t(2)] in \<open>simp add: ToBBuffer_eq\<close>)
qed

lemma body_ok:
  assumes st: "ptr_step h n" "n \<le> m" and w: "wstate h bb W X" and rm: "has_room h n bb W X (osize x)" and ok: "obj_ok h x"
    and x: "\<not> is_player x" "GetTypeId x \<noteq> 1"
  shows "body_step h n m x bb W X"
proof (cases x)
  case (OFoo v1 v2)
  show ?thesis
    by (rule body_two [OF st _ _ w rm, of "COf 3" v1 "COf 4" v2 id no_limit])
      (use ok limit_id in \<open>auto simp: OFoo ToBBuffer_eq FromBBuffer_eq blank_def\<close>)
next
  case (OScene v1 v2)
  show ?thesis
    by (rule body_two [OF st _ _ w rm, of "COf 8" v1 "COf 9" v2 no_limit no_limit])
      (use ok limit_id in \<open>auto simp: OScene ToBBuffer_eq FromBBuffer_eq blank_def\<close>)
next
  case (OSync v1 v2)
  show ?thesis
    by (rule body_two [OF st _ _ w rm, of "COf 11" v1 "COf 7" v2 no_limit id])
      (use ok limit_id in \<open>auto simp: OSync ToBBuffer_eq FromBBuffer_eq blank_def\<close>)
next
  case OMonster
  then show ?thesis using w unfolding body_step_def
    by (intro exI [of _ bb] exI [of _ "[]"])
      (auto simp: ToBBuffer_eq FromBBuffer_eq blank_def wrote_def wframe_def intro: filled_refl)
qed (use x body_data [OF w rm] body_list [OF st w rm ok] in auto)

lemma linked_entry: "linked h M X P R br hr f \<Longrightarrow> M a = Some i \<Longrightarrow> entry h X br hr a i (f a)"
  by (simp add: linked_def)

text \<open>The reader creates an object where the writer numbered one.\<close>

lemma linked_new:
  assumes l: "linked h M Y P (venc (length Y) @ R) br hr f" and a: "a \<notin> dom M" and x: "GetTypeId x = GetTypeId (h ! a)"
    and br': "br' = (br\<lparr>offset := length P + length Y + length (venc (length Y))\<rparr>)
        \<lparr>strIdxs := (if GetTypeId x = 1 then (strIdxs br)(length Y \<mapsto> length hr) else strIdxs br),
         objIdxs := (if GetTypeId x = 1 then objIdxs br else (objIdxs br)(length Y \<mapsto> length hr))\<rparr>"
  shows "linked h (M(a \<mapsto> length Y)) (Y @ venc (length Y)) P R br' (hr @ [x]) (f(a := length hr))"
proof -
  have ne: "0 < length (venc (length Y))" by (subst venc.simps) simp
  have e: "entry h (Y @ venc (length Y)) br' (hr @ [x]) b i ((f(a := length hr)) b)"
    if "(M(a \<mapsto> length Y)) b = Some i" for b i
  proof (cases "b = a")
    case True
    then show ?thesis using that x ne by (auto simp: entry_def br')
  next
    case False
    then have "entry h Y br hr b i (f b)" using that linked_entry [OF l] by simp
    with False show ?thesis by (auto simp: entry_def br' nth_append)
  qed
  have i: "inj_on (f(a := length hr)) (dom (M(a \<mapsto> length Y)))"
  proof -
    have "inj_on f (dom M)" using l by (simp add: linked_def)
    moreover have "f b \<noteq> length hr" if "M b = Some i" for b i using linked_entry [OF l that] by (simp add: entry_def)
    then have "length hr \<notin> f ` dom M" by (metis domD imageE)
    ultimately have "inj_on (f(a := length hr)) (insert a (dom M))"
      by (simp add: inj_on_fun_updI image_iff)
    then show ?thesis by simp
  qed
  show ?thesis using l e i by (simp add: linked_def br' holds_def)
qed

lemma budget_insert: "a < length h \<Longrightarrow> a \<notin> dom M \<Longrightarrow> budget h M = osize (h ! a) + budget h (M(a \<mapsto> i))"
  unfolding budget_def by (subst sum.remove [of _ a]) (auto intro!: sum.cong)

lemma unseen_insert: "a < length h \<Longrightarrow> a \<notin> dom M \<Longrightarrow> unseen h M = Suc (unseen h (M(a \<mapsto> i)))"
proof -
  assume a: "a < length h" "a \<notin> dom M"
  have "{..<length h} - dom (M(a \<mapsto> i)) = ({..<length h} - dom M) - {a}" by auto
  with a show ?thesis unfolding unseen_def by (simp add: card_Suc_Diff1 del: card_Diff_insert)
qed

lemma write_new:
  assumes w: "wstate h bb W X" and a: "a < length h" and rm: "length W + length X + 40 \<le> 2 ^ 32"
  shows "\<exists>bb'. WriteVarU (word_of_nat (length X) :: u64) (bb\<lparr>ptrs := (ptrs bb)(a \<mapsto> length X)\<rparr>) = Some bb' \<and>
     wstate h bb' W (X @ venc (length X)) \<and> ptrs bb' = (ptrs bb)(a \<mapsto> length X) \<and>
     objIdxs bb' = objIdxs bb \<and> strIdxs bb' = strIdxs bb \<and> readLengthLimit bb' = readLengthLimit bb"
proof -
  have ne: "0 < length (venc (length X))" by (subst venc.simps) simp
  have len: "length X < 2 ^ 32" using rm by simp
  have u: "unat (word_of_nat (length X) :: u64) < 2 ^ 32" using unat_small [OF len] len by simp
  let ?b = "bb\<lparr>ptrs := (ptrs bb)(a \<mapsto> length X)\<rparr>"
  have "lrep 1 ?b (W @ X) = lrep 1 bb (W @ X)" by (rule lrep_cong) simp_all
  then have "lrep 1 ?b (W @ X)" using w by (simp add: wstate_def)
  then have "lstep 1 ?b (WriteVarU (word_of_nat (length X) :: u64) ?b) ((W @ X) @ venc (length X))"
    using u64_codec.wr_ok [OF u, of ?b "W @ X"] rm venc5 [OF len] unat_small [OF len] by (simp add: fits_def)
  then obtain bb' where "WriteVarU (word_of_nat (length X) :: u64) ?b = Some bb'" "lrep 1 bb' ((W @ X) @ venc (length X))"
     "xx_list.more bb' = xx_list.more ?b" by (auto simp: lstep_def)
  then show ?thesis using w a ne more_fields [of bb' ?b] by (fastforce simp: wstate_def)
qed

section \<open>One pointer\<close>

lemma rel_offset: "linked h M Y P R br hr f \<Longrightarrow> sz_sub (offset br) (offsetRoot br) = length Y"
proof -
  assume l: "linked h M Y P R br hr f"
  then have "offset br = length P + length Y" "offsetRoot br = length P" "length P + length Y < SIZE_BOUND"
    by (auto simp: linked_def)
  then show ?thesis by (simp add: sz_sub_def)
qed

lemma type_small: "obj_ok h x \<Longrightarrow> GetTypeId x \<noteq> 0 \<and> (GetTypeId x = 1 \<longleftrightarrow> (\<exists>s. x = OString s)) \<and> (GetTypeId x < 2 \<longleftrightarrow> GetTypeId x = 1) \<and>
    (GetTypeId x > 2 \<longrightarrow> creators (GetTypeId x) = Some (blank x)) \<and> (GetTypeId x = 2 \<longrightarrow> blank x = OBBuffer [])"
  by (cases x) (auto simp: creators_def blank_def)

lemma GetTypeId_blank [simp]: "GetTypeId (blank x) = GetTypeId x"
  by (cases x) (auto simp: blank_def)

lemma seen_step:
  assumes w: "wstate h bb W X" and rm: "has_room h (Suc n) bb W X 8" and ok: "heap_ok h" and v: "ptr_ok h T (Some a)"
    and s: "ptrs bb a = Some i"
  shows "\<exists>bb' ys. WritePtr (Suc n) h (Some a) bb = Some bb' \<and> wrote h bb bb' W X ys 8 \<and>
        reads (ReadPtr (Suc m)) h T (Some a) (ptrs bb) X ys (ptrs bb')"
proof -
  let ?t = "GetTypeId (h ! a)"
  have a: "a < length h" "is_a (h ! a) T" using v by (auto simp: ptr_ok_def)
  have iX: "i < length X" using w s by (auto simp: wstate_def)
  with rm have i: "i < length X" "i < 2 ^ 32" by (auto simp: has_room_def)
  have u: "unat (word_of_nat i :: u64) < 2 ^ 32" "unat (word_of_nat i :: u64) = i" using unat_small [OF i(2)] i(2) by simp_all
  have ut: "unat ?t < 2 ^ 32" using unsigned_less [of ?t, where 'a = nat] by simp
  have "length W + length X + length (venc (unat ?t)) + 16 \<le> 2 ^ 62" using rm venc3 [of ?t] by (simp add: has_room_def)
  from wstate_write [OF u16_codec.codec_axioms ut w this] obtain bb1 where
    1: "WriteVarU ?t bb = Some bb1" "wstate h bb1 W (X @ venc (unat ?t))" "wframe bb bb1" "ptrs bb1 = ptrs bb" by blast
  have "length W + length (X @ venc (unat ?t)) + length (venc (unat (word_of_nat i :: u64))) + 16 \<le> 2 ^ 62"
    using rm venc3 [of ?t] venc5 [OF i(2)] u by (simp add: has_room_def)
  from wstate_write [OF u64_codec.codec_axioms u(1) 1(2) this] obtain bb2 where
    2: "WriteVarU (word_of_nat i :: u64) bb1 = Some bb2" "wstate h bb2 W ((X @ venc (unat ?t)) @ venc i)" "wframe bb1 bb2"
       "ptrs bb2 = ptrs bb1" by (auto simp: u)
  let ?ys = "venc (unat ?t) @ venc i"
  have ne: "venc (unat ?t) \<noteq> []" by (subst venc.simps) simp
  have ts: "?t \<noteq> 0" "?t < 2 \<longleftrightarrow> ?t = 1" "?t > 2 \<longrightarrow> creators ?t \<noteq> None"
    using type_small [of h "h ! a"] ok a by (auto simp: heap_ok_def)
  have rd: "\<exists>f' br' hr'. ReadPtr (Suc m) T br hr = Some (Inr (map_option f' (Some a)), br', hr') \<and>
        linked h (ptrs bb) (X @ ?ys) P R br' hr' f' \<and> filled {} h (ptrs bb) (ptrs bb) f f' hr hr'"
    if "linked h (ptrs bb) X P (?ys @ R) br hr f" for P R br hr f
  proof -
    from that have l: "linked h (ptrs bb) X P (venc (unat ?t) @ venc i @ R) br hr f" by simp
    from linked_read [OF u16_codec.codec_axioms ut l] obtain br1 where
      r1: "ReadVarU br = Some (Inr ?t, br1)" "linked h (ptrs bb) (X @ venc (unat ?t)) P (venc i @ R) br1 hr f" by blast
    have "linked h (ptrs bb) (X @ venc (unat ?t)) P (venc (unat (word_of_nat i :: u64)) @ R) br1 hr f" using r1(2) u by simp
    from linked_read [OF u64_codec.codec_axioms u(1) this] obtain br2 where
      r2: "ReadVarU br1 = Some (Inr (word_of_nat i :: u64), br2)" "linked h (ptrs bb) (X @ ?ys) P R br2 hr f" by (auto simp: u)
    have off: "sz_sub (offset br1) (offsetRoot br1) \<noteq> i" using rel_offset [OF r1(2)] i(1) by simp
    have "find_at T ?t i br2 hr = Inr (Some (f a))"
      using linked_entry [OF r2(2) s] a(2) is_a_type [of "hr ! f a" "h ! a" T]
      by (cases T) (auto simp: find_at_def entry_def)
    then have "ReadPtr (Suc m) T br hr = Some (Inr (Some (f a)), br2, hr)"
      using r1(1) r2(1) off ts u a(2) by (cases T) (auto simp: )
    with r2(2) show ?thesis by (intro exI [of _ f] exI [of _ br2] exI [of _ hr]) simp
  qed
  have "wrote h bb bb2 W X ?ys 8" using 1 2 venc3 [of ?t] venc5 [OF i(2)] by (auto simp: wrote_def intro: wframe_trans)
  moreover have "reads (ReadPtr (Suc m)) h T (Some a) (ptrs bb) X ?ys (ptrs bb2)"
    unfolding reads_def using rd s ne 1(4) 2(4) by (auto simp: known_def)
  ultimately show ?thesis using 1 2 s a(1) by (intro exI [of _ bb2] exI [of _ ?ys]) simp
qed

lemma string_new:
  assumes l: "linked h M Y P (venc (length Y) @ (venc (length s) @ s) @ R) br hr f" and a: "a \<notin> dom M" "h ! a = OString s"
    and s: "length s < 2 ^ 32"
    and br1: "br1 = br\<lparr>offset := length P + length Y + length (venc (length Y))\<rparr>"
  shows "\<exists>br'. make_at rp CString 1 (length Y) br1 hr = Some (Inr (Some (length hr)), br', hr @ [OString s]) \<and>
     linked h (M(a \<mapsto> length Y)) ((Y @ venc (length Y)) @ venc (length s) @ s) P R br' (hr @ [OString s]) (f(a := length hr))"
proof -
  let ?b = "br1\<lparr>strIdxs := (strIdxs br1)(length Y \<mapsto> length hr)\<rparr>"
  have "linked h (M(a \<mapsto> length Y)) (Y @ venc (length Y)) P ((venc (length s) @ s) @ R) ?b (hr @ [OString s]) (f(a := length hr))"
    by (rule linked_new [OF l a(1)]) (auto simp: a br1 intro!: bbuffer.equality)
  from linked_read [OF string_codec.codec_axioms s this] obtain br' where
    "String_ReadBB ?b = Some (Inr s, br')"
    "linked h (M(a \<mapsto> length Y)) ((Y @ venc (length Y)) @ venc (length s) @ s) P R br' (hr @ [OString s]) (f(a := length hr))" by blast
  then show ?thesis by (auto simp: make_at_def)
qed

lemma filled_new_object:
  assumes fl: "filled {length hr} h (M(a \<mapsto> i)) M' (f(a := length hr)) f' (hr @ [x]) hr'" and a: "a \<notin> dom M"
    and kn: "\<forall>v \<in> set (ptr_fields (h ! a)). known M' v" and x: "hr' ! length hr = map_obj f' (h ! a)"
  shows "filled {} h M M' f f' hr hr' \<and> known M' (Some a) \<and> f' a = length hr"
proof -
  have fa: "f' a = length hr" using filledD(4) [OF fl, of a] by simp
  have d: "dom (M(a \<mapsto> i)) \<subseteq> dom M'" by (rule filledD(2) [OF fl])
  have le: "M \<subseteq>\<^sub>m M(a \<mapsto> i)" using a by (auto simp: map_le_def)
  have new: "length hr \<le> f' b \<and> f' b < length hr' \<and> (\<forall>v \<in> set (ptr_fields (h ! b)). known M' v) \<and> hr' ! f' b = map_obj f' (h ! b)"
    if "b \<in> dom M' - dom M" for b
  proof (cases "b = a")
    case True
    then show ?thesis using fa kn x filledD(3) [OF fl] by simp
  next
    case False
    then have "b \<notin> dom (M(a \<mapsto> i))" "b \<in> dom M'" using that by auto
    from filled_new [OF fl this(2,1)] show ?thesis by auto
  qed
  have "filled {} h M M' f f' hr hr'" unfolding filled_def
  proof (intro conjI ballI allI impI)
    show "M \<subseteq>\<^sub>m M'" by (rule map_le_trans [OF le filledD(1) [OF fl]])
    show "f' b = f b" if "b \<in> dom M" for b using filledD(4) [OF fl, of b] that a by auto
    show "length hr \<le> length hr'" using filledD(3) [OF fl] by simp
    show "hr' ! j = hr ! j" if "j < length hr" for j using filledD(5) [OF fl, of j] that by (simp add: nth_append)
  qed (use new in blast)+
  then show ?thesis using fa d by (auto simp: known_def)
qed

lemma make_at_new:
  assumes "T \<noteq> CString" and "is_a x T" and "obj_ok h x" and "GetTypeId x \<noteq> 1"
  shows "make_at rp T (GetTypeId x) po bb hr = do {
     (r, bb1, h1) \<leftarrow> FromBBuffer rp (length hr) (bb\<lparr>objIdxs := (objIdxs bb)(po \<mapsto> length hr)\<rparr>) (hr @ [blank x]);
     Some (if r \<noteq> 0 then Inl r else Inr (Some (length hr)), bb1, h1) }"
proof -
  have "(if GetTypeId x = 2 then Some (OBBuffer []) else CreateByTypeId (GetTypeId x)) = Some (blank x)"
    using assms(3,4) by (cases x) (auto simp: CreateByTypeId_def creators_def blank_def)
  moreover have "is_a (blank x) T" using assms(2) is_a_type [of "blank x" x T] by simp
  ultimately show ?thesis using assms(1) by (simp add: make_at_def)
qed

lemma new_head:
  assumes ut: "unat (t :: u16) < 2 ^ 32" and u: "unat (word_of_nat (length Y) :: u64) < 2 ^ 32" "unat (word_of_nat (length Y) :: u64) = length Y"
    and Y: "Y = X @ venc (unat t)" and l: "linked h M X P (venc (unat t) @ venc (length Y) @ R) br hr f"
  obtains br1 where "ReadVarU br = Some (Inr t, br1)" "linked h M Y P (venc (length Y) @ R) br1 hr f"
    "ReadVarU br1 = Some (Inr (word_of_nat (length Y) :: u64), br1\<lparr>offset := length P + length Y + length (venc (length Y))\<rparr>)"
    "sz_sub (offset br1) (offsetRoot br1) = length Y"
proof -
  obtain br1 where r: "ReadVarU br = Some (Inr t, br1)" "linked h M Y P (venc (length Y) @ R) br1 hr f"
    using linked_read [OF u16_codec.codec_axioms ut l] Y by blast
  have "linked h M Y P (venc (unat (word_of_nat (length Y) :: u64)) @ R) br1 hr f" using r(2) u(2) by simp
  from linked_read_at [OF u64_codec.codec_axioms u(1) this] u(2) r rel_offset [OF r(2)] that show thesis by simp
qed

lemma null_step:
  assumes w: "wstate h bb W X" and rm: "has_room h (Suc n) bb W X 8"
  shows "\<exists>bb' ys. WritePtr (Suc n) h None bb = Some bb' \<and> wrote h bb bb' W X ys 8 \<and>
        reads (ReadPtr (Suc m)) h T None (ptrs bb) X ys (ptrs bb')"
proof -
  have u: "unat (0 :: u16) < 2 ^ 32" by simp
  have "length W + length X + length (venc (unat (0 :: u16))) + 16 \<le> 2 ^ 62" using rm venc3 [of 0] by (simp add: has_room_def)
  from wstate_write [OF u16_codec.codec_axioms u w this] obtain bb' where
    1: "WriteVarU (0 :: u16) bb = Some bb'" "wstate h bb' W (X @ venc (unat (0 :: u16)))" "wframe bb bb'" "ptrs bb' = ptrs bb" by blast
  let ?ys = "venc (unat (0 :: u16))"
  have ne: "?ys \<noteq> []" by (subst venc.simps) simp
  have rr: "\<exists>f' br' hr'. ReadPtr (Suc m) T br hr = Some (Inr (map_option f' None), br', hr') \<and>
        linked h (ptrs bb) (X @ ?ys) P R br' hr' f' \<and> filled {} h (ptrs bb) (ptrs bb) f f' hr hr'"
    if l: "linked h (ptrs bb) X P (?ys @ R) br hr f" for P R br hr f
  proof -
    obtain br1 where "ReadVarU br = Some (Inr (0 :: u16), br1)" "linked h (ptrs bb) (X @ ?ys) P R br1 hr f"
      using linked_read [OF u16_codec.codec_axioms u l] by blast
    then show ?thesis by (intro exI [of _ f] exI [of _ br1] exI [of _ hr]) simp
  qed
  have "wrote h bb bb' W X ?ys 8" using 1 venc3 [of 0] by (simp add: wrote_def)
  moreover have "reads (ReadPtr (Suc m)) h T None (ptrs bb) X ?ys (ptrs bb')"
    unfolding reads_def 1(4) using rr ne by (simp add: known_def)
  ultimately show ?thesis using 1(1) by (intro exI [of _ bb'] exI [of _ ?ys]) simp
qed

lemma new_step:
  assumes st: "ptr_step h n" "n \<le> m" and w: "wstate h bb W X" and rm: "has_room h (Suc n) bb W X 8" and ok: "heap_ok h"
    and v: "ptr_ok h T (Some a)" and pl: "\<not> is_player (h ! a)" and s: "ptrs bb a = None"
  shows "\<exists>bb' ys. WritePtr (Suc n) h (Some a) bb = Some bb' \<and> wrote h bb bb' W X ys 8 \<and>
        reads (ReadPtr (Suc m)) h T (Some a) (ptrs bb) X ys (ptrs bb')"
proof -
  let ?x = "h ! a"
  let ?t = "GetTypeId ?x"
  let ?Y = "X @ venc (unat ?t)"
  have a: "a < length h" "is_a ?x T" using v by (auto simp: ptr_ok_def)
  have ox: "obj_ok h ?x" using ok a(1) by (simp add: heap_ok_def)
  have ut: "unat ?t < 2 ^ 32" using unsigned_less [of ?t, where 'a = nat] by simp
  have "length W + length X + length (venc (unat ?t)) + 16 \<le> 2 ^ 62" using rm venc3 [of ?t] by (simp add: has_room_def)
  from wstate_write [OF u16_codec.codec_axioms ut w this] obtain bb1 where
    1: "WriteVarU ?t bb = Some bb1" "wstate h bb1 W ?Y" "wframe bb bb1" "ptrs bb1 = ptrs bb" by blast
  have offs: "sz_sub (llen bb1) (offsetRoot bb1) = length ?Y"
    using 1(2) lrep_length [of 1 bb1 "W @ ?Y"] lrep_len_bound [of 1 bb1 "W @ ?Y"] by (auto simp: wstate_def intro!: sz_sub_exact)
  have Y: "length W + length ?Y + 40 \<le> 2 ^ 32" using rm venc3 [of ?t] by (simp add: has_room_def)
  then have Y32: "length ?Y < 2 ^ 32" by simp
  have u: "unat (word_of_nat (length ?Y) :: u64) < 2 ^ 32" "unat (word_of_nat (length ?Y) :: u64) = length ?Y"
    using unat_small [OF Y32] Y32 by simp_all
  from write_new [OF 1(2) a(1) Y] obtain bb2 where
    2: "WriteVarU (word_of_nat (length ?Y) :: u64) (bb1\<lparr>ptrs := (ptrs bb1)(a \<mapsto> length ?Y)\<rparr>) = Some bb2"
       "wstate h bb2 W (?Y @ venc (length ?Y))" "ptrs bb2 = (ptrs bb)(a \<mapsto> length ?Y)"
       "objIdxs bb2 = objIdxs bb1" "strIdxs bb2 = strIdxs bb1" "readLengthLimit bb2 = readLengthLimit bb1"
    using 1(4) by auto
  have an: "a \<notin> dom (ptrs bb)" using s by auto
  have bd: "budget h (ptrs bb) = osize ?x + budget h (ptrs bb2)" and us: "unseen h (ptrs bb) = Suc (unseen h (ptrs bb2))"
    unfolding 2(3) by (rule budget_insert [OF a(1) an], rule unseen_insert [OF a(1) an])
  have rm2: "has_room h n bb2 W (?Y @ venc (length ?Y)) (osize ?x)"
    using rm bd us venc3 [of ?t] venc5 [OF Y32] by (simp add: has_room_def)
  have fr: "wframe bb bb2" using 1(3,4) 2(3-6) s by (auto simp: wframe_def map_le_def)
  have ne: "venc (unat ?t) \<noteq> []" by (subst venc.simps) simp
  show ?thesis
  proof (cases "?t = 1")
    case False
    have "body_step h n m ?x bb2 W (?Y @ venc (length ?Y))" by (rule body_ok [OF st 2(2) rm2 ox pl False])
    then obtain bb' ys where 3: "ToBBuffer (WritePtr n h) ?x bb2 = Some bb'"
        "wrote h bb2 bb' W (?Y @ venc (length ?Y)) ys (osize ?x)" "\<forall>v \<in> set (ptr_fields ?x). known (ptrs bb') v"
      and rd: "\<forall>P R br hr f c. linked h (ptrs bb2) (?Y @ venc (length ?Y)) P (ys @ R) br hr f \<longrightarrow> c < length hr \<longrightarrow> hr ! c = blank ?x \<longrightarrow>
        (\<exists>f' br' hr'. FromBBuffer (ReadPtr m) c br hr = Some (0, br', hr') \<and>
           linked h (ptrs bb') ((?Y @ venc (length ?Y)) @ ys) P R br' hr' f' \<and> filled {c} h (ptrs bb2) (ptrs bb') f f' hr hr' \<and>
           hr' ! c = map_obj f' ?x)" unfolding body_step_def by blast
    let ?ys = "venc (unat ?t) @ venc (length ?Y) @ ys"
    have T: "T \<noteq> CString" using a(2) False by auto
    have rr: "\<exists>f' br' hr'. ReadPtr (Suc m) T br hr = Some (Inr (map_option f' (Some a)), br', hr') \<and>
        linked h (ptrs bb') (X @ ?ys) P R br' hr' f' \<and> filled {} h (ptrs bb) (ptrs bb') f f' hr hr'"
      if "linked h (ptrs bb) X P (?ys @ R) br hr f" for P R br hr f
    proof -
      have l: "linked h (ptrs bb) X P (venc (unat ?t) @ venc (length ?Y) @ ys @ R) br hr f"
        using that by (simp only: append_assoc)
      obtain br1 where r1: "ReadVarU br = Some (Inr ?t, br1)" "linked h (ptrs bb) ?Y P (venc (length ?Y) @ ys @ R) br1 hr f"
          "ReadVarU br1 = Some (Inr (word_of_nat (length ?Y) :: u64), br1\<lparr>offset := length P + length ?Y + length (venc (length ?Y))\<rparr>)"
          "sz_sub (offset br1) (offsetRoot br1) = length ?Y"
        by (rule new_head [OF ut u refl l])
      let ?b = "br1\<lparr>offset := length P + length ?Y + length (venc (length ?Y))\<rparr>"
      let ?c = "?b\<lparr>objIdxs := (objIdxs ?b)(length ?Y \<mapsto> length hr)\<rparr>"
      have "linked h (ptrs bb2) (?Y @ venc (length ?Y)) P (ys @ R) ?c (hr @ [blank ?x]) (f(a := length hr))"
        unfolding 2(3) by (rule linked_new [OF r1(2) an]) (use False in \<open>auto intro!: bbuffer.equality\<close>)
      from rd [rule_format, OF this, of "length hr"] obtain f' br' hr' where
        r: "FromBBuffer (ReadPtr m) (length hr) ?c (hr @ [blank ?x]) = Some (0, br', hr')"
           "linked h (ptrs bb') ((?Y @ venc (length ?Y)) @ ys) P R br' hr' f'"
           "filled {length hr} h (ptrs bb2) (ptrs bb') (f(a := length hr)) f' (hr @ [blank ?x]) hr'"
           "hr' ! length hr = map_obj f' ?x" by auto
      have fl: "filled {} h (ptrs bb) (ptrs bb') f f' hr hr'" "f' a = length hr"
        using filled_new_object [OF r(3) [unfolded 2(3)] an 3(3) r(4)] by auto
      have "ReadPtr (Suc m) T br hr = make_at (ReadPtr m) T ?t (length ?Y) ?b hr"
        using r1 type_small [OF ox] T False u(2) by auto
      also have "\<dots> = Some (Inr (Some (length hr)), br', hr')"
        unfolding make_at_new [OF T a(2) ox False] using r(1) by simp
      finally show ?thesis using r(2) fl by (intro exI [of _ f'] exI [of _ br'] exI [of _ hr']) simp
    qed
    have kn: "known (ptrs bb') (Some a)"
      by (rule known_mono [of "ptrs bb2"]) (use 3(2) 2(3) in \<open>simp_all add: wrote_def wframe_def known_def\<close>)
    have "wrote h bb bb' W X ?ys 8"
      using 3(2) bd venc3 [of ?t] venc5 [OF Y32] fr by (auto simp: wrote_def intro: wframe_trans)
    moreover have "reads (ReadPtr (Suc m)) h T (Some a) (ptrs bb) X ?ys (ptrs bb')"
      unfolding reads_def using rr kn ne by blast
    ultimately show ?thesis using 1 2(1) 3(1) s a(1) offs by (intro exI [of _ bb'] exI [of _ ?ys]) (simp add: Let_def)
  next
    case True
    then obtain str where str: "?x = OString str" using type_small [OF ox] by blast
    have ls: "length str < 2 ^ 32" using rm bd str by (simp add: has_room_def)
    let ?e = "venc (length str) @ str"
    have "length W + length (?Y @ venc (length ?Y)) + length ?e + 16 \<le> 2 ^ 62"
      using rm2 str venc5 [OF ls] by (simp add: has_room_def)
    from wstate_write [OF string_codec.codec_axioms ls 2(2) this] obtain bb' where
      3: "String_WriteBB str bb2 = Some bb'" "wstate h bb' W ((?Y @ venc (length ?Y)) @ ?e)" "wframe bb2 bb'" "ptrs bb' = ptrs bb2" by blast
    let ?ys = "venc (unat ?t) @ venc (length ?Y) @ ?e"
    have T: "T = CString" using a(2) True by (cases T) auto
    have rr: "\<exists>f' br' hr'. ReadPtr (Suc m) T br hr = Some (Inr (map_option f' (Some a)), br', hr') \<and>
        linked h (ptrs bb') (X @ ?ys) P R br' hr' f' \<and> filled {} h (ptrs bb) (ptrs bb') f f' hr hr'"
      if "linked h (ptrs bb) X P (?ys @ R) br hr f" for P R br hr f
    proof -
      have l: "linked h (ptrs bb) X P (venc (unat ?t) @ venc (length ?Y) @ ?e @ R) br hr f"
        using that by (simp only: append_assoc)
      obtain br1 where r1: "ReadVarU br = Some (Inr ?t, br1)" "linked h (ptrs bb) ?Y P (venc (length ?Y) @ ?e @ R) br1 hr f"
          "ReadVarU br1 = Some (Inr (word_of_nat (length ?Y) :: u64), br1\<lparr>offset := length P + length ?Y + length (venc (length ?Y))\<rparr>)"
          "sz_sub (offset br1) (offsetRoot br1) = length ?Y"
        by (rule new_head [OF ut u refl l])
      let ?b = "br1\<lparr>offset := length P + length ?Y + length (venc (length ?Y))\<rparr>"
      from string_new [OF r1(2) an str ls refl, of "ReadPtr m"] obtain br' where
        r: "make_at (ReadPtr m) CString 1 (length ?Y) ?b hr = Some (Inr (Some (length hr)), br', hr @ [OString str])"
           "linked h ((ptrs bb)(a \<mapsto> length ?Y)) ((?Y @ venc (length ?Y)) @ ?e) P R br' (hr @ [OString str]) (f(a := length hr))" by blast
      have fl: "filled {} h (ptrs bb) (ptrs bb') f (f(a := length hr)) hr (hr @ [OString str])"
        unfolding 3(4) 2(3) by (rule filled_new_object [OF filled_refl an, THEN conjunct1]) (simp_all add: str)
      have "ReadPtr (Suc m) T br hr = make_at (ReadPtr m) T ?t (length ?Y) ?b hr"
        using r1 True T u(2) by simp
      then show ?thesis using r fl True T 3(4) 2(3)
        by (intro exI [of _ "f(a := length hr)"] exI [of _ br'] exI [of _ "hr @ [OString str]"]) simp
    qed
    have kn: "known (ptrs bb') (Some a)" using 3(4) 2(3) by (simp add: known_def)
    have "wrote h bb bb' W X ?ys 8"
      using 3 bd venc3 [of ?t] venc5 [OF Y32] venc5 [OF ls] fr str by (auto simp: wrote_def intro: wframe_trans)
    moreover have "reads (ReadPtr (Suc m)) h T (Some a) (ptrs bb) X ?ys (ptrs bb')"
      unfolding reads_def using rr kn ne by blast
    ultimately show ?thesis using 1 2(1) 3(1) s a(1) offs str
      by (intro exI [of _ bb'] exI [of _ ?ys]) (simp add: Let_def ToBBuffer_eq)
  qed
qed

lemma ptr_step_all:
  assumes ok: "heap_ok h" and pl: "\<forall>x \<in> set h. \<not> is_player x"
  shows "ptr_step h n"
proof (induction n)
  case 0
  show ?case by (simp add: ptr_step_def has_room_def)
next
  case (Suc n)
  show ?case unfolding ptr_step_def
  proof (intro allI impI)
    fix m T v bb W X
    assume m: "Suc n \<le> m" and v: "ptr_ok h T v" and w: "wstate h bb W X" and rm: "has_room h (Suc n) bb W X 8"
    obtain m' where m': "m = Suc m'" "n \<le> m'" using m by (cases m) auto
    show "\<exists>bb' ys. WritePtr (Suc n) h v bb = Some bb' \<and> wrote h bb bb' W X ys 8 \<and>
        reads (ReadPtr m) h T v (ptrs bb) X ys (ptrs bb')"
    proof (cases v)
      case None
      then show ?thesis using null_step [OF w rm] m'(1) by simp
    next
      case (Some a)
      show ?thesis
      proof (cases "ptrs bb a")
        case None
        have "\<not> is_player (h ! a)" using pl v Some by (simp add: ptr_ok_def)
        then show ?thesis using new_step [OF Suc.IH m'(2) w rm ok _ _ None, of T] v Some m'(1) by simp
      next
        case (Some i)
        then show ?thesis using seen_step [OF w rm ok _ Some, of T m'] v \<open>v = Some a\<close> m'(1) by simp
      qed
    qed
  qed
qed

section \<open>A whole message\<close>

text \<open>
  Two graphs are the same when a renaming of the objects met takes one to the other.
\<close>

definition isomorphic :: "(nat \<Rightarrow> nat) \<Rightarrow> nat set \<Rightarrow> heap \<times> ptr \<Rightarrow> heap \<times> ptr \<Rightarrow> bool" where
  "isomorphic f D g g' \<longleftrightarrow> inj_on f D \<and> snd g' = map_option f (snd g) \<and> (\<forall>a. snd g = Some a \<longrightarrow> a \<in> D) \<and>
     (\<forall>a \<in> D. a < length (fst g) \<and> f a < length (fst g') \<and> fst g' ! f a = map_obj f (fst g ! a) \<and>
        (\<forall>b. Some b \<in> set (ptr_fields (fst g ! a)) \<longrightarrow> b \<in> D))"

text \<open>
  The pointers that keep their target alive: the list of children of a \<^verbatim>\<open>Foo\<close> is shared, its
  elements and the parent are weak.
\<close>

fun strong_fields :: "pobj \<Rightarrow> ptr list" where
  "strong_fields (OFoo parent childs) = [childs]"
| "strong_fields (OPlayer i token target) = [token]"
| "strong_fields (OScene monsters players) = [monsters, players]"
| "strong_fields (OSync players scene) = [players, scene]"
| "strong_fields (OList t ps) = (if t = 8 \<or> t = 11 then ps else [])"
| "strong_fields _ = []"

text \<open>
  \<open>held g a\<close>: the object \<open>a\<close> is kept alive by the root.
\<close>

inductive held :: "heap \<times> ptr \<Rightarrow> nat \<Rightarrow> bool" for g where
  root: "snd g = Some a \<Longrightarrow> held g a"
| field: "held g a \<Longrightarrow> Some b \<in> set (strong_fields (fst g ! a)) \<Longrightarrow> held g b"

lemma strong_subset: "set (strong_fields x) \<subseteq> set (ptr_fields x)"
  by (cases x) auto

lemma strong_map_obj: "strong_fields (map_obj f x) = map (map_option f) (strong_fields x)"
  by (cases x) auto

lemma held_isomorphic:
  assumes iso: "isomorphic f D g g'" and a: "held g a"
  shows "a \<in> D \<and> held g' (f a)"
  using a
proof (induction rule: held.induct)
  case (root a)
  then show ?case using iso by (auto simp: isomorphic_def intro: held.root)
next
  case (field a b)
  have "b \<in> D" using iso field strong_subset [of "fst g ! a"] by (auto simp: isomorphic_def)
  moreover have "Some (f b) \<in> set (strong_fields (fst g' ! f a))"
    using iso field.IH field.hyps(2) by (auto simp: isomorphic_def strong_map_obj image_iff intro!: bexI [of _ "Some b"])
  ultimately show ?case using field.IH held.field [of g' "f a" "f b"] by blast
qed

text \<open>
  The renaming covers every object that the root keeps alive, and takes it to one that the new root
  keeps alive; so the copy does not lose objects when the tables of \<^verbatim>\<open>ReadRoot\<close> are cleared.
\<close>

definition same_graph :: "heap \<times> ptr \<Rightarrow> heap \<times> ptr \<Rightarrow> bool" where
  "same_graph g g' \<longleftrightarrow> (\<exists>f D. isomorphic f D g g' \<and> (\<forall>a. held g a \<longrightarrow> a \<in> D \<and> held g' (f a)))"

lemma same_graphI: "isomorphic f D g g' \<Longrightarrow> same_graph g g'"
  unfolding same_graph_def using held_isomorphic by metis

lemma graph_written_and_read:
  assumes ok: "heap_ok h" "\<forall>x \<in> set h. \<not> is_player x" and v: "ptr_ok h CObject v"
    and n: "length h < n" "n \<le> m" and rep: "lrep 1 bb W" and i: "ptrs bb = Map.empty"
    and sz: "length W + (\<Sum>x \<leftarrow> h. osize x) + 48 \<le> 2 ^ 32"
  shows "\<exists>bb' ys. WriteRoot n h v bb = Some bb' \<and> lrep 1 bb' (W @ ys) \<and> length ys \<le> (\<Sum>x \<leftarrow> h. osize x) + 8 \<and>
     ptrs bb' = Map.empty \<and> objIdxs bb' = objIdxs bb \<and> strIdxs bb' = strIdxs bb \<and> readLengthLimit bb' = readLengthLimit bb \<and>
     (\<forall>br P R. holds br (P @ ys @ R) \<longrightarrow> length (P @ ys @ R) < SIZE_BOUND \<longrightarrow> offset br = length P \<longrightarrow> readLengthLimit br = 0 \<longrightarrow>
        objIdxs br = Map.empty \<longrightarrow> strIdxs br = Map.empty \<longrightarrow>
        (\<exists>v' br' h'. ReadRoot m br [] = Some (Inr v', br', h') \<and> same_graph (h, v) (h', v') \<and>
           readLengthLimit br' = 0 \<and> offset br' = length P + length ys))"
proof -
  let ?b = "bb\<lparr>offsetRoot := llen bb\<rparr>"
  have sum: "budget h Map.empty = (\<Sum>x \<leftarrow> h. osize x)"
    by (simp add: budget_def sum_list_sum_nth atLeast0LessThan)
  have "lrep 1 ?b W = lrep 1 bb W" by (rule lrep_cong) simp_all
  then have w: "wstate h ?b W []" using rep i lrep_length [OF rep] by (simp add: wstate_def)
  have rm: "has_room h n ?b W [] 8" using n(1) sz sum i by (simp add: has_room_def unseen_def)
  obtain bb1 ys where 1: "WritePtr n h v ?b = Some bb1" "wrote h ?b bb1 W [] ys 8"
      "reads (ReadPtr m) h CObject v (ptrs ?b) [] ys (ptrs bb1)"
    by (rule ptr_stepE [OF ptr_step_all [OF ok] n(2) v w rm])
  let ?bb = "bb1\<lparr>ptrs := Map.empty\<rparr>"
  have "lrep 1 ?bb (W @ ys) = lrep 1 bb1 (W @ ys)" by (rule lrep_cong) simp_all
  then have 2: "lrep 1 ?bb (W @ ys)" "length ys \<le> (\<Sum>x \<leftarrow> h. osize x) + 8" "WriteRoot n h v bb = Some ?bb"
      "objIdxs ?bb = objIdxs bb" "strIdxs ?bb = strIdxs bb" "readLengthLimit ?bb = readLengthLimit bb"
    using 1(1,2) i sum by (simp_all add: wrote_def wstate_def wframe_def WriteRoot_def)
  have "\<exists>v' br' h'. ReadRoot m br [] = Some (Inr v', br', h') \<and> same_graph (h, v) (h', v') \<and>
      readLengthLimit br' = 0 \<and> offset br' = length P + length ys"
    if r: "holds br (P @ ys @ R)" "length (P @ ys @ R) < SIZE_BOUND" "offset br = length P" "readLengthLimit br = 0"
      "objIdxs br = Map.empty" "strIdxs br = Map.empty" for br P R
  proof -
    let ?r = "br\<lparr>offsetRoot := offset br\<rparr>"
    have "linked h (ptrs ?b) [] P (ys @ R) ?r [] id" using r i by (simp add: linked_def holds_def)
    from readsE [OF 1(3) this] obtain f br1 h1 where
      3: "ReadPtr m CObject ?r [] = Some (Inr (map_option f v), br1, h1)"
         "linked h (ptrs bb1) ([] @ ys) P R br1 h1 f" "filled {} h (ptrs ?b) (ptrs bb1) id f [] h1" .
    have "isomorphic f (dom (ptrs bb1)) (h, v) (h1, map_option f v)" unfolding isomorphic_def fst_conv snd_conv
    proof (intro conjI ballI allI impI)
      show "inj_on f (dom (ptrs bb1))" using 3(2) by (simp add: linked_def)
      show "a \<in> dom (ptrs bb1)" if "v = Some a" for a using 1(3) that by (simp add: reads_def known_def)
      fix a assume a: "a \<in> dom (ptrs bb1)"
      show "a < length h" using a 1(2) by (auto simp: wrote_def wstate_def)
      have "a \<notin> dom (ptrs ?b)" using i by simp
      note new = filled_new [OF 3(3) a this]
      show "f a < length h1" "h1 ! f a = map_obj f (h ! a)" by (rule new(2), rule new(3))
      show "b \<in> dom (ptrs bb1)" if "Some b \<in> set (ptr_fields (h ! a))" for b
        using new(4) [OF that] by (simp add: known_def)
    qed simp
    from same_graphI [OF this] show ?thesis using 3(1,2) r(5,6)
      by (intro exI [of _ "map_option f v"] exI [of _ "br1\<lparr>objIdxs := Map.empty, strIdxs := Map.empty\<rparr>"] exI [of _ h1])
        (simp add: ReadRoot_def linked_def)
  qed
  with 2 show ?thesis by (intro exI [of _ ?bb] exI [of _ ys]) auto
qed



section \<open>A player cannot be sent\<close>

text \<open>
  The generator leaves the member \<^verbatim>\<open>token\<close>, marked as not serialised, out of \<^verbatim>\<open>Player::ToBBuffer\<close> but not out of
  \<^verbatim>\<open>Player::FromBBufferCore\<close>, so the reader takes the bytes of the next member for the token.
\<close>

lemma ReadVarU_end: "offset bb = llen bb \<Longrightarrow> (ReadVarU bb :: ('w::len word rres \<times> bbuffer) option) = Some (Inl (- 9), bb)"
  unfolding ReadVarU_def by (subst var_get.simps) simp

lemma venc_byte: "n < 128 \<Longrightarrow> venc n = [word_of_nat n]"
  by (subst venc.simps) simp

lemma more_step:
  assumes c: "codec wr rd enc ok" and "ok v" "lrep 1 bb xs" "length xs + length (enc v) \<le> 1000"
  obtains bb' where "wr v bb = Some bb'" and "lrep 1 bb' (xs @ enc v)" and "xx_list.more bb' = xx_list.more bb"
  using codec.wr_ok [OF c assms(2,3)] assms(4) that by (auto simp: lstep_def fits_def)

lemma write_player:
  "\<exists>bb. WriteRoot 2 [OPlayer i tok None] (Some 0) BBuffer_new = Some bb \<and>
     lrep 1 bb ([5, 1] @ venc (unat (ZigZagEncode i)) @ [0]) \<and> objIdxs bb = Map.empty \<and> strIdxs bb = Map.empty \<and>
     readLengthLimit bb = 0 \<and> offset bb = 0"
proof -
  let ?z = "venc (unat (ZigZagEncode i))" and ?b0 = "BBuffer_new\<lparr>offsetRoot := 0\<rparr>"
  have z: "unat (ZigZagEncode i) < 2 ^ 32" using unsigned_less [of "ZigZagEncode i", where 'a = nat] by simp
  have lz: "length ?z \<le> 5" by (rule venc5 [OF z])
  have r0: "lrep 1 ?b0 []" using lrep_BBuffer_new by (simp add: BBuffer_new_def)
  obtain b1 where 1: "WriteVarU (5 :: u16) ?b0 = Some b1" "lrep 1 b1 ([] @ venc (unat (5 :: u16)))" "xx_list.more b1 = xx_list.more ?b0"
    using more_step [OF u16_codec.codec_axioms, of 5, OF _ r0] by (simp add: venc_byte) blast
  let ?b1 = "b1\<lparr>ptrs := (ptrs b1)(0 \<mapsto> 1)\<rparr>"
  have "lrep 1 ?b1 [5] = lrep 1 b1 [5]" by (rule lrep_cong) simp_all
  then have r1: "lrep 1 ?b1 [5]" using 1(2) by (simp add: venc_byte)
  obtain b2 where 2: "WriteVarU (1 :: u64) ?b1 = Some b2" "lrep 1 b2 ([5] @ venc (unat (1 :: u64)))" "xx_list.more b2 = xx_list.more ?b1"
    using more_step [OF u64_codec.codec_axioms, of 1, OF _ r1] by (simp add: venc_byte) blast
  obtain b3 where 3: "WriteVarS i b2 = Some b3" "lrep 1 b3 (([5] @ venc (unat (1 :: u64))) @ ?z)" "xx_list.more b3 = xx_list.more b2"
    using more_step [OF s32_codec.codec_axioms, of i, OF _ 2(2)] z lz by (simp add: venc_byte) blast
  obtain b4 where 4: "WriteVarU (0 :: u16) b3 = Some b4" "lrep 1 b4 ((([5] @ venc (unat (1 :: u64))) @ ?z) @ venc (unat (0 :: u16)))"
      "xx_list.more b4 = xx_list.more b3"
    using more_step [OF u16_codec.codec_axioms, of 0, OF _ 3(2)] lz by (simp add: venc_byte) blast
  have m: "ptrs b1 = Map.empty" "offsetRoot b1 = 0" "llen b1 = 1"
    using more_fields [OF 1(3)] lrep_length [OF 1(2)] by (simp_all add: BBuffer_new_def venc_byte)
  have sub: "sz_sub (Suc 0) 0 = Suc 0" by (simp add: sz_sub_def SIZE_BOUND_def)
  let ?b = "b4\<lparr>ptrs := Map.empty\<rparr>"
  have "WriteRoot 2 [OPlayer i tok None] (Some 0) BBuffer_new = Some ?b"
    using 1(1) 2(1) 3(1) 4(1) m sub
    by (simp add: WriteRoot_def numeral_2_eq_2 Let_def ToBBuffer_eq BBuffer_new_def)
  moreover have "lrep 1 ?b ([5, 1] @ ?z @ [0]) = lrep 1 b4 ([5, 1] @ ?z @ [0])" by (rule lrep_cong) simp_all
  then have "lrep 1 ?b ([5, 1] @ ?z @ [0])" using 4(2) by (simp add: venc_byte)
  moreover have "objIdxs ?b = Map.empty \<and> strIdxs ?b = Map.empty \<and> readLengthLimit ?b = 0 \<and> offset ?b = 0"
    using more_fields [OF 1(3)] more_fields [OF 2(3)] more_fields [OF 3(3)] more_fields [OF 4(3)] by (simp add: BBuffer_new_def)
  ultimately show ?thesis by blast
qed

lemma read_player:
  assumes "holds bb ([5, 1] @ venc (unat (ZigZagEncode i)) @ [0])" "objIdxs bb = Map.empty" "strIdxs bb = Map.empty"
    "readLengthLimit bb = 0" "offset bb = 0"
  shows "\<exists>bb'. ReadRoot 2 bb [] = Some (Inl (- 9), bb', [OPlayer i None None])"
proof -
  let ?z = "venc (unat (ZigZagEncode i))"
  have z: "unat (ZigZagEncode i) < 2 ^ 32" using unsigned_less [of "ZigZagEncode i", where 'a = nat] by simp
  have lz: "length ?z \<le> 5" by (rule venc5 [OF z])
  obtain b c l r p where bb: "bb = \<lparr>lbuf = b, lcap = c, llen = l, offset = 0, offsetRoot = r, readLengthLimit = 0, ptrs = p,
      objIdxs = Map.empty, strIdxs = Map.empty\<rparr>" using assms(2-5) by (cases bb) simp
  define B where "B m k = \<lparr>lbuf = b, lcap = c, llen = l, offset = k, offsetRoot = 0, readLengthLimit = 0, ptrs = p,
      objIdxs = m, strIdxs = Map.empty\<rparr>" for m k
  have B: "holds (B m k) ([5, 1] @ ?z @ [0])" "offset (B m k) = k" "(B m k)\<lparr>offset := k'\<rparr> = B m k'" "readLengthLimit (B m k) = 0"
      "(B m k)\<lparr>objIdxs := m'\<rparr> = B m' k" "offsetRoot (B m k) = 0" "no_limit (B m k) = B m k" "objIdxs (B m k) = m"
      "bb\<lparr>offsetRoot := 0\<rparr> = B Map.empty 0" for m k k' m'
    using assms(1) by (simp_all add: holds_def B_def bb)
  have 1: "ReadVarU (B m 0) = Some (Inr (5 :: u16), B m 1)" for m
    using u16_codec.rd_ok [of 5 "B m 0" "[]" "[1] @ ?z @ [0]"] B lz by (simp add: venc_byte SIZE_BOUND_def)
  have 2: "ReadVarU (B m 1) = Some (Inr (1 :: u64), B m 2)" for m
    using u64_codec.rd_ok [of 1 "B m 1" "[5]" "?z @ [0]"] B lz by (simp add: venc_byte SIZE_BOUND_def) (simp add: numeral_2_eq_2)
  have 3: "ReadVarS (B m 2) = Some (Inr i, B m (2 + length ?z))" for m
    using s32_codec.rd_ok [of i "B m 2" "[5, 1]" "[0]"] B lz z by (simp add: SIZE_BOUND_def)
  have 4: "ReadVarU (B m (2 + length ?z)) = Some (Inr (0 :: u16), B m (3 + length ?z))" for m
    using u16_codec.rd_ok [of 0 "B m (2 + length ?z)" "[5, 1] @ ?z" "[]"] B lz by (simp add: venc_byte SIZE_BOUND_def) (simp add: numeral_3_eq_3)
  have 5: "(ReadVarU (B m (3 + length ?z)) :: (u16 rres \<times> bbuffer) option) = Some (Inl (- 9), B m (3 + length ?z))" for m
    by (rule ReadVarU_end) (use assms(1) in \<open>simp add: holds_def B_def bb\<close>)
  have sub: "sz_sub 1 0 = 1" by (simp add: sz_sub_def SIZE_BOUND_def)
  obtain k k1 where k: "\<And>m. ReadVarS (B m 2) = Some (Inr i, B m k)" "\<And>m. ReadVarU (B m k) = Some (Inr (0 :: u16), B m k1)"
      "\<And>m. (ReadVarU (B m k1) :: (u16 rres \<times> bbuffer) option) = Some (Inl (- 9), B m k1)" using 3 4 5 by blast
  have P: "ReadPtr (Suc 0) CString (B m k) h = Some (Inr None, B m k1, h)" for m h
    by (simp add: k)
  have Q: "ReadPtr (Suc 0) (COf 6) (B m k1) h = Some (Inl (- 9), B m k1, h)" for m h
    by (simp add: k)
  have F: "FromBBuffer (ReadPtr (Suc 0)) 0 (B m 2) [OPlayer 0 None None] = Some (- 9, B m k1, [OPlayer i None None])" for m
    by (simp add: FromBBuffer_eq k B(7) and_then_def read_field_def P Q)
  have "make_at (ReadPtr (Suc 0)) CObject 5 1 (B m 2) [] = Some (Inl (- 9), B (m(1 \<mapsto> 0)) k1, [OPlayer i None None])" for m
    using F by (simp add: make_at_def CreateByTypeId_def creators_def B)
  then have "ReadPtr (Suc (Suc 0)) CObject (B m 0) [] = Some (Inl (- 9), B (m(1 \<mapsto> 0)) k1, [OPlayer i None None])" for m
    using 1 2 B sub by (subst ReadPtr.simps) (simp add: creators_def)
  then show ?thesis using assms(2,3,5) B(9) by (simp add: ReadRoot_def numeral_2_eq_2)
qed


end
