(* ===== verification/Messages.thy ===== *)
theory Messages
  imports Peers GraphTrip
begin

text \<open>
  Object graphs of the generated package as the messages of the peers: the interface \<open>msg_codec\<close> of theory
  \<open>Peers\<close> is interpreted on the graph writer and reader, which gives the end-to-end properties of the
  TCP peer: pushes arrive, requests are answered, callbacks are called once.
\<close>

section \<open>Object graphs as messages\<close>

text \<open>
  The message type of the generated package: a heap and a root. \<^verbatim>\<open>sendBB.WriteRoot(data)\<close> and
  \<^verbatim>\<open>recvBB.ReadRoot(msg)\<close> with enough fuel for the graph.
\<close>

definition graph_write :: "nat \<Rightarrow> heap \<times> ptr \<Rightarrow> bbuffer \<Rightarrow> bbuffer option" where
  "graph_write n g bb = WriteRoot n (fst g) (snd g) bb"

definition graph_read :: "nat \<Rightarrow> bbuffer \<Rightarrow> ((heap \<times> ptr) rres \<times> bbuffer) option" where
  "graph_read n bb = do { (r, bb', h) \<leftarrow> ReadRoot n bb []; Some (map_sum id (Pair h) r, bb') }"

definition graph_ok :: "nat \<Rightarrow> heap \<times> ptr \<Rightarrow> bool" where
  "graph_ok n g \<longleftrightarrow> heap_ok (fst g) \<and> (\<forall>x \<in> set (fst g). \<not> is_player x) \<and> ptr_ok (fst g) CObject (snd g) \<and> length (fst g) < n"

definition graph_room :: "heap \<times> ptr \<Rightarrow> nat" where
  "graph_room g = (\<Sum>x \<leftarrow> fst g. osize x) + 48"

definition graph_encodes :: "nat \<Rightarrow> heap \<times> ptr \<Rightarrow> bytes \<Rightarrow> bool" where
  "graph_encodes n g ys \<longleftrightarrow> (\<forall>br P R. holds br (P @ ys @ R) \<longrightarrow> length (P @ ys @ R) < SIZE_BOUND \<longrightarrow> offset br = length P \<longrightarrow> idle br \<longrightarrow>
     (\<exists>g' br'. graph_read n br = Some (Inr g', br') \<and> same_graph g g' \<and> idle br'))"

lemma graph_write_ok:
  assumes g: "graph_ok n g" and i: "ptrs bb = Map.empty" and rep: "lrep 1 bb xs" and sz: "length xs + graph_room g \<le> 2 ^ 32"
  shows "\<exists>bb' ys. graph_write n g bb = Some bb' \<and> lrep 1 bb' (xs @ ys) \<and> graph_encodes n g ys \<and>
     length ys \<le> graph_room g \<and> ptrs bb' = Map.empty"
proof -
  obtain h v where hv: "g = (h, v)" by force
  have a: "heap_ok h" "\<forall>x \<in> set h. \<not> is_player x" "ptr_ok h CObject v" "length h < n"
    "length xs + (\<Sum>x \<leftarrow> h. osize x) + 48 \<le> 2 ^ 32"
    using g sz by (auto simp: graph_ok_def graph_room_def hv)
  from graph_written_and_read [OF a(1-4) order.refl rep i a(5)] obtain bb' ys where
    1: "WriteRoot n h v bb = Some bb'" "lrep 1 bb' (xs @ ys)" "length ys \<le> (\<Sum>x \<leftarrow> h. osize x) + 8" "ptrs bb' = Map.empty" and
    rd: "\<forall>br P R. holds br (P @ ys @ R) \<longrightarrow> length (P @ ys @ R) < SIZE_BOUND \<longrightarrow> offset br = length P \<longrightarrow> readLengthLimit br = 0 \<longrightarrow>
        objIdxs br = Map.empty \<longrightarrow> strIdxs br = Map.empty \<longrightarrow>
        (\<exists>v' br' h'. ReadRoot n br [] = Some (Inr v', br', h') \<and> same_graph (h, v) (h', v') \<and>
           readLengthLimit br' = 0 \<and> offset br' = length P + length ys)" by blast
  have "graph_encodes n g ys" unfolding graph_encodes_def
  proof (intro allI impI)
    fix br P R
    assume "holds br (P @ ys @ R)" "length (P @ ys @ R) < SIZE_BOUND" "offset br = length P" "idle br"
    with rd [rule_format, of br P R] obtain v' br' h' where
      r: "ReadRoot n br [] = Some (Inr v', br', h')" "same_graph (h, v) (h', v')" "readLengthLimit br' = 0"
      by (auto simp: idle_def)
    with ReadRoot_kept [OF r(1)] show "\<exists>g' br'. graph_read n br = Some (Inr g', br') \<and> same_graph g g' \<and> idle br'"
      by (intro exI [of _ "(h', v')"] exI [of _ br']) (simp add: graph_read_def hv idle_def)
  qed
  with 1 show ?thesis by (intro exI [of _ bb'] exI [of _ ys]) (simp add: graph_write_def graph_room_def hv)
qed

interpretation graph: msg_codec "graph_write n" "graph_read n" "graph_encodes n" "graph_ok n" graph_room same_graph for n
proof
  show "\<exists>g' br'. graph_read n bb = Some (Inr g', br') \<and> same_graph g g' \<and> idle br'"
    if "graph_encodes n g ys" "idle bb" "holds bb (pre @ ys)" "offset bb = length pre" "length (pre @ ys) < SIZE_BOUND"
    for g ys bb pre
    using that unfolding graph_encodes_def by (metis append_Nil2)
qed (rule graph_write_ok)

section \<open>Messages over TCP\<close>




lemma ready_new: "ready (tcp_new :: ('c, ('m, 'c) seen list) tcp_peer)" "hasRequest (tcp_new :: ('c, ('m, 'c) seen list) tcp_peer)"
  "serial (tcp_new :: ('c, ('m, 'c) seen list) tcp_peer) = 0" "callbacks (tcp_new :: ('c, ('m, 'c) seen list) tcp_peer) = []"
  "outq (tcp_new :: ('c, ('m, 'c) seen list) tcp_peer) = []" "world (tcp_new :: ('c, ('m, 'c) seen list) tcp_peer) = []"
  using lrep_BBuffer_new by (auto simp: ready_def tcp_new_def idle_def BBuffer_new_def)

lemma graph_ok_example: "graph_ok 3 ([OFoo (Some 0) (Some 1), OList 4 [Some 0]], Some 0)" "graph_ok 3 ([OMonster], Some 0)"
  by (simp_all add: graph_ok_def heap_ok_def ptr_ok_def elem_cls_def)

lemma graph_room_example: "graph_room ([OFoo (Some 0) (Some 1), OList 4 [Some 0]], Some 0) \<le> 1000" "graph_room ([OMonster], Some 0) \<le> 1000"
  by (simp_all add: graph_room_def)




end
