(* ===== verification/KcpPeers.thy ===== *)
theory KcpPeers
  imports Peers KcpNet
begin

text \<open>
  The request and response peer over KCP (test\_uv\_3/xx\_uv.h, \<^verbatim>\<open>UvUdpKcpPeer\<close>): the same packages, callbacks
  and timeouts as the TCP peer, on top of a KCP control block that a timer drives. The operations, and
  the bookkeeping of requests as a second instance of \<open>request_peer\<close>.
\<close>

unbundle bit_operations_syntax

section \<open>State and operations\<close>

text \<open>
  The control block (a null pointer once the peer is disposed of), the clocks in milliseconds, and the
  datagrams handed to \<^verbatim>\<open>owner->Send\<close> by the output callback, in order.
\<close>

record ('c, 'u) kcp_peer = "('c, 'u) peer" +
  kcp :: "IKCPCB option"
  createMS :: u64
  currentMS :: u64
  nextUpdateMS :: u64
  receiveTimeoutMS :: u64
  lastReceiveMS :: u64
  dgrams :: "bytes list"

definition Kcp_Disposed :: "('c, 'u) kcp_peer \<Rightarrow> bool" where
  "Kcp_Disposed p \<longleftrightarrow> kcp p = None"

definition Kcp_alive :: "('c, 'u) kcp_peer \<Rightarrow> bool" where
  "Kcp_alive p \<longleftrightarrow> \<not> Kcp_Disposed p"

lemma Kcp_alive_iff: "Kcp_alive p \<longleftrightarrow> kcp p \<noteq> None"
  by (simp add: Kcp_alive_def Kcp_Disposed_def)

text \<open>The control block as the constructor sets it up; a non-zero result would be thrown.\<close>

definition kcp_peer_kcb :: "Guid \<Rightarrow> int + IKCPCB" where
  "kcp_peer_kcb g =
     (let (r, k) = ikcp_wndsize (ikcp_create g) 128 128 in
      if r \<noteq> 0 then Inl r
      else let (r, k) = ikcp_nodelay k 1 10 2 1 in
        if r \<noteq> 0 then Inl r else Inr (ikcp_setoutput (k\<lparr>rx_minrto := 10\<rparr>)))"

definition Kcp_Dispose ::
  "('m, 'c, ('c, 'u) kcp_peer) hooks \<Rightarrow> int \<Rightarrow> ('c, 'u) kcp_peer \<Rightarrow> ('c, 'u) kcp_peer option" where
  "Kcp_Dispose H flag p = (if kcp p = None then Some p
     else do {
       p1 \<leftarrow> call_all H (callbacks p) (p\<lparr>kcp := None\<rparr>);
       let p2 = p1\<lparr>callbacks := []\<rparr>;
       (if flag \<noteq> 0 then map_option drop_hooks (Disconnect H p2) else Some p2) })"

definition Kcp_Flush :: "('c, 'u) kcp_peer \<Rightarrow> ('c, 'u) kcp_peer option" where
  "Kcp_Flush p = (case kcp p of None \<Rightarrow> Some p
     | Some k \<Rightarrow> do { (k', outs) \<leftarrow> ikcp_flush k; Some (p\<lparr>kcp := Some k', dgrams := dgrams p @ outs\<rparr>) })"

definition SetReceiveTimeoutMS :: "u64 \<Rightarrow> ('c, 'u) kcp_peer \<Rightarrow> ('c, 'u) kcp_peer" where
  "SetReceiveTimeoutMS ms p = p\<lparr>receiveTimeoutMS := ms\<rparr>"

definition ResetLastReceiveMS :: "('c, 'u) kcp_peer \<Rightarrow> ('c, 'u) kcp_peer" where
  "ResetLastReceiveMS p = p\<lparr>lastReceiveMS := currentMS p\<rparr>"

definition Kcp_Input :: "bytes \<Rightarrow> ('c, 'u) kcp_peer \<Rightarrow> (int \<times> ('c, 'u) kcp_peer) option" where
  "Kcp_Input recvBuf p = (case kcp p of None \<Rightarrow> Some (- 1, p)
     | Some k \<Rightarrow> do {
         (r, k') \<leftarrow> ikcp_input k (Some recvBuf) (int (length recvBuf));
         Some (r, p\<lparr>kcp := Some k'\<rparr>) })"

text \<open>
  The loop at the end of \<^verbatim>\<open>Update\<close>. It takes messages out of the control block, into the buffer of
  65536 bytes that belongs to the \<^verbatim>\<open>Uv\<close> object, until there is none or a handler refuses. The pointer to
  the control block is not tested again: a handler that disposes of the peer makes the next round use
  a null pointer.
\<close>

partial_function (option) kcp_recv_loop ::
  "('m, 'c, ('c, 'u) kcp_peer) hooks \<Rightarrow> (bbuffer \<Rightarrow> ('m rres \<times> bbuffer) option) \<Rightarrow> ('c, 'u) kcp_peer
    \<Rightarrow> (int \<times> ('c, 'u) kcp_peer) option" where
  [code]: "kcp_recv_loop H rdRoot p = (case kcp p of None \<Rightarrow> None
     | Some k \<Rightarrow> do {
         ndk \<leftarrow> ikcp_recv k True 65536;
         (let n = fst ndk; d = fst (snd ndk); k' = snd (snd ndk) in
          if n \<le> 0 then Some (0, p\<lparr>kcp := Some k'\<rparr>)
          else do {
            rbp \<leftarrow> Kcp_Unpack (HandlePack H rdRoot) d (inbuf p) (p\<lparr>kcp := Some k'\<rparr>);
            (let r = fst rbp; p' = (snd (snd rbp))\<lparr>inbuf := fst (snd rbp)\<rparr> in
             if r \<noteq> 0 then Some (r, p') else kcp_recv_loop H rdRoot p') }) })"

definition Kcp_Update ::
  "('m, 'c, ('c, 'u) kcp_peer) hooks \<Rightarrow> (bbuffer \<Rightarrow> ('m rres \<times> bbuffer) option) \<Rightarrow> u64 \<Rightarrow> ('c, 'u) kcp_peer
    \<Rightarrow> (int \<times> ('c, 'u) kcp_peer) option" where
  "Kcp_Update H rdRoot nowMS p =
     (let p = p\<lparr>currentMS := nowMS - createMS p\<rparr> in
      if receiveTimeoutMS p \<noteq> 0 \<and> receiveTimeoutMS p + lastReceiveMS p < currentMS p then Some (- 1, p)
      else if nextUpdateMS p > currentMS p then Some (0, p)
      else case kcp p of None \<Rightarrow> None
        | Some k \<Rightarrow> do {
            (k', outs) \<leftarrow> ikcp_update k (ucast (currentMS p));
            kcp_recv_loop H rdRoot (p\<lparr>kcp := Some k', dgrams := dgrams p @ outs,
               nextUpdateMS := ucast (ikcp_check k' (ucast (currentMS p)))\<rparr>) })"

text \<open>The length is passed to \<^verbatim>\<open>ikcp_send\<close> as an \<^verbatim>\<open>int\<close>. \<open>fresh\<close> is what \<^verbatim>\<open>malloc\<close> returns inside.\<close>

definition Kcp_Send ::
  "(nat \<Rightarrow> bytes) \<Rightarrow> bytes \<Rightarrow> ('c, 'u) kcp_peer \<Rightarrow> (int \<times> ('c, 'u) kcp_peer) option" where
  "Kcp_Send fresh data p = (case kcp p of None \<Rightarrow> Some (- 1, p)
     | Some k \<Rightarrow> do {
         (r, k') \<leftarrow> ikcp_send fresh k (Some data) (sint (word_of_nat (length data) :: u32));
         Some (r, p\<lparr>kcp := Some k'\<rparr>) })"

definition Kcp_SendPackage ::
  "(nat \<Rightarrow> bytes) \<Rightarrow> ('m \<Rightarrow> bbuffer \<Rightarrow> bbuffer option) \<Rightarrow> 'm \<Rightarrow> int \<Rightarrow> int \<Rightarrow> ('c, 'u) kcp_peer
    \<Rightarrow> (int \<times> ('c, 'u) kcp_peer) option" where
  "Kcp_SendPackage fresh wrRoot data s tar p = (if kcp p = None then Some (- 1, p)
     else do {
       (_, bb1) \<leftarrow> Resize True 1 0 4 (sendBB p);
       bb2 \<leftarrow> put_package wrRoot tar s data bb1;
       let len = (word_of_nat (llen bb2) - 4 :: u64);
       b0 \<leftarrow> wr_blk (lbuf bb2) 0 (ucast len);
       b1 \<leftarrow> wr_blk b0 1 (ucast (drop_bit 8 len));
       b2 \<leftarrow> wr_blk b1 2 (ucast (drop_bit 16 len));
       b3 \<leftarrow> wr_blk b2 3 (ucast (drop_bit 24 len));
       d \<leftarrow> get_range b3 0 (llen bb2);
       Kcp_Send fresh d (p\<lparr>sendBB := bb2\<lparr>lbuf := b3\<rparr>\<rparr>) })"

definition Kcp_SendPush ::
  "(nat \<Rightarrow> bytes) \<Rightarrow> ('m \<Rightarrow> bbuffer \<Rightarrow> bbuffer option) \<Rightarrow> 'm \<Rightarrow> ('c, 'u) kcp_peer \<Rightarrow> (int \<times> ('c, 'u) kcp_peer) option" where
  "Kcp_SendPush fresh wrRoot data p = Kcp_SendPackage fresh wrRoot data 0 0 p"

definition Kcp_SendResponse ::
  "(nat \<Rightarrow> bytes) \<Rightarrow> ('m \<Rightarrow> bbuffer \<Rightarrow> bbuffer option) \<Rightarrow> int \<Rightarrow> 'm \<Rightarrow> ('c, 'u) kcp_peer \<Rightarrow> (int \<times> ('c, 'u) kcp_peer) option" where
  "Kcp_SendResponse fresh wrRoot s data p = Kcp_SendPackage fresh wrRoot data s 0 p"

definition Kcp_SendRequest ::
  "(nat \<Rightarrow> bytes) \<Rightarrow> ('m \<Rightarrow> bbuffer \<Rightarrow> bbuffer option) \<Rightarrow> int option \<Rightarrow> 'm \<Rightarrow> int \<Rightarrow> 'c \<Rightarrow> nat \<Rightarrow> ('c, 'u) kcp_peer
    \<Rightarrow> (int \<times> ('c, 'u) kcp_peer) option" where
  "Kcp_SendRequest fresh wrRoot timer data tar cb timeoutMS p =
     SendRequest Kcp_alive (Kcp_SendPackage fresh wrRoot) timer data tar cb timeoutMS p"

section \<open>Requests\<close>

lemma Kcp_Dispose_log:
  "kcp p \<noteq> None \<Longrightarrow> \<exists>p'. Kcp_Dispose (log_hooks ret) flag p = Some p' \<and> callbacks p' = [] \<and> kcp p' = None \<and>
     serial p' = serial p \<and> called (world p') = called (world p) @ pending p"
  by (auto simp: Kcp_Dispose_def call_all_log Disconnect_def drop_hooks_def pending_def Let_def comp_def jot_def)

lemma Kcp_Send_keeps:
  assumes "Kcp_Send fresh d p = Some (r, p')" "kcp p \<noteq> None"
  shows "callbacks p' = callbacks p \<and> serial p' = serial p \<and> world p' = world p \<and> kcp p' \<noteq> None"
  using assms by (auto simp: Kcp_Send_def bind_Some_iff)

lemma Kcp_SendPackage_keeps:
  assumes "Kcp_SendPackage fresh wr m s tar p = Some (r, p')" "kcp p \<noteq> None"
  shows "callbacks p' = callbacks p \<and> serial p' = serial p \<and> world p' = world p \<and> kcp p' \<noteq> None"
proof -
  obtain bb d where "Kcp_Send fresh d (p\<lparr>sendBB := bb\<rparr>) = Some (r, p')"
    using assms by (auto simp: Kcp_SendPackage_def bind_Some_iff Let_def)
  from Kcp_Send_keeps [OF this] assms(2) show ?thesis by simp
qed

interpretation kpeer: request_peer Kcp_alive "Kcp_SendPackage fresh wr" "Kcp_Dispose (log_hooks ret)" ret
  for ret fresh wr
proof
  show "if Kcp_alive p then callbacks p' = [] \<and> \<not> Kcp_alive p' \<and> serial p' = serial p \<and>
        called (world p') = called (world p) @ pending p else p' = p"
    if "Kcp_Dispose (log_hooks ret) flag p = Some p'" for flag and p p' :: "('a, ('b, 'a) seen list) kcp_peer"
    using that Kcp_Dispose_log [of p ret flag] by (auto simp: Kcp_Dispose_def Kcp_alive_iff)
qed (use Kcp_SendPackage_keeps in \<open>fastforce simp: Kcp_alive_iff | simp add: Kcp_alive_iff\<close>)+

text \<open>
  The events of a KCP peer: what the user asks for, datagrams from the owner, the owner's timer, and
  the timers of requests. The owner skips a peer that is disposed of, and disposes of a peer whose
  \<^verbatim>\<open>Update\<close> or \<^verbatim>\<open>Input\<close> fails.
\<close>

datatype ('m, 'c) kcp_event =
    KcRequest "nat \<Rightarrow> bytes" "int option" 'm int 'c nat
  | KcPush "nat \<Rightarrow> bytes" 'm
  | KcRespond "nat \<Rightarrow> bytes" int 'm
  | KcUpdate u64
  | KcInput bytes
  | KcFlush
  | KcTimeout int
  | KcDispose int
  | KcReceiveTimeout u64
  | KcReset

fun kcp_peer_do ::
  "('m, 'c, ('c, 'u) kcp_peer) hooks \<Rightarrow> ('m \<Rightarrow> bbuffer \<Rightarrow> bbuffer option) \<Rightarrow> (bbuffer \<Rightarrow> ('m rres \<times> bbuffer) option)
    \<Rightarrow> ('m, 'c) kcp_event \<Rightarrow> ('c, 'u) kcp_peer \<Rightarrow> (int \<times> ('c, 'u) kcp_peer) option" where
  "kcp_peer_do H wr rd (KcRequest fresh timer m tar c t) p = Kcp_SendRequest fresh wr timer m tar c t p"
| "kcp_peer_do H wr rd (KcPush fresh m) p = Kcp_SendPush fresh wr m p"
| "kcp_peer_do H wr rd (KcRespond fresh s m) p = Kcp_SendResponse fresh wr s m p"
| "kcp_peer_do H wr rd (KcUpdate now) p = (if kcp p = None then Some (0, p)
     else do { (r, p') \<leftarrow> Kcp_Update H rd now p;
       p'' \<leftarrow> (if r \<noteq> 0 then Kcp_Dispose H 1 p' else Some p'); Some (r, p'') })"
| "kcp_peer_do H wr rd (KcInput d) p = (if kcp p = None then Some (0, p)
     else do { (r, p') \<leftarrow> Kcp_Input d p;
       p'' \<leftarrow> (if r \<noteq> 0 then Kcp_Dispose H 0 p' else Some p'); Some (r, p'') })"
| "kcp_peer_do H wr rd KcFlush p = map_option (Pair 0) (Kcp_Flush p)"
| "kcp_peer_do H wr rd (KcTimeout s) p = map_option (Pair 0) (TimeoutCallback H s p)"
| "kcp_peer_do H wr rd (KcDispose flag) p = map_option (Pair 0) (Kcp_Dispose H flag p)"
| "kcp_peer_do H wr rd (KcReceiveTimeout ms) p = Some (0, SetReceiveTimeoutMS ms p)"
| "kcp_peer_do H wr rd KcReset p = Some (0, ResetLastReceiveMS p)"

text \<open>The callback that an event hands over, when the result is 0; a step with the callbacks accepted so far.\<close>

fun asks :: "('m, 'c) kcp_event \<Rightarrow> 'c list" where
  "asks (KcRequest fresh timer m tar c t) = [c]"
| "asks _ = []"

definition kcp_peer_step ::
  "('m, 'c, ('c, 'u) kcp_peer) hooks \<Rightarrow> ('m \<Rightarrow> bbuffer \<Rightarrow> bbuffer option) \<Rightarrow> (bbuffer \<Rightarrow> ('m rres \<times> bbuffer) option)
    \<Rightarrow> ('m, 'c) kcp_event \<Rightarrow> ('c, 'u) kcp_peer \<times> 'c list \<Rightarrow> (('c, 'u) kcp_peer \<times> 'c list) option" where
  "kcp_peer_step H wr rd ev pa = do {
     (r, p') \<leftarrow> kcp_peer_do H wr rd ev (fst pa);
     Some (p', if r = 0 then snd pa @ asks ev else snd pa) }"

definition kcp_peer_new :: "IKCPCB \<Rightarrow> ('c, ('m, 'c) seen list) kcp_peer" where
  "kcp_peer_new k = \<lparr>callbacks = [], serial = 0, hasPush = True, hasRequest = True, hasDisconnect = True,
     inbuf = List_new, recvBB = BBuffer_new, sendBB = BBuffer_new, world = [], kcp = Some k, createMS = 0,
     currentMS = 0, nextUpdateMS = 0, receiveTimeoutMS = 0, lastReceiveMS = 0, dgrams = []\<rparr>"

lemma acct_fields [simp]:
  "kpeer.acct acc (p\<lparr>dgrams := a\<rparr>) = kpeer.acct acc p" "kpeer.acct acc (p\<lparr>nextUpdateMS := b\<rparr>) = kpeer.acct acc p"
  "kpeer.acct acc (p\<lparr>currentMS := b\<rparr>) = kpeer.acct acc p" "kpeer.acct acc (p\<lparr>sendBB := bb\<rparr>) = kpeer.acct acc p"
  "kpeer.acct acc (SetReceiveTimeoutMS b p) = kpeer.acct acc p" "kpeer.acct acc (ResetLastReceiveMS p) = kpeer.acct acc p"
  by (simp_all add: SetReceiveTimeoutMS_def ResetLastReceiveMS_def kpeer.acct_def pending_def Kcp_alive_iff)

lemma acct_kcp: "kcp p \<noteq> None \<Longrightarrow> kpeer.acct acc (p\<lparr>kcp := Some k\<rparr>) = kpeer.acct acc p"
  by (simp add: kpeer.acct_def pending_def Kcp_alive_iff)

lemma kcp_recv_loop_inv:
  fixes H :: "('m, 'c, ('c, 'd) kcp_peer) hooks"
  assumes run: "kcp_recv_loop H rd p = Some (r, p')" and "I p"
    and stop: "\<And>p k n d k'. I p \<Longrightarrow> kcp p = Some k \<Longrightarrow> ikcp_recv k True 65536 = Some (n, d, k') \<Longrightarrow> n \<le> 0 \<Longrightarrow> I (p\<lparr>kcp := Some k'\<rparr>)"
    and step: "\<And>p k n d k' r b p'. I p \<Longrightarrow> kcp p = Some k \<Longrightarrow> ikcp_recv k True 65536 = Some (n, d, k') \<Longrightarrow> 0 < n \<Longrightarrow>
       Unpack (HandlePack H rd) d (inbuf p) (p\<lparr>kcp := Some k'\<rparr>) = Some (r, b, p') \<Longrightarrow> I (p'\<lparr>inbuf := b\<rparr>)"
  shows "I p'"
proof -
  have "H = H \<longrightarrow> rd = rd \<longrightarrow> I p \<longrightarrow> I (snd (r, p'))"
  proof (rule kcp_recv_loop.raw_induct [where P = "\<lambda>h r p y. h = H \<longrightarrow> r = rd \<longrightarrow> I p \<longrightarrow> I (snd y)", OF _ run], intro impI)
    fix loop h r p and y :: "int \<times> ('c, 'd) kcp_peer"
    assume IH: "\<And>h r p (y :: int \<times> ('c, 'd) kcp_peer). loop h r p = Some y \<Longrightarrow> h = H \<longrightarrow> r = rd \<longrightarrow> I p \<longrightarrow> I (snd y)"
      and e: "(case kcp p of None \<Rightarrow> None
     | Some k \<Rightarrow> do {
         ndk \<leftarrow> ikcp_recv k True 65536;
         (let n = fst ndk; d = fst (snd ndk); k' = snd (snd ndk) in
          if n \<le> 0 then Some (0, p\<lparr>kcp := Some k'\<rparr>)
          else do {
            rbp \<leftarrow> Kcp_Unpack (HandlePack h r) d (inbuf p) (p\<lparr>kcp := Some k'\<rparr>);
            (let q = fst rbp; p' = (snd (snd rbp))\<lparr>inbuf := fst (snd rbp)\<rparr> in
             if q \<noteq> 0 then Some (q, p') else loop h r p') }) }) = Some y" and hr: "h = H" "r = rd" and "I p"
    note e = e [unfolded hr Kcp_Unpack_eq Let_def]
    then obtain k n d k' where k: "kcp p = Some k" "ikcp_recv k True 65536 = Some (n, d, k')"
      by (auto simp: bind_Some_iff split: option.splits)
    show "I (snd y)"
    proof (cases "n \<le> 0")
      case True
      then show ?thesis using e k stop [OF \<open>I p\<close> k True] by auto
    next
      case False
      then obtain q b p1 where q: "Unpack (HandlePack H rd) d (inbuf p) (p\<lparr>kcp := Some k'\<rparr>) = Some (q, b, p1)"
          "(if q \<noteq> 0 then Some (q, p1\<lparr>inbuf := b\<rparr>) else loop H rd (p1\<lparr>inbuf := b\<rparr>)) = Some y"
        using e k by (auto simp: bind_Some_iff simp del: if_split split: if_split_asm)
      have "I (p1\<lparr>inbuf := b\<rparr>)" by (rule step [OF \<open>I p\<close> k _ q(1)]) (use False in simp)
      then show ?thesis using q(2) IH [of H rd "p1\<lparr>inbuf := b\<rparr>" y] by (auto split: if_splits)
    qed
  qed
  with \<open>I p\<close> show ?thesis by simp
qed

lemma kcp_recv_loop_acct:
  assumes "kcp_recv_loop (log_hooks ret) rd p = Some (r, p')" and "kpeer.acct acc p"
  shows "kpeer.acct acc p'"
  using assms by (rule kcp_recv_loop_inv) (auto simp: acct_kcp dest!: kpeer.Unpack_acct [where acc = acc])

lemma Kcp_Update_acct:
  assumes "Kcp_Update (log_hooks ret) rd now p = Some (r, p')" and "kpeer.acct acc p"
  shows "kpeer.acct acc p'"
  using assms(1)
  by (auto simp: Kcp_Update_def Let_def bind_Some_iff assms(2) acct_kcp intro: kcp_recv_loop_acct split: if_splits option.splits)

lemma Kcp_SendPackage_acct:
  assumes "Kcp_SendPackage fresh wr m s tar p = Some (r, p')" "kpeer.acct acc p"
  shows "kpeer.acct acc p'"
proof (cases "kcp p = None")
  case True
  then show ?thesis using assms by (simp add: Kcp_SendPackage_def)
next
  case False
  then show ?thesis using Kcp_SendPackage_keeps [OF assms(1) False] assms(2) by (simp add: kpeer.acct_def pending_def Kcp_alive_iff)
qed

lemma kcp_peer_do_acct:
  assumes "kcp_peer_do (log_hooks ret) wr rd ev p = Some (r, p')" "kpeer.acct acc p"
  shows "kpeer.acct (if r = 0 then acc @ asks ev else acc) p'"
proof (cases ev)
  case (KcRequest fresh timer m tar c t)
  then have "SendRequest Kcp_alive (Kcp_SendPackage fresh wr) timer m tar c t p = Some (r, p')"
    using assms(1) by (simp add: Kcp_SendRequest_def)
  from kpeer.SendRequest_acct [OF this assms(2)] show ?thesis by (simp only: KcRequest asks.simps)
next
  case (KcUpdate now)
  then obtain q where "p' = p \<or> Kcp_Update (log_hooks ret) rd now p = Some (r, q) \<and> (p' = q \<or> Kcp_Dispose (log_hooks ret) 1 q = Some p')"
    using assms(1) by (auto simp: bind_Some_iff split: if_splits)
  with KcUpdate assms(2) show ?thesis by (auto dest: Kcp_Update_acct kpeer.dispose_acct)
next
  case (KcInput d)
  then obtain q k where "p' = p \<or> kcp p \<noteq> None \<and> q = p\<lparr>kcp := Some k\<rparr> \<and> (p' = q \<or> Kcp_Dispose (log_hooks ret) 0 q = Some p')"
    using assms(1) by (auto simp: bind_Some_iff Kcp_Input_def split: if_splits option.splits)
  with KcInput assms(2) show ?thesis by (auto simp: acct_kcp dest: kpeer.dispose_acct)
next
  case KcFlush
  then show ?thesis using assms
    by (auto simp: bind_Some_iff Kcp_Flush_def acct_kcp split: if_splits option.splits)
qed (use assms in \<open>auto simp: bind_Some_iff Kcp_SendPush_def Kcp_SendResponse_def
    dest: Kcp_SendPackage_acct kpeer.TimeoutCallback_acct kpeer.dispose_acct\<close>)

lemma kcp_peer_step_acct:
  assumes "kcp_peer_step (log_hooks ret) wr rd ev (p, acc) = Some (p', acc')" "kpeer.acct acc p"
  shows "kpeer.acct acc' p'"
proof -
  obtain r where r: "kcp_peer_do (log_hooks ret) wr rd ev p = Some (r, p')" "acc' = (if r = 0 then acc @ asks ev else acc)"
    using assms(1) by (auto simp: kcp_peer_step_def bind_Some_iff)
  show ?thesis unfolding r(2) by (rule kcp_peer_do_acct [OF r(1) assms(2)])
qed

lemma kcp_run_acct:
  "kfold (kcp_peer_step (log_hooks ret) wr rd) evs (q, acc0) = Some (p, acc) \<Longrightarrow> kpeer.acct acc0 q \<Longrightarrow> kpeer.acct acc p"
proof (induction evs arbitrary: q acc0)
  case (Cons ev evs)
  then show ?case by (auto simp: bind_Some_iff dest: kcp_peer_step_acct)
qed simp

lemma kcp_acct_new: "kpeer.acct [] (kcp_peer_new k :: ('c, ('m, 'c) seen list) kcp_peer)"
  by (simp add: kpeer.acct_def kcp_peer_new_def pending_def Kcp_alive_iff)

section \<open>Where \<^verbatim>\<open>Update\<close> goes wrong\<close>

text \<open>
  A handler that disposes of its peer while \<^verbatim>\<open>Update\<close> is delivering: unless it also returns an error,
  the next round of the loop hands the null pointer to \<^verbatim>\<open>ikcp_recv\<close>.
\<close>

theorem handler_disposing_in_update:
  assumes "kcp p = Some k" "ikcp_recv k True 65536 = Some (n, d, k')" "0 < n"
    and "Kcp_Unpack (HandlePack H rd) d (inbuf p) (p\<lparr>kcp := Some k'\<rparr>) = Some (0, b, p1)" "kcp p1 = None"
  shows "kcp_recv_loop H rd p = None"
  using assms by (subst kcp_recv_loop.simps) (simp add: kcp_recv_loop.simps [of H rd "p1\<lparr>inbuf := b\<rparr>"])

text \<open>
  The buffer \<^verbatim>\<open>Update\<close> receives into has 65536 bytes. A longer message, which \<^verbatim>\<open>ikcp_send\<close> accepts up to 127
  segments, is never taken out: every \<^verbatim>\<open>Update\<close> reports success, delivers nothing and leaves the
  message and all behind it where they are.
\<close>

theorem long_message_blocks:
  assumes "kcp p = Some k" "65536 < ikcp_peeksize k"
  shows "kcp_recv_loop H rd p = Some (0, p)"
proof -
  have "rcv_queue k \<noteq> []" using assms(2) by (auto simp: ikcp_peeksize_def)
  then have "ikcp_recv k True 65536 = Some (- 3, [], k)" using assms(2) by (simp add: ikcp_recv_def i32_def)
  then show ?thesis using assms(1) by (subst kcp_recv_loop.simps) simp
qed

end
