(* ===== verification/PeerNet.thy ===== *)
theory PeerNet
  imports KcpPeers Messages
begin

text \<open>
  Two KCP peers (test\_uv\_3/xx\_uv.h) over a network that loses, repeats, delays and reorders datagrams,
  as a transition system over the operations of theory \<open>KcpPeers\<close>. It simulates the two control blocks of theory
  \<open>KcpNet\<close>, from which follows what user code on one side sees of what user code on the other side sent.
\<close>

section \<open>Two peers and a network\<close>

text \<open>
  An endpoint: the peer, the packages that its user posted with result 0 (serial and message), the
  serials and callbacks of its requests among them, and the number of segments it ever queued. The datagrams an endpoint ever gave to \<^verbatim>\<open>owner->Send\<close> are in the
  peer; the network may hand any of them to the other side, any number of times, at any moment.
\<close>

record ('m, 'c) endpoint =
  kp :: "('c, ('m, 'c) seen list) kcp_peer"
  posted :: "(int \<times> 'm) list"
  asked :: "(int \<times> 'c) list"
  psegs :: nat

definition queued :: "('c, 'u) kcp_peer \<Rightarrow> nat" where
  "queued p = (case kcp p of None \<Rightarrow> 0 | Some k \<Rightarrow> length (snd_queue k))"

text \<open>What an event posts when its result is 0; \<open>s\<close> is the serial of the peer afterwards.\<close>

fun posts :: "('m, 'c) kcp_event \<Rightarrow> int \<Rightarrow> (int \<times> 'm) list" where
  "posts (KcPush fresh m) s = [(0, m)]"
| "posts (KcRespond fresh n m) s = [(n, m)]"
| "posts (KcRequest fresh timer m tar c t) s = [(- s, m)]"
| "posts _ s = []"

definition endpoint_do ::
  "(('m, 'c) seen \<Rightarrow> int) \<Rightarrow> ('m \<Rightarrow> bbuffer \<Rightarrow> bbuffer option) \<Rightarrow> (bbuffer \<Rightarrow> ('m rres \<times> bbuffer) option)
    \<Rightarrow> ('m, 'c) kcp_event \<Rightarrow> ('m, 'c) endpoint \<Rightarrow> ('m, 'c) endpoint option" where
  "endpoint_do ret wr rd ev x = do {
     (r, p') \<leftarrow> kcp_peer_do (log_hooks ret) wr rd ev (kp x);
     Some \<lparr>kp = p', posted = posted x @ (if r = 0 then posts ev (serial p') else []),
        asked = asked x @ (if r = 0 then map (Pair (serial p')) (asks ev) else []),
        psegs = (if posts ev 0 = [] then psegs x else psegs x + queued p' - queued (kp x))\<rparr> }"

text \<open>
  The events that may happen: messages are ones that can be written (\<open>ok\<close>), requests are not for a
  router, datagrams are ones the other side sent, and the list of pending acknowledgements does not
  overflow its counter.
\<close>

fun legal :: "('m \<Rightarrow> bool) \<Rightarrow> bytes set \<Rightarrow> ('m, 'c) kcp_event \<Rightarrow> ('m, 'c) endpoint \<Rightarrow> bool" where
  "legal okm W (KcPush fresh m) x = (fresh_ok fresh \<and> okm m)"
| "legal okm W (KcRespond fresh s m) x = (fresh_ok fresh \<and> okm m \<and> 0 < s \<and> s < 2 ^ 31)"
| "legal okm W (KcRequest fresh timer m tar c t) x = (fresh_ok fresh \<and> okm m \<and> tar = 0)"
| "legal okm W (KcInput d) x = (d \<in> W \<and> (case kcp (kp x) of None \<Rightarrow> True
      | Some k \<Rightarrow> unat (ackcount k) + length (dgram d) < 2 ^ 30))"
| "legal okm W _ x = True"

definition endpoint_new :: "IKCPCB \<Rightarrow> u64 \<Rightarrow> ('m, 'c) endpoint" where
  "endpoint_new k c = \<lparr>kp = (kcp_peer_new k)\<lparr>createMS := c\<rparr>, posted = [], asked = [], psegs = 0\<rparr>"

text \<open>
  The reachable pairs of endpoints; each side may act at any time. As in theory \<open>KcpNet\<close>, an
  endpoint queues fewer than \<open>2^31\<close> segments in its life.
\<close>

inductive peers_reach ::
  "(('m, 'c) seen \<Rightarrow> int) \<Rightarrow> ('m \<Rightarrow> bbuffer \<Rightarrow> bbuffer option) \<Rightarrow> (bbuffer \<Rightarrow> ('m rres \<times> bbuffer) option)
    \<Rightarrow> ('m \<Rightarrow> bool) \<Rightarrow> Guid \<Rightarrow> ('m, 'c) endpoint \<Rightarrow> ('m, 'c) endpoint \<Rightarrow> bool"
  for ret wr rd okm g where
  peers_new: "kcp_peer_kcb g = Inr k \<Longrightarrow> peers_reach ret wr rd okm g (endpoint_new k c1) (endpoint_new k c2)"
| peers_a: "\<lbrakk>peers_reach ret wr rd okm g x y; legal okm (set (dgrams (kp y))) ev x; endpoint_do ret wr rd ev x = Some x';
     psegs x' < HALF\<rbrakk> \<Longrightarrow> peers_reach ret wr rd okm g x' y"
| peers_b: "\<lbrakk>peers_reach ret wr rd okm g x y; legal okm (set (dgrams (kp x))) ev y; endpoint_do ret wr rd ev y = Some y';
     psegs y' < HALF\<rbrakk> \<Longrightarrow> peers_reach ret wr rd okm g x y'"

text \<open>The pushes and requests that reached user code, as the sender numbered them.\<close>

fun arrivals :: "('m, 'c) seen list \<Rightarrow> (int \<times> 'm) list" where
  "arrivals [] = []"
| "arrivals (Pushed m # w) = (0, m) # arrivals w"
| "arrivals (Requested s m # w) = (- s, m) # arrivals w"
| "arrivals (_ # w) = arrivals w"

lemma arrivals_append [simp]: "arrivals (v @ w) = arrivals v @ arrivals w"
  by (induction v rule: arrivals.induct) auto

lemma arrivals_called [simp]: "arrivals (map (\<lambda>e. Called (f e) (g e)) es) = []"
  by (induction es) auto

text \<open>The answers that callbacks received.\<close>

fun answers :: "('m, 'c) seen list \<Rightarrow> ('c \<times> 'm) list" where
  "answers [] = []"
| "answers (Called c (Some m) # w) = (c, m) # answers w"
| "answers (_ # w) = answers w"

lemma answers_append [simp]: "answers (v @ w) = answers v @ answers w"
  by (induction v rule: answers.induct) auto

lemma answers_none [simp]: "answers (map (\<lambda>e. Called (f e) None) es) = []"
  by (induction es) auto

section \<open>A peer between two operations\<close>

definition live :: "('c, 'u) kcp_peer \<Rightarrow> bool" where
  "live p \<longleftrightarrow> hasPush p \<and> hasRequest p \<and> idle (recvBB p) \<and> lrep 1 (inbuf p) [] \<and> ptrs (sendBB p) = Map.empty \<and>
     (\<exists>xs. lrep 1 (sendBB p) xs) \<and> 0 \<le> serial p"

lemma live_new: "live (kcp_peer_new k :: ('c, ('m, 'c) seen list) kcp_peer)"
  using lrep_BBuffer_new by (auto simp: live_def kcp_peer_new_def idle_def BBuffer_new_def)

lemma kcp_peer_new_sel [simp]:
  "kcp (kcp_peer_new k) = Some k" "dgrams (kcp_peer_new k) = []" "world (kcp_peer_new k) = []" "serial (kcp_peer_new k) = 0"
  "callbacks (kcp_peer_new k) = []"
  by (simp_all add: kcp_peer_new_def)

lemma live_fields [simp]:
  "live (p\<lparr>kcp := k\<rparr>) = live p" "live (p\<lparr>dgrams := ds\<rparr>) = live p" "live (p\<lparr>currentMS := a\<rparr>) = live p"
  "live (p\<lparr>nextUpdateMS := a\<rparr>) = live p" "live (p\<lparr>callbacks := cs\<rparr>) = live p" "live (p\<lparr>world := w\<rparr>) = live p"
  "live (p\<lparr>receiveTimeoutMS := a\<rparr>) = live p" "live (p\<lparr>lastReceiveMS := a\<rparr>) = live p" "live (p\<lparr>createMS := a\<rparr>) = live p"
  "live (jot e p') = live p'"
  by (simp_all add: live_def jot_def)

text \<open>The header of a package: the low bytes of its length, in 64 bits as in 32.\<close>

lemma header_bytes:
  assumes "length ys = 4" "length d < 2 ^ 31"
  shows "do { let len = (word_of_nat (length (ys @ d)) - 4 :: u64);
       b0 \<leftarrow> wr_blk (Some (map Some (ys @ d) @ t)) 0 (ucast len);
       b1 \<leftarrow> wr_blk b0 1 (ucast (drop_bit 8 len));
       b2 \<leftarrow> wr_blk b1 2 (ucast (drop_bit 16 len));
       b3 \<leftarrow> wr_blk b2 3 (ucast (drop_bit 24 len));
       f b3 } = f (Some (map Some (frame_bytes d) @ t))"
proof -
  let ?w = "word_of_nat (length d) :: u32" and ?v = "word_of_nat (length d) :: u64"
  have l: "word_of_nat (length (ys @ d)) - 4 = ?v" using assms(1) by simp
  have b: "(ucast (drop_bit n ?v) :: u8) = ucast (drop_bit n ?w)" if "n \<le> 24" for n
    using that by (intro bit_word_eqI) (simp add: bit_simps)
  have "frame_bytes d = take 0 ys @ [ucast ?v, ucast (drop_bit 8 ?v), ucast (drop_bit 16 ?v), ucast (drop_bit 24 ?v)] @ d"
    using b [of 0] by (simp add: frame_bytes_def numeral_eq_Suc drop_bit_drop_bit b)
  then show ?thesis unfolding Let_def l using fill_header [of ys 0 d t] assms(1) by (simp add: numeral_2_eq_2)
qed

lemma sint_of_length: "n < 2 ^ 31 \<Longrightarrow> sint (word_of_nat n :: u32) = int n"
  by (simp add: signed_of_nat signed_take_bit_int_eq_self)

lemma dispatch_log:
  assumes "- (2 ^ 31) < s" "s < 2 ^ 31" "hasPush p" "hasRequest p" "\<And>e. ret e = 0"
  shows "\<exists>cs w. dispatch (log_hooks ret) s m p = Some (0, p\<lparr>callbacks := cs, world := w\<rparr>) \<and>
     arrivals w = arrivals (world p) @ (if s \<le> 0 then [(s, m)] else []) \<and> set cs \<subseteq> set (callbacks p) \<and>
     (answers w = answers (world p) \<or> (\<exists>c t. 0 < s \<and> (s, c, t) \<in> set (callbacks p) \<and> answers w = answers (world p) @ [(c, m)]))"
proof -
  consider "s = 0" | "s < 0" | "0 < s" "map_of (callbacks p) s = None" | c t where "0 < s" "map_of (callbacks p) s = Some (c, t)"
    by (cases "map_of (callbacks p) s") fastforce+
  then show ?thesis
  proof cases
    case 1
    then show ?thesis using assms
      by (intro exI [of _ "callbacks p"] exI [of _ "world p @ [Pushed m]"]) (simp add: dispatch_def ReceivePush_def jot_def)
  next
    case 2
    then show ?thesis using assms
      by (intro exI [of _ "callbacks p"] exI [of _ "world p @ [Requested (- s) m]"])
        (simp add: dispatch_def ReceiveRequest_def jot_def i32_def)
  next
    case 3
    then show ?thesis using assms
      by (intro exI [of _ "callbacks p"] exI [of _ "world p"]) (simp add: dispatch_def)
  next
    case 4
    then show ?thesis using assms
      by (intro exI [of _ "filter (\<lambda>e. fst e \<noteq> s) (callbacks p)"] exI [of _ "world p @ [Called c (Some m)]"])
        (auto simp: dispatch_def erase_cb_def jot_def dest: map_of_SomeD)
  qed
qed

text \<open>The control block of a new peer is one the network of theory \<open>KcpNet\<close> reaches by settings.\<close>

lemma setting_both:
  assumes "net_reach cv \<lparr>na = x\<lparr>kcb := k\<rparr>, nb = x\<lparr>kcb := k\<rparr>, wab = {}, wba = {}\<rparr>" "setting k k'"
  shows "net_reach cv \<lparr>na = x\<lparr>kcb := k'\<rparr>, nb = x\<lparr>kcb := k'\<rparr>, wab = {}, wba = {}\<rparr>"
proof -
  have "node_step {} (x\<lparr>kcb := k\<rparr>) (x\<lparr>kcb := k'\<rparr>) []" using nd_setting [of "x\<lparr>kcb := k\<rparr>" k' "{}"] assms(2) by simp
  then show ?thesis
    using net_next [OF assms(1) step_a, of "x\<lparr>kcb := k'\<rparr>" "[]"]
      net_next [OF _ step_b, of cv "\<lparr>na = x\<lparr>kcb := k'\<rparr>, nb = x\<lparr>kcb := k\<rparr>, wab = {}, wba = {}\<rparr>" "x\<lparr>kcb := k'\<rparr>" "[]"] by simp
qed

lemma new_peers:
  assumes "kcp_peer_kcb g = Inr k"
  shows "net_reach g \<lparr>na = (node_init g)\<lparr>kcb := k\<rparr>, nb = (node_init g)\<lparr>kcb := k\<rparr>, wab = {}, wba = {}\<rparr>"
proof -
  let ?k0 = "ikcp_setoutput (ikcp_create g)" and ?N = "\<lambda>k. net_reach g \<lparr>na = (node_init g)\<lparr>kcb := k\<rparr>, nb = (node_init g)\<lparr>kcb := k\<rparr>, wab = {}, wba = {}\<rparr>"
  obtain r1 k1 r2 k2 where 1: "ikcp_wndsize ?k0 128 128 = (r1, k1)" and 2: "ikcp_nodelay k1 1 10 2 1 = (r2, k2)" by fastforce
  have "?N ?k0" using net_init [of g] by (simp add: node_init_def)
  then have "?N k1" by (rule setting_both) (rule set_wndsize [OF _ _ 1], simp_all)
  then have "?N k2" by (rule setting_both) (rule set_nodelay [OF 2])
  then have "?N (k2\<lparr>rx_minrto := 10\<rparr>)" by (rule setting_both) (rule set_minrto, simp_all)
  moreover have "k = k2\<lparr>rx_minrto := 10\<rparr>" using assms 1 2
    by (auto simp: kcp_peer_kcb_def ikcp_setoutput_def ikcp_wndsize_def ikcp_nodelay_def Let_def)
  ultimately show ?thesis by simp
qed

lemma dispose_frame:
  assumes "Kcp_Dispose (log_hooks ret) flag p = Some p'"
  shows "kcp p' = None \<and> dgrams p' = dgrams p \<and> arrivals (world p') = arrivals (world p) \<and>
     answers (world p') = answers (world p) \<and> set (callbacks p') \<subseteq> set (callbacks p)"
  using assms by (auto simp: Kcp_Dispose_def call_all_log Disconnect_def drop_hooks_def Let_def jot_def split: if_splits)

lemma timeout_frame:
  assumes "TimeoutCallback (log_hooks ret) s p = Some p'"
  shows "kcp p' = kcp p \<and> live p' = live p \<and> dgrams p' = dgrams p \<and> arrivals (world p') = arrivals (world p) \<and>
     answers (world p') = answers (world p) \<and> set (callbacks p') \<subseteq> set (callbacks p)"
  using assms by (auto simp: TimeoutCallback_def erase_cb_def jot_def split: option.splits if_splits)

text \<open>Nothing moves a peer that is disposed of.\<close>

lemma dead_frame:
  assumes "kcp p = None" "kcp_peer_do (log_hooks ret) wr rd ev p = Some (r, p')"
  shows "kcp p' = None \<and> dgrams p' = dgrams p \<and> arrivals (world p') = arrivals (world p) \<and>
     answers (world p') = answers (world p) \<and> set (callbacks p') \<subseteq> set (callbacks p) \<and> (r = 0 \<longrightarrow> posts ev s = [] \<and> asks ev = [])"
proof (cases ev)
  case (KcTimeout n)
  then show ?thesis using assms timeout_frame [of ret n p] by auto
qed (use assms in \<open>auto simp: Kcp_SendPush_def Kcp_SendResponse_def Kcp_SendRequest_def SendRequest_def Kcp_alive_iff
   Kcp_SendPackage_def Kcp_Flush_def Kcp_Dispose_def SetReceiveTimeoutMS_def ResetLastReceiveMS_def\<close>)

context msg_codec
begin

text \<open>\<^verbatim>\<open>SendPackage\<close> of a live peer is \<^verbatim>\<open>ikcp_send\<close> of one framed package.\<close>

lemma Kcp_SendPackage_ok:
  assumes k: "kcp p = Some k" "live p" and m: "ok m" "2048 + bound m \<le> 2 ^ 31"
  shows "\<exists>bb d. Kcp_SendPackage fresh wrRoot m s 0 p =
       map_option (\<lambda>(r, k'). (r, p\<lparr>sendBB := bb, kcp := Some k'\<rparr>))
         (ikcp_send fresh k (Some (frame_bytes d)) (int (length (frame_bytes d)))) \<and>
     is_package s m d \<and> live (p\<lparr>sendBB := bb\<rparr>)"
proof -
  obtain xs where xs: "lrep 1 (sendBB p) xs" "ptrs (sendBB p) = Map.empty" using k(2) by (auto simp: live_def)
  have "fits 1 4" by (simp add: fits_def)
  from Resize_ok [OF xs(1) this, of True 0] obtain bb1 where bb1: "Resize True 1 0 4 (sendBB p) = Some (length xs, bb1)"
    "lrep 1 bb1 (take 4 xs @ replicate (4 - length xs) 0)" "xx_list.more bb1 = xx_list.more (sendBB p)" by blast
  define ys where "ys = take 4 xs @ replicate (4 - length xs) 0"
  have ys: "length ys = 4" "lrep 1 bb1 ys" using bb1(2) by (auto simp: ys_def)
  have "ptrs bb1 = Map.empty" using more_fields [OF bb1(3)] xs(2) by simp
  moreover have "length ys + 5 + bound m \<le> 2 ^ 32" using ys m(2) by simp
  ultimately obtain bb2 d where bb2: "put_package wrRoot 0 s m bb1 = Some bb2" "lrep 1 bb2 (ys @ d)" "is_package s m d"
      "ptrs bb2 = Map.empty" using put_package_ok [OF m(1) _ ys(2)] by blast
  have ld: "length d < 2 ^ 31 - 4" using package_length [OF bb2(3)] m(2) by simp
  obtain t where t: "lbuf bb2 = Some (map Some (ys @ d) @ t)" "lcap bb2 = length (ys @ d) + length t"
    using bb2(2) ys(1) by (cases rule: lrep_cases) auto
  have ll: "llen bb2 = length (ys @ d)" using lrep_length [OF bb2(2)] by simp
  let ?b = "Some (map Some (frame_bytes d) @ t)" and ?n = "length (ys @ d)"
  have "holds \<lparr>lbuf = ?b, lcap = 0, llen = length (frame_bytes d)\<rparr> (frame_bytes d)" by (auto simp: holds_def)
  from get_range_holds [OF this, of 0 ?n] ys(1) have g: "get_range ?b 0 ?n = Some (frame_bytes d)" by simp
  have sz: "sint (word_of_nat (length (frame_bytes d)) :: u32) = int (length (frame_bytes d))"
    using ld by (intro sint_of_length) simp
  let ?bb = "bb2\<lparr>lbuf := ?b\<rparr>"
  have "Kcp_SendPackage fresh wrRoot m s 0 p = Kcp_Send fresh (frame_bytes d) (p\<lparr>sendBB := ?bb\<rparr>)"
    unfolding Kcp_SendPackage_def k(1) bb1(1) Option.bind.simps prod.case bb2(1) t(1) ll
    by (subst header_bytes [OF ys(1)]) (use ld in \<open>simp_all add: g [simplified]\<close>)
  also have "\<dots> = map_option (\<lambda>(r, k'). (r, p\<lparr>sendBB := ?bb, kcp := Some k'\<rparr>))
         (ikcp_send fresh k (Some (frame_bytes d)) (int (length (frame_bytes d))))"
    unfolding Kcp_Send_def using k(1) sz by (simp add: map_option_case split: Option.bind_split)
  moreover have "lrep 1 ?bb (frame_bytes d)"
    by (rule lrep_Blk [where t = t]) (use t ll ys(1) lrep_pos [OF bb2(2)] in auto)
  ultimately show ?thesis using bb2(3,4) k(2) by (intro exI [of _ ?bb] exI [of _ d]) (auto simp: live_def)
qed

text \<open>A posted package and the message \<^verbatim>\<open>ikcp_send\<close> was given for it; what user code saw of
  the first \<open>g\<close> packages: pushes and requests in order, and as answers only packages with the serial of the request.\<close>

definition pkg :: "int \<times> 'm \<Rightarrow> bytes \<Rightarrow> bool" where
  "pkg e b \<longleftrightarrow> (\<exists>d. b = frame_bytes d \<and> is_package (fst e) (snd e) d) \<and> - (2 ^ 31) < fst e \<and> fst e < 2 ^ 31 \<and>
     2048 + bound (snd e) \<le> 2 ^ 31"

definition reached :: "(int \<times> 'c) list \<Rightarrow> (int \<times> 'm) list \<Rightarrow> nat \<Rightarrow> ('c, ('m, 'c) seen list) kcp_peer \<Rightarrow> bool" where
  "reached A P g p \<longleftrightarrow>
     list_all2 (\<lambda>e e'. fst e = fst e' \<and> eqv (snd e) (snd e')) (filter (\<lambda>e. fst e \<le> 0) (take g P)) (arrivals (world p)) \<and>
     (\<forall>(c, m') \<in> set (answers (world p)). \<exists>s m. 0 < s \<and> (s, c) \<in> set A \<and> (s, m) \<in> set P \<and> eqv m m') \<and>
     (\<forall>(s, c, t) \<in> set (callbacks p). (s, c) \<in> set A)"

lemma reached_frame:
  assumes "reached A P g p" "arrivals (world p') = arrivals (world p)" "answers (world p') = answers (world p)"
    "set (callbacks p') \<subseteq> set (callbacks p)"
  shows "reached A P g p'"
  using assms by (auto simp: reached_def)

lemma receive_one:
  assumes b: "pkg e b" and p: "live p" and ret: "\<And>e. ret e = 0"
  shows "\<exists>z bb cs w m'. Unpack (HandlePack (log_hooks ret) rdRoot) b (inbuf p) p = Some (0, z, p\<lparr>recvBB := bb, callbacks := cs, world := w\<rparr>) \<and>
     live (p\<lparr>recvBB := bb, inbuf := z\<rparr>) \<and> eqv (snd e) m' \<and>
     arrivals w = arrivals (world p) @ (if fst e \<le> 0 then [(fst e, m')] else []) \<and> set cs \<subseteq> set (callbacks p) \<and>
     (answers w = answers (world p) \<or> (\<exists>c t. 0 < fst e \<and> (fst e, c, t) \<in> set (callbacks p) \<and> answers w = answers (world p) @ [(c, m')]))"
proof -
  obtain d where d: "b = frame_bytes d" "is_package (fst e) (snd e) d" and s: "- (2 ^ 31) < fst e" "fst e < 2 ^ 31"
    and bd: "2048 + bound (snd e) \<le> 2 ^ 31" using b by (auto simp: pkg_def)
  have ld: "0 < length d" "length d < 2 ^ 31 - 4" using package_length [OF d(2)] bd by auto
  have "- (2 ^ 31) \<le> fst e" using s(1) by simp
  have "idle (recvBB p)" using p by (simp add: live_def)
  from HandlePack_package [OF d(2) this \<open>- (2 ^ 31) \<le> fst e\<close> s(2), of "log_hooks ret"] ld obtain m' bb where
    h: "HandlePack (log_hooks ret) rdRoot d p = dispatch (log_hooks ret) (fst e) m' (p\<lparr>recvBB := bb\<rparr>)" "eqv (snd e) m'" "idle bb"
    by (auto simp: SIZE_BOUND_def)
  have "\<exists>cs w. dispatch (log_hooks ret) (fst e) m' (p\<lparr>recvBB := bb\<rparr>) = Some (0, (p\<lparr>recvBB := bb\<rparr>)\<lparr>callbacks := cs, world := w\<rparr>) \<and>
     arrivals w = arrivals (world (p\<lparr>recvBB := bb\<rparr>)) @ (if fst e \<le> 0 then [(fst e, m')] else []) \<and> set cs \<subseteq> set (callbacks (p\<lparr>recvBB := bb\<rparr>)) \<and>
     (answers w = answers (world (p\<lparr>recvBB := bb\<rparr>)) \<or> (\<exists>c t. 0 < fst e \<and> (fst e, c, t) \<in> set (callbacks (p\<lparr>recvBB := bb\<rparr>)) \<and>
        answers w = answers (world (p\<lparr>recvBB := bb\<rparr>)) @ [(c, m')]))"
    by (rule dispatch_log [OF s _ _ ret]) (use p in \<open>simp_all add: live_def\<close>)
  then obtain cs w where w: "dispatch (log_hooks ret) (fst e) m' (p\<lparr>recvBB := bb\<rparr>) = Some (0, p\<lparr>recvBB := bb, callbacks := cs, world := w\<rparr>)"
     "arrivals w = arrivals (world p) @ (if fst e \<le> 0 then [(fst e, m')] else []) \<and> set cs \<subseteq> set (callbacks p) \<and>
     (answers w = answers (world p) \<or> (\<exists>c t. 0 < fst e \<and> (fst e, c, t) \<in> set (callbacks p) \<and> answers w = answers (world p) @ [(c, m')]))" by auto
  have sp: "split_frames ([] @ b) = ([d], [])" using split_frames_frame [of d "[]"] ld d(1) by simp
  have "\<not> bad_header ([] :: bytes)" by (simp add: bad_header_def)
  moreover have "deliver (HandlePack (log_hooks ret) rdRoot) (fst (split_frames ([] @ b))) p = Some (0, p\<lparr>recvBB := bb, callbacks := cs, world := w\<rparr>)"
    unfolding sp using h(1) w(1) by simp
  moreover have "lrep 1 (inbuf p) []" "length ([] @ b) \<le> 2 ^ 31" using p ld d(1) by (simp_all add: live_def)
  ultimately obtain z where z: "Unpack (HandlePack (log_hooks ret) rdRoot) b (inbuf p) p = Some (0, z, p\<lparr>recvBB := bb, callbacks := cs, world := w\<rparr>)" "lrep 1 z []"
    using Unpack_spec [of "inbuf p" "[]" b "HandlePack (log_hooks ret) rdRoot" p 0] sp by auto
  have "live (p\<lparr>recvBB := bb, inbuf := z\<rparr>)" using p h(3) z(2) by (simp add: live_def)
  with z(1) h(2) w(2) show ?thesis by blast
qed

lemma reached_more:
  assumes "reached A P g p" "g < length P" "eqv (snd (P ! g)) m'"
    and "arrivals (world p') = arrivals (world p) @ (if fst (P ! g) \<le> 0 then [(fst (P ! g), m')] else [])"
    and "set (callbacks p') \<subseteq> set (callbacks p)"
    and a: "answers (world p') = answers (world p) \<or> (\<exists>c t. 0 < fst (P ! g) \<and> (fst (P ! g), c, t) \<in> set (callbacks p) \<and>
       answers (world p') = answers (world p) @ [(c, m')])"
  shows "reached A P (Suc g) p'"
proof -
  have "\<exists>s m. 0 < s \<and> (s, c) \<in> set A \<and> (s, m) \<in> set P \<and> eqv m m1" if new: "(c, m1) \<in> set (answers (world p'))" for c m1
  proof (cases "(c, m1) \<in> set (answers (world p))")
    case True
    then show ?thesis using assms(1) by (auto simp: reached_def)
  next
    case False
    then obtain t where t: "0 < fst (P ! g)" "(fst (P ! g), c, t) \<in> set (callbacks p)" "m1 = m'" using a new by auto
    then have "(fst (P ! g), c) \<in> set A" using assms(1) by (auto simp: reached_def)
    moreover have "(fst (P ! g), snd (P ! g)) \<in> set P" using assms(2) by simp
    ultimately show ?thesis using t(1,3) assms(3) by blast
  qed
  then show ?thesis using assms(1-5)
    by (auto simp: reached_def take_Suc_conv_app_nth intro!: list_all2_appendI)
qed

text \<open>
  The receive loop of a peer whose control block is the right end of a reachable state of the
  network: it ends, hands out the messages that are complete, and the network stays reachable.
\<close>

lemma recv_loop_ok:
  assumes ret: "\<And>e. ret e = 0"
  shows "net_reach cv t \<Longrightarrow> kcp p = Some (kcb (nb t)) \<Longrightarrow> live p \<Longrightarrow> list_all2 pkg P (sent (na t)) \<Longrightarrow>
     reached A P (length (got (nb t))) p \<Longrightarrow>
     \<exists>p' n'. kcp_recv_loop (log_hooks ret) rdRoot p = Some (0, p') \<and> net_reach cv (t\<lparr>nb := n'\<rparr>) \<and> sent n' = sent (nb t) \<and>
       segs n' = segs (nb t) \<and> kcp p' = Some (kcb n') \<and> live p' \<and> dgrams p' = dgrams p \<and> reached A P (length (got n')) p'"
proof (induction "length (sent (na t)) - length (got (nb t))" arbitrary: t p rule: less_induct)
  case less
  let ?g = "length (got (nb t))"
  obtain n b k' where r: "ikcp_recv (kcb (nb t)) True 65536 = Some (n, b, k')"
    using net_recv_total [OF less.prems(1), of 65536] by auto
  note nr = net_recv [OF less.prems(1) r]
  show ?case
  proof (cases "0 \<le> n")
    case False
    then have "kcp_recv_loop (log_hooks ret) rdRoot p = Some (0, p)"
      using nr less.prems(2) r by (subst kcp_recv_loop.simps) simp
    then show ?thesis using less.prems by (intro exI [of _ p] exI [of _ "nb t"]) simp
  next
    case True
    let ?y = "(nb t)\<lparr>kcb := k', got := got (nb t) @ [b]\<rparr>"
    have g: "?g < length (sent (na t))" "b = sent (na t) ! ?g" "n = int (length b)" "net_reach cv (t\<lparr>nb := ?y\<rparr>)"
      using nr True by auto
    have gP: "?g < length P" using g(1) less.prems(4) by (simp add: list_all2_lengthD)
    have pb: "pkg (P ! ?g) b" using less.prems(4) gP g(2) by (simp add: list_all2_nthD)
    then have "4 \<le> length b" by (auto simp: pkg_def)
    then have n: "0 < n" using g(3) by (cases b) auto
    have "live (p\<lparr>kcp := Some k'\<rparr>)" using less.prems(3) by simp
    from receive_one [where ret = ret, OF pb this ret] obtain z bb cs w m' where
      u: "Unpack (HandlePack (log_hooks ret) rdRoot) b (inbuf p) (p\<lparr>kcp := Some k'\<rparr>) =
           Some (0, z, p\<lparr>kcp := Some k', recvBB := bb, callbacks := cs, world := w\<rparr>)"
      and lv: "live (p\<lparr>kcp := Some k', recvBB := bb, inbuf := z\<rparr>)" and m': "eqv (snd (P ! ?g)) m'"
      and w: "arrivals w = arrivals (world p) @ (if fst (P ! ?g) \<le> 0 then [(fst (P ! ?g), m')] else [])" "set cs \<subseteq> set (callbacks p)"
        "answers w = answers (world p) \<or> (\<exists>c t. 0 < fst (P ! ?g) \<and> (fst (P ! ?g), c, t) \<in> set (callbacks p) \<and> answers w = answers (world p) @ [(c, m')])"
      by (elim exE conjE) (rule that, simp_all)
    let ?p = "p\<lparr>kcp := Some k', recvBB := bb, callbacks := cs, world := w, inbuf := z\<rparr>"
    have "kcp_recv_loop (log_hooks ret) rdRoot p = kcp_recv_loop (log_hooks ret) rdRoot ?p"
      using less.prems(2) r n u by (subst kcp_recv_loop.simps) (simp add: Kcp_Unpack_eq)
    moreover have "live ?p" using lv by (simp add: live_def)
    moreover have "reached A P (Suc ?g) ?p" by (rule reached_more [OF less.prems(5) gP m']) (use w in simp_all)
    ultimately show ?thesis
      using less.hyps [of "t\<lparr>nb := ?y\<rparr>" ?p] g(1,4) less.prems(4) by auto
  qed
qed

text \<open>
  The simulation: the control blocks of the live peers are the ends of the network, the posted
  packages are the messages sent, and the messages received have reached user code.
\<close>

definition side :: "('m, 'c) endpoint \<Rightarrow> node \<Rightarrow> bool" where
  "side x n \<longleftrightarrow> psegs x = segs n \<and> list_all2 pkg (posted x) (sent n) \<and>
     (\<forall>k. kcp (kp x) = Some k \<longrightarrow> k = kcb n \<and> live (kp x))"

definition sim :: "net \<Rightarrow> ('m, 'c) endpoint \<Rightarrow> ('m, 'c) endpoint \<Rightarrow> bool" where
  "sim t x y \<longleftrightarrow> side x (na t) \<and> side y (nb t) \<and> wab t = set (dgrams (kp x)) \<and> wba t = set (dgrams (kp y)) \<and>
     reached (asked y) (posted x) (length (got (nb t))) (kp y) \<and> reached (asked x) (posted y) (length (got (na t))) (kp x)"

lemma sim_flip: "sim (flip t) y x \<longleftrightarrow> sim t x y"
  by (auto simp: sim_def)

lemma sim_frame:
  assumes "sim t x y" "kcp p' = None \<or> kcp p' = kcp (kp y) \<and> (live (kp y) \<longrightarrow> live p')" "dgrams p' = dgrams (kp y)"
    "arrivals (world p') = arrivals (world (kp y))" "answers (world p') = answers (world (kp y))" "set (callbacks p') \<subseteq> set (callbacks (kp y))"
  shows "sim t x (y\<lparr>kp := p'\<rparr>)"
  using assms by (auto simp: sim_def side_def intro: reached_frame)

lemma reached_post: "reached A P g p \<Longrightarrow> g \<le> length P \<Longrightarrow> reached (A @ B) (P @ Q) g p"
  by (fastforce simp: reached_def)

text \<open>A step of the right control block that sends nothing through \<^verbatim>\<open>ikcp_send\<close>.\<close>

lemma sim_node:
  assumes t: "net_reach cv t" and s: "sim t x y" and k: "kcp (kp y) = Some (kcb (nb t))"
    and nd: "node_step (wab t) (nb t) ((nb t)\<lparr>kcb := k'\<rparr>) outs"
    and p': "kcp p' = Some k'" "live (kp y) \<longrightarrow> live p'" "set (dgrams p') = set (dgrams (kp y)) \<union> set outs" "world p' = world (kp y)"
      "callbacks p' = callbacks (kp y)"
  shows "net_reach cv (t\<lparr>nb := (nb t)\<lparr>kcb := k'\<rparr>, wba := wba t \<union> set outs\<rparr>) \<and>
     sim (t\<lparr>nb := (nb t)\<lparr>kcb := k'\<rparr>, wba := wba t \<union> set outs\<rparr>) x (y\<lparr>kp := p'\<rparr>)"
  using net_next [OF t step_b [OF nd]] s p' k by (auto simp: sim_def side_def elim: reached_frame)

lemma send_b:
  assumes t: "net_reach cv t" and s: "sim t x y" and k: "kcp (kp y) = Some k"
    and m: "ok m" "2048 + bound m \<le> 2 ^ 31" "- (2 ^ 31) < e" "e < 2 ^ 31" and fr: "fresh_ok fresh"
    and snd: "Kcp_SendPackage fresh wrRoot m e 0 (kp y) = Some (r, p')"
    and n: "n = psegs y + queued p' - queued (kp y)" "n < HALF"
  shows "\<exists>t'. net_reach cv t' \<and> sim t' x \<lparr>kp = p', posted = posted y @ (if r = 0 then [(e, m)] else []), asked = asked y, psegs = n\<rparr>"
proof -
  have kk: "k = kcb (nb t)" "live (kp y)" using s k by (auto simp: sim_def side_def)
  from Kcp_SendPackage_ok [OF k kk(2) m(1,2), of fresh e] obtain bb d where
    e: "Kcp_SendPackage fresh wrRoot m e 0 (kp y) = map_option (\<lambda>(r, k'). (r, (kp y)\<lparr>sendBB := bb, kcp := Some k'\<rparr>))
         (ikcp_send fresh k (Some (frame_bytes d)) (int (length (frame_bytes d))))"
    and d: "is_package e m d" "live ((kp y)\<lparr>sendBB := bb\<rparr>)" by blast
  obtain k' where k': "ikcp_send fresh (kcb (nb t)) (Some (frame_bytes d)) (int (length (frame_bytes d))) = Some (r, k')"
    "p' = (kp y)\<lparr>sendBB := bb, kcp := Some k'\<rparr>" using snd e kk(1) by auto
  have l: "length (frame_bytes d) < HALF" using package_length [OF d(1)] m(2) by simp
  have sg: "segs (nb t) = psegs y" using s by (simp add: sim_def side_def)
  have n': "n = segs (nb t) + length (snd_queue k') - length (snd_queue (kcb (nb t)))"
    using n(1) k kk(1) k'(2) sg by (simp add: queued_def)
  let ?n = "(nb t)\<lparr>kcb := k', sent := (if r = 0 then sent (nb t) @ [frame_bytes d] else sent (nb t)), segs := n\<rparr>"
  let ?t = "t\<lparr>nb := ?n\<rparr>"
  have "net_reach cv ?t" using net_next [OF t step_b [OF nd_send [OF fr l k'(1) n' n(2)]]] by simp
  moreover have "pkg (e, m) (frame_bytes d)" using d(1) m by (auto simp: pkg_def)
  moreover have "length (got (na t)) \<le> length (posted y)"
    using net_prefix(2) [OF t] s by (auto simp: sim_def side_def dest: list_all2_lengthD)
  moreover have "live p'" using d(2) k'(2) by simp
  moreover have "kcp p' = Some k'" "dgrams p' = dgrams (kp y)" "world p' = world (kp y)" "callbacks p' = callbacks (kp y)" using k'(2) by simp_all
  ultimately show ?thesis using s reached_post [of "asked x" "posted y" "length (got (na t))" "kp x" "[]" "[(e, m)]"]
    by (intro exI [of _ ?t]) (auto simp: sim_def side_def intro!: list_all2_appendI elim: reached_frame)
qed

lemma sim_kcb:
  assumes "net_reach cv t" "sim t x y" "kcp (kp y) = Some k"
  shows "k = kcb (nb t)" "live (kp y)" "kcp_inv k" "fits_mtu k" "koutput k"
  using assms net_reach_ok [OF assms(1)] by (auto simp: sim_def side_def net_ok_def node_good_def kcp_good_def)

lemma flush_b:
  assumes t: "net_reach cv t" and s: "sim t x y"
  shows "\<exists>p' t'. Kcp_Flush (kp y) = Some p' \<and> net_reach cv t' \<and> sim t' x (y\<lparr>kp := p'\<rparr>)"
proof (cases "kcp (kp y)")
  case None
  then show ?thesis using t s by (intro exI [of _ "kp y"] exI [of _ t]) (simp add: Kcp_Flush_def)
next
  case (Some k)
  note k = sim_kcb [OF t s Some]
  obtain k' outs where f: "ikcp_flush k = Some (k', outs)" using flush_ok [OF k(3-5)] by blast
  let ?p = "(kp y)\<lparr>kcp := Some k', dgrams := dgrams (kp y) @ outs\<rparr>"
  from sim_node [OF t s, of k' outs ?p] nd_flush [of "nb t" k' outs] f Some k(1) show ?thesis
    by (intro exI [of _ ?p] exI [of _ "t\<lparr>nb := (nb t)\<lparr>kcb := k'\<rparr>, wba := wba t \<union> set outs\<rparr>"]) (simp add: Kcp_Flush_def)
qed

lemma input_b:
  assumes t: "net_reach cv t" and s: "sim t x y" and k: "kcp (kp y) = Some k"
    and d: "d \<in> set (dgrams (kp x))" "unat (ackcount k) + length (dgram d) < 2 ^ 30" and i: "Kcp_Input d (kp y) = Some (r, p')"
  shows "\<exists>t'. net_reach cv t' \<and> sim t' x (y\<lparr>kp := p'\<rparr>)"
proof -
  note kk = sim_kcb [OF t s k]
  obtain k' where k': "ikcp_input k (Some d) (int (length d)) = Some (r, k')" "p' = (kp y)\<lparr>kcp := Some k'\<rparr>"
    using i k by (auto simp: Kcp_Input_def bind_Some_iff)
  have "d \<in> wab t" using d(1) s by (simp add: sim_def)
  from nd_input [OF this, of "nb t" r k'] sim_node [OF t s, of k' "[]" p'] k k' kk(1) d(2) show ?thesis by auto
qed

lemma update_b:
  assumes t: "net_reach cv t" and s: "sim t x y" and k: "kcp (kp y) = Some k" and ret: "\<And>e. ret e = 0"
  shows "\<exists>r p' t'. Kcp_Update (log_hooks ret) rdRoot now (kp y) = Some (r, p') \<and> net_reach cv t' \<and> sim t' x (y\<lparr>kp := p'\<rparr>)"
proof -
  let ?p = "(kp y)\<lparr>currentMS := now - createMS (kp y)\<rparr>"
  have s1: "sim t x (y\<lparr>kp := ?p\<rparr>)" by (rule sim_frame [OF s]) (simp_all)
  consider "receiveTimeoutMS ?p \<noteq> 0 \<and> receiveTimeoutMS ?p + lastReceiveMS ?p < currentMS ?p"
    | "\<not> (receiveTimeoutMS ?p \<noteq> 0 \<and> receiveTimeoutMS ?p + lastReceiveMS ?p < currentMS ?p)" "nextUpdateMS ?p > currentMS ?p"
    | (run) "\<not> (receiveTimeoutMS ?p \<noteq> 0 \<and> receiveTimeoutMS ?p + lastReceiveMS ?p < currentMS ?p)" "\<not> nextUpdateMS ?p > currentMS ?p" by blast
  then show ?thesis
  proof cases
    case run
    note kk = sim_kcb [OF t s k]
    obtain k' outs where u: "ikcp_update k (ucast (currentMS ?p)) = Some (k', outs)" using update_ok [OF kk(3-5)] by blast
    let ?q = "?p\<lparr>kcp := Some k', dgrams := dgrams ?p @ outs, nextUpdateMS := ucast (ikcp_check k' (ucast (currentMS ?p)))\<rparr>"
    let ?t = "t\<lparr>nb := (nb t)\<lparr>kcb := k'\<rparr>, wba := wba t \<union> set outs\<rparr>"
    have nd: "node_step (wab t) (nb t) ((nb t)\<lparr>kcb := k'\<rparr>) outs" using nd_update [of "nb t"] u kk(1) by auto
    have ts: "net_reach cv ?t" "sim ?t x (y\<lparr>kp := ?q\<rparr>)"
      using sim_node [OF t s _ nd, of ?q] k kk(1) by auto
    have "\<exists>p' n'. kcp_recv_loop (log_hooks ret) rdRoot ?q = Some (0, p') \<and> net_reach cv (?t\<lparr>nb := n'\<rparr>) \<and> sent n' = sent (nb ?t) \<and>
       segs n' = segs (nb ?t) \<and> kcp p' = Some (kcb n') \<and> live p' \<and> dgrams p' = dgrams ?q \<and> reached (asked y) (posted x) (length (got n')) p'"
      by (rule recv_loop_ok [OF ret ts(1)]) (use ts(2) kk(2) in \<open>auto simp: sim_def side_def\<close>)
    then obtain p' n' where l: "kcp_recv_loop (log_hooks ret) rdRoot ?q = Some (0, p')" "net_reach cv (?t\<lparr>nb := n'\<rparr>)"
      "sent n' = sent (nb ?t)" "segs n' = segs (nb ?t)" "kcp p' = Some (kcb n')" "live p'" "dgrams p' = dgrams ?q"
      "reached (asked y) (posted x) (length (got n')) p'" by blast
    have "sim (?t\<lparr>nb := n'\<rparr>) x (y\<lparr>kp := p'\<rparr>)" using ts(2) l(3-8) by (auto simp: sim_def side_def)
    moreover have "Kcp_Update (log_hooks ret) rdRoot now (kp y) = Some (0, p')"
      using run l(1) k u by (auto simp: Kcp_Update_def Let_def)
    ultimately show ?thesis using l(2) by blast
  qed (use t s1 in \<open>auto simp: Kcp_Update_def Let_def\<close>)
qed

lemma sim_ask:
  assumes "sim t x y"
  shows "sim t x (y\<lparr>kp := (kp y)\<lparr>callbacks := (serial (kp y), c, to) # filter (\<lambda>e. fst e \<noteq> serial (kp y)) (callbacks (kp y))\<rparr>,
     asked := asked y @ [(serial (kp y), c)]\<rparr>)"
proof -
  have "reached (asked y @ [(serial (kp y), c)]) P g
      ((kp y)\<lparr>callbacks := (serial (kp y), c, to) # filter (\<lambda>e. fst e \<noteq> serial (kp y)) (callbacks (kp y))\<rparr>)"
    if "reached (asked y) P g (kp y)" for P g
    using that by (fastforce simp: reached_def)
  then show ?thesis using assms by (simp add: sim_def side_def)
qed

text \<open>The three ways to post a package.\<close>

lemma post_b:
  assumes t: "net_reach cv t" and s: "sim t x y" and k: "kcp (kp y) = Some k"
    and okm: "\<And>m. okm m \<Longrightarrow> ok m \<and> 2048 + bound m \<le> 2 ^ 31" and po: "posts ev 0 \<noteq> []" and lg: "legal okm W ev y"
    and r: "kcp_peer_do (log_hooks ret) wrRoot rdRoot ev (kp y) = Some (r, p')"
    and n: "n = psegs y + queued p' - queued (kp y)" "n < HALF"
  shows "\<exists>t'. net_reach cv t' \<and> sim t' x \<lparr>kp = p', posted = posted y @ (if r = 0 then posts ev (serial p') else []),
     asked = asked y @ (if r = 0 then map (Pair (serial p')) (asks ev) else []), psegs = n\<rparr>"
proof (cases ev)
  case (KcPush fresh m)
  then show ?thesis using send_b [OF t s k, of m 0 fresh r p' n] okm lg r n by (cases "r = 0") (simp_all add: Kcp_SendPush_def)
next
  case (KcRespond fresh e m)
  then show ?thesis using send_b [OF t s k, of m e fresh r p' n] okm lg r n by (cases "r = 0") (simp_all add: Kcp_SendResponse_def)
next
  case (KcRequest fresh timer m tar c to)
  let ?p = "(kp y)\<lparr>serial := serial (kp y) + 1\<rparr>"
  have lv: "0 \<le> serial (kp y)" using sim_kcb(2) [OF t s k] by (simp add: live_def)
  have s1: "sim t x (y\<lparr>kp := ?p\<rparr>)" by (rule sim_frame [OF s]) (auto simp: live_def)
  have "SendRequest Kcp_alive (Kcp_SendPackage fresh wrRoot) timer m tar c to (kp y) = Some (r, p')"
    using r KcRequest by (simp add: Kcp_SendRequest_def)
  then show ?thesis
  proof (cases rule: SendRequest_cases)
    case refused
    have "sim t x (y\<lparr>kp := p'\<rparr>)" using refused(2) s s1 by auto
    moreover have "queued p' = queued (kp y)" using refused(2) by (auto simp: queued_def)
    ultimately show ?thesis using t refused(1) n(1) by (intro exI [of _ t]) (auto simp: sim_def side_def)
  next
    case (tried r2 p2)
    have i: "serial (kp y) + 1 < 2 ^ 31" using tried(1) r KcRequest
      by (auto simp: Kcp_SendRequest_def SendRequest_def i32_def split: if_splits)
    have q: "queued p' = queued p2" "queued ?p = queued (kp y)" using tried(3) by (auto simp: queued_def split: if_splits)
    have "\<exists>t'. net_reach cv t' \<and> sim t' x \<lparr>kp = p2, posted = posted y @ (if r2 = 0 then [(- (serial (kp y) + 1), m)] else []), asked = asked y, psegs = n\<rparr>"
      using send_b [OF t s1, of k m "- (serial (kp y) + 1)" fresh r2 p2 n] k okm lg KcRequest tried(2) n q i lv by simp
    then obtain t' where t': "net_reach cv t'"
      "sim t' x \<lparr>kp = p2, posted = posted y @ (if r2 = 0 then [(- (serial (kp y) + 1), m)] else []), asked = asked y, psegs = n\<rparr>" by blast
    have "serial p2 = serial (kp y) + 1" using Kcp_SendPackage_keeps [OF tried(2)] k by simp
    moreover have "sim t' x \<lparr>kp = p', posted = posted y @ (if r2 = 0 then [(- (serial (kp y) + 1), m)] else []),
        asked = asked y @ (if r2 = 0 then [(serial p2, c)] else []), psegs = n\<rparr>"
      using sim_ask [OF t'(2), of c to] tried(3) t'(2) by (auto split: if_splits)
    ultimately show ?thesis using t'(1) tried(3) KcRequest by (intro exI [of _ t']) (auto split: if_splits)
  qed
qed (use po in simp_all)

lemma act_b:
  assumes t: "net_reach cv t" and s: "sim t x y" and ret: "\<And>e. ret e = 0"
    and okm: "\<And>m. okm m \<Longrightarrow> ok m \<and> 2048 + bound m \<le> 2 ^ 31" and lg: "legal okm (set (dgrams (kp x))) ev y"
    and r: "endpoint_do ret wrRoot rdRoot ev y = Some y'" and n: "psegs y' < HALF"
  shows "\<exists>t'. net_reach cv t' \<and> sim t' x y'"
proof -
  obtain r p' where d: "kcp_peer_do (log_hooks ret) wrRoot rdRoot ev (kp y) = Some (r, p')"
    and y': "y' = \<lparr>kp = p', posted = posted y @ (if r = 0 then posts ev (serial p') else []),
        asked = asked y @ (if r = 0 then map (Pair (serial p')) (asks ev) else []),
        psegs = (if posts ev 0 = [] then psegs y else psegs y + queued p' - queued (kp y))\<rparr>"
    using r by (auto simp: endpoint_do_def bind_Some_iff)
  have quiet: "y' = y\<lparr>kp := p'\<rparr>" if "posts ev 0 = []" using y' that by (cases ev) simp_all
  show ?thesis
  proof (cases "kcp (kp y)")
    case None
    note f = dead_frame [OF None d]
    have "queued p' = queued (kp y)" using f None by (simp add: queued_def)
    then have "y' = y\<lparr>kp := p'\<rparr>" using y' f by auto
    moreover have "sim t x (y\<lparr>kp := p'\<rparr>)" by (rule sim_frame [OF s]) (use f in auto)
    ultimately show ?thesis using t by blast
  next
    case (Some k)
    have dis: ?thesis if "y' = y\<lparr>kp := p'\<rparr>" "net_reach cv t'" "sim t' x (y\<lparr>kp := q\<rparr>)" "p' = q \<or> Kcp_Dispose (log_hooks ret) flag q = Some p'" for q t' flag
      using that sim_frame [OF that(3), of p'] dispose_frame [of ret flag q p'] by auto
    show ?thesis
    proof (cases "posts ev 0 = []")
      case False
      then show ?thesis using post_b [OF t s Some okm False lg d refl] n y' by simp
    next
      case True
      note q = quiet [OF True]
      show ?thesis
      proof (cases ev)
        case (KcUpdate now)
        from update_b [where ret = ret and now = now, OF t s Some ret] obtain r1 q t' where
          u: "Kcp_Update (log_hooks ret) rdRoot now (kp y) = Some (r1, q)" "net_reach cv t'" "sim t' x (y\<lparr>kp := q\<rparr>)" by blast
        show ?thesis by (rule dis [OF q u(2,3), of 1]) (use d u(1) Some KcUpdate in \<open>auto split: if_splits simp: bind_Some_iff\<close>)
      next
        case (KcInput b)
        then obtain r1 p1 where i: "Kcp_Input b (kp y) = Some (r1, p1)" "p' = p1 \<or> Kcp_Dispose (log_hooks ret) 0 p1 = Some p'"
          using d Some by (auto simp: bind_Some_iff split: if_splits)
        from input_b [OF t s Some _ _ i(1)] lg KcInput Some obtain t' where "net_reach cv t'" "sim t' x (y\<lparr>kp := p1\<rparr>)" by auto
        from dis [OF q this i(2)] show ?thesis .
      next
        case KcFlush
        then show ?thesis using flush_b [OF t s] d q by auto
      next
        case (KcTimeout e)
        then have "sim t x (y\<lparr>kp := p'\<rparr>)" using timeout_frame [of ret e "kp y" p'] d by (intro sim_frame [OF s]) auto
        then show ?thesis using t q by blast
      next
        case (KcDispose flag)
        then have "sim t x (y\<lparr>kp := p'\<rparr>)" using dispose_frame [of ret flag "kp y" p'] d by (intro sim_frame [OF s]) auto
        then show ?thesis using t q by blast
      next
        case (KcReceiveTimeout ms)
        then have "sim t x (y\<lparr>kp := p'\<rparr>)" using d by (intro sim_frame [OF s]) (auto simp: SetReceiveTimeoutMS_def)
        then show ?thesis using t q by blast
      next
        case KcReset
        then have "sim t x (y\<lparr>kp := p'\<rparr>)" using d by (intro sim_frame [OF s]) (auto simp: ResetLastReceiveMS_def)
        then show ?thesis using t q by blast
      qed (use True in simp_all)
    qed
  qed
qed

lemma peers_sim:
  fixes ret :: "('m, 'c) seen \<Rightarrow> int"
  assumes "peers_reach ret wrRoot rdRoot okm g x y" and ret: "\<And>e. ret e = 0"
    and okm: "\<And>m. okm m \<Longrightarrow> ok m \<and> 2048 + bound m \<le> 2 ^ 31"
  shows "\<exists>t. net_reach g t \<and> sim t x y"
  using assms(1)
proof (induction rule: peers_reach.induct)
  case (peers_new k c1 c2)
  let ?n = "(node_init g)\<lparr>kcb := k\<rparr>" and ?x = "\<lambda>c. endpoint_new k c :: ('m, 'c) endpoint"
  have "side (?x c) ?n" for c
    using live_new [of k, where 'c = 'c and 'm = 'm] by (simp add: side_def endpoint_new_def node_init_def)
  then have "sim \<lparr>na = ?n, nb = ?n, wab = {}, wba = {}\<rparr> (?x c1) (?x c2)"
    by (simp add: sim_def reached_def endpoint_new_def)
  then show ?case using new_peers [OF peers_new] by blast
next
  case (peers_a x y ev x')
  then obtain t where "net_reach g t" "sim t x y" by blast
  then have "net_reach g (flip t)" "sim (flip t) y x" by (simp_all add: net_reach_flip sim_flip)
  from act_b [OF this ret okm peers_a.hyps(2,3,4)] obtain t' where "net_reach g t'" "sim t' y x'" by blast
  then show ?case using net_reach_flip [of g t'] sim_flip [of t' x' y] by blast
next
  case (peers_b x y ev y')
  then obtain t where "net_reach g t" "sim t x y" by blast
  then show ?case using act_b [OF _ _ ret okm peers_b.hyps(2,3,4)] by blast
qed

lemma send_defined:
  assumes t: "net_reach cv t" and s: "sim t x y" and m: "ok m" "2048 + bound m \<le> 2 ^ 31"
  shows "\<exists>r p'. Kcp_SendPackage fresh wrRoot m e 0 (kp y) = Some (r, p')"
proof (cases "kcp (kp y)")
  case None
  then show ?thesis by (simp add: Kcp_SendPackage_def)
next
  case (Some k)
  note k = sim_kcb [OF t s Some]
  have st: "stream k = 0" "cfg_inv k" using net_reach_ok [OF t] k(1,3) by (auto simp: net_ok_def node_good_def kcp_inv_def)
  from Kcp_SendPackage_ok [OF Some k(2) m, of fresh e] obtain bb d where
    e: "Kcp_SendPackage fresh wrRoot m e 0 (kp y) = map_option (\<lambda>(r, k'). (r, (kp y)\<lparr>sendBB := bb, kcp := Some k'\<rparr>))
         (ikcp_send fresh k (Some (frame_bytes d)) (int (length (frame_bytes d))))" and d: "is_package e m d" by blast
  have "length (frame_bytes d) < HALF" using package_length [OF d] m(2) by simp
  from send_message [OF st(2,1) this, of fresh] e show ?thesis by (auto split: if_splits)
qed

text \<open>A package that fits one segment is accepted.\<close>

lemma short_package_sent:
  assumes k: "kcp p = Some k" "live p" "cfg_inv k" "stream k = 0" and m: "ok m" "9 + bound m \<le> unat (mss k)" "2048 + bound m \<le> 2 ^ 31"
  shows "\<exists>bb k'. Kcp_SendPackage fresh wrRoot m e 0 p = Some (0, p\<lparr>sendBB := bb, kcp := Some k'\<rparr>) \<and>
     length (snd_queue k') = length (snd_queue k) + 1"
proof -
  from Kcp_SendPackage_ok [OF k(1,2) m(1,3), of fresh e] obtain bb d where
    e: "Kcp_SendPackage fresh wrRoot m e 0 p = map_option (\<lambda>(r, k'). (r, p\<lparr>sendBB := bb, kcp := Some k'\<rparr>))
         (ikcp_send fresh k (Some (frame_bytes d)) (int (length (frame_bytes d))))" and d: "is_package e m d" by blast
  have "length (frame_bytes d) < HALF" "frag_count (unat (mss k)) (length (frame_bytes d)) = 1"
    using package_length [OF d] m by (auto simp: frag_count_def)
  then show ?thesis using e send_message [OF k(3,4), of "frame_bytes d" fresh] by (auto intro!: exI [of _ bb])
qed

lemma peers_prefix:
  assumes "peers_reach ret wrRoot rdRoot okm g x y" "\<And>e. ret e = 0" "\<And>m. okm m \<Longrightarrow> ok m \<and> 2048 + bound m \<le> 2 ^ 31"
  shows "\<exists>i j. reached (asked y) (posted x) i (kp y) \<and> reached (asked x) (posted y) j (kp x)"
  using peers_sim [OF assms] by (auto simp: sim_def)

lemma peers_defined:
  assumes r: "peers_reach ret wrRoot rdRoot okm g x y" and ret: "\<And>e. ret e = 0"
    and okm: "\<And>m. okm m \<Longrightarrow> ok m \<and> 2048 + bound m \<le> 2 ^ 31" and k: "kcp (kp y) \<noteq> None"
  shows "\<exists>r p'. Kcp_Update (log_hooks ret) rdRoot now (kp y) = Some (r, p')" "\<exists>p'. Kcp_Flush (kp y) = Some p'"
    "okm m \<Longrightarrow> \<exists>r p'. Kcp_SendPackage fresh wrRoot m e 0 (kp y) = Some (r, p')"
proof -
  obtain t where t: "net_reach g t" "sim t x y" using peers_sim [OF r ret okm] by blast
  show "\<exists>r p'. Kcp_Update (log_hooks ret) rdRoot now (kp y) = Some (r, p')"
    using update_b [where ret = ret and now = now, OF t _ ret] k by blast
  show "\<exists>p'. Kcp_Flush (kp y) = Some p'" using flush_b [OF t] by blast
  show "\<exists>r p'. Kcp_SendPackage fresh wrRoot m e 0 (kp y) = Some (r, p')" if "okm m"
    using send_defined [OF t, of m fresh e] okm [OF that] by blast
qed

end

section \<open>Properties\<close>

definition graph_fits :: "nat \<Rightarrow> heap \<times> ptr \<Rightarrow> bool" where
  "graph_fits n g \<longleftrightarrow> graph_ok n g \<and> 2048 + graph_room g \<le> 2 ^ 31"




lemma kcb_example: "\<exists>k. kcp_peer_kcb Guid_zero = Inr k \<and> cfg_inv k \<and> stream k = 0 \<and> unat (mss k) = 1364 \<and> snd_queue k = []"
proof -
  obtain k where k: "kcp_peer_kcb Guid_zero = Inr k" by (simp add: kcp_peer_kcb_def ikcp_wndsize_def ikcp_nodelay_def Let_def)
  have "cfg_inv k" using net_reach_ok [OF new_peers [OF k]] by (simp add: net_ok_def node_good_def kcp_good_def kcp_inv_def)
  moreover have "stream k = 0 \<and> unat (mss k) = 1364 \<and> snd_queue k = []" using k
    by (auto simp: kcp_peer_kcb_def ikcp_wndsize_def ikcp_nodelay_def Let_def ikcp_setoutput_def ikcp_create_def IKCP_MTU_DEF_def IKCP_OVERHEAD_def)
  ultimately show ?thesis using k by blast
qed

text \<open>A request accepted by a new peer.\<close>

lemma request_example:
  fixes n :: "(string, (heap \<times> ptr, string) seen list) kcp_peer"
  assumes k: "cfg_inv k" "stream k = 0" "unat (mss k) = 1364" "snd_queue k = []" and n: "n = kcp_peer_new k"
  shows "\<exists>bb k'. Kcp_SendRequest ex_fresh (graph_write 3) None ([OFoo (Some 0) (Some 1), OList 4 [Some 0]], Some 0) 0 ''cb'' 0 n =
       Some (0, n\<lparr>serial := 1, sendBB := bb, kcp := Some k', callbacks := [(1, ''cb'', 0)]\<rparr>) \<and> length (snd_queue k') = 1"
proof -
  let ?g = "([OFoo (Some 0) (Some 1), OList 4 [Some 0]], Some 0) :: heap \<times> ptr" and ?p = "n\<lparr>serial := 1\<rparr>"
  have "live ?p" using live_new [of k, where 'c = string and 'm = "heap \<times> ptr"] by (simp add: n live_def)
  then obtain bb k' where s: "Kcp_SendPackage ex_fresh (graph_write 3) ?g (- 1) 0 ?p = Some (0, ?p\<lparr>sendBB := bb, kcp := Some k'\<rparr>)"
      "length (snd_queue k') = 1"
    using graph.short_package_sent [of ?p k 3 ?g ex_fresh "- 1"] k graph_room_example(1) graph_ok_example(1) by (auto simp: n)
  then have "Kcp_SendRequest ex_fresh (graph_write 3) None ?g 0 ''cb'' 0 n =
       Some (0, n\<lparr>serial := 1, sendBB := bb, kcp := Some k', callbacks := [(1, ''cb'', 0)]\<rparr>)"
    by (simp add: Kcp_SendRequest_def SendRequest_def Kcp_alive_iff i32_def n)
  with s(2) show ?thesis by blast
qed

lemma reach_example:
  "\<exists>x y :: (heap \<times> ptr, string) endpoint.
     peers_reach (\<lambda>_. 0) (graph_write 3) (graph_read 3) (graph_fits 3) Guid_zero x y \<and>
     posted x = [(- 1, ([OFoo (Some 0) (Some 1), OList 4 [Some 0]], Some 0))] \<and> asked x = [(1, ''cb'')] \<and> kcp (kp y) \<noteq> None"
proof -
  let ?g = "([OFoo (Some 0) (Some 1), OList 4 [Some 0]], Some 0) :: heap \<times> ptr"
  obtain k where k: "kcp_peer_kcb Guid_zero = Inr k" "cfg_inv k" "stream k = 0" "unat (mss k) = 1364" "snd_queue k = []"
    using kcb_example by blast
  let ?x = "endpoint_new k 0 :: (heap \<times> ptr, string) endpoint" and ?ev = "KcRequest ex_fresh None ?g 0 ''cb'' 0"
  have new: "kp ?x = kcp_peer_new k" by (simp add: endpoint_new_def kcp_peer_new_def)
  obtain bb k' where s: "Kcp_SendRequest ex_fresh (graph_write 3) None ?g 0 ''cb'' 0 (kp ?x) =
       Some (0, (kp ?x)\<lparr>serial := 1, sendBB := bb, kcp := Some k', callbacks := [(1, ''cb'', 0)]\<rparr>)" "length (snd_queue k') = 1"
    using request_example [OF k(2-5) new] by blast
  let ?x' = "\<lparr>kp = (kp ?x)\<lparr>serial := 1, sendBB := bb, kcp := Some k', callbacks := [(1, ''cb'', 0)]\<rparr>,
     posted = [(- 1, ?g)], asked = [(1, ''cb'')], psegs = 1\<rparr>"
  have "endpoint_do (\<lambda>_. 0) (graph_write 3) (graph_read 3) ?ev ?x = Some ?x'"
    using s k(5) by (simp add: endpoint_do_def endpoint_new_def queued_def)
  moreover have "legal (graph_fits 3) W ?ev ?x" for W
    using graph_ok_example(1) graph_room_example(1) by (simp add: graph_fits_def fresh_ok_def ex_fresh_def)
  ultimately have "peers_reach (\<lambda>_. 0) (graph_write 3) (graph_read 3) (graph_fits 3) Guid_zero ?x' ?x"
    by (intro peers_a [OF peers_new [OF k(1)]]) simp_all
  moreover have "posted ?x' = [(- 1, ?g)]" "asked ?x' = [(1, ''cb'')]" "kcp (kp ?x) \<noteq> None" by (simp_all add: endpoint_new_def)
  ultimately show ?thesis by blast
qed






end
