(* ===== verification/Owners.thy ===== *)
theory Owners
  imports KcpPeers
begin

text \<open>
  The owners of KCP peers (test\_uv\_3/xx\_uv.h, \<^verbatim>\<open>UvUdpKcpListener\<close> and \<^verbatim>\<open>UvUdpKcpDialer\<close>): one UDP socket, the
  datagrams of which are given to the peer that their first 16 bytes name, and a timer that updates the peers.
\<close>

section \<open>The listener\<close>

text \<open>
  A peer that some \<^verbatim>\<open>shared_ptr\<close> holds, with the address it sends to. \<open>lpeers\<close> is the \<^verbatim>\<open>unordered_map\<close> from
  connection ids to weak pointers: \<open>lheap\<close> is undefined at an object that nobody holds any more, which is
  when \<^verbatim>\<open>lock\<close> returns null. \<open>lout\<close> is what was handed to \<^verbatim>\<open>uv_udp_send\<close>; the datagrams of peers are accepted there.
\<close>

record ('a, 'c, 'u) held =
  hpeer :: "('c, 'u) kcp_peer"
  haddr :: 'a

record ('a, 'c, 'u) listener =
  lopen :: bool
  lms :: u64
  lpeers :: "(Guid \<times> nat) list"
  lheap :: "nat \<Rightarrow> ('a, 'c, 'u) held option"
  lnext :: nat
  lout :: "(bytes \<times> 'a) list"

text \<open>An operation of the peer at \<open>i\<close>; the datagrams it emits go to the peer's address.\<close>

definition with_peer ::
  "nat \<Rightarrow> (('c, 'u) kcp_peer \<Rightarrow> (int \<times> ('c, 'u) kcp_peer) option) \<Rightarrow> ('a, 'c, 'u) listener \<Rightarrow> (int \<times> ('a, 'c, 'u) listener) option" where
  "with_peer i f l = (case lheap l i of None \<Rightarrow> None | Some h \<Rightarrow> do {
     (r, p') \<leftarrow> f (hpeer h);
     Some (r, l\<lparr>lheap := (lheap l)(i \<mapsto> h\<lparr>hpeer := p'\<rparr>),
        lout := lout l @ map (\<lambda>d. (d, haddr h)) (drop (length (dgrams (hpeer h))) (dgrams p'))\<rparr>) })"

definition dispose_peer ::
  "('m, 'c, ('c, 'u) kcp_peer) hooks \<Rightarrow> int \<Rightarrow> nat \<Rightarrow> ('a, 'c, 'u) listener \<Rightarrow> ('a, 'c, 'u) listener option" where
  "dispose_peer H flag i l = map_option snd (with_peer i (\<lambda>p. map_option (Pair 0) (Kcp_Dispose H flag p)) l)"

fun dispose_peers ::
  "('m, 'c, ('c, 'u) kcp_peer) hooks \<Rightarrow> int \<Rightarrow> (Guid \<times> nat) list \<Rightarrow> ('a, 'c, 'u) listener \<Rightarrow> ('a, 'c, 'u) listener option" where
  "dispose_peers H flag [] l = Some l"
| "dispose_peers H flag (e # es) l = (case lheap l (snd e) of
       None \<Rightarrow> dispose_peers H flag es l
     | Some h \<Rightarrow> do { l' \<leftarrow> dispose_peer H flag (snd e) l; dispose_peers H flag es l' })"

text \<open>\<open>disc\<close> is the user's \<^verbatim>\<open>OnDisconnect\<close>.\<close>

definition Listener_Dispose ::
  "('m, 'c, ('c, 'u) kcp_peer) hooks \<Rightarrow> (('a, 'c, 'u) listener \<Rightarrow> ('a, 'c, 'u) listener option) \<Rightarrow> int
    \<Rightarrow> ('a, 'c, 'u) listener \<Rightarrow> ('a, 'c, 'u) listener option" where
  "Listener_Dispose H disc flag l = (if \<not> lopen l then Some l
     else do {
       l1 \<leftarrow> dispose_peers H flag (lpeers l) l;
       (if flag \<noteq> 0 then disc (l1\<lparr>lopen := False\<rparr>) else Some (l1\<lparr>lopen := False\<rparr>)) })"

definition Listener_Send ::
  "('m, 'c, ('c, 'u) kcp_peer) hooks \<Rightarrow> (bytes \<Rightarrow> int) \<Rightarrow> bytes \<Rightarrow> 'a \<Rightarrow> ('a, 'c, 'u) listener
    \<Rightarrow> (int \<times> ('a, 'c, 'u) listener) option" where
  "Listener_Send H uv_udp_send data addr l = (if \<not> lopen l then Some (- 1, l)
     else let r = uv_udp_send data in
       if r \<noteq> 0 then do { l' \<leftarrow> Listener_Dispose H Some 0 l; Some (r, l') }
       else Some (0, l\<lparr>lout := lout l @ [(data, addr)]\<rparr>))"

text \<open>The end of \<^verbatim>\<open>Unpack\<close>: the datagram is given to the peer.\<close>

definition feed_peer ::
  "('m, 'c, ('c, 'u) kcp_peer) hooks \<Rightarrow> nat \<Rightarrow> bytes \<Rightarrow> ('a, 'c, 'u) listener \<Rightarrow> ('a, 'c, 'u) listener option" where
  "feed_peer H i recvBuf l = (case lheap l i of None \<Rightarrow> None
     | Some h \<Rightarrow> if Kcp_Disposed (hpeer h) then Some l
         else do {
           (r, l1) \<leftarrow> with_peer i (Kcp_Input recvBuf) l;
           (if r \<noteq> 0 then dispose_peer H 0 i l1 else Some l1) })"

text \<open>
  \<open>create\<close> is \<^verbatim>\<open>CreatePeer\<close> (\<open>None\<close> for a null pointer), \<open>accept\<close> the user's \<^verbatim>\<open>OnAccept\<close>, which may change the peer
  and says whether it keeps the pointer. When nobody keeps it, the peer is destroyed as \<^verbatim>\<open>Unpack\<close>
  returns; its destructor disposes of it.
\<close>

definition Listener_Unpack ::
  "('m, 'c, ('c, 'u) kcp_peer) hooks \<Rightarrow> (Guid \<Rightarrow> ('c, 'u) kcp_peer option) \<Rightarrow> (Guid \<Rightarrow> ('c, 'u) kcp_peer \<Rightarrow> bool \<times> ('c, 'u) kcp_peer)
    \<Rightarrow> (bytes \<Rightarrow> int) \<Rightarrow> bytes \<Rightarrow> 'a \<Rightarrow> ('a, 'c, 'u) listener \<Rightarrow> (int \<times> ('a, 'c, 'u) listener) option" where
  "Listener_Unpack H create accept uv_udp_send recvBuf addr l =
     (if length recvBuf < 36 then Listener_Send H uv_udp_send recvBuf addr l
      else do {
        g \<leftarrow> Fill recvBuf;
        (let found = map_of (lpeers l) g in
         case Option.bind found (lheap l) of
           Some h \<Rightarrow> map_option (Pair 0) (feed_peer H (the found) recvBuf (l\<lparr>lheap := (lheap l)(the found \<mapsto> h\<lparr>haddr := addr\<rparr>)\<rparr>))
         | None \<Rightarrow> (case create g of None \<Rightarrow> Some (0, l)
             | Some p \<Rightarrow>
                 (let i = lnext l; p1 = p\<lparr>createMS := lms l\<rparr>;
                      (kept, p2) = (if found = None then accept g p1 else (False, p1));
                      l1 = l\<lparr>lpeers := (g, i) # filter (\<lambda>e. fst e \<noteq> g) (lpeers l), lnext := i + 1,
                         lheap := (lheap l)(i \<mapsto> \<lparr>hpeer = p2, haddr = addr\<rparr>)\<rparr>
                  in do {
                    l2 \<leftarrow> feed_peer H i recvBuf l1;
                    (if kept then Some (0, l2)
                     else do { l3 \<leftarrow> dispose_peer H 0 i l2; Some (0, l3\<lparr>lheap := (lheap l3)(i := None)\<rparr>) }) }))) })"

text \<open>The timer of the listener: every peer is updated, and the ids of those that failed or are gone are erased.\<close>

fun update_peers ::
  "('m, 'c, ('c, 'u) kcp_peer) hooks \<Rightarrow> (bbuffer \<Rightarrow> ('m rres \<times> bbuffer) option) \<Rightarrow> (Guid \<times> nat) list \<Rightarrow> Guid list
    \<Rightarrow> ('a, 'c, 'u) listener \<Rightarrow> (Guid list \<times> ('a, 'c, 'u) listener) option" where
  "update_peers H rd [] dels l = Some (dels, l)"
| "update_peers H rd (e # es) dels l =
     (if lheap l (snd e) \<noteq> None \<and> \<not> Kcp_Disposed (hpeer (the (lheap l (snd e)))) then do {
        (r, l1) \<leftarrow> with_peer (snd e) (Kcp_Update H rd (lms l)) l;
        (if r \<noteq> 0 then do { l2 \<leftarrow> dispose_peer H 1 (snd e) l1; update_peers H rd es (dels @ [fst e]) l2 }
         else update_peers H rd es dels l1) }
      else update_peers H rd es (dels @ [fst e]) l)"

definition Listener_Update ::
  "('m, 'c, ('c, 'u) kcp_peer) hooks \<Rightarrow> (bbuffer \<Rightarrow> ('m rres \<times> bbuffer) option) \<Rightarrow> u64 \<Rightarrow> ('a, 'c, 'u) listener
    \<Rightarrow> ('a, 'c, 'u) listener option" where
  "Listener_Update H rd now l = do {
     (dels, l1) \<leftarrow> update_peers H rd (lpeers l) [] (l\<lparr>lms := now\<rparr>);
     Some (l1\<lparr>lpeers := filter (\<lambda>e. fst e \<notin> set dels) (lpeers l1)\<rparr>) }"

section \<open>What the owner keeps\<close>

definition listener_inv :: "('a, 'c, 'u) listener \<Rightarrow> bool" where
  "listener_inv l \<longleftrightarrow> distinct (map fst (lpeers l)) \<and> distinct (map snd (lpeers l)) \<and> (\<forall>e \<in> set (lpeers l). snd e < lnext l)"

text \<open>The peer a connection id leads to.\<close>

definition peer_of :: "('a, 'c, 'u) listener \<Rightarrow> Guid \<Rightarrow> ('a, 'c, 'u) held option" where
  "peer_of l g = Option.bind (map_of (lpeers l) g) (lheap l)"

lemma held_update [simp]: "h\<lparr>haddr := a, hpeer := p\<rparr> = \<lparr>hpeer = p, haddr = a\<rparr>"
  by (cases h) simp

lemma map_of_others: "g' \<noteq> g \<Longrightarrow> map_of (filter (\<lambda>e. fst e \<noteq> g) xs) g' = map_of xs g'"
  by (induction xs) auto

lemma with_peer_frame:
  assumes "with_peer i f l = Some (r, l')"
  obtains h p' where "lheap l i = Some h" "f (hpeer h) = Some (r, p')" "lheap l' = (lheap l)(i \<mapsto> h\<lparr>hpeer := p'\<rparr>)"
    "lpeers l' = lpeers l" "lnext l' = lnext l" "lms l' = lms l"
  using assms by (auto simp: with_peer_def bind_Some_iff split: option.splits)

lemma dispose_peer_frame:
  assumes "dispose_peer H flag i l = Some l'"
  obtains h p' where "lheap l i = Some h" "Kcp_Dispose H flag (hpeer h) = Some p'" "lheap l' = (lheap l)(i \<mapsto> h\<lparr>hpeer := p'\<rparr>)"
    "lpeers l' = lpeers l" "lnext l' = lnext l" "lms l' = lms l"
  using assms by (auto simp: dispose_peer_def elim!: with_peer_frame)

text \<open>What becomes of a peer that is given a datagram.\<close>

definition fed :: "('m, 'c, ('c, 'u) kcp_peer) hooks \<Rightarrow> bytes \<Rightarrow> ('c, 'u) kcp_peer \<Rightarrow> ('c, 'u) kcp_peer \<Rightarrow> bool" where
  "fed H d p p' \<longleftrightarrow> (if Kcp_Disposed p then p' = p
     else \<exists>r p1. Kcp_Input d p = Some (r, p1) \<and> (if r \<noteq> 0 then Kcp_Dispose H 0 p1 = Some p' else p' = p1))"

lemma feed_peer_frame:
  assumes "feed_peer H i d l = Some l'"
  obtains h p' where "lheap l i = Some h" "fed H d (hpeer h) p'" "lheap l' = (lheap l)(i \<mapsto> h\<lparr>hpeer := p'\<rparr>)"
    "lpeers l' = lpeers l" "lnext l' = lnext l" "lms l' = lms l"
proof -
  obtain h where h: "lheap l i = Some h" using assms by (auto simp: feed_peer_def split: option.splits)
  show thesis
  proof (cases "Kcp_Disposed (hpeer h)")
    case True
    then have "l' = l" using assms h by (simp add: feed_peer_def)
    moreover have "lheap l = (lheap l)(i \<mapsto> h\<lparr>hpeer := hpeer h\<rparr>)" using h by auto
    ultimately show thesis using h True by (intro that [of h "hpeer h"]) (simp_all add: fed_def)
  next
    case False
    then obtain r l1 where 1: "with_peer i (Kcp_Input d) l = Some (r, l1)" "(if r \<noteq> 0 then dispose_peer H 0 i l1 else Some l1) = Some l'"
      using assms h by (auto simp: feed_peer_def bind_Some_iff)
    from with_peer_frame [OF 1(1)] obtain h1 p1 where
      w: "lheap l i = Some h1" "Kcp_Input d (hpeer h1) = Some (r, p1)" "lheap l1 = (lheap l)(i \<mapsto> h1\<lparr>hpeer := p1\<rparr>)"
        "lpeers l1 = lpeers l" "lnext l1 = lnext l" "lms l1 = lms l" by blast
    show thesis
    proof (cases "r = 0")
      case True
      then show thesis using 1(2) w h False by (intro that [of h p1]) (auto simp: fed_def)
    next
      case r: False
      then have "dispose_peer H 0 i l1 = Some l'" using 1(2) by simp
      from dispose_peer_frame [OF this] obtain h2 p2 where
        "lheap l1 i = Some h2" "Kcp_Dispose H 0 (hpeer h2) = Some p2" "lheap l' = (lheap l1)(i \<mapsto> h2\<lparr>hpeer := p2\<rparr>)"
        "lpeers l' = lpeers l1" "lnext l' = lnext l1" "lms l' = lms l1" by blast
      then show thesis using w h False r by (intro that [of h p2]) (auto simp: fed_def)
    qed
  qed
qed

lemma peer_of_other:
  assumes "listener_inv l" "map_of (lpeers l) g = Some i" "g' \<noteq> g" "\<And>j. j \<noteq> i \<Longrightarrow> lheap l' j = lheap l j" "lpeers l' = lpeers l"
  shows "peer_of l' g' = peer_of l g'"
proof (cases "map_of (lpeers l) g'")
  case (Some j)
  have "(g, i) \<in> set (lpeers l)" "(g', j) \<in> set (lpeers l)" using assms(2) Some by (auto dest: map_of_SomeD)
  moreover have "inj_on snd (set (lpeers l))" using assms(1) by (simp add: listener_inv_def distinct_map)
  ultimately have "j \<noteq> i" using assms(3) inj_onD [of snd "set (lpeers l)" "(g, i)" "(g', j)"] by auto
  then show ?thesis using Some assms(4,5) by (simp add: peer_of_def)
qed (simp add: peer_of_def assms(5))

lemma listener_inv_new:
  assumes "listener_inv l" "lpeers l' = (g, lnext l) # filter (\<lambda>e. fst e \<noteq> g) (lpeers l)" "lnext l' = lnext l + 1"
  shows "listener_inv l'"
  using assms by (fastforce simp: listener_inv_def distinct_map_filter)

text \<open>
  C8: a datagram of a KCP connection reaches the peer its first 16 bytes name and no other: the map
  stays well formed, every other connection keeps its peer unchanged, and the peer of this connection, when there is
  one, takes the datagram, is disposed of if it refuses it, and answers to the sender's address from now on.
\<close>

theorem listener_routes:
  assumes inv: "listener_inv l" and d: "36 \<le> length d" "Fill d = Some g"
    and u: "Listener_Unpack H create accept uvs d addr l = Some (r, l')"
  shows "r = 0 \<and> listener_inv l' \<and> (\<forall>g'. g' \<noteq> g \<longrightarrow> peer_of l' g' = peer_of l g') \<and>
    (\<forall>h. peer_of l g = Some h \<longrightarrow> (\<exists>p'. peer_of l' g = Some \<lparr>hpeer = p', haddr = addr\<rparr> \<and> fed H d (hpeer h) p'))"
proof (cases "peer_of l g")
  case (Some h)
  then obtain i where i: "map_of (lpeers l) g = Some i" "lheap l i = Some h" by (auto simp: peer_of_def bind_Some_iff)
  let ?l = "l\<lparr>lheap := (lheap l)(i \<mapsto> h\<lparr>haddr := addr\<rparr>)\<rparr>"
  have "feed_peer H i d ?l = Some l'" "r = 0" using u d Some i by (auto simp: Listener_Unpack_def Let_def)
  moreover from this(1) obtain h1 p' where "lheap ?l i = Some h1" "fed H d (hpeer h1) p'" "lheap l' = (lheap ?l)(i \<mapsto> h1\<lparr>hpeer := p'\<rparr>)"
      "lpeers l' = lpeers ?l" "lnext l' = lnext ?l" by (rule feed_peer_frame)
  ultimately show ?thesis using inv i Some peer_of_other [OF inv i(1), of _ l']
    by (auto simp: listener_inv_def peer_of_def)
next
  case None
  show ?thesis
  proof (cases "create g")
    case None': None
    then show ?thesis using u d None inv by (auto simp: Listener_Unpack_def Let_def peer_of_def)
  next
    case (Some p)
    obtain kept p2 where acc: "(if map_of (lpeers l) g = None then accept g (p\<lparr>createMS := lms l\<rparr>) else (False, p\<lparr>createMS := lms l\<rparr>)) = (kept, p2)"
      by force
    let ?i = "lnext l"
    let ?l = "l\<lparr>lpeers := (g, ?i) # filter (\<lambda>e. fst e \<noteq> g) (lpeers l), lnext := ?i + 1,
                         lheap := (lheap l)(?i \<mapsto> \<lparr>hpeer = p2, haddr = addr\<rparr>)\<rparr>"
    obtain l2 where l2: "feed_peer H ?i d ?l = Some l2"
      "(if kept then Some (0, l2) else do { l3 \<leftarrow> dispose_peer H 0 ?i l2; Some (0, l3\<lparr>lheap := (lheap l3)(?i := None)\<rparr>) }) = Some (r, l')"
      using u d None Some acc by (auto simp: Listener_Unpack_def Let_def peer_of_def bind_Some_iff simp del: if_split)
    from l2(1) obtain h1 p1 where f: "lheap l2 = (lheap ?l)(?i \<mapsto> h1\<lparr>hpeer := p1\<rparr>)" "lpeers l2 = lpeers ?l" "lnext l2 = lnext ?l"
      by (rule feed_peer_frame)
    have k: "r = 0 \<and> lpeers l' = lpeers ?l \<and> lnext l' = lnext ?l \<and> (\<forall>j. j \<noteq> ?i \<longrightarrow> lheap l' j = lheap l j)"
      using l2(2) f by (auto split: if_splits simp: bind_Some_iff elim!: dispose_peer_frame)
    then have "listener_inv l'" by (intro listener_inv_new [OF inv]) simp_all
    moreover have "peer_of l' g' = peer_of l g'" if "g' \<noteq> g" for g'
    proof -
      have m: "map_of (lpeers l') g' = map_of (lpeers l) g'" using that k by (simp add: map_of_others)
      have "j \<noteq> ?i" if "map_of (lpeers l) g' = Some j" for j
        using inv that by (auto simp: listener_inv_def dest: map_of_SomeD)
      then show ?thesis using k m by (cases "map_of (lpeers l) g'") (auto simp: peer_of_def)
    qed
    ultimately show ?thesis using k None by simp
  qed
qed

text \<open>
  A weak pointer that has expired but is not yet erased by the timer: the listener makes a new peer for the
  connection, does not announce it, because the id was in the map, and so nobody keeps it. The datagram is
  swallowed, whatever \<open>accept\<close> would have done, and this repeats until the next tick of the timer.
\<close>

theorem listener_swallows_reconnect:
  assumes d: "36 \<le> length d" "Fill d = Some g" and i: "map_of (lpeers l) g = Some i" "lheap l i = None" and new: "lheap l (lnext l) = None"
    and c: "create g = Some p" and u: "Listener_Unpack H create accept uvs d addr l = Some (r, l')"
  shows "r = 0 \<and> lheap l' = lheap l \<and> peer_of l' g = None"
proof -
  let ?i = "lnext l"
  let ?l = "l\<lparr>lpeers := (g, ?i) # filter (\<lambda>e. fst e \<noteq> g) (lpeers l), lnext := ?i + 1,
                         lheap := (lheap l)(?i \<mapsto> \<lparr>hpeer = p\<lparr>createMS := lms l\<rparr>, haddr = addr\<rparr>)\<rparr>"
  obtain l2 l3 where l2: "feed_peer H ?i d ?l = Some l2" "dispose_peer H 0 ?i l2 = Some l3" "r = 0" "l' = l3\<lparr>lheap := (lheap l3)(?i := None)\<rparr>"
    using u d i c by (auto simp: Listener_Unpack_def Let_def bind_Some_iff)
  from l2(1) obtain h1 p1 where "lheap l2 = (lheap ?l)(?i \<mapsto> h1\<lparr>hpeer := p1\<rparr>)" "lpeers l2 = lpeers ?l" by (rule feed_peer_frame)
  moreover from l2(2) obtain h3 p3 where "lheap l3 = (lheap l2)(?i \<mapsto> h3\<lparr>hpeer := p3\<rparr>)" "lpeers l3 = lpeers l2" by (rule dispose_peer_frame)
  ultimately show ?thesis using l2(3,4) new by (auto simp: peer_of_def fun_eq_iff)
qed

section \<open>The timer\<close>

text \<open>An \<^verbatim>\<open>Update\<close> that reports success leaves its peer alive: the receive loop ends at a live control block.\<close>

lemma recv_loop_alive:
  fixes H :: "('m, 'c, ('c, 'd) kcp_peer) hooks"
  assumes "kcp_recv_loop H rd p = Some (0, p')"
  shows "kcp p' \<noteq> None"
proof -
  have "fst (0 :: int, p') = 0 \<longrightarrow> kcp (snd (0 :: int, p')) \<noteq> None"
  proof (rule kcp_recv_loop.raw_induct [where P = "\<lambda>h r p y. fst y = 0 \<longrightarrow> kcp (snd y) \<noteq> None", OF _ assms])
    fix loop h r p and y :: "int \<times> ('c, 'd) kcp_peer"
    assume IH: "\<And>h r p (y :: int \<times> ('c, 'd) kcp_peer). loop h r p = Some y \<Longrightarrow> fst y = 0 \<longrightarrow> kcp (snd y) \<noteq> None"
      and e: "(case kcp p of None \<Rightarrow> None
     | Some k \<Rightarrow> do {
         ndk \<leftarrow> ikcp_recv k True 65536;
         (let n = fst ndk; d = fst (snd ndk); k' = snd (snd ndk) in
          if n \<le> 0 then Some (0, p\<lparr>kcp := Some k'\<rparr>)
          else do {
            rbp \<leftarrow> Kcp_Unpack (HandlePack h r) d (inbuf p) (p\<lparr>kcp := Some k'\<rparr>);
            (let q = fst rbp; p' = (snd (snd rbp))\<lparr>inbuf := fst (snd rbp)\<rparr> in
             if q \<noteq> 0 then Some (q, p') else loop h r p') }) }) = Some y"
    then show "fst y = 0 \<longrightarrow> kcp (snd y) \<noteq> None"
      by (auto simp: Let_def bind_Some_iff split: option.splits if_splits dest: IH)
  qed
  then show ?thesis by simp
qed

lemma Update_alive:
  assumes "Kcp_Update H rd now p = Some (0, p')" "\<not> Kcp_Disposed p"
  shows "\<not> Kcp_Disposed p'"
  using assms by (auto simp: Kcp_Update_def Kcp_Disposed_def Let_def bind_Some_iff split: if_splits option.splits dest: recv_loop_alive)

text \<open>What the timer does to one entry; \<open>D\<close> are the ids it erases.\<close>

definition ticked ::
  "('m, 'c, ('c, 'u) kcp_peer) hooks \<Rightarrow> (bbuffer \<Rightarrow> ('m rres \<times> bbuffer) option) \<Rightarrow> u64 \<Rightarrow> Guid set
    \<Rightarrow> (nat \<Rightarrow> ('a, 'c, 'u) held option) \<Rightarrow> (nat \<Rightarrow> ('a, 'c, 'u) held option) \<Rightarrow> Guid \<times> nat \<Rightarrow> bool" where
  "ticked H rd now D hp hp' e \<longleftrightarrow>
     (case hp (snd e) of
        None \<Rightarrow> fst e \<in> D
      | Some h \<Rightarrow> if Kcp_Disposed (hpeer h) then fst e \<in> D
          else \<exists>r p'. Kcp_Update H rd now (hpeer h) = Some (r, p') \<and>
            (if r = 0 then fst e \<notin> D \<and> hp' (snd e) = Some (h\<lparr>hpeer := p'\<rparr>)
             else fst e \<in> D \<and> (\<exists>p''. Kcp_Dispose H 1 p' = Some p'' \<and> hp' (snd e) = Some (h\<lparr>hpeer := p''\<rparr>))))"

lemma ticked_cong: "ticked H rd n D hq hp' e \<Longrightarrow> hq (snd e) = hp (snd e) \<Longrightarrow> ticked H rd n D hp hp' e"
  by (simp add: ticked_def)

lemma update_peers_spec:
  assumes "update_peers H rd es dels l = Some (dels', l')" "distinct (map fst es)" "distinct (map snd es)" "fst ` set es \<inter> set dels = {}"
  shows "lpeers l' = lpeers l \<and> lnext l' = lnext l \<and> lms l' = lms l \<and> set dels \<subseteq> set dels' \<and> set dels' \<subseteq> set dels \<union> fst ` set es \<and>
    (\<forall>j. j \<notin> snd ` set es \<longrightarrow> lheap l' j = lheap l j) \<and> (\<forall>e \<in> set es. ticked H rd (lms l) (set dels') (lheap l) (lheap l') e)"
  using assms
proof (induction es arbitrary: dels l)
  case (Cons e es)
  let ?g = "fst e" and ?i = "snd e"
  have i: "?i \<notin> snd ` set es" "?g \<notin> fst ` set es" and d: "distinct (map fst es)" "distinct (map snd es)" using Cons.prems by auto
  show ?case
  proof (cases "lheap l ?i \<noteq> None \<and> \<not> Kcp_Disposed (hpeer (the (lheap l ?i)))")
    case False
    then have u: "update_peers H rd es (dels @ [?g]) l = Some (dels', l')" using Cons.prems(1) by (simp only: update_peers.simps if_False)
    have "fst ` set es \<inter> set (dels @ [?g]) = {}" using Cons.prems(4) i by auto
    from Cons.IH [OF u d this] False show ?thesis by (auto simp: ticked_def split: option.splits)
  next
    case True
    then obtain r l1 where w: "with_peer ?i (Kcp_Update H rd (lms l)) l = Some (r, l1)"
      and rest: "(if r \<noteq> 0 then do { l2 \<leftarrow> dispose_peer H 1 ?i l1; update_peers H rd es (dels @ [?g]) l2 }
         else update_peers H rd es dels l1) = Some (dels', l')"
      using Cons.prems(1) unfolding update_peers.simps if_P [OF True] by (elim bind_pair_E) (rule that)
    from w obtain h p1 where 1: "lheap l ?i = Some h" "Kcp_Update H rd (lms l) (hpeer h) = Some (r, p1)" "lheap l1 = (lheap l)(?i \<mapsto> h\<lparr>hpeer := p1\<rparr>)"
        "lpeers l1 = lpeers l" "lnext l1 = lnext l" "lms l1 = lms l" by (rule with_peer_frame)
    show ?thesis
    proof (cases "r = 0")
      case r: True
      then have u: "update_peers H rd es dels l1 = Some (dels', l')" using rest by simp
      have "fst ` set es \<inter> set dels = {}" "?g \<notin> set dels" using Cons.prems(4) by auto
      note ih = Cons.IH [OF u d this(1)]
      have "lheap l' ?i = Some (h\<lparr>hpeer := p1\<rparr>)" "?g \<notin> set dels'" using ih 1(3) i \<open>?g \<notin> set dels\<close> by auto
      then have "ticked H rd (lms l) (set dels') (lheap l) (lheap l') e" using 1 r True by (simp add: ticked_def)
      moreover have "ticked H rd (lms l) (set dels') (lheap l) (lheap l') e'" if "e' \<in> set es" for e'
      proof (rule ticked_cong [where hq = "lheap l1"])
        show "ticked H rd (lms l) (set dels') (lheap l1) (lheap l') e'" using ih that by (simp only: 1(6))
        have "snd e' \<noteq> ?i" using i(1) that by (metis imageI)
        then show "lheap l1 (snd e') = lheap l (snd e')" by (simp add: 1(3))
      qed
      moreover have "lheap l' j = lheap l j" if "j \<notin> snd ` set (e # es)" for j using ih 1(3) that by simp
      ultimately show ?thesis using ih 1(4-6) by (intro conjI allI impI ballI) auto
    next
      case r: False
      then obtain l2 where l2: "dispose_peer H 1 ?i l1 = Some l2" and u: "update_peers H rd es (dels @ [?g]) l2 = Some (dels', l')"
        using rest by (auto simp: bind_Some_iff)
      from l2 obtain h2 p2 where 2: "lheap l1 ?i = Some h2" "Kcp_Dispose H 1 (hpeer h2) = Some p2" "lheap l2 = (lheap l1)(?i \<mapsto> h2\<lparr>hpeer := p2\<rparr>)"
        "lpeers l2 = lpeers l1" "lnext l2 = lnext l1" "lms l2 = lms l1" by (rule dispose_peer_frame)
      have "fst ` set es \<inter> set (dels @ [?g]) = {}" using Cons.prems(4) i by auto
      note ih = Cons.IH [OF u d this]
      have "lheap l' ?i = Some (h\<lparr>hpeer := p2\<rparr>)" "?g \<in> set dels'" using ih 1(3) 2 i by auto
      then have "ticked H rd (lms l) (set dels') (lheap l) (lheap l') e" using 1 2 r True by (auto simp: ticked_def)
      moreover have "ticked H rd (lms l) (set dels') (lheap l) (lheap l') e'" if "e' \<in> set es" for e'
      proof (rule ticked_cong [where hq = "lheap l2"])
        show "ticked H rd (lms l) (set dels') (lheap l2) (lheap l') e'" using ih that by (simp only: 1(6) 2(6))
        have "snd e' \<noteq> ?i" using i(1) that by (metis imageI)
        then show "lheap l2 (snd e') = lheap l (snd e')" by (simp add: 1(3) 2(3))
      qed
      moreover have "lheap l' j = lheap l j" if "j \<notin> snd ` set (e # es)" for j using ih 1(3) 2(3) that by simp
      ultimately show ?thesis using ih 1(4-6) 2(4-6) by (intro conjI allI impI ballI) auto
    qed
  qed
qed simp

text \<open>
  C9: a tick of the listener's timer keeps the map well formed and leaves exactly the connections whose peer is
  alive and whose \<^verbatim>\<open>Update\<close> succeeded, each with its updated, live peer; the peers whose
  update failed are disposed of.
\<close>

theorem listener_tick:
  assumes inv: "listener_inv l" and u: "Listener_Update H rd now l = Some l'"
  shows "listener_inv l' \<and> (\<forall>(g, i) \<in> set (lpeers l'). \<exists>h. lheap l' i = Some h \<and> \<not> Kcp_Disposed (hpeer h)) \<and>
    (\<forall>g i h. (g, i) \<in> set (lpeers l) \<longrightarrow> lheap l i = Some h \<longrightarrow> \<not> Kcp_Disposed (hpeer h) \<longrightarrow>
       (\<exists>r p'. Kcp_Update H rd now (hpeer h) = Some (r, p') \<and>
          (if r = 0 then (g, i) \<in> set (lpeers l') \<and> lheap l' i = Some (h\<lparr>hpeer := p'\<rparr>)
           else (g, i) \<notin> set (lpeers l') \<and> (\<exists>p''. Kcp_Dispose H 1 p' = Some p'' \<and> lheap l' i = Some (h\<lparr>hpeer := p''\<rparr>)))))"
proof -
  obtain dels l1 where 1: "update_peers H rd (lpeers l) [] (l\<lparr>lms := now\<rparr>) = Some (dels, l1)"
    and l': "l' = l1\<lparr>lpeers := filter (\<lambda>e. fst e \<notin> set dels) (lpeers l1)\<rparr>"
    using u by (auto simp: Listener_Update_def bind_Some_iff)
  have dis: "distinct (map fst (lpeers l))" "distinct (map snd (lpeers l))" using inv by (simp_all add: listener_inv_def)
  from update_peers_spec [OF 1 dis] have sp: "lpeers l1 = lpeers l" "lnext l1 = lnext l"
    and t: "\<forall>e \<in> set (lpeers l). ticked H rd now (set dels) (lheap l) (lheap l1) e" by auto
  have "listener_inv l'" using inv by (auto simp: listener_inv_def l' sp distinct_map_filter)
  moreover have "\<exists>h. lheap l' i = Some h \<and> \<not> Kcp_Disposed (hpeer h)" if "(g, i) \<in> set (lpeers l')" for g i
  proof -
    have "ticked H rd now (set dels) (lheap l) (lheap l1) (g, i)" "g \<notin> set dels" using t that l' sp by auto
    then show ?thesis using Update_alive by (fastforce simp: ticked_def l' split: option.splits if_splits)
  qed
  moreover have "\<exists>r p'. Kcp_Update H rd now (hpeer h) = Some (r, p') \<and>
          (if r = 0 then (g, i) \<in> set (lpeers l') \<and> lheap l' i = Some (h\<lparr>hpeer := p'\<rparr>)
           else (g, i) \<notin> set (lpeers l') \<and> (\<exists>p''. Kcp_Dispose H 1 p' = Some p'' \<and> lheap l' i = Some (h\<lparr>hpeer := p''\<rparr>)))"
    if a: "(g, i) \<in> set (lpeers l)" "lheap l i = Some h" "\<not> Kcp_Disposed (hpeer h)" for g i h
  proof -
    have "ticked H rd now (set dels) (lheap l) (lheap l1) (g, i)" using t a(1) by blast
    then show ?thesis using a by (auto simp: ticked_def l' sp split: if_splits)
  qed
  ultimately show ?thesis by blast
qed

section \<open>The dialer\<close>

text \<open>
  One peer at a time, under an id made for each attempt. \<open>dtimer\<close> tells whether the timer object is still there,
  \<open>dpending\<close> the address and port of a dial the timer will carry out.
\<close>

record ('a, 'i, 'c, 'u) dialer =
  dopen :: bool
  dms :: u64
  dguid :: Guid
  dpeer :: "('a, 'c, 'u) held option"
  dtimer :: bool
  dpending :: "'i option"
  dout :: "(bytes \<times> 'a) list"

text \<open>
  \<^verbatim>\<open>Dial\<close> only starts the timer; \<open>stop\<close> and \<open>start\<close> are what libuv returns. The timer is not tested for null, which it is
  after \<^verbatim>\<open>Dispose\<close>.
\<close>

definition Dialer_Dial :: "int \<Rightarrow> int \<Rightarrow> 'i \<Rightarrow> ('a, 'i, 'c, 'u) dialer \<Rightarrow> (int \<times> ('a, 'i, 'c, 'u) dialer) option" where
  "Dialer_Dial stop start target x = (if \<not> dtimer x then None
     else if stop \<noteq> 0 then Some (stop, x)
     else Some (start, x\<lparr>dpending := (if start = 0 then Some target else None)\<rparr>))"

text \<open>The timer fires: \<open>gen\<close> is the id that \<^verbatim>\<open>Guid::Gen\<close> makes, \<open>addr_of\<close> the conversion of the address.\<close>

definition Dialer_Fire ::
  "Guid \<Rightarrow> (Guid \<Rightarrow> ('c, 'u) kcp_peer option) \<Rightarrow> ('i \<Rightarrow> int + 'a) \<Rightarrow> (('a, 'i, 'c, 'u) dialer \<Rightarrow> ('a, 'i, 'c, 'u) dialer option)
    \<Rightarrow> ('a, 'i, 'c, 'u) dialer \<Rightarrow> ('a, 'i, 'c, 'u) dialer option" where
  "Dialer_Fire gen create addr_of conn x = (case dpending x of None \<Rightarrow> Some x
     | Some target \<Rightarrow>
         (let x1 = x\<lparr>dpending := None, dguid := gen\<rparr> in
          case create gen of None \<Rightarrow> Some (x1\<lparr>dpeer := None\<rparr>)
          | Some p \<Rightarrow> (case addr_of target of
                Inl r \<Rightarrow> Some (x1\<lparr>dpeer := None\<rparr>)
              | Inr a \<Rightarrow> conn (x1\<lparr>dpeer := Some \<lparr>hpeer = p\<lparr>createMS := dms x\<rparr>, haddr = a\<rparr>\<rparr>))))"

definition Dialer_Unpack ::
  "('m, 'c, ('c, 'u) kcp_peer) hooks \<Rightarrow> bytes \<Rightarrow> ('a, 'i, 'c, 'u) dialer \<Rightarrow> (int \<times> ('a, 'i, 'c, 'u) dialer) option" where
  "Dialer_Unpack H recvBuf x = (case dpeer x of None \<Rightarrow> Some (0, x)
     | Some h \<Rightarrow> if Kcp_Disposed (hpeer h) then Some (0, x)
         else if length recvBuf < 36 then Some (0, x)
         else do {
           g \<leftarrow> Fill recvBuf;
           (if Guid_ne (dguid x) g then Some (0, x)
            else do {
              (r, p1) \<leftarrow> Kcp_Input recvBuf (hpeer h);
              p2 \<leftarrow> (if r \<noteq> 0 then Kcp_Dispose H 0 p1 else Some p1);
              Some (0, x\<lparr>dpeer := Some (h\<lparr>hpeer := p2\<rparr>)\<rparr>) }) })"

definition Dialer_Update ::
  "('m, 'c, ('c, 'u) kcp_peer) hooks \<Rightarrow> (bbuffer \<Rightarrow> ('m rres \<times> bbuffer) option) \<Rightarrow> u64 \<Rightarrow> ('a, 'i, 'c, 'u) dialer
    \<Rightarrow> ('a, 'i, 'c, 'u) dialer option" where
  "Dialer_Update H rd now x =
     (let x = x\<lparr>dms := now\<rparr> in
      case dpeer x of None \<Rightarrow> Some x
      | Some h \<Rightarrow> if Kcp_Disposed (hpeer h) then Some x
          else do {
            (r, p1) \<leftarrow> Kcp_Update H rd now (hpeer h);
            let x1 = x\<lparr>dout := dout x @ map (\<lambda>d. (d, haddr h)) (drop (length (dgrams (hpeer h))) (dgrams p1))\<rparr>;
            (if r \<noteq> 0 then do { _ \<leftarrow> Kcp_Dispose H 1 p1; Some (x1\<lparr>dpeer := None\<rparr>) }
             else Some (x1\<lparr>dpeer := Some (h\<lparr>hpeer := p1\<rparr>)\<rparr>)) })"

definition Dialer_Dispose ::
  "('m, 'c, ('c, 'u) kcp_peer) hooks \<Rightarrow> (('a, 'i, 'c, 'u) dialer \<Rightarrow> ('a, 'i, 'c, 'u) dialer option) \<Rightarrow> int
    \<Rightarrow> ('a, 'i, 'c, 'u) dialer \<Rightarrow> ('a, 'i, 'c, 'u) dialer option" where
  "Dialer_Dispose H disc flag x = (if \<not> dopen x then Some x
     else do {
       _ \<leftarrow> (case dpeer x of None \<Rightarrow> Some () | Some h \<Rightarrow> map_option (\<lambda>_. ()) (Kcp_Dispose H 0 (hpeer h)));
       let x1 = x\<lparr>dpeer := None, dtimer := False, dpending := None, dopen := False\<rparr>;
       (if flag \<noteq> 0 then disc x1 else Some x1) })"

text \<open>
  A datagram left over from an earlier connection does not reach the peer of the next one.
\<close>

theorem dialer_ignores_old_connection:
  assumes "Dialer_Fire gen create addr_of Some x = Some x1" "dpending x \<noteq> None" "36 \<le> length d" "Fill d = Some g" "g \<noteq> gen"
  shows "Dialer_Unpack H d x1 = Some (0, x1)"
proof -
  have "dguid x1 = gen" using assms(1,2) by (auto simp: Dialer_Fire_def Let_def split: option.splits sum.splits)
  then show ?thesis using assms(3-5) by (auto simp: Dialer_Unpack_def Guid_ne_iff split: option.splits)
qed

text \<open>A dial after \<^verbatim>\<open>Dispose\<close> uses the timer that \<^verbatim>\<open>Dispose\<close> has let go.\<close>

theorem dial_after_dispose:
  assumes "Dialer_Dispose H Some flag x = Some x1" "dopen x"
  shows "Dialer_Dial stop start target x1 = None"
  using assms by (auto simp: Dialer_Dispose_def Dialer_Dial_def Let_def bind_Some_iff split: if_splits option.splits)

section \<open>Examples\<close>

definition ex_listener :: "(nat, string, (unit, string) seen list) listener" where
  "ex_listener = \<lparr>lopen = True, lms = 0, lpeers = [(Guid_zero, 0), (\<lparr>part1 = 5, part2 = 5\<rparr>, 1)],
     lheap = [0 \<mapsto> \<lparr>hpeer = (kcp_peer_new (ikcp_create Guid_zero))\<lparr>nextUpdateMS := 100\<rparr>, haddr = 7\<rparr>], lnext = 2, lout = []\<rparr>"

lemma ex_listener_inv: "listener_inv ex_listener"
  by (simp add: listener_inv_def ex_listener_def Guid_zero_def)

text \<open>A datagram with a command that does not exist: the peer refuses it and is disposed of.\<close>

definition ex_bad :: bytes where
  "ex_bad = replicate 36 0"

lemma ex_bad_fill: "Fill ex_bad = Some Guid_zero" and ex_bad_length: "length ex_bad = 36"
  by (code_simp, simp add: ex_bad_def)

lemma ex_input: "\<exists>k. ikcp_input (ikcp_create Guid_zero) (Some ex_bad) 36 = Some (- 3, k)"
proof -
  have "map_option fst (ikcp_input (ikcp_create Guid_zero) (Some ex_bad) 36) = Some (- 3)" by code_simp
  then show ?thesis by auto
qed

lemma ex_listener_alive: "kcp ((kcp_peer_new k)\<lparr>nextUpdateMS := 100\<rparr>) = Some k"
  by (simp add: kcp_peer_new_def)

theorem listener_routes_witness:
  "\<exists>r l' p'. Listener_Unpack (log_hooks (\<lambda>_. 0)) (\<lambda>_. None) (\<lambda>g p. (True, p)) (\<lambda>_. 0) ex_bad 9 ex_listener = Some (r, l') \<and>
     r = 0 \<and> peer_of l' Guid_zero = Some \<lparr>hpeer = p', haddr = 9\<rparr> \<and> peer_of l' \<lparr>part1 = 5, part2 = 5\<rparr> = None"
proof -
  let ?H = "log_hooks (\<lambda>_. 0) :: (unit, string, (string, (unit, string) seen list) kcp_peer) hooks"
  let ?p = "(kcp_peer_new (ikcp_create Guid_zero))\<lparr>nextUpdateMS := 100\<rparr> :: (string, (unit, string) seen list) kcp_peer"
  obtain k where c: "ikcp_input (ikcp_create Guid_zero) (Some ex_bad) 36 = Some (- 3, k)" using ex_input by blast
  let ?p1 = "?p\<lparr>kcp := Some k\<rparr>"
  have i: "Kcp_Input ex_bad ?p = Some (- 3, ?p1)" by (simp add: Kcp_Input_def ex_listener_alive ex_bad_length c)
  have "\<exists>p2. Kcp_Dispose ?H 0 ?p1 = Some p2"
    using Kcp_Dispose_log [of ?p1 "\<lambda>_. 0" 0] by auto
  then have "\<exists>l'. Listener_Unpack ?H (\<lambda>_. None) (\<lambda>g p. (True, p)) (\<lambda>_. 0) ex_bad (9 :: nat) ex_listener = Some (0, l')"
    using i by (auto simp: Listener_Unpack_def ex_bad_length ex_bad_fill Let_def ex_listener_def feed_peer_def with_peer_def
        dispose_peer_def Kcp_Disposed_def ex_listener_alive)
  then obtain l' where u: "Listener_Unpack ?H (\<lambda>_. None) (\<lambda>g p. (True, p)) (\<lambda>_. 0) ex_bad (9 :: nat) ex_listener = Some (0, l')" ..
  have "peer_of ex_listener Guid_zero = Some \<lparr>hpeer = ?p, haddr = 7\<rparr>" "peer_of ex_listener \<lparr>part1 = 5, part2 = 5\<rparr> = None"
    "\<lparr>part1 = 5, part2 = 5\<rparr> \<noteq> Guid_zero" by (simp_all add: peer_of_def ex_listener_def Guid_zero_def)
  with listener_routes [OF ex_listener_inv _ ex_bad_fill u] u show ?thesis by (auto simp: ex_bad_length)
qed

theorem listener_tick_witness:
  "\<exists>l'. Listener_Update (log_hooks (\<lambda>_. 0)) (\<lambda>bb. None) 16 ex_listener = Some l' \<and> listener_inv l' \<and> lpeers l' = [(Guid_zero, 0)] \<and>
     (\<forall>(g, i) \<in> set (lpeers l'). \<exists>h. lheap l' i = Some h \<and> \<not> Kcp_Disposed (hpeer h))"
proof -
  let ?H = "log_hooks (\<lambda>_. 0) :: (unit, string, (string, (unit, string) seen list) kcp_peer) hooks"
  let ?p = "(kcp_peer_new (ikcp_create Guid_zero))\<lparr>nextUpdateMS := 100\<rparr> :: (string, (unit, string) seen list) kcp_peer"
  have "Kcp_Update ?H (\<lambda>bb. None) 16 ?p = Some (0, ?p\<lparr>currentMS := 16\<rparr>)"
    by (simp add: Kcp_Update_def kcp_peer_new_def)
  then have "\<exists>l'. Listener_Update ?H (\<lambda>bb. None) 16 ex_listener = Some l' \<and> lpeers l' = [(Guid_zero, 0)]"
    by (auto simp: Listener_Update_def ex_listener_def with_peer_def Kcp_Disposed_def ex_listener_alive Guid_zero_def)
  then obtain l' where u: "Listener_Update ?H (\<lambda>bb. None) 16 ex_listener = Some l'" "lpeers l' = [(Guid_zero, 0)]" by blast
  with listener_tick [OF ex_listener_inv u(1)] show ?thesis by blast
qed

end
