(* ===== verification/Handles.thy ===== *)
theory Handles
  imports Prelude
begin

text \<open>
  The handles of the libuv wrapper (test\_uv\_3/xx\_uv.h) that run user code from the loop: \<^verbatim>\<open>UvAsync\<close>, \<^verbatim>\<open>UvTimer\<close> and
  \<^verbatim>\<open>UvTcpDialer\<close>. libuv itself is outside: its results are arguments, and when it calls back is a step of a
  transition system.
\<close>

section \<open>Actions from other threads\<close>

text \<open>
  \<^verbatim>\<open>UvAsync\<close>: \<open>actions\<close> is the deque, \<open>ran\<close> the actions run so far. \<open>signals\<close> counts the calls of \<^verbatim>\<open>uv_async_send\<close> that no
  callback has answered yet: libuv promises at least one callback after a send, and may let one callback answer
  several sends.
\<close>

record 'x async =
  uvAsync :: bool
  actions :: "'x list"
  ran :: "'x list"
  signals :: nat

definition Async_Dispatch :: "int \<Rightarrow> 'x \<Rightarrow> 'x async \<Rightarrow> int \<times> 'x async" where
  "Async_Dispatch uv_async_send a s = (if \<not> uvAsync s then (- 1, s)
     else (uv_async_send, s\<lparr>actions := actions s @ [a], signals := (if uv_async_send = 0 then signals s + 1 else signals s)\<rparr>))"

definition Async_Execute :: "'x async \<Rightarrow> 'x async option" where
  "Async_Execute s = (case actions s of [] \<Rightarrow> None | a # q \<Rightarrow> Some (s\<lparr>actions := q, ran := ran s @ [a]\<rparr>))"

definition Async_Dispose :: "'x async \<Rightarrow> 'x async" where
  "Async_Dispose s = s\<lparr>actions := [], uvAsync := False, signals := 0\<rparr>"

text \<open>The loop calls back, in answer to \<open>n\<close> sends.\<close>

definition Async_wake :: "nat \<Rightarrow> 'x async \<Rightarrow> 'x async option" where
  "Async_wake n s = Async_Execute (s\<lparr>signals := signals s - n\<rparr>)"

datatype 'x async_event = AsDispatch int 'x | AsWake nat | AsDispose

fun async_do :: "'x async_event \<Rightarrow> 'x async \<Rightarrow> 'x async option" where
  "async_do (AsDispatch r a) s = Some (snd (Async_Dispatch r a s))"
| "async_do (AsWake n) s = Async_wake n s"
| "async_do AsDispose s = Some (Async_Dispose s)"

fun async_legal :: "'x async_event \<Rightarrow> 'x async \<Rightarrow> bool" where
  "async_legal (AsWake n) s = (0 < n \<and> n \<le> signals s)"
| "async_legal _ s = True"

inductive async_reach :: "'x async \<Rightarrow> 'x list \<Rightarrow> bool" where
  async_new: "async_reach \<lparr>uvAsync = True, actions = [], ran = [], signals = 0\<rparr> []"
| async_next: "\<lbrakk>async_reach s d; async_legal ev s; async_do ev s = Some s'\<rbrakk>
   \<Longrightarrow> async_reach s' (case ev of AsDispatch r a \<Rightarrow> if uvAsync s then d @ [a] else d | _ \<Rightarrow> d)"

lemma async_reach_inv:
  "async_reach s d \<Longrightarrow> signals s \<le> length (actions s) \<and> (if uvAsync s then ran s @ actions s = d else actions s = [] \<and> (\<exists>q. ran s @ q = d))"
proof (induction rule: async_reach.induct)
  case (async_next s d ev s')
  then show ?case
  proof (cases ev)
    case (AsDispatch r a)
    then show ?thesis using async_next by (auto simp: Async_Dispatch_def)
  next
    case (AsWake n)
    then show ?thesis using async_next by (auto simp: Async_wake_def Async_Execute_def split: list.splits if_splits)
  next
    case AsDispose
    then show ?thesis using async_next by (auto simp: Async_Dispose_def split: if_splits)
  qed
qed simp

text \<open>
  C10: actions dispatched to the loop are run at most once and in the order of dispatch, and no callback
  of libuv, however it coalesces the signals, finds the deque empty.
\<close>

theorem async_runs_in_order:
  assumes "async_reach s d"
  shows "(\<exists>q. ran s @ q = d) \<and> (\<forall>n. async_legal (AsWake n) s \<longrightarrow> Async_wake n s \<noteq> None)"
proof -
  note inv = async_reach_inv [OF assms]
  have "Async_wake n s \<noteq> None" if "async_legal (AsWake n) s" for n
    using inv that by (cases "actions s") (auto simp: Async_wake_def Async_Execute_def)
  moreover have "\<exists>q. ran s @ q = d" using inv by (auto split: if_splits)
  ultimately show ?thesis by blast
qed

theorem async_runs_in_order_witness:
  "\<exists>s :: nat async. async_reach s [7] \<and> actions s = [7] \<and> (\<exists>q. ran s @ q = [7]) \<and> Async_wake 1 s \<noteq> None"
proof -
  let ?s = "\<lparr>uvAsync = True, actions = [7], ran = [], signals = 1\<rparr> :: nat async"
  have r: "async_reach ?s [7]" using async_next [OF async_new, of "AsDispatch 0 7" ?s] by (simp add: Async_Dispatch_def)
  from async_runs_in_order [OF r] r show ?thesis by (intro exI [of _ ?s]) simp
qed

text \<open>
  One callback runs one action. When libuv answers two dispatches with one callback, as it may, the second action stays in
  the deque and nothing will wake the loop for it.
\<close>

theorem async_strands_action:
  "\<exists>s. async_reach s [a, b] \<and> ran s = [a] \<and> actions s = [b] \<and> signals s = 0 \<and> (\<forall>n. \<not> async_legal (AsWake n) s)"
proof -
  let ?s0 = "\<lparr>uvAsync = True, actions = [], ran = [], signals = 0\<rparr> :: 'a async"
  let ?s1 = "\<lparr>uvAsync = True, actions = [a], ran = [], signals = 1\<rparr>" and ?s2 = "\<lparr>uvAsync = True, actions = [a, b], ran = [], signals = 2\<rparr>"
  let ?s3 = "\<lparr>uvAsync = True, actions = [b], ran = [a], signals = 0\<rparr>"
  have "async_reach ?s1 [a]" using async_next [OF async_new, of "AsDispatch 0 a" ?s1] by (simp add: Async_Dispatch_def)
  then have "async_reach ?s2 [a, b]" using async_next [of ?s1 "[a]" "AsDispatch 0 b" ?s2] by (simp add: Async_Dispatch_def)
  then have "async_reach ?s3 [a, b]" using async_next [of ?s2 "[a, b]" "AsWake 2" ?s3] by (simp add: Async_wake_def Async_Execute_def)
  then show ?thesis by (intro exI [of _ ?s3]) auto
qed

section \<open>Timers\<close>

text \<open>\<^verbatim>\<open>UvTimer\<close>: \<open>armed\<close> is what libuv was last asked to do with it (first delay and repeat interval).\<close>

record 'f timer =
  uvTimer :: bool
  timeoutMS :: u64
  repeatIntervalMS :: u64
  OnFire :: "'f option"
  armed :: "(u64 \<times> u64) option"

definition Timer_Start :: "int \<Rightarrow> u64 \<Rightarrow> u64 \<Rightarrow> 'f option \<Rightarrow> 'f timer \<Rightarrow> int \<times> 'f timer" where
  "Timer_Start uv_timer_start t rep onFire s = (if \<not> uvTimer s then (- 1, s)
     else let s1 = s\<lparr>timeoutMS := t, repeatIntervalMS := rep, OnFire := onFire\<rparr> in
       (uv_timer_start, if uv_timer_start = 0 then s1\<lparr>armed := Some (t, rep)\<rparr> else s1))"

definition Timer_Restart :: "int \<Rightarrow> 'f timer \<Rightarrow> int \<times> 'f timer" where
  "Timer_Restart uv_timer_start s = (if \<not> uvTimer s then (- 1, s)
     else (uv_timer_start, if uv_timer_start = 0 then s\<lparr>armed := Some (timeoutMS s, repeatIntervalMS s)\<rparr> else s))"

definition Timer_Stop :: "int \<Rightarrow> 'f timer \<Rightarrow> int \<times> 'f timer" where
  "Timer_Stop uv_timer_stop s = (if \<not> uvTimer s then (- 1, s) else (uv_timer_stop, if uv_timer_stop = 0 then s\<lparr>armed := None\<rparr> else s))"

definition Timer_Dispose :: "'f timer \<Rightarrow> 'f timer" where
  "Timer_Dispose s = s\<lparr>uvTimer := False, armed := None, OnFire := None\<rparr>"

text \<open>The callback of libuv, when the timer is due; \<open>run\<close> runs the user's function.\<close>

definition Timer_Fire :: "('f \<Rightarrow> 'w \<Rightarrow> 'w) \<Rightarrow> 'f timer \<Rightarrow> 'w \<Rightarrow> 'w" where
  "Timer_Fire run s w = (case OnFire s of None \<Rightarrow> w | Some f \<Rightarrow> run f w)"

section \<open>Dialing\<close>

text \<open>
  \<^verbatim>\<open>UvTcpDialer\<close>: connection attempts race, the first to connect becomes the peer. A request is named by its batch
  and its serial; \<open>reqs\<close> are the keys of the map of requests, \<open>inflight\<close> the requests that libuv will still call back, \<open>connects\<close>
  the calls of \<^verbatim>\<open>OnConnect\<close> with the peer at that moment.
\<close>

record tdialer =
  timeouter :: "unit timer option"
  tserial :: int
  reqs :: "int list"
  batchNumber :: int
  tpeer :: "(int \<times> int) option"
  inflight :: "(int \<times> int) list"
  connects :: "(int \<times> int) option list"

definition TDialer_Disposed :: "tdialer \<Rightarrow> bool" where
  "TDialer_Disposed d \<longleftrightarrow> timeouter d = None"

definition TDialer_Cancel :: "int \<Rightarrow> bool \<Rightarrow> tdialer \<Rightarrow> tdialer option" where
  "TDialer_Cancel stop resetPeer d = (case timeouter d of None \<Rightarrow> Some d
     | Some t \<Rightarrow> do {
         b \<leftarrow> i32 (batchNumber d + 1);
         Some (d\<lparr>timeouter := Some (snd (Timer_Stop stop t)), tpeer := (if resetPeer then None else tpeer d),
            reqs := [], tserial := 0, batchNumber := b\<rparr>) })"

definition TDialer_SetTimeout :: "int \<Rightarrow> int \<Rightarrow> u64 \<Rightarrow> tdialer \<Rightarrow> int \<times> tdialer" where
  "TDialer_SetTimeout stop start ms d = (case timeouter d of None \<Rightarrow> (- 1, d)
     | Some t \<Rightarrow> (let (r, t1) = Timer_Stop stop t in
         if ms = 0 then (r, d\<lparr>timeouter := Some t1\<rparr>)
         else let (r2, t2) = Timer_Start start ms 0 (Some ()) t1 in (r2, d\<lparr>timeouter := Some t2\<rparr>)))"

text \<open>0: free, 1: dialing, 2: connected, 3: disposed. \<open>alive\<close> tells whether the peer is not disposed of.\<close>

definition TDialer_State :: "bool \<Rightarrow> tdialer \<Rightarrow> int" where
  "TDialer_State alive d = (if timeouter d = None then 3 else if tpeer d \<noteq> None \<and> alive then 2 else if reqs d \<noteq> [] then 1 else 0)"

text \<open>
  The arguments \<open>addr\<close> and \<open>conn\<close> are the results of the address conversion and of \<^verbatim>\<open>uv_tcp_connect\<close>, \<open>created\<close> whether \<^verbatim>\<open>CreatePeer\<close>
  gave a peer; its result is used without a test. A request that libuv refuses is destroyed at once.
\<close>

definition TDialer_Dial :: "int \<Rightarrow> int \<Rightarrow> int \<Rightarrow> bool \<Rightarrow> int \<Rightarrow> u64 \<Rightarrow> bool \<Rightarrow> tdialer \<Rightarrow> (int \<times> tdialer) option" where
  "TDialer_Dial stop start addr created conn ms cleanup d = (if timeouter d = None then Some (- 1, d)
     else do {
       d1 \<leftarrow> (if cleanup then TDialer_Cancel stop True d else Some d);
       (if addr \<noteq> 0 then Some (addr, d1)
        else let (r, d2) = TDialer_SetTimeout stop start ms d1 in
          if r \<noteq> 0 then Some (r, d2)
          else do {
            s \<leftarrow> i32 (tserial d2 + 1);
            let d3 = d2\<lparr>tserial := s\<rparr>;
            (if \<not> created then None
             else if conn \<noteq> 0 then Some (- 3, d3\<lparr>reqs := removeAll s (reqs d3)\<rparr>)
             else Some (0, d3\<lparr>reqs := s # removeAll s (reqs d3), inflight := (batchNumber d3, s) # inflight d3\<rparr>)) }) })"

text \<open>libuv calls back; the destructor of the request erases its serial from the map.\<close>

definition TDialer_Connected :: "int \<Rightarrow> int \<Rightarrow> int \<times> int \<Rightarrow> tdialer \<Rightarrow> tdialer" where
  "TDialer_Connected status readStart q d =
     (let d1 = d\<lparr>inflight := remove1 q (inflight d)\<rparr>;
          d2 = (if status \<noteq> 0 \<or> batchNumber d > fst q \<or> tpeer d \<noteq> None \<or> readStart \<noteq> 0 then d1
                else d1\<lparr>tpeer := Some q, timeouter := None, connects := connects d @ [Some q]\<rparr>)
      in d2\<lparr>reqs := removeAll (snd q) (reqs d2)\<rparr>)"

definition TDialer_Timeout :: "int \<Rightarrow> tdialer \<Rightarrow> tdialer option" where
  "TDialer_Timeout stop d = (case timeouter d of None \<Rightarrow> Some d
     | Some t \<Rightarrow> if OnFire t = None then Some d
         else do { d' \<leftarrow> TDialer_Cancel stop True d; Some (d'\<lparr>connects := connects d' @ [tpeer d']\<rparr>) })"

definition TDialer_Dispose :: "int \<Rightarrow> tdialer \<Rightarrow> tdialer option" where
  "TDialer_Dispose stop d = (case timeouter d of None \<Rightarrow> Some d
     | Some _ \<Rightarrow> do { d' \<leftarrow> TDialer_Cancel stop True d; Some (d'\<lparr>timeouter := map_option Timer_Dispose (timeouter d')\<rparr>) })"

definition tdialer_new :: tdialer where
  "tdialer_new = \<lparr>timeouter = Some \<lparr>uvTimer = True, timeoutMS = 0, repeatIntervalMS = 0, OnFire = None, armed = None\<rparr>, tserial = 0, reqs = [],
     batchNumber = 0, tpeer = None, inflight = [], connects = []\<rparr>"

inductive tdialer_step :: "tdialer \<Rightarrow> tdialer \<Rightarrow> bool" where
  td_dial: "TDialer_Dial stop start addr created conn ms cleanup d = Some (r, d') \<Longrightarrow> tdialer_step d d'"
| td_connected: "q \<in> set (inflight d) \<Longrightarrow> tdialer_step d (TDialer_Connected status readStart q d)"
| td_timeout: "TDialer_Timeout stop d = Some d' \<Longrightarrow> tdialer_step d d'"
| td_cancel: "TDialer_Cancel stop resetPeer d = Some d' \<Longrightarrow> tdialer_step d d'"
| td_dispose: "TDialer_Dispose stop d = Some d' \<Longrightarrow> tdialer_step d d'"

inductive tdialer_reach :: "tdialer \<Rightarrow> bool" where
  td_new: "tdialer_reach tdialer_new"
| td_next: "tdialer_reach d \<Longrightarrow> tdialer_step d d' \<Longrightarrow> tdialer_reach d'"

text \<open>
  No request is of a later batch than the dialer; a peer was won by a request of the current
  batch, was announced once, and has cost the dialer its timer.
\<close>

definition tdialer_inv :: "tdialer \<Rightarrow> bool" where
  "tdialer_inv d \<longleftrightarrow> fst ` set (inflight d) \<subseteq> {..batchNumber d} \<and>
     (case tpeer d of None \<Rightarrow> set (connects d) \<subseteq> {None}
      | Some q \<Rightarrow> timeouter d = None \<and> fst q = batchNumber d \<and> filter (\<lambda>c. c \<noteq> None) (connects d) = [Some q])"

lemma Cancel_frame:
  assumes "TDialer_Cancel stop rp d = Some d'" "tdialer_inv d"
  shows "tdialer_inv d' \<and> (timeouter d = None \<longrightarrow> d' = d) \<and> (timeouter d \<noteq> None \<longrightarrow> timeouter d' \<noteq> None \<and> tpeer d' = None)"
  using assms by (fastforce simp: TDialer_Cancel_def tdialer_inv_def i32_def bind_Some_iff split: option.splits if_splits)

lemma SetTimeout_frame:
  assumes "TDialer_SetTimeout stop start ms d = (r, d')" "timeouter d \<noteq> None"
  shows "\<exists>t. d' = d\<lparr>timeouter := Some t\<rparr>"
  using assms by (auto simp: TDialer_SetTimeout_def split: option.splits prod.splits if_splits)

lemma inv_free:
  "tdialer_inv d \<Longrightarrow> timeouter d \<noteq> None \<Longrightarrow> tpeer d = None"
  by (auto simp: tdialer_inv_def split: option.splits)

lemma Dial_inv:
  assumes u: "TDialer_Dial stop start addr created conn ms cleanup d = Some (r, d')" and inv: "tdialer_inv d"
  shows "tdialer_inv d'"
proof (cases "timeouter d")
  case None
  then show ?thesis using assms by (simp add: TDialer_Dial_def)
next
  case (Some t)
  then obtain d1 where d1: "(if cleanup then TDialer_Cancel stop True d else Some d) = Some d1"
    using u by (auto simp: TDialer_Dial_def bind_Some_iff simp del: if_split)
  have i1: "tdialer_inv d1" "timeouter d1 \<noteq> None" using d1 Cancel_frame [of stop True d d1] inv Some by (auto split: if_splits)
  obtain r2 d2 where d2: "TDialer_SetTimeout stop start ms d1 = (r2, d2)" by force
  obtain t2 where t2: "d2 = d1\<lparr>timeouter := Some t2\<rparr>" using SetTimeout_frame [OF d2 i1(2)] by blast
  then have i2: "tdialer_inv d2" "tpeer d2 = None" using i1 inv_free [OF i1] by (simp_all add: tdialer_inv_def)
  obtain s rq where "d' = d1 \<or> d' = d2 \<or> d' = d2\<lparr>tserial := s, reqs := rq\<rparr> \<or>
      d' = d2\<lparr>tserial := s, reqs := rq, inflight := (batchNumber d2, s) # inflight d2\<rparr>"
    using u Some d1 d2 by (auto simp: TDialer_Dial_def Let_def bind_Some_iff simp del: if_split split: if_split_asm)
  then show ?thesis using i1 i2 by (elim disjE) (simp_all add: tdialer_inv_def)
qed

lemma tdialer_step_inv: "tdialer_step d d' \<Longrightarrow> tdialer_inv d \<Longrightarrow> tdialer_inv d'"
proof (induction rule: tdialer_step.induct)
  case (td_dial stop start addr created conn ms cleanup d r d')
  then show ?case by (rule Dial_inv)
next
  case (td_connected q d status readStart)
  let ?lost = "status \<noteq> 0 \<or> batchNumber d > fst q \<or> tpeer d \<noteq> None \<or> readStart \<noteq> 0"
  have sub: "fst ` set (remove1 q (inflight d)) \<subseteq> {..batchNumber d}"
    using td_connected.prems set_remove1_subset [of q "inflight d"] by (fastforce simp: tdialer_inv_def)
  show ?case
  proof (cases ?lost)
    case True
    then show ?thesis using td_connected.prems sub
      by (cases "tpeer d") (simp_all add: TDialer_Connected_def tdialer_inv_def Let_def if_P [OF True])
  next
    case False
    then have "set (connects d) \<subseteq> {None}" "fst q = batchNumber d"
      using td_connected by (auto simp: tdialer_inv_def split: option.splits)
    moreover from this(1) have "filter (\<lambda>c. c \<noteq> None) (connects d) = []" by (auto simp: filter_empty_conv)
    ultimately show ?thesis using False sub by (simp add: TDialer_Connected_def tdialer_inv_def Let_def)
  qed
next
  case (td_timeout stop d d')
  then obtain d1 where "d' = d \<or> timeouter d \<noteq> None \<and> TDialer_Cancel stop True d = Some d1 \<and> d' = d1\<lparr>connects := connects d1 @ [tpeer d1]\<rparr>"
    by (auto simp: TDialer_Timeout_def bind_Some_iff split: option.splits if_splits)
  then show ?case
  proof (elim disjE conjE)
    assume c: "timeouter d \<noteq> None" "TDialer_Cancel stop True d = Some d1" and d': "d' = d1\<lparr>connects := connects d1 @ [tpeer d1]\<rparr>"
    from Cancel_frame [OF c(2) td_timeout.prems] c(1) have "tdialer_inv d1" "tpeer d1 = None" by simp_all
    then show ?thesis by (simp add: d' tdialer_inv_def)
  qed (use td_timeout.prems in simp)
next
  case (td_cancel stop rp d d')
  then show ?case using Cancel_frame by blast
next
  case (td_dispose stop d d')
  then obtain d1 where "d' = d \<or> timeouter d \<noteq> None \<and> TDialer_Cancel stop True d = Some d1 \<and> d' = d1\<lparr>timeouter := map_option Timer_Dispose (timeouter d1)\<rparr>"
    by (auto simp: TDialer_Dispose_def bind_Some_iff split: option.splits)
  then show ?case
  proof (elim disjE conjE)
    assume c: "timeouter d \<noteq> None" "TDialer_Cancel stop True d = Some d1" and d': "d' = d1\<lparr>timeouter := map_option Timer_Dispose (timeouter d1)\<rparr>"
    from Cancel_frame [OF c(2) td_dispose.prems] c(1) have "tdialer_inv d1" "tpeer d1 = None" by simp_all
    then show ?thesis by (simp add: d' tdialer_inv_def)
  qed (use td_dispose.prems in simp)
qed

lemma tdialer_reach_inv: "tdialer_reach d \<Longrightarrow> tdialer_inv d"
proof (induction rule: tdialer_reach.induct)
  case td_new
  then show ?case by (simp add: tdialer_inv_def tdialer_new_def)
next
  case (td_next d d')
  then show ?case by (blast intro: tdialer_step_inv)
qed

text \<open>
  C11: of all the connection attempts of a TCP dialer, whatever their order, timeouts and
  cancellations, at most one becomes the peer: it is announced once, it is of the current batch, and it
  stays the peer whatever happens afterwards.
\<close>

theorem tcp_dialer_one_winner:
  assumes "tdialer_reach d" "tpeer d = Some q"
  shows "filter (\<lambda>c. c \<noteq> None) (connects d) = [Some q] \<and> fst q = batchNumber d \<and> (\<forall>d'. tdialer_step d d' \<longrightarrow> tpeer d' = Some q)"
proof -
  note inv = tdialer_reach_inv [OF assms(1)]
  have t: "timeouter d = None" using inv assms(2) by (simp add: tdialer_inv_def)
  have "tpeer d' = Some q" if "tdialer_step d d'" for d'
    using that
  proof cases
    case (td_connected p status readStart)
    then show ?thesis using assms(2) by (simp add: TDialer_Connected_def Let_def)
  qed (use t assms(2) in \<open>auto simp: TDialer_Dial_def TDialer_Timeout_def TDialer_Cancel_def TDialer_Dispose_def\<close>)
  then show ?thesis using inv assms(2) by (simp add: tdialer_inv_def)
qed

text \<open>
  C12: \<^verbatim>\<open>State\<close> never returns 2, which its comment calls connected: the callback that makes a connection the peer
  resets the pointer that marks the dialer as alive, so a connected dialer counts as disposed of and
  refuses every further \<^verbatim>\<open>Dial\<close>.
\<close>

theorem tcp_dialer_never_connected:
  assumes "tdialer_reach d"
  shows "TDialer_State alive d \<noteq> 2 \<and> (tpeer d \<noteq> None \<longrightarrow> TDialer_State alive d = 3 \<and>
    TDialer_Dial stop start addr created conn ms cleanup d = Some (- 1, d))"
  using tdialer_reach_inv [OF assms] by (auto simp: TDialer_State_def TDialer_Dial_def tdialer_inv_def split: option.splits)

text \<open>One attempt that connects.\<close>

lemma ex_dial_reach: "\<exists>d. tdialer_reach (TDialer_Connected 0 0 (1, 1) d) \<and> tpeer (TDialer_Connected 0 0 (1, 1) d) = Some (1, 1)"
proof -
  obtain r d where d: "TDialer_Dial 0 0 0 True 0 0 True tdialer_new = Some (r, d)" and
    f: "inflight d = [(1, 1)]" "batchNumber d = 1" "tpeer d = None"
    by (simp add: TDialer_Dial_def tdialer_new_def TDialer_Cancel_def TDialer_SetTimeout_def Timer_Stop_def i32_def)
  have "tdialer_reach d" by (rule td_next [OF td_new td_dial [OF d]])
  then have "tdialer_reach (TDialer_Connected 0 0 (1, 1) d)" by (rule td_next) (simp add: td_connected f)
  moreover have "tpeer (TDialer_Connected 0 0 (1, 1) d) = Some (1, 1)" by (simp add: TDialer_Connected_def f)
  ultimately show ?thesis by blast
qed

theorem tcp_dialer_one_winner_witness:
  "\<exists>d. tdialer_reach d \<and> tpeer d = Some (1, 1) \<and> filter (\<lambda>c. c \<noteq> None) (connects d) = [Some (1, 1)] \<and> batchNumber d = 1"
proof -
  obtain d where "tdialer_reach d" "tpeer d = Some (1, 1)" using ex_dial_reach by blast
  with tcp_dialer_one_winner [OF this] show ?thesis by auto
qed

theorem tcp_dialer_never_connected_witness:
  "\<exists>d. tdialer_reach d \<and> tpeer d = Some (1, 1) \<and> TDialer_State True d = 3 \<and> TDialer_Dial 0 0 0 True 0 0 True d = Some (- 1, d)"
proof -
  obtain d where "tdialer_reach d" "tpeer d = Some (1, 1)" using ex_dial_reach by blast
  with tcp_dialer_never_connected [OF this(1), of True 0 0 0 True 0 0 True] show ?thesis by auto
qed

text \<open>
  \<^verbatim>\<open>Cancel\<close> starts the serials again at 1 while libuv still has to call back the requests it
  cancelled: the destructor of an old request erases the entry of the new one. The dialer then says that it is free although a connection is
  under way, and a later \<^verbatim>\<open>Cancel\<close> does not cancel it.
\<close>

theorem tcp_dialer_forgets_request:
  "\<exists>d. tdialer_reach d \<and> inflight d = [(2, 1)] \<and> batchNumber d = 2 \<and> reqs d = [] \<and> TDialer_State alive d = 0"
proof -
  obtain r d where d: "TDialer_Dial 0 0 0 True 0 0 True tdialer_new = Some (r, d)" and
    f: "inflight d = [(1, 1)]" "batchNumber d = 1" "tpeer d = None" "timeouter d = timeouter tdialer_new"
    by (simp add: TDialer_Dial_def tdialer_new_def TDialer_Cancel_def TDialer_SetTimeout_def Timer_Stop_def i32_def)
  obtain r2 e where e: "TDialer_Dial 0 0 0 True 0 0 True d = Some (r2, e)" and
    g: "inflight e = [(2, 1), (1, 1)]" "batchNumber e = 2" "tpeer e = None" "reqs e = [1]" "timeouter e \<noteq> None"
    by (simp add: TDialer_Dial_def TDialer_Cancel_def TDialer_SetTimeout_def Timer_Stop_def i32_def f tdialer_new_def)
  let ?z = "TDialer_Connected (- 4081) 0 (1, 1) e"
  have "tdialer_reach e" by (rule td_next [OF td_next [OF td_new td_dial [OF d]] td_dial [OF e]])
  then have "tdialer_reach ?z" by (rule td_next) (simp add: td_connected g)
  then show ?thesis using g by (intro exI [of _ ?z]) (auto simp: TDialer_Connected_def TDialer_State_def)
qed

text \<open>\<^verbatim>\<open>Dispose\<close> disposes of the timer but keeps the pointer, so that \<^verbatim>\<open>Disposed\<close> stays false.\<close>

theorem tcp_dialer_dispose_not_disposed:
  assumes "TDialer_Dispose stop d = Some d'" "\<not> TDialer_Disposed d"
  shows "\<not> TDialer_Disposed d'"
  using assms by (auto simp: TDialer_Dispose_def TDialer_Disposed_def TDialer_Cancel_def bind_Some_iff split: option.splits)

end
