(* ===== verification/Randoms.thy ===== *)
theory Randoms
  imports Codecs
begin

text \<open>
  The random number generator of test\_uv\_3/xx\_random.h (the subtractive generator of .NET): seeding, sampling and its
  form in a \<^verbatim>\<open>BBuffer\<close>. Arithmetic is in \<^verbatim>\<open>int32_t\<close> with overflow undefined. The conversions to \<^verbatim>\<open>double\<close> are not modelled.
\<close>

section \<open>The generator\<close>

definition MBIG :: int where
  "MBIG = 2147483647"

definition MSEED :: int where
  "MSEED = 161803398"

record random =
  inext :: int
  inextp :: int
  seedArray :: "int list"

text \<open>An element of the array of 56 numbers.\<close>

definition seed_at :: "int list \<Rightarrow> int \<Rightarrow> int option" where
  "seed_at a i = (if 0 \<le> i \<and> i < 56 then Some (a ! nat i) else None)"

definition seed_put :: "int list \<Rightarrow> int \<Rightarrow> int \<Rightarrow> int list option" where
  "seed_put a i x = (if 0 \<le> i \<and> i < 56 then Some (a[nat i := x]) else None)"

text \<open>\<^verbatim>\<open>x - y\<close>, with \<^verbatim>\<open>MBIG\<close> added to a negative result.\<close>

definition sub_wrap :: "int \<Rightarrow> int \<Rightarrow> int option" where
  "sub_wrap x y = do { d \<leftarrow> i32 (x - y); if d < 0 then i32 (d + MBIG) else Some d }"

definition fill_step :: "int \<Rightarrow> int \<times> int \<times> int list \<Rightarrow> (int \<times> int \<times> int list) option" where
  "fill_step i st = (case st of (mj, mk, a) \<Rightarrow> do {
     let ii = (21 * i) mod 55;
     a1 \<leftarrow> seed_put a ii mk;
     mk1 \<leftarrow> sub_wrap mj mk;
     mj1 \<leftarrow> seed_at a1 ii;
     Some (mj1, mk1, a1) })"

definition mix_step :: "int \<Rightarrow> int list \<Rightarrow> int list option" where
  "mix_step i a = do {
     x \<leftarrow> seed_at a i;
     y \<leftarrow> seed_at a (1 + (i + 30) mod 55);
     d \<leftarrow> sub_wrap x y;
     seed_put a i d }"

definition Random_Init :: "int \<Rightarrow> random option" where
  "Random_Init seed = do {
     let subtraction = (if seed = - (2 ^ 31) then 2 ^ 31 - 1 else \<bar>seed\<bar>);
     mj \<leftarrow> i32 (MSEED - subtraction);
     a0 \<leftarrow> seed_put (replicate 56 0) 55 mj;
     (_, _, a1) \<leftarrow> kfold fill_step (map int [1..<55]) (mj, 1, a0);
     a2 \<leftarrow> kfold mix_step (concat (replicate 4 (map int [1..<56]))) a1;
     Some \<lparr>inext = 0, inextp = 21, seedArray = a2\<rparr> }"

definition InternalSample :: "random \<Rightarrow> (int \<times> random) option" where
  "InternalSample r = do {
     n \<leftarrow> i32 (inext r + 1);
     let locINext = (if n \<ge> 56 then 1 else n);
     np \<leftarrow> i32 (inextp r + 1);
     let locINextp = (if np \<ge> 56 then 1 else np);
     x \<leftarrow> seed_at (seedArray r) locINext;
     y \<leftarrow> seed_at (seedArray r) locINextp;
     d \<leftarrow> i32 (x - y);
     let d1 = (if d = MBIG then d - 1 else d);
     retVal \<leftarrow> (if d1 < 0 then i32 (d1 + MBIG) else Some d1);
     a \<leftarrow> seed_put (seedArray r) locINext retVal;
     Some (retVal, \<lparr>inext = locINext, inextp = locINextp, seedArray = a\<rparr>) }"

section \<open>Ranges\<close>

definition random_inv :: "random \<Rightarrow> bool" where
  "random_inv r \<longleftrightarrow> length (seedArray r) = 56 \<and> set (seedArray r) \<subseteq> {0..MBIG} \<and> inext r \<in> {0..55} \<and> inextp r \<in> {0..55}"

lemma seed_at_ok: "length a = 56 \<Longrightarrow> set a \<subseteq> {0..MBIG} \<Longrightarrow> 0 \<le> i \<Longrightarrow> i < 56 \<Longrightarrow> \<exists>x. seed_at a i = Some x \<and> 0 \<le> x \<and> x \<le> MBIG"
proof -
  assume a: "length a = 56" "set a \<subseteq> {0..MBIG}" "0 \<le> i" "i < 56"
  then have "a ! nat i \<in> {0..MBIG}" by (intro subsetD [OF a(2)]) simp
  with a show ?thesis by (simp add: seed_at_def)
qed

lemma seed_put_ok:
  assumes "length a = 56" "set a \<subseteq> {0..MBIG}" "0 \<le> i" "i < 56" "0 \<le> x" "x \<le> MBIG"
  shows "\<exists>b. seed_put a i x = Some b \<and> length b = 56 \<and> set b \<subseteq> {0..MBIG}"
  using assms set_update_subset_insert [of a "nat i" x] by (auto simp: seed_put_def)

lemma sub_wrap_ok: "0 \<le> x \<Longrightarrow> x \<le> MBIG \<Longrightarrow> 0 \<le> y \<Longrightarrow> y \<le> MBIG \<Longrightarrow> \<exists>d. sub_wrap x y = Some d \<and> 0 \<le> d \<and> d \<le> MBIG"
  by (auto simp: sub_wrap_def i32_def MBIG_def)

lemma mix_step_ok:
  assumes a: "length a = 56" "set a \<subseteq> {0..MBIG}" "1 \<le> i" "i < 56"
  shows "\<exists>b. mix_step i a = Some b \<and> length b = 56 \<and> set b \<subseteq> {0..MBIG}"
proof -
  obtain x where x: "seed_at a i = Some x" "0 \<le> x" "x \<le> MBIG" using seed_at_ok [OF a(1,2), of i] a(3,4) by auto
  have "0 \<le> 1 + (i + 30) mod 55" "1 + (i + 30) mod 55 < 56" using pos_mod_bound [of 55 "i + 30"] by simp_all
  then obtain y where y: "seed_at a (1 + (i + 30) mod 55) = Some y" "0 \<le> y" "y \<le> MBIG" using seed_at_ok [OF a(1,2)] by blast
  obtain d where d: "sub_wrap x y = Some d" "0 \<le> d" "d \<le> MBIG" using sub_wrap_ok [OF x(2,3) y(2,3)] by auto
  show ?thesis using seed_put_ok [OF a(1,2) _ a(4) d(2,3)] a(3) x(1) y(1) d(1) by (simp add: mix_step_def)
qed

lemma mix_ok:
  "\<forall>i \<in> set is. 1 \<le> i \<and> i < 56 \<Longrightarrow> length a = 56 \<Longrightarrow> set a \<subseteq> {0..MBIG} \<Longrightarrow>
   \<exists>b. kfold mix_step is a = Some b \<and> length b = 56 \<and> set b \<subseteq> {0..MBIG}"
proof (induction "is" arbitrary: a)
  case (Cons i "is")
  obtain b where "mix_step i a = Some b" "length b = 56" "set b \<subseteq> {0..MBIG}" using mix_step_ok [of a i] Cons.prems by auto
  then show ?case using Cons.IH [of b] Cons.prems(1) by simp
qed simp

lemma fill_step_ok:
  assumes "length a = 56" "set a \<subseteq> {0..MBIG}" "0 \<le> mj" "mj \<le> MBIG" "0 \<le> mk" "mk \<le> MBIG"
  shows "\<exists>mj' mk' b. fill_step i (mj, mk, a) = Some (mj', mk', b) \<and> length b = 56 \<and> set b \<subseteq> {0..MBIG} \<and>
     0 \<le> mj' \<and> mj' \<le> MBIG \<and> 0 \<le> mk' \<and> mk' \<le> MBIG"
proof -
  have i: "0 \<le> (21 * i) mod 55" "(21 * i) mod 55 < 56" using pos_mod_bound [of 55 "21 * i"] by simp_all
  obtain b where b: "seed_put a ((21 * i) mod 55) mk = Some b" "length b = 56" "set b \<subseteq> {0..MBIG}"
    using seed_put_ok [OF assms(1,2) i assms(5,6)] by auto
  obtain d where d: "sub_wrap mj mk = Some d" "0 \<le> d" "d \<le> MBIG" using sub_wrap_ok [OF assms(3-6)] by auto
  obtain x where x: "seed_at b ((21 * i) mod 55) = Some x" "0 \<le> x" "x \<le> MBIG" using seed_at_ok [OF b(2,3) i] by auto
  show ?thesis using b d x by (auto simp: fill_step_def)
qed

lemma fill_ok:
  "length a = 56 \<Longrightarrow> set a \<subseteq> {0..MBIG} \<Longrightarrow> 0 \<le> mj \<Longrightarrow> mj \<le> MBIG \<Longrightarrow> 0 \<le> mk \<Longrightarrow> mk \<le> MBIG \<Longrightarrow>
   \<exists>mj' mk' b. kfold fill_step is (mj, mk, a) = Some (mj', mk', b) \<and> length b = 56 \<and> set b \<subseteq> {0..MBIG}"
proof (induction "is" arbitrary: mj mk a)
  case (Cons i "is")
  obtain mj' mk' b where "fill_step i (mj, mk, a) = Some (mj', mk', b)" "length b = 56" "set b \<subseteq> {0..MBIG}"
     "0 \<le> mj'" "mj' \<le> MBIG" "0 \<le> mk'" "mk' \<le> MBIG" using fill_step_ok [OF Cons.prems] by blast
  then show ?case using Cons.IH [of b mj' mk'] by simp
qed simp

lemma Init_ok:
  assumes "\<bar>seed\<bar> \<le> MSEED"
  shows "\<exists>r. Random_Init seed = Some r \<and> random_inv r"
proof -
  let ?mj = "MSEED - \<bar>seed\<bar>"
  have mj: "0 \<le> ?mj" "?mj \<le> MBIG" "i32 ?mj = Some ?mj" "seed \<noteq> - (2 ^ 31)" using assms by (auto simp: MSEED_def MBIG_def i32_def)
  have "\<exists>b. seed_put (replicate 56 0) 55 ?mj = Some b \<and> length b = 56 \<and> set b \<subseteq> {0..MBIG}"
    by (rule seed_put_ok) (use mj in \<open>auto simp: MBIG_def\<close>)
  then obtain a0 where a0: "seed_put (replicate 56 0) 55 ?mj = Some a0" "length a0 = 56" "set a0 \<subseteq> {0..MBIG}" by blast
  obtain u v a1 where a1: "kfold fill_step (map int [1..<55]) (?mj, 1, a0) = Some (u, v, a1)" "length a1 = 56" "set a1 \<subseteq> {0..MBIG}"
    using fill_ok [OF a0(2,3) mj(1,2), of 1 "map int [1..<55]"] by (auto simp: MBIG_def)
  obtain a2 where a2: "kfold mix_step (concat (replicate 4 (map int [1..<56]))) a1 = Some a2" "length a2 = 56" "set a2 \<subseteq> {0..MBIG}"
    using mix_ok [OF _ a1(2,3), of "concat (replicate 4 (map int [1..<56]))"] by auto
  have "Random_Init seed = Some \<lparr>inext = 0, inextp = 21, seedArray = a2\<rparr>"
    using mj a0(1) a1(1) a2(1) by (simp add: Random_Init_def del: upt_rec_numeral)
  then show ?thesis using a2 by (simp add: random_inv_def)
qed

lemma InternalSample_ok:
  assumes "random_inv r"
  shows "\<exists>v r'. InternalSample r = Some (v, r') \<and> 0 \<le> v \<and> v < MBIG \<and> random_inv r'"
proof -
  define n where "n = (if inext r + 1 \<ge> 56 then 1 else inext r + 1)"
  define m where "m = (if inextp r + 1 \<ge> 56 then 1 else inextp r + 1)"
  have a: "length (seedArray r) = 56" "set (seedArray r) \<subseteq> {0..MBIG}" and i: "inext r \<in> {0..55}" "inextp r \<in> {0..55}"
    using assms by (simp_all add: random_inv_def)
  have nm: "0 \<le> n" "n < 56" "0 \<le> m" "m < 56" using i by (auto simp: n_def m_def)
  obtain x where x: "seed_at (seedArray r) n = Some x" "0 \<le> x" "x \<le> MBIG" using seed_at_ok [OF a nm(1,2)] by auto
  obtain y where y: "seed_at (seedArray r) m = Some y" "0 \<le> y" "y \<le> MBIG" using seed_at_ok [OF a nm(3,4)] by auto
  define v where "v = (if x - y = MBIG then x - y - 1 else if x - y < 0 then x - y + MBIG else x - y)"
  have v: "0 \<le> v" "v < MBIG" using x y by (auto simp: v_def MBIG_def split: if_splits)
  obtain b where b: "seed_put (seedArray r) n v = Some b" "length b = 56" "set b \<subseteq> {0..MBIG}"
    using seed_put_ok [OF a nm(1,2) v(1)] v(2) by auto
  have "InternalSample r = Some (v, \<lparr>inext = n, inextp = m, seedArray = b\<rparr>)"
    using i x y b v by (auto simp: InternalSample_def n_def m_def v_def i32_def MBIG_def Let_def)
  then show ?thesis using v b nm by (simp add: random_inv_def)
qed

text \<open>The first \<open>n\<close> numbers of a generator.\<close>

primrec samples :: "nat \<Rightarrow> random \<Rightarrow> (int list \<times> random) option" where
  "samples 0 r = Some ([], r)"
| "samples (Suc n) r = do { (v, r1) \<leftarrow> InternalSample r; (vs, r2) \<leftarrow> samples n r1; Some (v # vs, r2) }"

lemma samples_ok: "random_inv r \<Longrightarrow> \<exists>vs r'. samples n r = Some (vs, r') \<and> length vs = n \<and> set vs \<subseteq> {0..<MBIG} \<and> random_inv r'"
proof (induction n arbitrary: r)
  case (Suc n)
  obtain v r1 where v: "InternalSample r = Some (v, r1)" "0 \<le> v" "v < MBIG" "random_inv r1" using InternalSample_ok [OF Suc.prems] by blast
  then show ?case using Suc.IH [OF v(4)] by auto
qed simp

text \<open>
  C38: a generator seeded with a number of absolute value up to \<^verbatim>\<open>MSEED\<close> is set up without overflow, and
  every number it ever gives is in the documented range from 0 to below the largest \<^verbatim>\<open>int32_t\<close>.
\<close>

theorem random_in_range:
  assumes "\<bar>seed\<bar> \<le> MSEED"
  shows "\<exists>r vs r'. Random_Init seed = Some r \<and> samples n r = Some (vs, r') \<and> length vs = n \<and> (\<forall>v \<in> set vs. 0 \<le> v \<and> v < MBIG)"
proof -
  obtain r where r: "Random_Init seed = Some r" "random_inv r" using Init_ok [OF assms] by blast
  obtain vs r' where "samples n r = Some (vs, r')" "length vs = n" "set vs \<subseteq> {0..<MBIG}" using samples_ok [OF r(2)] by blast
  with r(1) show ?thesis by (intro exI [of _ r] exI [of _ vs] exI [of _ r']) auto
qed

theorem random_in_range_witness:
  "\<exists>r vs r'. Random_Init 42 = Some r \<and> samples 3 r = Some (vs, r') \<and> length vs = 3 \<and> (\<forall>v \<in> set vs. 0 \<le> v \<and> v < MBIG)"
  using random_in_range [of 42 3] by (simp add: MSEED_def)

text \<open>
  For larger seeds \<^verbatim>\<open>MSEED - subtraction\<close>, which is stored in the last place of the array, is negative. The mixing
  rounds subtract from it, which overflows for many of them, among them both extreme values.
\<close>

theorem random_seed_overflows: "Random_Init 2147483647 = None \<and> Random_Init (- 2147483648) = None"
  by code_simp

section \<open>The generator in a buffer\<close>

text \<open>\<^verbatim>\<open>memcpy\<close> of the 58 numbers, from \<^verbatim>\<open>inext\<close> on.\<close>

definition random_bytes :: "random \<Rightarrow> bytes" where
  "random_bytes r = concat (map (\<lambda>x. le_bytes 4 (word_of_int x :: u32)) (inext r # inextp r # seedArray r))"

fun int32s :: "bytes \<Rightarrow> int list" where
  "int32s (a # b # c # d # bs) = sint (le_word [a, b, c, d] :: u32) # int32s bs"
| "int32s _ = []"

definition random_of :: "bytes \<Rightarrow> random" where
  "random_of bs = (let xs = int32s bs in \<lparr>inext = xs ! 0, inextp = xs ! 1, seedArray = drop 2 xs\<rparr>)"

definition Random_ToBBuffer :: "random \<Rightarrow> bbuffer \<Rightarrow> bbuffer option" where
  "Random_ToBBuffer r bb = put_raw (random_bytes r) bb"

definition Random_FromBBuffer :: "bbuffer \<Rightarrow> (random rres \<times> bbuffer) option" where
  "Random_FromBBuffer bb = do { (r, bb') \<leftarrow> get_raw (- 1) 232 bb; Some (map_sum id random_of r, bb') }"

definition random_fits :: "random \<Rightarrow> bool" where
  "random_fits r \<longleftrightarrow> length (seedArray r) = 56 \<and> (\<forall>x \<in> set (inext r # inextp r # seedArray r). - (2 ^ 31) \<le> x \<and> x < 2 ^ 31)"

lemma int32s_bytes: "- (2 ^ 31) \<le> x \<Longrightarrow> x < 2 ^ 31 \<Longrightarrow> int32s (le_bytes 4 (word_of_int x :: u32) @ bs) = x # int32s bs"
proof -
  assume x: "- (2 ^ 31) \<le> x" "x < 2 ^ 31"
  let ?w = "word_of_int x :: u32"
  obtain a b c d where abcd: "le_bytes 4 ?w = [a, b, c, d]" by (simp add: numeral_eq_Suc)
  have "(le_word [a, b, c, d] :: u32) = ?w" unfolding abcd [symmetric] by (rule le_word_le_bytes) simp
  then show ?thesis unfolding abcd using x by (simp add: signed_of_int signed_take_bit_int_eq_self del: le_word.simps)
qed

lemma int32s_concat:
  "\<forall>x \<in> set xs. - (2 ^ 31) \<le> x \<and> x < 2 ^ 31 \<Longrightarrow> int32s (concat (map (\<lambda>x. le_bytes 4 (word_of_int x :: u32)) xs)) = xs"
  by (induction xs) (simp_all add: int32s_bytes)

lemma random_of_bytes: "random_fits r \<Longrightarrow> random_of (random_bytes r) = r"
  using int32s_concat [of "inext r # inextp r # seedArray r"] by (simp add: random_of_def random_bytes_def random_fits_def)

lemma length_random_bytes: "length (seedArray r) = 56 \<Longrightarrow> length (random_bytes r) = 232"
  by (simp add: random_bytes_def length_concat comp_def sum_list_triv)

interpretation random_codec: codec Random_ToBBuffer Random_FromBBuffer random_bytes random_fits
proof
  show "lstep 1 bb (Random_ToBBuffer r bb) (xs @ random_bytes r)"
    if "random_fits r" "lrep 1 bb xs" "fits 1 (length xs + length (random_bytes r) + 16)" for r bb xs
    using AddRange_fit [OF that(2), of "random_bytes r"] that(3) by (simp add: Random_ToBBuffer_def put_raw_AddRange)
  show "Random_FromBBuffer bb = Some (Inr r, bb\<lparr>offset := length pre + length (random_bytes r)\<rparr>)"
    if "random_fits r" "holds bb (pre @ random_bytes r @ rest)" "offset bb = length pre"
      "length (pre @ random_bytes r @ rest) < SIZE_BOUND" for r bb pre rest
    using get_raw_ok [OF that(2,3) _ that(4), of 232 "- 1"] random_of_bytes [OF that(1)] length_random_bytes [of r] that(1)
    by (simp add: Random_FromBBuffer_def random_fits_def)
qed

text \<open>A generator that is saved and restored continues with the same numbers.\<close>

theorem random_roundtrip:
  assumes "random_inv r" "lrep 1 bb xs" "fits 1 (length xs + 248)" "offset bb = length xs" "readLengthLimit bb = 0"
  shows "\<exists>bb' bb''. Random_ToBBuffer r bb = Some bb' \<and> Random_FromBBuffer bb' = Some (Inr r, bb'')"
proof -
  have "- (2 ^ 31) \<le> x \<and> x < 2 ^ 31" if "x \<in> set (seedArray r)" for x
  proof -
    have "x \<in> {0..MBIG}" using that assms(1) by (auto simp: random_inv_def)
    then show ?thesis by (simp add: MBIG_def)
  qed
  then have ok: "random_fits r" using assms(1) by (auto simp: random_inv_def random_fits_def)
  then have "length (random_bytes r) = 232" by (simp add: length_random_bytes random_fits_def)
  then have "fits 1 (length xs + length (random_bytes r) + 16)" using assms(3) by (simp add: add.commute)
  from random_codec.roundtrip [OF ok assms(2) this assms(4,5)] show ?thesis by blast
qed

text \<open>
  \<^verbatim>\<open>FromBBuffer\<close> takes the two indices as they come: a received generator whose \<^verbatim>\<open>inext\<close> is -2 reads in front of
  its array at the first use.
\<close>

theorem random_hostile_index:
  "inext (random_of (254 # 255 # 255 # 255 # replicate 228 0)) = - 2 \<and>
   InternalSample (random_of (254 # 255 # 255 # 255 # replicate 228 0)) = None"
  by code_simp

end
