(* ===== verification/Spec2Isabelle.thy ===== *)
theory Spec2Isabelle
  imports Prelude Objects Lists Buffers Codecs Iqueue Kcp KcpInv KcpUser KcpWire KcpClock KcpNet RingQueue
    HashUtils HashChain Dict DictInv HashSets
    MemPool PoolInv PoolAlloc SmartPtr Frames Peers Graph GraphTrip Messages KcpPeers PeerNet Owners Handles Randoms
begin

text \<open>
  A verification of the C++ core of \<^verbatim>\<open>xxlib_go\<close>: the header-only runtime library \<^verbatim>\<open>xx\<close> that its network
  services are written with. The repository carries it twice. \<^verbatim>\<open>src/test_uv_3\<close> has the later and smaller edition:
  a growable array (\<^verbatim>\<open>xx_list.h\<close>), utilities (\<^verbatim>\<open>xx_object.h\<close>), the serialiser (\<^verbatim>\<open>xx_bbuffer.h\<close>), the KCP reliable
  transport over UDP (\<^verbatim>\<open>ikcp.h\<close>) and the wrapper of libuv (\<^verbatim>\<open>xx_uv.h\<close>). \<^verbatim>\<open>src/test_uv_4\<close> has the older and larger one:
  a memory pool with counted and weak pointers (\<^verbatim>\<open>xx_mempool.h\<close>, \<^verbatim>\<open>xx_mempool.hpp\<close>), containers that take their memory
  from it (\<^verbatim>\<open>xx_queue.hpp\<close>, \<^verbatim>\<open>xx_dict.hpp\<close>, \<^verbatim>\<open>xx_hashset.hpp\<close>, \<^verbatim>\<open>xx_hashutils.hpp\<close>), strings and another serialiser. How they
  interact: a peer serialises an object graph behind a serial number into a \<^verbatim>\<open>BBuffer\<close>, which is a \<^verbatim>\<open>List<uint8_t>\<close>, and
  puts four bytes of length in front. A TCP peer hands the frame to libuv. A KCP peer hands it to \<^verbatim>\<open>ikcp_send\<close>; it leaves in
  datagrams through the output callback of \<^verbatim>\<open>ikcp_flush\<close>, is given by the listener or the dialer on the other side
  to the peer that its first 16 bytes name, enters through \<^verbatim>\<open>ikcp_input\<close> and comes out of \<^verbatim>\<open>ikcp_recv\<close>. On either way \<^verbatim>\<open>Unpack\<close> cuts the
  bytes into frames again and \<^verbatim>\<open>HandlePack\<close> reads the graph and calls the push handler, the request handler or the callback that waits for this
  answer. The older edition keeps every object of a service in the pool.

  \<^bold>\<open>Conventions.\<close> The models are functions to \<open>option\<close>: \<open>None\<close> is what C++ leaves undefined or stops on (an access
  outside a block, a read of a slot without an object, a signed overflow, an oversized shift, a failed assertion, a
  null or freed pointer), never a normal result. Error codes of the source are values of the result. Machine integers are
  words, or \<open>int\<close> and \<open>nat\<close> with the range test or the modulus written out (\<open>i32\<close>, \<open>sz_add\<close>, \<open>sz_mul\<close>). Memory blocks
  are lists of slots that hold an object or not. What is outside of the sources is an argument: the contents of fresh memory,
  the address \<^verbatim>\<open>malloc\<close> returns, the hash function of a key type, the clock. The targets are 64 bit and little-endian.

  \<^bold>\<open>Theories.\<close>
  \<^item> \<^verbatim>\<open>Prelude\<close>: integer types, faults, sizes, little-endian images, generic lemmas.
  \<^item> \<^verbatim>\<open>Objects\<close> (\<^verbatim>\<open>test_uv_3/xx_object.h\<close>): \<open>Calc2n\<close>, \<open>Round2n\<close>, \<open>Guid\<close> and its text form, \<open>ScopeGuard\<close>; their
    exact bounds, injectivity and round trips.
  \<^item> \<^verbatim>\<open>Lists\<close> (\<^verbatim>\<open>test_uv_3/xx_list.h\<close>): every method of \<^verbatim>\<open>List<T>\<close> on its block; \<open>lrep\<close> relates a list object to the
    sequence it holds, and each method refines the operation on sequences. The locale \<open>growable\<close> states what clients use.
  \<^item> \<^verbatim>\<open>Buffers\<close>, \<^verbatim>\<open>Codecs\<close> (\<^verbatim>\<open>test_uv_3/xx_bbuffer.h\<close>): fixed-size and variable-length integers, ZigZag, strings, lists,
    buffers; the locale \<open>codec\<close> composes writers and readers, with an instance per format. Round trips,
    safety of the integer readers on any input, and the inputs on which 64 bit integers and raw lists fault.
  \<^item> \<^verbatim>\<open>Iqueue\<close> (\<^verbatim>\<open>ikcp.h\<close>, the \<^verbatim>\<open>IQUEUE\<close> macros): circular lists on a heap of nodes; \<open>ring\<close> is their shape; the locale
    \<open>intrusive_queue\<close> gives the move and the drain loops, from which the queues of the next theory are lists.
  \<^item> \<^verbatim>\<open>Kcp\<close> (\<^verbatim>\<open>ikcp.h\<close>): the segment and the control block field by field, every operation of the protocol.
    \<^verbatim>\<open>KcpInv\<close>: the invariant \<open>kcp_inv\<close> and the input side; \<^verbatim>\<open>KcpUser\<close>: \<^verbatim>\<open>ikcp_send\<close> and \<^verbatim>\<open>ikcp_recv\<close>; \<^verbatim>\<open>KcpWire\<close>: the header and
    \<^verbatim>\<open>ikcp_flush\<close>; \<^verbatim>\<open>KcpClock\<close>: \<^verbatim>\<open>ikcp_update\<close>, \<^verbatim>\<open>ikcp_check\<close>, the settings, and the control block as a transition system;
    \<^verbatim>\<open>KcpNet\<close>: two control blocks and a network that loses, repeats, delays and reorders datagrams, as an inductive step
    relation, with in-order delivery as an invariant of the reachable states.
  \<^item> \<^verbatim>\<open>RingQueue\<close> (\<^verbatim>\<open>test_uv_4/xx_queue.hpp\<close>): the ring buffer and its refinement to lists (locale \<open>fifo\<close>).
  \<^item> \<^verbatim>\<open>HashUtils\<close> (\<^verbatim>\<open>xx_hashutils.hpp\<close>): prime tables, \<open>IsPrime\<close>, \<open>GetPrime\<close>, hash functions. \<^verbatim>\<open>HashChain\<close>: chains and free
    list threaded through arrays, shared by both tables, and the locale \<open>map_store\<close>. \<^verbatim>\<open>Dict\<close>, \<^verbatim>\<open>DictInv\<close>
    (\<^verbatim>\<open>xx_dict.hpp\<close>): the table and its refinement to finite maps. \<^verbatim>\<open>HashSets\<close> (\<^verbatim>\<open>xx_hashset.hpp\<close>): the set, simulated by the table.
  \<^item> \<^verbatim>\<open>MemPool\<close> (\<^verbatim>\<open>xx_mempool.h\<close>, \<^verbatim>\<open>xx_mempool.hpp\<close>): blocks with their headers, free lists by size class, \<open>Release\<close> with
    the destructors it runs, \<^verbatim>\<open>Ptr\<close>, \<^verbatim>\<open>Ref\<close>, \<^verbatim>\<open>Unique\<close>, \<^verbatim>\<open>Weak\<close>. \<^verbatim>\<open>PoolInv\<close>: the invariants of the free lists and of the
    counters. \<^verbatim>\<open>PoolAlloc\<close>: the pool as an instance of the locale \<open>allocator\<close>. \<^verbatim>\<open>SmartPtr\<close>: programs over the pointers,
    exactness of weak references.
  \<^item> \<^verbatim>\<open>Graph\<close>, \<^verbatim>\<open>GraphTrip\<close> (\<^verbatim>\<open>xx_bbuffer.h\<close>, \<^verbatim>\<open>WritePtr\<close> to \<^verbatim>\<open>ReadRoot\<close>, and the classes of \<^verbatim>\<open>gens/output/PKG_class.h\<close>): object graphs
    with sharing and cycles, the tables of offsets of writer and reader, the type registry. Any bytes at all build only
    well-typed objects; a graph that is written is read back isomorphic, except one with a player, which never is.
  \<^item> \<^verbatim>\<open>Frames\<close> (\<^verbatim>\<open>xx_uv.h\<close>, the three \<^verbatim>\<open>Unpack\<close>): the loop equals a reference function on byte lists, on every input.
  \<^item> \<^verbatim>\<open>Peers\<close> (\<^verbatim>\<open>UvTcpBasePeer\<close>, \<^verbatim>\<open>UvTcpPeer\<close>): packages, requests, callbacks, timeouts, disposal; user code is a parameter. The locale
    \<open>request_peer\<close> holds the bookkeeping of callbacks, \<open>msg_codec\<close> what a message type has to promise. \<^verbatim>\<open>Messages\<close> interprets
    the latter on object graphs: pushes arrive, requests are answered, callbacks are called once.
  \<^item> \<^verbatim>\<open>KcpPeers\<close> (\<^verbatim>\<open>UvUdpKcpPeer\<close>): the same on a control block, as the second instance of \<open>request_peer\<close>. \<^verbatim>\<open>PeerNet\<close>: two such peers
    and an unreliable network as a transition system. It simulates the one of \<^verbatim>\<open>KcpNet\<close>; what handlers see on one side
    is a prefix of what was sent on the other, answers reach their own callbacks, and no operation meets undefined behaviour.
  \<^item> \<^verbatim>\<open>Owners\<close> (\<^verbatim>\<open>UvUdpKcpListener\<close>, \<^verbatim>\<open>UvUdpKcpDialer\<close>): routing of datagrams by connection id, with peers on an explicit heap behind
    weak pointers, and the timer that updates them and drops the dead ones.
  \<^item> \<^verbatim>\<open>Handles\<close> (\<^verbatim>\<open>UvAsync\<close>, \<^verbatim>\<open>UvTimer\<close>, \<^verbatim>\<open>UvTcpDialer\<close>): transition systems in which libuv calls back when it likes; order of the
    actions, at most one winner among the connection attempts.
  \<^item> \<^verbatim>\<open>Randoms\<close> (\<^verbatim>\<open>xx_random.h\<close>): the generator, the range of its samples, its form in a buffer.

  \<^bold>\<open>Bounds and fuel.\<close> Loops over arrays and lists are structural. \<open>input_loop\<close>, \<open>venc\<close> and \<open>prime_from\<close> end by a
  measure. Chains of a hash table are searched with as much fuel as there are slots, which is proved
  to be enough for tables that satisfy the invariant. \<open>Release\<close> takes a bound on the depth of nested destructors; the number of
  objects is enough, and the theorems on programs ask for the number of operations. \<open>WritePtr\<close> and \<open>ReadPtr\<close> take
  a bound on the nesting of objects, for which the number of objects is enough. \<open>kcp_recv_loop\<close> is a partial function; that it returns is
  proved for all reachable peers. \<open>IsBaseOf\<close> may run for ever on a cyclic
  table and is a partial function. Version numbers are 56 bits wide: theorems speak of fewer than
  2^56 allocations; the network theorem of fewer than 2^31 segments, the range in which
  \<^verbatim>\<open>_itimediff\<close> orders serial numbers.

  \<^bold>\<open>Not modelled.\<close> \<^verbatim>\<open>test_uv_4/http_parser\<close> and \<^verbatim>\<open>libuv\<close> are vendored. Of \<^verbatim>\<open>xx_uv.h\<close> the loop object, the resolver, the TCP listener
  and the constructors are left out: they pass handles and callbacks to libuv and keep no state of their own. \<^verbatim>\<open>test_uv_4/xx_uv.cpp\<close> and
  the programs of \<^verbatim>\<open>test_asio_*\<close>, \<^verbatim>\<open>test_uv_*\<close>, \<^verbatim>\<open>test_libgo_1\<close>, \<^verbatim>\<open>test_coroutine_1\<close> drive sockets and callbacks of libraries outside
  the sources. \<^verbatim>\<open>test_uv_4/ikcp.cpp\<close> is a second copy of the protocol, and the serialiser, the list, the wrapper and the random numbers of
  \<^verbatim>\<open>test_uv_4\<close> are older editions of what is modelled here. Its strings format numbers and text through the C library. Floating point
  arithmetic is not modelled; floating point members are serialised as bit patterns. The generator under \<^verbatim>\<open>gens\<close> is C#, and the services under \<^verbatim>\<open>src/src\<close> are Go.
\<close>

section \<open>Typed messages across the network\<close>

text \<open>
  Typed messages over an unreliable network. One user writes pairs of a serial number and a text with the
  serialiser and sends the bytes; the network loses, repeats, delays and reorders datagrams at will. What the other user
  received is at any time, read with the serialiser, a prefix of the pairs: no message is lost in the middle, invented, repeated, altered or misread.
\<close>

theorem typed_messages_arrive:
  fixes ms :: "(u32 \<times> bytes) list"
  assumes "net_reach cv s" "map Some (sent (na s)) = map (pack (Write2 WriteVarS String_WriteBB)) ms" "\<forall>m\<in>set ms. length (snd m) < 2 ^ 31"
  shows "\<exists>n. map (unpack (ReadCore ReadVarS String_ReadBB)) (got (nb s)) = map Some (take n ms)"
proof -
  obtain n where n: "got (nb s) = take n (sent (na s))" using net_reach_ok [OF assms(1)] flow_prefix unfolding net_ok_def by blast
  have "fits 1 (length (venc (unat (ZigZagEncode (fst m))) @ venc (length (snd m)) @ snd m) + 16)" if "m \<in> set ms" for m
  proof -
    have l: "length (snd m) < 2 ^ 31" using assms(3) that by blast
    then have "length (venc (length (snd m))) \<le> 5" by (intro length_venc_le) simp_all
    with int32_enc_len [of "ZigZagEncode (fst m)"] l show ?thesis by (simp add: fits_def)
  qed
  then show ?thesis
    using serial_string_codec.unpack_all [OF _ assms(2), of n] assms(3) u32_less n by fastforce
qed

theorem typed_messages_arrive_witness:
  "\<exists>s n. net_reach Guid_zero s \<and> got (nb s) = [[3, 1, 65]]
     \<and> map (unpack (ReadCore ReadVarS String_ReadBB)) (got (nb s)) = map Some (take n [(- 2 :: u32, [65])])"
proof -
  obtain s where s: "net_reach Guid_zero s" "sent (na s) = [[3, 1, 65]]" "got (nb s) = [[3, 1, 65]]" using ex_reach by blast
  have z: "ZigZagEncode (- 2 :: u32) = 3" by code_simp
  have "pack (Write2 WriteVarS String_WriteBB) (- 2 :: u32, [65]) = Some [3, 1, 65]"
    using serial_string_codec.unpack_pack(1) [of "(- 2, [65])"] by (simp add: z venc.simps fits_def)
  then have "\<exists>n. map (unpack (ReadCore ReadVarS String_ReadBB)) (got (nb s)) = map Some (take n [(- 2 :: u32, [65])])"
    using typed_messages_arrive [OF s(1), of "[(- 2, [65])]"] s(2) by simp
  then show ?thesis using s(1,3) by blast
qed

end
